(* ===== verification/Gavel_Prelude.thy ===== *)
theory Gavel_Prelude
  imports Main "HOL-Library.Word" "HOL-Library.Product_Lexorder"
begin

text \<open>
  What the component theories share: Rust's integer widths with the saturating operations the
  sources use, \<open>BTreeMap\<close> as a sorted association list, the iterator combinators
  \<open>min_by_key\<close> and \<open>position\<close>, decimal formatting, and two interfaces that several components
  implement: \<open>ordered_map\<close>, what a client of \<open>BTreeMap\<close> relies on, and \<open>named_enum\<close>, the
  \<open>as_str\<close>/\<open>parse\<close> pair that every persisted enumeration has.

  Ids, counters and times are natural numbers; the width of a Rust field is written out where the
  source saturates or wraps (\<open>sat_add\<close>, \<open>mod 2 ^ 64\<close>). Code that works on bits (role sets, the
  digest, length prefixes) uses words of the source's width.
\<close>

named_theorems frame_simps \<open>fields an operation leaves alone\<close>
named_theorems bt_simps \<open>lookups and entries of ordered maps\<close>

section \<open>Integers\<close>

type_synonym u8 = "8 word"
type_synonym u32 = "32 word"
type_synonym u64 = "64 word"

type_synonym millis = nat
type_synonym nodeid = nat
type_synonym jobid = nat
type_synonym taskid = nat

abbreviation u8_max :: nat where "u8_max \<equiv> 255"
abbreviation u16_max :: nat where "u16_max \<equiv> 65535"
abbreviation u32_max :: nat where "u32_max \<equiv> 4294967295"
abbreviation u64_max :: nat where "u64_max \<equiv> 18446744073709551615"

text \<open>\<open>saturating_add\<close> at a type whose largest value is \<open>m\<close>.\<close>

definition sat_add :: "nat \<Rightarrow> nat \<Rightarrow> nat \<Rightarrow> nat" where
  "sat_add m a b = min m (a + b)"

lemma sat_add_le: "sat_add m a b \<le> m"
  by (simp add: sat_add_def)

lemma sat_add_ge: "a \<le> m \<Longrightarrow> a \<le> sat_add m a b"
  by (simp add: sat_add_def)

lemma sat_add_exact: "a + b \<le> m \<Longrightarrow> sat_add m a b = a + b"
  by (simp add: sat_add_def)

text \<open>Quotients and remainders from bounds, where a decision procedure is too slow.\<close>

lemma div_eqI: "0 < b \<Longrightarrow> b * q \<le> a \<Longrightarrow> a < b * (q + 1) \<Longrightarrow> a div b = q" for a b q :: int
proof -
  assume b: "0 < b" and lo: "b * q \<le> a" and hi: "a < b * (q + 1)"
  have "a = b * q + (a - b * q)" by simp
  moreover have "0 \<le> a - b * q" "a - b * q < b" using lo hi by (auto simp: algebra_simps)
  ultimately show "a div b = q" by (metis int_div_pos_eq)
qed

lemma mod_eqI: "a = b * q + r \<Longrightarrow> 0 \<le> r \<Longrightarrow> r < b \<Longrightarrow> a mod b = r" for a b q r :: int
  by simp

section \<open>Ordered maps\<close>

text \<open>
  \<open>BTreeMap\<close>: the entries in ascending key order. \<open>bt_insert\<close> replaces the value of a key that is
  there. \<open>bt_values\<close> is the order in which \<open>values()\<close> visits the map, which the supervisor's
  scheduling, election and pruning depend on.
\<close>

type_synonym ('k, 'v) btree = "('k \<times> 'v) list"

fun bt_insert :: "'k::linorder \<Rightarrow> 'v \<Rightarrow> ('k, 'v) btree \<Rightarrow> ('k, 'v) btree" where
  "bt_insert k v [] = [(k, v)]"
| "bt_insert k v ((a, b) # m) =
     (if k < a then (k, v) # (a, b) # m
      else if k = a then (k, v) # m
      else (a, b) # bt_insert k v m)"

definition bt_get :: "('k, 'v) btree \<Rightarrow> 'k \<Rightarrow> 'v option" where
  "bt_get m k = map_of m k"

definition bt_remove :: "'k \<Rightarrow> ('k, 'v) btree \<Rightarrow> ('k, 'v) btree" where
  "bt_remove k m = filter (\<lambda>p. fst p \<noteq> k) m"

definition bt_retain :: "('v \<Rightarrow> bool) \<Rightarrow> ('k, 'v) btree \<Rightarrow> ('k, 'v) btree" where
  "bt_retain P m = filter (\<lambda>p. P (snd p)) m"

definition bt_keys :: "('k, 'v) btree \<Rightarrow> 'k list" where
  "bt_keys m = map fst m"

definition bt_values :: "('k, 'v) btree \<Rightarrow> 'v list" where
  "bt_values m = map snd m"

definition bt_contains :: "('k, 'v) btree \<Rightarrow> 'k \<Rightarrow> bool" where
  "bt_contains m k \<longleftrightarrow> bt_get m k \<noteq> None"

text \<open>\<open>values_mut\<close>: every value replaced, no key touched.\<close>

definition bt_map :: "('v \<Rightarrow> 'v) \<Rightarrow> ('k, 'v) btree \<Rightarrow> ('k, 'v) btree" where
  "bt_map f m = map (\<lambda>p. (fst p, f (snd p))) m"

definition bt_wf :: "('k::linorder, 'v) btree \<Rightarrow> bool" where
  "bt_wf m \<longleftrightarrow> sorted_wrt (<) (map fst m)"

lemma bt_wf_Nil [simp]: "bt_wf []"
  by (simp add: bt_wf_def)

lemma bt_wf_distinct: "bt_wf m \<Longrightarrow> distinct (map fst m)"
  by (simp add: bt_wf_def strict_sorted_iff)

lemma keys_bt_insert: "fst ` set (bt_insert k v m) = insert k (fst ` set m)"
  by (induction k v m rule: bt_insert.induct) auto

lemma bt_wf_insert [simp, intro]: "bt_wf m \<Longrightarrow> bt_wf (bt_insert k v m)"
proof (induction k v m rule: bt_insert.induct)
  case (1 k v)
  then show ?case by (simp add: bt_wf_def)
next
  case (2 k v a b m)
  then have m: "bt_wf m" "\<forall>x\<in>fst ` set m. a < x" by (auto simp: bt_wf_def)
  show ?case
  proof (cases "a < k")
    case True
    then have "bt_insert k v ((a, b) # m) = (a, b) # bt_insert k v m" by auto
    moreover have "bt_wf (bt_insert k v m)" using 2 True m by auto
    moreover have "\<forall>x\<in>fst ` set (bt_insert k v m). a < x"
      using True m(2) by (simp add: keys_bt_insert)
    ultimately show ?thesis by (simp add: bt_wf_def)
  next
    case False
    then show ?thesis using 2(2) by (force simp: bt_wf_def)
  qed
qed

lemma bt_get_Nil [bt_simps, simp]: "bt_get [] k = None"
  by (simp add: bt_get_def)

lemma bt_get_insert [bt_simps, simp]:
  "bt_get (bt_insert k v m) x = (if x = k then Some v else bt_get m x)"
  by (induction k v m rule: bt_insert.induct) (auto simp: bt_get_def)

lemma bt_get_remove [bt_simps, simp]:
  "bt_get (bt_remove k m) x = (if x = k then None else bt_get m x)"
  by (induction m) (auto simp: bt_get_def bt_remove_def)

lemma bt_wf_filter: "bt_wf m \<Longrightarrow> bt_wf (filter P m)"
  unfolding bt_wf_def by (induction m) auto

lemma bt_wf_remove [simp, intro]: "bt_wf m \<Longrightarrow> bt_wf (bt_remove k m)"
  by (simp add: bt_remove_def bt_wf_filter)

lemma bt_wf_retain [simp, intro]: "bt_wf m \<Longrightarrow> bt_wf (bt_retain P m)"
  by (simp add: bt_retain_def bt_wf_filter)

lemma bt_wf_map [simp]: "bt_wf (bt_map f m) = bt_wf m"
  by (simp add: bt_wf_def bt_map_def comp_def)

lemma bt_get_map [bt_simps, simp]: "bt_get (bt_map f m) k = map_option f (bt_get m k)"
  by (induction m) (auto simp: bt_map_def bt_get_def)

lemma bt_keys_map [simp]: "bt_keys (bt_map f m) = bt_keys m"
  by (simp add: bt_keys_def bt_map_def comp_def)

lemma bt_get_iff_entry: "bt_wf m \<Longrightarrow> bt_get m k = Some v \<longleftrightarrow> (k, v) \<in> set m"
  by (simp add: bt_get_def map_of_eq_Some_iff [OF bt_wf_distinct])

lemma bt_get_entry: "bt_get m k = Some v \<Longrightarrow> (k, v) \<in> set m"
  by (simp add: bt_get_def map_of_SomeD)

lemma bt_get_None_iff: "bt_get m k = None \<longleftrightarrow> k \<notin> set (bt_keys m)"
  by (simp add: bt_get_def bt_keys_def map_of_eq_None_iff)

lemma option_eqI: "(\<And>v. a = Some v \<longleftrightarrow> b = Some v) \<Longrightarrow> a = b"
  by (metis option.exhaust)

lemma bt_get_retain [bt_simps]:
  "bt_wf m \<Longrightarrow> bt_get (bt_retain P m) k =
     (case bt_get m k of None \<Rightarrow> None | Some v \<Rightarrow> if P v then Some v else None)"
proof -
  assume wf: "bt_wf m"
  have "bt_get (bt_retain P m) k = Some v \<longleftrightarrow> bt_get m k = Some v \<and> P v" for v
    using wf by (simp add: bt_get_iff_entry bt_wf_retain) (simp add: bt_retain_def)
  then show ?thesis
    by (intro option_eqI) (auto split: option.splits)
qed

lemma bt_values_get: "bt_wf m \<Longrightarrow> v \<in> set (bt_values m) \<longleftrightarrow> (\<exists>k. bt_get m k = Some v)"
  by (force simp: bt_values_def bt_get_iff_entry)

lemma bt_keys_get: "k \<in> set (bt_keys m) \<longleftrightarrow> (\<exists>v. bt_get m k = Some v)"
  using bt_get_None_iff [of m k] by (cases "bt_get m k") auto

text \<open>How many values satisfy a predicate.\<close>

definition bt_count :: "('v \<Rightarrow> bool) \<Rightarrow> ('k, 'v) btree \<Rightarrow> nat" where
  "bt_count P m = length (filter P (bt_values m))"

lemma bt_count_Nil [simp]: "bt_count P [] = 0"
  by (simp add: bt_count_def bt_values_def)

lemma bt_count_Cons: "bt_count P ((k, v) # m) = of_bool (P v) + bt_count P m"
  by (simp add: bt_count_def bt_values_def)

lemma bt_get_Cons: "bt_get ((a, b) # m) k = (if k = a then Some b else bt_get m k)"
  by (simp add: bt_get_def)

lemma bt_get_below: "bt_wf ((a, b) # m) \<Longrightarrow> k < a \<Longrightarrow> bt_get m k = None"
  by (force simp: bt_wf_def bt_get_None_iff bt_keys_def)

lemma bt_insert_same: "bt_wf m \<Longrightarrow> bt_get m k = Some v \<Longrightarrow> bt_insert k v m = m"
proof (induction k v m rule: bt_insert.induct)
  case (2 k w a b m)
  have "bt_wf m" using "2.prems"(1) by (simp add: bt_wf_def)
  moreover have "\<not> k < a" using "2.prems" bt_get_below [of a b m k] by (auto simp: bt_get_Cons split: if_splits)
  ultimately show ?case using 2 by (auto simp: bt_get_Cons split: if_splits)
qed simp

lemma bt_count_insert_new [bt_simps]:
  "bt_get m k = None \<Longrightarrow> bt_count P (bt_insert k w m) = bt_count P m + of_bool (P w)"
  by (induction k w m rule: bt_insert.induct) (auto simp: bt_count_Cons bt_get_Cons split: if_splits)

lemma bt_count_insert_old:
  "bt_wf m \<Longrightarrow> bt_get m k = Some v \<Longrightarrow>
     bt_count P (bt_insert k w m) + of_bool (P v) = bt_count P m + of_bool (P w)"
proof (induction k w m rule: bt_insert.induct)
  case (2 k w a b m)
  have "bt_wf m" using "2.prems"(1) by (simp add: bt_wf_def)
  moreover have "\<not> k < a" using "2.prems" bt_get_below [of a b m k] by (auto simp: bt_get_Cons split: if_splits)
  ultimately show ?case using 2 by (auto simp: bt_count_Cons bt_get_Cons split: if_splits)
qed simp

lemma bt_count_retain: "bt_count P (bt_retain Q m) = bt_count (\<lambda>v. P v \<and> Q v) m"
  by (induction m) (auto simp: bt_count_def bt_values_def bt_retain_def)

lemma bt_count_cong: "(\<And>v. v \<in> set (bt_values m) \<Longrightarrow> P v = Q v) \<Longrightarrow> bt_count P m = bt_count Q m"
  unfolding bt_count_def by (metis (no_types, lifting) filter_cong)

lemma bt_count_mono: "(\<And>v. v \<in> set (bt_values m) \<Longrightarrow> P v \<Longrightarrow> Q v) \<Longrightarrow> bt_count P m \<le> bt_count Q m"
  by (induction m) (auto simp: bt_count_def bt_values_def le_SucI)

lemma bt_count_disj:
  "(\<And>v. \<not> (P v \<and> Q v)) \<Longrightarrow> bt_count (\<lambda>v. P v \<or> Q v) m = bt_count P m + bt_count Q m"
  by (induction m) (auto simp: bt_count_def bt_values_def)

lemma bt_count_eq_all:
  "bt_count (\<lambda>v. P v \<and> Q v) m = bt_count P m \<Longrightarrow> v \<in> set (bt_values m) \<Longrightarrow> P v \<Longrightarrow> Q v"
proof -
  have "filter (\<lambda>v. P v \<and> Q v) xs = filter P xs" if "length (filter (\<lambda>v. P v \<and> Q v) xs) = length (filter P xs)"
    for xs
    using that
  proof (induction xs)
    case (Cons x xs)
    have "length (filter (\<lambda>v. P v \<and> Q v) xs) \<le> length (filter P xs)"
      by (induction xs) auto
    with Cons show ?case by (auto split: if_splits)
  qed simp
  then have eq: "filter (\<lambda>v. P v \<and> Q v) (bt_values m) = filter P (bt_values m)"
    if "bt_count (\<lambda>v. P v \<and> Q v) m = bt_count P m" using that by (simp add: bt_count_def)
  assume "bt_count (\<lambda>v. P v \<and> Q v) m = bt_count P m" "v \<in> set (bt_values m)" "P v"
  then have "v \<in> set (filter (\<lambda>v. P v \<and> Q v) (bt_values m))" using eq by simp
  then show "Q v" by simp
qed

lemma bt_count_zero: "bt_count P m = 0 \<longleftrightarrow> (\<forall>v\<in>set (bt_values m). \<not> P v)"
  by (auto simp: bt_count_def filter_empty_conv)

text \<open>What a client of an ordered map may rely on.\<close>

locale ordered_map =
  fixes empty :: "'m"
    and insert_entry :: "'k::linorder \<Rightarrow> 'v \<Rightarrow> 'm \<Rightarrow> 'm"
    and remove_entry :: "'k \<Rightarrow> 'm \<Rightarrow> 'm"
    and lookup :: "'m \<Rightarrow> 'k \<Rightarrow> 'v option"
    and entries :: "'m \<Rightarrow> ('k \<times> 'v) list"
    and invar :: "'m \<Rightarrow> bool"
  assumes lookup_empty: "lookup empty k = None"
    and lookup_insert: "invar m \<Longrightarrow>
      lookup (insert_entry k v m) x = (if x = k then Some v else lookup m x)"
    and lookup_remove: "invar m \<Longrightarrow>
      lookup (remove_entry k m) x = (if x = k then None else lookup m x)"
    and invar_empty: "invar empty"
    and invar_insert: "invar m \<Longrightarrow> invar (insert_entry k v m)"
    and invar_remove: "invar m \<Longrightarrow> invar (remove_entry k m)"
    and entries_sorted: "invar m \<Longrightarrow> sorted_wrt (<) (map fst (entries m))"
    and entries_lookup: "invar m \<Longrightarrow> (k, v) \<in> set (entries m) \<longleftrightarrow> lookup m k = Some v"
begin

lemma insert_all_invar: "invar m \<Longrightarrow> invar (fold (\<lambda>p. insert_entry (fst p) (snd p)) ps m)"
  by (induction ps arbitrary: m) (auto intro: invar_insert)

lemma insert_all_lookup:
  "invar m \<Longrightarrow> lookup (fold (\<lambda>p. insert_entry (fst p) (snd p)) ps m) k =
     (case map_of (rev ps) k of Some v \<Rightarrow> Some v | None \<Rightarrow> lookup m k)"
proof (induction ps arbitrary: m)
  case Nil
  then show ?case by simp
next
  case (Cons p ps)
  have "invar (insert_entry (fst p) (snd p) m)" using Cons.prems by (rule invar_insert)
  from Cons.IH [OF this] Cons.prems show ?case
    by (auto simp: lookup_insert map_add_def split: option.splits)
qed

lemma entries_distinct: "invar m \<Longrightarrow> distinct (map fst (entries m))"
  using entries_sorted [of m] by (simp add: strict_sorted_iff)

lemma entries_unique:
  "invar m \<Longrightarrow> (k, v) \<in> set (entries m) \<Longrightarrow> (k, w) \<in> set (entries m) \<Longrightarrow> v = w"
  by (simp add: entries_lookup)

end

interpretation bt: ordered_map "[]" bt_insert bt_remove bt_get "\<lambda>m. m" bt_wf
  by unfold_locales (auto simp: bt_get_iff_entry, simp add: bt_wf_def)

section \<open>Iterators\<close>

text \<open>\<open>Iterator::min_by_key\<close>: the first element with the least key.\<close>

fun min_by_key :: "('a \<Rightarrow> 'k::linorder) \<Rightarrow> 'a list \<Rightarrow> 'a option" where
  "min_by_key f [] = None"
| "min_by_key f (x # xs) =
     (case min_by_key f xs of
        None \<Rightarrow> Some x
      | Some y \<Rightarrow> if f y < f x then Some y else Some x)"

lemma min_by_key_None [simp]: "min_by_key f xs = None \<longleftrightarrow> xs = []"
  by (cases xs) (auto split: option.splits)

lemma min_by_key_in: "min_by_key f xs = Some x \<Longrightarrow> x \<in> set xs"
  by (induction xs arbitrary: x) (auto split: option.splits if_splits)

lemma min_by_key_least: "min_by_key f xs = Some x \<Longrightarrow> y \<in> set xs \<Longrightarrow> f x \<le> f y"
  by (induction xs arbitrary: x) (fastforce split: option.splits if_splits)+

lemma min_by_key_unique:
  assumes "inj_on f (set xs)" "x \<in> set xs" "\<And>y. y \<in> set xs \<Longrightarrow> f x \<le> f y"
  shows "min_by_key f xs = Some x"
proof -
  from assms(2) obtain y where y: "min_by_key f xs = Some y"
    by (cases "min_by_key f xs") auto
  have "f y = f x"
    using min_by_key_least [OF y assms(2)] assms(3) [OF min_by_key_in [OF y]] by simp
  with assms(1,2) min_by_key_in [OF y] have "y = x" by (simp add: inj_on_def)
  with y show ?thesis by simp
qed

text \<open>\<open>Iterator::position\<close>.\<close>

fun position :: "('a \<Rightarrow> bool) \<Rightarrow> 'a list \<Rightarrow> nat option" where
  "position P [] = None"
| "position P (x # xs) = (if P x then Some 0 else map_option Suc (position P xs))"

section \<open>Enumerations with a stored name\<close>

text \<open>
  \<open>parse\<close> of every persisted enumeration searches the list of its variants for the one whose
  \<open>as_str\<close> is the given text.
\<close>

definition enum_parse :: "'a list \<Rightarrow> ('a \<Rightarrow> string) \<Rightarrow> string \<Rightarrow> 'a option" where
  "enum_parse variants as_str s = find (\<lambda>v. as_str v = s) variants"

locale named_enum =
  fixes variants :: "'a list" and as_str :: "'a \<Rightarrow> string"
  assumes all_variants: "v \<in> set variants"
    and as_str_distinct: "as_str v = as_str w \<Longrightarrow> v = w"
begin

lemma parse_iff: "enum_parse variants as_str s = Some v \<longleftrightarrow> as_str v = s"
proof
  assume "enum_parse variants as_str s = Some v"
  then show "as_str v = s" by (auto simp: enum_parse_def find_Some_iff)
next
  assume s: "as_str v = s"
  then have "find (\<lambda>v. as_str v = s) variants \<noteq> None"
    using all_variants [of v] by (auto simp: find_None_iff)
  then obtain w where w: "find (\<lambda>v. as_str v = s) variants = Some w" by auto
  then have "as_str w = s" by (auto simp: find_Some_iff)
  with s as_str_distinct have "w = v" by simp
  with w show "enum_parse variants as_str s = Some v" by (simp add: enum_parse_def)
qed

lemma parse_as_str: "enum_parse variants as_str (as_str v) = Some v"
  by (simp add: parse_iff)

lemma parse_None: "enum_parse variants as_str s = None \<longleftrightarrow> s \<notin> range as_str"
proof (cases "enum_parse variants as_str s")
  case None
  then show ?thesis using parse_iff [of s] by auto
next
  case (Some v)
  then have "s = as_str v" using parse_iff [of s v] by simp
  then show ?thesis using Some by simp
qed

end

section \<open>Decimal text\<close>

definition digit_char :: "nat \<Rightarrow> char" where
  "digit_char d = char_of (48 + d)"

text \<open>\<open>{}\<close> of an unsigned integer.\<close>

fun show_nat :: "nat \<Rightarrow> string" where
  "show_nat n = (if n < 10 then [digit_char n] else show_nat (n div 10) @ [digit_char (n mod 10)])"

declare show_nat.simps [simp del]

text \<open>\<open>{:02}\<close> and \<open>{:04}\<close>: zero-padded to a width, never truncated.\<close>

definition pad :: "nat \<Rightarrow> string \<Rightarrow> string" where
  "pad w s = replicate (w - length s) (CHR ''0'') @ s"

definition is_digit :: "char \<Rightarrow> bool" where
  "is_digit c \<longleftrightarrow> 48 \<le> (of_char c :: nat) \<and> (of_char c :: nat) \<le> 57"

definition digit_val :: "char \<Rightarrow> nat" where
  "digit_val c = of_char c - 48"

text \<open>The value of a run of digits, most significant first.\<close>

definition dec_val :: "string \<Rightarrow> nat" where
  "dec_val s = foldl (\<lambda>acc c. 10 * acc + digit_val c) 0 s"

lemma digit_char_props:
  assumes "d < 10"
  shows "is_digit (digit_char d)" and "digit_val (digit_char d) = d"
proof -
  have "(of_char (char_of (48 + d) :: char) :: nat) = 48 + d"
    using assms by (simp add: of_char_of)
  with assms show "is_digit (digit_char d)" and "digit_val (digit_char d) = d"
    by (simp_all add: is_digit_def digit_val_def digit_char_def)
qed

lemma show_nat_digits: "c \<in> set (show_nat n) \<Longrightarrow> is_digit c"
proof (induction n rule: show_nat.induct)
  case (1 n)
  then show ?case
    by (subst (asm) (2) show_nat.simps) (auto simp: digit_char_props split: if_splits)
qed

lemma show_nat_nonempty [simp]: "show_nat n \<noteq> []"
  by (subst show_nat.simps) simp

lemma dec_val_snoc: "dec_val (s @ [c]) = 10 * dec_val s + digit_val c"
  by (simp add: dec_val_def)

lemma dec_val_show_nat: "dec_val (show_nat n) = n"
proof (induction n rule: show_nat.induct)
  case (1 n)
  show ?case
  proof (cases "n < 10")
    case True
    then show ?thesis
      by (simp add: show_nat.simps [of n] dec_val_def digit_char_props)
  next
    case False
    with 1 show ?thesis
      by (simp add: show_nat.simps [of n] dec_val_snoc digit_char_props)
  qed
qed

lemma show_nat_inj: "show_nat m = show_nat n \<Longrightarrow> m = n"
  by (metis dec_val_show_nat)

text \<open>The ends of a sorted list.\<close>

lemma sort_ends:
  fixes ps :: "nat list"
  assumes "ps \<noteq> []"
  shows "hd (sort ps) = Min (set ps)" "last (sort ps) = Max (set ps)"
proof -
  have ne: "sort ps \<noteq> []" using assms by (metis length_0_conv length_sort)
  have "hd (sort ps) \<in> set ps" "last (sort ps) \<in> set ps" using hd_in_set [OF ne] last_in_set [OF ne] by simp_all
  moreover have "hd (sort ps) \<le> x \<and> x \<le> last (sort ps)" if "x \<in> set ps" for x
  proof -
    have "x \<in> set (sort ps)" using that by simp
    then obtain i where i: "i < length (sort ps)" "sort ps ! i = x" unfolding in_set_conv_nth by blast
    have "sort ps ! 0 \<le> sort ps ! i" "sort ps ! i \<le> sort ps ! (length (sort ps) - 1)"
      using i(1) by (auto intro!: sorted_nth_mono simp del: length_sort)
    then show ?thesis using i ne by (simp add: hd_conv_nth last_conv_nth)
  qed
  ultimately show "hd (sort ps) = Min (set ps)" "last (sort ps) = Max (set ps)"
    by (auto intro: Min_eqI [symmetric] Max_eqI [symmetric])
qed

end
