(* ===== verification/Cluster_Time.thy ===== *)
theory Cluster_Time
  imports Gavel_Prelude
begin

text \<open>
  \<open>cluster-core/src/time.rs\<close>: instants in milliseconds since the epoch, and the conversion between
  instants and UTC calendar dates. The calendar arithmetic is the source's \<open>i64\<close> arithmetic, each sum and
  product that can leave 64 bits wrapped as the release profile does it (the profile has no overflow
  checks), and the milliseconds are multiplied in \<open>u64\<close>, wrapping too. Every quotient has non-negative
  operands or is \<open>div_euclid\<close> with a positive divisor, so Isabelle's \<open>div\<close> is the source's division.
\<close>

section \<open>Instants\<close>

definition since :: "millis \<Rightarrow> millis \<Rightarrow> nat" where
  "since self earlier = self - earlier"

definition plus_ms :: "millis \<Rightarrow> nat \<Rightarrow> millis" where
  "plus_ms self ms = sat_add u64_max self ms"

lemma plus_ms_ge: "t \<le> u64_max \<Longrightarrow> t \<le> plus_ms t d"
  by (simp add: plus_ms_def sat_add_ge)

lemma since_plus_ms: "t + d \<le> u64_max \<Longrightarrow> since (plus_ms t d) t = d"
  by (simp add: since_def plus_ms_def sat_add_def)

section \<open>Calendar dates\<close>

text \<open>Two's complement at 64 bits.\<close>

definition i64 :: "int \<Rightarrow> int" where
  "i64 x = (x + 9223372036854775808) mod 18446744073709551616 - 9223372036854775808"

lemma i64_id: "- 9223372036854775808 \<le> x \<Longrightarrow> x < 9223372036854775808 \<Longrightarrow> i64 x = x"
  by (simp add: i64_def)

definition from_utc_date :: "int \<Rightarrow> nat \<Rightarrow> nat \<Rightarrow> millis" where
  "from_utc_date year month day =
     (let y = (if month \<le> 2 then i64 (year - 1) else year);
          era = y div 400;
          yoe = i64 (y - i64 (era * 400));
          mp = int (if month > 2 then month - 3 else month + 9);
          doy = (153 * mp + 2) div 5 + int day - 1;
          doe = yoe * 365 + yoe div 4 - yoe div 100 + doy;
          days = i64 (i64 (i64 (era * 146097) + doe) - 719468)
      in (nat (max days 0) * 86400000) mod 18446744073709551616)"

definition to_utc_parts :: "millis \<Rightarrow> int \<times> nat \<times> nat \<times> nat \<times> nat \<times> nat" where
  "to_utc_parts self =
     (let secs = i64 (int (self div 1000));
          days = secs div 86400;
          rem = secs mod 86400;
          z = i64 (days + 719468);
          era = z div 146097;
          doe = z mod 146097;
          yoe = (doe - doe div 1460 + doe div 36524 - doe div 146096) div 365;
          y = i64 (yoe + i64 (era * 400));
          doy = doe - (365 * yoe + yoe div 4 - yoe div 100);
          mp = (5 * doy + 2) div 153;
          d = nat (doy - (153 * mp + 2) div 5 + 1);
          m = nat (if mp < 10 then mp + 3 else mp - 9);
          y = (if m \<le> 2 then i64 (y + 1) else y)
      in (y, m, d, nat (rem div 3600), nat ((rem mod 3600) div 60), nat (rem mod 60)))"

definition show_year :: "int \<Rightarrow> string" where
  "show_year y = pad 4 (show_nat (nat y))"

definition to_utc_string :: "millis \<Rightarrow> string" where
  "to_utc_string self =
     (case to_utc_parts self of (y, mo, d, h, mi, s) \<Rightarrow>
        show_year y @ ''-'' @ pad 2 (show_nat mo) @ ''-'' @ pad 2 (show_nat d) @ '' '' @
        pad 2 (show_nat h) @ '':'' @ pad 2 (show_nat mi) @ '':'' @ pad 2 (show_nat s))"

definition to_clock_string :: "millis \<Rightarrow> string" where
  "to_clock_string self =
     (case to_utc_parts self of (_, _, _, h, mi, s) \<Rightarrow>
        pad 2 (show_nat h) @ '':'' @ pad 2 (show_nat mi) @ '':'' @ pad 2 (show_nat s))"

definition to_date_string :: "millis \<Rightarrow> string" where
  "to_date_string self =
     (case to_utc_parts self of (y, mo, d, _, _, _) \<Rightarrow>
        show_year y @ ''-'' @ pad 2 (show_nat mo) @ ''-'' @ pad 2 (show_nat d))"

section \<open>The calendar the conversion is measured against\<close>

definition leap_year :: "int \<Rightarrow> bool" where
  "leap_year y \<longleftrightarrow> y mod 4 = 0 \<and> (y mod 100 \<noteq> 0 \<or> y mod 400 = 0)"

definition days_in_month :: "int \<Rightarrow> nat \<Rightarrow> nat" where
  "days_in_month y m =
     (if m = 2 then (if leap_year y then 29 else 28)
      else if m \<in> {4, 6, 9, 11} then 30 else 31)"

definition valid_date :: "int \<Rightarrow> nat \<Rightarrow> nat \<Rightarrow> bool" where
  "valid_date y m d \<longleftrightarrow> 1 \<le> m \<and> m \<le> 12 \<and> 1 \<le> d \<and> d \<le> days_in_month y m"

text \<open>
  Years here start in March, so the leap day is the last day of a year: \<open>yoe\<close> is the year of its
  400-year era and \<open>doy\<close> the day of that year.
\<close>

definition march_day :: "int \<Rightarrow> int \<Rightarrow> bool" where
  "march_day yoe doy \<longleftrightarrow> 0 \<le> yoe \<and> yoe < 400 \<and> 0 \<le> doy \<and> doy \<le> 365 \<and>
     (doy = 365 \<longrightarrow> leap_year (yoe + 1))"

definition era_day :: "int \<Rightarrow> int \<Rightarrow> int" where
  "era_day yoe doy = yoe * 365 + yoe div 4 - yoe div 100 + doy"

definition era_year :: "int \<Rightarrow> int" where
  "era_year doe = (doe - doe div 1460 + doe div 36524 - doe div 146096) div 365"

lemma yoe_split:
  assumes "0 \<le> (yoe::int)" "yoe < 400"
  obtains c q r where "yoe = 100 * c + 4 * q + r" "0 \<le> c" "c \<le> 3" "0 \<le> q" "q \<le> 24"
    "0 \<le> r" "r \<le> 3"
proof
  show "yoe = 100 * (yoe div 100) + 4 * (yoe mod 100 div 4) + yoe mod 100 mod 4" by presburger
qed (use assms in presburger)+

lemma leap_split:
  assumes "yoe = 100 * c + 4 * q + r" "0 \<le> c" "c \<le> 3" "0 \<le> q" "q \<le> (24::int)" "0 \<le> r" "r \<le> 3"
  shows "leap_year (yoe + 1) \<longleftrightarrow> r = 3 \<and> (q \<noteq> 24 \<or> c = 3)"
proof (cases "r = 3")
  case False
  have "(yoe + 1) mod 4 = r + 1"
    using assms False by (intro mod_eqI [where q = "25 * c + q"]) auto
  with assms False show ?thesis by (simp add: leap_year_def)
next
  case r: True
  have four: "(yoe + 1) mod 4 = 0"
    using assms r by (intro mod_eqI [where q = "25 * c + q + 1"]) auto
  show ?thesis
  proof (cases "q = 24")
    case False
    have "(yoe + 1) mod 100 = 4 * q + 4"
      using assms r False by (intro mod_eqI [where q = c]) auto
    with assms four False r show ?thesis by (simp add: leap_year_def)
  next
    case q: True
    have hundred: "(yoe + 1) mod 100 = 0"
      using assms r q by (intro mod_eqI [where q = "c + 1"]) auto
    show ?thesis
    proof (cases "c = 3")
      case True
      with assms r q four show ?thesis by (simp add: leap_year_def)
    next
      case False
      have "(yoe + 1) mod 400 = 100 * c + 100"
        using assms r q False by (intro mod_eqI [where q = 0]) auto
      with assms hundred False q show ?thesis by (simp add: leap_year_def)
    qed
  qed
qed

lemma era_day_split:
  assumes "yoe = 100 * c + 4 * q + r" "0 \<le> c" "c \<le> 3" "0 \<le> q" "q \<le> (24::int)" "0 \<le> r" "r \<le> 3"
  shows "era_day yoe doy = 36524 * c + 1461 * q + 365 * r + doy"
proof -
  have "yoe div 4 = 25 * c + q" "yoe div 100 = c" using assms by (auto intro!: div_eqI)
  then show ?thesis using assms(1) by (simp add: era_day_def)
qed

lemma era_day_range: "march_day yoe doy \<Longrightarrow> 0 \<le> era_day yoe doy \<and> era_day yoe doy < 146097"
proof -
  assume md: "march_day yoe doy"
  then obtain c q r where s: "yoe = 100 * c + 4 * q + r" "0 \<le> c" "c \<le> 3" "0 \<le> q" "q \<le> 24"
    "0 \<le> r" "r \<le> 3" unfolding march_day_def using yoe_split by metis
  show ?thesis using md s unfolding era_day_split [OF s] march_day_def by linarith
qed

lemma era_year_era_day:
  assumes md: "march_day yoe doy"
  shows "era_year (era_day yoe doy) = yoe"
proof -
  obtain c q r where s: "yoe = 100 * c + 4 * q + r" "0 \<le> c" "c \<le> 3" "0 \<le> q" "q \<le> 24"
    "0 \<le> r" "r \<le> 3" using md unfolding march_day_def using yoe_split by metis
  define doe where "doe = era_day yoe doy"
  have doe: "doe = 36524 * c + 1461 * q + 365 * r + doy"
    by (simp add: doe_def era_day_split [OF s])
  have doy: "0 \<le> doy" "doy \<le> 365" and last: "doy = 365 \<longrightarrow> r = 3 \<and> (q \<noteq> 24 \<or> c = 3)"
    using md leap_split [OF s] by (auto simp: march_day_def)
  have be: "doe div 36524 - doe div 146096 = c"
  proof (cases "doe = 146096")
    case True
    then have "c = 3" using doe doy last s by linarith
    with True show ?thesis by simp
  next
    case False
    have "1461 * q + 365 * r + doy < 36524 \<or> c = 3 \<and> 1461 * q + 365 * r + doy = 36524"
      using doy last s by linarith
    then have "1461 * q + 365 * r + doy < 36524" using False doe by linarith
    then have "doe div 36524 = c" "doe div 146096 = 0" using doe doy s by (auto intro!: div_eqI)
    then show ?thesis by simp
  qed
  define t where "t = 24 * c + q + 365 * r + doy"
  have a: "doe div 1460 = 25 * c + q + t div 1460"
  proof -
    have "doe = t + 1460 * (25 * c + q)" unfolding doe t_def by simp
    then show ?thesis by simp
  qed
  have "0 \<le> doy - t div 1460 \<and> doy - t div 1460 \<le> 364"
  proof (cases "t < 1460")
    case True
    then have "doy \<noteq> 365" using last s unfolding t_def by linarith
    moreover have "t div 1460 = 0" using True doy s unfolding t_def by simp
    ultimately show ?thesis using doy by simp
  next
    case False
    then have "t div 1460 = 1" using doy s unfolding t_def by (intro div_eqI) auto
    moreover have "1 \<le> doy" using False s unfolding t_def by linarith
    ultimately show ?thesis using doy by simp
  qed
  moreover have "doe - doe div 1460 + doe div 36524 - doe div 146096 = 365 * yoe + (doy - t div 1460)"
    using be a doe s(1) by linarith
  ultimately show ?thesis unfolding doe_def [symmetric] era_year_def by (intro div_eqI) auto
qed

lemma era_day_surj:
  assumes "0 \<le> doe" "doe < 146097"
  obtains yoe doy where "march_day yoe doy" "era_day yoe doy = doe"
proof -
  define c where "c = min 3 (doe div 36524)"
  define r1 where "r1 = doe - 36524 * c"
  define q where "q = min 24 (r1 div 1461)"
  define r2 where "r2 = r1 - 1461 * q"
  define r where "r = min 3 (r2 div 365)"
  define doy where "doy = r2 - 365 * r"
  have c: "0 \<le> c" "c \<le> 3" using assms unfolding c_def by auto
  have r1: "0 \<le> r1" "r1 \<le> 36524" "r1 = 36524 \<longrightarrow> c = 3"
    using assms unfolding r1_def c_def by (auto simp: min_def)
  have q: "0 \<le> q" "q \<le> 24" using r1 unfolding q_def by auto
  have r2: "0 \<le> r2" "r2 \<le> 1460" "r2 = 1460 \<longrightarrow> q \<noteq> 24 \<or> c = 3"
    using r1 unfolding r2_def q_def by (auto simp: min_def)
  have r: "0 \<le> r" "r \<le> 3" using r2 unfolding r_def by auto
  have doy: "0 \<le> doy" "doy \<le> 365" "doy = 365 \<longrightarrow> r = 3 \<and> (q \<noteq> 24 \<or> c = 3)"
    using r2 unfolding doy_def r_def by (auto simp: min_def)
  have e: "100 * c + 4 * q + r = 100 * c + 4 * q + r" by simp
  have "march_day (100 * c + 4 * q + r) doy"
    using doy c q r leap_split [OF e c q r] unfolding march_day_def by auto
  moreover have "era_day (100 * c + 4 * q + r) doy = doe"
    unfolding era_day_split [OF e c q r] doy_def r2_def r1_def by simp
  ultimately show ?thesis using that by blast
qed

subsection \<open>Months of a year that starts in March\<close>

definition month_start :: "int \<Rightarrow> int" where
  "month_start mp = (153 * mp + 2) div 5"

definition month_len :: "int \<Rightarrow> int" where
  "month_len mp = (if mp = 11 then 29 else if mp \<in> {1, 3, 6, 8} then 30 else 31)"

lemma month_cases:
  assumes "0 \<le> (mp::int)" "mp \<le> 11"
  shows "mp \<in> {0, 1, 2, 3, 4, 5, 6, 7, 8, 9, 10, 11}"
  using assms by simp arith

lemma month_of_day:
  assumes "0 \<le> mp" "mp \<le> 11" "1 \<le> d" "d \<le> month_len mp"
  shows "(5 * (month_start mp + d - 1) + 2) div 153 = mp"
  using month_cases [OF assms(1,2)] assms(3,4)
  by (elim insertE) (auto simp: month_start_def month_len_def)

lemma day_has_month:
  assumes "0 \<le> doy" "doy \<le> 365"
  shows "0 \<le> (5 * doy + 2) div 153" "(5 * doy + 2) div 153 \<le> 11"
    "month_start ((5 * doy + 2) div 153) \<le> doy"
proof -
  let ?mp = "(5 * doy + 2) div 153"
  show "0 \<le> ?mp" "?mp \<le> 11" using assms by auto
  have "153 * ?mp + 2 \<le> 5 * doy + 4" by simp
  then have "(153 * ?mp + 2) div 5 \<le> (5 * doy + 4) div 5" by (intro zdiv_mono1) auto
  also have "(5 * doy + 4) div 5 = doy" by simp
  finally show "month_start ?mp \<le> doy" by (simp add: month_start_def)
qed

subsection \<open>Round trips\<close>

definition march_month :: "nat \<Rightarrow> int" where
  "march_month m = int (if m > 2 then m - 3 else m + 9)"

definition march_year :: "int \<Rightarrow> nat \<Rightarrow> int" where
  "march_year y m = (if m \<le> 2 then y - 1 else y)"

lemma march_month_range: "1 \<le> m \<Longrightarrow> m \<le> 12 \<Longrightarrow> 0 \<le> march_month m \<and> march_month m \<le> 11"
  by (auto simp: march_month_def)

lemma month_start_range:
  assumes "1 \<le> m" "m \<le> 12"
  shows "0 \<le> month_start (march_month m)" "month_start (march_month m) \<le> 337"
proof -
  have "march_month m \<in> {0, 1, 2, 3, 4, 5, 6, 7, 8, 9, 10, 11}"
    using march_month_range [OF assms] month_cases by blast
  then show "0 \<le> month_start (march_month m)" "month_start (march_month m) \<le> 337"
    by (elim insertE; simp add: month_start_def)+
qed

text \<open>
  Within a thousand million years of the epoch no \<open>i64\<close> sum or product of the conversion wraps; the last
  multiplication, in \<open>u64\<close>, may.
\<close>

lemma from_utc_date_alt:
  assumes m: "1 \<le> m" "m \<le> 12" and d: "1 \<le> d" "d \<le> 31"
    and y: "0 \<le> march_year y m" "march_year y m < 1000000000"
  shows "from_utc_date y m d =
     nat (max (march_year y m div 400 * 146097 +
       era_day (march_year y m mod 400) (month_start (march_month m) + int d - 1) - 719468) 0)
     * 86400000 mod 18446744073709551616"
proof -
  let ?Y = "march_year y m" and ?doy = "month_start (march_month m) + int d - 1"
  have Y: "(if m \<le> 2 then i64 (y - 1) else y) = ?Y"
    using y by (auto simp: march_year_def intro!: i64_id)
  have era: "0 \<le> ?Y div 400" "?Y div 400 < 2500000" using y by auto
  have yoe: "0 \<le> ?Y mod 400" "?Y mod 400 < 400" by auto
  have w1: "i64 (?Y div 400 * 400) = ?Y div 400 * 400" using era by (intro i64_id) auto
  have w2: "i64 (?Y - ?Y div 400 * 400) = ?Y mod 400"
    unfolding minus_div_mult_eq_mod using yoe by (intro i64_id) auto
  have w3: "i64 (?Y div 400 * 146097) = ?Y div 400 * 146097" using era by (intro i64_id) auto
  have e: "0 \<le> era_day (?Y mod 400) ?doy" "era_day (?Y mod 400) ?doy < 200000"
    using yoe d month_start_range [OF m] unfolding era_day_def
    by (auto intro: order_trans [OF _ add_mono])
  have w4: "i64 (?Y div 400 * 146097 + era_day (?Y mod 400) ?doy) =
      ?Y div 400 * 146097 + era_day (?Y mod 400) ?doy" using era e by (intro i64_id) linarith+
  have w5: "i64 (?Y div 400 * 146097 + era_day (?Y mod 400) ?doy - 719468) =
      ?Y div 400 * 146097 + era_day (?Y mod 400) ?doy - 719468" using era e by (intro i64_id) linarith+
  have ed: "?Y mod 400 * 365 + ?Y mod 400 div 4 - ?Y mod 400 div 100 +
      (month_start (march_month m) + int d - 1) = era_day (?Y mod 400) ?doy"
    by (simp add: era_day_def)
  show ?thesis
    unfolding from_utc_date_def Let_def Y march_month_def [symmetric] w1 w2 w3
      month_start_def [symmetric] ed w4 w5 ..
qed

definition civil :: "int \<Rightarrow> int \<times> nat \<times> nat" where
  "civil z =
     (let doe = z mod 146097; yoe = era_year doe;
          doy = doe - (365 * yoe + yoe div 4 - yoe div 100);
          mp = (5 * doy + 2) div 153;
          m = nat (if mp < 10 then mp + 3 else mp - 9);
          y = yoe + z div 146097 * 400
      in (if m \<le> 2 then y + 1 else y, m, nat (doy - month_start mp + 1)))"

lemma era_year_range:
  assumes "0 \<le> doe" "doe < 146097"
  shows "0 \<le> era_year doe" "era_year doe < 400"
proof -
  obtain yoe doy where "march_day yoe doy" "era_day yoe doy = doe" using era_day_surj assms by metis
  then show "0 \<le> era_year doe" "era_year doe < 400"
    using era_year_era_day by (auto simp: march_day_def)
qed

lemma to_utc_parts_alt:
  assumes t: "t \<le> u64_max"
  shows "to_utc_parts t =
     (let (y, m, d) = civil (int (t div 86400000) + 719468); rem = int (t div 1000) mod 86400
      in (y, m, d, nat (rem div 3600), nat ((rem mod 3600) div 60), nat (rem mod 60)))"
proof -
  let ?z = "int (t div 86400000) + 719468"
  have d: "int (t div 1000) div 86400 = int (t div 86400000)"
    by (simp add: div_mult2_eq flip: zdiv_int)
  have "t div 1000 \<le> 18446744073709551615 div 1000" using t by (intro div_le_mono) simp
  then have w1: "i64 (int (t div 1000)) = int (t div 1000)" by (intro i64_id) auto
  have "t div 86400000 \<le> 18446744073709551615 div 86400000" using t by (intro div_le_mono) simp
  then have z: "0 \<le> ?z" "?z \<le> 213504701802" by auto
  have w2: "i64 ?z = ?z" using z by (intro i64_id) auto
  have "?z div 146097 \<le> 213504701802 div 146097" using z by (intro zdiv_mono1) auto
  then have era: "0 \<le> ?z div 146097" "?z div 146097 \<le> 1461390" using z by auto
  have w3: "i64 (?z div 146097 * 400) = ?z div 146097 * 400" using era by (intro i64_id) auto
  have yoe: "0 \<le> era_year (?z mod 146097)" "era_year (?z mod 146097) < 400"
    by (auto intro!: era_year_range)
  have w4: "i64 (era_year (?z mod 146097) + ?z div 146097 * 400) =
      era_year (?z mod 146097) + ?z div 146097 * 400" using era yoe by (intro i64_id) linarith+
  have w5: "i64 (era_year (?z mod 146097) + ?z div 146097 * 400 + 1) =
      era_year (?z mod 146097) + ?z div 146097 * 400 + 1" using era yoe by (intro i64_id) linarith+
  show ?thesis
    unfolding to_utc_parts_def civil_def era_year_def [symmetric] month_start_def Let_def prod.case
      w1 d w2 w3 w4 w5 ..
qed

lemma civil_era_day:
  assumes md: "march_day yoe doy"
  shows "civil (era * 146097 + era_day yoe doy) =
    (let mp = (5 * doy + 2) div 153; m = nat (if mp < 10 then mp + 3 else mp - 9); y = yoe + era * 400
     in (if m \<le> 2 then y + 1 else y, m, nat (doy - month_start mp + 1)))"
proof -
  let ?z = "era * 146097 + era_day yoe doy"
  have r: "0 \<le> era_day yoe doy" "era_day yoe doy < 146097" using era_day_range [OF md] by auto
  have "?z mod 146097 = era_day yoe doy" using r by (intro mod_eqI [where q = era]) auto
  moreover have "?z div 146097 = era" using r by (intro div_eqI) auto
  moreover have "era_day yoe doy - (365 * yoe + yoe div 4 - yoe div 100) = doy"
    by (simp add: era_day_def)
  ultimately show ?thesis unfolding civil_def Let_def by (simp only: era_year_era_day [OF md])
qed

lemma month_len_31: "month_len mp \<le> 31"
  by (simp add: month_len_def)

lemma days_in_month_len:
  assumes "1 \<le> m" "m \<le> 12"
  shows "int (days_in_month y m) \<le> month_len (march_month m)"
    and "march_month m = 11 \<Longrightarrow> m = 2"
proof -
  have "m \<in> {1, 2, 3, 4, 5, 6, 7, 8, 9, 10, 11, 12}" using assms by simp arith
  then show "int (days_in_month y m) \<le> month_len (march_month m)" "march_month m = 11 \<Longrightarrow> m = 2"
    by (elim insertE; simp add: days_in_month_def month_len_def march_month_def)+
qed

lemma leap_year_mod: "leap_year (y mod 400 + 1) \<longleftrightarrow> leap_year (y + 1)"
proof -
  have "(y mod 400 + 1) mod 400 = (y + 1) mod 400" by (simp add: mod_simps)
  moreover have "x mod 400 mod 4 = x mod 4" "x mod 400 mod 100 = x mod 100" for x :: int
    by (simp_all add: mod_mod_cancel)
  ultimately show ?thesis unfolding leap_year_def by metis
qed

lemma valid_date_march_day:
  assumes v: "valid_date y m d"
  shows "march_day (march_year y m mod 400) (month_start (march_month m) + int d - 1)"
proof -
  let ?mp = "march_month m"
  have m: "1 \<le> m" "m \<le> 12" and d: "1 \<le> d" "d \<le> days_in_month y m"
    using v by (auto simp: valid_date_def)
  have mp: "?mp \<in> {0, 1, 2, 3, 4, 5, 6, 7, 8, 9, 10, 11}"
    using march_month_range [OF m] month_cases by blast
  have len: "int d \<le> month_len ?mp" using days_in_month_len(1) [OF m, of y] d by linarith
  have "month_start ?mp + month_len ?mp \<le> 366 \<and> 0 \<le> month_start ?mp \<and>
    (month_start ?mp + month_len ?mp = 366 \<longrightarrow> ?mp = 11)"
    using mp by (elim insertE) (simp_all add: month_start_def month_len_def)
  moreover have "leap_year (march_year y m mod 400 + 1)" if "?mp = 11" "d = 29"
  proof -
    have "m = 2" using days_in_month_len(2) [OF m that(1)] .
    then have "leap_year y" using d(2) that(2) by (simp add: days_in_month_def split: if_splits)
    then show ?thesis using \<open>m = 2\<close> by (simp add: leap_year_mod march_year_def)
  qed
  moreover have "month_len 11 = 29" by (simp add: month_len_def)
  moreover have "0 \<le> march_year y m mod 400 \<and> march_year y m mod 400 < 400" by simp
  ultimately show ?thesis using len d unfolding march_day_def by (auto simp: le_less)
qed

lemma march_epoch:
  assumes "march_day (Y mod 400) doy" "1970 \<le> Y \<or> Y = 1969 \<and> 306 \<le> doy"
  shows "719468 \<le> Y div 400 * 146097 + era_day (Y mod 400) doy"
proof -
  have Y: "Y = 400 * (Y div 400) + Y mod 400" by simp
  have r: "0 \<le> Y mod 400" "Y mod 400 < 400" by simp_all
  have doy: "0 \<le> doy" using assms(1) by (simp add: march_day_def)
  have e: "4 \<le> Y div 400" using assms(2) Y r by linarith
  show ?thesis
  proof (cases "5 \<le> Y div 400")
    case True
    then show ?thesis using era_day_range [OF assms(1)] by linarith
  next
    case False
    then have y4: "Y div 400 = 4" using e by linarith
    then have lo: "369 \<le> Y mod 400" "370 \<le> Y mod 400 \<or> 306 \<le> doy" using assms(2) Y by linarith+
    have "92 \<le> Y mod 400 div 4" using zdiv_mono1 [OF lo(1), of 4] by simp
    moreover have "Y mod 400 div 100 = 3" using lo r by (intro div_eqI) auto
    ultimately show ?thesis using lo doy unfolding y4 era_day_def by linarith
  qed
qed

lemma march_month_inv:
  assumes "1 \<le> m" "m \<le> 12"
  shows "nat (if march_month m < 10 then march_month m + 3 else march_month m - 9) = m"
  using assms by (auto simp: march_month_def)

lemma time_of_midnight: "int (n * 86400000 div 1000) mod 86400 = 0"
proof -
  have "n * 86400000 div 1000 = 86400 * n" by simp
  then show ?thesis by simp
qed

lemma days_in_month_31: "days_in_month y m \<le> 31"
  by (simp add: days_in_month_def)

lemma era_day_latest:
  assumes md: "march_day (Y mod 400) doy" and Y: "Y \<le> 584556018"
  shows "Y div 400 * 146097 + era_day (Y mod 400) doy - 719468 \<le> 213503982334"
proof -
  have e: "Y = 400 * (Y div 400) + Y mod 400" by simp
  have r: "0 \<le> Y mod 400" "Y mod 400 < 400" by simp_all
  have "Y div 400 \<le> 1461390" using Y e r by linarith
  then consider "Y div 400 \<le> 1461389" | "Y div 400 = 1461390" "Y mod 400 \<le> 18" using Y e by linarith
  then show ?thesis
  proof cases
    case 1
    then show ?thesis using era_day_range [OF md] by linarith
  next
    case 2
    have "Y mod 400 div 4 \<le> 18 div 4" using 2 by (intro zdiv_mono1) auto
    moreover have "0 \<le> Y mod 400 div 100" using r by simp
    ultimately show ?thesis using 2 md unfolding era_day_def march_day_def by simp
  qed
qed

text \<open>
  C18: Every date of the Gregorian calendar from 1970 up to the end of the year 584556018, the last whole year
  whose milliseconds fit the \<open>u64\<close> of a timestamp, survives the conversion to a timestamp and back:
  \<open>to_utc_parts\<close> of \<open>from_utc_date\<close> is that date, at midnight. The arithmetic is the source's, at 64 bits and
  wrapping; past that year the multiplication by the milliseconds of a day wraps and the date is lost.
\<close>
theorem parts_of_date:
  assumes v: "valid_date y m d" and y: "1970 \<le> y" "y \<le> 584556018"
  shows "to_utc_parts (from_utc_date y m d) = (y, m, d, 0, 0, 0)"
proof -
  define Y where "Y = march_year y m"
  define doy where "doy = month_start (march_month m) + int d - 1"
  have m: "1 \<le> m" "m \<le> 12" and d: "1 \<le> d" "d \<le> days_in_month y m"
    using v by (auto simp: valid_date_def)
  have md: "march_day (Y mod 400) doy" using valid_date_march_day [OF v] by (simp add: Y_def doy_def)
  have len: "int d \<le> month_len (march_month m)" using days_in_month_len(1) [OF m, of y] d by linarith
  have mp: "(5 * doy + 2) div 153 = march_month m"
    unfolding doy_def using march_month_range [OF m] d len by (intro month_of_day) auto
  have "306 \<le> doy" if "m \<le> 2"
    using that d m by (cases "m = 1") (auto simp: doy_def march_month_def month_start_def)
  then have pos: "719468 \<le> Y div 400 * 146097 + era_day (Y mod 400) doy" (is "_ \<le> ?z")
    using y by (intro march_epoch [OF md]) (auto simp: Y_def march_year_def)
  have Y: "0 \<le> Y" "Y \<le> 584556018" using y by (auto simp: Y_def march_year_def)
  have top: "nat (?z - 719468) \<le> 213503982334" using era_day_latest [OF md Y(2)] by simp
  define n where "n = nat (?z - 719468)"
  have small: "n * 86400000 \<le> u64_max" using top by (simp add: n_def)
  have "d \<le> 31" using d days_in_month_31 [of y m] by linarith
  then have "from_utc_date y m d = n * 86400000 mod 18446744073709551616"
    using m d Y pos unfolding n_def Y_def doy_def
    by (subst from_utc_date_alt) (simp_all only: max_def split: if_split, simp_all)
  also have "\<dots> = n * 86400000" using small by simp
  finally have f: "from_utc_date y m d = n * 86400000" .
  have "int (n * 86400000 div 86400000) + 719468 = ?z"
    using pos by (simp add: n_def)
  moreover have "civil ?z = (y, m, d)"
    unfolding civil_era_day [OF md] mp Let_def march_month_inv [OF m]
    using d by (simp add: Y_def march_year_def doy_def)
  ultimately show ?thesis
    unfolding f to_utc_parts_alt [OF small] Let_def by (simp only: time_of_midnight) simp
qed

theorem parts_of_date_witness:
  "valid_date 2024 2 29 \<and> to_utc_parts (from_utc_date 2024 2 29) = (2024, 2, 29, 0, 0, 0)"
  using parts_of_date [of 2024 2 29] by (simp add: valid_date_def days_in_month_def leap_year_def)

lemma month_next:
  assumes "0 \<le> doy" "doy \<le> 365" "mp = (5 * doy + 2) div 153"
  shows "1 \<le> doy - month_start mp + 1" "doy - month_start mp + 1 \<le> (if mp = 11 then 29 else month_len mp)"
    "mp = 11 \<and> doy - month_start mp + 1 = 29 \<Longrightarrow> doy = 365"
proof -
  have mp: "0 \<le> mp" "mp \<le> 11" "month_start mp \<le> doy" using day_has_month [of doy] assms by auto
  then show "1 \<le> doy - month_start mp + 1" by simp
  have "153 * mp \<le> 5 * doy + 2" "5 * doy + 2 < 153 * mp + 153" using assms(3) by auto
  with month_cases [OF mp(1,2)] assms(2)
  show "doy - month_start mp + 1 \<le> (if mp = 11 then 29 else month_len mp)"
    by (elim insertE) (auto simp: month_start_def month_len_def)
  show "doy = 365" if "mp = 11 \<and> doy - month_start mp + 1 = 29"
    using that by (auto simp: month_start_def)
qed

lemma month_len_days:
  assumes "0 \<le> mp" "mp \<le> 11"
  shows "month_len mp =
    (if mp = 11 then 29 else int (days_in_month y (nat (if mp < 10 then mp + 3 else mp - 9))))"
  using month_cases [OF assms] by (elim insertE) (simp_all add: month_len_def days_in_month_def)

lemma civil_inverse:
  assumes "civil z = (y, m, d)"
  shows "valid_date y m d \<and> march_year y m div 400 * 146097 +
     era_day (march_year y m mod 400) (month_start (march_month m) + int d - 1) = z"
proof -
  have "0 \<le> z mod 146097" "z mod 146097 < 146097" by simp_all
  then obtain yoe doy where md: "march_day yoe doy" and e: "era_day yoe doy = z mod 146097"
    by (rule era_day_surj)
  define era where "era = z div 146097"
  define mp where "mp = (5 * doy + 2) div 153"
  have z: "z = era * 146097 + era_day yoe doy" by (simp add: era_def e)
  have yoe: "0 \<le> yoe" "yoe < 400" and doy: "0 \<le> doy" "doy \<le> 365"
    and last: "doy = 365 \<longrightarrow> leap_year (yoe + 1)" using md by (auto simp: march_day_def)
  have mp: "0 \<le> mp" "mp \<le> 11" using day_has_month [OF doy] by (auto simp: mp_def)
  note nx = month_next [OF doy mp_def]
  have ymd: "m = nat (if mp < 10 then mp + 3 else mp - 9)" "d = nat (doy - month_start mp + 1)"
    "y = (if m \<le> 2 then yoe + era * 400 + 1 else yoe + era * 400)"
    using assms unfolding z civil_era_day [OF md] Let_def mp_def [symmetric] by auto
  have m: "1 \<le> m" "m \<le> 12" "march_month m = mp" "m = 2 \<longleftrightarrow> mp = 11"
    using month_cases [OF mp] ymd(1) by (auto simp: march_month_def)
  have Y: "march_year y m = 400 * era + yoe" using ymd(3) by (simp add: march_year_def)
  have div: "march_year y m div 400 = era" "march_year y m mod 400 = yoe"
    using Y yoe by (auto intro!: div_eqI mod_eqI)
  have "int d \<le> int (days_in_month y m)"
  proof (cases "mp = 11")
    case False
    then show ?thesis using nx(1,2) month_len_days [OF mp, of y] unfolding ymd(1) [symmetric] ymd(2) by simp
  next
    case True
    then have "m = 2" and y: "y = yoe + era * 400 + 1" using m ymd(3) by auto
    have "(yoe + era * 400) mod 400 = yoe" using yoe by simp
    then have "leap_year y \<longleftrightarrow> leap_year (yoe + 1)" using leap_year_mod [of "yoe + era * 400"] y by simp
    then show ?thesis using nx last True \<open>m = 2\<close> unfolding ymd(2)
      by (cases "doy - month_start 11 = 28") (auto simp: days_in_month_def)
  qed
  moreover have "int d = doy - month_start mp + 1" "1 \<le> d" using nx(1) unfolding ymd(2) by auto
  ultimately show ?thesis using m div z by (simp add: valid_date_def)
qed

text \<open>The first date whose milliseconds leave the \<open>u64\<close> comes back as a day of 1970.\<close>

lemma from_utc_date_wraps: "from_utc_date 584556019 4 4 = 34448384"
proof -
  have "era_day 19 34 = 6973" "march_year 584556019 4 = 584556019" "month_start (march_month 4) + int 4 - 1 = 34"
    by (simp_all add: era_day_def march_year_def march_month_def month_start_def)
  moreover have "max (213504694830 + 6973 - 719468) (0::int) = int 213503982335" by simp
  moreover have "213503982335 * 86400000 mod 18446744073709551616 = (34448384::nat)" by simp
  ultimately show ?thesis by (subst from_utc_date_alt) (simp_all only: nat_int, simp_all)
qed

lemma civil_years:
  assumes c: "civil z = (y, m, d)" and z: "0 \<le> z" "z \<le> 213504701802"
  shows "0 \<le> march_year y m" "march_year y m < 1000000000"
proof -
  let ?Y = "march_year y m"
  have v: "valid_date y m d" and e: "?Y div 400 * 146097 +
      era_day (?Y mod 400) (month_start (march_month m) + int d - 1) = z"
    using civil_inverse [OF c] by auto
  have "0 \<le> ?Y div 400 \<and> ?Y div 400 \<le> 1461390"
    using era_day_range [OF valid_date_march_day [OF v]] e z by linarith
  moreover have "?Y = 400 * (?Y div 400) + ?Y mod 400" "0 \<le> ?Y mod 400" "?Y mod 400 < 400" by simp_all
  ultimately show "0 \<le> ?Y" "?Y < 1000000000" by linarith+
qed

text \<open>
  Every timestamp is read as a date that exists and a time of day within its bounds, and going back
  loses only the milliseconds: the date's timestamp plus the time of day is the timestamp rounded down to
  the second.
\<close>
lemma date_of_parts:
  assumes p: "to_utc_parts t = (y, m, d, h, mi, s)" and t: "t \<le> u64_max"
  shows "valid_date y m d \<and> h < 24 \<and> mi < 60 \<and> s < 60 \<and>
    from_utc_date y m d + ((h * 60 + mi) * 60 + s) * 1000 = t - t mod 1000"
proof -
  define z where "z = int (t div 86400000) + 719468"
  define r where "r = t div 1000 mod 86400"
  have rem: "int (t div 1000) mod 86400 = int r" by (simp add: r_def zmod_int)
  have c: "civil z = (y, m, d)" and h: "h = nat (int r div 3600)" "mi = nat (int r mod 3600 div 60)"
    "s = nat (int r mod 60)"
    using p rem unfolding to_utc_parts_alt [OF t] Let_def z_def [symmetric]
    by (cases "civil z"; simp only: prod.case prod.inject)+
  have "t div 86400000 \<le> 18446744073709551615 div 86400000" using t by (intro div_le_mono) simp
  then have z: "0 \<le> z" "z \<le> 213504701802" by (auto simp: z_def)
  have v: "valid_date y m d" using civil_inverse [OF c] by simp
  then have md: "1 \<le> m" "m \<le> 12" "1 \<le> d" "d \<le> 31"
    using days_in_month_31 [of y m] by (auto simp: valid_date_def)
  have "max (z - 719468) 0 = int (t div 86400000)" by (simp add: z_def)
  then have "from_utc_date y m d = t div 86400000 * 86400000 mod 18446744073709551616"
    unfolding from_utc_date_alt [OF md civil_years [OF c z]] using civil_inverse [OF c] by simp
  also have "\<dots> = t div 86400000 * 86400000"
    using t div_times_less_eq_dividend [of t 86400000] by (intro mod_less) linarith
  finally have f: "from_utc_date y m d = t div 86400000 * 86400000" .
  have hn: "h = r div 3600" "mi = r mod 3600 div 60" "s = r mod 60"
    unfolding h by (simp_all add: nat_div_distrib nat_mod_distrib)
  have r: "r < 86400" by (simp add: r_def)
  have "h < 24" "mi < 60" "s < 60" using r unfolding hn by (auto simp: less_mult_imp_div_less)
  moreover have "(h * 60 + mi) * 60 + s = r"
  proof -
    have "r mod 3600 mod 60 = r mod 60" by (simp add: mod_mod_cancel)
    then have "r = 3600 * h + 60 * mi + s"
      unfolding hn using div_mult_mod_eq [of r 3600] div_mult_mod_eq [of "r mod 3600" 60] by linarith
    then show ?thesis by simp
  qed
  moreover have "t div 86400000 * 86400000 + r * 1000 = t - t mod 1000"
  proof -
    have "t div 86400000 = t div 1000 div 86400" by (simp add: div_mult2_eq)
    then have "t div 86400000 * 86400 + r = t div 1000" unfolding r_def by simp
    then have "t div 86400000 * 86400000 + r * 1000 = t div 1000 * 1000" by simp
    then show ?thesis by (simp add: minus_mod_eq_div_mult)
  qed
  ultimately show ?thesis using f civil_inverse [OF c] by simp
qed

lemma date_of_parts_example:
  "to_utc_parts 1000000999 = (1970, 1, 12, 13, 46, 40) \<and>
   from_utc_date 1970 1 12 + ((13 * 60 + 46) * 60 + 40) * 1000 = 1000000000"
proof -
  have "i64 (int (1000000999 div 1000)) = 1000000" by (simp add: i64_def)
  then have p: "to_utc_parts 1000000999 = (1970, 1, 12, 13, 46, 40)"
    unfolding to_utc_parts_def by (simp only:) (simp add: Let_def i64_def cong: let_weak_cong)
  then show ?thesis using date_of_parts [OF p] by simp
qed

end
