(* ===== verification/Jobs.thy ===== *)
theory Jobs
  imports Cluster_Time
begin

text \<open>
  \<open>cluster-core/src/job.rs\<close>, with the display forms of \<open>ids.rs\<close> and the \<open>StateError\<close> of
  \<open>error.rs\<close>: what a user submits (\<open>jobspec\<close>), how it is split into tasks, and the state machines of
  jobs and tasks. A mutating method of the source returns the updated record; a method that returns
  \<open>Result\<close> returns a sum, \<open>Inl\<close> the error, and on an error the caller keeps the record it had.
\<close>

section \<open>Identifiers as text\<close>

definition node_text :: "nodeid \<Rightarrow> string" where
  "node_text n = ''node-'' @ pad 2 (show_nat n)"

definition job_text :: "jobid \<Rightarrow> string" where
  "job_text j = ''job-'' @ pad 2 (show_nat j)"

definition task_text :: "taskid \<Rightarrow> string" where
  "task_text t = ''task-'' @ pad 2 (show_nat t)"

lemma digit_val_zero [simp]: "digit_val (CHR ''0'') = 0"
  by (simp add: digit_val_def)

lemma dec_val_pad: "dec_val (pad w s) = dec_val s"
proof -
  have "foldl (\<lambda>acc c. 10 * acc + digit_val c) 0 (replicate n (CHR ''0'')) = 0" for n
    by (induction n) auto
  then show ?thesis by (simp add: dec_val_def pad_def)
qed

lemma id_text_inj:
  "node_text n = node_text n' \<longleftrightarrow> n = n'"
  "job_text j = job_text j' \<longleftrightarrow> j = j'"
  "task_text t = task_text t' \<longleftrightarrow> t = t'"
proof -
  have inj: "pad 2 (show_nat a) = pad 2 (show_nat b) \<longleftrightarrow> a = b" for a b
    using dec_val_pad [of 2 "show_nat a"] dec_val_pad [of 2 "show_nat b"]
    by (metis dec_val_show_nat)
  show "node_text n = node_text n' \<longleftrightarrow> n = n'" "job_text j = job_text j' \<longleftrightarrow> j = j'"
    "task_text t = task_text t' \<longleftrightarrow> t = t'"
    by (simp_all add: node_text_def job_text_def task_text_def inj)
qed

section \<open>Specifications\<close>

datatype jobspec =
    JobSleep (total_ms: nat) (spec_tasks: nat)
  | JobPrimes (upper_bound: nat) (spec_tasks: nat)
  | JobAnalysis (spec_version: nat) (spec_algorithm: nat) (spec_tasks: nat)

datatype taskspec =
    TaskSleep (sleep_millis: nat)
  | is_TaskPrimes: TaskPrimes (range_start: nat) (range_end: nat)
  | TaskAnalysis (ana_version: nat) (ana_algorithm: nat) (ana_partition: nat)

fun jobspec_kind :: "jobspec \<Rightarrow> string" where
  "jobspec_kind (JobSleep _ _) = ''sleep''"
| "jobspec_kind (JobPrimes _ _) = ''primes''"
| "jobspec_kind (JobAnalysis _ _ _) = ''analysis''"

definition task_count :: "jobspec \<Rightarrow> nat" where
  "task_count s = max (spec_tasks s) 1"

fun describe_jobspec :: "jobspec \<Rightarrow> string" where
  "describe_jobspec (JobSleep ms n) =
     ''sleep '' @ show_nat ms @ ''ms over '' @ show_nat n @ '' tasks''"
| "describe_jobspec (JobPrimes b n) =
     ''primes below '' @ show_nat b @ '' over '' @ show_nat n @ '' tasks''"
| "describe_jobspec (JobAnalysis v a n) =
     ''materialise analysis '' @ show_nat v @ '' over '' @ show_nat n @ '' partitions''"

definition split_spec :: "jobspec \<Rightarrow> taskspec list" where
  "split_spec s =
     (let n = task_count s in
      case s of
        JobSleep ms _ \<Rightarrow>
          (let each = ms div n; rem = ms mod n
           in map (\<lambda>i. TaskSleep (each + (if i < rem then 1 else 0))) [0..<n])
      | JobPrimes bound _ \<Rightarrow>
          (let chunk = bound div n
           in map (\<lambda>i. let start = i * chunk
                       in TaskPrimes start (if i + 1 = n then bound else start + chunk)) [0..<n])
      | JobAnalysis v a _ \<Rightarrow> map (\<lambda>i. TaskAnalysis v a i) [0..<n])"

fun describe_taskspec :: "taskspec \<Rightarrow> string" where
  "describe_taskspec (TaskSleep ms) = ''sleep '' @ show_nat ms @ ''ms''"
| "describe_taskspec (TaskPrimes s e) = ''primes in '' @ show_nat s @ ''..'' @ show_nat e"
| "describe_taskspec (TaskAnalysis v a p) =
     ''analysis '' @ show_nat v @ '' partition '' @ show_nat p"

fun task_weight :: "taskspec \<Rightarrow> nat" where
  "task_weight (TaskSleep ms) = ms"
| "task_weight (TaskPrimes s e) = e - s"
| "task_weight (TaskAnalysis _ _ _) = 1"

section \<open>States\<close>

datatype job_state = JobQueued | JobRunning | JobCompleted | JobFailed | JobCancelled
datatype task_state = TaskQueued | TaskAssigned | TaskRunning | TaskCompleted | TaskFailed
datatype failure_reason = NodeOffline | ExecutionError | Injected | Timeout | Cancelled

definition job_states :: "job_state list" where
  "job_states = [JobQueued, JobRunning, JobCompleted, JobFailed, JobCancelled]"

fun job_state_str :: "job_state \<Rightarrow> string" where
  "job_state_str JobQueued = ''queued''"
| "job_state_str JobRunning = ''running''"
| "job_state_str JobCompleted = ''completed''"
| "job_state_str JobFailed = ''failed''"
| "job_state_str JobCancelled = ''cancelled''"

fun job_terminal :: "job_state \<Rightarrow> bool" where
  "job_terminal s \<longleftrightarrow> s = JobCompleted \<or> s = JobFailed \<or> s = JobCancelled"

definition parse_job_state :: "string \<Rightarrow> job_state option" where
  "parse_job_state s = enum_parse job_states job_state_str s"

fun job_can_transition :: "job_state \<Rightarrow> job_state \<Rightarrow> bool" where
  "job_can_transition JobQueued JobRunning = True"
| "job_can_transition JobQueued JobCancelled = True"
| "job_can_transition JobQueued JobFailed = True"
| "job_can_transition JobRunning JobCompleted = True"
| "job_can_transition JobRunning JobFailed = True"
| "job_can_transition JobRunning JobCancelled = True"
| "job_can_transition _ _ = False"

definition task_states :: "task_state list" where
  "task_states = [TaskQueued, TaskAssigned, TaskRunning, TaskCompleted, TaskFailed]"

fun task_state_str :: "task_state \<Rightarrow> string" where
  "task_state_str TaskQueued = ''queued''"
| "task_state_str TaskAssigned = ''assigned''"
| "task_state_str TaskRunning = ''running''"
| "task_state_str TaskCompleted = ''completed''"
| "task_state_str TaskFailed = ''failed''"

fun task_terminal :: "task_state \<Rightarrow> bool" where
  "task_terminal s \<longleftrightarrow> s = TaskCompleted \<or> s = TaskFailed"

definition parse_task_state :: "string \<Rightarrow> task_state option" where
  "parse_task_state s = enum_parse task_states task_state_str s"

fun task_can_transition :: "task_state \<Rightarrow> task_state \<Rightarrow> bool" where
  "task_can_transition TaskQueued TaskAssigned = True"
| "task_can_transition TaskAssigned TaskRunning = True"
| "task_can_transition TaskAssigned TaskFailed = True"
| "task_can_transition TaskAssigned TaskQueued = True"
| "task_can_transition TaskRunning TaskCompleted = True"
| "task_can_transition TaskRunning TaskFailed = True"
| "task_can_transition TaskRunning TaskQueued = True"
| "task_can_transition TaskFailed TaskQueued = True"
| "task_can_transition _ _ = False"

definition failure_reasons :: "failure_reason list" where
  "failure_reasons = [NodeOffline, ExecutionError, Injected, Timeout, Cancelled]"

fun failure_reason_str :: "failure_reason \<Rightarrow> string" where
  "failure_reason_str NodeOffline = ''node_offline''"
| "failure_reason_str ExecutionError = ''execution_error''"
| "failure_reason_str Injected = ''injected''"
| "failure_reason_str Timeout = ''timeout''"
| "failure_reason_str Cancelled = ''cancelled''"

definition parse_failure_reason :: "string \<Rightarrow> failure_reason option" where
  "parse_failure_reason s = enum_parse failure_reasons failure_reason_str s"

datatype state_error =
    IllegalJobTransition job_state job_state
  | IllegalTaskTransition task_state task_state

section \<open>Jobs\<close>

record job =
  job_id :: jobid
  job_spec :: jobspec
  job_state :: job_state
  job_task_count :: nat
  tasks_completed :: nat
  tasks_failed :: nat
  created_at :: millis
  finished_at :: "millis option"

definition new_job :: "jobid \<Rightarrow> jobspec \<Rightarrow> millis \<Rightarrow> job" where
  "new_job i spec at = \<lparr> job_id = i, job_spec = spec, job_state = JobQueued,
     job_task_count = task_count spec, tasks_completed = 0, tasks_failed = 0,
     created_at = at, finished_at = None \<rparr>"

definition job_transition_to :: "job_state \<Rightarrow> millis \<Rightarrow> job \<Rightarrow> state_error + job" where
  "job_transition_to to at j =
     (if job_state j = to then Inr j
      else if \<not> job_can_transition (job_state j) to
      then Inl (IllegalJobTransition (job_state j) to)
      else let j = j\<lparr>job_state := to\<rparr>
           in Inr (if job_terminal to then j\<lparr>finished_at := Some at\<rparr> else j))"

text \<open>\<open>as u8\<close> keeps the low byte.\<close>

definition progress_percent :: "job \<Rightarrow> nat" where
  "progress_percent j =
     (if job_task_count j = 0 then 100
      else (tasks_completed j * 100 div job_task_count j) mod 256)"

definition duration_ms :: "job \<Rightarrow> millis \<Rightarrow> nat" where
  "duration_ms j now = since (case finished_at j of Some t \<Rightarrow> t | None \<Rightarrow> now) (created_at j)"

section \<open>Tasks\<close>

record task =
  task_id :: taskid
  task_job :: jobid
  task_index :: nat
  task_spec :: taskspec
  task_state :: task_state
  assigned_to :: "nodeid option"
  attempt :: nat
  task_output :: "string option"
  updated_at :: millis

definition new_task :: "taskid \<Rightarrow> jobid \<Rightarrow> nat \<Rightarrow> taskspec \<Rightarrow> millis \<Rightarrow> task" where
  "new_task i j idx spec at = \<lparr> task_id = i, task_job = j, task_index = idx, task_spec = spec,
     task_state = TaskQueued, assigned_to = None, attempt = 0, task_output = None,
     updated_at = at \<rparr>"

definition task_transition_to :: "task_state \<Rightarrow> millis \<Rightarrow> task \<Rightarrow> state_error + task" where
  "task_transition_to to at t =
     (if \<not> task_can_transition (task_state t) to
      then Inl (IllegalTaskTransition (task_state t) to)
      else Inr (t\<lparr>task_state := to, updated_at := at\<rparr>))"

definition assign :: "nodeid \<Rightarrow> millis \<Rightarrow> task \<Rightarrow> state_error + task" where
  "assign node at t =
     (case task_transition_to TaskAssigned at t of
        Inl e \<Rightarrow> Inl e
      | Inr t \<Rightarrow> Inr (t\<lparr>assigned_to := Some node, attempt := sat_add u16_max (attempt t) 1\<rparr>))"

definition start :: "millis \<Rightarrow> task \<Rightarrow> state_error + task" where
  "start at t = task_transition_to TaskRunning at t"

definition complete :: "string \<Rightarrow> millis \<Rightarrow> task \<Rightarrow> state_error + task" where
  "complete out at t =
     (case task_transition_to TaskCompleted at t of
        Inl e \<Rightarrow> Inl e
      | Inr t \<Rightarrow> Inr (t\<lparr>task_output := Some out\<rparr>))"

definition fail :: "millis \<Rightarrow> task \<Rightarrow> state_error + task" where
  "fail at t = task_transition_to TaskFailed at t"

definition requeue :: "millis \<Rightarrow> task \<Rightarrow> state_error + task" where
  "requeue at t =
     (case task_transition_to TaskQueued at t of
        Inl e \<Rightarrow> Inl e
      | Inr t \<Rightarrow> Inr (t\<lparr>assigned_to := None, task_output := None\<rparr>))"

record task_attempt =
  att_task :: taskid
  att_job :: jobid
  att_node :: "nodeid option"
  att_attempt :: nat
  att_at :: millis
  att_reason :: failure_reason
  att_detail :: string

definition new_attempt :: "task \<Rightarrow> failure_reason \<Rightarrow> string \<Rightarrow> millis \<Rightarrow> task_attempt" where
  "new_attempt t reason detail at = \<lparr> att_task = task_id t, att_job = task_job t,
     att_node = assigned_to t, att_attempt = attempt t, att_at = at, att_reason = reason,
     att_detail = detail \<rparr>"

datatype task_outcome = OutCompleted string | OutFailed failure_reason string

section \<open>Splitting a job\<close>

text \<open>The numbers a list of prime tasks covers, in order.\<close>

fun covered :: "taskspec \<Rightarrow> nat list" where
  "covered (TaskPrimes s e) = [s..<e]"
| "covered _ = []"

lemma task_count_pos: "0 < task_count s"
  by (simp add: task_count_def)

lemma length_split_spec: "length (split_spec s) = task_count s"
  by (simp add: split_spec_def Let_def split: jobspec.splits)

lemma sum_list_spread:
  "sum_list (map (\<lambda>i. e + (if i < r then 1 else 0)) [0..<n]) = e * n + min r (n::nat)"
  by (induction n) (auto simp: min_def algebra_simps)

lemma concat_chunks: "concat (map (\<lambda>i. [i * c..<i * c + c]) [0..<k]) = [0..<k * (c::nat)]"
proof (induction k)
  case (Suc k)
  have "[0..<k * c] @ [k * c..<k * c + c] = [0..<Suc k * c]"
    by (metis add.commute le0 le_add1 mult_Suc upt_add_eq_append)
  then show ?case using Suc by simp
qed simp

lemma upt_join: "a \<le> b \<Longrightarrow> [0..<a] @ [a..<b] = [0..<b]"
  using upt_add_eq_append [of 0 a "b - a"] by simp

lemma split_primes_alt:
  assumes "task_count (JobPrimes b n) = Suc k"
  shows "map covered (split_spec (JobPrimes b n)) =
     map (\<lambda>i. [i * (b div Suc k)..<i * (b div Suc k) + b div Suc k]) [0..<k] @ [[k * (b div Suc k)..<b]]"
  using assms by (simp add: split_spec_def Let_def comp_def)

lemma primes_cover: "concat (map covered (split_spec (JobPrimes b n))) = [0..<b]"
proof -
  obtain k where k: "task_count (JobPrimes b n) = Suc k"
    using task_count_pos [of "JobPrimes b n"] by (cases "task_count (JobPrimes b n)") auto
  have "k * (b div Suc k) \<le> b"
    by (metis div_times_less_eq_dividend le_trans mult.commute mult_le_mono1 le_add2 plus_1_eq_Suc)
  then show ?thesis using split_primes_alt [OF k] by (simp add: concat_chunks upt_join)
qed

text \<open>
  C15: \<open>JobSpec::split\<close> gives exactly \<open>task_count\<close> tasks and loses no work: the milliseconds of a sleep
  job add up to its total, the ranges of a primes job are disjoint, in order, and cover exactly
  \<open>0..upper_bound\<close>, and an analysis job has one task per partition \<open>0..partitions\<close>.
\<close>
theorem split_conserves_work:
  "length (split_spec s) = task_count s \<and>
   (case s of
      JobSleep ms _ \<Rightarrow> sum_list (map sleep_millis (split_spec s)) = ms
    | JobPrimes b _ \<Rightarrow> concat (map covered (split_spec s)) = [0..<b]
    | JobAnalysis v a _ \<Rightarrow> split_spec s = map (TaskAnalysis v a) [0..<task_count s])"
proof (cases s)
  case (JobSleep ms n)
  let ?n = "task_count s"
  have "map sleep_millis (split_spec s) =
      map (\<lambda>i. ms div ?n + (if i < ms mod ?n then 1 else 0)) [0..<?n]"
    by (simp add: split_spec_def Let_def JobSleep comp_def)
  moreover have "ms mod ?n \<le> ?n" using task_count_pos [of s] by (simp add: less_imp_le)
  ultimately have "sum_list (map sleep_millis (split_spec s)) = ms"
    by (simp add: sum_list_spread)
  then show ?thesis by (simp add: length_split_spec JobSleep)
next
  case (JobPrimes b n)
  then show ?thesis by (simp add: length_split_spec primes_cover)
next
  case (JobAnalysis v a n)
  then show ?thesis by (simp add: length_split_spec) (simp add: split_spec_def Let_def)
qed

section \<open>Names of states\<close>

interpretation job_names: named_enum job_states job_state_str
proof unfold_locales
  show "v \<in> set job_states" for v by (cases v) (simp_all add: job_states_def)
  show "job_state_str v = job_state_str w \<Longrightarrow> v = w" for v w by (cases v; cases w) simp_all
qed

interpretation task_names: named_enum task_states task_state_str
proof unfold_locales
  show "v \<in> set task_states" for v by (cases v) (simp_all add: task_states_def)
  show "task_state_str v = task_state_str w \<Longrightarrow> v = w" for v w by (cases v; cases w) simp_all
qed

interpretation reason_names: named_enum failure_reasons failure_reason_str
proof unfold_locales
  show "v \<in> set failure_reasons" for v by (cases v) (simp_all add: failure_reasons_def)
  show "failure_reason_str v = failure_reason_str w \<Longrightarrow> v = w" for v w by (cases v; cases w) simp_all
qed

lemma parse_job_state_iff: "parse_job_state s = Some v \<longleftrightarrow> job_state_str v = s"
  unfolding parse_job_state_def by (rule job_names.parse_iff)

lemma parse_task_state_iff: "parse_task_state s = Some v \<longleftrightarrow> task_state_str v = s"
  unfolding parse_task_state_def by (rule task_names.parse_iff)

lemma parse_failure_reason_iff: "parse_failure_reason s = Some v \<longleftrightarrow> failure_reason_str v = s"
  unfolding parse_failure_reason_def by (rule reason_names.parse_iff)

section \<open>The state machines\<close>

lemma job_can_transition_terminal: "job_can_transition a b \<Longrightarrow> \<not> job_terminal a"
  by (cases a; cases b) simp_all

lemma job_transition_Inr:
  assumes "job_transition_to to at j = Inr j'"
  shows "job_state j' = to" "job_id j' = job_id j" "job_spec j' = job_spec j"
    "job_task_count j' = job_task_count j" "tasks_completed j' = tasks_completed j"
    "tasks_failed j' = tasks_failed j" "created_at j' = created_at j"
    "job_state j = to \<or> job_can_transition (job_state j) to"
  using assms by (auto simp: job_transition_to_def Let_def split: if_splits)

lemma job_transition_Inr_iff:
  "(\<exists>j'. job_transition_to to at j = Inr j') \<longleftrightarrow> job_state j = to \<or> job_can_transition (job_state j) to"
  by (auto simp: job_transition_to_def Let_def)

text \<open>A job's \<open>finished_at\<close> is set exactly while it is in a terminal state.\<close>

definition job_wf :: "job \<Rightarrow> bool" where
  "job_wf j \<longleftrightarrow> (job_terminal (job_state j) \<longleftrightarrow> finished_at j \<noteq> None)"

lemma new_job_wf: "job_wf (new_job i spec at)"
  by (simp add: job_wf_def new_job_def)

lemma job_transition_wf: "job_wf j \<Longrightarrow> job_transition_to to at j = Inr j' \<Longrightarrow> job_wf j'"
  using job_can_transition_terminal [of "job_state j" to]
  by (auto simp: job_transition_to_def job_wf_def Let_def split: if_splits)

text \<open>
  What every task satisfies: a task that a node holds names the node, a queued one names none, and
  there is an output exactly when the task is completed.
\<close>

definition task_wf :: "task \<Rightarrow> bool" where
  "task_wf t \<longleftrightarrow>
     (task_state t \<in> {TaskAssigned, TaskRunning} \<longrightarrow> assigned_to t \<noteq> None) \<and>
     (task_state t = TaskQueued \<longrightarrow> assigned_to t = None) \<and>
     (task_output t \<noteq> None \<longleftrightarrow> task_state t = TaskCompleted)"

definition task_ops :: "(task \<Rightarrow> state_error + task) set" where
  "task_ops = {f. \<exists>n at out. f = assign n at \<or> f = start at \<or> f = complete out at \<or> f = fail at \<or> f = requeue at}"

lemmas task_op_defs = assign_def start_def complete_def fail_def requeue_def task_transition_to_def

lemma new_task_wf: "task_wf (new_task i j idx spec at)"
  by (simp add: task_wf_def new_task_def)

lemma task_can_transition_Completed: "\<not> task_can_transition TaskCompleted s"
  by (cases s) simp_all

lemma task_op_wf: "f \<in> task_ops \<Longrightarrow> task_wf t \<Longrightarrow> f t = Inr t' \<Longrightarrow> task_wf t'"
  by (cases "task_state t") (auto simp: task_ops_def task_op_defs task_wf_def split: if_splits)

lemma task_op_frame [frame_simps]:
  assumes "f \<in> task_ops" "f t = Inr t'"
  shows "task_id t' = task_id t" "task_job t' = task_job t" "task_index t' = task_index t"
    "task_spec t' = task_spec t"
  using assms by (auto simp: task_ops_def task_op_defs split: if_splits)

lemma task_op_machine:
  "f \<in> task_ops \<Longrightarrow> f t = Inr t' \<Longrightarrow> task_can_transition (task_state t) (task_state t')"
  by (auto simp: task_ops_def task_op_defs split: if_splits)

lemma assign_Inr_iff:
  "assign n at t = Inr t' \<longleftrightarrow> task_state t = TaskQueued \<and>
     t' = t\<lparr>task_state := TaskAssigned, updated_at := at, assigned_to := Some n,
            attempt := sat_add u16_max (attempt t) 1\<rparr>"
  by (cases "task_state t") (auto simp: task_op_defs)

lemma start_Inr_iff:
  "start at t = Inr t' \<longleftrightarrow> task_state t = TaskAssigned \<and>
     t' = t\<lparr>task_state := TaskRunning, updated_at := at\<rparr>"
  by (cases "task_state t") (auto simp: task_op_defs)

lemma complete_Inr_iff:
  "complete out at t = Inr t' \<longleftrightarrow> task_state t = TaskRunning \<and>
     t' = t\<lparr>task_state := TaskCompleted, updated_at := at, task_output := Some out\<rparr>"
  by (cases "task_state t") (auto simp: task_op_defs)

lemma fail_Inr_iff:
  "fail at t = Inr t' \<longleftrightarrow> task_state t \<in> {TaskAssigned, TaskRunning} \<and>
     t' = t\<lparr>task_state := TaskFailed, updated_at := at\<rparr>"
  by (cases "task_state t") (auto simp: task_op_defs)

lemma requeue_Inr_iff:
  "requeue at t = Inr t' \<longleftrightarrow> task_state t \<in> {TaskAssigned, TaskRunning, TaskFailed} \<and>
     t' = t\<lparr>task_state := TaskQueued, updated_at := at, assigned_to := None, task_output := None\<rparr>"
  by (cases "task_state t") (auto simp: task_op_defs)

lemmas task_op_Inr_iff = assign_Inr_iff start_Inr_iff complete_Inr_iff fail_Inr_iff requeue_Inr_iff

text \<open>Runs of a task: the states reachable from a new task by any sequence of successful operations.\<close>

inductive task_run :: "task \<Rightarrow> task \<Rightarrow> bool" where
  task_run_refl: "task_run t t"
| task_run_step: "task_run t u \<Longrightarrow> f \<in> task_ops \<Longrightarrow> f u = Inr v \<Longrightarrow> task_run t v"

lemma task_run_wf: "task_run t u \<Longrightarrow> task_wf t \<Longrightarrow> task_wf u"
  by (induction rule: task_run.induct) (auto intro: task_op_wf)

lemma task_run_completed: "task_run t u \<Longrightarrow> task_state t = TaskCompleted \<Longrightarrow> u = t"
proof (induction rule: task_run.induct)
  case (task_run_step t u f v)
  then show ?case using task_op_machine [of f u v] task_can_transition_Completed by auto
qed simp

lemma task_run_attempt: "task_run t u \<Longrightarrow> attempt t \<le> u16_max \<Longrightarrow> attempt t \<le> attempt u \<and> attempt u \<le> u16_max"
proof (induction rule: task_run.induct)
  case (task_run_step t u f v)
  then have "attempt u \<le> attempt v \<and> attempt v \<le> u16_max"
    by (auto simp: task_ops_def task_op_Inr_iff sat_add_def)
  with task_run_step show ?case by auto
qed simp

text \<open>
  C14: Over any sequence of \<open>assign\<close>, \<open>start\<close>, \<open>complete\<close>, \<open>fail\<close> and \<open>requeue\<close> that the task's own
  guards accept, a task that a node holds names the node, a queued one names none, an output is there
  exactly when the task is completed, the attempt counter never decreases or leaves 16 bits, and a
  completed task is never changed again.
\<close>
theorem task_run_invariant:
  assumes "task_run (new_task i j idx spec at) t" and "task_run t u"
  shows "task_wf t \<and> attempt t \<le> attempt u \<and> attempt u \<le> u16_max \<and>
    (task_state t = TaskCompleted \<longrightarrow> u = t)"
proof -
  have "attempt t \<le> u16_max" using task_run_attempt [OF assms(1)] by (simp add: new_task_def)
  then show ?thesis
    using task_run_wf [OF assms(1) new_task_wf] task_run_attempt [OF assms(2)]
      task_run_completed [OF assms(2)] by blast
qed

definition demo_task :: task where
  "demo_task = new_task 1 1 0 (TaskSleep 5) 10"

lemma demo_run:
  "task_run demo_task (demo_task\<lparr>task_state := TaskRunning, updated_at := 12, assigned_to := Some 3, attempt := 1\<rparr>)"
  by (rule task_run_step [where f = "start 12"], rule task_run_step [where f = "assign 3 11"],
      rule task_run_refl)
    (auto simp: task_ops_def task_op_Inr_iff demo_task_def new_task_def sat_add_def)

lemma demo_run_done:
  "task_run (demo_task\<lparr>task_state := TaskRunning, updated_at := 12, assigned_to := Some 3, attempt := 1\<rparr>)
     (demo_task\<lparr>task_state := TaskCompleted, updated_at := 17, assigned_to := Some 3, attempt := 1, task_output := Some ''slept''\<rparr>)"
  by (rule task_run_step [where f = "complete ''slept'' 17"], rule task_run_refl)
    (auto simp: task_ops_def task_op_Inr_iff demo_task_def new_task_def)

theorem task_run_invariant_witness:
  "task_wf (demo_task\<lparr>task_state := TaskRunning, updated_at := 12, assigned_to := Some 3, attempt := 1\<rparr>) \<and>
   attempt (demo_task\<lparr>task_state := TaskRunning, updated_at := 12, assigned_to := Some 3, attempt := 1\<rparr>) \<le>
   attempt (demo_task\<lparr>task_state := TaskCompleted, updated_at := 17, assigned_to := Some 3, attempt := 1, task_output := Some ''slept''\<rparr>)"
  using task_run_invariant [OF demo_run [unfolded demo_task_def] demo_run_done [unfolded demo_task_def]]
  by (simp add: demo_task_def)

text \<open>
  A job's progress is a percentage, never more than 100 while no more tasks are completed than the
  job has, 100 exactly when all of them are, and it never decreases as tasks complete.
\<close>
lemma progress_percent_bounds:
  assumes "tasks_completed j \<le> job_task_count j"
  shows "progress_percent j \<le> 100 \<and>
    (progress_percent j = 100 \<longleftrightarrow> tasks_completed j = job_task_count j) \<and>
    (c \<le> tasks_completed j \<longrightarrow> progress_percent (j\<lparr>tasks_completed := c\<rparr>) \<le> progress_percent j)"
proof (cases "job_task_count j = 0")
  case True
  then show ?thesis using assms by (simp add: progress_percent_def)
next
  case False
  let ?n = "job_task_count j"
  have le: "x * 100 div ?n \<le> 100" if "x \<le> ?n" for x
    using that False by (metis div_le_mono mult_le_mono1 nonzero_mult_div_cancel_left)
  have eq: "tasks_completed j * 100 div ?n = 100 \<longleftrightarrow> tasks_completed j = ?n"
  proof
    assume "tasks_completed j * 100 div ?n = 100"
    then have "100 * ?n \<le> tasks_completed j * 100" by (metis div_times_less_eq_dividend)
    then show "tasks_completed j = ?n" using assms by simp
  qed (use False in simp)
  have mono: "c * 100 div ?n \<le> tasks_completed j * 100 div ?n" if "c \<le> tasks_completed j"
    using that by (intro div_le_mono) simp
  have "x * 100 div ?n mod 256 = x * 100 div ?n" if "x \<le> ?n" for x
    using le [OF that] by simp
  then show ?thesis using False assms le [of "tasks_completed j"] eq mono
    by (auto simp: progress_percent_def)
qed

lemma progress_percent_bounds_example:
  "progress_percent ((new_job 1 (JobSleep 10 3) 0)\<lparr>tasks_completed := 2\<rparr>) \<le> 100 \<and>
   progress_percent (new_job 1 (JobSleep 10 3) 0) \<le>
     progress_percent ((new_job 1 (JobSleep 10 3) 0)\<lparr>tasks_completed := 2\<rparr>)"
  using progress_percent_bounds [of "(new_job 1 (JobSleep 10 3) 0)\<lparr>tasks_completed := 2\<rparr>" 0]
  by (simp add: new_job_def task_count_def)

end
