(* ===== verification/Workload.thy ===== *)
theory Workload
  imports Jobs
begin

text \<open>
  \<open>cluster-core/src/workload.rs\<close>: the computation behind a task. The traits \<open>Workload\<close> (work only the
  host can run) and \<open>ArtifactStore\<close> (inputs and results of referenced work) are implemented outside
  the cluster; here they are functions that the definitions that use them take as arguments.

  Arithmetic on \<open>u64\<close> that can exceed the type is \<open>Inl Overflow\<close>: the squaring in \<open>is_prime\<close> panics
  there in a build with overflow checks. \<open>is_prime_correct\<close> gives the inputs for which it never does.
\<close>

type_synonym bytes = "u8 list"

datatype panic = Overflow

datatype task_work =
    Wait nat string
  | Done string
  | Produced string bytes

type_synonym host_workload = "nodeid \<Rightarrow> taskspec \<Rightarrow> bytes \<Rightarrow> task_work option"

function is_prime_loop :: "nat \<Rightarrow> nat \<Rightarrow> panic + bool" where
  "is_prime_loop n d =
     (if d * d > u64_max then Inl Overflow
      else if d * d \<le> n then
        (if n mod d = 0 \<or> n mod (d + 2) = 0 then Inr False else is_prime_loop n (d + 6))
      else Inr True)"
  by auto
termination
proof (relation "measure (\<lambda>(n, d). n + 1 - d)")
  fix n d :: nat
  assume "d * d \<le> n"
  then have "d \<le> n" using le_square [of d] by linarith
  then show "((n, d + 6), n, d) \<in> measure (\<lambda>(n, d). n + 1 - d)" by simp
qed simp

declare is_prime_loop.simps [simp del]

definition is_prime :: "nat \<Rightarrow> panic + bool" where
  "is_prime n =
     (if n < 2 then Inr False
      else if n mod 2 = 0 then Inr (n = 2)
      else if n mod 3 = 0 then Inr (n = 3)
      else is_prime_loop n 5)"

definition count_primes :: "nat \<Rightarrow> nat \<Rightarrow> panic + nat" where
  "count_primes lo hi =
     foldl (\<lambda>acc n. case acc of Inl e \<Rightarrow> Inl e
                    | Inr c \<Rightarrow> (case is_prime n of Inl e \<Rightarrow> Inl e
                                | Inr b \<Rightarrow> Inr (if b then c + 1 else c)))
           (Inr 0) [max lo 2..<hi]"

definition primes_output :: "nodeid \<Rightarrow> nat \<Rightarrow> nat \<Rightarrow> nat \<Rightarrow> string" where
  "primes_output node lo hi count =
     show_nat count @ '' primes in '' @ show_nat lo @ ''..'' @ show_nat hi @ '' on '' @ node_text node"

definition sleep_output :: "nodeid \<Rightarrow> nat \<Rightarrow> string" where
  "sleep_output node ms = ''slept '' @ show_nat ms @ ''ms on '' @ node_text node"

fun run_task :: "nodeid \<Rightarrow> taskspec \<Rightarrow> panic + task_work option" where
  "run_task node (TaskSleep ms) = Inr (Some (Wait ms (sleep_output node ms)))"
| "run_task node (TaskPrimes lo hi) =
     (case count_primes lo hi of
        Inl e \<Rightarrow> Inl e
      | Inr c \<Rightarrow> Inr (Some (Done (primes_output node lo hi c))))"
| "run_task node (TaskAnalysis _ _ _) = Inr None"

section \<open>Trial division is primality\<close>

definition prime_number :: "nat \<Rightarrow> bool" where
  "prime_number n \<longleftrightarrow> 2 \<le> n \<and> (\<forall>k. k dvd n \<longrightarrow> k = 1 \<or> k = n)"

text \<open>No candidate below \<open>d\<close> divides \<open>n\<close>.\<close>

definition no_divisor_below :: "nat \<Rightarrow> nat \<Rightarrow> bool" where
  "no_divisor_below d n \<longleftrightarrow> (\<forall>k. 2 \<le> k \<and> k < d \<longrightarrow> \<not> k dvd n)"

lemma prime_if_no_small_divisor:
  assumes "2 \<le> n" "no_divisor_below d n" "n < d * d"
  shows "prime_number n"
  unfolding prime_number_def
proof (intro conjI allI impI)
  fix k
  assume k: "k dvd n"
  then obtain m where n: "n = k * m" ..
  have "k < d \<or> m < d" using assms(3) n mult_le_mono [of d k d m] by (auto simp: not_less [symmetric])
  moreover have "k \<noteq> 0" "m \<noteq> 0" using n assms(1) by (auto intro: ccontr)
  moreover have "\<not> (2 \<le> k \<and> k < d)" "\<not> (2 \<le> m \<and> m < d)"
    using assms(2) n by (auto simp: no_divisor_below_def)
  ultimately have "k = 1 \<or> m = 1" by linarith
  then show "k = 1 \<or> k = n" using n by auto
qed (rule assms(1))

lemma no_divisor_below_step:
  assumes "no_divisor_below d n" "d mod 6 = 5" "\<not> d dvd n" "\<not> (d + 2) dvd n" "5 \<le> d"
  shows "no_divisor_below (d + 6) n"
proof -
  have two: "\<not> 2 dvd n" and three: "\<not> 3 dvd n" using assms(1,5) by (auto simp: no_divisor_below_def)
  have "2 dvd (d + 1)" "2 dvd (d + 3)" "3 dvd (d + 4)" "2 dvd (d + 5)" using assms(2) by presburger+
  then have no: "\<not> (d + 1) dvd n" "\<not> (d + 3) dvd n" "\<not> (d + 4) dvd n" "\<not> (d + 5) dvd n"
    using two three dvd_trans by blast+
  show ?thesis unfolding no_divisor_below_def
  proof (intro allI impI)
    fix k
    assume k: "2 \<le> k \<and> k < d + 6"
    then have "k < d \<or> k = d \<or> k = d + 1 \<or> k = d + 2 \<or> k = d + 3 \<or> k = d + 4 \<or> k = d + 5" by arith
    then show "\<not> k dvd n" using assms(1,3,4) no k by (auto simp: no_divisor_below_def)
  qed
qed

text \<open>The largest candidate whose square fits \<open>u64\<close> is 4294967291; below its square no candidate overflows.\<close>

abbreviation prime_limit :: nat where "prime_limit \<equiv> 4294967291 * 4294967291"

lemma candidate_fits:
  assumes "d mod 6 = 5" "n < prime_limit" "d = 5 \<or> (d - 6) * (d - 6) \<le> n"
  shows "d * d \<le> u64_max"
proof -
  have "d < 4294967297"
  proof (rule ccontr)
    assume "\<not> d < 4294967297"
    then have "4294967291 \<le> d - 6" "d \<noteq> 5" by auto
    then have "prime_limit \<le> (d - 6) * (d - 6)" by (intro mult_le_mono) auto
    then show False using assms(2,3) \<open>d \<noteq> 5\<close> by simp
  qed
  then have "d \<le> 4294967291" using assms(1) by presburger
  then have "d * d \<le> prime_limit" by (intro mult_le_mono) auto
  then show ?thesis by simp
qed

lemma is_prime_loop_correct:
  assumes "n < prime_limit" "2 \<le> n" "d mod 6 = 5" "no_divisor_below d n" "d = 5 \<or> (d - 6) * (d - 6) \<le> n"
  shows "is_prime_loop n d = Inr (prime_number n)"
  using assms
proof (induction n d rule: is_prime_loop.induct)
  case (1 n d)
  have fits: "\<not> u64_max < d * d" using candidate_fits [OF "1.prems"(3,1,5)] by simp
  have d5: "5 \<le> d" using "1.prems"(3) by (metis mod_less_eq_dividend)
  show ?case
  proof (cases "d * d \<le> n")
    case False
    then have "prime_number n" using prime_if_no_small_divisor "1.prems" by simp
    then show ?thesis using False fits by (simp add: is_prime_loop.simps [of n d])
  next
    case True
    have "5 * d \<le> d * d" using d5 by simp
    then have big: "d + 2 < n" using True d5 by linarith
    show ?thesis
    proof (cases "n mod d = 0 \<or> n mod (d + 2) = 0")
      case div: True
      then have "d dvd n \<or> (d + 2) dvd n" by auto
      then have "\<not> prime_number n" using big d5 by (auto simp: prime_number_def)
      then show ?thesis using True fits div by (simp add: is_prime_loop.simps [of n d])
    next
      case nodiv: False
      then have "no_divisor_below (d + 6) n"
        using no_divisor_below_step "1.prems"(3,4) d5 by (simp add: dvd_eq_mod_eq_0)
      moreover have "(d + 6) mod 6 = 5" using "1.prems"(3) by simp
      ultimately have "is_prime_loop n (d + 6) = Inr (prime_number n)"
        using "1.IH" [OF fits True nodiv] "1.prems" True by simp
      then show ?thesis using True fits nodiv by (simp add: is_prime_loop.simps [of n d])
    qed
  qed
qed

lemma is_prime_correct:
  assumes "n < prime_limit"
  shows "is_prime n = Inr (prime_number n)"
proof (cases "n < 2 \<or> n mod 2 = 0 \<or> n mod 3 = 0")
  case True
  have "prime_number 2" "prime_number 3"
    by (rule prime_if_no_small_divisor [of _ 2], auto simp: no_divisor_below_def)+
  moreover have "\<not> prime_number n" if "k dvd n" "k \<noteq> 1" "k \<noteq> n" for k
    using that by (auto simp: prime_number_def)
  ultimately show ?thesis using True
    by (auto simp: is_prime_def prime_number_def mod_eq_0_iff_dvd)
next
  case False
  have "no_divisor_below 5 n" unfolding no_divisor_below_def
  proof (intro allI impI)
    fix k :: nat
    assume "2 \<le> k \<and> k < 5"
    then have "k = 2 \<or> k = 3 \<or> k = 4" by arith
    moreover have "\<not> 4 dvd n" using False by presburger
    ultimately show "\<not> k dvd n" using False by (auto simp: dvd_eq_mod_eq_0)
  qed
  then have "is_prime_loop n 5 = Inr (prime_number n)"
    using assms False by (intro is_prime_loop_correct) auto
  then show ?thesis using False by (simp add: is_prime_def)
qed

section \<open>Counting primes\<close>

definition primes_in :: "nat \<Rightarrow> nat \<Rightarrow> nat list" where
  "primes_in lo hi = filter prime_number [lo..<hi]"

lemma count_fold:
  assumes "\<forall>n\<in>set ns. n < prime_limit"
  shows "foldl (\<lambda>acc n. case acc of Inl e \<Rightarrow> Inl e
                    | Inr c \<Rightarrow> (case is_prime n of Inl e \<Rightarrow> Inl e
                                | Inr b \<Rightarrow> Inr (if b then c + 1 else c)))
           (Inr c) ns = Inr (c + length (filter prime_number ns))"
  using assms by (induction ns arbitrary: c) (auto simp: is_prime_correct)

lemma primes_in_from_2: "primes_in (max lo 2) hi = primes_in lo hi"
proof (cases "lo < 2 \<and> lo < hi")
  case True
  have small: "filter prime_number [a..<b] = []" if "b \<le> 2" for a b
    using that by (auto simp: filter_empty_conv prime_number_def)
  have "[lo..<hi] = [lo..<min 2 hi] @ [min 2 hi..<hi]"
    using True upt_add_eq_append [of lo "min 2 hi" "hi - min 2 hi"] by (auto simp: min_def)
  then show ?thesis using small [of "min 2 hi" lo] True
    by (auto simp: primes_in_def max_def min_def)
next
  case False
  then show ?thesis by (auto simp: primes_in_def max_def)
qed

lemma count_primes_correct: "hi \<le> prime_limit \<Longrightarrow> count_primes lo hi = Inr (length (primes_in lo hi))"
  unfolding count_primes_def by (subst count_fold) (auto simp: primes_in_from_2 [unfolded primes_in_def] primes_in_def)

text \<open>What the tasks of a job count, added up; \<open>None\<close> when one of them overflows.\<close>

fun counted :: "taskspec list \<Rightarrow> nat option" where
  "counted [] = Some 0"
| "counted (TaskPrimes lo hi # ts) =
     (case count_primes lo hi of Inl _ \<Rightarrow> None | Inr c \<Rightarrow> map_option (\<lambda>r. c + r) (counted ts))"
| "counted (_ # ts) = counted ts"

lemma counted_covered:
  assumes "\<forall>t\<in>set ts. range_end t \<le> prime_limit \<or> \<not> is_TaskPrimes t"
  shows "counted ts = Some (length (filter prime_number (concat (map covered ts))))"
  using assms
  by (induction ts rule: counted.induct) (auto simp: count_primes_correct primes_in_def)

lemma split_primes_ends:
  assumes "t \<in> set (split_spec (JobPrimes b n))"
  shows "is_TaskPrimes t \<and> range_end t \<le> b"
proof -
  let ?n = "task_count (JobPrimes b n)"
  have "i * (b div ?n) + b div ?n \<le> b" if "i < ?n" for i
  proof -
    have "i * (b div ?n) + b div ?n = Suc i * (b div ?n)" by simp
    also have "\<dots> \<le> ?n * (b div ?n)" using that by (intro mult_le_mono1) simp
    also have "\<dots> \<le> b" by (simp add: mult.commute)
    finally show ?thesis .
  qed
  then show ?thesis using assms by (auto simp: split_spec_def Let_def)
qed

text \<open>
  C11: Trial division by 2, 3 and the candidates \<open>6k-1\<close>, \<open>6k+1\<close> decides primality for every \<open>n\<close> below
  4294967291 squared without overflowing 64 bits; a primes job with a bound up to that, however many tasks
  it is split into, counts in total exactly the primes below its bound.
\<close>
theorem primes_job_counts_primes:
  assumes "b \<le> prime_limit"
  shows "(n < b \<longrightarrow> is_prime n = Inr (prime_number n)) \<and>
    counted (split_spec (JobPrimes b tasks)) = Some (card {p. prime_number p \<and> p < b})"
proof -
  have "counted (split_spec (JobPrimes b tasks)) =
      Some (length (filter prime_number (concat (map covered (split_spec (JobPrimes b tasks))))))"
    using assms split_primes_ends by (intro counted_covered) fastforce
  also have "concat (map covered (split_spec (JobPrimes b tasks))) = [0..<b]"
    by (rule primes_cover)
  also have "length (filter prime_number [0..<b]) = card (set (filter prime_number [0..<b]))"
    by (rule distinct_card [symmetric]) simp
  also have "set (filter prime_number [0..<b]) = {p. prime_number p \<and> p < b}" by auto
  finally show ?thesis using is_prime_correct assms by simp
qed

theorem primes_job_counts_primes_witness:
  "is_prime 97 = Inr (prime_number 97) \<and>
   counted (split_spec (JobPrimes 100 7)) = Some (card {p. prime_number p \<and> p < 100})"
  using primes_job_counts_primes [of 100 97 7] by simp

text \<open>
  The first prime the trial division cannot decide: from \<open>4294967291 * 4294967291\<close> on, a number with
  no divisor up to 4294967291 takes the loop to the candidate 4294967297, whose square is beyond \<open>u64\<close>.
\<close>

lemma is_prime_loop_overflow: "is_prime_loop n 4294967297 = Inl Overflow"
  by (simp add: is_prime_loop.simps [of n])

end
