(* ===== verification/Roles.thy ===== *)
theory Roles
  imports Gavel_Prelude "HOL-Library.Multiset"
begin

text \<open>
  \<open>cluster-core/src/role.rs\<close>: roles, the set of roles of a node packed in a byte, and the replica
  policies with the list of unmet minimums. \<open>RoleSet\<close> is the 8-bit word of the source and its
  operations are the source's bit operations; they are shown to implement finite sets of roles.
\<close>

unbundle bit_operations_syntax

section \<open>Roles\<close>

datatype role = Gateway | Frontend | Backend | Compute | Storage | Coordinator

definition all_roles :: "role list" where
  "all_roles = [Gateway, Frontend, Backend, Compute, Storage, Coordinator]"

definition degradation_priority :: "role list" where
  "degradation_priority = [Gateway, Frontend, Backend, Storage, Coordinator, Compute]"

fun role_index :: "role \<Rightarrow> nat" where
  "role_index Gateway = 0"
| "role_index Frontend = 1"
| "role_index Backend = 2"
| "role_index Compute = 3"
| "role_index Storage = 4"
| "role_index Coordinator = 5"

definition role_bit :: "role \<Rightarrow> u8" where
  "role_bit r = push_bit (role_index r) 1"

fun role_str :: "role \<Rightarrow> string" where
  "role_str Gateway = ''gateway''"
| "role_str Frontend = ''frontend''"
| "role_str Backend = ''backend''"
| "role_str Compute = ''compute''"
| "role_str Storage = ''storage''"
| "role_str Coordinator = ''coordinator''"

text \<open>\<open>usize::MAX\<close> stands for a role that is not in the list; every role is.\<close>

definition shed_priority :: "role \<Rightarrow> nat" where
  "shed_priority r = (case position (\<lambda>x. x = r) degradation_priority of Some i \<Rightarrow> i | None \<Rightarrow> u64_max)"

definition parse_role :: "string \<Rightarrow> role option" where
  "parse_role s = enum_parse all_roles role_str s"

text \<open>\<open>#[derive(Ord)]\<close>: declaration order.\<close>

instantiation role :: linorder
begin

definition less_eq_role :: "role \<Rightarrow> role \<Rightarrow> bool" where
  "less_eq_role a b \<longleftrightarrow> role_index a \<le> role_index b"

definition less_role :: "role \<Rightarrow> role \<Rightarrow> bool" where
  "less_role a b \<longleftrightarrow> role_index a < role_index b"

instance
proof
  fix a b :: role
  show "a \<le> b \<Longrightarrow> b \<le> a \<Longrightarrow> a = b" by (cases a; cases b) (simp_all add: less_eq_role_def)
qed (auto simp: less_eq_role_def less_role_def)

end

section \<open>Sets of roles\<close>

type_synonym roleset = u8

definition roleset_empty :: roleset where
  "roleset_empty = 0"

definition roleset_contains :: "roleset \<Rightarrow> role \<Rightarrow> bool" where
  "roleset_contains s r \<longleftrightarrow> s AND role_bit r \<noteq> 0"

definition roleset_insert :: "role \<Rightarrow> roleset \<Rightarrow> roleset \<times> bool" where
  "roleset_insert r s = (let had = roleset_contains s r in (s OR role_bit r, \<not> had))"

definition roleset_remove :: "role \<Rightarrow> roleset \<Rightarrow> roleset \<times> bool" where
  "roleset_remove r s = (let had = roleset_contains s r in (s AND NOT (role_bit r), had))"

definition from_roles :: "role list \<Rightarrow> roleset" where
  "from_roles rs = foldl (\<lambda>s r. fst (roleset_insert r s)) roleset_empty rs"

definition roleset_is_empty :: "roleset \<Rightarrow> bool" where
  "roleset_is_empty s \<longleftrightarrow> s = 0"

definition count_ones :: "u8 \<Rightarrow> nat" where
  "count_ones s = length (filter (bit s) [0..<8])"

definition roleset_len :: "roleset \<Rightarrow> nat" where
  "roleset_len s = count_ones s"

definition roleset_iter :: "roleset \<Rightarrow> role list" where
  "roleset_iter s = filter (roleset_contains s) all_roles"

fun join_roles :: "bool \<Rightarrow> role list \<Rightarrow> string" where
  "join_roles first [] = (if first then ''none'' else [])"
| "join_roles first (r # rs) = (if first then [] else '', '') @ role_str r @ join_roles False rs"

definition roleset_text :: "roleset \<Rightarrow> string" where
  "roleset_text s = join_roles True (roleset_iter s)"

section \<open>Replica policies\<close>

record role_policy =
  min_replicas :: nat
  max_replicas :: "nat option"

definition new_role_policy :: "nat \<Rightarrow> role_policy" where
  "new_role_policy n = \<lparr> min_replicas = n, max_replicas = None \<rparr>"

text \<open>\<open>[RolePolicy; 6]\<close>, indexed by \<open>Role::index\<close>.\<close>

type_synonym role_policies = "role_policy list"

definition policy_get :: "role_policies \<Rightarrow> role \<Rightarrow> role_policy" where
  "policy_get p r = p ! role_index r"

definition policy_set :: "role \<Rightarrow> role_policy \<Rightarrow> role_policies \<Rightarrow> role_policies" where
  "policy_set r q p = p[role_index r := q]"

definition unmet :: "role_policies \<Rightarrow> (role \<Rightarrow> nat) \<Rightarrow> (role \<times> nat) list" where
  "unmet p counts =
     sort_key (\<lambda>d. shed_priority (fst d))
       (List.map_filter
          (\<lambda>r. let want = min_replicas (policy_get p r); have = counts r
               in if have < want then Some (r, want - have) else None) all_roles)"

definition default_role_policies :: role_policies where
  "default_role_policies =
     (let p = replicate 6 (new_role_policy 0);
          p = policy_set Gateway (new_role_policy 1) p;
          p = policy_set Frontend (new_role_policy 2) p;
          p = policy_set Backend (new_role_policy 2) p;
          p = policy_set Storage (new_role_policy 1) p;
          p = policy_set Coordinator (new_role_policy 1) p
      in p)"

section \<open>Roles: names and order\<close>

interpretation role_names: named_enum all_roles role_str
proof unfold_locales
  show "v \<in> set all_roles" for v by (cases v) (simp_all add: all_roles_def)
  show "role_str v = role_str w \<Longrightarrow> v = w" for v w by (cases v; cases w) simp_all
qed

lemma parse_role_iff: "parse_role s = Some v \<longleftrightarrow> role_str v = s"
  unfolding parse_role_def by (rule role_names.parse_iff)

lemma role_index_less: "role_index r < 6"
  by (cases r) simp_all

lemma role_index_inj: "role_index r = role_index q \<longleftrightarrow> r = q"
  by (cases r; cases q) simp_all

lemma role_of_index: "i < 6 \<Longrightarrow> \<exists>r. role_index r = i"
proof -
  assume "i < 6"
  then have "i \<in> {0, 1, 2, 3, 4, 5}" by auto
  then show ?thesis
    by (metis empty_iff insert_iff role_index.simps)
qed

lemma all_roles_UNIV: "set all_roles = UNIV"
  using role_names.all_variants by blast

lemma distinct_all_roles: "distinct all_roles"
  by (simp add: all_roles_def)

lemma all_roles_sorted: "sorted_wrt (<) all_roles"
  by (simp add: all_roles_def less_role_def)

lemma shed_priority_inj: "shed_priority r = shed_priority q \<longleftrightarrow> r = q"
  by (cases r; cases q) (simp_all add: shed_priority_def degradation_priority_def)

lemma shed_priority_nth: "shed_priority r < 6 \<and> degradation_priority ! shed_priority r = r"
  by (cases r) (simp_all add: shed_priority_def degradation_priority_def)

section \<open>Bit sets are sets\<close>

lemma bit_role_bit: "bit (role_bit r) n \<longleftrightarrow> n = role_index r"
  using role_index_less [of r] by (auto simp: role_bit_def bit_exp_iff)

lemma roleset_contains_bit: "roleset_contains s r \<longleftrightarrow> bit s (role_index r)"
proof -
  have "s AND role_bit r \<noteq> 0 \<longleftrightarrow> (\<exists>n. bit (s AND role_bit r) n)"
    by (metis bit_eq_iff bit_0_eq bot_apply bot_bool_def)
  then show ?thesis by (auto simp: roleset_contains_def bit_and_iff bit_role_bit)
qed

text \<open>The abstraction: the roles a byte stands for, and the bytes that stand for nothing else.\<close>

definition role_set :: "roleset \<Rightarrow> role set" where
  "role_set s = {r. roleset_contains s r}"

definition roleset_wf :: "roleset \<Rightarrow> bool" where
  "roleset_wf s \<longleftrightarrow> (\<forall>n\<ge>6. \<not> bit s n)"

lemma role_set_empty [simp]: "role_set roleset_empty = {}"
  by (simp add: role_set_def roleset_contains_bit roleset_empty_def)

lemma role_set_insert [simp]: "role_set (fst (roleset_insert r s)) = insert r (role_set s)"
  by (auto simp: role_set_def roleset_contains_bit roleset_insert_def Let_def bit_or_iff bit_role_bit role_index_inj)

lemma role_set_remove [simp]: "role_set (fst (roleset_remove r s)) = role_set s - {r}"
proof -
  have "role_index q < 8" for q using role_index_less [of q] by simp
  then show ?thesis
    by (auto simp: role_set_def roleset_contains_bit roleset_remove_def Let_def bit_and_iff bit_not_iff
        bit_role_bit role_index_inj)
qed

lemma roleset_wf_ops:
  "roleset_wf roleset_empty"
  "roleset_wf s \<Longrightarrow> roleset_wf (fst (roleset_insert r s))"
  "roleset_wf s \<Longrightarrow> roleset_wf (fst (roleset_remove r s))"
  using role_index_less [of r]
  by (auto simp: roleset_wf_def roleset_empty_def roleset_insert_def roleset_remove_def Let_def
      bit_or_iff bit_and_iff bit_role_bit)

lemma roleset_eqI: "roleset_wf s \<Longrightarrow> roleset_wf t \<Longrightarrow> role_set s = role_set t \<Longrightarrow> s = t"
proof (rule bit_eqI)
  fix n
  assume wf: "roleset_wf s" "roleset_wf t" and eq: "role_set s = role_set t"
  show "bit s n \<longleftrightarrow> bit t n"
  proof (cases "n < 6")
    case True
    then obtain r where "role_index r = n" using role_of_index by blast
    then show ?thesis using eq by (auto simp: role_set_def roleset_contains_bit set_eq_iff)
  next
    case False
    then show ?thesis using wf by (simp add: roleset_wf_def)
  qed
qed

lemma from_roles_fold: "role_set (foldl (\<lambda>s r. fst (roleset_insert r s)) s rs) = role_set s \<union> set rs"
  by (induction rs arbitrary: s) auto

lemma role_set_from_roles: "role_set (from_roles rs) = set rs"
  by (simp add: from_roles_def from_roles_fold)

lemma roleset_wf_from_roles: "roleset_wf (from_roles rs)"
proof -
  have "roleset_wf s \<Longrightarrow> roleset_wf (foldl (\<lambda>s r. fst (roleset_insert r s)) s rs)" for s
    by (induction rs arbitrary: s) (auto intro: roleset_wf_ops)
  then show ?thesis by (simp add: from_roles_def roleset_wf_ops)
qed

lemma set_roleset_iter: "set (roleset_iter s) = role_set s"
  by (simp add: roleset_iter_def role_set_def all_roles_UNIV)

lemma distinct_roleset_iter: "distinct (roleset_iter s)"
  by (simp add: roleset_iter_def distinct_all_roles)

lemma map_index_all_roles: "map role_index all_roles = [0..<6]"
  by (simp add: all_roles_def upt_rec)

lemma roleset_len_iter:
  assumes "roleset_wf s"
  shows "roleset_len s = length (roleset_iter s)"
proof -
  have "[0..<8] = map role_index all_roles @ [6, 7]"
    unfolding map_index_all_roles by (simp add: upt_rec)
  then have "filter (bit s) [0..<8] = filter (bit s) (map role_index all_roles)"
    using assms by (simp add: roleset_wf_def)
  also have "\<dots> = map role_index (roleset_iter s)"
    by (simp add: filter_map comp_def roleset_iter_def roleset_contains_bit [abs_def])
  finally show ?thesis by (simp add: roleset_len_def count_ones_def)
qed

text \<open>
  C17: The bit operations of \<open>RoleSet\<close> implement sets of roles: on a byte that uses only the six role
  bits, insert, remove, contains, is_empty and len are the set operations (with the returned flag saying
  whether the set changed), the result uses only the six bits again, \<open>iter\<close> lists the members once each
  in declaration order, and building a set from its own listing gives the byte back.
\<close>
theorem roleset_refines_set:
  assumes wf: "roleset_wf s"
  shows "role_set (fst (roleset_insert r s)) = insert r (role_set s) \<and>
    snd (roleset_insert r s) = (r \<notin> role_set s) \<and>
    role_set (fst (roleset_remove r s)) = role_set s - {r} \<and>
    snd (roleset_remove r s) = (r \<in> role_set s) \<and>
    roleset_is_empty s = (role_set s = {}) \<and>
    roleset_len s = card (role_set s) \<and>
    set (roleset_iter s) = role_set s \<and> sorted_wrt (<) (roleset_iter s) \<and>
    from_roles (roleset_iter s) = s \<and>
    roleset_wf (fst (roleset_insert r s)) \<and> roleset_wf (fst (roleset_remove r s))"
proof -
  have "snd (roleset_insert r s) = (r \<notin> role_set s)" "snd (roleset_remove r s) = (r \<in> role_set s)"
    by (simp_all add: roleset_insert_def roleset_remove_def Let_def role_set_def)
  moreover have "roleset_is_empty s = (role_set s = {})"
    using roleset_eqI [OF wf roleset_wf_ops(1)]
    by (auto simp: roleset_is_empty_def roleset_empty_def role_set_def roleset_contains_bit)
  moreover have "roleset_len s = card (role_set s)"
    using distinct_card [OF distinct_roleset_iter [of s]]
    by (simp add: roleset_len_iter [OF wf] set_roleset_iter)
  moreover have "sorted_wrt (<) (roleset_iter s)"
    unfolding roleset_iter_def by (rule sorted_wrt_filter [OF all_roles_sorted])
  moreover have "from_roles (roleset_iter s) = s"
    by (rule roleset_eqI [OF roleset_wf_from_roles wf]) (simp add: role_set_from_roles set_roleset_iter)
  ultimately show ?thesis using roleset_wf_ops(2,3) [OF wf] set_roleset_iter by simp
qed

lemma roleset_wf_13: "roleset_wf 13"
  using roleset_wf_from_roles [of "[Gateway, Backend, Compute]"]
  by (simp add: from_roles_def roleset_insert_def Let_def role_bit_def roleset_empty_def)

theorem roleset_refines_set_witness:
  "roleset_len 13 = card (role_set 13) \<and> from_roles (roleset_iter 13) = 13 \<and>
   role_set (fst (roleset_remove Compute 13)) = role_set 13 - {Compute}"
  using roleset_refines_set [OF roleset_wf_13, of Compute] by simp

lemma unmet_alt:
  "unmet p counts = sort_key (\<lambda>d. shed_priority (fst d))
     (map (\<lambda>r. (r, min_replicas (policy_get p r) - counts r))
       (filter (\<lambda>r. counts r < min_replicas (policy_get p r)) all_roles))"
proof -
  have "List.map_filter (\<lambda>r. if P r then Some (f r) else None) rs = map f (filter P rs)"
    for P and f :: "role \<Rightarrow> role \<times> nat" and rs
    by (induction rs) (auto simp: List.map_filter_simps)
  then show ?thesis by (simp add: unmet_def Let_def)
qed

lemma set_unmet:
  "(r, k) \<in> set (unmet p counts) \<longleftrightarrow>
     counts r < min_replicas (policy_get p r) \<and> k = min_replicas (policy_get p r) - counts r"
  by (auto simp: unmet_alt all_roles_UNIV)

lemma distinct_unmet: "distinct (map fst (unmet p counts))"
proof -
  have "mset (map fst (unmet p counts)) =
      mset (filter (\<lambda>r. counts r < min_replicas (policy_get p r)) all_roles)"
    by (simp add: unmet_alt image_mset.compositionality comp_def)
  then show ?thesis using distinct_all_roles by (metis distinct_filter mset_eq_imp_distinct_iff)
qed

lemma sorted_unmet: "sorted_wrt (\<lambda>a b. shed_priority (fst a) < shed_priority (fst b)) (unmet p counts)"
proof -
  have "sorted (map shed_priority (map fst (unmet p counts)))"
    unfolding unmet_alt by (simp add: comp_def)
  moreover have "distinct (map shed_priority (map fst (unmet p counts)))"
    using distinct_unmet by (simp add: distinct_map inj_on_def shed_priority_inj)
  ultimately have "sorted_wrt (<) (map shed_priority (map fst (unmet p counts)))"
    by (simp only: strict_sorted_iff)
  then show ?thesis by (simp add: sorted_wrt_map)
qed

lemma unmet_Nil: "unmet p counts = [] \<longleftrightarrow> (\<forall>r. min_replicas (policy_get p r) \<le> counts r)"
proof -
  have "unmet p counts = [] \<longleftrightarrow> (\<forall>r k. (r, k) \<notin> set (unmet p counts))"
    by (metis list.set_intros(1) neq_Nil_conv surj_pair empty_iff list.set(1))
  then show ?thesis by (simp add: set_unmet not_less)
qed

lemma default_role_policies_get:
  "min_replicas (policy_get default_role_policies r) =
     (case r of Gateway \<Rightarrow> 1 | Frontend \<Rightarrow> 2 | Backend \<Rightarrow> 2 | Compute \<Rightarrow> 0 | Storage \<Rightarrow> 1 | Coordinator \<Rightarrow> 1)"
  by (cases r) (simp_all add: default_role_policies_def policy_get_def policy_set_def new_role_policy_def)

lemma unmet_default_Nil:
  "unmet default_role_policies counts = [] \<longleftrightarrow>
     1 \<le> counts Gateway \<and> 2 \<le> counts Frontend \<and> 2 \<le> counts Backend \<and> 1 \<le> counts Storage \<and>
     1 \<le> counts Coordinator"
proof -
  have "(\<forall>r. P r) \<longleftrightarrow> P Gateway \<and> P Frontend \<and> P Backend \<and> P Compute \<and> P Storage \<and> P Coordinator"
    for P :: "role \<Rightarrow> bool" by (metis role.exhaust)
  then show ?thesis by (simp add: unmet_Nil default_role_policies_get)
qed

text \<open>
  \<open>RolePolicies::unmet\<close> reports each role whose replicas fall short of its minimum, once, with the
  number missing, and nothing else, in degradation-priority order; the default policies report nothing
  exactly when there are at least one gateway, two frontends, two backends, one storage and one
  coordinator.
\<close>
lemma unmet_correct:
  "((r, k) \<in> set (unmet p counts)) =
     (counts r < min_replicas (policy_get p r) \<and> k = min_replicas (policy_get p r) - counts r) \<and>
   distinct (map fst (unmet p counts)) \<and>
   sorted_wrt (\<lambda>a b. shed_priority (fst a) < shed_priority (fst b)) (unmet p counts) \<and>
   (unmet default_role_policies counts = []) =
     (1 \<le> counts Gateway \<and> 2 \<le> counts Frontend \<and> 2 \<le> counts Backend \<and> 1 \<le> counts Storage \<and>
      1 \<le> counts Coordinator)"
  using set_unmet distinct_unmet sorted_unmet unmet_default_Nil by blast

end
