(* ===== verification/Nodes.thy ===== *)
theory Nodes
  imports Roles Cluster_Time
begin

text \<open>
  \<open>cluster-core/src/node.rs\<close>: capabilities, health states, load samples, the node record and the
  health policy that turns the age of a heartbeat into a status. \<open>NodeCapabilities::local\<close> asks the
  operating system for its parallelism and is an input of the model.
\<close>

record node_capabilities =
  cores :: nat
  memory_bytes :: nat

definition new_capabilities :: "nat \<Rightarrow> nat \<Rightarrow> node_capabilities" where
  "new_capabilities c m = \<lparr> cores = c, memory_bytes = m \<rparr>"

text \<open>\<open>available_parallelism\<close> is a parameter: the number of threads, or nothing.\<close>

definition local_capabilities :: "nat option \<Rightarrow> node_capabilities" where
  "local_capabilities available =
     \<lparr> cores = (case available of Some n \<Rightarrow> min n u8_max | None \<Rightarrow> 1), memory_bytes = 0 \<rparr>"

definition usable_ram_bytes :: "node_capabilities \<Rightarrow> nat" where
  "usable_ram_bytes c = memory_bytes c"

definition compute_weight :: "node_capabilities \<Rightarrow> nat" where
  "compute_weight c = cores c * 100"

datatype node_status = Starting | Healthy | Suspect | Offline

definition node_statuses :: "node_status list" where
  "node_statuses = [Starting, Healthy, Suspect, Offline]"

fun node_status_str :: "node_status \<Rightarrow> string" where
  "node_status_str Starting = ''starting''"
| "node_status_str Healthy = ''healthy''"
| "node_status_str Suspect = ''suspect''"
| "node_status_str Offline = ''offline''"

definition parse_node_status :: "string \<Rightarrow> node_status option" where
  "parse_node_status s = enum_parse node_statuses node_status_str s"

definition accepts_work :: "node_status \<Rightarrow> bool" where
  "accepts_work s \<longleftrightarrow> s = Healthy"

record node_load =
  load_percent :: nat
  running_tasks :: nat
  free_memory_bytes :: nat
  simulated :: bool

definition default_load :: node_load where
  "default_load = \<lparr> load_percent = 0, running_tasks = 0, free_memory_bytes = 0, simulated = False \<rparr>"

record node =
  node_id :: nodeid
  node_status :: node_status
  node_roles :: roleset
  capabilities :: node_capabilities
  node_load :: node_load
  last_seen :: millis
  joined_at :: millis

definition new_node :: "nodeid \<Rightarrow> node_capabilities \<Rightarrow> millis \<Rightarrow> node" where
  "new_node i caps at = \<lparr> node_id = i, node_status = Starting, node_roles = roleset_empty,
     capabilities = caps, node_load = default_load, last_seen = at, joined_at = at \<rparr>"

definition has_role :: "node \<Rightarrow> role \<Rightarrow> bool" where
  "has_role n r \<longleftrightarrow> roleset_contains (node_roles n) r"

definition is_schedulable :: "node \<Rightarrow> bool" where
  "is_schedulable n \<longleftrightarrow> accepts_work (node_status n) \<and> has_role n Compute"

definition age_ms :: "node \<Rightarrow> millis \<Rightarrow> nat" where
  "age_ms n now = since now (last_seen n)"

record heartbeat =
  hb_node :: nodeid
  hb_load :: node_load
  hb_at :: millis

record health_policy =
  heartbeat_interval_ms :: nat
  suspect_after_ms :: nat
  offline_after_ms :: nat

definition classify :: "health_policy \<Rightarrow> millis \<Rightarrow> millis \<Rightarrow> node_status option" where
  "classify p seen now =
     (let age = since now seen
      in if age \<ge> offline_after_ms p then Some Offline
         else if age \<ge> suspect_after_ms p then Some Suspect
         else None)"

definition default_health_policy :: health_policy where
  "default_health_policy =
     \<lparr> heartbeat_interval_ms = 1000, suspect_after_ms = 3000, offline_after_ms = 6000 \<rparr>"

section \<open>Properties\<close>

interpretation status_names: named_enum node_statuses node_status_str
proof unfold_locales
  show "v \<in> set node_statuses" for v by (cases v) (simp_all add: node_statuses_def)
  show "node_status_str v = node_status_str w \<Longrightarrow> v = w" for v w by (cases v; cases w) simp_all
qed

lemma parse_node_status_iff: "parse_node_status s = Some v \<longleftrightarrow> node_status_str v = s"
  unfolding parse_node_status_def by (rule status_names.parse_iff)

lemma compute_weight_u32: "cores c \<le> u8_max \<Longrightarrow> compute_weight c \<le> u32_max"
  by (simp add: compute_weight_def)

text \<open>How far along \<open>Healthy -> Suspect -> Offline\<close> a classification is.\<close>

fun severity_rank :: "node_status option \<Rightarrow> nat" where
  "severity_rank (Some Offline) = 2"
| "severity_rank (Some Suspect) = 1"
| "severity_rank _ = 0"

lemma classify_cases:
  "classify p seen now = Some Offline \<longleftrightarrow> offline_after_ms p \<le> since now seen"
  "classify p seen now = Some Suspect \<longleftrightarrow>
     suspect_after_ms p \<le> since now seen \<and> since now seen < offline_after_ms p"
  "classify p seen now = None \<longleftrightarrow>
     since now seen < suspect_after_ms p \<and> since now seen < offline_after_ms p"
  "classify p seen now \<noteq> Some Healthy \<and> classify p seen now \<noteq> Some Starting"
  by (auto simp: classify_def Let_def)

text \<open>
  \<open>HealthPolicy::classify\<close> answers \<open>Offline\<close> exactly when the heartbeat is at least
  \<open>offline_after_ms\<close> old, \<open>Suspect\<close> exactly between the two limits and nothing before; it never answers
  \<open>Healthy\<close> or \<open>Starting\<close>, it only gets worse as time passes without a heartbeat, and a clock that
  steps back behind the last heartbeat counts as age zero.
\<close>
lemma classify_correct:
  "(classify p seen now = Some Offline) = (offline_after_ms p \<le> now - seen) \<and>
   (classify p seen now = Some Suspect) =
     (suspect_after_ms p \<le> now - seen \<and> now - seen < offline_after_ms p) \<and>
   classify p seen now \<notin> {Some Healthy, Some Starting} \<and>
   severity_rank (classify p seen now) \<le> severity_rank (classify p seen (now + d)) \<and>
   classify p (now + d) now = classify p now now"
proof -
  have "since now seen \<le> since (now + d) seen" by (simp add: since_def)
  then have "severity_rank (classify p seen now) \<le> severity_rank (classify p seen (now + d))"
    by (auto simp: classify_def Let_def)
  then show ?thesis using classify_cases [of p seen now] by (simp add: since_def) (simp add: classify_def since_def)
qed

end
