(* ===== verification/Protocol.thy ===== *)
theory Protocol
  imports Workload Nodes
begin

text \<open>
  \<open>cluster-core/src/protocol.rs\<close> and the framing of \<open>cluster-local/src/remote.rs\<close>: the messages between
  workers and coordinator, artifacts with their digest, join tokens, and length-prefixed frames.

  The body of a frame is written by the crate \<open>postcard\<close>, which is not part of this program: encoder and
  decoder are the arguments \<open>enc\<close> and \<open>dec\<close>, and a theorem that needs it says what it relies on, that
  \<open>dec\<close> reads back what \<open>enc\<close> wrote.
\<close>

unbundle bit_operations_syntax

section \<open>Limits\<close>

definition PROTOCOL_VERSION :: nat where "PROTOCOL_VERSION = 4"
definition MAX_TOKEN :: nat where "MAX_TOKEN = 256"
definition MAX_FRAME :: nat where "MAX_FRAME = 256 * 1024"
definition MAX_ARTIFACT :: nat where "MAX_ARTIFACT = MAX_FRAME - 1024"
definition LENGTH_PREFIX :: nat where "LENGTH_PREFIX = 4"

section \<open>Artifacts\<close>

record artifact =
  art_bytes :: bytes
  art_digest :: u64

definition digest :: "bytes \<Rightarrow> u64" where
  "digest bs = foldl (\<lambda>hash b. (hash XOR ucast b) * 0x100000001b3) 0xcbf29ce484222325 bs"

definition new_artifact :: "bytes \<Rightarrow> artifact" where
  "new_artifact bs = \<lparr> art_bytes = bs, art_digest = digest bs \<rparr>"

definition verify :: "artifact \<Rightarrow> bytes option" where
  "verify a = (if digest (art_bytes a) = art_digest a then Some (art_bytes a) else None)"

section \<open>Messages\<close>

datatype node_message =
    Hello nat "nodeid option" node_capabilities "bytes option"
  | HeartbeatMsg heartbeat
  | TaskProducedMsg taskid artifact
  | TaskStartedMsg taskid
  | TaskFinishedMsg taskid task_outcome

datatype wire_task_spec =
    WireSleep nat
  | WirePrimes nat nat
  | WireAnalysis nat nat nat artifact

datatype reject_reason = ProtocolMismatch | UnknownNodeReason | AlreadyConnected | Full | Unauthorized

fun reject_reason_str :: "reject_reason \<Rightarrow> string" where
  "reject_reason_str ProtocolMismatch = ''protocol version mismatch''"
| "reject_reason_str UnknownNodeReason = ''node id not in cluster topology''"
| "reject_reason_str AlreadyConnected = ''a node with that id is already connected''"
| "reject_reason_str Full = ''the coordinator is not accepting more workers''"
| "reject_reason_str Unauthorized = ''missing or incorrect join token''"

datatype supervisor_message =
    Welcome nat nodeid nat
  | Rejected reject_reason
  | AssignMsg taskid wire_task_spec
  | PauseHeartbeatMsg bool
  | InjectFailuresMsg nat
  | SetDelayMsg nat
  | Shutdown

datatype unshippable = InputGone | TooLarge nat

record not_shippable =
  ns_kind :: string
  ns_why :: unshippable

definition not_shippable_text :: "not_shippable \<Rightarrow> string" where
  "not_shippable_text n =
     (case ns_why n of
        InputGone \<Rightarrow> ''a '' @ ns_kind n @
          '' task cannot be sent: the input it references is no longer registered, '' @
          ''so the candidate it belongs to has been abandoned''
      | TooLarge b \<Rightarrow> ''a '' @ ns_kind n @ '' task cannot be sent: its input is '' @ show_nat b @
          '' bytes and a frame carries at most '' @ show_nat MAX_ARTIFACT)"

fun wire_of :: "taskspec \<Rightarrow> bytes option \<Rightarrow> not_shippable + wire_task_spec" where
  "wire_of (TaskSleep ms) input = Inr (WireSleep ms)"
| "wire_of (TaskPrimes lo hi) input = Inr (WirePrimes lo hi)"
| "wire_of (TaskAnalysis v a p) (Some bs) =
     (if length bs > MAX_ARTIFACT
      then Inl \<lparr> ns_kind = ''analysis'', ns_why = TooLarge (length bs) \<rparr>
      else Inr (WireAnalysis v a p (new_artifact bs)))"
| "wire_of (TaskAnalysis v a p) None = Inl \<lparr> ns_kind = ''analysis'', ns_why = InputGone \<rparr>"

fun wire_input :: "wire_task_spec \<Rightarrow> bytes option" where
  "wire_input (WireAnalysis _ _ _ input) = verify input"
| "wire_input _ = Some []"

fun from_wire :: "wire_task_spec \<Rightarrow> taskspec" where
  "from_wire (WireSleep ms) = TaskSleep ms"
| "from_wire (WirePrimes lo hi) = TaskPrimes lo hi"
| "from_wire (WireAnalysis v a p _) = TaskAnalysis v a p"

section \<open>Tokens\<close>

definition token_accepted :: "bytes option \<Rightarrow> bytes option \<Rightarrow> bool" where
  "token_accepted expected presented =
     (case expected of
        None \<Rightarrow> True
      | Some a \<Rightarrow>
          (case presented of
             None \<Rightarrow> False
           | Some b \<Rightarrow>
               if length b > MAX_TOKEN then False
               else length a = length b \<and>
                    foldl (\<lambda>acc p. acc OR (fst p XOR snd p)) 0 (zip a b) = 0))"

section \<open>Frames\<close>

datatype protocol_error = FrameTooLarge nat | Malformed

definition u32_to_be :: "u32 \<Rightarrow> bytes" where
  "u32_to_be w = [ucast (drop_bit 24 w), ucast (drop_bit 16 w), ucast (drop_bit 8 w), ucast w]"

definition u32_from_be :: "bytes \<Rightarrow> u32" where
  "u32_from_be bs = foldl (\<lambda>acc b. push_bit 8 acc OR ucast b) 0 bs"

definition encode_frame :: "('m \<Rightarrow> bytes option) \<Rightarrow> 'm \<Rightarrow> bytes \<Rightarrow> protocol_error + bytes" where
  "encode_frame enc m out =
     (case enc m of
        None \<Rightarrow> Inl Malformed
      | Some body \<Rightarrow>
          if length body > MAX_FRAME then Inl (FrameTooLarge (length body))
          else Inr (out @ u32_to_be (of_nat (length body)) @ body))"

definition decode_frame :: "(bytes \<Rightarrow> 'm option) \<Rightarrow> bytes \<Rightarrow> protocol_error + 'm" where
  "decode_frame dec body = (case dec body of None \<Rightarrow> Inl Malformed | Some m \<Rightarrow> Inr m)"

definition frame_len :: "bytes \<Rightarrow> protocol_error + nat" where
  "frame_len prefix =
     (let size = unat (u32_from_be prefix)
      in if size > MAX_FRAME then Inl (FrameTooLarge size) else Inr size)"

text \<open>
  \<open>read_frame\<close> of \<open>remote.rs\<close> on what the peer has sent before closing: a clean end, an I/O error
  (a protocol error, or the end of the stream in the middle of a body), or a message and the rest.
\<close>

datatype io_error = InvalidData protocol_error | UnexpectedEof
datatype 'm read_result = ReadNone | ReadErr io_error | ReadSome 'm bytes

definition read_frame :: "(bytes \<Rightarrow> 'm option) \<Rightarrow> bytes \<Rightarrow> 'm read_result" where
  "read_frame dec rd =
     (if length rd < LENGTH_PREFIX then ReadNone
      else case frame_len (take LENGTH_PREFIX rd) of
        Inl e \<Rightarrow> ReadErr (InvalidData e)
      | Inr len \<Rightarrow>
          let rd = drop LENGTH_PREFIX rd
          in if length rd < len then ReadErr UnexpectedEof
             else case decode_frame dec (take len rd) of
                    Inl e \<Rightarrow> ReadErr (InvalidData e)
                  | Inr m \<Rightarrow> ReadSome m (drop len rd))"

text \<open>The reader task of a connection: frames until the stream ends or breaks.\<close>

function read_loop :: "(bytes \<Rightarrow> 'm option) \<Rightarrow> bytes \<Rightarrow> 'm list \<times> io_error option" where
  "read_loop dec rd =
     (case read_frame dec rd of
        ReadNone \<Rightarrow> ([], None)
      | ReadErr e \<Rightarrow> ([], Some e)
      | ReadSome m rest \<Rightarrow> (case read_loop dec rest of (ms, stop) \<Rightarrow> (m # ms, stop)))"
  by auto

lemma read_frame_shorter: "read_frame dec rd = ReadSome m rest \<Longrightarrow> length rest < length rd"
  by (auto simp: read_frame_def Let_def LENGTH_PREFIX_def split: if_splits sum.splits)

termination read_loop
  by (relation "measure (\<lambda>(_, rd). length rd)") (auto dest: read_frame_shorter)

declare read_loop.simps [simp del]

section \<open>Tokens and artifacts\<close>

lemma xor_cancel: "x XOR (x XOR y) = y" for x y :: "'a::len word"
  by (simp flip: xor.assoc)

lemma xor_fold_zero:
  "foldl (\<lambda>acc p. acc OR (fst p XOR snd p)) acc ps = (0 :: u8) \<longleftrightarrow> acc = 0 \<and> (\<forall>p\<in>set ps. fst p = snd p)"
proof (induction ps arbitrary: acc)
  case (Cons p ps)
  have "fst p XOR snd p = 0 \<longleftrightarrow> fst p = snd p" by (metis xor_cancel xor_self_eq xor.right_neutral)
  then have "acc OR (fst p XOR snd p) = 0 \<longleftrightarrow> acc = 0 \<and> fst p = snd p" by (simp add: or_eq_0_iff)
  then show ?case using Cons.IH by auto
qed simp

lemma zip_all_equal: "length a = length b \<Longrightarrow> (\<forall>p\<in>set (zip a b). fst p = snd p) \<longleftrightarrow> a = b"
  by (induction a b rule: list_induct2) auto

text \<open>
  The constant-time comparison of join tokens is equality: a coordinator with a token admits exactly
  the peers that present that token, byte for byte, and none with more than 256 bytes; one without a token
  admits everybody.
\<close>
lemma token_accepted_iff:
  "token_accepted (Some a) (Some b) = (a = b \<and> length b \<le> 256) \<and>
   token_accepted (Some a) None = False \<and> token_accepted None p = True"
  using zip_all_equal [of a b] by (auto simp: token_accepted_def MAX_TOKEN_def xor_fold_zero not_less)

text \<open>The multiplier of the digest is odd, so a step loses nothing of the running hash.\<close>

lemma fnv_mult_inj: "x * 0x100000001b3 = y * 0x100000001b3 \<Longrightarrow> x = y" for x y :: u64
proof -
  assume "x * 0x100000001b3 = y * 0x100000001b3"
  then have "x * 0x100000001b3 * 14886173955864302971 = y * 0x100000001b3 * 14886173955864302971"
    by (rule arg_cong)
  then have "x * (0x100000001b3 * 14886173955864302971) = y * (0x100000001b3 * 14886173955864302971)"
    by (simp only: mult.assoc)
  moreover have "0x100000001b3 * 14886173955864302971 = (1 :: u64)" by transfer simp
  ultimately show "x = y" by (simp only: mult_1_right)
qed

lemma fnv_step_inj: "(h XOR ucast a) * 0x100000001b3 = (k XOR ucast a) * 0x100000001b3 \<Longrightarrow> h = k"
  for h k :: u64 and a :: u8
  by (drule fnv_mult_inj) (metis xor_cancel xor.commute)

lemma fnv_byte_inj: "(h XOR ucast a) * 0x100000001b3 = (h XOR ucast b) * 0x100000001b3 \<Longrightarrow> a = b"
  for h :: u64 and a b :: u8
proof -
  assume "(h XOR ucast a) * 0x100000001b3 = (h XOR ucast b) * 0x100000001b3"
  then have "h XOR ucast a = h XOR (ucast b :: u64)" by (rule fnv_mult_inj)
  then have "(ucast a :: u64) = ucast b" by (metis xor_cancel)
  then have bits: "bit (ucast a :: u64) n = bit (ucast b :: u64) n" for n by simp
  show "a = b"
  proof (rule bit_eqI)
    fix n
    assume "possible_bit TYPE(8 word) n"
    then show "bit a n = bit b n" using bits [of n] by (simp add: bit_simps)
  qed
qed

lemma digest_fold_inj:
  "foldl (\<lambda>hash b. (hash XOR ucast b) * 0x100000001b3) h bs =
   foldl (\<lambda>hash b. (hash XOR ucast b) * 0x100000001b3) k bs \<longleftrightarrow> h = (k :: u64)" for bs :: bytes
  by (induction bs arbitrary: h k) (auto dest: fnv_step_inj)

lemma digest_one_byte: "digest (xs @ a # ys) = digest (xs @ b # ys) \<longleftrightarrow> a = b"
  by (auto simp: digest_def digest_fold_inj dest: fnv_byte_inj)

lemma verify_new_artifact [simp]: "verify (new_artifact bs) = Some bs"
  by (simp add: verify_def new_artifact_def)

text \<open>
  C19: An artifact that arrives as it was sent yields its bytes, and one in which any single byte was
  changed yields nothing: the FNV-1a digest of two inputs that differ in one byte is never the same.
\<close>
theorem artifact_detects_byte_change:
  "verify (new_artifact bs) = Some bs \<and>
   (verify ((new_artifact (xs @ a # ys))\<lparr>art_bytes := xs @ b # ys\<rparr>) = None) = (a \<noteq> b)"
  by (auto simp: verify_def new_artifact_def digest_one_byte)

text \<open>
  What is put on the wire is what the worker reads: whenever a task can be shipped, decoding the wire
  form gives the task's own specification, and its input if it has one; and a task is refused exactly when
  it references an input that is gone or larger than an artifact may be.
\<close>
lemma wire_roundtrip:
  "(case wire_of spec input of
      Inr w \<Rightarrow> from_wire w = spec \<and>
        wire_input w = (case spec of TaskAnalysis _ _ _ \<Rightarrow> input | _ \<Rightarrow> Some [])
    | Inl e \<Rightarrow> (\<exists>v a p. spec = TaskAnalysis v a p) \<and>
        (case input of None \<Rightarrow> ns_why e = InputGone
         | Some bs \<Rightarrow> ns_why e = TooLarge (length bs) \<and> MAX_ARTIFACT < length bs))"
  by (cases "(spec, input)" rule: wire_of.cases) auto

section \<open>Frames read back\<close>

lemma length_u32_to_be [simp]: "length (u32_to_be w) = LENGTH_PREFIX"
  by (simp add: u32_to_be_def LENGTH_PREFIX_def)

lemma u32_from_to_be: "u32_from_be (u32_to_be w) = w"
proof (rule bit_eqI)
  fix n
  assume "possible_bit TYPE(32 word) n"
  then have n: "n < 32" by simp
  then consider "n < 8" | "8 \<le> n" "n < 16" | "16 \<le> n" "n < 24" | "24 \<le> n" by linarith
  then show "bit (u32_from_be (u32_to_be w)) n = bit w n"
    using n by cases (auto simp: u32_from_be_def u32_to_be_def bit_simps)
qed

lemma frame_len_to_be: "n \<le> MAX_FRAME \<Longrightarrow> frame_len (u32_to_be (of_nat n)) = Inr n"
  by (simp add: frame_len_def Let_def u32_from_to_be MAX_FRAME_def unat_of_nat)

lemma read_frame_encoded:
  assumes "encode_frame enc m [] = Inr f" "enc m = Some body" "dec body = Some m"
  shows "read_frame dec (f @ rest) = ReadSome m rest"
proof -
  have len: "length body \<le> MAX_FRAME" and f: "f = u32_to_be (of_nat (length body)) @ body"
    using assms by (auto simp: encode_frame_def split: if_splits)
  show ?thesis unfolding f
    by (simp add: read_frame_def frame_len_to_be [OF len] Let_def decode_frame_def assms(3))
qed

text \<open>A sender that appends one frame per message to its buffer.\<close>

fun encode_all :: "('m \<Rightarrow> bytes option) \<Rightarrow> 'm list \<Rightarrow> bytes \<Rightarrow> protocol_error + bytes" where
  "encode_all enc [] out = Inr out"
| "encode_all enc (m # ms) out =
     (case encode_frame enc m out of Inl e \<Rightarrow> Inl e | Inr out \<Rightarrow> encode_all enc ms out)"

lemma encode_frame_append:
  "encode_frame enc m out = map_sum id (\<lambda>f. out @ f) (encode_frame enc m [])"
  by (simp add: encode_frame_def split: option.splits)

lemma encode_all_append:
  "encode_all enc ms out = map_sum id (\<lambda>f. out @ f) (encode_all enc ms [])"
proof (induction ms arbitrary: out)
  case (Cons m ms)
  show ?case
  proof (cases "encode_frame enc m []")
    case (Inr f)
    then show ?thesis
      using Cons.IH [of "out @ f"] Cons.IH [of f] encode_frame_append [of enc m out]
      by (simp add: sum.map_comp comp_def)
  next
    case (Inl e)
    then show ?thesis using encode_frame_append [of enc m out] by simp
  qed
qed simp

text \<open>
  C16: Frames survive the stream: when the decoder reads back what the encoder wrote, any sequence of
  messages that a sender could frame is read by the receiver as the same sequence, in order, with nothing
  left over and no error, whatever their sizes up to the frame limit.
\<close>
theorem frames_roundtrip:
  assumes codec: "\<And>m body. enc m = Some body \<Longrightarrow> dec body = Some m"
    and sent: "encode_all enc ms [] = Inr stream"
  shows "read_loop dec stream = (ms, None)"
  using sent
proof (induction ms arbitrary: stream)
  case Nil
  then show ?case by (simp add: read_loop.simps [of dec "[]"] read_frame_def LENGTH_PREFIX_def)
next
  case (Cons m ms)
  then obtain f where f: "encode_frame enc m [] = Inr f" by (auto split: sum.splits)
  then obtain body where body: "enc m = Some body" by (auto simp: encode_frame_def split: option.splits)
  obtain rest where rest: "encode_all enc ms [] = Inr rest" and stream: "stream = f @ rest"
    using Cons.prems f encode_all_append [of enc ms f] by (cases "encode_all enc ms []") auto
  show ?case unfolding stream
    using Cons.IH [OF rest] read_frame_encoded [of enc m f body dec rest, OF f body codec [OF body]]
    by (simp add: read_loop.simps [of dec "f @ rest"])
qed

theorem frames_roundtrip_witness:
  "read_loop Some [0, 0, 0, 2, 7, 8, 0, 0, 0, 0, 0, 0, 0, 1, 9] = ([[7, 8], [], [9 :: u8]], None)"
  by (rule frames_roundtrip [where enc = Some])
     (simp_all add: encode_frame_def u32_to_be_def MAX_FRAME_def)

text \<open>
  No frame makes the receiver buffer more than the limit: a declared length above 256 KiB is refused
  from the four prefix bytes alone, every accepted length fits in them, and an encoder never writes a
  length the receiver would refuse.
\<close>
lemma frame_length_bounded:
  "(case frame_len prefix of
      Inr n \<Rightarrow> n \<le> 256 * 1024 \<and> n = unat (u32_from_be prefix)
    | Inl e \<Rightarrow> e = FrameTooLarge (unat (u32_from_be prefix)) \<and> 256 * 1024 < unat (u32_from_be prefix)) \<and>
   (case encode_frame enc m [] of
      Inl e \<Rightarrow> enc m = None \<or> (\<exists>body. enc m = Some body \<and> e = FrameTooLarge (length body))
    | Inr f \<Rightarrow> \<exists>body. enc m = Some body \<and> frame_len (take LENGTH_PREFIX f) = Inr (length body) \<and>
        drop LENGTH_PREFIX f = body)"
proof -
  have "frame_len (u32_to_be (of_nat (length body))) = Inr (length body)" if "\<not> MAX_FRAME < length body"
    for body :: bytes using that by (simp add: frame_len_to_be)
  then show ?thesis
    by (auto simp: frame_len_def [of prefix] Let_def MAX_FRAME_def encode_frame_def
        split: option.splits)
qed

end
