(* ===== verification/Agent.thy ===== *)
theory Agent
  imports Protocol
begin

text \<open>
  \<open>cluster-core/src/agent.rs\<close>: a worker's behaviour as a state machine that is fed messages and clock
  readings and returns actions. The operations return the updated agent and the actions, or the panic of
  the overflow that \<open>count_primes\<close> can run into. The host's workload handler is a field of the agent, as
  in the source.
\<close>

section \<open>State\<close>

datatype action = Send node_message | WakeIn nat | Disconnect

definition COMPUTE_SLICE :: nat where "COMPUTE_SLICE = 8000"

datatype work =
    Ready string
  | WorkProduced string bytes
  | WorkPrimes nodeid nat nat nat nat

record running =
  run_id :: taskid
  ready_at :: millis
  run_work :: work

record agent =
  ag_id :: "nodeid option"
  ag_capabilities :: node_capabilities
  ag_interval_ms :: nat
  next_heartbeat :: millis
  ag_running :: "running option"
  heartbeat_paused :: bool
  pending_failures :: nat
  extra_delay_ms :: nat
  ag_free_memory :: nat
  joined :: bool
  ag_token :: "bytes option"
  ag_workload :: "host_workload option"

definition new_agent :: "nodeid option \<Rightarrow> node_capabilities \<Rightarrow> nat \<Rightarrow> agent" where
  "new_agent i caps interval = \<lparr> ag_id = i, ag_capabilities = caps, ag_interval_ms = interval,
     next_heartbeat = 0, ag_running = None, heartbeat_paused = False, pending_failures = 0,
     extra_delay_ms = 0, ag_free_memory = 0, joined = False, ag_token = None, ag_workload = None \<rparr>"

definition anonymous_agent :: "node_capabilities \<Rightarrow> nat \<Rightarrow> agent" where
  "anonymous_agent caps interval = new_agent None caps interval"

definition with_workload :: "host_workload \<Rightarrow> agent \<Rightarrow> agent" where
  "with_workload w ag = ag\<lparr>ag_workload := Some w\<rparr>"

definition with_token :: "bytes option \<Rightarrow> agent \<Rightarrow> agent" where
  "with_token t ag = ag\<lparr>ag_token := t\<rparr>"

definition set_free_memory :: "nat \<Rightarrow> agent \<Rightarrow> agent" where
  "set_free_memory b ag = ag\<lparr>ag_free_memory := b\<rparr>"

definition hello :: "agent \<Rightarrow> node_message" where
  "hello ag = Hello PROTOCOL_VERSION (ag_id ag) (ag_capabilities ag) (ag_token ag)"

definition agent_load :: "agent \<Rightarrow> node_load" where
  "agent_load ag =
     (let busy = ag_running ag \<noteq> None
      in \<lparr> load_percent = (if busy then 100 else 0), running_tasks = (if busy then 1 else 0),
           free_memory_bytes = ag_free_memory ag, simulated = False \<rparr>)"

definition next_wake_ms :: "agent \<Rightarrow> millis \<Rightarrow> nat option" where
  "next_wake_ms ag now =
     (let heartbeat = (if joined ag \<and> \<not> heartbeat_paused ag then Some (since (next_heartbeat ag) now) else None);
          task = map_option (\<lambda>r. case run_work r of WorkPrimes _ _ _ _ _ \<Rightarrow> 0 | _ \<Rightarrow> since (ready_at r) now)
                   (ag_running ag)
      in case (heartbeat, task) of
           (Some a, Some b) \<Rightarrow> Some (min a b)
         | (Some a, None) \<Rightarrow> Some a
         | (None, Some b) \<Rightarrow> Some b
         | (None, None) \<Rightarrow> None)"

section \<open>Driving time forward\<close>

text \<open>The first block of \<open>poll\<close>: one slice of a computation.\<close>

definition advance :: "agent \<Rightarrow> panic + agent" where
  "advance ag =
     (case ag_running ag of
        None \<Rightarrow> Inr ag
      | Some r \<Rightarrow>
          (case run_work r of
             WorkPrimes node lo hi cursor found \<Rightarrow>
               (let stop = min (sat_add u64_max cursor COMPUTE_SLICE) hi
                in case count_primes cursor stop of
                     Inl e \<Rightarrow> Inl e
                   | Inr c \<Rightarrow>
                       (let found = found + c;
                            work = (if stop \<ge> hi then Ready (primes_output node lo hi found)
                                    else WorkPrimes node lo hi stop found)
                        in Inr (ag\<lparr>ag_running := Some (r\<lparr>run_work := work\<rparr>)\<rparr>)))
           | _ \<Rightarrow> Inr ag))"

definition too_large_detail :: "nat \<Rightarrow> string" where
  "too_large_detail n = ''this result is '' @ show_nat n @ '' bytes and a frame carries at most '' @
     show_nat MAX_ARTIFACT"

text \<open>What a finished task puts on the wire.\<close>

fun report_work :: "taskid \<Rightarrow> work \<Rightarrow> action list" where
  "report_work i (Ready out) = [Send (TaskFinishedMsg i (OutCompleted out))]"
| "report_work i (WorkProduced out bs) =
     (if length bs > MAX_ARTIFACT
      then [Send (TaskFinishedMsg i (OutFailed ExecutionError (too_large_detail (length bs))))]
      else [Send (TaskProducedMsg i (new_artifact bs)), Send (TaskFinishedMsg i (OutCompleted out))])"
| "report_work i (WorkPrimes _ _ _ _ _) = []"

fun is_primes_work :: "work \<Rightarrow> bool" where
  "is_primes_work (WorkPrimes _ _ _ _ _) = True"
| "is_primes_work _ = False"

text \<open>The second block: a finished task is taken and reported.\<close>

definition report_finished :: "millis \<Rightarrow> agent \<Rightarrow> agent \<times> action list" where
  "report_finished now ag =
     (case ag_running ag of
        None \<Rightarrow> (ag, [])
      | Some r \<Rightarrow>
          if \<not> is_primes_work (run_work r) \<and> now \<ge> ready_at r
          then (ag\<lparr>ag_running := None\<rparr>, report_work (run_id r) (run_work r))
          else (ag, []))"

text \<open>The third block: a heartbeat that is due.\<close>

definition beat :: "millis \<Rightarrow> agent \<Rightarrow> agent \<times> action list" where
  "beat now ag =
     (case ag_id ag of
        None \<Rightarrow> (ag, [])
      | Some node \<Rightarrow>
          if joined ag \<and> \<not> heartbeat_paused ag \<and> now \<ge> next_heartbeat ag
          then let ag = ag\<lparr>next_heartbeat := plus_ms now (max (ag_interval_ms ag) 1)\<rparr>
               in (ag, [Send (HeartbeatMsg \<lparr> hb_node = node, hb_load = agent_load ag, hb_at = now \<rparr>)])
          else (ag, []))"

definition poll :: "millis \<Rightarrow> agent \<Rightarrow> panic + agent \<times> action list" where
  "poll now ag =
     (case advance ag of
        Inl e \<Rightarrow> Inl e
      | Inr ag \<Rightarrow>
          (case report_finished now ag of (ag, reported) \<Rightarrow>
           case beat now ag of (ag, beats) \<Rightarrow>
             Inr (ag, reported @ beats @
               (case next_wake_ms ag now of Some w \<Rightarrow> [WakeIn w] | None \<Rightarrow> []))))"

section \<open>Messages from the coordinator\<close>

definition begin_work :: "nodeid \<Rightarrow> wire_task_spec \<Rightarrow> agent \<Rightarrow> panic + (nat \<times> work) option" where
  "begin_work node wire ag =
     (case from_wire wire of
        TaskPrimes lo hi \<Rightarrow> Inr (Some (0, WorkPrimes node lo hi lo 0))
      | other \<Rightarrow>
          (case run_task node other of
             Inl e \<Rightarrow> Inl e
           | Inr built_in \<Rightarrow>
               Inr (case (case built_in of
                            Some w \<Rightarrow> Some w
                          | None \<Rightarrow>
                              (case wire_input wire of
                                 None \<Rightarrow> None
                               | Some input \<Rightarrow>
                                   (case ag_workload ag of
                                      None \<Rightarrow> None
                                    | Some run \<Rightarrow> run node other input))) of
                      Some (Done out) \<Rightarrow> Some (0, Ready out)
                    | Some (Wait ms out) \<Rightarrow> Some (ms, Ready out)
                    | Some (Produced out bs) \<Rightarrow> Some (0, WorkProduced out bs)
                    | None \<Rightarrow> None)))"

definition accept :: "taskid \<Rightarrow> wire_task_spec \<Rightarrow> millis \<Rightarrow> agent \<Rightarrow> panic + agent \<times> action list" where
  "accept i wire now ag =
     (case ag_id ag of
        None \<Rightarrow> Inr (ag, [])
      | Some node \<Rightarrow>
          (case ag_running ag of
             Some r \<Rightarrow>
               if run_id r = i then Inr (ag, [])
               else Inr (ag, [Send (TaskFinishedMsg i (OutFailed ExecutionError ''node was already busy''))])
           | None \<Rightarrow>
               let started = [Send (TaskStartedMsg i)]
               in if pending_failures ag > 0
                  then Inr (ag\<lparr>pending_failures := pending_failures ag - 1\<rparr>,
                            started @ [Send (TaskFinishedMsg i (OutFailed Injected ''failure injected on this node''))])
                  else (case begin_work node wire ag of
                          Inl e \<Rightarrow> Inl e
                        | Inr None \<Rightarrow>
                            Inr (ag, started @ [Send (TaskFinishedMsg i (OutFailed ExecutionError
                                   (''this worker cannot run '' @ describe_taskspec (from_wire wire))))])
                        | Inr (Some (wait_ms, work)) \<Rightarrow>
                            (case poll now (ag\<lparr>ag_running := Some
                                   \<lparr> run_id = i,
                                     ready_at = plus_ms now (sat_add u64_max wait_ms (extra_delay_ms ag)),
                                     run_work = work \<rparr>\<rparr>) of
                               Inl e \<Rightarrow> Inl e
                             | Inr (ag, actions) \<Rightarrow> Inr (ag, started @ actions)))))"

fun handle :: "supervisor_message \<Rightarrow> millis \<Rightarrow> agent \<Rightarrow> panic + agent \<times> action list" where
  "handle (Welcome _ node interval) now ag =
     (let ag = ag\<lparr>ag_id := Some node, joined := True\<rparr>;
          ag = (if interval > 0 then ag\<lparr>ag_interval_ms := interval\<rparr> else ag);
          ag = ag\<lparr>next_heartbeat := now\<rparr>
      in poll now ag)"
| "handle (Rejected _) now ag = Inr (ag, [Disconnect])"
| "handle Shutdown now ag = Inr (ag, [Disconnect])"
| "handle (PauseHeartbeatMsg paused) now ag = poll now (ag\<lparr>heartbeat_paused := paused\<rparr>)"
| "handle (InjectFailuresMsg n) now ag =
     poll now (ag\<lparr>pending_failures := sat_add u32_max (pending_failures ag) n\<rparr>)"
| "handle (SetDelayMsg ms) now ag = poll now (ag\<lparr>extra_delay_ms := ms\<rparr>)"
| "handle (AssignMsg i spec) now ag = accept i spec now ag"

section \<open>Runs\<close>

text \<open>What drives an agent: a message, a wake-up or a memory reading, each at some clock reading.\<close>

datatype input = Message supervisor_message millis | Poll millis | FreeMemory nat

fun feed :: "input \<Rightarrow> agent \<Rightarrow> panic + agent \<times> action list" where
  "feed (Message m now) ag = handle m now ag"
| "feed (Poll now) ag = poll now ag"
| "feed (FreeMemory b) ag = Inr (set_free_memory b ag, [])"

fun run_agent :: "input list \<Rightarrow> agent \<Rightarrow> panic + agent \<times> action list" where
  "run_agent [] ag = Inr (ag, [])"
| "run_agent (i # is) ag =
     (case feed i ag of
        Inl e \<Rightarrow> Inl e
      | Inr (ag, as) \<Rightarrow> (case run_agent is ag of Inl e \<Rightarrow> Inl e | Inr (ag', bs) \<Rightarrow> Inr (ag', as @ bs)))"

section \<open>One task at a time\<close>

text \<open>
  A reader of the wire that accepts only one task at a time: it remembers the task announced as started and not
  yet reported as finished. A start while one is open is an error, as is a finish or a result of anything but the
  open task; the one exception is the refusal of another task by a worker that is busy.
\<close>

definition busy_refusal :: task_outcome where
  "busy_refusal = OutFailed ExecutionError ''node was already busy''"

fun track :: "taskid option \<Rightarrow> action \<Rightarrow> taskid option option" where
  "track cur (Send (TaskStartedMsg t)) = (if cur = None then Some (Some t) else None)"
| "track cur (Send (TaskFinishedMsg t out)) =
     (if cur = Some t then Some None
      else if cur \<noteq> None \<and> out = busy_refusal then Some cur else None)"
| "track cur (Send (TaskProducedMsg t a)) = (if cur = Some t then Some cur else None)"
| "track cur _ = Some cur"

fun track_all :: "taskid option \<Rightarrow> action list \<Rightarrow> taskid option option" where
  "track_all cur [] = Some cur"
| "track_all cur (a # as) = (case track cur a of None \<Rightarrow> None | Some cur' \<Rightarrow> track_all cur' as)"

lemma track_all_append:
  "track_all cur (as @ bs) = (case track_all cur as of None \<Rightarrow> None | Some cur' \<Rightarrow> track_all cur' bs)"
  by (induction as arbitrary: cur) (auto split: option.split)

definition held :: "agent \<Rightarrow> taskid option" where
  "held ag = map_option run_id (ag_running ag)"

lemma advance_cases:
  assumes "advance ag = Inr ag'"
  shows "held ag' = held ag" "ag_id ag' = ag_id ag" "joined ag' = joined ag"
    "ag_running ag' = None \<longleftrightarrow> ag_running ag = None"
  using assms by (auto simp: advance_def held_def Let_def split: option.splits work.splits sum.splits)

lemma track_report_work: "\<not> is_primes_work w \<Longrightarrow> track_all (Some i) (report_work i w) = Some None"
  by (cases w) auto

lemma report_finished_track:
  "report_finished now ag = (ag', as) \<Longrightarrow> track_all (held ag) as = Some (held ag')"
  by (auto simp: report_finished_def held_def track_report_work split: option.splits if_splits)

lemma report_finished_frame:
  "report_finished now ag = (ag', as) \<Longrightarrow> ag_id ag' = ag_id ag \<and> joined ag' = joined ag \<and>
     (ag_running ag = None \<longrightarrow> ag_running ag' = None \<and> as = [])"
  by (auto simp: report_finished_def split: option.splits if_splits)

lemma beat_cases:
  assumes "beat now ag = (ag', as)"
  shows "ag_running ag' = ag_running ag" "ag_id ag' = ag_id ag" "joined ag' = joined ag"
    "as = [] \<or> (\<exists>h. as = [Send (HeartbeatMsg h)])"
  using assms by (auto simp: beat_def Let_def split: option.splits if_splits)

lemma poll_cases:
  assumes "poll now ag = Inr (ag', as)"
  obtains ag1 ag2 reported beats wake where "advance ag = Inr ag1"
    "report_finished now ag1 = (ag2, reported)" "beat now ag2 = (ag', beats)"
    "as = reported @ beats @ wake" "wake = [] \<or> (\<exists>w. wake = [WakeIn w])"
  using assms by (auto simp: poll_def split: sum.splits prod.splits option.splits)

lemma poll_track:
  assumes "poll now ag = Inr (ag', as)"
  shows "track_all (held ag) as = Some (held ag')"
proof -
  obtain ag1 ag2 reported beats wake where p: "advance ag = Inr ag1"
    "report_finished now ag1 = (ag2, reported)" "beat now ag2 = (ag', beats)"
    "as = reported @ beats @ wake" "wake = [] \<or> (\<exists>w. wake = [WakeIn w])"
    using assms by (rule poll_cases)
  have "held ag' = held ag2" using beat_cases(1) [OF p(3)] by (simp add: held_def)
  moreover have "track_all c beats = Some c" "track_all c wake = Some c" for c
    using beat_cases(4) [OF p(3)] p(5) by auto
  ultimately show ?thesis
    using report_finished_track [OF p(2)] advance_cases(1) [OF p(1)] p(4) by (simp add: track_all_append)
qed

lemma accept_cases:
  assumes "accept i w now ag = Inr (ag', as)"
  obtains (ignored) "ag' = ag" "as = []" "ag_id ag = None \<or> held ag = Some i"
  | (bounced) r where "ag_running ag = Some r" "run_id r \<noteq> i" "ag' = ag"
      "as = [Send (TaskFinishedMsg i busy_refusal)]" "ag_id ag \<noteq> None"
  | (refused) why d where "ag_running ag = None" "ag_running ag' = None" "ag_id ag' = ag_id ag"
      "joined ag' = joined ag" "ag_id ag \<noteq> None"
      "as = [Send (TaskStartedMsg i), Send (TaskFinishedMsg i (OutFailed why d))]"
  | (begun) r bs where "ag_running ag = None" "run_id r = i" "ag_id ag \<noteq> None"
      "poll now (ag\<lparr>ag_running := Some r\<rparr>) = Inr (ag', bs)" "as = Send (TaskStartedMsg i) # bs"
proof (cases "ag_id ag")
  case None
  then show ?thesis using assms ignored by (simp add: accept_def)
next
  case (Some node)
  show ?thesis
  proof (cases "ag_running ag")
    case (Some r)
    then show ?thesis using assms \<open>ag_id ag = Some node\<close> ignored bounced
      by (auto simp: accept_def held_def busy_refusal_def split: if_splits)
  next
    case None
    note a = assms [unfolded accept_def, simplified \<open>ag_id ag = Some node\<close> None, simplified, unfolded Let_def]
    show ?thesis
    proof (cases "begin_work node w ag")
      case (Inl e)
      then show ?thesis using a None Some refused by (auto split: if_splits)
    next
      case (Inr b)
      show ?thesis
      proof (cases b)
        case bn: None
        then show ?thesis using a None Some Inr refused by (auto split: if_splits)
      next
        case bs: (Some p)
        obtain wt wk where p: "p = (wt, wk)" by (cases p)
        show ?thesis
        proof (cases "pending_failures ag > 0")
          case True
          then show ?thesis using a None Some refused by auto
        next
          case False
          let ?r = "\<lparr> run_id = i, ready_at = plus_ms now (sat_add u64_max wt (extra_delay_ms ag)), run_work = wk \<rparr>"
          show ?thesis
          proof (cases "poll now (ag\<lparr>ag_running := Some ?r\<rparr>)")
            case (Inr q)
            then obtain bs where "poll now (ag\<lparr>ag_running := Some ?r\<rparr>) = Inr (ag', bs)"
              "as = Send (TaskStartedMsg i) # bs"
              using a False bs p \<open>begin_work node w ag = Inr b\<close> by (cases q) auto
            then show ?thesis using begun [of ?r bs] None Some by simp
          qed (use a False bs p \<open>begin_work node w ag = Inr b\<close> in simp)
        qed
      qed
    qed
  qed
qed

lemma held_simps [simp]:
  "held (ag\<lparr>ag_running := Some r\<rparr>) = Some (run_id r)"
  "held (ag\<lparr>ag_id := x1\<rparr>) = held ag" "held (ag\<lparr>joined := x2\<rparr>) = held ag"
  "held (ag\<lparr>ag_interval_ms := x3\<rparr>) = held ag" "held (ag\<lparr>next_heartbeat := x4\<rparr>) = held ag"
  "held (ag\<lparr>heartbeat_paused := x5\<rparr>) = held ag" "held (ag\<lparr>pending_failures := x6\<rparr>) = held ag"
  "held (ag\<lparr>extra_delay_ms := x7\<rparr>) = held ag" "held (ag\<lparr>ag_free_memory := x8\<rparr>) = held ag"
  by (simp_all add: held_def)

lemma held_None: "ag_running ag = None \<Longrightarrow> held ag = None"
  by (simp add: held_def)

lemma accept_track:
  assumes "accept i w now ag = Inr (ag', as)"
  shows "track_all (held ag) as = Some (held ag')"
  using assms
proof (cases rule: accept_cases)
  case (bounced r)
  then show ?thesis by (simp add: held_def)
next
  case (begun r bs)
  then show ?thesis using poll_track [OF begun(4)] by (simp add: held_None)
qed (simp_all add: held_None)

lemma feed_cases:
  assumes "feed i ag = Inr (ag', as)"
  obtains (polled) now ag0 where "poll now ag0 = Inr (ag', as)" "held ag0 = held ag"
      "ag_running ag0 = ag_running ag"
      "(\<exists>p n h t. i = Message (Welcome p n h) t) \<and> ag_id ag0 \<noteq> None \<or> ag_id ag0 = ag_id ag \<and> joined ag0 = joined ag"
  | (accepted) t w now where "accept t w now ag = Inr (ag', as)" "i = Message (AssignMsg t w) now"
  | (quiet) "ag_running ag' = ag_running ag" "ag_id ag' = ag_id ag" "joined ag' = joined ag"
      "as = [] \<or> as = [Disconnect]"
proof (cases i)
  case (Message m now)
  show ?thesis
  proof (cases m)
    case (Welcome p n h)
    let ?ag = "(if h > 0 then ag\<lparr>ag_id := Some n, joined := True, ag_interval_ms := h\<rparr>
      else ag\<lparr>ag_id := Some n, joined := True\<rparr>)\<lparr>next_heartbeat := now\<rparr>"
    have "poll now ?ag = Inr (ag', as)" using assms Message Welcome by (simp add: Let_def split: if_splits)
    then show ?thesis using Message Welcome by (intro polled [of now ?ag]) (auto simp: held_def)
  next
    case (AssignMsg t w)
    then show ?thesis using assms Message accepted by auto
  next
    case (PauseHeartbeatMsg b)
    then show ?thesis using assms Message by (intro polled [of now "ag\<lparr>heartbeat_paused := b\<rparr>"]) auto
  next
    case (InjectFailuresMsg n)
    then show ?thesis using assms Message
      by (intro polled [of now "ag\<lparr>pending_failures := sat_add u32_max (pending_failures ag) n\<rparr>"]) auto
  next
    case (SetDelayMsg n)
    then show ?thesis using assms Message by (intro polled [of now "ag\<lparr>extra_delay_ms := n\<rparr>"]) auto
  qed (use assms Message quiet in auto)
next
  case (Poll now)
  then show ?thesis using assms by (intro polled [of now ag]) auto
next
  case (FreeMemory b)
  then show ?thesis using assms quiet by (auto simp: set_free_memory_def)
qed

lemma feed_track:
  assumes "feed i ag = Inr (ag', as)"
  shows "track_all (held ag) as = Some (held ag')"
  using assms
proof (cases rule: feed_cases)
  case (polled now ag0)
  then show ?thesis using poll_track [OF polled(1)] by simp
next
  case (accepted t w now)
  then show ?thesis using accept_track by simp
next
  case quiet
  then show ?thesis by (auto simp: held_def)
qed

lemma run_agent_track: "run_agent is ag = Inr (ag', as) \<Longrightarrow> track_all (held ag) as = Some (held ag')"
proof (induction "is" arbitrary: ag as)
  case (Cons i "is")
  then obtain ag1 as1 bs where "feed i ag = Inr (ag1, as1)" "run_agent is ag1 = Inr (ag', bs)" "as = as1 @ bs"
    by (auto split: sum.splits)
  then show ?case using Cons.IH feed_track by (simp add: track_all_append)
qed simp

definition demo_inputs :: "input list" where
  "demo_inputs = [Message (Welcome 4 7 1000) 5, Message (AssignMsg 1 (WireSleep 20)) 6,
     Message (AssignMsg 2 (WireSleep 1)) 8, Poll 26]"

definition demo_agent :: agent where
  "demo_agent = new_agent None (new_capabilities 2 0) 500"

definition quiet_agent :: agent where
  "quiet_agent = demo_agent\<lparr>ag_id := Some 7, joined := True, ag_interval_ms := 1000, next_heartbeat := 1005\<rparr>"

definition beat_7 :: "action" where
  "beat_7 = Send (HeartbeatMsg \<lparr> hb_node = 7, hb_load = \<lparr> load_percent = 0, running_tasks = 0,
     free_memory_bytes = 0, simulated = False \<rparr>, hb_at = 5 \<rparr>)"

lemmas agent_eval = poll_def accept_def begin_work_def advance_def report_finished_def beat_def
  next_wake_ms_def agent_load_def Let_def plus_ms_def sat_add_def since_def

lemma demo_run_agent:
  "run_agent demo_inputs demo_agent = Inr (quiet_agent,
     [beat_7, WakeIn 1000, Send (TaskStartedMsg 1), WakeIn 20,
      Send (TaskFinishedMsg 2 (OutFailed ExecutionError ''node was already busy'')),
      Send (TaskFinishedMsg 1 (OutCompleted (sleep_output 7 20))), WakeIn 979])"
  by (simp add: demo_inputs_def demo_agent_def new_agent_def agent_eval quiet_agent_def beat_7_def)

section \<open>Artifacts before completion, silence before the welcome\<close>

fun artifacts_ok :: "action list \<Rightarrow> bool" where
  "artifacts_ok [] = True"
| "artifacts_ok (Send (TaskProducedMsg t a) # as) \<longleftrightarrow>
     verify a = Some (art_bytes a) \<and> length (art_bytes a) \<le> MAX_ARTIFACT \<and>
     (case as of Send (TaskFinishedMsg u (OutCompleted _)) # _ \<Rightarrow> u = t | _ \<Rightarrow> False) \<and> artifacts_ok as"
| "artifacts_ok (_ # as) \<longleftrightarrow> artifacts_ok as"

lemma artifacts_ok_append: "artifacts_ok as \<Longrightarrow> artifacts_ok bs \<Longrightarrow> artifacts_ok (as @ bs)"
  by (induction as rule: artifacts_ok.induct)
     (auto split: list.splits action.splits node_message.splits task_outcome.splits)

lemma artifacts_ok_report_work: "artifacts_ok (report_work i w)"
  using verify_new_artifact by (cases w) (auto simp: new_artifact_def)

lemma poll_artifacts: "poll now ag = Inr (ag', as) \<Longrightarrow> artifacts_ok as"
proof (erule poll_cases)
  fix ag1 ag2 reported beats wake
  assume r: "report_finished now ag1 = (ag2, reported)" and b: "beat now ag2 = (ag', beats)"
    and as: "as = reported @ beats @ wake" and w: "wake = [] \<or> (\<exists>w. wake = [WakeIn w])"
  have "artifacts_ok reported"
    using r artifacts_ok_report_work by (auto simp: report_finished_def split: option.splits if_splits)
  moreover have "artifacts_ok beats" using beat_cases(4) [OF b] by auto
  moreover have "artifacts_ok wake" using w by auto
  ultimately show ?thesis unfolding as by (intro artifacts_ok_append)
qed

lemma accept_artifacts: "accept t w now ag = Inr (ag', as) \<Longrightarrow> artifacts_ok as"
  by (erule accept_cases) (auto dest: poll_artifacts)

lemma feed_artifacts: "feed i ag = Inr (ag', as) \<Longrightarrow> artifacts_ok as"
  by (erule feed_cases) (auto dest: poll_artifacts accept_artifacts)

lemma run_agent_ConsE:
  assumes "run_agent (i # is) ag = Inr (ag', as)"
  obtains ag1 as1 bs where "feed i ag = Inr (ag1, as1)" "run_agent is ag1 = Inr (ag', bs)" "as = as1 @ bs"
  using assms by (auto split: sum.splits)

text \<open>
  In whatever run, a result artifact the agent sends carries a digest that its receiver verifies, is
  never larger than an artifact may be, and is followed immediately by the completion of the same task.
\<close>
lemma agent_artifact_before_completion:
  assumes "run_agent inputs ag = Inr (ag', actions)"
  shows "artifacts_ok actions"
  using assms
proof (induction inputs arbitrary: ag actions)
  case (Cons i "is")
  from Cons.prems show ?case
    by (rule run_agent_ConsE) (auto intro: artifacts_ok_append feed_artifacts Cons.IH)
qed simp

section \<open>Every assignment is answered once\<close>

fun finished :: "action list \<Rightarrow> (taskid \<times> task_outcome) list" where
  "finished [] = []"
| "finished (Send (TaskFinishedMsg t out) # as) = (t, out) # finished as"
| "finished (_ # as) = finished as"

lemma finished_append [simp]: "finished (as @ bs) = finished as @ finished bs"
  by (induction as rule: finished.induct) auto

fun assigned :: "input list \<Rightarrow> taskid list" where
  "assigned [] = []"
| "assigned (Message (AssignMsg t w) now # is) = t # assigned is"
| "assigned (_ # is) = assigned is"

lemma assigned_Cons_append: "assigned (i # is) = assigned [i] @ assigned is"
  by (cases "i # is" rule: assigned.cases) auto

definition holding :: "agent \<Rightarrow> taskid \<Rightarrow> nat" where
  "holding ag t = (if held ag = Some t then 1 else 0)"

abbreviation answers :: "action list \<Rightarrow> taskid \<Rightarrow> nat" where
  "answers as t \<equiv> count_list (map fst (finished as)) t"

lemma report_work_answers: "\<not> is_primes_work w \<Longrightarrow> answers (report_work i w) t = (if t = i then 1 else 0)"
  by (cases w) auto

lemma poll_answers:
  assumes "poll now ag = Inr (ag', as)"
  shows "answers as t + holding ag' t = holding ag t" "ag_id ag' = ag_id ag"
proof -
  obtain ag1 ag2 reported beats wake where p: "advance ag = Inr ag1"
    "report_finished now ag1 = (ag2, reported)" "beat now ag2 = (ag', beats)"
    "as = reported @ beats @ wake" "wake = [] \<or> (\<exists>w. wake = [WakeIn w])"
    using assms by (rule poll_cases)
  have "finished beats = []" "finished wake = []" using beat_cases(4) [OF p(3)] p(5) by auto
  moreover have "held ag' = held ag2" using beat_cases(1) [OF p(3)] by (simp add: held_def)
  moreover have "answers reported t + holding ag2 t = holding ag1 t"
    using p(2) report_work_answers
    by (auto simp: report_finished_def holding_def held_def split: option.splits if_splits)
  ultimately show "answers as t + holding ag' t = holding ag t"
    using advance_cases(1) [OF p(1)] p(4) by (simp add: holding_def)
  show "ag_id ag' = ag_id ag"
    using advance_cases(2) [OF p(1)] report_finished_frame [OF p(2)] beat_cases(2) [OF p(3)] by simp
qed

text \<open>One input: what it assigns is answered or held, unless the worker has no identity or holds that task already.\<close>

definition passed_over :: "input \<Rightarrow> agent \<Rightarrow> taskid \<Rightarrow> nat" where
  "passed_over i ag t = (if assigned [i] = [t] \<and> (ag_id ag = None \<or> held ag = Some t) then 1 else 0)"

lemma accept_answers:
  assumes "accept u w now ag = Inr (ag', as)"
  shows "answers as t + holding ag' t + (if u = t \<and> (ag_id ag = None \<or> held ag = Some t) then 1 else 0) =
      (if u = t then 1 else 0) + holding ag t \<and> ag_id ag' = ag_id ag"
  using assms
proof (cases rule: accept_cases)
  case (begun r bs)
  then show ?thesis using poll_answers(1) [OF begun(4), of t] poll_answers(2) [OF begun(4)]
    by (simp add: holding_def held_None)
qed (auto simp: holding_def held_def)

lemma feed_answers:
  assumes "feed i ag = Inr (ag', as)"
  shows "answers as t + holding ag' t + passed_over i ag t = count_list (assigned [i]) t + holding ag t"
    and "ag_id ag \<noteq> None \<Longrightarrow> ag_id ag' \<noteq> None"
proof -
  have "assigned [i] = [] \<or> (\<exists>u w now. i = Message (AssignMsg u w) now)"
    by (cases "[i]" rule: assigned.cases) auto
  then consider (assign) u w now where "i = Message (AssignMsg u w) now"
    | (none) "assigned [i] = []" "\<nexists>u w now. i = Message (AssignMsg u w) now" by auto
  then have "answers as t + holding ag' t + passed_over i ag t = count_list (assigned [i]) t + holding ag t \<and>
      (ag_id ag \<noteq> None \<longrightarrow> ag_id ag' \<noteq> None)"
  proof cases
    case assign
    then show ?thesis using accept_answers [of u w now ag ag' as t] assms by (auto simp: passed_over_def)
  next
    case none
    from assms show ?thesis
    proof (cases rule: feed_cases)
      case (polled now ag0)
      then have "ag_id ag0 \<noteq> None" if "ag_id ag \<noteq> None" using that by auto
      then show ?thesis
        using none polled(2) poll_answers(1) [OF polled(1), of t] poll_answers(2) [OF polled(1)]
        by (simp add: passed_over_def holding_def)
    next
      case quiet
      then show ?thesis using none by (auto simp: passed_over_def holding_def held_def)
    qed (use none in auto)
  qed
  then show "answers as t + holding ag' t + passed_over i ag t = count_list (assigned [i]) t + holding ag t"
    "ag_id ag \<noteq> None \<Longrightarrow> ag_id ag' \<noteq> None" by auto
qed

lemma run_agent_answers:
  assumes "run_agent inputs ag = Inr (ag', as)"
  shows "answers as t + holding ag' t \<le> count_list (assigned inputs) t + holding ag t"
  using assms
proof (induction inputs arbitrary: ag as)
  case (Cons i "is")
  from Cons.prems obtain ag1 as1 bs where r: "feed i ag = Inr (ag1, as1)" "run_agent is ag1 = Inr (ag', bs)"
    "as = as1 @ bs" by (rule run_agent_ConsE)
  then show ?case
    using feed_answers(1) [OF r(1), of t] Cons.IH [OF r(2)] by (simp add: assigned_Cons_append [of i "is"])
qed simp

lemma count_list_distinct: "distinct xs \<Longrightarrow> x \<in> set xs \<Longrightarrow> count_list xs x = 1"
  by (induction xs) (auto simp: count_list_0_iff)

lemma run_agent_exact:
  assumes "run_agent inputs ag = Inr (ag', as)" "ag_id ag \<noteq> None"
    and "distinct (assigned inputs)" "\<forall>t. held ag = Some t \<longrightarrow> t \<notin> set (assigned inputs)"
  shows "answers as t + holding ag' t = count_list (assigned inputs) t + holding ag t"
  using assms
proof (induction inputs arbitrary: ag as)
  case (Cons i "is")
  from Cons.prems(1) obtain ag1 as1 bs where r: "feed i ag = Inr (ag1, as1)" "run_agent is ag1 = Inr (ag', bs)"
    "as = as1 @ bs" by (rule run_agent_ConsE)
  have "passed_over i ag u = 0" for u
    using Cons.prems(2,4) by (auto simp: passed_over_def assigned_Cons_append [of i "is"])
  then have one: "answers as1 u + holding ag1 u = count_list (assigned [i]) u + holding ag u" for u
    using feed_answers(1) [OF r(1), of u] by simp
  have "u \<notin> set (assigned is)" if "held ag1 = Some u" for u
  proof
    assume u: "u \<in> set (assigned is)"
    then have "count_list (assigned [i]) u = 0" "holding ag u = 0"
      using Cons.prems(3,4) by (auto simp: assigned_Cons_append [of i "is"] holding_def count_list_0_iff)
    then show False using one [of u] that by (simp add: holding_def)
  qed
  moreover have "distinct (assigned is)" using Cons.prems(3) by (simp add: assigned_Cons_append [of i "is"])
  ultimately show ?case
    using one [of t] r(3) Cons.IH [OF r(2) feed_answers(2) [OF r(1) Cons.prems(2)]]
    by (simp add: assigned_Cons_append [of i "is"])
qed simp

text \<open>
  C12: A worker has one task at a time and answers for it once. Start from any idle agent, whatever its identity, its
  token and the host's workload, feed it any messages, polls and memory readings at any times. What it puts on the
  wire is then accepted by the reader \<open>track_all\<close>: a task is announced only when none is open, a finish or a
  result is sent only for the open task, so that none is reported twice (a refusal of another task while one is
  open being the only other finish), and what is open in the end is the task the agent holds. Every result is
  sound, no larger than an artifact may be and followed at once by the completion of its task. For every task the
  finishes sent, with the one still held, are at most the assignments of it received; and exactly as many when the
  agent has an identity and no task is assigned twice: each of those assignments is answered exactly once or is
  the one held.
\<close>
theorem agent_one_task:
  assumes "run_agent inputs ag = Inr (ag', actions)" "ag_running ag = None"
  shows "track_all None actions = Some (held ag') \<and> artifacts_ok actions \<and>
    (\<forall>t. count_list (map fst (finished actions)) t + (if held ag' = Some t then 1 else 0)
       \<le> count_list (assigned inputs) t) \<and>
    (ag_id ag \<noteq> None \<and> distinct (assigned inputs) \<longrightarrow>
       (\<forall>t\<in>set (assigned inputs).
          count_list (map fst (finished actions)) t + (if held ag' = Some t then 1 else 0) = 1))"
proof -
  have idle: "held ag = None" "holding ag t = 0" for t using assms(2) by (simp_all add: held_def holding_def)
  have once: "answers actions t + holding ag' t = 1"
    if "ag_id ag \<noteq> None" "distinct (assigned inputs)" "t \<in> set (assigned inputs)" for t
    using run_agent_exact [OF assms(1) that(1,2), of t] that(2,3)
    by (simp add: idle count_list_distinct)
  show ?thesis
    using run_agent_track [OF assms(1)] agent_artifact_before_completion [OF assms(1)]
      run_agent_answers [OF assms(1)] once by (simp add: idle holding_def)
qed

definition demo_host :: host_workload where
  "demo_host node spec input = Some (Produced ''done'' (rev input))"

definition demo_produced :: "action list" where
  "demo_produced = [Send (TaskStartedMsg 3), Send (TaskProducedMsg 3 (new_artifact [2, 1])),
     Send (TaskFinishedMsg 3 (OutCompleted ''done''))]"

lemma demo_produces:
  "run_agent [Message (AssignMsg 3 (WireAnalysis 1 1 0 (new_artifact [1, 2]))) 9]
     (with_workload demo_host (new_agent (Some 4) (new_capabilities 1 0) 10)) =
   Inr (with_workload demo_host (new_agent (Some 4) (new_capabilities 1 0) 10), demo_produced)"
  by (simp add: with_workload_def new_agent_def agent_eval demo_host_def demo_produced_def
      MAX_ARTIFACT_def MAX_FRAME_def)

text \<open>A worker with a host workload: a sleep, another task refused meanwhile, then an analysis with a result.\<close>

definition demo_worker :: agent where
  "demo_worker = with_workload demo_host (new_agent (Some 4) (new_capabilities 1 0) 10)"

definition demo_work :: "input list" where
  "demo_work = [Message (AssignMsg 1 (WireSleep 20)) 6, Message (AssignMsg 2 (WireSleep 1)) 8, Poll 26,
     Message (AssignMsg 3 (WireAnalysis 1 1 0 (new_artifact [1, 2]))) 30]"

definition demo_sent :: "action list" where
  "demo_sent = [Send (TaskStartedMsg 1), WakeIn 20, Send (TaskFinishedMsg 2 busy_refusal),
     Send (TaskFinishedMsg 1 (OutCompleted (sleep_output 4 20))),
     Send (TaskStartedMsg 3), Send (TaskProducedMsg 3 (new_artifact [2, 1])),
     Send (TaskFinishedMsg 3 (OutCompleted ''done''))]"

lemma demo_worker_run: "run_agent demo_work demo_worker = Inr (demo_worker, demo_sent)"
  by (simp add: demo_work_def demo_worker_def demo_sent_def with_workload_def new_agent_def agent_eval demo_host_def
      busy_refusal_def MAX_ARTIFACT_def MAX_FRAME_def)

theorem agent_one_task_witness:
  "track_all None demo_sent = Some None \<and> artifacts_ok demo_sent \<and> map fst (finished demo_sent) = [2, 1, 3] \<and>
   count_list (map fst (finished demo_sent)) 3 = 1"
proof -
  have idle: "ag_running demo_worker = None" "held demo_worker = None"
    by (simp_all add: demo_worker_def with_workload_def new_agent_def held_def)
  have "ag_id demo_worker \<noteq> None \<and> distinct (assigned demo_work)" "3 \<in> set (assigned demo_work)"
    by (simp_all add: demo_worker_def with_workload_def new_agent_def demo_work_def)
  then have "count_list (map fst (finished demo_sent)) 3 = 1"
    using agent_one_task [OF demo_worker_run idle(1)] idle(2) by fastforce
  moreover have "track_all None demo_sent = Some None" "artifacts_ok demo_sent"
    using agent_one_task [OF demo_worker_run idle(1)] unfolding idle(2) by blast+
  moreover have "map fst (finished demo_sent) = [2, 1, 3]" by (simp add: demo_sent_def)
  ultimately show ?thesis by blast
qed

lemma agent_artifact_before_completion_example: "artifacts_ok demo_produced"
  by (rule agent_artifact_before_completion [OF demo_produces])

definition is_send :: "action \<Rightarrow> bool" where
  "is_send a \<longleftrightarrow> (case a of Send _ \<Rightarrow> True | _ \<Rightarrow> False)"

definition unwelcomed :: "agent \<Rightarrow> bool" where
  "unwelcomed ag \<longleftrightarrow> ag_id ag = None \<and> \<not> joined ag \<and> ag_running ag = None"

lemma poll_unwelcomed:
  assumes "poll now ag = Inr (ag', as)" "unwelcomed ag"
  shows "unwelcomed ag' \<and> filter is_send as = []"
  using assms by (auto simp: unwelcomed_def poll_def advance_def report_finished_def beat_def is_send_def
      split: option.splits)

lemma feed_unwelcomed:
  assumes "feed i ag = Inr (ag', as)" "unwelcomed ag" "\<nexists>p n h t. i = Message (Welcome p n h) t"
  shows "unwelcomed ag' \<and> filter is_send as = []"
  using assms(1)
proof (cases rule: feed_cases)
  case (polled now ag0)
  then show ?thesis using assms(2,3) poll_unwelcomed [OF polled(1)] by (auto simp: unwelcomed_def)
next
  case (accepted t w now)
  then show ?thesis using assms(2) by (auto simp: unwelcomed_def accept_def)
next
  case quiet
  then show ?thesis using assms(2) by (auto simp: unwelcomed_def is_send_def)
qed

text \<open>
  An anonymous worker puts nothing on the wire, after its \<open>Hello\<close>, until the coordinator has welcomed
  it: whatever else it is sent and whenever it is polled, it sends no message, takes no task and keeps no
  identity.
\<close>
lemma anonymous_silent_until_welcome:
  assumes "run_agent inputs (anonymous_agent caps interval) = Inr (ag, actions)"
    and "\<forall>i\<in>set inputs. \<nexists>p n h t. i = Message (Welcome p n h) t"
  shows "filter is_send actions = [] \<and> ag_id ag = None \<and> ag_running ag = None"
proof -
  have "unwelcomed ag \<and> filter is_send actions = []"
    if "run_agent inputs ag0 = Inr (ag, actions)" "unwelcomed ag0" for ag0
    using that assms(2)
  proof (induction inputs arbitrary: ag0 actions)
    case (Cons i "is")
    from Cons.prems(1) obtain ag1 as1 bs where "feed i ag0 = Inr (ag1, as1)"
      "run_agent is ag1 = Inr (ag, bs)" "actions = as1 @ bs" by (rule run_agent_ConsE)
    then show ?case using feed_unwelcomed [of i ag0 ag1 as1] Cons by auto
  qed simp
  from this [OF assms(1)] show ?thesis by (simp add: unwelcomed_def anonymous_agent_def new_agent_def)
qed

lemma anonymous_silent_until_welcome_example:
  "filter is_send [Disconnect] = [] \<and> ag_id (set_free_memory 9 demo_agent) = None"
  using anonymous_silent_until_welcome
    [of "[Message (AssignMsg 1 (WireSleep 2)) 3, FreeMemory 9, Message Shutdown 4]" "new_capabilities 2 0" 500
      "set_free_memory 9 demo_agent" "[Disconnect]"]
  by (simp add: anonymous_agent_def new_agent_def accept_def demo_agent_def set_free_memory_def)

text \<open>
  A worker with a fixed identity is different: its guard in \<open>accept\<close> is the identity, not the welcome, so
  it takes a task and sends messages before any \<open>Welcome\<close>.
\<close>

lemma fixed_id_works_before_welcome:
  "\<exists>ag actions. run_agent [Message (AssignMsg 3 (WireSleep 5)) 9] (new_agent (Some 4) (new_capabilities 1 0) 10) =
     Inr (ag, actions) \<and> \<not> joined ag \<and> Send (TaskStartedMsg 3) \<in> set actions"
  by (simp add: new_agent_def agent_eval)

section \<open>Slices add up\<close>

lemma primes_in_join: "lo \<le> cur \<Longrightarrow> cur \<le> hi \<Longrightarrow> primes_in lo cur @ primes_in cur hi = primes_in lo hi"
  using upt_add_eq_append [of lo cur "hi - cur"] by (simp add: primes_in_def flip: filter_append)

text \<open>The agent holds a count of \<open>lo..hi\<close> that is right up to \<open>cur\<close>.\<close>

definition counting :: "agent \<Rightarrow> taskid \<Rightarrow> millis \<Rightarrow> nodeid \<Rightarrow> nat \<Rightarrow> nat \<Rightarrow> nat \<Rightarrow> bool" where
  "counting ag i at n lo hi cur \<longleftrightarrow>
     ag_running ag = Some \<lparr> run_id = i, ready_at = at,
       run_work = WorkPrimes n lo hi cur (length (primes_in lo cur)) \<rparr> \<and>
     hi \<le> prime_limit \<and> lo \<le> cur \<and> (cur \<le> hi \<or> cur = lo)"

lemma count_slice:
  assumes "lo \<le> cur" "cur \<le> hi \<or> cur = lo" "stop = min (cur + 8000) hi"
  shows "length (primes_in lo cur) + length (primes_in cur stop) = length (primes_in lo stop)"
proof (cases "cur \<le> hi")
  case True
  then show ?thesis using assms primes_in_join [of lo cur stop] by (metis length_append le_add1 min.bounded_iff)
next
  case False
  then show ?thesis using assms by (simp add: primes_in_def)
qed

lemma advance_counting:
  assumes c: "counting ag i at n lo hi cur"
  shows "\<exists>ag1. advance ag = Inr ag1 \<and> ag_id ag1 = ag_id ag \<and>
    (if cur + 8000 < hi then counting ag1 i at n lo hi (cur + 8000)
     else ag_running ag1 = Some \<lparr> run_id = i, ready_at = at,
            run_work = Ready (primes_output n lo hi (length (primes_in lo hi))) \<rparr>)"
proof -
  let ?stop = "min (cur + 8000) hi"
  have lim: "hi \<le> prime_limit" and lo: "lo \<le> cur" "cur \<le> hi \<or> cur = lo" using c by (auto simp: counting_def)
  have stop: "min (sat_add u64_max cur COMPUTE_SLICE) hi = ?stop"
    using lim by (auto simp: sat_add_def COMPUTE_SLICE_def min_def)
  have "count_primes cur ?stop = Inr (length (primes_in cur ?stop))"
    using lim by (intro count_primes_correct) simp
  note adv = this count_slice [OF lo refl] stop
  show ?thesis
  proof (cases "cur + 8000 < hi")
    case True
    then have "?stop = cur + 8000" by simp
    then show ?thesis using c adv True
      by (simp add: counting_def advance_def Let_def)
  next
    case False
    then have "?stop = hi" by simp
    then show ?thesis using c adv False by (simp add: counting_def advance_def Let_def)
  qed
qed

lemma poll_counting:
  assumes c: "counting ag i at n lo hi cur" and now: "at \<le> now"
  shows "\<exists>ag' as. poll now ag = Inr (ag', as) \<and>
    (if cur + 8000 < hi then counting ag' i at n lo hi (cur + 8000) \<and> finished as = []
     else ag_running ag' = None \<and>
       finished as = [(i, OutCompleted (primes_output n lo hi (length (primes_in lo hi))))])"
proof -
  obtain ag1 where a: "advance ag = Inr ag1"
    and r: "if cur + 8000 < hi then counting ag1 i at n lo hi (cur + 8000)
     else ag_running ag1 = Some \<lparr> run_id = i, ready_at = at,
            run_work = Ready (primes_output n lo hi (length (primes_in lo hi))) \<rparr>"
    using advance_counting [OF c] by blast
  obtain ag2 reported where f: "report_finished now ag1 = (ag2, reported)" by fastforce
  obtain ag' beats where b: "beat now ag2 = (ag', beats)" by fastforce
  have quiet: "finished beats = []" using beat_cases(4) [OF b] by auto
  show ?thesis
  proof (cases "cur + 8000 < hi")
    case True
    then have "ag2 = ag1" "reported = []" using f r by (auto simp: report_finished_def counting_def)
    then show ?thesis using a f b r True quiet beat_cases(1) [OF b]
      by (auto simp: poll_def counting_def split: option.split)
  next
    case False
    then have "ag_running ag2 = None"
      "finished reported = [(i, OutCompleted (primes_output n lo hi (length (primes_in lo hi))))]"
      using f r now by (auto simp: report_finished_def)
    then show ?thesis using a f b False quiet beat_cases(1) [OF b]
      by (auto simp: poll_def split: option.split)
  qed
qed

lemma polls_idle:
  "ag_running ag = None \<Longrightarrow> \<exists>ag' as. run_agent (map Poll ts) ag = Inr (ag', as) \<and> finished as = []"
proof (induction ts arbitrary: ag)
  case (Cons t ts)
  obtain ag1 beats where b: "beat t ag = (ag1, beats)" by fastforce
  have "finished beats = []" "ag_running ag1 = None" using beat_cases [OF b] Cons.prems by auto
  then obtain as where p: "poll t ag = Inr (ag1, as)" "finished as = []"
    using Cons.prems b by (auto simp: poll_def advance_def report_finished_def split: option.splits)
  from Cons.IH [OF \<open>ag_running ag1 = None\<close>] obtain ag' bs
    where "run_agent (map Poll ts) ag1 = Inr (ag', bs)" "finished bs = []" by blast
  then show ?case using p by simp
qed simp

lemma polls_counting:
  assumes "counting ag i at n lo hi cur" "\<forall>t\<in>set ts. at \<le> t" "hi \<le> cur + 8000 * length ts" "ts \<noteq> []"
  shows "\<exists>ag' as. run_agent (map Poll ts) ag = Inr (ag', as) \<and>
    finished as = [(i, OutCompleted (primes_output n lo hi (length (primes_in lo hi))))]"
  using assms
proof (induction ts arbitrary: ag cur)
  case (Cons t ts)
  obtain ag1 as where p: "poll t ag = Inr (ag1, as)" and
    r: "if cur + 8000 < hi then counting ag1 i at n lo hi (cur + 8000) \<and> finished as = []
     else ag_running ag1 = None \<and>
       finished as = [(i, OutCompleted (primes_output n lo hi (length (primes_in lo hi))))]"
    using poll_counting [OF Cons.prems(1)] Cons.prems(2) by fastforce
  show ?case
  proof (cases "cur + 8000 < hi")
    case True
    then have "ts \<noteq> []" using Cons.prems(3) by auto
    then have "\<exists>ag' bs. run_agent (map Poll ts) ag1 = Inr (ag', bs) \<and>
        finished bs = [(i, OutCompleted (primes_output n lo hi (length (primes_in lo hi))))]"
      using Cons.IH [of ag1 "cur + 8000"] True r Cons.prems by auto
    then show ?thesis using p r True by auto
  next
    case False
    then show ?thesis using p r polls_idle [of ag1 ts] by auto
  qed
qed simp

text \<open>
  C13: Counting primes in slices changes nothing but the timing: an idle worker that is assigned a range and
  then polled often enough (once per 8,000 candidates) reports the task exactly once, completed, with the
  very output that computing the range in one call gives.
\<close>
theorem sliced_primes_same_output:
  assumes idle: "ag_id ag = Some n" "ag_running ag = None" "pending_failures ag = 0"
    and range: "hi \<le> prime_limit"
    and polls: "hi \<le> lo + 8000 * Suc (length ts)" "\<forall>t\<in>set ts. now \<le> t"
    and now: "extra_delay_ms ag = 0" "now \<le> u64_max"
  shows "\<exists>ag' as out. run_agent (Message (AssignMsg i (WirePrimes lo hi)) now # map Poll ts) ag = Inr (ag', as) \<and>
    finished as = [(i, OutCompleted out)] \<and> run_task n (TaskPrimes lo hi) = Inr (Some (Done out))"
proof -
  let ?at = "plus_ms now (extra_delay_ms ag)"
  let ?ag = "ag\<lparr>ag_running := Some \<lparr> run_id = i, ready_at = ?at, run_work = WorkPrimes n lo hi lo 0 \<rparr>\<rparr>"
  have c: "counting ?ag i ?at n lo hi lo" using range by (simp add: counting_def primes_in_def)
  have at: "\<forall>t\<in>set (now # ts). ?at \<le> t" using polls(2) now by (simp add: plus_ms_def sat_add_def)
  obtain ag' as where r: "run_agent (map Poll (now # ts)) ?ag = Inr (ag', as)"
    and f: "finished as = [(i, OutCompleted (primes_output n lo hi (length (primes_in lo hi))))]"
    using polls_counting [OF c at] polls(1) by auto
  have acc: "accept i (WirePrimes lo hi) now ag =
      (case poll now ?ag of Inl e \<Rightarrow> Inl e | Inr (ag, as) \<Rightarrow> Inr (ag, Send (TaskStartedMsg i) # as))"
    using idle by (simp add: accept_def begin_work_def Let_def sat_add_def now split: sum.split)
  have "run_agent (Message (AssignMsg i (WirePrimes lo hi)) now # map Poll ts) ag =
      Inr (ag', Send (TaskStartedMsg i) # as)"
    using r acc by (auto split: sum.splits)
  moreover have "run_task n (TaskPrimes lo hi) = Inr (Some (Done (primes_output n lo hi (length (primes_in lo hi)))))"
    using count_primes_correct [OF range] by simp
  ultimately show ?thesis using f by auto
qed

theorem sliced_primes_same_output_witness:
  "\<exists>ag' as out. run_agent (Message (AssignMsg 5 (WirePrimes 0 20000)) 1006 # map Poll [1007, 1010]) quiet_agent = Inr (ag', as) \<and>
    finished as = [(5, OutCompleted out)] \<and> run_task 7 (TaskPrimes 0 20000) = Inr (Some (Done out))"
  by (rule sliced_primes_same_output)
     (simp_all add: quiet_agent_def demo_agent_def new_agent_def plus_ms_def sat_add_def)

end
