(* ===== verification/Events.thy ===== *)
theory Events
  imports Jobs Nodes
begin

text \<open>
  \<open>cluster-core/src/event.rs\<close>: the events of the cluster, their severity, kind, human-readable
  message and the node they are about.
\<close>

datatype cluster_event =
    EvNodeJoined nodeid
  | EvNodeLeft nodeid
  | EvNodeUnhealthy nodeid
  | EvNodeRecovered nodeid
  | EvRoleAssigned nodeid role
  | EvRoleRemoved nodeid role
  | EvLeaderElected nodeid
  | EvLeaderLost nodeid
  | EvJobCreated jobid
  | EvJobCompleted jobid
  | EvJobFailed jobid
  | EvTaskAssigned taskid nodeid
  | EvTaskCompleted taskid nodeid
  | EvTaskFailed taskid "nodeid option" failure_reason
  | EvTaskRequeued taskid

datatype event_severity = SevInfo | SevWarn | SevError

fun severity_str :: "event_severity \<Rightarrow> string" where
  "severity_str SevInfo = ''info''"
| "severity_str SevWarn = ''warn''"
| "severity_str SevError = ''error''"

fun severity_of :: "cluster_event \<Rightarrow> event_severity" where
  "severity_of (EvNodeUnhealthy _) = SevWarn"
| "severity_of (EvNodeLeft _) = SevWarn"
| "severity_of (EvTaskRequeued _) = SevWarn"
| "severity_of (EvLeaderLost _) = SevWarn"
| "severity_of (EvTaskFailed _ _ _) = SevError"
| "severity_of (EvJobFailed _) = SevError"
| "severity_of _ = SevInfo"

fun event_kind :: "cluster_event \<Rightarrow> string" where
  "event_kind (EvNodeJoined _) = ''node_joined''"
| "event_kind (EvNodeLeft _) = ''node_left''"
| "event_kind (EvNodeUnhealthy _) = ''node_unhealthy''"
| "event_kind (EvNodeRecovered _) = ''node_recovered''"
| "event_kind (EvRoleAssigned _ _) = ''role_assigned''"
| "event_kind (EvRoleRemoved _ _) = ''role_removed''"
| "event_kind (EvLeaderElected _) = ''leader_elected''"
| "event_kind (EvLeaderLost _) = ''leader_lost''"
| "event_kind (EvJobCreated _) = ''job_created''"
| "event_kind (EvJobCompleted _) = ''job_completed''"
| "event_kind (EvJobFailed _) = ''job_failed''"
| "event_kind (EvTaskAssigned _ _) = ''task_assigned''"
| "event_kind (EvTaskCompleted _ _) = ''task_completed''"
| "event_kind (EvTaskFailed _ _ _) = ''task_failed''"
| "event_kind (EvTaskRequeued _) = ''task_requeued''"

text \<open>The first \<open>{}\<close> of the pattern is replaced; a pattern without one is left alone.\<close>

fun replace_hole :: "string \<Rightarrow> string \<Rightarrow> string" where
  "replace_hole arg (c # d # s) =
     (if c = CHR ''{'' \<and> d = CHR ''}'' then arg @ s else c # replace_hole arg (d # s))"
| "replace_hole arg s = s"

fun message_parts :: "cluster_event \<Rightarrow> string \<times> string list" where
  "message_parts (EvNodeJoined n) = (''{} joined'', [node_text n])"
| "message_parts (EvNodeLeft n) = (''{} left'', [node_text n])"
| "message_parts (EvNodeUnhealthy n) = (''{} heartbeat lost'', [node_text n])"
| "message_parts (EvNodeRecovered n) = (''{} recovered'', [node_text n])"
| "message_parts (EvRoleAssigned n r) = (''{} assigned to {}'', [role_str r, node_text n])"
| "message_parts (EvRoleRemoved n r) = (''{} removed from {}'', [role_str r, node_text n])"
| "message_parts (EvLeaderElected n) = (''{} elected coordinator'', [node_text n])"
| "message_parts (EvLeaderLost n) = (''{} lost coordinator role'', [node_text n])"
| "message_parts (EvJobCreated j) = (''{} created'', [job_text j])"
| "message_parts (EvJobCompleted j) = (''{} completed'', [job_text j])"
| "message_parts (EvJobFailed j) = (''{} failed'', [job_text j])"
| "message_parts (EvTaskAssigned t n) = (''{} assigned to {}'', [task_text t, node_text n])"
| "message_parts (EvTaskCompleted t n) = (''{} completed on {}'', [task_text t, node_text n])"
| "message_parts (EvTaskFailed t (Some n) r) =
     (''{} failed on {} ({})'', [task_text t, node_text n, failure_reason_str r])"
| "message_parts (EvTaskFailed t None r) =
     (''{} failed ({})'', [task_text t, failure_reason_str r])"
| "message_parts (EvTaskRequeued t) = (''{} requeued'', [task_text t])"

definition event_message :: "cluster_event \<Rightarrow> string" where
  "event_message e =
     (case message_parts e of (pattern, args) \<Rightarrow> foldl (\<lambda>out arg. replace_hole arg out) pattern args)"

fun event_node :: "cluster_event \<Rightarrow> nodeid option" where
  "event_node (EvNodeJoined n) = Some n"
| "event_node (EvNodeLeft n) = Some n"
| "event_node (EvNodeUnhealthy n) = Some n"
| "event_node (EvNodeRecovered n) = Some n"
| "event_node (EvRoleAssigned n _) = Some n"
| "event_node (EvRoleRemoved n _) = Some n"
| "event_node (EvLeaderElected n) = Some n"
| "event_node (EvLeaderLost n) = Some n"
| "event_node (EvTaskAssigned _ n) = Some n"
| "event_node (EvTaskCompleted _ n) = Some n"
| "event_node (EvTaskFailed _ n _) = n"
| "event_node _ = None"

record event_record =
  ev_seq :: nat
  ev_at :: millis
  ev_event :: cluster_event

definition new_event_record :: "nat \<Rightarrow> millis \<Rightarrow> cluster_event \<Rightarrow> event_record" where
  "new_event_record s at e = \<lparr> ev_seq = s, ev_at = at, ev_event = e \<rparr>"

section \<open>Messages\<close>

text \<open>Text that no substitution can mistake for a hole.\<close>

definition plain :: "string \<Rightarrow> bool" where
  "plain s \<longleftrightarrow> CHR ''{'' \<notin> set s"

lemma replace_hole_plain: "plain s \<Longrightarrow> replace_hole arg (s @ ''{}'' @ r) = s @ arg @ r"
proof (induction s)
  case (Cons c s)
  then show ?case by (cases s) (auto simp: plain_def)
qed simp

lemma digit_not_brace: "is_digit c \<Longrightarrow> c \<noteq> CHR ''{''"
  by (auto simp: is_digit_def)

lemma plain_pad: "plain (pad w (show_nat n))"
  using show_nat_digits digit_not_brace by (force simp: plain_def pad_def)

lemma plain_texts [simp]:
  "plain (node_text n)" "plain (job_text j)" "plain (task_text t)" "plain (role_str r)"
  "plain (failure_reason_str f)"
  using plain_pad [of 2 n] plain_pad [of 2 j] plain_pad [of 2 t]
  by (simp_all add: node_text_def job_text_def task_text_def plain_def)
     (cases r; simp; fail | cases f; simp; fail)+

text \<open>A pattern is the pieces between its holes.\<close>

fun split_holes :: "string \<Rightarrow> string list" where
  "split_holes (c # d # s) =
     (if c = CHR ''{'' \<and> d = CHR ''}'' then [] # split_holes s
      else (case split_holes (d # s) of [] \<Rightarrow> [[c]] | p # ps \<Rightarrow> (c # p) # ps))"
| "split_holes s = [s]"

fun with_holes :: "string list \<Rightarrow> string" where
  "with_holes [] = []"
| "with_holes [p] = p"
| "with_holes (p # ps) = p @ ''{}'' @ with_holes ps"

fun interleave :: "string list \<Rightarrow> string list \<Rightarrow> string" where
  "interleave (p # ps) (a # as) = p @ a @ interleave ps as"
| "interleave ps [] = with_holes ps"
| "interleave [] as = []"

lemma replace_holes:
  assumes "list_all plain ps" "list_all plain as" "length ps = Suc (length as)" "plain pre"
  shows "foldl (\<lambda>out arg. replace_hole arg out) (pre @ with_holes ps) as = pre @ interleave ps as"
  using assms
proof (induction as arbitrary: ps pre)
  case Nil
  then show ?case by (cases ps) auto
next
  case (Cons a as)
  then obtain p q qs where ps: "ps = p # q # qs" by (cases ps; cases "tl ps") auto
  have pl: "plain (pre @ p)" "plain ((pre @ p) @ a)" using Cons.prems ps by (auto simp: plain_def)
  have "replace_hole a (pre @ with_holes ps) = ((pre @ p) @ a) @ with_holes (q # qs)"
    using replace_hole_plain [OF pl(1), of a "with_holes (q # qs)"] ps by simp
  then show ?case using Cons.IH [of "q # qs" "(pre @ p) @ a"] Cons.prems ps pl by simp
qed

lemma plain_interleave:
  "list_all plain ps \<Longrightarrow> list_all plain as \<Longrightarrow> length ps = Suc (length as) \<Longrightarrow> plain (interleave ps as)"
proof (induction ps as rule: interleave.induct)
  case (2 ps)
  then show ?case by (cases ps) auto
qed (auto simp: plain_def)

lemma message_parts_split:
  "list_all plain (split_holes (fst (message_parts e)))"
  "length (split_holes (fst (message_parts e))) = Suc (length (snd (message_parts e)))"
  "with_holes (split_holes (fst (message_parts e))) = fst (message_parts e)"
  "list_all plain (snd (message_parts e))"
  by (cases e rule: message_parts.cases; simp add: plain_def [of "_ # _"] plain_def [of "[]"])+

text \<open>
  An event's message is its pattern with every hole filled by its argument, in order: for each event
  the pattern has exactly as many holes as there are arguments, so no \<open>{}\<close> is left and no argument
  dropped, and no argument's text can be taken for a hole.
\<close>
lemma event_message_filled:
  "length (split_holes (fst (message_parts e))) = Suc (length (snd (message_parts e))) \<and>
   event_message e = interleave (split_holes (fst (message_parts e))) (snd (message_parts e)) \<and>
   plain (event_message e)"
proof -
  have "event_message e = interleave (split_holes (fst (message_parts e))) (snd (message_parts e))"
    using replace_holes [OF message_parts_split(1,4,2), of "[]" e] message_parts_split(3) [of e]
    by (simp add: event_message_def split_beta plain_def)
  then show ?thesis
    using message_parts_split(2) plain_interleave [OF message_parts_split(1,4,2), of e] by simp
qed

end
