(* ===== verification/Store.thy ===== *)
theory Store
  imports Events
begin

text \<open>
  The durable record: \<open>cluster-core/src/persist.rs\<close> (the ports \<open>JobStore\<close>, \<open>EventLog\<close>,
  \<open>ClusterStore\<close> with their default methods), \<open>storage/src/sqlite/jobs.rs\<close>, \<open>events.rs\<close> and
  \<open>cluster.rs\<close> (their implementation) and \<open>cluster-local/src/persistence.rs\<close> (the write queue).

  A table is an ordered map from primary key to row; a row has the integer columns of the schema as
  signed 64-bit values (\<open>as i64\<close>, \<open>as u64\<close> and \<open>as u16\<close> written out) and the state columns as text.
  The JSON columns (\<open>spec_json\<close>, \<open>payload_json\<close>) hold the value that the JSON text stands for: the text
  itself is written and read by \<open>serde_json\<close>. Failures of the database (every query can fail) are added
  where the store is called, in the theory of the supervisor.
\<close>

section \<open>Rows\<close>

definition to_i64 :: "nat \<Rightarrow> int" where
  "to_i64 n = (if n < 2 ^ 63 then int n else int n - 2 ^ 64)"

definition as_u64 :: "int \<Rightarrow> nat" where
  "as_u64 i = nat (i mod 2 ^ 64)"

definition as_u16 :: "int \<Rightarrow> nat" where
  "as_u16 i = nat (i mod 2 ^ 16)"

datatype store_error = NotFound | Conflict string | Corrupt string | Backend string

definition store_error_text :: "store_error \<Rightarrow> string" where
  "store_error_text e =
     (case e of
        NotFound \<Rightarrow> ''not found''
      | Conflict m \<Rightarrow> ''conflict: '' @ m
      | Corrupt m \<Rightarrow> ''stored data is corrupt: '' @ m
      | Backend m \<Rightarrow> ''storage backend: '' @ m)"

record job_row =
  jr_id :: int
  jr_kind :: string
  jr_spec :: jobspec
  jr_state :: string
  jr_task_count :: int
  jr_completed :: int
  jr_failed :: int
  jr_created_at :: int
  jr_finished_at :: "int option"

record task_row =
  tr_id :: int
  tr_job_id :: int
  tr_idx :: int
  tr_spec :: taskspec
  tr_state :: string
  tr_assigned_to :: "int option"
  tr_attempt :: int
  tr_output :: "string option"
  tr_updated_at :: int

record failure_row =
  fr_task_id :: int
  fr_job_id :: int
  fr_node_id :: "int option"
  fr_attempt :: int
  fr_at :: int
  fr_reason :: string
  fr_detail :: string

record event_row =
  er_seq :: int
  er_at :: int
  er_kind :: string
  er_node_id :: "int option"
  er_payload :: cluster_event

definition job_to_row :: "job \<Rightarrow> job_row" where
  "job_to_row j = \<lparr> jr_id = to_i64 (job_id j), jr_kind = jobspec_kind (job_spec j), jr_spec = job_spec j,
     jr_state = job_state_str (job_state j), jr_task_count = int (job_task_count j),
     jr_completed = int (tasks_completed j), jr_failed = int (tasks_failed j),
     jr_created_at = to_i64 (created_at j), jr_finished_at = map_option to_i64 (finished_at j) \<rparr>"

definition job_from_row :: "job_row \<Rightarrow> store_error + job" where
  "job_from_row r =
     (case parse_job_state (jr_state r) of
        None \<Rightarrow> Inl (Corrupt ''job state'')
      | Some st \<Rightarrow> Inr \<lparr> job_id = as_u64 (jr_id r), job_spec = jr_spec r, job_state = st,
          job_task_count = as_u16 (jr_task_count r), tasks_completed = as_u16 (jr_completed r),
          tasks_failed = as_u16 (jr_failed r), created_at = as_u64 (jr_created_at r),
          finished_at = map_option as_u64 (jr_finished_at r) \<rparr>)"

definition task_to_row :: "task \<Rightarrow> task_row" where
  "task_to_row t = \<lparr> tr_id = to_i64 (task_id t), tr_job_id = to_i64 (task_job t),
     tr_idx = int (task_index t), tr_spec = task_spec t, tr_state = task_state_str (task_state t),
     tr_assigned_to = map_option int (assigned_to t), tr_attempt = int (attempt t),
     tr_output = task_output t, tr_updated_at = to_i64 (updated_at t) \<rparr>"

definition task_from_row :: "task_row \<Rightarrow> store_error + task" where
  "task_from_row r =
     (case parse_task_state (tr_state r) of
        None \<Rightarrow> Inl (Corrupt ''task state'')
      | Some st \<Rightarrow> Inr \<lparr> task_id = as_u64 (tr_id r), task_job = as_u64 (tr_job_id r),
          task_index = as_u16 (tr_idx r), task_spec = tr_spec r, task_state = st,
          assigned_to = map_option as_u16 (tr_assigned_to r), attempt = as_u16 (tr_attempt r),
          task_output = tr_output r, updated_at = as_u64 (tr_updated_at r) \<rparr>)"

definition failure_to_row :: "task_attempt \<Rightarrow> failure_row" where
  "failure_to_row f = \<lparr> fr_task_id = to_i64 (att_task f), fr_job_id = to_i64 (att_job f),
     fr_node_id = map_option int (att_node f), fr_attempt = int (att_attempt f), fr_at = to_i64 (att_at f),
     fr_reason = failure_reason_str (att_reason f), fr_detail = att_detail f \<rparr>"

definition failure_from_row :: "failure_row \<Rightarrow> store_error + task_attempt" where
  "failure_from_row r =
     (case parse_failure_reason (fr_reason r) of
        None \<Rightarrow> Inl (Corrupt ''failure reason'')
      | Some why \<Rightarrow> Inr \<lparr> att_task = as_u64 (fr_task_id r), att_job = as_u64 (fr_job_id r),
          att_node = map_option as_u16 (fr_node_id r), att_attempt = as_u16 (fr_attempt r),
          att_at = as_u64 (fr_at r), att_reason = why, att_detail = fr_detail r \<rparr>)"

text \<open>\<open>iter().map(..).collect::<Result<_, _>>()\<close>: the values, or the first error.\<close>

fun collect :: "('e + 'a) list \<Rightarrow> 'e + 'a list" where
  "collect [] = Inr []"
| "collect (Inl e # xs) = Inl e"
| "collect (Inr x # xs) = (case collect xs of Inl e \<Rightarrow> Inl e | Inr ys \<Rightarrow> Inr (x # ys))"

section \<open>Tables\<close>

record store =
  seq_job :: nat
  seq_task :: nat
  job_rows :: "(int, job_row) btree"
  task_rows :: "(int, task_row) btree"
  failure_rows :: "failure_row list"
  event_rows :: "(int, event_row) btree"
  role_rows :: "(int, int \<times> int) btree"

definition empty_store :: store where
  "empty_store = \<lparr> seq_job = 0, seq_task = 0, job_rows = [], task_rows = [], failure_rows = [],
     event_rows = [], role_rows = [] \<rparr>"

subsection \<open>Jobs\<close>

definition next_job_id :: "store \<Rightarrow> store_error + jobid \<times> store" where
  "next_job_id st = (let v = seq_job st + 1 in Inr (v, st\<lparr>seq_job := v\<rparr>))"

definition reserve_task_ids :: "nat \<Rightarrow> store \<Rightarrow> store_error + taskid \<times> store" where
  "reserve_task_ids n st =
     (let n = max n 1; last = seq_task st + n
      in Inr (last - n + 1, st\<lparr>seq_task := last\<rparr>))"

text \<open>\<open>INSERT\<close> fails on a primary key that is there; the transaction then leaves the tables alone.\<close>

fun insert_tasks :: "task list \<Rightarrow> store \<Rightarrow> store_error + store" where
  "insert_tasks [] st = Inr st"
| "insert_tasks (t # ts) st =
     (if bt_contains (task_rows st) (to_i64 (task_id t)) then Inl (Conflict ''UNIQUE constraint failed: tasks.id'')
      else insert_tasks ts (st\<lparr>task_rows := bt_insert (to_i64 (task_id t)) (task_to_row t) (task_rows st)\<rparr>))"

definition create_job :: "job \<Rightarrow> task list \<Rightarrow> store \<Rightarrow> store_error + store" where
  "create_job j ts st =
     (if bt_contains (job_rows st) (to_i64 (job_id j)) then Inl (Conflict ''UNIQUE constraint failed: jobs.id'')
      else insert_tasks ts (st\<lparr>job_rows := bt_insert (to_i64 (job_id j)) (job_to_row j) (job_rows st)\<rparr>))"

definition save_job :: "job \<Rightarrow> store \<Rightarrow> store_error + store" where
  "save_job j st =
     (case bt_get (job_rows st) (to_i64 (job_id j)) of
        None \<Rightarrow> Inr st
      | Some r \<Rightarrow> Inr (st\<lparr>job_rows := bt_insert (to_i64 (job_id j))
          (r\<lparr>jr_state := job_state_str (job_state j), jr_completed := int (tasks_completed j),
             jr_failed := int (tasks_failed j), jr_finished_at := map_option to_i64 (finished_at j)\<rparr>)
          (job_rows st)\<rparr>))"

definition save_task :: "task \<Rightarrow> store \<Rightarrow> store_error + store" where
  "save_task t st =
     (case bt_get (task_rows st) (to_i64 (task_id t)) of
        None \<Rightarrow> Inr st
      | Some r \<Rightarrow> Inr (st\<lparr>task_rows := bt_insert (to_i64 (task_id t))
          (r\<lparr>tr_state := task_state_str (task_state t), tr_assigned_to := map_option int (assigned_to t),
             tr_attempt := int (attempt t), tr_output := task_output t,
             tr_updated_at := to_i64 (updated_at t)\<rparr>)
          (task_rows st)\<rparr>))"

definition store_failure :: "task_attempt \<Rightarrow> store \<Rightarrow> store_error + store" where
  "store_failure f st = Inr (st\<lparr>failure_rows := failure_rows st @ [failure_to_row f]\<rparr>)"

definition load_job :: "jobid \<Rightarrow> store \<Rightarrow> store_error + job option" where
  "load_job i st =
     (case bt_get (job_rows st) (to_i64 i) of
        None \<Rightarrow> Inr None
      | Some r \<Rightarrow> (case job_from_row r of Inl e \<Rightarrow> Inl e | Inr j \<Rightarrow> Inr (Some j)))"

definition recent_jobs :: "nat \<Rightarrow> store \<Rightarrow> store_error + job list" where
  "recent_jobs limit st = collect (map job_from_row (take limit (rev (bt_values (job_rows st)))))"

definition tasks_for_job :: "jobid \<Rightarrow> store \<Rightarrow> store_error + task list" where
  "tasks_for_job i st =
     collect (map task_from_row
       (sort_key tr_idx (filter (\<lambda>r. tr_job_id r = to_i64 i) (bt_values (task_rows st)))))"

text \<open>\<open>ORDER BY at DESC, id DESC\<close>: newest first, later rows first within an instant.\<close>

definition failures_for_job :: "jobid \<Rightarrow> store \<Rightarrow> store_error + task_attempt list" where
  "failures_for_job i st =
     collect (map failure_from_row
       (sort_key (\<lambda>r. - fr_at r) (rev (filter (\<lambda>r. fr_job_id r = to_i64 i) (failure_rows st)))))"

definition unfinished_jobs :: "store \<Rightarrow> store_error + (job \<times> task list) list" where
  "unfinished_jobs st =
     collect (map (\<lambda>r. case job_from_row r of
                        Inl e \<Rightarrow> Inl e
                      | Inr j \<Rightarrow> (case tasks_for_job (job_id j) st of Inl e \<Rightarrow> Inl e | Inr ts \<Rightarrow> Inr (j, ts)))
       (filter (\<lambda>r. jr_state r = ''queued'' \<or> jr_state r = ''running'') (bt_values (job_rows st))))"

text \<open>
  The default method of the port, which the cluster's store inherits: \<open>SqliteClusterStore\<close> does not
  forward to the paged query that \<open>SqliteJobs\<close> has.
\<close>

definition unfinished_jobs_page :: "jobid option \<Rightarrow> nat \<Rightarrow> store \<Rightarrow> store_error + (job \<times> task list) list" where
  "unfinished_jobs_page after limit st =
     (case unfinished_jobs st of
        Inl e \<Rightarrow> Inl e
      | Inr js \<Rightarrow>
          Inr (take limit (filter (\<lambda>p. case after of None \<Rightarrow> True | Some i \<Rightarrow> job_id (fst p) > i) js)))"

text \<open>The paged query of \<open>SqliteJobs\<close>.\<close>

definition sqlite_unfinished_jobs_page :: "jobid option \<Rightarrow> nat \<Rightarrow> store \<Rightarrow> store_error + (job \<times> task list) list" where
  "sqlite_unfinished_jobs_page after limit st =
     collect (map (\<lambda>r. case job_from_row r of
                        Inl e \<Rightarrow> Inl e
                      | Inr j \<Rightarrow> (case tasks_for_job (job_id j) st of Inl e \<Rightarrow> Inl e | Inr ts \<Rightarrow> Inr (j, ts)))
       (take limit (filter (\<lambda>r. (jr_state r = ''queued'' \<or> jr_state r = ''running'') \<and>
                               jr_id r > to_i64 (case after of None \<Rightarrow> 0 | Some i \<Rightarrow> i))
         (bt_values (job_rows st)))))"

text \<open>The rows that \<open>state IN ('completed','failed','cancelled') AND COALESCE(finished_at, created_at) < before\<close> selects.\<close>

definition prunable :: "millis \<Rightarrow> job_row \<Rightarrow> bool" where
  "prunable before r \<longleftrightarrow> (jr_state r = ''completed'' \<or> jr_state r = ''failed'' \<or> jr_state r = ''cancelled'') \<and>
     (case jr_finished_at r of Some t \<Rightarrow> t | None \<Rightarrow> jr_created_at r) < to_i64 before"

text \<open>
  Deleting a job deletes its tasks: \<open>tasks.job_id REFERENCES jobs(id) ON DELETE CASCADE\<close> in
  \<open>migrations/0001_init.sql\<close>.
\<close>

definition prune_terminal_before :: "millis \<Rightarrow> store \<Rightarrow> store_error + nat \<times> store" where
  "prune_terminal_before before st =
     (let gone = map jr_id (filter (prunable before) (bt_values (job_rows st)))
      in Inr (length gone,
           st\<lparr>failure_rows := filter (\<lambda>f. fr_job_id f \<notin> set gone) (failure_rows st),
              job_rows := bt_retain (\<lambda>r. \<not> prunable before r) (job_rows st),
              task_rows := bt_retain (\<lambda>r. tr_job_id r \<notin> set gone) (task_rows st)\<rparr>))"

text \<open>\<open>JobStore::allocate\<close>: ids, then the job and its split tasks.\<close>

definition allocate :: "jobspec \<Rightarrow> millis \<Rightarrow> store \<Rightarrow> store_error + (job \<times> task list) \<times> store" where
  "allocate spec now st =
     (case next_job_id st of
        Inl e \<Rightarrow> Inl e
      | Inr (jid, st) \<Rightarrow>
          let job = new_job jid spec now; specs = split_spec spec
          in case reserve_task_ids (length specs) st of
               Inl e \<Rightarrow> Inl e
             | Inr (first, st) \<Rightarrow>
                 Inr ((job, map (\<lambda>(i, ts). new_task (first + i) jid i ts now) (enumerate 0 specs)), st))"

subsection \<open>Events\<close>

definition append_event :: "event_record \<Rightarrow> store \<Rightarrow> store_error + store" where
  "append_event r st =
     (if bt_contains (event_rows st) (to_i64 (ev_seq r)) then Inr st
      else Inr (st\<lparr>event_rows := bt_insert (to_i64 (ev_seq r))
             \<lparr> er_seq = to_i64 (ev_seq r), er_at = to_i64 (ev_at r), er_kind = event_kind (ev_event r),
               er_node_id = map_option int (event_node (ev_event r)), er_payload = ev_event r \<rparr>
             (event_rows st)\<rparr>))"

definition recent_events :: "nat \<Rightarrow> store \<Rightarrow> store_error + event_record list" where
  "recent_events limit st =
     Inr (map (\<lambda>r. \<lparr> ev_seq = as_u64 (er_seq r), ev_at = as_u64 (er_at r), ev_event = er_payload r \<rparr>)
       (take limit (rev (bt_values (event_rows st)))))"

definition last_seq :: "store \<Rightarrow> store_error + nat" where
  "last_seq st =
     Inr (as_u64 (case rev (bt_values (event_rows st)) of [] \<Rightarrow> 0 | r # _ \<Rightarrow> er_seq r))"

definition prune_before :: "millis \<Rightarrow> store \<Rightarrow> store_error + nat \<times> store" where
  "prune_before before st =
     (let kept = bt_retain (\<lambda>r. \<not> er_at r < to_i64 before) (event_rows st)
      in Inr (length (event_rows st) - length kept, st\<lparr>event_rows := kept\<rparr>))"

subsection \<open>Roles\<close>

definition save_node_roles :: "nodeid \<Rightarrow> roleset \<Rightarrow> millis \<Rightarrow> store \<Rightarrow> store_error + store" where
  "save_node_roles n roles now st =
     Inr (st\<lparr>role_rows := bt_insert (int n) (int (unat roles), to_i64 now) (role_rows st)\<rparr>)"

definition load_node_roles :: "store \<Rightarrow> store_error + (nodeid \<times> roleset) list" where
  "load_node_roles st = Inr (map (\<lambda>p. (as_u16 (fst p), word_of_int (fst (snd p)))) (role_rows st))"

section \<open>The write queue\<close>

datatype db_write =
    WriteJob job
  | WriteTask task
  | WriteFailure task_attempt
  | WriteEvent event_record
  | WriteRoles nodeid roleset millis

fun write_kind :: "db_write \<Rightarrow> string" where
  "write_kind (WriteJob _) = ''job''"
| "write_kind (WriteTask _) = ''task''"
| "write_kind (WriteFailure _) = ''failure''"
| "write_kind (WriteEvent _) = ''event''"
| "write_kind (WriteRoles _ _ _) = ''roles''"

fun apply_write :: "db_write \<Rightarrow> store \<Rightarrow> store_error + store" where
  "apply_write (WriteJob j) st = save_job j st"
| "apply_write (WriteTask t) st = save_task t st"
| "apply_write (WriteFailure f) st = store_failure f st"
| "apply_write (WriteEvent r) st = append_event r st"
| "apply_write (WriteRoles n roles at) st = save_node_roles n roles at st"

text \<open>
  \<open>drain\<close>: the queued writes in order; one that fails is counted and skipped. \<open>fails i\<close> says whether the
  database refuses the \<open>i\<close>-th of them.
\<close>

fun drain :: "(nat \<Rightarrow> bool) \<Rightarrow> db_write list \<Rightarrow> store \<times> nat \<Rightarrow> store \<times> nat" where
  "drain fails [] p = p"
| "drain fails (w # ws) (st, errors) =
     (case (if fails 0 then Inl (Backend []) else apply_write w st) of
        Inl e \<Rightarrow> drain (\<lambda>i. fails (Suc i)) ws (st, errors + 1)
      | Inr st' \<Rightarrow> drain (\<lambda>i. fails (Suc i)) ws (st', errors))"

section \<open>Rows read back\<close>

lemma as_u64_to_i64: "n < 2 ^ 64 \<Longrightarrow> as_u64 (to_i64 n) = n"
  by (auto simp: as_u64_def to_i64_def mod_diff_right_eq [symmetric])

lemma as_u16_int: "n < 2 ^ 16 \<Longrightarrow> as_u16 (int n) = n"
  by (simp add: as_u16_def)

lemma to_i64_inj: "m < 2 ^ 64 \<Longrightarrow> n < 2 ^ 64 \<Longrightarrow> to_i64 m = to_i64 n \<longleftrightarrow> m = n"
  by (metis as_u64_to_i64)

text \<open>Fields within the width their Rust types give them.\<close>

definition opt_below :: "nat \<Rightarrow> nat option \<Rightarrow> bool" where
  "opt_below b x \<longleftrightarrow> (case x of None \<Rightarrow> True | Some n \<Rightarrow> n < b)"

definition job_fits :: "job \<Rightarrow> bool" where
  "job_fits j \<longleftrightarrow> job_id j < 2 ^ 64 \<and> job_task_count j < 2 ^ 16 \<and> tasks_completed j < 2 ^ 16 \<and>
     tasks_failed j < 2 ^ 16 \<and> created_at j < 2 ^ 64 \<and> opt_below (2 ^ 64) (finished_at j)"

definition task_fits :: "task \<Rightarrow> bool" where
  "task_fits t \<longleftrightarrow> task_id t < 2 ^ 64 \<and> task_job t < 2 ^ 64 \<and> task_index t < 2 ^ 16 \<and>
     opt_below (2 ^ 16) (assigned_to t) \<and> attempt t < 2 ^ 16 \<and> updated_at t < 2 ^ 64"

definition failure_fits :: "task_attempt \<Rightarrow> bool" where
  "failure_fits f \<longleftrightarrow> att_task f < 2 ^ 64 \<and> att_job f < 2 ^ 64 \<and> opt_below (2 ^ 16) (att_node f) \<and>
     att_attempt f < 2 ^ 16 \<and> att_at f < 2 ^ 64"

lemma opt_u64: "opt_below (2 ^ 64) x \<Longrightarrow> map_option as_u64 (map_option to_i64 x) = x"
  by (cases x) (auto simp: opt_below_def as_u64_to_i64)

lemma opt_u16: "opt_below (2 ^ 16) x \<Longrightarrow> map_option as_u16 (map_option int x) = x"
  by (cases x) (auto simp: opt_below_def as_u16_int)

text \<open>A table's codec: what was written under a valid value is read back as that value.\<close>

locale row_codec =
  fixes to_row :: "'a \<Rightarrow> 'r" and from_row :: "'r \<Rightarrow> store_error + 'a" and fits :: "'a \<Rightarrow> bool"
  assumes row_roundtrip: "fits x \<Longrightarrow> from_row (to_row x) = Inr x"
begin

lemma collect_rows: "list_all fits xs \<Longrightarrow> collect (map from_row (map to_row xs)) = Inr xs"
  by (induction xs) (auto simp: row_roundtrip)

lemma to_row_inj: "fits x \<Longrightarrow> fits y \<Longrightarrow> to_row x = to_row y \<Longrightarrow> x = y"
  by (metis row_roundtrip sum.inject(2))

end

interpretation job_codec: row_codec job_to_row job_from_row job_fits
proof unfold_locales
  fix j
  assume "job_fits j"
  moreover have "parse_job_state (job_state_str (job_state j)) = Some (job_state j)"
    by (simp add: parse_job_state_iff)
  ultimately show "job_from_row (job_to_row j) = Inr j"
    using opt_u64 [of "finished_at j"]
    by (simp add: job_from_row_def job_to_row_def job_fits_def as_u64_to_i64 as_u16_int option.map_comp)
qed

interpretation task_codec: row_codec task_to_row task_from_row task_fits
proof unfold_locales
  fix t
  assume "task_fits t"
  moreover have "parse_task_state (task_state_str (task_state t)) = Some (task_state t)"
    by (simp add: parse_task_state_iff)
  ultimately show "task_from_row (task_to_row t) = Inr t"
    using opt_u16 [of "assigned_to t"]
    by (simp add: task_from_row_def task_to_row_def task_fits_def as_u64_to_i64 as_u16_int option.map_comp)
qed

interpretation failure_codec: row_codec failure_to_row failure_from_row failure_fits
proof unfold_locales
  fix f
  assume "failure_fits f"
  moreover have "parse_failure_reason (failure_reason_str (att_reason f)) = Some (att_reason f)"
    by (simp add: parse_failure_reason_iff)
  ultimately show "failure_from_row (failure_to_row f) = Inr f"
    using opt_u16 [of "att_node f"]
    by (simp add: failure_from_row_def failure_to_row_def failure_fits_def as_u64_to_i64 as_u16_int option.map_comp)
qed

text \<open>
  Whatever the cluster writes it reads back: a job, a task or a failure record whose fields are within
  their Rust widths survives the conversion to a database row and back unchanged, including ids and times
  at or above 2^63 that are negative in the database; and a row with a state or reason that no version of
  the program writes is reported as corrupt, never guessed.
\<close>
lemma rows_roundtrip:
  "(job_fits j \<longrightarrow> job_from_row (job_to_row j) = Inr j) \<and>
   (task_fits t \<longrightarrow> task_from_row (task_to_row t) = Inr t) \<and>
   (failure_fits f \<longrightarrow> failure_from_row (failure_to_row f) = Inr f) \<and>
   (s \<notin> range job_state_str \<longrightarrow> job_from_row (r\<lparr>jr_state := s\<rparr>) = Inl (Corrupt ''job state'')) \<and>
   (s \<notin> range task_state_str \<longrightarrow> task_from_row (q\<lparr>tr_state := s\<rparr>) = Inl (Corrupt ''task state''))"
proof -
  have "parse_job_state s = None" if "s \<notin> range job_state_str"
    using that job_names.parse_None by (simp add: parse_job_state_def)
  moreover have "parse_task_state s = None" if "s \<notin> range task_state_str"
    using that task_names.parse_None by (simp add: parse_task_state_def)
  ultimately show ?thesis
    using job_codec.row_roundtrip task_codec.row_roundtrip failure_codec.row_roundtrip
    by (simp add: job_from_row_def [of "_\<lparr>jr_state := _\<rparr>"] task_from_row_def [of "_\<lparr>tr_state := _\<rparr>"])
qed

lemma rows_roundtrip_example:
  "job_from_row (job_to_row (new_job 18446744073709551615 (JobSleep 5 2) 9)) =
     Inr (new_job 18446744073709551615 (JobSleep 5 2) 9)"
proof -
  have "job_fits (new_job 18446744073709551615 (JobSleep 5 2) 9)"
    by (simp add: job_fits_def new_job_def task_count_def opt_below_def)
  then show ?thesis
    using rows_roundtrip [of "new_job 18446744073709551615 (JobSleep 5 2) 9"] by blast
qed

section \<open>Allocation and creation\<close>

lemma bt_insert_last:
  "\<forall>x\<in>fst ` set m. x < k \<Longrightarrow> bt_insert k v m = m @ [(k, v)]"
  by (induction m) auto

lemma sort_key_sorted: "sorted (map f xs) \<Longrightarrow> sort_key f xs = xs"
proof (induction xs)
  case (Cons x xs)
  then show ?case by (cases xs) auto
qed simp

text \<open>Every row's id was handed out by the sequence of its kind.\<close>

definition store_wf :: "store \<Rightarrow> bool" where
  "store_wf st \<longleftrightarrow> bt_wf (job_rows st) \<and> bt_wf (task_rows st) \<and>
     (\<forall>p\<in>set (job_rows st). fst p \<le> int (seq_job st)) \<and>
     (\<forall>p\<in>set (task_rows st). fst p \<le> int (seq_task st) \<and> tr_job_id (snd p) \<le> int (seq_job st))"

lemma insert_tasks_fresh:
  assumes "\<forall>x\<in>fst ` set (task_rows st). \<forall>t\<in>set ts. x < to_i64 (task_id t)"
    and "sorted_wrt (\<lambda>t u. to_i64 (task_id t) < to_i64 (task_id u)) ts"
  shows "insert_tasks ts st =
    Inr (st\<lparr>task_rows := task_rows st @ map (\<lambda>t. (to_i64 (task_id t), task_to_row t)) ts\<rparr>)"
  using assms
proof (induction ts arbitrary: st)
  case (Cons t ts)
  let ?st = "st\<lparr>task_rows := task_rows st @ [(to_i64 (task_id t), task_to_row t)]\<rparr>"
  have ins: "bt_insert (to_i64 (task_id t)) (task_to_row t) (task_rows st) =
      task_rows st @ [(to_i64 (task_id t), task_to_row t)]"
    using Cons.prems(1) by (intro bt_insert_last) auto
  have "bt_get (task_rows st) (to_i64 (task_id t)) = None"
    using Cons.prems(1) by (force simp: bt_get_None_iff bt_keys_def)
  then have "insert_tasks (t # ts) st = insert_tasks ts ?st" using ins by (simp add: bt_contains_def)
  also have "\<dots> = Inr (?st\<lparr>task_rows := task_rows ?st @ map (\<lambda>t. (to_i64 (task_id t), task_to_row t)) ts\<rparr>)"
    using Cons.prems by (intro Cons.IH) auto
  finally show ?case by simp
qed simp

definition allocated_tasks :: "jobspec \<Rightarrow> millis \<Rightarrow> jobid \<Rightarrow> taskid \<Rightarrow> task list" where
  "allocated_tasks spec now jid first =
     map (\<lambda>(i, ts). new_task (first + i) jid i ts now) (enumerate 0 (split_spec spec))"

lemma allocate_eq:
  "allocate spec now st =
     Inr ((new_job (seq_job st + 1) spec now, allocated_tasks spec now (seq_job st + 1) (seq_task st + 1)),
          st\<lparr>seq_job := seq_job st + 1, seq_task := seq_task st + task_count spec\<rparr>)"
proof -
  have "max (task_count spec) (Suc 0) = task_count spec" using task_count_pos [of spec] by simp
  then show ?thesis
    by (simp add: allocate_def next_job_id_def reserve_task_ids_def Let_def length_split_spec
        allocated_tasks_def)
qed

lemma allocated_tasks_props:
  "length (allocated_tasks spec now jid first) = task_count spec"
  "i < task_count spec \<Longrightarrow> allocated_tasks spec now jid first ! i = new_task (first + i) jid i (split_spec spec ! i) now"
  "map task_spec (allocated_tasks spec now jid first) = split_spec spec"
  by (auto simp: allocated_tasks_def length_split_spec new_task_def enumerate_eq_zip nth_enumerate_eq
      comp_def case_prod_beta' intro!: nth_equalityI)

lemma allocated_ids:
  "map task_id (allocated_tasks spec now jid first) = [first..<first + task_count spec]"
  "map task_index (allocated_tasks spec now jid first) = [0..<task_count spec]"
  by (auto simp: allocated_tasks_props new_task_def intro!: nth_equalityI)

lemma allocated_in:
  assumes "t \<in> set (allocated_tasks spec now jid first)"
  shows "task_job t = jid" "first \<le> task_id t" "task_id t < first + task_count spec"
    "task_index t < task_count spec" "task_state t = TaskQueued" "task_wf t" "attempt t = 0"
    "assigned_to t = None" "updated_at t = now"
  using assms by (auto simp: in_set_conv_nth allocated_tasks_props new_task_def task_wf_def)

lemma to_i64_small: "n < 2 ^ 63 \<Longrightarrow> to_i64 n = int n"
  by (simp add: to_i64_def)

lemma create_allocated:
  fixes st :: store and spec :: jobspec and now :: millis
  assumes wf: "store_wf st" and j: "seq_job st + 1 < 2 ^ 63" and t: "seq_task st + task_count spec < 2 ^ 63"
  defines "jid \<equiv> seq_job st + 1" and "ts \<equiv> allocated_tasks spec now (seq_job st + 1) (seq_task st + 1)"
    and "st1 \<equiv> st\<lparr>seq_job := seq_job st + 1, seq_task := seq_task st + task_count spec\<rparr>"
  shows "create_job (new_job jid spec now) ts st1 =
    Inr (st1\<lparr>job_rows := job_rows st @ [(int jid, job_to_row (new_job jid spec now))],
             task_rows := task_rows st @ map (\<lambda>t. (int (task_id t), task_to_row t)) ts\<rparr>)"
proof -
  have small: "to_i64 (task_id x) = int (task_id x)" if "x \<in> set ts" for x
    using allocated_in(3) [OF that [unfolded ts_def]] t by (intro to_i64_small) simp
  have sorted: "sorted_wrt (\<lambda>a b. to_i64 (task_id a) < to_i64 (task_id b)) ts"
  proof -
    have "sorted_wrt (<) (map task_id ts)" unfolding ts_def allocated_ids by (rule sorted_wrt_upt)
    then have "sorted_wrt (\<lambda>a b. task_id a < task_id b) ts" by (simp add: sorted_wrt_map)
    then show ?thesis by (rule sorted_wrt_mono_rel [rotated]) (simp add: small)
  qed
  have jid: "to_i64 jid = int jid" using j by (simp add: jid_def to_i64_small)
  have old: "\<forall>x\<in>fst ` set (job_rows st). x < int jid"
    "\<forall>x\<in>fst ` set (task_rows st). \<forall>t\<in>set ts. x < to_i64 (task_id t)"
    using wf small allocated_in(2) unfolding store_wf_def jid_def ts_def by (fastforce)+
  have "bt_get (job_rows st) (int jid) = None" using old(1) by (force simp: bt_get_None_iff bt_keys_def)
  moreover have "job_id (new_job jid spec now) = jid" by (simp add: new_job_def)
  moreover have "bt_insert (int jid) r (job_rows st) = job_rows st @ [(int jid, r)]" for r
    using old(1) by (rule bt_insert_last)
  moreover have "map (\<lambda>t. (to_i64 (task_id t), task_to_row t)) ts = map (\<lambda>t. (int (task_id t), task_to_row t)) ts"
    using small by simp
  ultimately show ?thesis
    using insert_tasks_fresh [OF _ sorted, of "st1\<lparr>job_rows := job_rows st @ [(int jid, job_to_row (new_job jid spec now))]\<rparr>"] old(2)
    by (simp add: create_job_def bt_contains_def st1_def jid)
qed

lemma filter_all: "(\<And>x. x \<in> set xs \<Longrightarrow> P x) \<Longrightarrow> filter P xs = xs"
  by (induction xs) auto

lemma filter_none: "(\<And>x. x \<in> set xs \<Longrightarrow> \<not> P x) \<Longrightarrow> filter P xs = []"
  by (induction xs) auto

lemma tasks_for_created:
  assumes wf: "store_wf st" and j: "seq_job st + 1 < 2 ^ 63" and t: "seq_task st + task_count spec < 2 ^ 63"
    and fits: "task_count spec < 2 ^ 16" "now < 2 ^ 64"
    and rows: "task_rows st2 = task_rows st @ map (\<lambda>t. (int (task_id t), task_to_row t))
      (allocated_tasks spec now (seq_job st + 1) (seq_task st + 1))"
  shows "tasks_for_job (seq_job st + 1) st2 = Inr (allocated_tasks spec now (seq_job st + 1) (seq_task st + 1))"
proof -
  let ?ts = "allocated_tasks spec now (seq_job st + 1) (seq_task st + 1)"
  have jid: "to_i64 (seq_job st + 1) = int (seq_job st + 1)" using j by (intro to_i64_small)
  have "filter (\<lambda>r. tr_job_id r = to_i64 (seq_job st + 1)) (bt_values (task_rows st)) = []"
    using wf unfolding store_wf_def jid by (intro filter_none) (fastforce simp: bt_values_def)
  moreover have "filter (\<lambda>r. tr_job_id r = to_i64 (seq_job st + 1)) (map task_to_row ?ts) = map task_to_row ?ts"
    by (intro filter_all) (auto simp: task_to_row_def allocated_in)
  moreover have "sort_key tr_idx (map task_to_row ?ts) = map task_to_row ?ts"
  proof (rule sort_key_sorted)
    have "map tr_idx (map task_to_row ?ts) = map int (map task_index ?ts)" by (simp add: task_to_row_def)
    also have "\<dots> = map int [0..<task_count spec]" by (simp only: allocated_ids)
    also have "sorted \<dots>" by (simp add: sorted_map sorted_wrt_upt [THEN sorted_wrt_mono_rel [rotated]])
    finally show "sorted (map tr_idx (map task_to_row ?ts))" .
  qed
  moreover have "bt_values (task_rows st2) = bt_values (task_rows st) @ map task_to_row ?ts"
    unfolding rows by (simp add: bt_values_def comp_def)
  moreover have "list_all task_fits ?ts"
    unfolding list_all_iff
  proof
    fix x
    assume "x \<in> set ?ts"
    note a = allocated_in [OF this]
    show "task_fits x" using a(1-4,7-9) j t fits by (simp add: task_fits_def opt_below_def)
  qed
  ultimately show ?thesis
    unfolding tasks_for_job_def using task_codec.collect_rows [of ?ts] by simp
qed

lemma store_wf_created:
  assumes wf: "store_wf st" and n: "\<forall>x\<in>set ts. seq_task st < task_id x \<and> task_id x \<le> n"
    and job: "\<forall>x\<in>set ts. tr_job_id (task_to_row x) \<le> int (seq_job st + 1)"
    and sorted: "sorted_wrt (\<lambda>a b. task_id a < task_id b) ts" and "seq_task st \<le> n"
  shows "store_wf (st\<lparr>seq_job := seq_job st + 1, seq_task := n,
     job_rows := job_rows st @ [(int (seq_job st + 1), r)],
     task_rows := task_rows st @ map (\<lambda>t. (int (task_id t), task_to_row t)) ts\<rparr>)"
proof -
  have "bt_wf (job_rows st @ [(int (seq_job st + 1), r)])"
    using wf by (fastforce simp: store_wf_def bt_wf_def sorted_wrt_append)
  moreover have "sorted_wrt (<) (map (\<lambda>t. int (task_id t)) ts)"
    using sorted by (simp add: sorted_wrt_map)
  then have "bt_wf (task_rows st @ map (\<lambda>t. (int (task_id t), task_to_row t)) ts)"
    using wf n by (fastforce simp: store_wf_def bt_wf_def sorted_wrt_append comp_def)
  moreover have "\<forall>p\<in>set (job_rows st @ [(int (seq_job st + 1), r)]). fst p \<le> int (seq_job st + 1)"
    using wf by (fastforce simp: store_wf_def)
  moreover have "\<forall>p\<in>set (task_rows st @ map (\<lambda>t. (int (task_id t), task_to_row t)) ts).
      fst p \<le> int n \<and> tr_job_id (snd p) \<le> int (seq_job st + 1)"
    using wf n job assms(5) by (fastforce simp: store_wf_def)
  ultimately show ?thesis by (simp add: store_wf_def)
qed

text \<open>
  Submitting a job cannot collide with stored ones: from any well-formed store, allocation followed by
  creation succeeds, the job and exactly its split tasks, in index order, are what the store then returns,
  no earlier job or task has any of the new ids, and the store is well-formed again.
\<close>
lemma allocate_then_create:
  assumes "store_wf st" "seq_job st + 1 < 2 ^ 63" "seq_task st + task_count spec < 2 ^ 63"
    and "task_count spec < 2 ^ 16" "now < 2 ^ 64"
  shows "\<exists>job ts st1 st2. allocate spec now st = Inr ((job, ts), st1) \<and> create_job job ts st1 = Inr st2 \<and>
    load_job (job_id job) st2 = Inr (Some job) \<and> tasks_for_job (job_id job) st2 = Inr ts \<and>
    map task_spec ts = split_spec spec \<and> (\<forall>t\<in>set ts. task_job t = job_id job \<and> task_state t = TaskQueued) \<and>
    bt_get (job_rows st) (to_i64 (job_id job)) = None \<and>
    (\<forall>t\<in>set ts. bt_get (task_rows st) (to_i64 (task_id t)) = None) \<and> store_wf st2"
proof -
  let ?jid = "seq_job st + 1" and ?ts = "allocated_tasks spec now (seq_job st + 1) (seq_task st + 1)"
  let ?job = "new_job ?jid spec now"
  let ?st1 = "st\<lparr>seq_job := seq_job st + 1, seq_task := seq_task st + task_count spec\<rparr>"
  let ?st2 = "?st1\<lparr>job_rows := job_rows st @ [(int ?jid, job_to_row ?job)],
             task_rows := task_rows st @ map (\<lambda>t. (int (task_id t), task_to_row t)) ?ts\<rparr>"
  have jid: "to_i64 ?jid = int ?jid" and id: "job_id ?job = ?jid"
    using assms(2) by (simp_all add: to_i64_small new_job_def)
  have tid: "to_i64 (task_id x) = int (task_id x) \<and> seq_task st < task_id x" if "x \<in> set ?ts" for x
    using allocated_in(2,3) [OF that] assms(3) by (simp add: to_i64_small)
  have ids_sorted: "sorted_wrt (\<lambda>a b. task_id a < task_id b) ?ts"
    using sorted_wrt_upt [of "seq_task st + 1" "seq_task st + 1 + task_count spec"]
    unfolding allocated_ids(1) [of spec now ?jid "seq_task st + 1", symmetric] by (simp add: sorted_wrt_map)
  have none: "bt_get (job_rows st) (int ?jid) = None"
    "\<forall>x\<in>set ?ts. bt_get (task_rows st) (to_i64 (task_id x)) = None"
    using assms(1) tid by (force simp: bt_get_None_iff bt_keys_def store_wf_def)+
  have "job_fits ?job" using assms by (simp add: job_fits_def new_job_def opt_below_def)
  then have load: "load_job ?jid ?st2 = Inr (Some ?job)"
    using none(1) jid job_codec.row_roundtrip [of ?job]
    by (simp add: load_job_def bt_get_def map_of_append map_add_def)
  have tasks: "tasks_for_job ?jid ?st2 = Inr ?ts" using assms by (intro tasks_for_created) auto
  have "store_wf ?st2"
    unfolding store.update_convs
  proof (rule store_wf_created [OF assms(1), simplified store.update_convs])
    show "\<forall>x\<in>set ?ts. seq_task st < task_id x \<and> task_id x \<le> seq_task st + task_count spec"
      using tid allocated_in(3) by fastforce
    show "\<forall>x\<in>set ?ts. tr_job_id (task_to_row x) \<le> int (seq_job st + 1)"
      using allocated_in(1) jid by (fastforce simp: task_to_row_def)
  qed (use ids_sorted in simp_all)
  then show ?thesis
    using allocate_eq [of spec now st] create_allocated [OF assms(1-3), of now] load tasks none jid
      allocated_tasks_props(3) allocated_in id by (intro exI [of _ ?job] exI [of _ ?ts] exI [of _ ?st1] exI [of _ ?st2]) simp
qed

lemma allocate_then_create_example:
  "\<exists>job ts st1 st2. allocate (JobSleep 10 3) 7 empty_store = Inr ((job, ts), st1) \<and> create_job job ts st1 = Inr st2 \<and>
    load_job (job_id job) st2 = Inr (Some job) \<and> tasks_for_job (job_id job) st2 = Inr ts"
proof -
  have "store_wf empty_store" by (simp add: store_wf_def empty_store_def)
  then show ?thesis
    using allocate_then_create [of empty_store "JobSleep 10 3" 7]
    by (auto simp: empty_store_def task_count_def)
qed

end
