(* ===== verification/Scheduling.thy ===== *)
theory Scheduling
  imports Jobs Nodes "HOL-Library.Multiset"
begin

text \<open>
  \<open>cluster-core/src/scheduler.rs\<close> and \<open>coordinator.rs\<close>. The traits \<open>Scheduler\<close> and \<open>Elector\<close> are the
  locales \<open>scheduler\<close> and \<open>elector\<close>: what the supervisor may rely on. \<open>LeastLoaded\<close>, \<open>RoundRobin\<close>
  and \<open>LowestHealthyId\<close> are the source's implementations, and each is an interpretation.
\<close>

section \<open>Placement\<close>

datatype scheduler_error = NoEligibleNode

definition schedulable :: "node list \<Rightarrow> task \<Rightarrow> node list" where
  "schedulable nodes t = filter is_schedulable nodes"

text \<open>\<open>Reverse\<close> of an unsigned weight orders by its negation.\<close>

definition load_key :: "node \<Rightarrow> nat \<times> nat \<times> int \<times> nat" where
  "load_key n = (running_tasks (node_load n), load_percent (node_load n),
     - int (compute_weight (capabilities n)), node_id n)"

definition least_loaded :: "task \<Rightarrow> node list \<Rightarrow> scheduler_error + nodeid" where
  "least_loaded t nodes =
     (case min_by_key load_key (schedulable nodes t) of
        Some n \<Rightarrow> Inr (node_id n)
      | None \<Rightarrow> Inl NoEligibleNode)"

definition round_robin :: "task \<Rightarrow> node list \<Rightarrow> scheduler_error + nodeid" where
  "round_robin t nodes =
     (let eligible = schedulable nodes t
      in if eligible = [] then Inl NoEligibleNode
         else let slot = task_id t mod length eligible
              in Inr (node_id (eligible ! slot)))"

section \<open>Election\<close>

definition lowest_healthy_id :: "node list \<Rightarrow> nodeid option" where
  "lowest_healthy_id nodes =
     map_option node_id (min_by_key node_id (filter (\<lambda>n. accepts_work (node_status n)) nodes))"

section \<open>The interfaces\<close>

locale scheduler =
  fixes select_node :: "task \<Rightarrow> node list \<Rightarrow> scheduler_error + nodeid"
  assumes select_eligible:
      "select_node t nodes = Inr i \<Longrightarrow> \<exists>n\<in>set nodes. is_schedulable n \<and> node_id n = i"
    and select_exhaustive:
      "select_node t nodes = Inl e \<Longrightarrow> n \<in> set nodes \<Longrightarrow> \<not> is_schedulable n"
begin

lemma select_succeeds_iff: "(\<exists>i. select_node t nodes = Inr i) \<longleftrightarrow> (\<exists>n\<in>set nodes. is_schedulable n)"
  using select_eligible select_exhaustive by (cases "select_node t nodes") fastforce+

lemma select_some_node:
  assumes "select_node t nodes = Inr i"
  shows "i \<in> node_id ` set nodes"
  using select_eligible [OF assms] by auto

end

locale elector =
  fixes elect :: "node list \<Rightarrow> nodeid option"
  assumes elect_healthy:
      "elect nodes = Some i \<Longrightarrow> \<exists>n\<in>set nodes. accepts_work (node_status n) \<and> node_id n = i"
    and elect_exhaustive:
      "elect nodes = None \<Longrightarrow> n \<in> set nodes \<Longrightarrow> \<not> accepts_work (node_status n)"
begin

lemma elect_succeeds_iff: "elect nodes \<noteq> None \<longleftrightarrow> (\<exists>n\<in>set nodes. accepts_work (node_status n))"
  using elect_healthy elect_exhaustive by (cases "elect nodes") fastforce+

end

section \<open>The implementations\<close>

lemma set_schedulable: "n \<in> set (schedulable nodes t) \<longleftrightarrow> n \<in> set nodes \<and> is_schedulable n"
  by (simp add: schedulable_def)

lemma least_loaded_Inr:
  "least_loaded t nodes = Inr i \<longleftrightarrow>
     (\<exists>n. min_by_key load_key (schedulable nodes t) = Some n \<and> node_id n = i)"
  by (auto simp: least_loaded_def split: option.splits)

lemma least_loaded_Inl: "least_loaded t nodes = Inl e \<longleftrightarrow> schedulable nodes t = []"
  by (cases e) (auto simp: least_loaded_def split: option.splits)

interpretation ll: scheduler least_loaded
proof unfold_locales
  show "\<exists>n\<in>set nodes. is_schedulable n \<and> node_id n = i" if "least_loaded t nodes = Inr i" for t nodes i
    using that by (auto simp: least_loaded_Inr set_schedulable dest!: min_by_key_in)
  show "\<not> is_schedulable n" if "least_loaded t nodes = Inl e" "n \<in> set nodes" for t nodes e n
    using that by (auto simp: least_loaded_Inl schedulable_def filter_empty_conv)
qed

interpretation rr: scheduler round_robin
proof unfold_locales
  show "\<exists>n\<in>set nodes. is_schedulable n \<and> node_id n = i" if "round_robin t nodes = Inr i" for t nodes i
  proof -
    let ?e = "schedulable nodes t"
    have ne: "?e \<noteq> []" and i: "i = node_id (?e ! (task_id t mod length ?e))"
      using that by (auto simp: round_robin_def Let_def split: if_splits)
    have "?e ! (task_id t mod length ?e) \<in> set ?e" using ne by (intro nth_mem) simp
    then show ?thesis unfolding i set_schedulable by blast
  qed
  show "\<not> is_schedulable n" if "round_robin t nodes = Inl e" "n \<in> set nodes" for t nodes e n
    using that by (auto simp: round_robin_def Let_def schedulable_def filter_empty_conv split: if_splits)
qed

interpretation lh: elector lowest_healthy_id
proof unfold_locales
  show "\<exists>n\<in>set nodes. accepts_work (node_status n) \<and> node_id n = i" if "lowest_healthy_id nodes = Some i"
    for nodes i
  proof -
    from that obtain n where "min_by_key node_id (filter (\<lambda>n. accepts_work (node_status n)) nodes) = Some n"
      and "node_id n = i" by (auto simp: lowest_healthy_id_def)
    then show ?thesis by (auto dest!: min_by_key_in)
  qed
  show "\<not> accepts_work (node_status n)" if "lowest_healthy_id nodes = None" "n \<in> set nodes" for nodes n
    using that by (auto simp: lowest_healthy_id_def filter_empty_conv)
qed

lemma load_key_inj: "distinct (map node_id nodes) \<Longrightarrow> inj_on load_key (set nodes)"
  by (rule inj_onI) (metis distinct_map inj_onD load_key_def prod.inject)

lemma distinct_ids_schedulable:
  "distinct (map node_id nodes) \<Longrightarrow> distinct (map node_id (schedulable nodes t))"
  by (simp add: schedulable_def distinct_map_filter)

text \<open>
  \<open>LeastLoaded\<close> places a task on a healthy node with the \<open>Compute\<close> role whenever there is one, and on
  the one that runs the fewest tasks; between equals on the one with the lower load, then the greater
  capacity, then the lower id. Every other eligible node is worse in that order, so the choice does not
  depend on the order of the node list.
\<close>
lemma least_loaded_optimal:
  assumes "distinct (map node_id nodes)"
  shows "(\<exists>i. least_loaded t nodes = Inr i) = (\<exists>n\<in>set nodes. is_schedulable n) \<and>
    (n \<in> set nodes \<longrightarrow> (least_loaded t nodes = Inr (node_id n)) =
      (is_schedulable n \<and> (\<forall>m\<in>set nodes. is_schedulable m \<and> m \<noteq> n \<longrightarrow> load_key n < load_key m))) \<and>
    (mset nodes' = mset nodes \<longrightarrow> least_loaded t nodes' = least_loaded t nodes)"
proof -
  note inj = load_key_inj [OF distinct_ids_schedulable [OF assms, of t]]
  have best: "least_loaded t ns = Inr (node_id n) \<longleftrightarrow>
      is_schedulable n \<and> (\<forall>m\<in>set ns. is_schedulable m \<and> m \<noteq> n \<longrightarrow> load_key n < load_key m)"
    if d: "distinct (map node_id ns)" and n: "n \<in> set ns" for ns n
  proof
    assume "least_loaded t ns = Inr (node_id n)"
    then obtain m where m: "min_by_key load_key (schedulable ns t) = Some m" "node_id m = node_id n"
      unfolding least_loaded_Inr by blast
    have "m = n" using m min_by_key_in [OF m(1)] d n by (auto simp: set_schedulable distinct_map inj_on_def)
    then show "is_schedulable n \<and> (\<forall>m\<in>set ns. is_schedulable m \<and> m \<noteq> n \<longrightarrow> load_key n < load_key m)"
      using m min_by_key_in [OF m(1)] min_by_key_least [OF m(1)] load_key_inj [OF d] n
      by (force simp: set_schedulable inj_on_def order_le_less)
  next
    assume n': "is_schedulable n \<and> (\<forall>m\<in>set ns. is_schedulable m \<and> m \<noteq> n \<longrightarrow> load_key n < load_key m)"
    then have "min_by_key load_key (schedulable ns t) = Some n"
      using n load_key_inj [OF distinct_ids_schedulable [OF d]]
      by (intro min_by_key_unique) (auto simp: set_schedulable le_less)
    then show "least_loaded t ns = Inr (node_id n)" unfolding least_loaded_Inr by blast
  qed
  have perm: "least_loaded t nodes' = least_loaded t nodes" if p: "mset nodes' = mset nodes"
  proof (cases "least_loaded t nodes")
    case (Inl e)
    then have "\<not> (\<exists>i. least_loaded t nodes' = Inr i)"
      using mset_eq_setD [OF p] ll.select_exhaustive ll.select_succeeds_iff by auto
    then show ?thesis using Inl by (metis (full_types) scheduler_error.exhaust sum.exhaust)
  next
    case (Inr i)
    then obtain m where m: "m \<in> set nodes" "i = node_id m" using ll.select_eligible by blast
    have "distinct (map node_id nodes')" using p assms by (metis mset_eq_imp_distinct_iff mset_map)
    then show ?thesis
      using best [OF assms m(1)] best [of nodes' m] Inr m mset_eq_setD [OF p] by simp
  qed
  show ?thesis using ll.select_succeeds_iff best [OF assms] perm by blast
qed

definition demo_nodes :: "node list" where
  "demo_nodes =
     [(new_node 1 (new_capabilities 2 0) 0)\<lparr>node_status := Healthy, node_roles := 8\<rparr>,
      (new_node 2 (new_capabilities 4 0) 0)\<lparr>node_status := Healthy, node_roles := 8\<rparr>,
      (new_node 3 (new_capabilities 8 0) 0)\<lparr>node_status := Suspect, node_roles := 8\<rparr>]"

lemma roleset_8: "roleset_contains 8 Compute"
  by (simp add: roleset_contains_def role_bit_def)

lemma demo_least_loaded: "least_loaded demo_task demo_nodes = Inr 2"
  by (simp add: least_loaded_def schedulable_def demo_nodes_def is_schedulable_def accepts_work_def
      has_role_def roleset_8 load_key_def new_node_def new_capabilities_def compute_weight_def default_load_def)

lemma least_loaded_optimal_example:
  "least_loaded demo_task (rev demo_nodes) = Inr 2"
proof -
  have "distinct (map node_id demo_nodes)" by (simp add: demo_nodes_def new_node_def)
  from least_loaded_optimal [OF this, where nodes' = "rev demo_nodes"] show ?thesis
    by (simp add: demo_least_loaded)
qed

text \<open>
  \<open>LowestHealthyId\<close> elects a coordinator exactly when some node is healthy, and then the healthy node
  with the lowest id.
\<close>
lemma lowest_healthy_elects_minimum:
  "(lowest_healthy_id nodes = None) = ({n \<in> set nodes. node_status n = Healthy} = {}) \<and>
   (lowest_healthy_id nodes = Some i) =
     (i \<in> node_id ` {n \<in> set nodes. node_status n = Healthy} \<and>
      i = Min (node_id ` {n \<in> set nodes. node_status n = Healthy}))"
proof -
  let ?h = "filter (\<lambda>n. accepts_work (node_status n)) nodes"
  have set: "set ?h = {n \<in> set nodes. node_status n = Healthy}" by (auto simp: accepts_work_def)
  have none: "lowest_healthy_id nodes = None \<longleftrightarrow> set ?h = {}" by (auto simp: lowest_healthy_id_def filter_empty_conv)
  have "lowest_healthy_id nodes = Some (Min (node_id ` set ?h))" if ne: "set ?h \<noteq> {}"
  proof -
    obtain m where m: "min_by_key node_id ?h = Some m" using ne by (cases "min_by_key node_id ?h") (auto simp: filter_empty_conv)
    have "node_id m = Min (node_id ` set ?h)"
      using min_by_key_in [OF m] min_by_key_least [OF m] by (intro Min_eqI [symmetric]) auto
    then show ?thesis using m by (simp add: lowest_healthy_id_def)
  qed
  moreover have "Min (node_id ` set ?h) \<in> node_id ` set ?h" if "set ?h \<noteq> {}"
    using that by (intro Min_in) auto
  ultimately show ?thesis
    using none unfolding set [symmetric] by (metis image_is_empty option.inject option.distinct(1) empty_iff)
qed

end
