(* ===== verification/Snapshot.thy ===== *)
theory Snapshot
  imports Events
begin

text \<open>
  \<open>cluster-core/src/cluster.rs\<close>: the views of the cluster that the application sees. The trait
  \<open>ClusterControl\<close> is the port the supervisor's commands implement; its operations are modelled with the
  supervisor. The counters that the telemetry adds to a snapshot are fields of the record.
\<close>

record job_counts =
  jc_queued :: nat
  jc_running :: nat
  jc_completed :: nat
  jc_failed :: nat
  jc_cancelled :: nat

definition zero_job_counts :: job_counts where
  "zero_job_counts = \<lparr> jc_queued = 0, jc_running = 0, jc_completed = 0, jc_failed = 0, jc_cancelled = 0 \<rparr>"

definition job_counts_total :: "job_counts \<Rightarrow> nat" where
  "job_counts_total c = jc_queued c + jc_running c + jc_completed c + jc_failed c + jc_cancelled c"

text \<open>\<open>RoleCounts\<close>: six counters indexed by \<open>Role::index\<close>.\<close>

type_synonym role_counts = "nat list"

definition zero_role_counts :: role_counts where
  "zero_role_counts = replicate 6 0"

definition role_counts_get :: "role_counts \<Rightarrow> role \<Rightarrow> nat" where
  "role_counts_get c r = c ! role_index r"

definition role_counts_increment :: "role \<Rightarrow> role_counts \<Rightarrow> role_counts" where
  "role_counts_increment r c = c[role_index r := c ! role_index r + 1]"

record cluster_snapshot =
  nodes_total :: nat
  nodes_online :: nat
  snap_roles :: role_counts
  snap_policies :: role_policies
  snap_jobs :: job_counts
  tasks_running :: nat
  tasks_queued :: nat
  snap_leader :: "nodeid option"
  snap_gateway :: "nodeid option"
  worker_connections :: nat
  worker_preauth :: nat
  worker_rejected :: nat
  persistence_queue :: nat
  persistence_oldest_ms :: nat
  persistence_errors :: nat
  snap_jobs_recovered :: nat
  snap_task_retries :: nat

definition default_snapshot :: cluster_snapshot where
  "default_snapshot = \<lparr> nodes_total = 0, nodes_online = 0, snap_roles = zero_role_counts,
     snap_policies = default_role_policies, snap_jobs = zero_job_counts, tasks_running = 0, tasks_queued = 0,
     snap_leader = None, snap_gateway = None, worker_connections = 0, worker_preauth = 0, worker_rejected = 0,
     persistence_queue = 0, persistence_oldest_ms = 0, persistence_errors = 0, snap_jobs_recovered = 0,
     snap_task_retries = 0 \<rparr>"

definition is_degraded :: "cluster_snapshot \<Rightarrow> bool" where
  "is_degraded c \<longleftrightarrow> nodes_online c < nodes_total c \<or>
     unmet (snap_policies c) (role_counts_get (snap_roles c)) \<noteq> []"

definition status_label :: "cluster_snapshot \<Rightarrow> string" where
  "status_label c =
     (if nodes_online c = 0 then ''down''
      else if is_degraded c then ''degraded''
      else ''healthy'')"

lemma role_counts_increment_get:
  "length c = 6 \<Longrightarrow> role_counts_get (role_counts_increment r c) q = role_counts_get c q + (if q = r then 1 else 0)"
  using role_index_less [of r] role_index_inj [of q r]
  by (auto simp: role_counts_get_def role_counts_increment_def nth_list_update)

lemma role_counts_increment_length [simp]: "length (role_counts_increment r c) = length c"
  by (simp add: role_counts_increment_def)

lemma increments_get:
  "length c = 6 \<Longrightarrow> distinct rs \<Longrightarrow>
     role_counts_get (foldl (\<lambda>c r. role_counts_increment r c) c rs) q =
       role_counts_get c q + (if q \<in> set rs then 1 else 0)"
  by (induction rs arbitrary: c) (auto simp: role_counts_increment_get)

end
