(* ===== verification/Supervisor.thy ===== *)
theory Supervisor
  imports Store Scheduling Snapshot Protocol
begin

text \<open>
  \<open>cluster-local/src/supervisor.rs\<close>: the single owner of cluster state, with the configuration of
  \<open>config.rs\<close> and the messages of \<open>node.rs\<close>. Each handler is a function from the supervisor's state to
  its next state, in the order of effects the source has.

  What the supervisor does not decide is part of the state, as a stream of answers with the position in
  it: \<open>clock\<close> is what the clock says at its \<open>n\<close>-th reading, \<open>mailbox\<close> whether the \<open>n\<close>-th \<open>try_send\<close> finds
  room, \<open>faults\<close> whether the \<open>n\<close>-th call of the store fails. A theorem about every state is therefore a
  theorem about every behaviour of clock, mailboxes and database. The write queue is the list \<open>writes\<close>,
  drained by \<open>drain_one\<close>; the events sent to subscribers are \<open>published\<close>; what was put in mailboxes is
  \<open>outbox\<close> and the handles told to stop are \<open>terminated\<close>. Scheduler and elector are the arguments \<open>sel\<close>
  and \<open>el\<close>.
\<close>

section \<open>Configuration and messages\<close>

record config =
  node_count :: nat
  health :: health_policy
  policies :: role_policies
  tick_interval_ms :: nat
  event_buffer :: nat
  job_buffer :: nat
  max_task_attempts :: nat
  profiles :: "node_capabilities list"
  remote_nodes :: "(nodeid \<times> node_capabilities) list"
  join_token :: "bytes option"
  max_remote_connections :: nat
  max_pending_handshakes :: nat
  simulate_load :: bool

definition default_config :: "nat option \<Rightarrow> config" where
  "default_config available = \<lparr> node_count = 8, health = default_health_policy,
     policies = default_role_policies, tick_interval_ms = 500, event_buffer = 200, job_buffer = 200,
     max_task_attempts = 3, profiles = [local_capabilities available], remote_nodes = [],
     join_token = None, max_remote_connections = 64, max_pending_handshakes = 16, simulate_load = True \<rparr>"

datatype node_inbox =
    InAssign task
  | InPauseHeartbeat bool
  | InInjectFailures nat
  | InSetDelay nat

datatype node_report =
    ReportHeartbeat heartbeat
  | ReportStarted nodeid task
  | ReportFinished nodeid task task_outcome

datatype cluster_error =
    UnknownNode nodeid
  | UnknownJob jobid
  | UnknownTask taskid
  | NodeAlreadyRunning nodeid
  | NodeNotRunning nodeid
  | Invalid string
  | StateFailure state_error
  | SchedulerFailure scheduler_error
  | Unavailable string

text \<open>A running node is known by its mailbox: one per spawned task, one per worker connection.\<close>

datatype handle = LocalTask nat | Connection nat

datatype node_kind = Simulated | Remote bool

record node_entry =
  entry_node :: node
  entry_kind :: node_kind
  entry_handle :: "handle option"
  entry_paused :: bool
  entry_generation :: nat

record supervisor =
  cfg :: config
  store :: store
  faults :: "nat \<Rightarrow> bool"
  store_calls :: nat
  writes :: "db_write list"
  clock :: "nat \<Rightarrow> millis"
  clock_reads :: nat
  mailbox :: "nat \<Rightarrow> bool"
  sends :: nat
  outbox :: "(handle \<times> node_inbox) list"
  terminated :: "handle list"
  spawned :: nat
  nodes :: "(nodeid, node_entry) btree"
  jobs :: "(jobid, job) btree"
  tasks :: "(taskid, task) btree"
  queue :: "taskid list"
  events :: "event_record list"
  event_seq :: nat
  leader :: "nodeid option"
  gateway :: "nodeid option"
  published :: "event_record list"
  jobs_recovered :: nat
  task_retries :: nat

type_synonym selection = "task \<Rightarrow> node list \<Rightarrow> scheduler_error + nodeid"
type_synonym election = "node list \<Rightarrow> nodeid option"

definition new_supervisor ::
    "config \<Rightarrow> store \<Rightarrow> (nat \<Rightarrow> bool) \<Rightarrow> (nat \<Rightarrow> millis) \<Rightarrow> (nat \<Rightarrow> bool) \<Rightarrow> supervisor" where
  "new_supervisor c st flt clk mbox = \<lparr> cfg = c, store = st, faults = flt, store_calls = 0, writes = [],
     clock = clk, clock_reads = 0, mailbox = mbox, sends = 0, outbox = [], terminated = [], spawned = 0,
     nodes = [], jobs = [], tasks = [], queue = [], events = [], event_seq = 0, leader = None,
     gateway = None, published = [], jobs_recovered = 0, task_retries = 0 \<rparr>"

section \<open>Plumbing\<close>

definition read_clock :: "supervisor \<Rightarrow> millis \<times> supervisor" where
  "read_clock s = (clock s (clock_reads s), s\<lparr>clock_reads := clock_reads s + 1\<rparr>)"

definition store_call :: "(store \<Rightarrow> store_error + 'a \<times> store) \<Rightarrow> supervisor \<Rightarrow> (store_error + 'a) \<times> supervisor" where
  "store_call f s =
     (let fault = faults s (store_calls s); s = s\<lparr>store_calls := store_calls s + 1\<rparr>
      in if fault then (Inl (Backend ''query failed''), s)
         else case f (store s) of
                Inl e \<Rightarrow> (Inl e, s)
              | Inr (a, st) \<Rightarrow> (Inr a, s\<lparr>store := st\<rparr>))"

definition store_read :: "(store \<Rightarrow> store_error + 'a) \<Rightarrow> supervisor \<Rightarrow> (store_error + 'a) \<times> supervisor" where
  "store_read f s = store_call (\<lambda>st. case f st of Inl e \<Rightarrow> Inl e | Inr a \<Rightarrow> Inr (a, st)) s"

definition store_write :: "(store \<Rightarrow> store_error + store) \<Rightarrow> supervisor \<Rightarrow> (store_error + unit) \<times> supervisor" where
  "store_write f s = store_call (\<lambda>st. case f st of Inl e \<Rightarrow> Inl e | Inr st' \<Rightarrow> Inr ((), st')) s"

definition push :: "db_write \<Rightarrow> supervisor \<Rightarrow> supervisor" where
  "push w s = s\<lparr>writes := writes s @ [w]\<rparr>"

definition persist_task :: "task \<Rightarrow> supervisor \<Rightarrow> supervisor" where
  "persist_task t s = push (WriteTask t) s"

definition persist_job :: "job \<Rightarrow> supervisor \<Rightarrow> supervisor" where
  "persist_job j s = push (WriteJob j) s"

definition persist_roles :: "nodeid \<Rightarrow> roleset \<Rightarrow> supervisor \<Rightarrow> supervisor" where
  "persist_roles n roles s = (case read_clock s of (at, s) \<Rightarrow> push (WriteRoles n roles at) s)"

definition emit :: "cluster_event \<Rightarrow> supervisor \<Rightarrow> supervisor" where
  "emit e s =
     (let s = s\<lparr>event_seq := event_seq s + 1\<rparr>
      in case read_clock s of (at, s) \<Rightarrow>
           let r = new_event_record (event_seq s) at e; s = push (WriteEvent r) s
           in s\<lparr>published := published s @ [r], events := events s @ [r]\<rparr>)"

text \<open>\<open>try_send\<close> on the mailbox of a node that has one.\<close>

definition try_send :: "handle \<Rightarrow> node_inbox \<Rightarrow> supervisor \<Rightarrow> bool \<times> supervisor" where
  "try_send h m s =
     (if mailbox s (sends s)
      then (True, s\<lparr>sends := sends s + 1, outbox := outbox s @ [(h, m)]\<rparr>)
      else (False, s\<lparr>sends := sends s + 1\<rparr>))"

section \<open>Jobs\<close>

definition start_job_if_queued :: "jobid \<Rightarrow> supervisor \<Rightarrow> supervisor" where
  "start_job_if_queued jid s =
     (case read_clock s of (now, s) \<Rightarrow>
        (case bt_get (jobs s) jid of
           None \<Rightarrow> s
         | Some j \<Rightarrow>
             if job_state j = JobQueued
             then (case job_transition_to JobRunning now j of
                     Inl _ \<Rightarrow> s
                   | Inr j \<Rightarrow> persist_job j (s\<lparr>jobs := bt_insert jid j (jobs s)\<rparr>))
             else s))"

definition settle_job :: "jobid \<Rightarrow> supervisor \<Rightarrow> supervisor" where
  "settle_job jid s =
     (case read_clock s of (now, s) \<Rightarrow>
        (case bt_get (jobs s) jid of
           None \<Rightarrow> s
         | Some j \<Rightarrow>
             if tasks_completed j + tasks_failed j < job_task_count j then s
             else if job_terminal (job_state j) then s
             else let to = (if tasks_failed j > 0 then JobFailed else JobCompleted)
                  in (case job_transition_to to now j of
                        Inl _ \<Rightarrow> s
                      | Inr j \<Rightarrow>
                          emit (if to = JobFailed then EvJobFailed jid else EvJobCompleted jid)
                            (persist_job j (s\<lparr>jobs := bt_insert jid j (jobs s)\<rparr>)))))"

definition record_failure :: "task \<Rightarrow> failure_reason \<Rightarrow> string \<Rightarrow> supervisor \<Rightarrow> supervisor" where
  "record_failure t reason detail s =
     (case read_clock s of (at, s) \<Rightarrow> push (WriteFailure (new_attempt t reason detail at)) s)"

definition bump_job :: "(job \<Rightarrow> job) \<Rightarrow> jobid \<Rightarrow> supervisor \<Rightarrow> supervisor" where
  "bump_job f jid s =
     (case bt_get (jobs s) jid of
        None \<Rightarrow> s
      | Some j \<Rightarrow> persist_job (f j) (s\<lparr>jobs := bt_insert jid (f j) (jobs s)\<rparr>))"

definition retry_or_give_up :: "taskid \<Rightarrow> millis \<Rightarrow> supervisor \<Rightarrow> supervisor" where
  "retry_or_give_up tid now s =
     (case bt_get (tasks s) tid of
        None \<Rightarrow> s
      | Some t \<Rightarrow>
          if attempt t < max_task_attempts (cfg s)
          then (case requeue now t of
                  Inl _ \<Rightarrow> s
                | Inr t \<Rightarrow>
                    let s = persist_task t (s\<lparr>tasks := bt_insert (task_id t) t (tasks s)\<rparr>);
                        s = s\<lparr>queue := queue s @ [task_id t], task_retries := task_retries s + 1\<rparr>
                    in emit (EvTaskRequeued (task_id t)) s)
          else (case fail now t of
                  Inl _ \<Rightarrow> s
                | Inr t \<Rightarrow>
                    let s = persist_task t (s\<lparr>tasks := bt_insert (task_id t) t (tasks s)\<rparr>);
                        s = bump_job (\<lambda>j. j\<lparr>tasks_failed := sat_add u16_max (tasks_failed j) 1\<rparr>) (task_job t) s
                    in settle_job (task_job t) s))"

definition finish_task :: "nodeid \<Rightarrow> taskid \<Rightarrow> task_outcome \<Rightarrow> supervisor \<Rightarrow> supervisor" where
  "finish_task node tid outcome s =
     (case read_clock s of (now, s) \<Rightarrow>
        (case bt_get (tasks s) tid of
           None \<Rightarrow> s
         | Some t \<Rightarrow>
             if assigned_to t \<noteq> Some node \<or> task_terminal (task_state t) then s
             else (case outcome of
                     OutCompleted out \<Rightarrow>
                       (case complete out now t of
                          Inl _ \<Rightarrow> s
                        | Inr t \<Rightarrow>
                            let s = persist_task t (s\<lparr>tasks := bt_insert (task_id t) t (tasks s)\<rparr>);
                                s = emit (EvTaskCompleted (task_id t) node) s;
                                s = bump_job (\<lambda>j. j\<lparr>tasks_completed := sat_add u16_max (tasks_completed j) 1\<rparr>) (task_job t) s
                            in settle_job (task_job t) s)
                   | OutFailed reason detail \<Rightarrow>
                       let s = record_failure t reason detail s;
                           s = emit (EvTaskFailed (task_id t) (Some node) reason) s
                       in retry_or_give_up tid now s)))"

definition requeue_tasks_of :: "nodeid \<Rightarrow> supervisor \<Rightarrow> supervisor" where
  "requeue_tasks_of node s =
     (case read_clock s of (now, s) \<Rightarrow>
        let affected = map task_id (filter (\<lambda>t. assigned_to t = Some node \<and> \<not> task_terminal (task_state t))
                         (bt_values (tasks s)))
        in foldl (\<lambda>s tid.
             case bt_get (tasks s) tid of
               None \<Rightarrow> s
             | Some t \<Rightarrow>
                 let s = record_failure t NodeOffline ''node went offline'' s;
                     s = emit (EvTaskFailed tid (Some node) NodeOffline) s
                 in retry_or_give_up tid now s) s affected)"

section \<open>Placing work\<close>

definition candidates :: "nodeid list \<Rightarrow> supervisor \<Rightarrow> node list" where
  "candidates busy s =
     map entry_node (filter (\<lambda>e. node_id (entry_node e) \<notin> set busy)
       (filter (\<lambda>e. entry_handle e \<noteq> None \<and> is_schedulable (entry_node e)) (bt_values (nodes s))))"

text \<open>One pass of the loop in \<open>dispatch\<close>: \<open>Inl\<close> returns from it, \<open>Inr\<close> goes round again.\<close>

definition dispatch_one :: "selection \<Rightarrow> nodeid list \<Rightarrow> supervisor \<Rightarrow> supervisor + nodeid list \<times> supervisor" where
  "dispatch_one sel busy s =
     (case queue s of
        [] \<Rightarrow> Inl s
      | tid # q \<Rightarrow>
          (case bt_get (tasks s) tid of
             None \<Rightarrow> Inr (busy, s\<lparr>queue := q\<rparr>)
           | Some t \<Rightarrow>
               (case sel t (candidates busy s) of
                  Inl _ \<Rightarrow> Inl s
                | Inr chosen \<Rightarrow>
                    (case read_clock (s\<lparr>queue := q\<rparr>) of (now, s) \<Rightarrow>
                       (case assign chosen now t of
                          Inl _ \<Rightarrow> Inr (busy, s)
                        | Inr t \<Rightarrow>
                            (case (case bt_get (nodes s) chosen of
                                     None \<Rightarrow> (False, s)
                                   | Some e \<Rightarrow> (case entry_handle e of
                                                  None \<Rightarrow> (False, s)
                                                | Some h \<Rightarrow> try_send h (InAssign t) s)) of
                               (False, s) \<Rightarrow>
                                 let t = (case requeue now t of Inr t' \<Rightarrow> t' | Inl _ \<Rightarrow> t);
                                     s = s\<lparr>tasks := bt_insert (task_id t) t (tasks s), queue := task_id t # queue s\<rparr>
                                 in Inl (snd (store_write (save_task t) s))
                             | (True, s) \<Rightarrow>
                                 let s = persist_task t (s\<lparr>tasks := bt_insert (task_id t) t (tasks s)\<rparr>);
                                     s = start_job_if_queued (task_job t) s
                                 in Inr (chosen # busy, emit (EvTaskAssigned (task_id t) chosen) s)))))))"

subsection \<open>What the plumbing leaves alone\<close>

lemma emit_frame [frame_simps, simp]:
  "nodes (emit e s) = nodes s" "jobs (emit e s) = jobs s" "tasks (emit e s) = tasks s"
  "queue (emit e s) = queue s" "cfg (emit e s) = cfg s" "store (emit e s) = store s"
  "leader (emit e s) = leader s" "outbox (emit e s) = outbox s"
  "event_seq (emit e s) = event_seq s + 1"
  by (simp_all add: emit_def Let_def read_clock_def push_def)

lemma persist_frame [frame_simps, simp]:
  "nodes (persist_task t s) = nodes s" "jobs (persist_task t s) = jobs s" "tasks (persist_task t s) = tasks s"
  "queue (persist_task t s) = queue s" "cfg (persist_task t s) = cfg s"
  "event_seq (persist_task t s) = event_seq s" "published (persist_task t s) = published s"
  "events (persist_task t s) = events s" "leader (persist_task t s) = leader s"
  "nodes (persist_job j s) = nodes s" "jobs (persist_job j s) = jobs s" "tasks (persist_job j s) = tasks s"
  "queue (persist_job j s) = queue s" "cfg (persist_job j s) = cfg s"
  "event_seq (persist_job j s) = event_seq s" "published (persist_job j s) = published s"
  "events (persist_job j s) = events s" "leader (persist_job j s) = leader s"
  "nodes (persist_roles n r s) = nodes s" "jobs (persist_roles n r s) = jobs s" "tasks (persist_roles n r s) = tasks s"
  "queue (persist_roles n r s) = queue s" "cfg (persist_roles n r s) = cfg s"
  "event_seq (persist_roles n r s) = event_seq s" "published (persist_roles n r s) = published s"
  "events (persist_roles n r s) = events s" "leader (persist_roles n r s) = leader s"
  by (simp_all add: persist_task_def persist_job_def persist_roles_def push_def read_clock_def)

lemma read_clock_frame [frame_simps]:
  assumes "read_clock s = (now, s')"
  shows "nodes s' = nodes s" "jobs s' = jobs s" "tasks s' = tasks s" "queue s' = queue s" "cfg s' = cfg s"
    "event_seq s' = event_seq s" "published s' = published s" "events s' = events s" "leader s' = leader s"
    "store s' = store s" "writes s' = writes s" "outbox s' = outbox s"
  using assms by (auto simp: read_clock_def)

lemma start_job_frame [frame_simps, simp]:
  "nodes (start_job_if_queued j s) = nodes s" "tasks (start_job_if_queued j s) = tasks s"
  "queue (start_job_if_queued j s) = queue s" "cfg (start_job_if_queued j s) = cfg s"
  "leader (start_job_if_queued j s) = leader s" "event_seq (start_job_if_queued j s) = event_seq s"
  "published (start_job_if_queued j s) = published s" "events (start_job_if_queued j s) = events s"
  by (simp_all add: start_job_if_queued_def read_clock_def split: option.split sum.split)

lemma try_send_frame [frame_simps]:
  assumes "try_send h m s = (ok, s')"
  shows "nodes s' = nodes s" "jobs s' = jobs s" "tasks s' = tasks s" "queue s' = queue s" "cfg s' = cfg s"
    "event_seq s' = event_seq s" "published s' = published s" "events s' = events s" "leader s' = leader s"
    "store s' = store s" "writes s' = writes s"
  using assms by (auto simp: try_send_def split: if_splits)

lemma dispatch_one_shorter:
  "dispatch_one sel busy s = Inr (busy', s') \<Longrightarrow> length (queue s') < length (queue s)"
  by (auto simp: dispatch_one_def read_clock_def Let_def try_send_def split: list.splits option.splits sum.splits
      if_splits bool.splits prod.splits)

function dispatch_loop :: "selection \<Rightarrow> nodeid list \<Rightarrow> supervisor \<Rightarrow> supervisor" where
  "dispatch_loop sel busy s =
     (case dispatch_one sel busy s of
        Inl s' \<Rightarrow> s'
      | Inr (busy', s') \<Rightarrow> dispatch_loop sel busy' s')"
  by auto
termination
  by (relation "measure (\<lambda>(_, _, s). length (queue s))") (auto dest: dispatch_one_shorter)

declare dispatch_loop.simps [simp del]

definition busy_nodes :: "supervisor \<Rightarrow> nodeid list" where
  "busy_nodes s =
     List.map_filter assigned_to
       (filter (\<lambda>t. task_state t = TaskAssigned \<or> task_state t = TaskRunning) (bt_values (tasks s)))"

definition dispatch :: "selection \<Rightarrow> supervisor \<Rightarrow> supervisor" where
  "dispatch sel s = dispatch_loop sel (busy_nodes s) s"

section \<open>Periodic work\<close>

definition sweep_entry :: "health_policy \<Rightarrow> millis \<Rightarrow> node_entry \<Rightarrow> node_entry \<times> (nodeid \<times> node_status) option" where
  "sweep_entry policy now e =
     (case entry_handle e of
        None \<Rightarrow> (e, None)
      | Some _ \<Rightarrow>
          let implied = classify policy (last_seen (entry_node e)) now;
              nxt = (case implied of Some st \<Rightarrow> st | None \<Rightarrow> Healthy)
          in if nxt \<noteq> node_status (entry_node e)
             then (e\<lparr>entry_node := (entry_node e)\<lparr>node_status := nxt\<rparr>\<rparr>, Some (node_id (entry_node e), nxt))
             else (e, None))"

definition sweep_transition :: "nodeid \<times> node_status \<Rightarrow> supervisor \<Rightarrow> supervisor" where
  "sweep_transition p s =
     (case p of (i, status) \<Rightarrow>
        (case status of
           Suspect \<Rightarrow> emit (EvNodeUnhealthy i) s
         | Offline \<Rightarrow> requeue_tasks_of i (emit (EvNodeLeft i) s)
         | Healthy \<Rightarrow> emit (EvNodeRecovered i) s
         | Starting \<Rightarrow> s))"

definition sweep_health :: "supervisor \<Rightarrow> supervisor" where
  "sweep_health s =
     (case read_clock s of (now, s) \<Rightarrow>
        let policy = health (cfg s);
            transitions = List.map_filter (\<lambda>e. snd (sweep_entry policy now e)) (bt_values (nodes s));
            s = s\<lparr>nodes := bt_map (\<lambda>e. fst (sweep_entry policy now e)) (nodes s)\<rparr>
        in foldl (\<lambda>s p. sweep_transition p s) s transitions)"

definition elect_leader :: "election \<Rightarrow> supervisor \<Rightarrow> nodeid option" where
  "elect_leader el s =
     (let eligible = map entry_node (filter (\<lambda>e. accepts_work (node_status (entry_node e)) \<and> has_role (entry_node e) Coordinator)
            (bt_values (nodes s)));
          fallback = map entry_node (filter (\<lambda>e. accepts_work (node_status (entry_node e))) (bt_values (nodes s)))
      in case el eligible of Some n \<Rightarrow> Some n | None \<Rightarrow> el fallback)"

definition refresh_leadership :: "election \<Rightarrow> supervisor \<Rightarrow> supervisor" where
  "refresh_leadership el s =
     (let elected = elect_leader el s;
          s = (if elected \<noteq> leader s
               then let s = (case leader s of Some prev \<Rightarrow> emit (EvLeaderLost prev) s | None \<Rightarrow> s);
                        s = (case elected of Some n \<Rightarrow> emit (EvLeaderElected n) s | None \<Rightarrow> s)
                    in s\<lparr>leader := elected\<rparr>
               else s)
      in s\<lparr>gateway := map_option (\<lambda>e. node_id (entry_node e))
             (find (\<lambda>e. accepts_work (node_status (entry_node e)) \<and> has_role (entry_node e) Gateway) (bt_values (nodes s)))\<rparr>)"

definition prune_memory :: "supervisor \<Rightarrow> supervisor" where
  "prune_memory s =
     (let s = s\<lparr>events := drop (length (events s) - event_buffer (cfg s)) (events s)\<rparr>
      in if length (jobs s) \<le> job_buffer (cfg s) then s
         else let removable = take (length (jobs s) - job_buffer (cfg s))
                    (map job_id (filter (\<lambda>j. job_terminal (job_state j)) (bt_values (jobs s))))
              in s\<lparr>jobs := foldl (\<lambda>m i. bt_remove i m) (jobs s) removable,
                   tasks := bt_retain (\<lambda>t. task_job t \<notin> set removable) (tasks s)\<rparr>)"

definition tick :: "selection \<Rightarrow> election \<Rightarrow> supervisor \<Rightarrow> supervisor" where
  "tick sel el s = prune_memory (dispatch sel (refresh_leadership el (sweep_health s)))"

section \<open>Reports\<close>

fun handle_report :: "selection \<Rightarrow> node_report \<Rightarrow> supervisor \<Rightarrow> supervisor" where
  "handle_report sel (ReportHeartbeat hb) s =
     (case read_clock s of (now, s) \<Rightarrow>
        (case bt_get (nodes s) (hb_node hb) of
           None \<Rightarrow> s
         | Some e \<Rightarrow>
             s\<lparr>nodes := bt_insert (hb_node hb)
                 (e\<lparr>entry_node := (entry_node e)\<lparr>last_seen := now, node_load := hb_load hb\<rparr>\<rparr>) (nodes s)\<rparr>))"
| "handle_report sel (ReportStarted node t) s =
     (case read_clock s of (now, s) \<Rightarrow>
        (case bt_get (tasks s) (task_id t) of
           None \<Rightarrow> s
         | Some current \<Rightarrow>
             if assigned_to current = Some node
             then (case start now current of
                     Inl _ \<Rightarrow> s
                   | Inr current \<Rightarrow>
                       persist_task current (s\<lparr>tasks := bt_insert (task_id t) current (tasks s)\<rparr>))
             else s))"
| "handle_report sel (ReportFinished node t outcome) s =
     dispatch sel (finish_task node (task_id t) outcome s)"

section \<open>Commands\<close>

text \<open>\<open>JobStore::allocate\<close>: two calls of the store, either of which can fail.\<close>

definition allocate_job :: "jobspec \<Rightarrow> millis \<Rightarrow> supervisor \<Rightarrow> (store_error + job \<times> task list) \<times> supervisor" where
  "allocate_job spec now s =
     (case store_call next_job_id s of
        (Inl e, s) \<Rightarrow> (Inl e, s)
      | (Inr jid, s) \<Rightarrow>
          let job = new_job jid spec now; specs = split_spec spec
          in case store_call (reserve_task_ids (length specs)) s of
               (Inl e, s) \<Rightarrow> (Inl e, s)
             | (Inr first, s) \<Rightarrow>
                 (Inr (job, map (\<lambda>(i, ts). new_task (first + i) jid i ts now) (enumerate 0 specs)), s))"

definition submit_job :: "selection \<Rightarrow> jobspec \<Rightarrow> supervisor \<Rightarrow> (cluster_error + jobid) \<times> supervisor" where
  "submit_job sel spec s =
     (case read_clock s of (now, s) \<Rightarrow>
        (case allocate_job spec now s of
           (Inl e, s) \<Rightarrow> (Inl (Unavailable (store_error_text e)), s)
         | (Inr (job, ts), s) \<Rightarrow>
             (case store_write (create_job job ts) s of
                (Inl e, s) \<Rightarrow> (Inl (Unavailable (store_error_text e)), s)
              | (Inr _, s) \<Rightarrow>
                  let s = s\<lparr>jobs := bt_insert (job_id job) job (jobs s)\<rparr>;
                      s = foldl (\<lambda>s t. s\<lparr>queue := queue s @ [task_id t], tasks := bt_insert (task_id t) t (tasks s)\<rparr>) s ts;
                      s = emit (EvJobCreated (job_id job)) s
                  in (Inr (job_id job), dispatch sel s))))"

record job_detail =
  jd_job :: job
  jd_tasks :: "task list"
  jd_failures :: "task_attempt list"

definition or_default :: "(store_error + 'a list) \<Rightarrow> 'a list" where
  "or_default r = (case r of Inl _ \<Rightarrow> [] | Inr x \<Rightarrow> x)"

definition job_detail :: "jobid \<Rightarrow> supervisor \<Rightarrow> job_detail option \<times> supervisor" where
  "job_detail i s =
     (case (case bt_get (jobs s) i of
              Some j \<Rightarrow> (Some j, s)
            | None \<Rightarrow> (case store_read (load_job i) s of
                         (Inl _, s) \<Rightarrow> (None, s)
                       | (Inr found, s) \<Rightarrow> (found, s))) of
        (None, s) \<Rightarrow> (None, s)
      | (Some j, s) \<Rightarrow>
          (case (let ts = filter (\<lambda>t. task_job t = i) (bt_values (tasks s))
                 in if ts = [] then (case store_read (tasks_for_job i) s of (r, s) \<Rightarrow> (or_default r, s))
                    else (ts, s)) of
             (ts, s) \<Rightarrow>
               (case store_read (failures_for_job i) s of
                  (r, s) \<Rightarrow> (Some \<lparr> jd_job = j, jd_tasks = sort_key task_index ts, jd_failures = or_default r \<rparr>, s))))"

definition set_role :: "election \<Rightarrow> nodeid \<Rightarrow> role \<Rightarrow> bool \<Rightarrow> supervisor \<Rightarrow> (cluster_error + unit) \<times> supervisor" where
  "set_role el i r enabled s =
     (case bt_get (nodes s) i of
        None \<Rightarrow> (Inl (UnknownNode i), s)
      | Some e \<Rightarrow>
          (case (if enabled then roleset_insert r (node_roles (entry_node e))
                 else roleset_remove r (node_roles (entry_node e))) of
             (roles, changed) \<Rightarrow>
               let s = s\<lparr>nodes := bt_insert i (e\<lparr>entry_node := (entry_node e)\<lparr>node_roles := roles\<rparr>\<rparr>) (nodes s)\<rparr>
               in if changed
                  then let s = persist_roles i roles s;
                           s = emit (if enabled then EvRoleAssigned i r else EvRoleRemoved i r) s
                       in (Inr (), refresh_leadership el s)
                  else (Inr (), s)))"

section \<open>Nodes that come and go\<close>

definition next_free_id :: "supervisor \<Rightarrow> nodeid option" where
  "next_free_id s = find (\<lambda>i. \<not> bt_contains (nodes s) i) [1..<u16_max + 1]"

record attachment =
  at_id :: nodeid
  at_heartbeat_interval_ms :: nat
  at_generation :: nat

text \<open>The first part of \<open>attach_remote\<close>: the identity, with a registry entry for an anonymous worker.\<close>

definition attach_identity :: "nodeid option \<Rightarrow> node_capabilities \<Rightarrow> millis \<Rightarrow> supervisor \<Rightarrow> reject_reason + nodeid \<times> supervisor" where
  "attach_identity asked caps now s =
     (case asked of
        Some i \<Rightarrow> Inr (i, s)
      | None \<Rightarrow>
          (case next_free_id s of
             None \<Rightarrow> Inl Full
           | Some i \<Rightarrow>
               let n = (new_node i caps now)\<lparr>node_status := Starting\<rparr>;
                   n = n\<lparr>node_roles := fst (roleset_insert Compute (node_roles n))\<rparr>
               in Inr (i, s\<lparr>nodes := bt_insert i
                    \<lparr> entry_node = n, entry_kind = Remote False, entry_handle = None, entry_paused = False,
                      entry_generation = 0 \<rparr> (nodes s)\<rparr>)))"

definition attach_entry :: "node_capabilities \<Rightarrow> handle \<Rightarrow> millis \<Rightarrow> node_entry \<Rightarrow> node_entry" where
  "attach_entry caps conn now e =
     e\<lparr>entry_node := (entry_node e)\<lparr>capabilities := caps, node_status := Healthy, last_seen := now,
                        node_load := default_load\<rparr>,
       entry_generation := (entry_generation e + 1) mod 2 ^ 64,
       entry_paused := False,
       entry_handle := Some conn\<rparr>"

definition attach_remote :: "selection \<Rightarrow> election \<Rightarrow> nodeid option \<Rightarrow> node_capabilities \<Rightarrow> handle \<Rightarrow> supervisor \<Rightarrow>
    (reject_reason + attachment) \<times> supervisor" where
  "attach_remote sel el asked caps conn s =
     (case read_clock s of (now, s) \<Rightarrow>
        (case attach_identity asked caps now s of
           Inl why \<Rightarrow> (Inl why, s)
         | Inr (i, s) \<Rightarrow>
             (case bt_get (nodes s) i of
                None \<Rightarrow> (Inl UnknownNodeReason, s)
              | Some e \<Rightarrow>
                  if entry_kind e = Simulated then (Inl UnknownNodeReason, s)
                  else if entry_handle e \<noteq> None \<and> accepts_work (node_status (entry_node e))
                  then (Inl AlreadyConnected, s)
                  else
                    let s = (case entry_handle e of
                               Some stale \<Rightarrow> s\<lparr>terminated := terminated s @ [stale]\<rparr>
                             | None \<Rightarrow> s);
                        e = attach_entry caps conn now e;
                        s = s\<lparr>nodes := bt_insert i e (nodes s)\<rparr>;
                        s = persist_roles i (node_roles (entry_node e)) s;
                        s = emit (EvNodeJoined i) s;
                        s = dispatch sel (refresh_leadership el s)
                    in (Inr \<lparr> at_id = i, at_heartbeat_interval_ms = heartbeat_interval_ms (health (cfg s)),
                             at_generation = entry_generation e \<rparr>, s))))"

definition offline_entry :: "node_entry \<Rightarrow> node_entry" where
  "offline_entry e =
     e\<lparr>entry_handle := None,
       entry_node := (entry_node e)\<lparr>node_status := Offline, node_load := default_load\<rparr>\<rparr>"

definition detach_remote :: "selection \<Rightarrow> election \<Rightarrow> nodeid \<Rightarrow> nat \<Rightarrow> supervisor \<Rightarrow> supervisor" where
  "detach_remote sel el i generation s =
     (case bt_get (nodes s) i of
        None \<Rightarrow> s
      | Some e \<Rightarrow>
          if entry_generation e \<noteq> generation \<or> entry_handle e = None then s
          else
            let s = s\<lparr>nodes := bt_insert i (offline_entry e) (nodes s)\<rparr>;
                declared = (entry_kind e = Remote True);
                s = emit (EvNodeLeft i) s;
                s = requeue_tasks_of i s;
                s = (if \<not> declared
                     then persist_roles i roleset_empty (s\<lparr>nodes := bt_remove i (nodes s)\<rparr>)
                     else s)
            in dispatch sel (refresh_leadership el s))"

definition stop_node :: "selection \<Rightarrow> election \<Rightarrow> nodeid \<Rightarrow> supervisor \<Rightarrow> (cluster_error + unit) \<times> supervisor" where
  "stop_node sel el i s =
     (case bt_get (nodes s) i of
        None \<Rightarrow> (Inl (UnknownNode i), s)
      | Some e \<Rightarrow>
          (case entry_handle e of
             None \<Rightarrow> (Inl (NodeNotRunning i), s)
           | Some h \<Rightarrow>
               let s = s\<lparr>terminated := terminated s @ [h], nodes := bt_insert i (offline_entry e) (nodes s)\<rparr>;
                   s = emit (EvNodeLeft i) s;
                   s = requeue_tasks_of i s
               in (Inr (), dispatch sel (refresh_leadership el s))))"

definition launch_node :: "nodeid \<Rightarrow> supervisor \<Rightarrow> supervisor" where
  "launch_node i s =
     (case bt_get (nodes s) i of
        None \<Rightarrow> s
      | Some e \<Rightarrow>
          let h = LocalTask (spawned s); s = s\<lparr>spawned := spawned s + 1\<rparr>
          in case read_clock s of (now, s) \<Rightarrow>
               s\<lparr>nodes := bt_insert i
                   (e\<lparr>entry_node := (entry_node e)\<lparr>node_status := Healthy, last_seen := now, node_load := default_load\<rparr>,
                      entry_paused := False, entry_handle := Some h\<rparr>) (nodes s)\<rparr>)"

definition start_node :: "selection \<Rightarrow> election \<Rightarrow> nodeid \<Rightarrow> supervisor \<Rightarrow> (cluster_error + unit) \<times> supervisor" where
  "start_node sel el i s =
     (case bt_get (nodes s) i of
        None \<Rightarrow> (Inl (UnknownNode i), s)
      | Some e \<Rightarrow>
          if entry_handle e \<noteq> None then (Inl (NodeAlreadyRunning i), s)
          else if entry_kind e \<noteq> Simulated
          then (Inl (Unavailable (node_text i @ '' is a remote worker and rejoins by reconnecting on its own'')), s)
          else let s = emit (EvNodeJoined i) (launch_node i s)
               in (Inr (), dispatch sel (refresh_leadership el s)))"

definition send_to_node :: "nodeid \<Rightarrow> node_inbox \<Rightarrow> supervisor \<Rightarrow> (cluster_error + unit) \<times> supervisor" where
  "send_to_node i m s =
     (case bt_get (nodes s) i of
        None \<Rightarrow> (Inl (UnknownNode i), s)
      | Some e \<Rightarrow>
          (case entry_handle e of
             None \<Rightarrow> (Inl (NodeNotRunning i), s)
           | Some h \<Rightarrow>
               (case try_send h m s of
                  (True, s) \<Rightarrow> (Inr (), s)
                | (False, s) \<Rightarrow> (Inl (Unavailable (node_text i @ '' is not responding'')), s))))"

definition pause_heartbeat :: "nodeid \<Rightarrow> bool \<Rightarrow> supervisor \<Rightarrow> (cluster_error + unit) \<times> supervisor" where
  "pause_heartbeat i paused s =
     (case send_to_node i (InPauseHeartbeat paused) s of
        (Inl e, s) \<Rightarrow> (Inl e, s)
      | (Inr u, s) \<Rightarrow>
          (Inr u, (case bt_get (nodes s) i of
                     None \<Rightarrow> s
                   | Some e \<Rightarrow> s\<lparr>nodes := bt_insert i (e\<lparr>entry_paused := paused\<rparr>) (nodes s)\<rparr>)))"

section \<open>Views\<close>

definition count_job :: "job_counts \<Rightarrow> job \<Rightarrow> job_counts" where
  "count_job c j =
     (case job_state j of
        JobQueued \<Rightarrow> c\<lparr>jc_queued := jc_queued c + 1\<rparr>
      | JobRunning \<Rightarrow> c\<lparr>jc_running := jc_running c + 1\<rparr>
      | JobCompleted \<Rightarrow> c\<lparr>jc_completed := jc_completed c + 1\<rparr>
      | JobFailed \<Rightarrow> c\<lparr>jc_failed := jc_failed c + 1\<rparr>
      | JobCancelled \<Rightarrow> c\<lparr>jc_cancelled := jc_cancelled c + 1\<rparr>)"

definition snapshot :: "supervisor \<Rightarrow> cluster_snapshot" where
  "snapshot s =
     (let online = filter (\<lambda>e. accepts_work (node_status (entry_node e))) (bt_values (nodes s))
      in default_snapshot\<lparr>nodes_total := length (nodes s),
           nodes_online := length online,
           snap_roles := foldl (\<lambda>c e. foldl (\<lambda>c r. role_counts_increment r c) c (roleset_iter (node_roles (entry_node e))))
             zero_role_counts online,
           snap_policies := policies (cfg s),
           snap_jobs := foldl count_job zero_job_counts (bt_values (jobs s)),
           tasks_running := length (filter (\<lambda>t. task_state t = TaskRunning \<or> task_state t = TaskAssigned) (bt_values (tasks s))),
           tasks_queued := length (queue s),
           snap_leader := leader s,
           snap_gateway := gateway s\<rparr>)"

section \<open>Startup\<close>

definition simulated_entry :: "config \<Rightarrow> millis \<Rightarrow> nat \<Rightarrow> node_entry" where
  "simulated_entry c now index =
     \<lparr> entry_node = (new_node (index + 1) (profiles c ! (index mod max (length (profiles c)) 1)) now)\<lparr>node_status := Healthy\<rparr>,
       entry_kind = Simulated, entry_handle = None, entry_paused = False, entry_generation = 0 \<rparr>"

definition declared_entry :: "millis \<Rightarrow> nodeid \<times> node_capabilities \<Rightarrow> node_entry" where
  "declared_entry now d =
     \<lparr> entry_node = (new_node (fst d) (snd d) now)\<lparr>node_status := Offline\<rparr>,
       entry_kind = Remote True, entry_handle = None, entry_paused = False, entry_generation = 0 \<rparr>"

definition initial_nodes :: "config \<Rightarrow> millis \<Rightarrow> (nodeid, node_entry) btree" where
  "initial_nodes c now =
     (let m = foldl (\<lambda>m index. bt_insert (index + 1) (simulated_entry c now index) m) [] [0..<node_count c]
      in foldl (\<lambda>m d. if bt_contains m (fst d) then m else bt_insert (fst d) (declared_entry now d) m) m (remote_nodes c))"

definition give_role :: "role \<Rightarrow> node_entry \<Rightarrow> node_entry" where
  "give_role r e =
     e\<lparr>entry_node := (entry_node e)\<lparr>node_roles := fst (roleset_insert r (node_roles (entry_node e)))\<rparr>\<rparr>"

fun place_role :: "role \<Rightarrow> nodeid list \<Rightarrow> nat \<Rightarrow> nat \<times> (nodeid, node_entry) btree \<Rightarrow> nat \<times> (nodeid, node_entry) btree" where
  "place_role r ids 0 p = p"
| "place_role r ids (Suc k) (cursor, m) =
     (case find (\<lambda>offset. case bt_get m (ids ! ((cursor + offset) mod length ids)) of
                            None \<Rightarrow> False
                          | Some e \<Rightarrow> \<not> roleset_contains (node_roles (entry_node e)) r) [0..<length ids] of
        None \<Rightarrow> (cursor, m)
      | Some offset \<Rightarrow>
          let i = ids ! ((cursor + offset) mod length ids);
              m = (case bt_get m i of None \<Rightarrow> m | Some e \<Rightarrow> bt_insert i (give_role r e) m)
          in place_role r ids k (cursor + (offset + 1), m))"

definition assign_initial_roles :: "config \<Rightarrow> (nodeid, node_entry) btree \<Rightarrow> (nodeid, node_entry) btree" where
  "assign_initial_roles c m =
     (let ids = bt_keys m
      in if ids = [] then m
         else let m = foldl (\<lambda>m i. case bt_get m i of None \<Rightarrow> m | Some e \<Rightarrow> bt_insert i (give_role Compute e) m) m ids
              in snd (foldl (\<lambda>p r. if r = Compute then p
                                   else place_role r ids (min_replicas (policy_get (policies c) r)) p)
                        (0, m) degradation_priority))"

definition restore_roles :: "supervisor \<Rightarrow> supervisor" where
  "restore_roles s =
     (case store_read load_node_roles s of
        (Inl _, s) \<Rightarrow> s
      | (Inr stored, s) \<Rightarrow>
          s\<lparr>nodes := foldl (\<lambda>m p. case bt_get m (fst p) of
                                     None \<Rightarrow> m
                                   | Some e \<Rightarrow> bt_insert (fst p) (e\<lparr>entry_node := (entry_node e)\<lparr>node_roles := snd p\<rparr>\<rparr>) m)
              (nodes s) stored\<rparr>)"

definition PAGE :: nat where "PAGE = 200"

text \<open>
  The loop over \<open>unfinished_jobs_page\<close>. It ends: a page is non-empty, and the next one holds only jobs after
  its last. The store is not written meanwhile, so the jobs still to come get fewer with every page.
\<close>

definition pages_left :: "jobid option \<Rightarrow> supervisor \<Rightarrow> nat" where
  "pages_left after s =
     (case unfinished_jobs (store s) of
        Inl _ \<Rightarrow> 0
      | Inr js \<Rightarrow> length (filter (\<lambda>p. case after of None \<Rightarrow> True | Some i \<Rightarrow> job_id (fst p) > i) js))"

lemma store_read_cases:
  assumes "store_read f s = (r, s')"
  shows "store s' = store s" "r = Inl (Backend ''query failed'') \<or> r = f (store s)"
  using assms by (auto simp: store_read_def store_call_def Let_def split: if_splits sum.splits prod.splits)

lemma page_left_smaller:
  assumes "store_read (unfinished_jobs_page after n) s = (Inr page, s')" "page \<noteq> []"
  shows "pages_left (Some (job_id (fst (last page)))) s' < pages_left after s"
proof -
  obtain js where js: "unfinished_jobs (store s) = Inr js"
    and page: "page = take n (filter (\<lambda>p. case after of None \<Rightarrow> True | Some i \<Rightarrow> job_id (fst p) > i) js)"
    using store_read_cases [OF assms(1)] by (auto simp: unfinished_jobs_page_def split: sum.splits)
  let ?P = "\<lambda>p :: job \<times> task list. case after of None \<Rightarrow> True | Some i \<Rightarrow> job_id (fst p) > i"
  let ?Q = "\<lambda>p :: job \<times> task list. job_id (fst p) > job_id (fst (last page))"
  have "last page \<in> set page" using assms(2) by simp
  then have "last page \<in> set (filter ?P js)" unfolding page by (meson in_set_takeD)
  then have last: "last page \<in> set js" "?P (last page)" by auto
  have "filter ?Q js = filter ?Q (filter ?P js)"
    using last(2) by (auto simp: filter_filter intro!: filter_cong split: option.splits)
  moreover have "length (filter ?Q (filter ?P js)) < length (filter ?P js)"
    using last by (intro length_filter_less [of "last page"]) auto
  ultimately show ?thesis
    using js store_read_cases(1) [OF assms(1)] by (simp add: pages_left_def)
qed

function collect_pages :: "jobid option \<Rightarrow> (jobid, job \<times> task list) btree \<Rightarrow> supervisor \<Rightarrow>
    (jobid, job \<times> task list) btree \<times> supervisor" where
  "collect_pages after restored s =
     (case store_read (unfinished_jobs_page after PAGE) s of
        (Inl _, s') \<Rightarrow> (restored, s')
      | (Inr page, s') \<Rightarrow>
          if page = [] then (restored, s')
          else if length page = PAGE
          then collect_pages (Some (job_id (fst (last page))))
                 (foldl (\<lambda>m p. bt_insert (job_id (fst p)) p m) restored page) s'
          else (foldl (\<lambda>m p. bt_insert (job_id (fst p)) p m) restored page, s'))"
  by auto
termination
proof (relation "measure (\<lambda>(after, _, s). pages_left after s)")
  fix after restored s r s' page
  assume "(r, s') = store_read (unfinished_jobs_page after PAGE) s" "r = Inr page" "page \<noteq> []" "length page = PAGE"
  then show "((Some (job_id (fst (last page))), foldl (\<lambda>m p. bt_insert (job_id (fst p)) p m) restored page, s'),
      after, restored, s) \<in> measure (\<lambda>(after, _, s). pages_left after s)"
    using page_left_smaller [of after PAGE s page s'] by simp
qed simp

declare collect_pages.simps [simp del]

text \<open>The recent jobs with their tasks; a job whose tasks cannot be read is kept with none.\<close>

fun collect_recent :: "job list \<Rightarrow> (jobid, job \<times> task list) btree \<Rightarrow> supervisor \<Rightarrow>
    (jobid, job \<times> task list) btree \<times> supervisor" where
  "collect_recent [] restored s = (restored, s)"
| "collect_recent (j # js) restored s =
     (case store_read (tasks_for_job (job_id j)) s of
        (r, s) \<Rightarrow> collect_recent js (bt_insert (job_id j) (j, or_default r) restored) s)"

definition restore_task :: "bool \<Rightarrow> millis \<Rightarrow> supervisor \<Rightarrow> task \<Rightarrow> supervisor" where
  "restore_task unfinished now s t =
     (if unfinished \<and> \<not> task_terminal (task_state t)
      then let t = t\<lparr>task_state := TaskQueued, assigned_to := None, updated_at := now\<rparr>;
               s = snd (store_write (save_task t) s);
               s = s\<lparr>queue := queue s @ [task_id t]\<rparr>
           in s\<lparr>tasks := bt_insert (task_id t) t (tasks s)\<rparr>
      else s\<lparr>tasks := bt_insert (task_id t) t (tasks s)\<rparr>)"

definition restore_job :: "millis \<Rightarrow> supervisor \<Rightarrow> job \<times> task list \<Rightarrow> supervisor" where
  "restore_job now s p =
     (case p of (j, ts) \<Rightarrow>
        foldl (restore_task (\<not> job_terminal (job_state j)) now)
          (s\<lparr>jobs := bt_insert (job_id j) j (jobs s)\<rparr>) ts)"

definition restore_jobs :: "supervisor \<Rightarrow> supervisor" where
  "restore_jobs s =
     (case store_read (recent_jobs (job_buffer (cfg s))) s of
        (Inl _, s) \<Rightarrow> s
      | (Inr recent, s) \<Rightarrow>
          (case read_clock s of (now, s) \<Rightarrow>
             (case collect_recent recent [] s of (restored, s) \<Rightarrow>
                (case collect_pages None restored s of (restored, s) \<Rightarrow>
                   let recovered = length (filter (\<lambda>p. \<not> job_terminal (job_state (fst p))) (bt_values restored));
                       s = s\<lparr>jobs_recovered := jobs_recovered s + recovered\<rparr>
                   in foldl (restore_job now) s (bt_values restored)))))"

text \<open>Roles are stored and in-process nodes launched, one node after the other.\<close>

definition boot_node :: "supervisor \<Rightarrow> nodeid \<Rightarrow> supervisor" where
  "boot_node s i =
     (case bt_get (nodes s) i of
        None \<Rightarrow> s
      | Some e \<Rightarrow>
          let s = persist_roles i (node_roles (entry_node e)) s
          in if entry_kind e = Simulated then emit (EvNodeJoined i) (launch_node i s) else s)"

text \<open>\<open>None\<close>: indexing an empty list of profiles panics.\<close>

definition bootstrap :: "election \<Rightarrow> supervisor \<Rightarrow> supervisor option" where
  "bootstrap el s =
     (case store_read last_seq s of (r, s) \<Rightarrow>
        let s = s\<lparr>event_seq := (case r of Inl _ \<Rightarrow> 0 | Inr n \<Rightarrow> n)\<rparr>
        in case read_clock s of (now, s) \<Rightarrow>
             if profiles (cfg s) = [] \<and> node_count (cfg s) > 0 then None
             else
               let s = s\<lparr>nodes := assign_initial_roles (cfg s) (initial_nodes (cfg s) now)\<rparr>;
                   s = restore_roles s;
                   s = foldl boot_node s (bt_keys (nodes s));
                   s = restore_jobs s
               in Some (refresh_leadership el s))"

definition shutdown_handles :: "supervisor \<Rightarrow> supervisor" where
  "shutdown_handles s =
     s\<lparr>terminated := terminated s @ List.map_filter entry_handle (bt_values (nodes s)), nodes := []\<rparr>"

section \<open>The event loop\<close>

datatype command =
    CmdSnapshot
  | CmdNodes
  | CmdNode nodeid
  | CmdEvents nat
  | CmdJobs nat
  | CmdJob jobid
  | CmdSubmitJob jobspec
  | CmdSetRole nodeid role bool
  | CmdStopNode nodeid
  | CmdStartNode nodeid
  | CmdPauseHeartbeat nodeid bool
  | CmdInjectFailures nodeid nat
  | CmdSetTaskDelay nodeid nat
  | CmdAttachRemote "nodeid option" node_capabilities handle
  | CmdDetachRemote nodeid nat

datatype reply =
    RepSnapshot cluster_snapshot
  | RepNodes "node list"
  | RepNode "node option"
  | RepEvents "event_record list"
  | RepJobs "job list"
  | RepJob "job_detail option"
  | RepJobId "cluster_error + jobid"
  | RepUnit "cluster_error + unit"
  | RepAttachment "reject_reason + attachment"
  | RepNothing

fun handle_command :: "selection \<Rightarrow> election \<Rightarrow> command \<Rightarrow> supervisor \<Rightarrow> reply \<times> supervisor" where
  "handle_command sel el CmdSnapshot s = (RepSnapshot (snapshot s), s)"
| "handle_command sel el CmdNodes s = (RepNodes (map entry_node (bt_values (nodes s))), s)"
| "handle_command sel el (CmdNode i) s = (RepNode (map_option entry_node (bt_get (nodes s) i)), s)"
| "handle_command sel el (CmdEvents limit) s = (RepEvents (take limit (rev (events s))), s)"
| "handle_command sel el (CmdJobs limit) s =
     (RepJobs (take limit (sort_key (\<lambda>j. - int (job_id j)) (bt_values (jobs s)))), s)"
| "handle_command sel el (CmdJob i) s = map_prod RepJob id (job_detail i s)"
| "handle_command sel el (CmdSubmitJob spec) s = map_prod RepJobId id (submit_job sel spec s)"
| "handle_command sel el (CmdSetRole n r enabled) s = map_prod RepUnit id (set_role el n r enabled s)"
| "handle_command sel el (CmdStopNode i) s = map_prod RepUnit id (stop_node sel el i s)"
| "handle_command sel el (CmdStartNode i) s = map_prod RepUnit id (start_node sel el i s)"
| "handle_command sel el (CmdPauseHeartbeat i paused) s = map_prod RepUnit id (pause_heartbeat i paused s)"
| "handle_command sel el (CmdInjectFailures i n) s = map_prod RepUnit id (send_to_node i (InInjectFailures n) s)"
| "handle_command sel el (CmdSetTaskDelay i ms) s = map_prod RepUnit id (send_to_node i (InSetDelay ms) s)"
| "handle_command sel el (CmdAttachRemote asked caps conn) s =
     map_prod RepAttachment id (attach_remote sel el asked caps conn s)"
| "handle_command sel el (CmdDetachRemote i generation) s = (RepNothing, detach_remote sel el i generation s)"

text \<open>
  What the loop of \<open>run\<close> does next: a command, a report from a node, a tick; and beside it the write queue's
  drainer applies its oldest write, which the database may refuse.
\<close>

datatype loop_input = InCommand command | InReport node_report | InTick | InDrain bool

definition drain_one :: "bool \<Rightarrow> supervisor \<Rightarrow> supervisor" where
  "drain_one refused s =
     (case writes s of
        [] \<Rightarrow> s
      | w # ws \<Rightarrow>
          (case (if refused then Inl (Backend []) else apply_write w (store s)) of
             Inl _ \<Rightarrow> s\<lparr>writes := ws\<rparr>
           | Inr st \<Rightarrow> s\<lparr>writes := ws, store := st\<rparr>))"

fun run_one :: "selection \<Rightarrow> election \<Rightarrow> loop_input \<Rightarrow> supervisor \<Rightarrow> supervisor" where
  "run_one sel el (InCommand c) s = snd (handle_command sel el c s)"
| "run_one sel el (InReport r) s = handle_report sel r s"
| "run_one sel el InTick s = tick sel el s"
| "run_one sel el (InDrain refused) s = drain_one refused s"

text \<open>Inputs whose numbers are within their Rust widths: the only one that matters is the \<open>u16\<close> task count.\<close>

fun input_fits :: "loop_input \<Rightarrow> bool" where
  "input_fits (InCommand (CmdSubmitJob spec)) = (task_count spec \<le> u16_max)"
| "input_fits _ = True"

inductive reachable :: "selection \<Rightarrow> election \<Rightarrow> supervisor \<Rightarrow> supervisor \<Rightarrow> bool"
  for sel :: selection and el :: election where
  reach_boot: "bootstrap el s0 = Some s \<Longrightarrow> reachable sel el s0 s"
| reach_step: "reachable sel el s0 s \<Longrightarrow> input_fits i \<Longrightarrow> reachable sel el s0 (run_one sel el i s)"

end
