(* ===== verification/Board.thy ===== *)
theory Board
  imports Jobs
begin

text \<open>
  The abstract specification of what the supervisor does to work: a board of jobs and tasks with a queue,
  and the steps that may change it. A step is what one decision of the supervisor amounts to, with the
  conditions under which it is allowed; the theory of the supervisor shows that its handlers only ever
  take such steps. The invariant says that no task is lost, duplicated or run on two nodes, and that a
  job's counters and state are those of its tasks.
\<close>

section \<open>Boards\<close>

record board =
  b_jobs :: "(jobid, job) btree"
  b_tasks :: "(taskid, task) btree"
  b_queue :: "taskid list"

definition active :: "task \<Rightarrow> bool" where
  "active t \<longleftrightarrow> task_state t = TaskAssigned \<or> task_state t = TaskRunning"

definition idle :: "nodeid \<Rightarrow> board \<Rightarrow> bool" where
  "idle n b \<longleftrightarrow> (\<forall>t\<in>set (bt_values (b_tasks b)). active t \<longrightarrow> assigned_to t \<noteq> Some n)"

text \<open>A job as its first task is placed; and as its last task settles, which ends it.\<close>

definition started_job :: "millis \<Rightarrow> job \<Rightarrow> job" where
  "started_job at j =
     (if job_state j = JobQueued
      then (case job_transition_to JobRunning at j of Inr j' \<Rightarrow> j' | Inl _ \<Rightarrow> j)
      else j)"

definition settled_job :: "millis \<Rightarrow> job \<Rightarrow> job" where
  "settled_job at j =
     (if tasks_completed j + tasks_failed j < job_task_count j \<or> job_terminal (job_state j) then j
      else (case job_transition_to (if tasks_failed j > 0 then JobFailed else JobCompleted) at j of
              Inr j' \<Rightarrow> j' | Inl _ \<Rightarrow> j))"

definition completed_one :: "job \<Rightarrow> job" where
  "completed_one j = j\<lparr>tasks_completed := sat_add u16_max (tasks_completed j) 1\<rparr>"

definition failed_one :: "job \<Rightarrow> job" where
  "failed_one j = j\<lparr>tasks_failed := sat_add u16_max (tasks_failed j) 1\<rparr>"

definition update_job :: "(job \<Rightarrow> job) \<Rightarrow> jobid \<Rightarrow> (jobid, job) btree \<Rightarrow> (jobid, job) btree" where
  "update_job f i js = (case bt_get js i of None \<Rightarrow> js | Some j \<Rightarrow> bt_insert i (f j) js)"

section \<open>Steps\<close>

inductive board_step :: "nat \<Rightarrow> board \<Rightarrow> board \<Rightarrow> bool" for max_attempts :: nat where
  step_drop: "b_queue b = t # q \<Longrightarrow> bt_get (b_tasks b) t = None \<Longrightarrow>
    board_step max_attempts b (b\<lparr>b_queue := q\<rparr>)"
| step_place: "b_queue b = t # q \<Longrightarrow> bt_get (b_tasks b) t = Some x \<Longrightarrow> idle n b \<Longrightarrow> assign n at x = Inr y \<Longrightarrow>
    board_step max_attempts b (b\<lparr>b_tasks := bt_insert t y (b_tasks b), b_queue := q,
      b_jobs := update_job (started_job at') (task_job x) (b_jobs b)\<rparr>)"
| step_refuse: "b_queue b = t # q \<Longrightarrow> bt_get (b_tasks b) t = Some x \<Longrightarrow> assign n at x = Inr y \<Longrightarrow>
    requeue at y = Inr z \<Longrightarrow>
    board_step max_attempts b (b\<lparr>b_tasks := bt_insert t z (b_tasks b)\<rparr>)"
| step_start: "bt_get (b_tasks b) t = Some x \<Longrightarrow> start at x = Inr y \<Longrightarrow>
    board_step max_attempts b (b\<lparr>b_tasks := bt_insert t y (b_tasks b)\<rparr>)"
| step_complete: "bt_get (b_tasks b) t = Some x \<Longrightarrow> complete out at x = Inr y \<Longrightarrow>
    board_step max_attempts b (b\<lparr>b_tasks := bt_insert t y (b_tasks b),
      b_jobs := update_job (settled_job at' \<circ> completed_one) (task_job x) (b_jobs b)\<rparr>)"
| step_retry: "bt_get (b_tasks b) t = Some x \<Longrightarrow> active x \<Longrightarrow> attempt x < max_attempts \<Longrightarrow>
    requeue at x = Inr y \<Longrightarrow>
    board_step max_attempts b (b\<lparr>b_tasks := bt_insert t y (b_tasks b), b_queue := b_queue b @ [t]\<rparr>)"
| step_give_up: "bt_get (b_tasks b) t = Some x \<Longrightarrow> max_attempts \<le> attempt x \<Longrightarrow> fail at x = Inr y \<Longrightarrow>
    board_step max_attempts b (b\<lparr>b_tasks := bt_insert t y (b_tasks b),
      b_jobs := update_job (settled_job at' \<circ> failed_one) (task_job x) (b_jobs b)\<rparr>)"
| step_submit: "bt_get (b_jobs b) (job_id j) = None \<Longrightarrow> j = new_job (job_id j) spec at \<Longrightarrow>
    job_task_count j = length ts \<Longrightarrow> job_task_count j \<le> u16_max \<Longrightarrow>
    distinct (map task_id ts) \<Longrightarrow>
    (\<forall>x\<in>set ts. task_job x = job_id j \<and> task_state x = TaskQueued \<and> task_wf x \<and>
       bt_get (b_tasks b) (task_id x) = None \<and> task_id x \<notin> set (b_queue b)) \<Longrightarrow>
    board_step max_attempts b (b\<lparr>b_jobs := bt_insert (job_id j) j (b_jobs b),
      b_tasks := foldl (\<lambda>m x. bt_insert (task_id x) x m) (b_tasks b) ts,
      b_queue := b_queue b @ map task_id ts\<rparr>)"
| step_forget: "(\<forall>i\<in>set gone. \<forall>j. bt_get (b_jobs b) i = Some j \<longrightarrow> job_terminal (job_state j)) \<Longrightarrow>
    board_step max_attempts b (b\<lparr>b_jobs := foldl (\<lambda>m i. bt_remove i m) (b_jobs b) gone,
      b_tasks := bt_retain (\<lambda>x. task_job x \<notin> set gone) (b_tasks b)\<rparr>)"

definition board_steps :: "nat \<Rightarrow> board \<Rightarrow> board \<Rightarrow> bool" where
  "board_steps m = (board_step m)\<^sup>*\<^sup>*"

section \<open>The invariant\<close>

definition of_job :: "jobid \<Rightarrow> task \<Rightarrow> bool" where
  "of_job i t \<longleftrightarrow> task_job t = i"

definition tally :: "task_state \<Rightarrow> jobid \<Rightarrow> (taskid, task) btree \<Rightarrow> nat" where
  "tally st i m = bt_count (\<lambda>t. of_job i t \<and> task_state t = st) m"

definition job_matches :: "board \<Rightarrow> job \<Rightarrow> bool" where
  "job_matches b j \<longleftrightarrow>
     job_task_count j = bt_count (of_job (job_id j)) (b_tasks b) \<and>
     tasks_completed j = tally TaskCompleted (job_id j) (b_tasks b) \<and>
     tasks_failed j = tally TaskFailed (job_id j) (b_tasks b) \<and>
     1 \<le> job_task_count j \<and> job_task_count j \<le> u16_max \<and>
     (job_state j = JobCompleted \<longleftrightarrow> tasks_completed j = job_task_count j) \<and>
     (job_state j = JobFailed \<longleftrightarrow>
        tasks_completed j + tasks_failed j = job_task_count j \<and> 0 < tasks_failed j) \<and>
     (job_state j = JobQueued \<longrightarrow> tally TaskQueued (job_id j) (b_tasks b) = job_task_count j) \<and>
     job_state j \<noteq> JobCancelled"

definition tables_ok :: "board \<Rightarrow> bool" where
  "tables_ok b \<longleftrightarrow> bt_wf (b_jobs b) \<and> bt_wf (b_tasks b) \<and>
     (\<forall>i j. bt_get (b_jobs b) i = Some j \<longrightarrow> job_id j = i) \<and>
     (\<forall>i t. bt_get (b_tasks b) i = Some t \<longrightarrow> task_id t = i \<and> task_wf t \<and>
        bt_get (b_jobs b) (task_job t) \<noteq> None)"

definition queue_ok :: "board \<Rightarrow> bool" where
  "queue_ok b \<longleftrightarrow> distinct (b_queue b) \<and>
     (\<forall>i t. bt_get (b_tasks b) i = Some t \<longrightarrow> (i \<in> set (b_queue b) \<longleftrightarrow> task_state t = TaskQueued))"

definition exclusive :: "board \<Rightarrow> bool" where
  "exclusive b \<longleftrightarrow> (\<forall>i j x y. bt_get (b_tasks b) i = Some x \<longrightarrow> bt_get (b_tasks b) j = Some y \<longrightarrow>
     active x \<longrightarrow> active y \<longrightarrow> assigned_to x = assigned_to y \<longrightarrow> i = j)"

definition jobs_ok :: "board \<Rightarrow> bool" where
  "jobs_ok b \<longleftrightarrow> (\<forall>i j. bt_get (b_jobs b) i = Some j \<longrightarrow> job_matches b j)"

definition exhausted_ok :: "nat \<Rightarrow> board \<Rightarrow> bool" where
  "exhausted_ok m b \<longleftrightarrow> (\<forall>i t. bt_get (b_tasks b) i = Some t \<longrightarrow> task_state t = TaskFailed \<longrightarrow> m \<le> attempt t)"

definition board_inv :: "nat \<Rightarrow> board \<Rightarrow> bool" where
  "board_inv m b \<longleftrightarrow> tables_ok b \<and> queue_ok b \<and> exclusive b \<and> jobs_ok b \<and> exhausted_ok m b"

lemma board_inv_empty: "board_inv m \<lparr> b_jobs = [], b_tasks = [], b_queue = [] \<rparr>"
  by (simp add: board_inv_def tables_ok_def queue_ok_def exclusive_def jobs_ok_def exhausted_ok_def)

section \<open>Counting tasks\<close>

lemma tally_sum:
  "bt_count (of_job i) m = tally TaskQueued i m + tally TaskAssigned i m + tally TaskRunning i m +
     tally TaskCompleted i m + tally TaskFailed i m"
proof (induction m)
  case (Cons p m)
  obtain k t where p: "p = (k, t)" by (cases p)
  show ?case using Cons unfolding tally_def p by (cases "task_state t") (auto simp: bt_count_Cons)
qed (simp add: tally_def)

lemma tally_insert:
  assumes "bt_wf m" "bt_get m k = Some x" "task_job y = task_job x"
  shows "tally st i (bt_insert k y m) + of_bool (task_job x = i \<and> task_state x = st) =
    tally st i m + of_bool (task_job x = i \<and> task_state y = st)"
  using bt_count_insert_old [OF assms(1,2), of "\<lambda>t. of_job i t \<and> task_state t = st" y] assms(3)
  by (simp add: tally_def of_job_def)

lemma total_insert:
  assumes "bt_wf m" "bt_get m k = Some x" "task_job y = task_job x"
  shows "bt_count (of_job i) (bt_insert k y m) = bt_count (of_job i) m"
  using bt_count_insert_old [OF assms(1,2), of "of_job i" y] assms(3) by (simp add: of_job_def)

lemma tally_pos:
  assumes "bt_wf m" "bt_get m k = Some x"
  shows "0 < tally (task_state x) (task_job x) m"
proof -
  have "x \<in> set (bt_values m)" using assms(2) bt_values_get [OF assms(1), of x] by metis
  then show ?thesis using bt_count_zero [of "\<lambda>t. of_job (task_job x) t \<and> task_state t = task_state x" m]
    by (auto simp: tally_def of_job_def)
qed

lemma tally_of_bool:
  assumes "bt_wf m" "bt_get m k = Some x" "task_job y = task_job x"
  shows "tally st i (bt_insert k y m) =
    (tally st i m + (if task_job x = i \<and> task_state y = st then 1 else 0)) -
       (if task_job x = i \<and> task_state x = st then 1 else 0)"
  using tally_insert [OF assms, of st i] by (auto split: if_splits)

section \<open>Changing one task\<close>

lemma update_job_get:
  "bt_get (update_job f i js) k = (if k = i then map_option f (bt_get js k) else bt_get js k)"
  by (auto simp: update_job_def split: option.splits)

lemma update_job_wf [simp]: "bt_wf js \<Longrightarrow> bt_wf (update_job f i js)"
  by (auto simp: update_job_def split: option.splits)

lemma job_fun_ids [simp]:
  "job_id (started_job at j) = job_id j" "job_id (settled_job at j) = job_id j"
  "job_id (completed_one j) = job_id j" "job_id (failed_one j) = job_id j"
  "job_task_count (started_job at j) = job_task_count j"
  "job_task_count (settled_job at j) = job_task_count j"
  "tasks_completed (started_job at j) = tasks_completed j" "tasks_failed (started_job at j) = tasks_failed j"
  "tasks_completed (settled_job at j) = tasks_completed j" "tasks_failed (settled_job at j) = tasks_failed j"
  by (auto simp: started_job_def settled_job_def completed_one_def failed_one_def job_transition_to_def
      Let_def split: sum.splits)

lemma tables_ok_task:
  assumes "tables_ok b" "bt_get (b_tasks b) t = Some x" "task_id y = task_id x" "task_job y = task_job x"
    "task_wf y" "\<And>j. job_id (f j) = job_id j"
  shows "tables_ok (b\<lparr>b_tasks := bt_insert t y (b_tasks b), b_queue := q, b_jobs := update_job f i (b_jobs b)\<rparr>)"
  using assms unfolding tables_ok_def by (auto simp: update_job_get split: if_splits)

lemma tables_ok_task':
  assumes "tables_ok b" "bt_get (b_tasks b) t = Some x" "task_id y = task_id x" "task_job y = task_job x"
    "task_wf y"
  shows "tables_ok (b\<lparr>b_tasks := bt_insert t y (b_tasks b), b_queue := q\<rparr>)"
  using assms unfolding tables_ok_def by auto

lemma exclusive_task:
  assumes "exclusive b" "bt_get (b_tasks b) t = Some x"
    and "active y \<Longrightarrow> (active x \<and> assigned_to y = assigned_to x) \<or> (\<exists>n. assigned_to y = Some n \<and> idle n b)"
    and "bt_wf (b_tasks b)"
  shows "exclusive (b\<lparr>b_tasks := bt_insert t y (b_tasks b), b_queue := q, b_jobs := js\<rparr>)"
proof -
  have "assigned_to y \<noteq> assigned_to z" if h: "active y" "active z" "bt_get (b_tasks b) k = Some z" "k \<noteq> t" for k z
  proof (cases "active x \<and> assigned_to y = assigned_to x")
    case True
    then show ?thesis using assms(1,2) h unfolding exclusive_def by metis
  next
    case False
    then obtain n where n: "assigned_to y = Some n" "idle n b" using assms(3) [OF h(1)] by blast
    moreover have "z \<in> set (bt_values (b_tasks b))" using h(3) bt_values_get [OF assms(4), of z] by metis
    ultimately show ?thesis using h by (auto simp: idle_def)
  qed
  then show ?thesis using assms(1) unfolding exclusive_def by (auto split: if_splits) metis+
qed

lemma exhausted_task:
  assumes "exhausted_ok m b" "task_state y = TaskFailed \<Longrightarrow> m \<le> attempt y"
  shows "exhausted_ok m (b\<lparr>b_tasks := bt_insert t y (b_tasks b), b_queue := q, b_jobs := js\<rparr>)"
  using assms by (auto simp: exhausted_ok_def)

text \<open>Jobs whose tasks did not change still match.\<close>

lemma job_matches_other:
  assumes "job_matches b j" "bt_wf (b_tasks b)" "bt_get (b_tasks b) t = Some x" "task_job y = task_job x"
    and "job_id j \<noteq> task_job x"
  shows "job_matches (b\<lparr>b_tasks := bt_insert t y (b_tasks b), b_queue := q, b_jobs := js\<rparr>) j"
  using assms(1) tally_of_bool [OF assms(2-4)] total_insert [OF assms(2-4)] assms(5)
  by (simp add: job_matches_def)

lemma job_of_running_task:
  assumes "job_matches b j" "bt_wf (b_tasks b)" "bt_get (b_tasks b) t = Some x" "job_id j = task_job x" "active x"
  shows "job_state j = JobRunning \<and> tasks_completed j + tasks_failed j < job_task_count j"
proof -
  have "0 < tally (task_state x) (task_job x) (b_tasks b)" using assms(2,3) by (rule tally_pos)
  then have "tasks_completed j + tasks_failed j + tally TaskQueued (job_id j) (b_tasks b) < job_task_count j"
    using assms(1,4,5) tally_sum [of "job_id j" "b_tasks b"] unfolding job_matches_def active_def
    by (elim disjE) simp_all
  then show ?thesis using assms(1) unfolding job_matches_def by (cases "job_state j") simp_all
qed

lemma job_of_queued_task:
  assumes "job_matches b j" "bt_wf (b_tasks b)" "bt_get (b_tasks b) t = Some x" "job_id j = task_job x"
    "task_state x = TaskQueued"
  shows "tasks_completed j + tasks_failed j < job_task_count j \<and> job_state j \<in> {JobQueued, JobRunning}"
proof -
  have "0 < tally (task_state x) (task_job x) (b_tasks b)" using assms(2,3) by (rule tally_pos)
  then have "tasks_completed j + tasks_failed j < job_task_count j"
    using assms(1,4,5) tally_sum [of "job_id j" "b_tasks b"] unfolding job_matches_def by simp
  then show ?thesis using assms(1) unfolding job_matches_def by (cases "job_state j") simp_all
qed

lemma jobs_ok_task:
  assumes "jobs_ok b" "tables_ok b" "bt_get (b_tasks b) t = Some x" "task_job y = task_job x"
    and "\<And>j. bt_get (b_jobs b) (task_job x) = Some j \<Longrightarrow> job_id j = task_job x \<Longrightarrow> job_matches b j \<Longrightarrow>
       job_matches (b\<lparr>b_tasks := bt_insert t y (b_tasks b), b_queue := q,
         b_jobs := update_job f (task_job x) (b_jobs b)\<rparr>) (f j)"
  shows "jobs_ok (b\<lparr>b_tasks := bt_insert t y (b_tasks b), b_queue := q,
     b_jobs := update_job f (task_job x) (b_jobs b)\<rparr>)"
proof -
  let ?b = "b\<lparr>b_tasks := bt_insert t y (b_tasks b), b_queue := q, b_jobs := update_job f (task_job x) (b_jobs b)\<rparr>"
  have wf: "bt_wf (b_tasks b)" and ids: "\<And>i j. bt_get (b_jobs b) i = Some j \<Longrightarrow> job_id j = i"
    using assms(2) by (auto simp: tables_ok_def)
  have m: "\<And>i j. bt_get (b_jobs b) i = Some j \<Longrightarrow> job_matches b j" using assms(1) by (auto simp: jobs_ok_def)
  show ?thesis unfolding jobs_ok_def
  proof (intro allI impI)
    fix i j
    assume j: "bt_get (b_jobs ?b) i = Some j"
    show "job_matches ?b j"
    proof (cases "i = task_job x")
      case True
      then obtain j0 where "bt_get (b_jobs b) (task_job x) = Some j0" "j = f j0"
        using j by (auto simp: update_job_get)
      then show ?thesis using assms(5) ids m by blast
    next
      case False
      then have "bt_get (b_jobs b) i = Some j" using j by (simp add: update_job_get)
      then show ?thesis using job_matches_other [OF _ wf assms(3,4)] ids m False by metis
    qed
  qed
qed

section \<open>Every step keeps the invariant\<close>

lemma started_job_state:
  "job_state (started_job at j) = (if job_state j = JobQueued then JobRunning else job_state j)"
  by (simp add: started_job_def job_transition_to_def Let_def)

lemma settled_job_running:
  assumes "job_state j = JobRunning"
  shows "job_state (settled_job at j) =
    (if tasks_completed j + tasks_failed j < job_task_count j then JobRunning
     else if tasks_failed j > 0 then JobFailed else JobCompleted)"
  using assms by (auto simp: settled_job_def job_transition_to_def Let_def)

lemma job_matches_place:
  assumes "job_matches b j" "bt_wf (b_tasks b)" "bt_get (b_tasks b) t = Some x" "job_id j = task_job x"
    "task_state x = TaskQueued" "task_state y = TaskAssigned" "task_job y = task_job x"
  shows "job_matches (b\<lparr>b_tasks := bt_insert t y (b_tasks b), b_queue := q, b_jobs := js\<rparr>) (started_job at j)"
  using assms(1) job_of_queued_task [OF assms(1-5)] tally_of_bool [OF assms(2,3,7)] total_insert [OF assms(2,3,7)]
    assms(4-7) by (auto simp: job_matches_def started_job_state)

lemma job_matches_same:
  assumes "job_matches b j" "bt_wf (b_tasks b)" "bt_get (b_tasks b) t = Some x" "job_id j = task_job x"
    "task_job y = task_job x" "task_state y = task_state x \<or> active x \<and> active y"
  shows "job_matches (b\<lparr>b_tasks := bt_insert t y (b_tasks b), b_queue := q, b_jobs := js\<rparr>) j"
proof -
  have "tally st i (bt_insert t y (b_tasks b)) = tally st i (b_tasks b)"
    if "st \<in> {TaskQueued, TaskCompleted, TaskFailed}" for st i
    using tally_insert [OF assms(2,3,5), of st i] assms(6) that by (auto simp: active_def)
  then show ?thesis using assms(1) total_insert [OF assms(2,3,5)] by (simp add: job_matches_def)
qed

lemma job_matches_retry:
  assumes "job_matches b j" "bt_wf (b_tasks b)" "bt_get (b_tasks b) t = Some x" "job_id j = task_job x"
    "active x" "task_state y = TaskQueued" "task_job y = task_job x"
  shows "job_matches (b\<lparr>b_tasks := bt_insert t y (b_tasks b), b_queue := q, b_jobs := js\<rparr>) j"
  using assms(1) job_of_running_task [OF assms(1-5)] tally_of_bool [OF assms(2,3,7)] total_insert [OF assms(2,3,7)]
    assms(4-7) by (auto simp: job_matches_def active_def)

lemma job_matches_complete:
  assumes "job_matches b j" "bt_wf (b_tasks b)" "bt_get (b_tasks b) t = Some x" "job_id j = task_job x"
    "active x" "task_state y = TaskCompleted" "task_job y = task_job x"
  shows "job_matches (b\<lparr>b_tasks := bt_insert t y (b_tasks b), b_queue := q, b_jobs := js\<rparr>)
    (settled_job at (completed_one j))"
proof -
  have run: "job_state j = JobRunning" "tasks_completed j + tasks_failed j < job_task_count j"
    using job_of_running_task [OF assms(1-5)] by auto
  have le: "job_task_count j \<le> u16_max" using assms(1) by (simp add: job_matches_def)
  have one: "tasks_completed (completed_one j) = tasks_completed j + 1" "tasks_failed (completed_one j) = tasks_failed j"
    "job_task_count (completed_one j) = job_task_count j" "job_state (completed_one j) = JobRunning"
    using run le by (simp_all add: completed_one_def sat_add_def)
  note st = settled_job_running [OF one(4), of at, unfolded one(1-3)]
  show ?thesis
    using assms(1) run le tally_of_bool [OF assms(2,3,7)] total_insert [OF assms(2,3,7)] assms(4-7)
    unfolding job_matches_def by (auto simp: st one active_def split: if_splits)
qed

lemma job_matches_give_up:
  assumes "job_matches b j" "bt_wf (b_tasks b)" "bt_get (b_tasks b) t = Some x" "job_id j = task_job x"
    "active x" "task_state y = TaskFailed" "task_job y = task_job x"
  shows "job_matches (b\<lparr>b_tasks := bt_insert t y (b_tasks b), b_queue := q, b_jobs := js\<rparr>)
    (settled_job at (failed_one j))"
proof -
  have run: "job_state j = JobRunning" "tasks_completed j + tasks_failed j < job_task_count j"
    using job_of_running_task [OF assms(1-5)] by auto
  have le: "job_task_count j \<le> u16_max" using assms(1) by (simp add: job_matches_def)
  have one: "tasks_failed (failed_one j) = tasks_failed j + 1" "tasks_completed (failed_one j) = tasks_completed j"
    "job_task_count (failed_one j) = job_task_count j" "job_state (failed_one j) = JobRunning"
    using run le by (simp_all add: failed_one_def sat_add_def)
  note st = settled_job_running [OF one(4), of at, unfolded one(1-3)]
  show ?thesis
    using assms(1) run le tally_of_bool [OF assms(2,3,7)] total_insert [OF assms(2,3,7)] assms(4-7)
    unfolding job_matches_def by (auto simp: st one active_def split: if_splits)
qed

lemma update_job_same: "bt_wf js \<Longrightarrow> update_job (\<lambda>j. j) i js = js"
  by (auto simp: update_job_def bt_insert_same split: option.split)

lemma board_invE:
  assumes "board_inv m b"
  obtains "tables_ok b" "queue_ok b" "exclusive b" "jobs_ok b" "exhausted_ok m b" "bt_wf (b_tasks b)" "bt_wf (b_jobs b)"
  using assms by (auto simp: board_inv_def tables_ok_def)

text \<open>
  The general form of a step that changes one task: what it owes for the invariant to survive. The
  obligation on the job is the only one about counting.
\<close>

lemma board_inv_task:
  assumes inv: "board_inv m b" and x: "bt_get (b_tasks b) t = Some x"
    and op: "task_id y = task_id x" "task_job y = task_job x" "task_wf y"
    and queue: "queue_ok (b\<lparr>b_tasks := bt_insert t y (b_tasks b), b_queue := q\<rparr>)"
    and excl: "active y \<Longrightarrow> (active x \<and> assigned_to y = assigned_to x) \<or> (\<exists>n. assigned_to y = Some n \<and> idle n b)"
    and exh: "task_state y = TaskFailed \<Longrightarrow> m \<le> attempt y"
    and job: "\<And>j js. job_id j = task_job x \<Longrightarrow> job_matches b j \<Longrightarrow>
       job_matches (b\<lparr>b_tasks := bt_insert t y (b_tasks b), b_queue := q, b_jobs := js\<rparr>) (f j)"
    and ids: "\<And>j. job_id (f j) = job_id j"
  shows "board_inv m (b\<lparr>b_tasks := bt_insert t y (b_tasks b), b_queue := q,
     b_jobs := update_job f (task_job x) (b_jobs b)\<rparr>)"
proof -
  from inv have ok: "tables_ok b" "exclusive b" "jobs_ok b" "exhausted_ok m b" "bt_wf (b_tasks b)"
    by (auto elim: board_invE)
  have "queue_ok (b\<lparr>b_tasks := bt_insert t y (b_tasks b), b_queue := q,
     b_jobs := update_job f (task_job x) (b_jobs b)\<rparr>)" using queue by (simp add: queue_ok_def)
  then show ?thesis
    unfolding board_inv_def
    using tables_ok_task [OF ok(1) x op ids] exclusive_task [OF ok(2) x excl ok(5)]
      jobs_ok_task [OF ok(3,1) x op(2) job] exhausted_task [OF ok(4) exh] by simp
qed

lemma board_inv_task_only:
  assumes inv: "board_inv m b" and x: "bt_get (b_tasks b) t = Some x"
    and op: "task_id y = task_id x" "task_job y = task_job x" "task_wf y"
    and queue: "queue_ok (b\<lparr>b_tasks := bt_insert t y (b_tasks b), b_queue := q\<rparr>)"
    and excl: "active y \<Longrightarrow> (active x \<and> assigned_to y = assigned_to x) \<or> (\<exists>n. assigned_to y = Some n \<and> idle n b)"
    and exh: "task_state y = TaskFailed \<Longrightarrow> m \<le> attempt y"
    and job: "\<And>j js. job_id j = task_job x \<Longrightarrow> job_matches b j \<Longrightarrow>
       job_matches (b\<lparr>b_tasks := bt_insert t y (b_tasks b), b_queue := q, b_jobs := js\<rparr>) j"
  shows "board_inv m (b\<lparr>b_tasks := bt_insert t y (b_tasks b), b_queue := q\<rparr>)"
proof -
  have "b\<lparr>b_tasks := bt_insert t y (b_tasks b), b_queue := q, b_jobs := update_job (\<lambda>j. j) (task_job x) (b_jobs b)\<rparr> =
      b\<lparr>b_tasks := bt_insert t y (b_tasks b), b_queue := q\<rparr>"
    using inv by (auto simp: update_job_same elim!: board_invE)
  then show ?thesis using board_inv_task [OF inv x op queue excl exh, of "\<lambda>j. j"] job by simp
qed

lemma task_op_kept:
  assumes "board_inv m b" "bt_get (b_tasks b) t = Some x" "f \<in> task_ops" "f x = Inr y"
  shows "task_id y = task_id x" "task_job y = task_job x" "task_wf y" "task_id x = t" "task_wf x"
proof -
  have x: "task_wf x" "task_id x = t" using assms(1,2) by (auto elim!: board_invE simp: tables_ok_def)
  then show "task_wf x" "task_id x = t" by auto
  show "task_id y = task_id x" "task_job y = task_job x" using task_op_frame [OF assms(3,4)] by auto
  show "task_wf y" using task_op_wf [OF assms(3) x(1) assms(4)] .
qed

lemma task_ops_mem:
  "assign n at \<in> task_ops" "start at \<in> task_ops" "complete out at \<in> task_ops" "fail at \<in> task_ops"
  "requeue at \<in> task_ops"
  by (auto simp: task_ops_def)

lemma queue_ok_set:
  assumes "queue_ok b" "bt_get (b_tasks b) t = Some x" "distinct q"
    "set q - {t} = set (b_queue b) - {t}" "t \<in> set q \<longleftrightarrow> task_state y = TaskQueued"
  shows "queue_ok (b\<lparr>b_tasks := bt_insert t y (b_tasks b), b_queue := q\<rparr>)"
proof -
  have "i \<in> set q \<longleftrightarrow> i \<in> set (b_queue b)" if "i \<noteq> t" for i using assms(4) that by blast
  then show ?thesis using assms by (simp add: queue_ok_def)
qed

lemma queue_ok_get: "queue_ok b \<Longrightarrow> bt_get (b_tasks b) t = Some x \<Longrightarrow> t \<in> set (b_queue b) \<longleftrightarrow> task_state x = TaskQueued"
  by (simp add: queue_ok_def)

lemma queue_ok_distinct: "queue_ok b \<Longrightarrow> distinct (b_queue b)"
  by (simp add: queue_ok_def)

lemma queue_frame [simp]:
  "tables_ok (b\<lparr>b_queue := q\<rparr>) = tables_ok b" "exclusive (b\<lparr>b_queue := q\<rparr>) = exclusive b"
  "jobs_ok (b\<lparr>b_queue := q\<rparr>) = jobs_ok b" "exhausted_ok m (b\<lparr>b_queue := q\<rparr>) = exhausted_ok m b"
  by (simp_all add: tables_ok_def exclusive_def jobs_ok_def exhausted_ok_def job_matches_def)

lemma inv_drop:
  assumes "board_inv m b" "b_queue b = t # q" "bt_get (b_tasks b) t = None"
  shows "board_inv m (b\<lparr>b_queue := q\<rparr>)"
proof -
  have "queue_ok (b\<lparr>b_queue := q\<rparr>)"
    using assms unfolding board_inv_def queue_ok_def by simp (metis option.distinct(1))
  then show ?thesis using assms by (simp add: board_inv_def)
qed

lemma inv_place:
  assumes inv: "board_inv m b" and q: "b_queue b = t # q" and x: "bt_get (b_tasks b) t = Some x"
    and idle: "idle n b" and y: "assign n at x = Inr y"
  shows "board_inv m (b\<lparr>b_tasks := bt_insert t y (b_tasks b), b_queue := q,
      b_jobs := update_job (started_job at') (task_job x) (b_jobs b)\<rparr>)"
proof (rule board_inv_task [OF inv x])
  note k = task_op_kept [OF inv x task_ops_mem(1) y]
  show "task_id y = task_id x" "task_job y = task_job x" "task_wf y" by (fact k)+
  have st: "task_state x = TaskQueued" "task_state y = TaskAssigned" "assigned_to y = Some n"
    using y by (auto simp: assign_Inr_iff)
  have ok: "queue_ok b" "bt_wf (b_tasks b)" using inv by (auto elim: board_invE)
  show "queue_ok (b\<lparr>b_tasks := bt_insert t y (b_tasks b), b_queue := q\<rparr>)"
    using queue_ok_distinct [OF ok(1)] q st by (intro queue_ok_set [OF ok(1) x]) auto
  show "active x \<and> assigned_to y = assigned_to x \<or> (\<exists>n. assigned_to y = Some n \<and> idle n b)"
    using st idle by simp
  show "m \<le> attempt y" if "task_state y = TaskFailed" using that st by simp
  show "job_matches (b\<lparr>b_tasks := bt_insert t y (b_tasks b), b_queue := q, b_jobs := js\<rparr>) (started_job at' j)"
    if "job_id j = task_job x" "job_matches b j" for j js
    using job_matches_place [OF that(2) ok(2) x that(1) st(1,2) k(2)] .
qed simp

lemma inv_refuse:
  assumes inv: "board_inv m b" and q: "b_queue b = t # q" and x: "bt_get (b_tasks b) t = Some x"
    and y: "assign n at x = Inr y" and z: "requeue at y = Inr z"
  shows "board_inv m (b\<lparr>b_tasks := bt_insert t z (b_tasks b), b_queue := b_queue b\<rparr>)"
proof (rule board_inv_task_only [OF inv x])
  note k = task_op_kept [OF inv x task_ops_mem(1) y]
  have st: "task_state x = TaskQueued" "task_state z = TaskQueued"
    using y z by (auto simp: assign_Inr_iff requeue_Inr_iff)
  have z': "task_id z = task_id y" "task_job z = task_job y"
    using task_op_frame [OF task_ops_mem(5) z] by auto
  show ids: "task_id z = task_id x" "task_job z = task_job x" using z' k by auto
  show "task_wf z" using task_op_wf [OF task_ops_mem(5) k(3) z] .
  have ok: "queue_ok b" "bt_wf (b_tasks b)" using inv by (auto elim: board_invE)
  show "queue_ok (b\<lparr>b_tasks := bt_insert t z (b_tasks b), b_queue := b_queue b\<rparr>)"
    using queue_ok_distinct [OF ok(1)] q st by (intro queue_ok_set [OF ok(1) x]) auto
  show "job_matches (b\<lparr>b_tasks := bt_insert t z (b_tasks b), b_queue := b_queue b, b_jobs := js\<rparr>) j"
    if "job_id j = task_job x" "job_matches b j" for j js
    using st by (intro job_matches_same [OF that(2) ok(2) x that(1) ids(2)]) simp
qed (use y z in \<open>auto simp: requeue_Inr_iff active_def\<close>)

lemma inv_start:
  assumes inv: "board_inv m b" and x: "bt_get (b_tasks b) t = Some x" and y: "start at x = Inr y"
  shows "board_inv m (b\<lparr>b_tasks := bt_insert t y (b_tasks b), b_queue := b_queue b\<rparr>)"
proof (rule board_inv_task_only [OF inv x])
  note k = task_op_kept [OF inv x task_ops_mem(2) y]
  show "task_id y = task_id x" "task_job y = task_job x" "task_wf y" by (fact k)+
  have st: "task_state x = TaskAssigned" "task_state y = TaskRunning" "assigned_to y = assigned_to x"
    using y by (auto simp: start_Inr_iff)
  have ok: "queue_ok b" "bt_wf (b_tasks b)" using inv by (auto elim: board_invE)
  show "queue_ok (b\<lparr>b_tasks := bt_insert t y (b_tasks b), b_queue := b_queue b\<rparr>)"
    using queue_ok_distinct [OF ok(1)] queue_ok_get [OF ok(1) x] st by (intro queue_ok_set [OF ok(1) x]) auto
  show "active x \<and> assigned_to y = assigned_to x \<or> (\<exists>n. assigned_to y = Some n \<and> idle n b)"
    using st by (simp add: active_def)
  show "job_matches (b\<lparr>b_tasks := bt_insert t y (b_tasks b), b_queue := b_queue b, b_jobs := js\<rparr>) j"
    if "job_id j = task_job x" "job_matches b j" for j js
    using st by (intro job_matches_same [OF that(2) ok(2) x that(1) k(2)]) (simp add: active_def)
  show "m \<le> attempt y" if "task_state y = TaskFailed" using that st by simp
qed

lemma inv_complete:
  assumes inv: "board_inv m b" and x: "bt_get (b_tasks b) t = Some x" and y: "complete out at x = Inr y"
  shows "board_inv m (b\<lparr>b_tasks := bt_insert t y (b_tasks b), b_queue := b_queue b,
      b_jobs := update_job (settled_job at' \<circ> completed_one) (task_job x) (b_jobs b)\<rparr>)"
proof (rule board_inv_task [OF inv x])
  note k = task_op_kept [OF inv x task_ops_mem(3) y]
  show "task_id y = task_id x" "task_job y = task_job x" "task_wf y" by (fact k)+
  have st: "task_state x = TaskRunning" "task_state y = TaskCompleted" using y by (auto simp: complete_Inr_iff)
  have ok: "queue_ok b" "bt_wf (b_tasks b)" using inv by (auto elim: board_invE)
  show "queue_ok (b\<lparr>b_tasks := bt_insert t y (b_tasks b), b_queue := b_queue b\<rparr>)"
    using queue_ok_distinct [OF ok(1)] queue_ok_get [OF ok(1) x] st by (intro queue_ok_set [OF ok(1) x]) auto
  show "job_matches (b\<lparr>b_tasks := bt_insert t y (b_tasks b), b_queue := b_queue b, b_jobs := js\<rparr>)
      ((settled_job at' \<circ> completed_one) j)"
    if "job_id j = task_job x" "job_matches b j" for j js
    unfolding comp_apply using st
    by (intro job_matches_complete [OF that(2) ok(2) x that(1) _ st(2) k(2)]) (simp add: active_def)
  show "active x \<and> assigned_to y = assigned_to x \<or> (\<exists>n. assigned_to y = Some n \<and> idle n b)" if "active y"
    using that st by (simp add: active_def)
  show "m \<le> attempt y" if "task_state y = TaskFailed" using that st by simp
qed simp

lemma inv_retry:
  assumes inv: "board_inv m b" and x: "bt_get (b_tasks b) t = Some x" and act: "active x" and y: "requeue at x = Inr y"
  shows "board_inv m (b\<lparr>b_tasks := bt_insert t y (b_tasks b), b_queue := b_queue b @ [t]\<rparr>)"
proof (rule board_inv_task_only [OF inv x])
  note k = task_op_kept [OF inv x task_ops_mem(5) y]
  show "task_id y = task_id x" "task_job y = task_job x" "task_wf y" by (fact k)+
  have st: "task_state y = TaskQueued" using y by (auto simp: requeue_Inr_iff)
  have ok: "queue_ok b" "bt_wf (b_tasks b)" using inv by (auto elim: board_invE)
  have "t \<notin> set (b_queue b)" using queue_ok_get [OF ok(1) x] act by (auto simp: active_def)
  then show "queue_ok (b\<lparr>b_tasks := bt_insert t y (b_tasks b), b_queue := b_queue b @ [t]\<rparr>)"
    using queue_ok_distinct [OF ok(1)] st by (intro queue_ok_set [OF ok(1) x]) auto
  show "job_matches (b\<lparr>b_tasks := bt_insert t y (b_tasks b), b_queue := b_queue b @ [t], b_jobs := js\<rparr>) j"
    if "job_id j = task_job x" "job_matches b j" for j js
    using job_matches_retry [OF that(2) ok(2) x that(1) act st k(2)] .
  show "active x \<and> assigned_to y = assigned_to x \<or> (\<exists>n. assigned_to y = Some n \<and> idle n b)" if "active y"
    using that st by (simp add: active_def)
  show "m \<le> attempt y" if "task_state y = TaskFailed" using that st by simp
qed

lemma inv_give_up:
  assumes inv: "board_inv m b" and x: "bt_get (b_tasks b) t = Some x" and att: "m \<le> attempt x" and y: "fail at x = Inr y"
  shows "board_inv m (b\<lparr>b_tasks := bt_insert t y (b_tasks b), b_queue := b_queue b,
      b_jobs := update_job (settled_job at' \<circ> failed_one) (task_job x) (b_jobs b)\<rparr>)"
proof (rule board_inv_task [OF inv x])
  note k = task_op_kept [OF inv x task_ops_mem(4) y]
  show "task_id y = task_id x" "task_job y = task_job x" "task_wf y" by (fact k)+
  have st: "active x" "task_state y = TaskFailed" "attempt y = attempt x"
    using y by (auto simp: fail_Inr_iff active_def)
  have ok: "queue_ok b" "bt_wf (b_tasks b)" using inv by (auto elim: board_invE)
  show "queue_ok (b\<lparr>b_tasks := bt_insert t y (b_tasks b), b_queue := b_queue b\<rparr>)"
    using queue_ok_distinct [OF ok(1)] queue_ok_get [OF ok(1) x] st
    by (intro queue_ok_set [OF ok(1) x]) (auto simp: active_def)
  show "job_matches (b\<lparr>b_tasks := bt_insert t y (b_tasks b), b_queue := b_queue b, b_jobs := js\<rparr>)
      ((settled_job at' \<circ> failed_one) j)"
    if "job_id j = task_job x" "job_matches b j" for j js
    unfolding comp_apply by (rule job_matches_give_up [OF that(2) ok(2) x that(1) st(1,2) k(2)])
  show "active x \<and> assigned_to y = assigned_to x \<or> (\<exists>n. assigned_to y = Some n \<and> idle n b)" if "active y"
    using that st by (simp add: active_def)
  show "m \<le> attempt y" if "task_state y = TaskFailed" using st att by simp
qed simp

subsection \<open>Submitting and forgetting\<close>

abbreviation insert_all :: "(taskid, task) btree \<Rightarrow> task list \<Rightarrow> (taskid, task) btree" where
  "insert_all m ts \<equiv> foldl (\<lambda>m x. bt_insert (task_id x) x m) m ts"

lemma insert_all_wf: "bt_wf m \<Longrightarrow> bt_wf (insert_all m ts)"
  by (induction ts arbitrary: m) auto

lemma insert_all_get:
  "distinct (map task_id ts) \<Longrightarrow>
     bt_get (insert_all m ts) k = Some x \<longleftrightarrow>
       (x \<in> set ts \<and> task_id x = k) \<or> (k \<notin> task_id ` set ts \<and> bt_get m k = Some x)"
  by (induction ts arbitrary: m) (auto split: if_splits)

lemma insert_all_count:
  "distinct (map task_id ts) \<Longrightarrow> \<forall>x\<in>set ts. bt_get m (task_id x) = None \<Longrightarrow>
     bt_count P (insert_all m ts) = bt_count P m + length (filter P ts)"
proof (induction ts arbitrary: m)
  case (Cons y ts)
  have "\<forall>x\<in>set ts. bt_get (bt_insert (task_id y) y m) (task_id x) = None"
    using Cons.prems by (auto simp: image_iff)
  then show ?case using Cons by (simp add: bt_count_insert_new)
qed simp

lemma inv_submit:
  assumes inv: "board_inv m b" and new: "bt_get (b_jobs b) (job_id j) = None"
    and j: "j = new_job (job_id j) spec at" and n: "job_task_count j = length ts" "job_task_count j \<le> u16_max"
    and d: "distinct (map task_id ts)"
    and ts: "\<forall>x\<in>set ts. task_job x = job_id j \<and> task_state x = TaskQueued \<and> task_wf x \<and>
       bt_get (b_tasks b) (task_id x) = None \<and> task_id x \<notin> set (b_queue b)"
  shows "board_inv m (b\<lparr>b_jobs := bt_insert (job_id j) j (b_jobs b), b_tasks := insert_all (b_tasks b) ts,
      b_queue := b_queue b @ map task_id ts\<rparr>)" (is "board_inv m ?b")
proof -
  from inv have ok: "tables_ok b" "queue_ok b" "exclusive b" "jobs_ok b" "exhausted_ok m b"
    by (auto elim: board_invE)
  have get: "bt_get (b_tasks ?b) k = Some x \<longleftrightarrow> (x \<in> set ts \<and> task_id x = k) \<or> (k \<notin> task_id ` set ts \<and> bt_get (b_tasks b) k = Some x)"
    for k x using insert_all_get [OF d] by simp
  have count: "bt_count P (b_tasks ?b) = bt_count P (b_tasks b) + length (filter P ts)" for P
    using insert_all_count [OF d] ts by simp
  have "tables_ok ?b"
    unfolding tables_ok_def get using ok(1) ts insert_all_wf by (auto simp: tables_ok_def)
  moreover have "queue_ok ?b"
    unfolding queue_ok_def get using ok(2) ts d by (auto simp: queue_ok_def)
  moreover have "exclusive ?b"
    unfolding exclusive_def get using ok(3) ts by (auto simp: exclusive_def active_def)
  moreover have "exhausted_ok m ?b"
    unfolding exhausted_ok_def get using ok(5) ts by (auto simp: exhausted_ok_def)
  moreover have "jobs_ok ?b"
    unfolding jobs_ok_def
  proof (intro allI impI)
    fix i k
    assume k: "bt_get (b_jobs ?b) i = Some k"
    show "job_matches ?b k"
    proof (cases "i = job_id j")
      case True
      have none: "bt_count (of_job (job_id j)) (b_tasks b) = 0"
        unfolding bt_count_zero of_job_def
        using ok(1) new bt_values_get [of "b_tasks b"] by (fastforce simp: tables_ok_def)
      then have "tally st (job_id j) (b_tasks b) = 0" for st using tally_sum [of "job_id j" "b_tasks b"]
        by (cases st) simp_all
      moreover have "filter (of_job (job_id j)) ts = ts" "filter (\<lambda>t. of_job (job_id j) t \<and> task_state t = TaskQueued) ts = ts"
        "filter (\<lambda>t. of_job (job_id j) t \<and> task_state t = TaskCompleted) ts = []"
        "filter (\<lambda>t. of_job (job_id j) t \<and> task_state t = TaskFailed) ts = []"
        using ts by (auto simp: of_job_def filter_id_conv filter_empty_conv)
      moreover have "k = j" using k True by simp
      moreover have "tasks_completed j = 0" "tasks_failed j = 0" "job_state j = JobQueued" "1 \<le> job_task_count j"
        by (subst j, simp add: new_job_def task_count_def)+
      ultimately show ?thesis
        using n none unfolding job_matches_def tally_def count by auto
    next
      case False
      then have kb: "bt_get (b_jobs b) i = Some k" using k by simp
      then have "job_matches b k" "job_id k = i" using ok(1,4) by (auto simp: jobs_ok_def tables_ok_def)
      moreover have "filter (of_job i) ts = []" "filter (\<lambda>t. of_job i t \<and> task_state t = s) ts = []" for s
        using ts False by (auto simp: of_job_def filter_empty_conv)
      ultimately show ?thesis unfolding job_matches_def tally_def count by simp
    qed
  qed
  ultimately show ?thesis by (simp add: board_inv_def)
qed

lemma remove_all_get: "bt_get (foldl (\<lambda>m i. bt_remove i m) m gone) k = (if k \<in> set gone then None else bt_get m k)"
  by (induction gone arbitrary: m) auto

lemma remove_all_wf: "bt_wf m \<Longrightarrow> bt_wf (foldl (\<lambda>m i. bt_remove i m) m gone)"
  by (induction gone arbitrary: m) auto

lemma inv_forget:
  assumes inv: "board_inv m b"
    and gone: "\<forall>i\<in>set gone. \<forall>j. bt_get (b_jobs b) i = Some j \<longrightarrow> job_terminal (job_state j)"
  shows "board_inv m (b\<lparr>b_jobs := foldl (\<lambda>m i. bt_remove i m) (b_jobs b) gone,
      b_tasks := bt_retain (\<lambda>x. task_job x \<notin> set gone) (b_tasks b)\<rparr>)" (is "board_inv m ?b")
proof -
  from inv have ok: "tables_ok b" "queue_ok b" "exclusive b" "jobs_ok b" "exhausted_ok m b" "bt_wf (b_tasks b)"
    by (auto elim: board_invE)
  have get: "bt_get (b_tasks ?b) k = Some x \<longleftrightarrow> bt_get (b_tasks b) k = Some x \<and> task_job x \<notin> set gone" for k x
    using ok(6) by (auto simp: bt_get_retain split: option.splits)
  have jget: "bt_get (b_jobs ?b) k = (if k \<in> set gone then None else bt_get (b_jobs b) k)" for k
    by (simp add: remove_all_get)
  have wf: "bt_wf (b_jobs ?b)" "bt_wf (b_tasks ?b)" using ok(1) remove_all_wf by (auto simp: tables_ok_def)
  have "tables_ok ?b"
    unfolding tables_ok_def get jget using ok(1) wf by (auto simp: tables_ok_def)
  moreover have "queue_ok ?b" unfolding queue_ok_def get using ok(2) by (auto simp: queue_ok_def)
  moreover have "exclusive ?b" unfolding exclusive_def get using ok(3) by (auto simp: exclusive_def)
  moreover have "exhausted_ok m ?b" unfolding exhausted_ok_def get using ok(5) by (auto simp: exhausted_ok_def)
  moreover have "jobs_ok ?b"
    unfolding jobs_ok_def
  proof (intro allI impI)
    fix i k
    assume "bt_get (b_jobs ?b) i = Some k"
    then have k: "i \<notin> set gone" "bt_get (b_jobs b) i = Some k" by (auto simp: remove_all_get split: if_splits)
    then have m: "job_matches b k" and id: "job_id k = i" using ok(1,4) by (auto simp: jobs_ok_def tables_ok_def)
    have same: "bt_count (\<lambda>v. P v \<and> task_job v \<notin> set gone) (b_tasks b) = bt_count P (b_tasks b)"
      if "\<And>v. P v \<Longrightarrow> of_job i v" for P using that k(1) by (intro bt_count_cong) (auto simp: of_job_def)
    have "bt_count (of_job i) (b_tasks ?b) = bt_count (of_job i) (b_tasks b)"
      using same [of "of_job i"] by (simp add: bt_count_retain)
    moreover have "tally st i (b_tasks ?b) = tally st i (b_tasks b)" for st
      using same [of "\<lambda>t. of_job i t \<and> task_state t = st"] by (simp add: tally_def bt_count_retain conj_assoc)
    ultimately show "job_matches ?b k" using m unfolding job_matches_def id by simp
  qed
  ultimately show ?thesis by (simp add: board_inv_def)
qed

lemma board_step_inv: "board_step m b b' \<Longrightarrow> board_inv m b \<Longrightarrow> board_inv m b'"
proof (induction rule: board_step.induct)
  case (step_drop b t q)
  then show ?case by (rule inv_drop [rotated])
next
  case (step_place b t q x n at y at')
  then show ?case using inv_place [of m b t q x n at y at'] by simp
next
  case (step_refuse b t q x n at y z)
  have "board_inv m (b\<lparr>b_tasks := bt_insert t z (b_tasks b), b_queue := b_queue b\<rparr>)"
    by (rule inv_refuse [OF step_refuse.prems step_refuse.hyps])
  then show ?case by simp
next
  case (step_start b t x at y)
  then show ?case using inv_start [of m b t x at y] by simp
next
  case (step_complete b t x out at y at')
  then show ?case using inv_complete [of m b t x out at y at'] by simp
next
  case (step_retry b t x at y)
  then show ?case using inv_retry [of m b t x at y] by simp
next
  case (step_give_up b t x at y at')
  then show ?case using inv_give_up [of m b t x at y at'] by simp
next
  case (step_submit b j spec at ts)
  then show ?case using inv_submit [of m b j spec at ts] by simp
next
  case (step_forget gone b)
  then show ?case using inv_forget by blast
qed

lemma board_steps_inv: "board_steps m b b' \<Longrightarrow> board_inv m b \<Longrightarrow> board_inv m b'"
  unfolding board_steps_def by (induction rule: rtranclp_induct) (auto intro: board_step_inv)

lemma board_steps_refl [simp]: "board_steps m b b"
  by (simp add: board_steps_def)

lemma board_steps_trans: "board_steps m a b \<Longrightarrow> board_steps m b c \<Longrightarrow> board_steps m a c"
  unfolding board_steps_def by (rule rtranclp_trans)

lemma board_steps_one: "board_step m a b \<Longrightarrow> board_steps m a b"
  unfolding board_steps_def by (rule r_into_rtranclp)

end
