(* ===== verification/Supervision.thy ===== *)
theory Supervision
  imports Supervisor Board
begin

text \<open>
  The supervisor implements the board: every handler of \<open>supervisor.rs\<close> changes jobs, tasks and the queue
  only by steps that the specification of \<open>Board\<close> allows, so its invariant holds in every state the
  supervisor reaches. The relation \<open>works\<close> between the states before and after a handler says so; it is
  transitive, so a handler works because its parts do.
\<close>

section \<open>The relation\<close>

definition board_of :: "supervisor \<Rightarrow> board" where
  "board_of s = \<lparr> b_jobs = jobs s, b_tasks = tasks s, b_queue = queue s \<rparr>"

lemma board_of_sel [simp]:
  "b_jobs (board_of s) = jobs s" "b_tasks (board_of s) = tasks s" "b_queue (board_of s) = queue s"
  by (simp_all add: board_of_def)

text \<open>Every id in memory was given out by the store, so the next ones are new.\<close>

definition ids_known :: "supervisor \<Rightarrow> bool" where
  "ids_known s \<longleftrightarrow> (\<forall>i\<in>set (bt_keys (jobs s)). i \<le> seq_job (store s)) \<and>
     (\<forall>i\<in>set (bt_keys (tasks s)) \<union> set (queue s). i \<le> seq_task (store s))"

definition sup_inv :: "supervisor \<Rightarrow> bool" where
  "sup_inv s \<longleftrightarrow> board_inv (max_task_attempts (cfg s)) (board_of s) \<and> ids_known s"

definition works :: "supervisor \<Rightarrow> supervisor \<Rightarrow> bool" where
  "works s s' \<longleftrightarrow> cfg s' = cfg s \<and>
     (sup_inv s \<longrightarrow> sup_inv s' \<and> board_steps (max_task_attempts (cfg s)) (board_of s) (board_of s'))"

lemma works_refl [simp]: "works s s"
  by (simp add: works_def)

lemma works_trans [trans]: "works s t \<Longrightarrow> works t u \<Longrightarrow> works s u"
  by (auto simp: works_def intro: board_steps_trans)

lemma works_cfg: "works s s' \<Longrightarrow> cfg s' = cfg s"
  by (simp add: works_def)

lemma works_inv: "works s s' \<Longrightarrow> sup_inv s \<Longrightarrow> sup_inv s'"
  by (simp add: works_def)

lemma works_foldl: "(\<And>s x. x \<in> set xs \<Longrightarrow> works s (f s x)) \<Longrightarrow> works s (foldl f s xs)"
  by (induction xs arbitrary: s) (auto intro: works_trans)

text \<open>What leaves the board alone works.\<close>

definition same_work :: "supervisor \<Rightarrow> supervisor \<Rightarrow> bool" where
  "same_work s s' \<longleftrightarrow> cfg s' = cfg s \<and> board_of s' = board_of s \<and>
     seq_job (store s) \<le> seq_job (store s') \<and> seq_task (store s) \<le> seq_task (store s')"

lemma same_work_works: "same_work s s' \<Longrightarrow> works s s'"
  by (auto simp: same_work_def works_def sup_inv_def ids_known_def board_of_def
      intro: order_trans)

lemma works_step:
  assumes "cfg s' = cfg s" "seq_job (store s') = seq_job (store s)" "seq_task (store s') = seq_task (store s)"
    and "sup_inv s \<Longrightarrow> board_step (max_task_attempts (cfg s)) (board_of s) (board_of s') \<and>
       set (bt_keys (jobs s')) \<subseteq> set (bt_keys (jobs s)) \<and>
       set (bt_keys (tasks s')) \<union> set (queue s') \<subseteq> set (bt_keys (tasks s)) \<union> set (queue s)"
  shows "works s s'"
  unfolding works_def
proof (intro conjI impI)
  assume i: "sup_inv s"
  note step = assms(4) [OF i]
  then have "board_inv (max_task_attempts (cfg s')) (board_of s')"
    using i assms(1) board_step_inv by (auto simp: sup_inv_def)
  moreover have "ids_known s'"
    using step i assms(2,3) unfolding sup_inv_def ids_known_def by (metis in_mono)
  ultimately show "sup_inv s'" by (simp add: sup_inv_def)
  show "board_steps (max_task_attempts (cfg s)) (board_of s) (board_of s')"
    using step by (intro board_steps_one) simp
qed (fact assms(1))

section \<open>Tables\<close>

lemma bt_keys_insert [simp]: "set (bt_keys (bt_insert k v m)) = insert k (set (bt_keys m))"
  using keys_bt_insert [of k v m] by (simp add: bt_keys_def)

lemma bt_insert_insert: "bt_insert k v (bt_insert k u m) = bt_insert k v m"
  by (induction k u m rule: bt_insert.induct) auto

lemma update_job_update: "update_job g i (update_job f i js) = update_job (g \<circ> f) i js"
  by (simp add: update_job_def bt_insert_insert split: option.split)

lemma update_job_keys [simp]: "set (bt_keys (update_job f i js)) = set (bt_keys js)"
  by (auto simp: update_job_def bt_keys_get split: option.split)

lemma update_job_id: "bt_wf js \<Longrightarrow> (\<And>j. bt_get js i = Some j \<Longrightarrow> f j = j) \<Longrightarrow> update_job f i js = js"
  by (auto simp: update_job_def bt_insert_same split: option.split)

lemma sup_inv_tables:
  assumes "sup_inv s"
  shows "bt_wf (jobs s)" "bt_wf (tasks s)" "tables_ok (board_of s)" "queue_ok (board_of s)"
    "exhausted_ok (max_task_attempts (cfg s)) (board_of s)"
  using assms by (auto simp: sup_inv_def board_inv_def tables_ok_def)

lemma sup_inv_task:
  assumes "sup_inv s" "bt_get (tasks s) i = Some t"
  shows "task_id t = i" "task_wf t" "bt_get (jobs s) (task_job t) \<noteq> None"
    "i \<in> set (queue s) \<longleftrightarrow> task_state t = TaskQueued"
    "task_state t = TaskFailed \<Longrightarrow> max_task_attempts (cfg s) \<le> attempt t"
  using sup_inv_tables [OF assms(1)] assms(2)
  by (auto simp: tables_ok_def queue_ok_def exhausted_ok_def)

lemma get_in_keys: "bt_get m k = Some v \<Longrightarrow> k \<in> set (bt_keys m)"
  by (auto simp: bt_keys_get)

section \<open>Frames\<close>

lemma store_frame [frame_simps, simp]:
  "store (persist_task t s) = store s" "store (persist_job j s) = store s"
  "store (persist_roles n r s) = store s" "store (start_job_if_queued i s) = store s"
  "store (record_failure t why d s) = store s" "store (bump_job f i s) = store s"
  "store (settle_job i s) = store s"
  by (simp_all add: persist_task_def persist_job_def persist_roles_def push_def read_clock_def
      start_job_if_queued_def record_failure_def bump_job_def settle_job_def Let_def
      split: option.split sum.split)

lemma record_failure_frame [frame_simps, simp]:
  "nodes (record_failure t why d s) = nodes s" "jobs (record_failure t why d s) = jobs s"
  "tasks (record_failure t why d s) = tasks s" "queue (record_failure t why d s) = queue s"
  "cfg (record_failure t why d s) = cfg s" "leader (record_failure t why d s) = leader s"
  by (simp_all add: record_failure_def push_def read_clock_def)

lemma bump_job_frame [frame_simps, simp]:
  "nodes (bump_job f i s) = nodes s" "jobs (bump_job f i s) = update_job f i (jobs s)"
  "tasks (bump_job f i s) = tasks s" "queue (bump_job f i s) = queue s"
  "cfg (bump_job f i s) = cfg s" "leader (bump_job f i s) = leader s"
  by (simp_all add: bump_job_def update_job_def split: option.split)

lemma settle_job_frame [frame_simps, simp]:
  "nodes (settle_job i s) = nodes s" "tasks (settle_job i s) = tasks s" "queue (settle_job i s) = queue s"
  "cfg (settle_job i s) = cfg s" "leader (settle_job i s) = leader s"
  by (simp_all add: settle_job_def read_clock_def Let_def split: option.split sum.split)

lemma settle_job_jobs:
  "bt_wf (jobs s) \<Longrightarrow> \<exists>at. jobs (settle_job i s) = update_job (settled_job at) i (jobs s)"
  by (rule exI [of _ "clock s (clock_reads s)"])
    (auto simp: settle_job_def read_clock_def update_job_def settled_job_def Let_def bt_insert_same
      split: option.split sum.split)

lemma start_job_jobs:
  "bt_wf (jobs s) \<Longrightarrow> \<exists>at. jobs (start_job_if_queued i s) = update_job (started_job at) i (jobs s)"
  by (rule exI [of _ "clock s (clock_reads s)"])
    (auto simp: start_job_if_queued_def read_clock_def update_job_def started_job_def Let_def bt_insert_same
      split: option.split sum.split)

lemma same_workI:
  "cfg s' = cfg s \<Longrightarrow> jobs s' = jobs s \<Longrightarrow> tasks s' = tasks s \<Longrightarrow> queue s' = queue s \<Longrightarrow>
   store s' = store s \<Longrightarrow> works s s'"
  by (rule same_work_works) (simp add: same_work_def board_of_def)

lemma works_emit: "works s (emit e s)" and works_record: "works s (record_failure t why d s)"
  by (auto intro: same_workI)

section \<open>Tasks that end\<close>

lemma board_of_eqI: "b_jobs b = jobs s \<Longrightarrow> b_tasks b = tasks s \<Longrightarrow> b_queue b = queue s \<Longrightarrow> board_of s = b"
  by (simp add: board_of_def)

lemma requeue_keeps:
  "requeue at t = Inr y \<Longrightarrow> task_id y = task_id t \<and> task_job y = task_job t \<and> attempt y = attempt t"
  "fail at t = Inr y \<Longrightarrow> task_id y = task_id t \<and> task_job y = task_job t \<and> attempt y = attempt t"
  "complete out at t = Inr y \<Longrightarrow> task_id y = task_id t \<and> task_job y = task_job t \<and> attempt y = attempt t"
  "start at t = Inr y \<Longrightarrow> task_id y = task_id t \<and> task_job y = task_job t \<and> attempt y = attempt t"
  "assign n at t = Inr y \<Longrightarrow> task_id y = task_id t \<and> task_job y = task_job t"
  by (auto simp: task_op_Inr_iff)

text \<open>The common end of a task: its new state is stored, its job's counter bumped and the job settled.\<close>

lemma end_task_board:
  assumes i: "sup_inv s" and s': "jobs s' = jobs s" "tasks s' = bt_insert tid y (tasks s)" "queue s' = queue s"
  shows "\<exists>at. board_of (settle_job jid (bump_job f jid s')) =
    board_of s\<lparr>b_tasks := bt_insert tid y (tasks s), b_jobs := update_job (settled_job at \<circ> f) jid (jobs s)\<rparr>"
proof -
  have "bt_wf (jobs (bump_job f jid s'))" using s' sup_inv_tables(1) [OF i] by simp
  from settle_job_jobs [OF this] obtain at
    where at: "jobs (settle_job jid (bump_job f jid s')) = update_job (settled_job at) jid (jobs (bump_job f jid s'))"
    by blast
  show ?thesis
    by (rule exI [of _ at], rule board_of_eqI) (simp_all add: s' at update_job_update)
qed

text \<open>A step on one task that is there adds no id.\<close>

lemma works_task_step:
  assumes "cfg s' = cfg s" "store s' = store s"
    and "sup_inv s \<Longrightarrow> \<exists>t q js. bt_get (tasks s) tid = Some t \<and>
       board_of s' = board_of s\<lparr>b_tasks := bt_insert tid y (tasks s), b_queue := q, b_jobs := js\<rparr> \<and>
       set q \<subseteq> insert tid (set (queue s)) \<and> set (bt_keys js) \<subseteq> set (bt_keys (jobs s)) \<and>
       board_step (max_task_attempts (cfg s)) (board_of s) (board_of s')"
  shows "works s s'"
proof (rule works_step)
  assume "sup_inv s"
  then obtain t q js where t: "bt_get (tasks s) tid = Some t"
    and b: "board_of s' = board_of s\<lparr>b_tasks := bt_insert tid y (tasks s), b_queue := q, b_jobs := js\<rparr>"
    and sub: "set q \<subseteq> insert tid (set (queue s))" "set (bt_keys js) \<subseteq> set (bt_keys (jobs s))"
    and step: "board_step (max_task_attempts (cfg s)) (board_of s) (board_of s')"
    using assms(3) by blast
  have "jobs s' = js" "tasks s' = bt_insert tid y (tasks s)" "queue s' = q"
    using arg_cong [OF b, of b_jobs] arg_cong [OF b, of b_tasks] arg_cong [OF b, of b_queue] by simp_all
  then show "board_step (max_task_attempts (cfg s)) (board_of s) (board_of s') \<and>
      set (bt_keys (jobs s')) \<subseteq> set (bt_keys (jobs s)) \<and>
      set (bt_keys (tasks s')) \<union> set (queue s') \<subseteq> set (bt_keys (tasks s)) \<union> set (queue s)"
    using step sub get_in_keys [OF t] by auto
qed (simp_all add: assms)

lemma works_requeue:
  assumes "bt_get (tasks s) tid = Some t" "attempt t < max_task_attempts (cfg s)" "requeue now t = Inr y"
    and "cfg s' = cfg s" "jobs s' = jobs s" "tasks s' = bt_insert (task_id y) y (tasks s)"
    "queue s' = queue s @ [task_id y]" "store s' = store s"
  shows "works s s'"
proof (rule works_task_step)
  assume i: "sup_inv s"
  have y: "task_id y = tid" using sup_inv_task(1) [OF i assms(1)] requeue_keeps(1) [OF assms(3)] by simp
  have "active t" using assms(2,3) sup_inv_task(5) [OF i assms(1)] by (auto simp: requeue_Inr_iff active_def)
  then have "board_step (max_task_attempts (cfg s)) (board_of s)
      (board_of s\<lparr>b_tasks := bt_insert tid y (b_tasks (board_of s)), b_queue := b_queue (board_of s) @ [tid]\<rparr>)"
    using assms(1-3) by (intro step_retry) auto
  moreover have "board_of s' = board_of s\<lparr>b_tasks := bt_insert tid y (tasks s), b_queue := queue s @ [tid], b_jobs := jobs s\<rparr>"
    by (rule board_of_eqI) (simp_all add: assms y)
  moreover have "board_of s\<lparr>b_tasks := m, b_queue := q, b_jobs := jobs s\<rparr> = board_of s\<lparr>b_tasks := m, b_queue := q\<rparr>" for m q
    by (simp add: board_of_def)
  ultimately show "\<exists>t q js. bt_get (tasks s) tid = Some t \<and>
      board_of s' = board_of s\<lparr>b_tasks := bt_insert tid y (tasks s), b_queue := q, b_jobs := js\<rparr> \<and>
      set q \<subseteq> insert tid (set (queue s)) \<and> set (bt_keys js) \<subseteq> set (bt_keys (jobs s)) \<and>
      board_step (max_task_attempts (cfg s)) (board_of s) (board_of s')"
    using assms(1) by (intro exI [of _ t] exI [of _ "queue s @ [tid]"] exI [of _ "jobs s"]) simp
qed (use assms in simp_all)

lemma works_end_task:
  assumes t: "bt_get (tasks s) tid = Some t"
    and y: "task_id y = task_id t" "task_job y = task_job t"
    and s': "cfg s' = cfg s" "jobs s' = jobs s" "tasks s' = bt_insert (task_id y) y (tasks s)"
      "queue s' = queue s" "store s' = store s"
    and step: "\<And>at. board_step (max_task_attempts (cfg s)) (board_of s)
      (board_of s\<lparr>b_tasks := bt_insert tid y (tasks s), b_jobs := update_job (settled_job at \<circ> f) (task_job t) (jobs s)\<rparr>)"
  shows "works s (settle_job (task_job y) (bump_job f (task_job y) s'))" (is "works s ?s")
proof (rule works_task_step)
  assume i: "sup_inv s"
  have "task_id t = tid" using sup_inv_task(1) [OF i t] .
  then obtain at where b: "board_of ?s = board_of s\<lparr>b_tasks := bt_insert tid y (tasks s),
      b_jobs := update_job (settled_job at \<circ> f) (task_job t) (jobs s)\<rparr>"
    using end_task_board [OF i s'(2) _ s'(4), of tid y "task_job t" f] s'(3) y by auto
  have "board_of s\<lparr>b_tasks := m, b_queue := queue s, b_jobs := js\<rparr> = board_of s\<lparr>b_tasks := m, b_jobs := js\<rparr>" for m js
    by (simp add: board_of_def)
  then show "\<exists>t q js. bt_get (tasks s) tid = Some t \<and>
      board_of ?s = board_of s\<lparr>b_tasks := bt_insert tid y (tasks s), b_queue := q, b_jobs := js\<rparr> \<and>
      set q \<subseteq> insert tid (set (queue s)) \<and> set (bt_keys js) \<subseteq> set (bt_keys (jobs s)) \<and>
      board_step (max_task_attempts (cfg s)) (board_of s) (board_of ?s)"
    using t step [of at] unfolding b
    by (intro exI [of _ t] exI [of _ "queue s"] exI [of _ "update_job (settled_job at \<circ> f) (task_job t) (jobs s)"]) auto
qed (use s' in simp_all)

lemma works_retry: "works s (retry_or_give_up tid now s)"
proof (cases "bt_get (tasks s) tid")
  case None
  then show ?thesis by (simp add: retry_or_give_up_def)
next
  case t: (Some t)
  show ?thesis
  proof (cases "attempt t < max_task_attempts (cfg s)")
    case retry: True
    then show ?thesis
    proof (cases "requeue now t")
      case (Inr y)
      from t retry this show ?thesis
        by (rule works_requeue) (use t retry Inr in \<open>simp_all add: retry_or_give_up_def Let_def\<close>)
    qed (use t retry in \<open>simp add: retry_or_give_up_def\<close>)
  next
    case give_up: False
    then show ?thesis
    proof (cases "fail now t")
      case (Inr y)
      let ?s1 = "persist_task y (s\<lparr>tasks := bt_insert (task_id y) y (tasks s)\<rparr>)"
      have "retry_or_give_up tid now s = settle_job (task_job y) (bump_job failed_one (task_job y) ?s1)"
        using t give_up Inr by (simp add: retry_or_give_up_def Let_def failed_one_def [abs_def])
      moreover have "board_step (max_task_attempts (cfg s)) (board_of s) (board_of s\<lparr>b_tasks := bt_insert tid y (tasks s),
          b_jobs := update_job (settled_job at \<circ> failed_one) (task_job t) (jobs s)\<rparr>)" for at
        using step_give_up [of "board_of s" tid t _ now y at] t give_up Inr by simp
      ultimately show ?thesis
        using works_end_task [OF t, of y ?s1 failed_one] requeue_keeps(2) [OF Inr] by simp
    qed (use t give_up in \<open>simp add: retry_or_give_up_def\<close>)
  qed
qed

lemma works_finish: "works s (finish_task node tid outcome s)"
proof -
  obtain now s0 where c: "read_clock s = (now, s0)" by fastforce
  have f: "cfg s0 = cfg s" "jobs s0 = jobs s" "tasks s0 = tasks s" "queue s0 = queue s" "store s0 = store s"
    using read_clock_frame [OF c] by simp_all
  then have s0: "works s s0" by (intro same_workI)
  have "works s0 (finish_task node tid outcome s)"
  proof (cases "bt_get (tasks s0) tid")
    case None
    then show ?thesis by (simp add: finish_task_def c)
  next
    case t: (Some t)
    show ?thesis
    proof (cases "assigned_to t \<noteq> Some node \<or> task_terminal (task_state t)")
      case True
      then show ?thesis using t by (simp add: finish_task_def c)
    next
      case held: False
      show ?thesis
      proof (cases outcome)
        case (OutFailed why d)
        have "finish_task node tid outcome s =
            retry_or_give_up tid now (emit (EvTaskFailed (task_id t) (Some node) why) (record_failure t why d s0))"
          using t held OutFailed by (simp add: finish_task_def c Let_def)
        then show ?thesis using works_trans [OF works_trans [OF works_record works_emit] works_retry] by simp
      next
        case (OutCompleted out)
        show ?thesis
        proof (cases "complete out now t")
          case (Inr y)
          let ?s1 = "emit (EvTaskCompleted (task_id y) node) (persist_task y (s0\<lparr>tasks := bt_insert (task_id y) y (tasks s0)\<rparr>))"
          have "finish_task node tid outcome s = settle_job (task_job y) (bump_job completed_one (task_job y) ?s1)"
            using t held OutCompleted Inr by (simp add: finish_task_def c Let_def completed_one_def [abs_def])
          moreover have "board_step (max_task_attempts (cfg s0)) (board_of s0) (board_of s0\<lparr>b_tasks := bt_insert tid y (tasks s0),
              b_jobs := update_job (settled_job at \<circ> completed_one) (task_job t) (jobs s0)\<rparr>)" for at
            using step_complete [of "board_of s0" tid t out now y _ at] t Inr by simp
          ultimately show ?thesis
            using works_end_task [OF t, of y ?s1 completed_one] requeue_keeps(3) [OF Inr] by simp
        qed (use t held OutCompleted in \<open>simp add: finish_task_def c\<close>)
      qed
    qed
  qed
  with s0 show ?thesis by (rule works_trans)
qed

lemma works_requeue_tasks: "works s (requeue_tasks_of node s)"
proof -
  obtain now s0 where c: "read_clock s = (now, s0)" by fastforce
  have s0: "works s s0" using read_clock_frame [OF c] by (intro same_workI)
  show ?thesis unfolding requeue_tasks_of_def c prod.case Let_def
    by (rule works_trans [OF s0], rule works_foldl)
      (auto split: option.split intro: works_trans [OF works_trans [OF works_record works_emit] works_retry])
qed

section \<open>Placing work\<close>

text \<open>The outcomes of one pass of \<open>dispatch\<close>, with what each leaves of the state.\<close>

inductive placing :: "selection \<Rightarrow> nodeid list \<Rightarrow> supervisor \<Rightarrow> supervisor + nodeid list \<times> supervisor \<Rightarrow> bool"
  for sel :: selection and busy :: "nodeid list" and s :: supervisor where
  place_empty: "queue s = [] \<Longrightarrow> placing sel busy s (Inl s)"
| place_drop: "queue s = tid # q \<Longrightarrow> bt_get (tasks s) tid = None \<Longrightarrow> placing sel busy s (Inr (busy, s\<lparr>queue := q\<rparr>))"
| place_stuck: "queue s = tid # q \<Longrightarrow> bt_get (tasks s) tid = Some t \<Longrightarrow> sel t (candidates busy s) = Inl e \<Longrightarrow>
    placing sel busy s (Inl s)"
| place_illegal: "queue s = tid # q \<Longrightarrow> bt_get (tasks s) tid = Some t \<Longrightarrow> assign chosen now t = Inl e \<Longrightarrow>
    s' = s\<lparr>queue := q, clock_reads := clock_reads s + 1\<rparr> \<Longrightarrow> placing sel busy s (Inr (busy, s'))"
| place_refused: "queue s = tid # q \<Longrightarrow> bt_get (tasks s) tid = Some t \<Longrightarrow>
    sel t (candidates busy s) = Inr chosen \<Longrightarrow> assign chosen now t = Inr y \<Longrightarrow> requeue now y = Inr z \<Longrightarrow>
    (\<forall>e h. bt_get (nodes s) chosen = Some e \<longrightarrow> entry_handle e = Some h \<longrightarrow>
       \<not> mailbox s (sends s) \<and> sends s' = sends s + 1) \<Longrightarrow> mailbox s' = mailbox s \<Longrightarrow>
    cfg s' = cfg s \<Longrightarrow> nodes s' = nodes s \<Longrightarrow> jobs s' = jobs s \<Longrightarrow> tasks s' = bt_insert (task_id z) z (tasks s) \<Longrightarrow>
    queue s' = task_id z # q \<Longrightarrow> seq_job (store s') = seq_job (store s) \<Longrightarrow>
    seq_task (store s') = seq_task (store s) \<Longrightarrow> leader s' = leader s \<Longrightarrow> gateway s' = gateway s \<Longrightarrow>
    outbox s' = outbox s \<Longrightarrow> event_seq s' = event_seq s \<Longrightarrow> published s' = published s \<Longrightarrow>
    events s' = events s \<Longrightarrow> writes s' = writes s \<Longrightarrow> placing sel busy s (Inl s')"
| place_sent: "queue s = tid # q \<Longrightarrow> bt_get (tasks s) tid = Some t \<Longrightarrow>
    sel t (candidates busy s) = Inr chosen \<Longrightarrow> assign chosen now t = Inr y \<Longrightarrow>
    bt_get (nodes s) chosen = Some e \<Longrightarrow> entry_handle e = Some h \<Longrightarrow> mailbox s (sends s) \<Longrightarrow>
    s1 = persist_task y (s\<lparr>queue := q, clock_reads := clock_reads s + 1, sends := sends s + 1,
      outbox := outbox s @ [(h, InAssign y)], tasks := bt_insert (task_id y) y (tasks s)\<rparr>) \<Longrightarrow>
    s' = emit (EvTaskAssigned (task_id y) chosen) (start_job_if_queued (task_job y) s1) \<Longrightarrow>
    placing sel busy s (Inr (chosen # busy, s'))"

lemma save_task_seq: "save_task t st = Inr st' \<Longrightarrow> seq_job st' = seq_job st \<and> seq_task st' = seq_task st"
  by (auto simp: save_task_def split: option.splits)

lemma store_write_seq:
  assumes "store_write (save_task t) s = (r, s')"
  obtains st n where "s' = s\<lparr>store := st, store_calls := n\<rparr>" "seq_job st = seq_job (store s)"
    "seq_task st = seq_task (store s)"
proof -
  obtain st n where "s' = s\<lparr>store := st, store_calls := n\<rparr> \<and> seq_job st = seq_job (store s) \<and>
      seq_task st = seq_task (store s)"
    using assms save_task_seq [of t "store s"]
    by (fastforce simp: store_write_def store_call_def Let_def split: if_splits sum.splits prod.splits)
  then show ?thesis using that by blast
qed

lemma assign_then_requeue: "assign n at t = Inr y \<Longrightarrow> \<exists>z. requeue at' y = Inr z"
  by (auto simp: task_op_Inr_iff)

lemma placing_dispatch_one: "placing sel busy s (dispatch_one sel busy s)"
proof (cases "queue s")
  case Nil
  then show ?thesis by (simp add: dispatch_one_def place_empty)
next
  case q: (Cons tid q)
  show ?thesis
  proof (cases "bt_get (tasks s) tid")
    case None
    with q show ?thesis by (simp add: dispatch_one_def place_drop)
  next
    case t: (Some t)
    show ?thesis
    proof (cases "sel t (candidates busy s)")
      case (Inl e)
      with q t show ?thesis by (simp add: dispatch_one_def place_stuck)
    next
      case ch: (Inr chosen)
      let ?now = "clock s (clock_reads s)" and ?s = "s\<lparr>queue := q, clock_reads := clock_reads s + 1\<rparr>"
      show ?thesis
      proof (cases "assign chosen ?now t")
        case (Inl e)
        with q t ch show ?thesis by (simp add: dispatch_one_def read_clock_def place_illegal)
      next
        case y: (Inr y)
        obtain z where z: "requeue ?now y = Inr z" using assign_then_requeue [OF y] by blast
        define sent where "sent = (case bt_get (nodes s) chosen of None \<Rightarrow> (False, ?s)
          | Some e \<Rightarrow> (case entry_handle e of None \<Rightarrow> (False, ?s) | Some h \<Rightarrow> try_send h (InAssign y) ?s))"
        show ?thesis
        proof (cases "fst sent")
          case True
          then obtain e h where e: "bt_get (nodes s) chosen = Some e" "entry_handle e = Some h" "mailbox s (sends s)"
            by (auto simp: sent_def try_send_def split: option.splits if_splits)
          have "dispatch_one sel busy s = Inr (chosen # busy, emit (EvTaskAssigned (task_id y) chosen)
              (start_job_if_queued (task_job y) (persist_task y (s\<lparr>queue := q, clock_reads := clock_reads s + 1,
                sends := sends s + 1, outbox := outbox s @ [(h, InAssign y)],
                tasks := bt_insert (task_id y) y (tasks s)\<rparr>))))"
            using q t ch y e by (simp add: dispatch_one_def read_clock_def try_send_def Let_def)
          then show ?thesis using place_sent [where sel = sel and busy = busy, OF q t ch y e refl refl] by simp
        next
          case False
          let ?s1 = "(snd sent)\<lparr>tasks := bt_insert (task_id z) z (tasks (snd sent)), queue := task_id z # queue (snd sent)\<rparr>"
          obtain r s' where w: "store_write (save_task z) ?s1 = (r, s')" by fastforce
          have "dispatch_one sel busy s = Inl s'"
            using q t ch y z w False unfolding sent_def
            by (auto simp: dispatch_one_def read_clock_def Let_def split: option.splits prod.splits bool.splits)
          moreover have room: "\<not> mailbox s (sends s) \<and> sends (snd sent) = sends s + 1"
            if "bt_get (nodes s) chosen = Some e" "entry_handle e = Some h" for e h
            using False that by (auto simp: sent_def try_send_def split: if_splits)
          have "snd sent = ?s\<lparr>sends := sends (snd sent)\<rparr>"
            using False by (auto simp: sent_def try_send_def split: option.splits if_splits)
          then obtain k where k: "snd sent = ?s\<lparr>sends := k\<rparr>" by blast
          have "\<not> mailbox s (sends s) \<and> k = sends s + 1"
            if "bt_get (nodes s) chosen = Some e" "entry_handle e = Some h" for e h
            using room [OF that] by (simp add: k)
          moreover note w [unfolded k]
          ultimately show ?thesis
            by (elim store_write_seq) (auto intro!: place_refused [where sel = sel and busy = busy, OF q t ch y z])
        qed
      qed
    qed
  qed
qed

text \<open>The loop's list of busy nodes covers the tasks that nodes hold.\<close>

definition covers :: "nodeid list \<Rightarrow> supervisor \<Rightarrow> bool" where
  "covers busy s \<longleftrightarrow> (\<forall>n. n \<notin> set busy \<longrightarrow> idle n (board_of s))"

lemma covers_busy_nodes: "covers (busy_nodes s) s"
  by (force simp: covers_def busy_nodes_def idle_def active_def map_filter_def)

lemma idle_insert:
  assumes "bt_wf (tasks s)" "idle n (board_of s)" "active y \<Longrightarrow> assigned_to y \<noteq> Some n"
    and "tasks s' = bt_insert tid y (tasks s)"
  shows "idle n (board_of s')"
proof -
  have wf: "bt_wf (bt_insert tid y (tasks s))" using assms(1) by simp
  show ?thesis
    using assms(2,3) bt_values_get [OF assms(1)] bt_values_get [OF wf]
    unfolding idle_def board_of_sel assms(4) by (metis bt_get_insert option.inject)
qed

lemma place_refused_works:
  assumes q: "queue s = tid # q" and t: "bt_get (tasks s) tid = Some t"
    and y: "assign chosen now t = Inr y" and z: "requeue now y = Inr z"
    and s': "cfg s' = cfg s" "jobs s' = jobs s" "tasks s' = bt_insert (task_id z) z (tasks s)"
      "queue s' = task_id z # q" "seq_job (store s') = seq_job (store s)" "seq_task (store s') = seq_task (store s)"
  shows "works s s'"
proof (rule works_step)
  assume i: "sup_inv s"
  have z': "task_id z = tid" using sup_inv_task(1) [OF i t] requeue_keeps(5) [OF y] requeue_keeps(1) [OF z] by simp
  have "board_of s' = board_of s\<lparr>b_tasks := bt_insert tid z (b_tasks (board_of s))\<rparr>"
    by (rule board_of_eqI) (simp_all add: s' q z')
  then have "board_step (max_task_attempts (cfg s)) (board_of s) (board_of s')"
    using step_refuse [of "board_of s" tid q t chosen now y z] q t y z by simp
  then show "board_step (max_task_attempts (cfg s)) (board_of s) (board_of s') \<and>
      set (bt_keys (jobs s')) \<subseteq> set (bt_keys (jobs s)) \<and>
      set (bt_keys (tasks s')) \<union> set (queue s') \<subseteq> set (bt_keys (tasks s)) \<union> set (queue s)"
    using q by (auto simp: s' z')
qed (simp_all add: s')

lemma place_sent_works:
  assumes q: "queue s = tid # q" and t: "bt_get (tasks s) tid = Some t" and y: "assign chosen now t = Inr y"
    and idle: "idle chosen (board_of s)"
    and s1: "cfg s1 = cfg s" "jobs s1 = jobs s" "tasks s1 = bt_insert (task_id y) y (tasks s)" "queue s1 = q"
      "store s1 = store s"
  shows "works s (emit e (start_job_if_queued (task_job y) s1))" (is "works s ?s")
proof (rule works_step)
  assume i: "sup_inv s"
  have y': "task_id y = tid" "task_job y = task_job t" using sup_inv_task(1) [OF i t] requeue_keeps(5) [OF y] by simp_all
  have "bt_wf (jobs s1)" using sup_inv_tables(1) [OF i] s1(2) by simp
  from start_job_jobs [OF this] obtain at
    where at: "jobs (start_job_if_queued (task_job y) s1) = update_job (started_job at) (task_job t) (jobs s)"
    unfolding y' s1 by blast
  have "board_of ?s = board_of s\<lparr>b_tasks := bt_insert tid y (b_tasks (board_of s)), b_queue := q,
      b_jobs := update_job (started_job at) (task_job t) (b_jobs (board_of s))\<rparr>"
    by (rule board_of_eqI) (simp_all add: at s1 y'(1))
  then have "board_step (max_task_attempts (cfg s)) (board_of s) (board_of ?s)"
    using step_place [of "board_of s" tid q t chosen now y _ at] q t y idle by simp
  then show "board_step (max_task_attempts (cfg s)) (board_of s) (board_of ?s) \<and>
      set (bt_keys (jobs ?s)) \<subseteq> set (bt_keys (jobs s)) \<and>
      set (bt_keys (tasks ?s)) \<union> set (queue ?s) \<subseteq> set (bt_keys (tasks s)) \<union> set (queue s)"
    using q get_in_keys [OF t] by (auto simp: at s1 y'(1))
qed (simp_all add: s1)

lemma place_drop_works:
  assumes "queue s = tid # q" "bt_get (tasks s) tid = None"
  shows "works s (s\<lparr>queue := q\<rparr>)"
proof (rule works_step)
  have b: "board_of (s\<lparr>queue := q\<rparr>) = board_of s\<lparr>b_queue := q\<rparr>" by (simp add: board_of_def)
  show "board_step (max_task_attempts (cfg s)) (board_of s) (board_of (s\<lparr>queue := q\<rparr>)) \<and>
      set (bt_keys (jobs (s\<lparr>queue := q\<rparr>))) \<subseteq> set (bt_keys (jobs s)) \<and>
      set (bt_keys (tasks (s\<lparr>queue := q\<rparr>))) \<union> set (queue (s\<lparr>queue := q\<rparr>)) \<subseteq> set (bt_keys (tasks s)) \<union> set (queue s)"
    using assms step_drop [of "board_of s" tid q] unfolding b by auto
qed simp_all

lemma queued_assign:
  assumes "sup_inv s" "queue s = tid # q" "bt_get (tasks s) tid = Some t"
  shows "\<exists>y. assign n at t = Inr y"
  using sup_inv_task(4) [OF assms(1,3)] assms(2) by (simp add: assign_Inr_iff)

text \<open>A rule for the loop: what holds of every pass, and composes, holds of the loop.\<close>

lemma dispatch_loop_rule:
  assumes "\<And>busy s r. P busy s \<Longrightarrow> placing sel busy s r \<Longrightarrow>
      case r of Inl s' \<Rightarrow> Q s s' | Inr (busy', s') \<Rightarrow> P busy' s' \<and> (\<forall>u. Q s' u \<longrightarrow> Q s u)"
    and "P busy s"
  shows "Q s (dispatch_loop sel busy s)"
  using assms(2)
proof (induction "length (queue s)" arbitrary: busy s rule: less_induct)
  case less
  note one = assms(1) [OF less.prems placing_dispatch_one]
  show ?case
  proof (cases "dispatch_one sel busy s")
    case (Inl s')
    then show ?thesis using one by (simp add: dispatch_loop.simps)
  next
    case (Inr p)
    then show ?thesis
      using one less.hyps dispatch_one_shorter by (cases p) (force simp: dispatch_loop.simps [of sel busy s])
  qed
qed

context scheduler
begin

lemma chosen_candidate:
  assumes "select_node t (candidates busy s) = Inr chosen"
  obtains i e h where "(i, e) \<in> set (nodes s)" "node_id (entry_node e) = chosen" "entry_handle e = Some h"
    "is_schedulable (entry_node e)" "chosen \<notin> set busy"
  using select_eligible [OF assms] by (fastforce simp: candidates_def bt_values_def)

lemma placing_works:
  assumes "placing select_node busy s r" "sup_inv s" "covers busy s"
  shows "case r of Inl s' \<Rightarrow> works s s' | Inr (busy', s') \<Rightarrow> works s s' \<and> covers busy' s'"
  using assms(1)
proof cases
  case (place_drop tid q)
  then show ?thesis using place_drop_works [of s tid q] assms(3) by (simp add: covers_def idle_def)
next
  case (place_illegal tid q t chosen now e s')
  then show ?thesis using queued_assign [OF assms(2), of tid q t chosen now] by simp
next
  case (place_refused tid q t chosen now y z s')
  then show ?thesis by (auto intro: place_refused_works)
next
  case (place_sent tid q t chosen now y e h s1 s')
  note y = sup_inv_task(1) [OF assms(2) place_sent(3)] requeue_keeps(5) [OF place_sent(5)]
  from place_sent(4) have "chosen \<notin> set busy" by (rule chosen_candidate)
  then have idle: "idle chosen (board_of s)" using assms(3) by (simp add: covers_def)
  have "works s s'" unfolding place_sent(10)
    using place_sent(2,3,5) idle by (rule place_sent_works) (simp_all add: place_sent(9))
  moreover have "assigned_to y = Some chosen" using place_sent(5) by (auto simp: assign_Inr_iff)
  then have "idle n (board_of s')" if "n \<noteq> chosen" "n \<notin> set busy" for n
    using that assms(3) sup_inv_tables(2) [OF assms(2)]
    by (intro idle_insert [of s n y s' tid]) (auto simp: covers_def place_sent(9,10) y)
  then have "covers (chosen # busy) s'" by (simp add: covers_def)
  ultimately show ?thesis by (simp add: place_sent(1))
qed simp_all

lemma works_dispatch_loop:
  "sup_inv s \<Longrightarrow> covers busy s \<Longrightarrow> works s (dispatch_loop select_node busy s)"
proof (rule dispatch_loop_rule [where P = "\<lambda>busy s. sup_inv s \<and> covers busy s" and Q = works])
  fix busy s r
  assume "sup_inv s \<and> covers busy s" "placing select_node busy s r"
  then show "case r of Inl s' \<Rightarrow> works s s'
      | Inr (busy', s') \<Rightarrow> (sup_inv s' \<and> covers busy' s') \<and> (\<forall>u. works s' u \<longrightarrow> works s u)"
    using placing_works [of busy s r] by (auto split: sum.splits intro: works_inv works_trans)
qed simp

lemma works_dispatch: "works s (dispatch select_node s)"
proof (cases "sup_inv s")
  case True
  then show ?thesis unfolding dispatch_def using covers_busy_nodes by (rule works_dispatch_loop)
next
  case False
  have "cfg (dispatch_loop select_node busy s) = cfg s" for busy
    by (rule dispatch_loop_rule [where P = "\<lambda>_ _. True" and Q = "\<lambda>s s'. cfg s' = cfg s"])
      (auto elim!: placing.cases)
  then show ?thesis using False by (simp add: works_def dispatch_def)
qed

end

section \<open>The other handlers\<close>

lemma works_sweep: "works s (sweep_health s)"
proof -
  obtain now s0 where c: "read_clock s = (now, s0)" by fastforce
  have t: "works u (sweep_transition p u)" for p u
    by (cases p; cases "snd p")
      (auto simp: sweep_transition_def intro: works_emit works_trans [OF works_emit works_requeue_tasks])
  have "works s (s0\<lparr>nodes := m\<rparr>)" for m using read_clock_frame [OF c] by (intro same_workI) simp_all
  then show ?thesis unfolding sweep_health_def c prod.case Let_def
    by (rule works_trans [OF _ works_foldl]) (rule t)
qed

lemma refresh_leadership_frame [frame_simps, simp]:
  "nodes (refresh_leadership el s) = nodes s" "jobs (refresh_leadership el s) = jobs s"
  "tasks (refresh_leadership el s) = tasks s" "queue (refresh_leadership el s) = queue s"
  "cfg (refresh_leadership el s) = cfg s" "store (refresh_leadership el s) = store s"
  "leader (refresh_leadership el s) = elect_leader el s"
  by (auto simp: refresh_leadership_def Let_def split: option.split)

lemma works_refresh: "works s (refresh_leadership el s)"
  by (rule same_workI) simp_all

lemma remove_all_keys: "set (bt_keys (foldl (\<lambda>m i. bt_remove i m) m gone)) \<subseteq> set (bt_keys m)"
  by (auto simp: bt_keys_get remove_all_get split: if_splits)

lemma retain_keys: "set (bt_keys (bt_retain P m)) \<subseteq> set (bt_keys m)"
  by (auto simp: bt_keys_def bt_retain_def)

lemma works_prune: "works s (prune_memory s)"
proof (cases "length (jobs s) \<le> job_buffer (cfg s)")
  case True
  then show ?thesis by (intro same_workI) (simp_all add: prune_memory_def)
next
  case False
  define gone where "gone = take (length (jobs s) - job_buffer (cfg s))
    (map job_id (filter (\<lambda>j. job_terminal (job_state j)) (bt_values (jobs s))))"
  let ?s = "prune_memory s"
  have s': "cfg ?s = cfg s" "store ?s = store s" "queue ?s = queue s"
    "jobs ?s = foldl (\<lambda>m i. bt_remove i m) (jobs s) gone"
    "tasks ?s = bt_retain (\<lambda>t. task_job t \<notin> set gone) (tasks s)"
    using False by (simp_all add: prune_memory_def Let_def gone_def)
  show ?thesis
  proof (rule works_step)
    assume i: "sup_inv s"
    note wf = sup_inv_tables(1) [OF i]
    have ids: "bt_get (jobs s) k = Some j \<Longrightarrow> job_id j = k" for k j
      using sup_inv_tables(3) [OF i] by (simp add: tables_ok_def)
    have "job_terminal (job_state j)" if "k \<in> set gone" "bt_get (jobs s) k = Some j" for k j
    proof -
      have "k \<in> job_id ` set (filter (\<lambda>j. job_terminal (job_state j)) (bt_values (jobs s)))"
        using that(1) in_set_takeD unfolding gone_def by (metis list.set_map)
      then obtain j' where "j' \<in> set (bt_values (jobs s))" "job_terminal (job_state j')" "job_id j' = k" by auto
      then show ?thesis using that(2) ids bt_values_get [OF wf, of j'] by fastforce
    qed
    then have "board_step (max_task_attempts (cfg s)) (board_of s)
        (board_of s\<lparr>b_jobs := foldl (\<lambda>m i. bt_remove i m) (b_jobs (board_of s)) gone,
           b_tasks := bt_retain (\<lambda>x. task_job x \<notin> set gone) (b_tasks (board_of s))\<rparr>)"
      by (intro step_forget) auto
    moreover have "board_of ?s = board_of s\<lparr>b_jobs := foldl (\<lambda>m i. bt_remove i m) (b_jobs (board_of s)) gone,
           b_tasks := bt_retain (\<lambda>x. task_job x \<notin> set gone) (b_tasks (board_of s))\<rparr>"
      by (rule board_of_eqI) (simp_all add: s')
    ultimately show "board_step (max_task_attempts (cfg s)) (board_of s) (board_of ?s) \<and>
        set (bt_keys (jobs ?s)) \<subseteq> set (bt_keys (jobs s)) \<and>
        set (bt_keys (tasks ?s)) \<union> set (queue ?s) \<subseteq> set (bt_keys (tasks s)) \<union> set (queue s)"
      using remove_all_keys [of "jobs s" gone] retain_keys [of _ "tasks s"] unfolding s' by auto
  qed (simp_all add: s')
qed

lemma works_started:
  assumes "bt_get (tasks s) tid = Some t" "start now t = Inr y"
  shows "works s (persist_task y (s\<lparr>tasks := bt_insert tid y (tasks s)\<rparr>))" (is "works s ?s")
proof (rule works_task_step)
  have b: "board_of ?s = board_of s\<lparr>b_tasks := bt_insert tid y (tasks s)\<rparr>" by (rule board_of_eqI) simp_all
  have "board_of s\<lparr>b_tasks := m, b_queue := queue s, b_jobs := jobs s\<rparr> = board_of s\<lparr>b_tasks := m\<rparr>" for m
    by (simp add: board_of_def)
  then show "\<exists>t q js. bt_get (tasks s) tid = Some t \<and>
      board_of ?s = board_of s\<lparr>b_tasks := bt_insert tid y (tasks s), b_queue := q, b_jobs := js\<rparr> \<and>
      set q \<subseteq> insert tid (set (queue s)) \<and> set (bt_keys js) \<subseteq> set (bt_keys (jobs s)) \<and>
      board_step (max_task_attempts (cfg s)) (board_of s) (board_of ?s)"
    using step_start [of "board_of s" tid t now y] assms unfolding b
    by (intro exI [of _ t] exI [of _ "queue s"] exI [of _ "jobs s"]) auto
qed simp_all

lemma apply_write_seq:
  "apply_write w st = Inr st' \<Longrightarrow> seq_job st' = seq_job st \<and> seq_task st' = seq_task st"
  by (cases w) (auto simp: save_task_def save_job_def store_failure_def append_event_def save_node_roles_def
      split: option.splits if_splits)

lemma works_drain: "works s (drain_one refused s)"
  by (rule same_work_works)
    (auto simp: same_work_def board_of_def drain_one_def dest: apply_write_seq split: list.split sum.split)

lemma store_call_frame:
  assumes "store_call f s = (r, s')"
  shows "cfg s' = cfg s" "jobs s' = jobs s" "tasks s' = tasks s" "queue s' = queue s" "nodes s' = nodes s"
    "leader s' = leader s" "event_seq s' = event_seq s" "published s' = published s" "events s' = events s"
    "gateway s' = gateway s" "outbox s' = outbox s" "writes s' = writes s"
  using assms by (auto simp: store_call_def Let_def split: if_splits sum.splits prod.splits)

lemma store_read_frame:
  assumes "store_read f s = (r, s')"
  shows "cfg s' = cfg s" "jobs s' = jobs s" "tasks s' = tasks s" "queue s' = queue s" "nodes s' = nodes s"
    "leader s' = leader s" "event_seq s' = event_seq s" "published s' = published s" "events s' = events s"
    "gateway s' = gateway s" "outbox s' = outbox s" "writes s' = writes s" "store s' = store s"
  using store_call_frame [OF assms [unfolded store_read_def]] store_read_cases(1) [OF assms] by simp_all

lemma works_store_read: "store_read f s = (r, s') \<Longrightarrow> works s s'"
  by (rule same_workI) (simp_all add: store_read_frame)

lemma works_job_detail: "works s (snd (job_detail i s))"
  unfolding job_detail_def Let_def
  by (auto split: option.split sum.split prod.split if_split) (meson works_store_read works_trans)+

lemma send_to_node_frame:
  assumes "send_to_node i m s = (r, s')"
  shows "cfg s' = cfg s" "jobs s' = jobs s" "tasks s' = tasks s" "queue s' = queue s" "nodes s' = nodes s"
    "store s' = store s" "leader s' = leader s" "event_seq s' = event_seq s" "published s' = published s"
    "events s' = events s" "gateway s' = gateway s"
  using assms by (auto simp: send_to_node_def try_send_def split: option.splits if_splits)

lemma works_send: "works s (snd (send_to_node i m s))"
  by (cases "send_to_node i m s") (auto intro!: same_workI simp: send_to_node_frame)

lemma works_pause: "works s (snd (pause_heartbeat i p s))"
  by (cases "send_to_node i (InPauseHeartbeat p) s")
    (auto intro!: same_workI simp: pause_heartbeat_def send_to_node_frame split: sum.split option.split)

lemma works_set_role: "works s (snd (set_role el i r enabled s))"
  by (rule same_workI) (auto simp: set_role_def Let_def split: option.split prod.split)

section \<open>Submission\<close>

lemma allocate_job_cases:
  assumes "allocate_job spec now s = (r, s')"
  shows "works s s'" "r = Inr (job, ts) \<Longrightarrow> job = new_job (seq_job (store s) + 1) spec now \<and>
      ts = allocated_tasks spec now (seq_job (store s) + 1) (seq_task (store s) + 1) \<and>
      seq_job (store s') = seq_job (store s) + 1 \<and> seq_task (store s') = seq_task (store s) + task_count spec"
    and "board_of s' = board_of s" "cfg s' = cfg s"
proof -
  have n: "max (task_count spec) (Suc 0) = task_count spec" using task_count_pos [of spec] by simp
  have "same_work s s'"
    using assms by (auto simp: allocate_job_def same_work_def board_of_def store_call_def next_job_id_def
        reserve_task_ids_def Let_def split: if_splits)
  then show "works s s'" "board_of s' = board_of s" "cfg s' = cfg s"
    by (simp_all add: same_work_works) (simp_all add: same_work_def)
  show "job = new_job (seq_job (store s) + 1) spec now \<and>
      ts = allocated_tasks spec now (seq_job (store s) + 1) (seq_task (store s) + 1) \<and>
      seq_job (store s') = seq_job (store s) + 1 \<and> seq_task (store s') = seq_task (store s) + task_count spec"
    if "r = Inr (job, ts)"
    using assms that by (auto simp: allocate_job_def store_call_def next_job_id_def reserve_task_ids_def Let_def
        allocated_tasks_def length_split_spec n split: if_splits)
qed

lemma insert_tasks_seq:
  "insert_tasks ts st = Inr st' \<Longrightarrow> seq_job st' = seq_job st \<and> seq_task st' = seq_task st"
  by (induction ts arbitrary: st) (auto split: if_splits)

lemma store_write_create:
  assumes "store_write (create_job j ts) s = (r, s')"
  shows "board_of s' = board_of s" "cfg s' = cfg s" "seq_job (store s') = seq_job (store s)"
    "seq_task (store s') = seq_task (store s)"
  using assms insert_tasks_seq
  by (fastforce simp: store_write_def store_call_def create_job_def board_of_def Let_def
      split: if_splits sum.splits prod.splits)+

lemma foldl_enqueue:
  fixes s :: supervisor
  defines "add \<equiv> foldl (\<lambda>s t. s\<lparr>queue := queue s @ [task_id t], tasks := bt_insert (task_id t) t (tasks s)\<rparr>)"
  shows "queue (add s ts) = queue s @ map task_id ts"
    "tasks (add s ts) = foldl (\<lambda>m x. bt_insert (task_id x) x m) (tasks s) ts"
    "jobs (add s ts) = jobs s" "cfg (add s ts) = cfg s" "store (add s ts) = store s" "nodes (add s ts) = nodes s"
    "leader (add s ts) = leader s" "event_seq (add s ts) = event_seq s" "published (add s ts) = published s"
    "events (add s ts) = events s" "gateway (add s ts) = gateway s"
  unfolding add_def by (induction ts arbitrary: s) auto

lemma foldl_insert_keys:
  "set (bt_keys (foldl (\<lambda>m x. bt_insert (task_id x) x m) m ts)) = set (bt_keys m) \<union> task_id ` set ts"
  by (induction ts arbitrary: m) auto

lemma works_submitted:
  assumes fits: "task_count spec \<le> u16_max"
    and job: "job = new_job (seq_job (store s) + 1) spec now"
    and ts: "ts = allocated_tasks spec now (seq_job (store s) + 1) (seq_task (store s) + 1)"
    and s': "cfg s' = cfg s" "jobs s' = bt_insert (job_id job) job (jobs s)"
      "tasks s' = foldl (\<lambda>m x. bt_insert (task_id x) x m) (tasks s) ts" "queue s' = queue s @ map task_id ts"
      "seq_job (store s') = seq_job (store s) + 1" "seq_task (store s') = seq_task (store s) + task_count spec"
  shows "works s s'"
  unfolding works_def
proof (intro conjI impI)
  assume i: "sup_inv s"
  then have known: "ids_known s" by (simp add: sup_inv_def)
  have new: "bt_get (jobs s) (seq_job (store s) + 1) = None" "bt_get (tasks s) k = None" "k \<notin> set (queue s)"
    if "seq_task (store s) < k" for k
    using known that unfolding ids_known_def bt_get_None_iff by (meson UnI1 UnI2 leD less_add_one)+
  have tids: "map task_id ts = [seq_task (store s) + 1..<seq_task (store s) + 1 + task_count spec]"
    unfolding ts by (rule allocated_ids)
  have jid: "job_id job = seq_job (store s) + 1" "job_task_count job = task_count spec" by (simp_all add: job new_job_def)
  have b: "board_of s' = board_of s\<lparr>b_jobs := bt_insert (job_id job) job (b_jobs (board_of s)),
      b_tasks := foldl (\<lambda>m x. bt_insert (task_id x) x m) (b_tasks (board_of s)) ts,
      b_queue := b_queue (board_of s) @ map task_id ts\<rparr>"
    by (rule board_of_eqI) (simp_all add: s')
  have step: "board_step (max_task_attempts (cfg s)) (board_of s) (board_of s')"
    unfolding b
  proof (rule step_submit [where spec = spec and at = now])
    show "bt_get (b_jobs (board_of s)) (job_id job) = None" using new(1) [of "seq_task (store s) + 1"] jid by simp
    show "job_task_count job = length ts" "job_task_count job \<le> u16_max"
      using fits by (simp_all add: jid ts allocated_tasks_props)
    show "distinct (map task_id ts)" by (simp only: tids distinct_upt)
    show "\<forall>x\<in>set ts. task_job x = job_id job \<and> task_state x = TaskQueued \<and> task_wf x \<and>
        bt_get (b_tasks (board_of s)) (task_id x) = None \<and> task_id x \<notin> set (b_queue (board_of s))"
    proof
      fix x assume "x \<in> set ts"
      note x = allocated_in [OF this [unfolded ts]]
      show "task_job x = job_id job \<and> task_state x = TaskQueued \<and> task_wf x \<and>
        bt_get (b_tasks (board_of s)) (task_id x) = None \<and> task_id x \<notin> set (b_queue (board_of s))"
        using x new [of "task_id x"] jid by simp
    qed
  qed (simp add: job new_job_def)
  have "task_id ` set ts = set [seq_task (store s) + 1..<seq_task (store s) + 1 + task_count spec]"
    using arg_cong [OF tids, of set] by simp
  then have "ids_known s'"
    using known unfolding ids_known_def s' foldl_insert_keys by (auto simp: jid intro: trans_le_add1)
  then show "sup_inv s'" using board_step_inv [OF step] i by (simp add: sup_inv_def s')
  show "board_steps (max_task_attempts (cfg s)) (board_of s) (board_of s')" using step by (rule board_steps_one)
qed (fact s')

section \<open>Every turn of the loop\<close>

lemma attach_identity_frame:
  assumes "attach_identity asked caps now s = Inr (i, s')"
  shows "cfg s' = cfg s" "jobs s' = jobs s" "tasks s' = tasks s" "queue s' = queue s" "store s' = store s"
    "leader s' = leader s" "event_seq s' = event_seq s" "published s' = published s" "events s' = events s"
    "gateway s' = gateway s"
  using assms by (auto simp: attach_identity_def Let_def split: option.splits)

lemma launch_node_frame [simp]:
  "cfg (launch_node i s) = cfg s" "jobs (launch_node i s) = jobs s" "tasks (launch_node i s) = tasks s"
  "queue (launch_node i s) = queue s" "store (launch_node i s) = store s" "leader (launch_node i s) = leader s"
  "event_seq (launch_node i s) = event_seq s" "published (launch_node i s) = published s"
  "events (launch_node i s) = events s" "gateway (launch_node i s) = gateway s"
  by (simp_all add: launch_node_def Let_def read_clock_def split: option.split)

lemma works_nodes: "works s (s\<lparr>nodes := m\<rparr>)"
  by (rule same_workI) simp_all

lemma works_persist_roles: "works s (persist_roles i r s)"
  by (rule same_workI) simp_all

context scheduler
begin

lemma works_settle_nodes: "works s (dispatch select_node (refresh_leadership el s))"
  using works_refresh works_dispatch by (rule works_trans)

lemma works_submit:
  assumes "task_count spec \<le> u16_max"
  shows "works s (snd (submit_job select_node spec s))"
proof -
  obtain now s0 where c: "read_clock s = (now, s0)" by fastforce
  have s0: "works s s0" using read_clock_frame [OF c] by (intro same_workI)
  obtain r s1 where a: "allocate_job spec now s0 = (r, s1)" by fastforce
  note alloc = allocate_job_cases [OF a]
  show ?thesis
  proof (cases r)
    case (Inl e)
    then show ?thesis using works_trans [OF s0 alloc(1)] by (simp add: submit_job_def c a)
  next
    case (Inr p)
    obtain job ts where p: "p = (job, ts)" by fastforce
    note new = alloc(2) [OF Inr [unfolded p]]
    obtain r2 s2 where w: "store_write (create_job job ts) s1 = (r2, s2)" by fastforce
    note wr = store_write_create [OF w]
    have b: "jobs s2 = jobs s0" "tasks s2 = tasks s0" "queue s2 = queue s0" "cfg s2 = cfg s0"
      using wr(1,2) alloc(3,4) by (simp_all add: board_of_def)
    show ?thesis
    proof (cases r2)
      case (Inl e)
      have "works s0 s2" by (rule same_work_works) (use wr alloc(3,4) new in \<open>simp add: same_work_def\<close>)
      then show ?thesis using works_trans [OF s0] Inr p Inl by (simp add: submit_job_def c a w)
    next
      case ok: (Inr u)
      let ?s = "emit (EvJobCreated (job_id job)) (foldl (\<lambda>s t. s\<lparr>queue := queue s @ [task_id t],
        tasks := bt_insert (task_id t) t (tasks s)\<rparr>) (s2\<lparr>jobs := bt_insert (job_id job) job (jobs s2)\<rparr>) ts)"
      have "works s0 ?s"
        using assms new by (rule_tac works_submitted) (auto simp: foldl_enqueue b wr)
      from works_trans [OF s0 works_trans [OF this works_dispatch]] show ?thesis
        using Inr p ok by (simp add: submit_job_def c a w)
    qed
  qed
qed

lemma works_attach: "works s (snd (attach_remote select_node el asked caps conn s))"
proof -
  obtain now s0 where c: "read_clock s = (now, s0)" by fastforce
  have s0: "works s s0" using read_clock_frame [OF c] by (intro same_workI)
  show ?thesis
  proof (cases "attach_identity asked caps now s0")
    case (Inl why)
    with s0 show ?thesis by (simp add: attach_remote_def c)
  next
    case (Inr p)
    obtain i s1 where p: "p = (i, s1)" by fastforce
    have s1: "works s s1" using works_trans [OF s0 same_workI] attach_identity_frame [OF Inr [unfolded p]] by simp
    have keep: "works s1 (s1\<lparr>terminated := x, nodes := m\<rparr>)" "works s1 (s1\<lparr>nodes := m\<rparr>)" for x m
      by (rule same_workI; simp)+
    note tail = works_trans [OF works_trans [OF works_persist_roles works_emit] works_settle_nodes]
    show ?thesis
      using s1 works_trans [OF works_trans [OF s1 keep(1)] tail] works_trans [OF works_trans [OF s1 keep(2)] tail]
      by (auto simp: attach_remote_def c Inr p Let_def split: option.split)
  qed
qed

lemma works_detach: "works s (detach_remote select_node el i g s)"
proof -
  have r: "works s (requeue_tasks_of i (emit e (s\<lparr>nodes := m\<rparr>)))" for e m
    by (rule works_trans [OF works_trans [OF works_nodes works_emit] works_requeue_tasks])
  show ?thesis
    using works_trans [OF r works_settle_nodes]
      works_trans [OF works_trans [OF works_trans [OF r works_nodes] works_persist_roles] works_settle_nodes]
    by (auto simp: detach_remote_def Let_def split: option.split)
qed

lemma works_stop: "works s (snd (stop_node select_node el i s))"
proof -
  have "works s (s\<lparr>terminated := x, nodes := m\<rparr>)" for x m by (rule same_workI) simp_all
  from works_trans [OF works_trans [OF works_trans [OF this works_emit] works_requeue_tasks] works_settle_nodes]
  show ?thesis by (auto simp: stop_node_def Let_def split: option.split)
qed

lemma works_start: "works s (snd (start_node select_node el i s))"
proof -
  have "works s (launch_node i s)" by (rule same_workI) simp_all
  from works_trans [OF works_trans [OF this works_emit] works_settle_nodes]
  show ?thesis by (auto simp: start_node_def Let_def split: option.split)
qed

lemma works_tick: "works s (tick select_node el s)"
  unfolding tick_def by (rule works_trans [OF works_trans [OF works_sweep works_settle_nodes] works_prune])

lemma works_report: "works s (handle_report select_node r s)"
proof (cases r)
  case (ReportHeartbeat hb)
  obtain now s0 where c: "read_clock s = (now, s0)" by fastforce
  show ?thesis using read_clock_frame [OF c]
    by (intro same_workI) (simp_all add: ReportHeartbeat c split: option.split)
next
  case (ReportStarted node t)
  obtain now s0 where c: "read_clock s = (now, s0)" by fastforce
  have s0: "works s s0" using read_clock_frame [OF c] by (intro same_workI)
  show ?thesis using s0 works_trans [OF s0 works_started]
    by (auto simp: ReportStarted c split: option.split sum.split)
next
  case (ReportFinished node t out)
  then show ?thesis using works_trans [OF works_finish works_dispatch] by simp
qed

lemma works_run_one: "input_fits i \<Longrightarrow> works s (run_one select_node el i s)"
proof (cases i)
  case (InCommand c)
  assume "input_fits i"
  then show ?thesis unfolding InCommand
    by (cases c) (simp_all add: works_job_detail works_submit works_set_role works_stop works_start works_pause
        works_send works_attach works_detach)
qed (simp_all add: works_report works_tick works_drain)

end

text \<open>
  C2: Each turn of the supervisor's loop, whatever the command, report, tick or drained write, and
  whatever clock, mailboxes and database do meanwhile, changes jobs, tasks and queue only as the board
  specification allows, by a sequence of its steps: tasks are placed only from the head of the queue on a
  node that holds none, retried only with attempts left, given up only without, and a job's counters and
  state move only with its tasks. The board's invariant and the freshness of ids are kept.
\<close>
theorem supervisor_refines_board:
  assumes "sup_inv s" "input_fits i"
  shows "board_steps (max_task_attempts (cfg s)) (board_of s) (board_of (run_one least_loaded lowest_healthy_id i s)) \<and>
    sup_inv (run_one least_loaded lowest_healthy_id i s)"
  using ll.works_run_one [OF assms(2), of s lowest_healthy_id] assms(1) by (simp add: works_def)

definition demo_supervisor :: supervisor where
  "demo_supervisor = new_supervisor (default_config None) empty_store (\<lambda>_. False) (\<lambda>n. n) (\<lambda>_. True)"

lemma demo_inv: "sup_inv demo_supervisor"
  using board_inv_empty [of 3]
  by (simp add: sup_inv_def ids_known_def board_of_def demo_supervisor_def new_supervisor_def default_config_def bt_keys_def)

definition demo_submit :: loop_input where
  "demo_submit = InCommand (CmdSubmitJob (JobSleep 10 3))"

lemma demo_submit_fits: "input_fits demo_submit"
  by (simp add: demo_submit_def task_count_def)

theorem supervisor_refines_board_witness:
  "sup_inv demo_supervisor \<and> input_fits demo_submit \<and>
   board_steps 3 (board_of demo_supervisor) (board_of (run_one least_loaded lowest_healthy_id demo_submit demo_supervisor))"
  using supervisor_refines_board [OF demo_inv demo_submit_fits] demo_inv demo_submit_fits
  by (simp add: demo_supervisor_def new_supervisor_def default_config_def)

end
