(* ===== verification/Membership.thy ===== *)
theory Membership
  imports Supervision
begin

text \<open>
  The registry of nodes, the tasks they hold and the leader. A node that accepts work has a mailbox; a task
  that a node holds is held by a registered node that has a mailbox and is healthy or suspect, so every way
  a node goes away gives its tasks back; and the leader is always the one the elector chooses from the
  nodes as they are.
\<close>

section \<open>The invariant\<close>

definition registry_ok :: "supervisor \<Rightarrow> bool" where
  "registry_ok s \<longleftrightarrow> bt_wf (nodes s) \<and>
     (\<forall>i e. bt_get (nodes s) i = Some e \<longrightarrow> node_id (entry_node e) = i \<and>
        (accepts_work (node_status (entry_node e)) \<longrightarrow> entry_handle e \<noteq> None))"

definition serving :: "node_entry \<Rightarrow> bool" where
  "serving e \<longleftrightarrow> entry_handle e \<noteq> None \<and> node_status (entry_node e) \<in> {Healthy, Suspect}"

definition holds :: "supervisor \<Rightarrow> nodeid \<Rightarrow> taskid \<Rightarrow> bool" where
  "holds s n k \<longleftrightarrow> (\<exists>t. bt_get (tasks s) k = Some t \<and> active t \<and> assigned_to t = Some n)"

definition holders_ok :: "supervisor \<Rightarrow> bool" where
  "holders_ok s \<longleftrightarrow> (\<forall>n k. holds s n k \<longrightarrow> (\<exists>e. bt_get (nodes s) n = Some e \<and> serving e))"

definition members_ok :: "supervisor \<Rightarrow> bool" where
  "members_ok s \<longleftrightarrow> registry_ok s \<and> holders_ok s"

lemma registryD:
  assumes "registry_ok s" "bt_get (nodes s) i = Some e"
  shows "node_id (entry_node e) = i" "accepts_work (node_status (entry_node e)) \<Longrightarrow> entry_handle e \<noteq> None"
  using assms by (auto simp: registry_ok_def)

lemma registry_insert:
  assumes "registry_ok s" "nodes s' = bt_insert i e (nodes s)" "node_id (entry_node e) = i"
    "accepts_work (node_status (entry_node e)) \<Longrightarrow> entry_handle e \<noteq> None"
  shows "registry_ok s'"
  using assms by (auto simp: registry_ok_def split: if_splits)

lemma holders_insert:
  assumes "holders_ok s" "nodes s' = bt_insert i e (nodes s)" "\<And>n k. holds s' n k \<Longrightarrow> holds s n k"
    "\<And>k e0. holds s' i k \<Longrightarrow> bt_get (nodes s) i = Some e0 \<Longrightarrow> serving e0 \<Longrightarrow> serving e"
  shows "holders_ok s'"
  unfolding holders_ok_def
proof (intro allI impI)
  fix n k
  assume h: "holds s' n k"
  then obtain e0 where "bt_get (nodes s) n = Some e0" "serving e0" using assms(1,3) unfolding holders_ok_def by metis
  then show "\<exists>e. bt_get (nodes s') n = Some e \<and> serving e"
    using h assms(2,4) by (cases "n = i") auto
qed

section \<open>Work that only ends\<close>

text \<open>Between two states with the same nodes, no node has come to hold a task it did not hold.\<close>

definition releases :: "supervisor \<Rightarrow> supervisor \<Rightarrow> bool" where
  "releases s s' \<longleftrightarrow> nodes s' = nodes s \<and> leader s' = leader s \<and> (\<forall>n k. holds s' n k \<longrightarrow> holds s n k)"

lemma releases_refl [simp]: "releases s s"
  by (simp add: releases_def)

lemma releases_trans [trans]: "releases s t \<Longrightarrow> releases t u \<Longrightarrow> releases s u"
  by (simp add: releases_def)

lemma releases_foldl: "(\<And>s x. x \<in> set xs \<Longrightarrow> releases s (f s x)) \<Longrightarrow> releases s (foldl f s xs)"
  by (induction xs arbitrary: s) (auto intro: releases_trans)

lemma releases_same: "nodes s' = nodes s \<Longrightarrow> leader s' = leader s \<Longrightarrow> tasks s' = tasks s \<Longrightarrow> releases s s'"
  by (simp add: releases_def holds_def)

lemma releases_members: "releases s s' \<Longrightarrow> members_ok s \<Longrightarrow> members_ok s'"
  unfolding releases_def members_ok_def registry_ok_def holders_ok_def by metis

lemma releases_emit: "releases s (emit e s)" and releases_record: "releases s (record_failure t why d s)"
  by (simp_all add: releases_same)

lemma releases_task:
  assumes "nodes s' = nodes s" "leader s' = leader s" "tasks s' = bt_insert k y (tasks s)"
    "active y \<Longrightarrow> \<exists>t. bt_get (tasks s) k = Some t \<and> active t \<and> assigned_to t = assigned_to y"
  shows "releases s s'"
  using assms by (auto simp: releases_def holds_def)

lemma releases_retry: "releases s (retry_or_give_up tid now s)"
proof -
  have "\<not> active y" if "requeue now t = Inr y \<or> fail now t = Inr y" for t y
    using that by (auto simp: task_op_Inr_iff active_def)
  then show ?thesis
    unfolding retry_or_give_up_def Let_def
    by (auto split: option.split sum.split intro!: releases_task)
qed

lemma releases_failed: "releases s (retry_or_give_up tid now (emit e (record_failure t why d s)))"
  by (rule releases_trans [OF releases_trans [OF releases_record releases_emit] releases_retry])

lemma releases_finish: "releases s (finish_task node tid outcome s)"
proof -
  obtain now s0 where c: "read_clock s = (now, s0)" by fastforce
  have s0: "releases s s0" using read_clock_frame [OF c] by (simp add: releases_same)
  have "\<not> active y" if "complete out now t = Inr y" for out t y
    using that by (auto simp: task_op_Inr_iff active_def)
  then have "releases s0 (finish_task node tid outcome s)"
    unfolding finish_task_def c prod.case Let_def
    by (auto split: option.split sum.split task_outcome.split
        intro: releases_failed releases_task)
  with s0 show ?thesis by (rule releases_trans)
qed

lemma not_retried_active:
  assumes "sup_inv s" "bt_get (tasks (retry_or_give_up tid now s)) tid = Some t"
  shows "\<not> active t"
proof (cases "bt_get (tasks s) tid")
  case None
  then show ?thesis using assms(2) by (simp add: retry_or_give_up_def)
next
  case (Some x)
  have x: "task_id x = tid" using sup_inv_task(1) [OF assms(1) Some] .
  have stays: "requeue now x = Inl e \<Longrightarrow> \<not> active x" "fail now x = Inl e \<Longrightarrow> \<not> active x" for e
    by (cases "task_state x"; simp add: task_op_defs active_def)+
  have changed: "task_id y = tid \<and> \<not> active y" if "requeue now x = Inr y \<or> fail now x = Inr y" for y
    using that x by (auto simp: task_op_Inr_iff active_def)
  show ?thesis
  proof (cases "attempt x < max_task_attempts (cfg s)")
    case True
    then show ?thesis
      using assms(2) Some stays changed by (cases "requeue now x") (simp_all add: retry_or_give_up_def Let_def)
  next
    case False
    then show ?thesis
      using assms(2) Some stays changed by (cases "fail now x") (simp_all add: retry_or_give_up_def Let_def)
  qed
qed

text \<open>After \<open>requeue_tasks_of\<close> the node holds nothing.\<close>

lemma requeue_releases: "releases s (requeue_tasks_of n s)"
proof -
  obtain now s0 where c: "read_clock s = (now, s0)" by fastforce
  have s0: "releases s s0" using read_clock_frame [OF c] by (simp add: releases_same)
  show ?thesis unfolding requeue_tasks_of_def c prod.case Let_def
    by (rule releases_trans [OF s0], rule releases_foldl)
      (auto split: option.split intro: releases_failed)
qed

text \<open>One turn of the loop in \<open>requeue_tasks_of\<close>.\<close>

definition lose_task :: "nodeid \<Rightarrow> millis \<Rightarrow> supervisor \<Rightarrow> taskid \<Rightarrow> supervisor" where
  "lose_task n now s k =
     (case bt_get (tasks s) k of
        None \<Rightarrow> s
      | Some t \<Rightarrow> retry_or_give_up k now (emit (EvTaskFailed k (Some n) NodeOffline)
          (record_failure t NodeOffline ''node went offline'' s)))"

lemma lose_task_releases: "releases s (lose_task n now s k)"
  by (auto simp: lose_task_def split: option.split intro: releases_failed)

lemma lose_task_works: "works s (lose_task n now s k)"
  by (auto simp: lose_task_def split: option.split
      intro: works_trans [OF works_trans [OF works_record works_emit] works_retry])

lemma lose_task_lost: "sup_inv s \<Longrightarrow> \<not> holds (lose_task n now s k) m k"
  using not_retried_active works_inv [OF works_trans [OF works_record works_emit]]
  by (auto simp: lose_task_def holds_def split: option.splits) blast

lemma lose_tasks_lost:
  "sup_inv s \<Longrightarrow> k \<in> set ks \<Longrightarrow> \<not> holds (foldl (lose_task n now) s ks) m k"
proof (induction ks arbitrary: s)
  case (Cons a ks)
  have i: "sup_inv (lose_task n now s a)" using works_inv [OF lose_task_works Cons.prems(1)] .
  show ?case
  proof (cases "k \<in> set ks")
    case True
    then show ?thesis using Cons.IH [OF i] by simp
  next
    case False
    then have "\<not> holds (lose_task n now s a) m k" using Cons.prems lose_task_lost by simp
    moreover have "releases (lose_task n now s a) (foldl (lose_task n now) (lose_task n now s a) ks)"
      by (rule releases_foldl) (rule lose_task_releases)
    ultimately show ?thesis by (auto simp: releases_def)
  qed
qed simp

lemma requeue_clears:
  assumes "sup_inv s"
  shows "\<not> holds (requeue_tasks_of n s) n k"
proof
  assume h: "holds (requeue_tasks_of n s) n k"
  obtain now s0 where c: "read_clock s = (now, s0)" by fastforce
  have s0: "tasks s0 = tasks s" "sup_inv s0"
    using read_clock_frame [OF c] works_inv [OF same_workI assms] by auto
  define ks where "ks = map task_id (filter (\<lambda>t. assigned_to t = Some n \<and> \<not> task_terminal (task_state t)) (bt_values (tasks s0)))"
  have e: "requeue_tasks_of n s = foldl (lose_task n now) s0 ks"
    unfolding requeue_tasks_of_def c prod.case Let_def ks_def lose_task_def by (simp add: Let_def)
  have "holds s n k" using requeue_releases h by (simp add: releases_def)
  then obtain t where t: "bt_get (tasks s) k = Some t" "active t" "assigned_to t = Some n" by (auto simp: holds_def)
  then have "task_id t = k" using sup_inv_task(1) [OF assms] by simp
  moreover have "t \<in> set (bt_values (tasks s0))"
    using t(1) bt_values_get [OF sup_inv_tables(2) [OF s0(2)], of t] s0(1) by metis
  ultimately have "k \<in> set ks" using t(2,3) by (force simp: ks_def active_def)
  then show False using lose_tasks_lost [OF s0(2)] h unfolding e by blast
qed

section \<open>Election\<close>

text \<open>What an election may depend on: a heartbeat changes none of it.\<close>

definition node_view :: "node \<Rightarrow> nodeid \<times> node_status \<times> roleset" where
  "node_view n = (node_id n, node_status n, node_roles n)"

locale steady_elector = elector +
  assumes elect_view: "map node_view ns = map node_view ms \<Longrightarrow> elect ns = elect ms"

lemma min_by_key_view: "map f xs = map f ys \<Longrightarrow> map_option f (min_by_key f xs) = map_option f (min_by_key f ys)"
proof (induction xs arbitrary: ys)
  case (Cons x xs)
  then obtain y ys' where y: "ys = y # ys'" "f x = f y" "map f xs = map f ys'" by (cases ys) auto
  have "map_option f (min_by_key f xs) = map_option f (min_by_key f ys')" using Cons.IH [OF y(3)] .
  then show ?case using y(1,2) by (cases "min_by_key f xs"; cases "min_by_key f ys'") auto
qed simp

lemma filter_view:
  assumes "map g xs = map g ys"
  shows "map g (filter (\<lambda>x. P (g x)) xs) = map g (filter (\<lambda>x. P (g x)) ys)"
proof -
  have "map g (filter (\<lambda>x. P (g x)) zs) = filter P (map g zs)" for zs by (induction zs) auto
  then show ?thesis using assms by simp
qed

interpretation lh: steady_elector lowest_healthy_id
proof unfold_locales
  fix ns ms
  assume v: "map node_view ns = map node_view ms"
  have h: "filter (\<lambda>n. accepts_work (node_status n)) zs = filter (\<lambda>n. accepts_work (fst (snd (node_view n)))) zs" for zs
    by (simp add: node_view_def)
  have "map node_view (filter (\<lambda>n. accepts_work (node_status n)) ns) =
      map node_view (filter (\<lambda>n. accepts_work (node_status n)) ms)"
    unfolding h using filter_view [OF v, of "\<lambda>x. accepts_work (fst (snd x))"] .
  then have "map node_id (filter (\<lambda>n. accepts_work (node_status n)) ns) =
      map node_id (filter (\<lambda>n. accepts_work (node_status n)) ms)"
    by (auto dest!: arg_cong [of _ _ "map fst"] simp: node_view_def comp_def)
  then show "lowest_healthy_id ns = lowest_healthy_id ms"
    unfolding lowest_healthy_id_def by (rule min_by_key_view)
qed

definition entries_view :: "supervisor \<Rightarrow> (nodeid \<times> node_status \<times> roleset) list" where
  "entries_view s = map (node_view \<circ> entry_node) (bt_values (nodes s))"

context steady_elector
begin

lemma elect_leader_view:
  assumes "entries_view s' = entries_view s"
  shows "elect_leader elect s' = elect_leader elect s"
proof -
  let ?g = "node_view \<circ> entry_node"
  have m: "map node_view (map entry_node (filter (\<lambda>e. P (?g e)) (bt_values (nodes s')))) =
      map node_view (map entry_node (filter (\<lambda>e. P (?g e)) (bt_values (nodes s))))" for P
    using filter_view [OF assms [unfolded entries_view_def], of P] by simp
  have "elect (map entry_node (filter (\<lambda>e. accepts_work (node_status (entry_node e)) \<and> has_role (entry_node e) Coordinator) (bt_values (nodes s')))) =
      elect (map entry_node (filter (\<lambda>e. accepts_work (node_status (entry_node e)) \<and> has_role (entry_node e) Coordinator) (bt_values (nodes s))))"
    using elect_view [OF m [of "\<lambda>(_, st, rs). accepts_work st \<and> roleset_contains rs Coordinator"]]
    by (simp add: node_view_def has_role_def)
  moreover have "elect (map entry_node (filter (\<lambda>e. accepts_work (node_status (entry_node e))) (bt_values (nodes s')))) =
      elect (map entry_node (filter (\<lambda>e. accepts_work (node_status (entry_node e))) (bt_values (nodes s))))"
    using elect_view [OF m [of "\<lambda>(_, st, _). accepts_work st"]] by (simp add: node_view_def)
  ultimately show ?thesis by (simp add: elect_leader_def Let_def split: option.split)
qed

end

lemma entries_view_insert:
  assumes "bt_wf (nodes s)" "bt_get (nodes s) i = Some e" "nodes s' = bt_insert i e' (nodes s)"
    "node_view (entry_node e') = node_view (entry_node e)"
  shows "entries_view s' = entries_view s"
proof -
  have "map (node_view \<circ> entry_node) (bt_values (bt_insert i e' m)) = map (node_view \<circ> entry_node) (bt_values m)"
    if "bt_wf m" "bt_get m i = Some e" for m
    using that
  proof (induction m)
    case (Cons p m)
    obtain a b where p: "p = (a, b)" by (cases p)
    have "bt_wf m" "i < a \<Longrightarrow> bt_get m i = None"
      using Cons.prems(1) bt_get_below unfolding p by (auto simp: bt_wf_def)
    then show ?case
      using assms(4) Cons.IH Cons.prems(2) unfolding p by (auto simp: bt_values_def bt_get_Cons split: if_splits)
  qed simp
  then show ?thesis using assms by (simp add: entries_view_def)
qed

definition led :: "election \<Rightarrow> supervisor \<Rightarrow> bool" where
  "led el s \<longleftrightarrow> leader s = elect_leader el s"

lemma led_refresh: "led el (refresh_leadership el s)"
  by (simp add: led_def elect_leader_def)

lemma led_same: "led el s \<Longrightarrow> nodes s' = nodes s \<Longrightarrow> leader s' = leader s \<Longrightarrow> led el s'"
  by (simp add: led_def elect_leader_def)

section \<open>Handlers\<close>

lemma members_refresh: "members_ok s \<Longrightarrow> members_ok (refresh_leadership el s)"
  unfolding members_ok_def registry_ok_def holders_ok_def holds_def by simp

lemma members_insert:
  assumes "members_ok s" "nodes s' = bt_insert i e (nodes s)" "tasks s' = tasks s"
    "bt_get (nodes s) i = Some e0" "node_id (entry_node e) = node_id (entry_node e0)"
    "accepts_work (node_status (entry_node e)) \<Longrightarrow> entry_handle e \<noteq> None" "serving e0 \<Longrightarrow> serving e"
  shows "members_ok s'"
  unfolding members_ok_def
proof
  have "node_id (entry_node e0) = i" using assms(1,4) registryD(1) by (auto simp: members_ok_def)
  then show "registry_ok s'" using assms by (intro registry_insert [of s s' i e]) (auto simp: members_ok_def)
  have "holds s' n k = holds s n k" for n k using assms(3) by (simp add: holds_def)
  then show "holders_ok s'" using assms by (intro holders_insert [of s s' i e]) (auto simp: members_ok_def)
qed

text \<open>A node that goes: its entry may become anything that serves nobody, once its tasks are given back.\<close>

lemma members_leave:
  assumes "members_ok s" "sup_inv s" "bt_get (nodes s) i = Some e"
    "nodes s1 = bt_insert i (offline_entry e) (nodes s)" "tasks s1 = tasks s" "sup_inv s1"
  shows "members_ok (requeue_tasks_of i s1)" "\<not> holds (requeue_tasks_of i s1) i k"
proof -
  let ?s = "requeue_tasks_of i s1"
  show gone: "\<not> holds ?s i k" for k using requeue_clears [OF assms(6)] .
  have n: "nodes ?s = bt_insert i (offline_entry e) (nodes s)" and h: "holds ?s n k \<Longrightarrow> holds s n k" for n k
    using requeue_releases [of s1 i] assms(4,5) by (auto simp: releases_def holds_def)
  have e: "node_id (entry_node e) = i" using assms(1,3) registryD(1) by (auto simp: members_ok_def)
  have "registry_ok ?s"
    using assms(1) e by (intro registry_insert [OF _ n]) (auto simp: members_ok_def offline_entry_def accepts_work_def)
  moreover have "holders_ok ?s"
    using assms(1) h gone by (intro holders_insert [OF _ n]) (auto simp: members_ok_def)
  ultimately show "members_ok ?s" by (simp add: members_ok_def)
qed

lemma dispatch_frame:
  "nodes (dispatch_loop sel busy s) = nodes s \<and> leader (dispatch_loop sel busy s) = leader s \<and>
   gateway (dispatch_loop sel busy s) = gateway s"
proof (rule dispatch_loop_rule [where P = "\<lambda>_ _. True" and
      Q = "\<lambda>s s'. nodes s' = nodes s \<and> leader s' = leader s \<and> gateway s' = gateway s"])
  have "gateway (emit e s) = gateway s" "gateway (persist_task t s) = gateway s" "gateway (start_job_if_queued j s) = gateway s" for e t j s
    by (simp_all add: emit_def persist_task_def start_job_if_queued_def persist_job_def push_def read_clock_def Let_def split: option.split sum.split)
  then show "case r of Inl s' \<Rightarrow> nodes s' = nodes s \<and> leader s' = leader s \<and> gateway s' = gateway s
      | Inr (busy', s') \<Rightarrow> True \<and> (\<forall>u. nodes u = nodes s' \<and> leader u = leader s' \<and> gateway u = gateway s' \<longrightarrow>
          nodes u = nodes s \<and> leader u = leader s \<and> gateway u = gateway s)"
    if "placing sel busy s r" for busy s r
    using that by (auto elim!: placing.cases)
qed simp

lemma dispatch_nodes [simp]:
  "nodes (dispatch sel s) = nodes s" "leader (dispatch sel s) = leader s" "gateway (dispatch sel s) = gateway s"
  using dispatch_frame by (simp_all add: dispatch_def)

context scheduler
begin

lemma chosen_serving:
  assumes "registry_ok s" "select_node t (candidates busy s) = Inr chosen"
  obtains e where "bt_get (nodes s) chosen = Some e" "serving e" "chosen \<notin> set busy"
proof -
  from assms(2) obtain i e h where e: "(i, e) \<in> set (nodes s)" "node_id (entry_node e) = chosen"
    "entry_handle e = Some h" "is_schedulable (entry_node e)" "chosen \<notin> set busy" by (rule chosen_candidate)
  have "bt_get (nodes s) i = Some e" using assms(1) e(1) by (simp add: registry_ok_def bt_get_iff_entry)
  moreover from this have "i = chosen" using registryD(1) [OF assms(1)] e(2) by simp
  ultimately show thesis using that e by (auto simp: serving_def is_schedulable_def accepts_work_def)
qed

lemma placing_members:
  assumes "placing select_node busy s r" "members_ok s"
  shows "case r of Inl s' \<Rightarrow> members_ok s' | Inr (busy', s') \<Rightarrow> members_ok s'"
  using assms(1)
proof cases
  case (place_refused tid q t chosen now y z s')
  have "\<not> active z" using place_refused(6) by (auto simp: requeue_Inr_iff active_def)
  then have "releases s s'" using place_refused by (intro releases_task) auto
  then show ?thesis using releases_members assms(2) place_refused(1) by simp
next
  case (place_sent tid q t chosen now y e h s1 s')
  obtain e where e: "bt_get (nodes s) chosen = Some e" "serving e"
    using assms(2) chosen_serving [OF _ place_sent(4)] by (auto simp: members_ok_def)
  have y: "assigned_to y = Some chosen" using place_sent(5) by (auto simp: assign_Inr_iff)
  have n: "nodes s' = nodes s" by (simp add: place_sent(9,10))
  have "holds s n k \<or> n = chosen" if "holds s' n k" for n k
    using that y by (auto simp: holds_def place_sent(9,10) split: if_splits)
  then have "holders_ok s'" using assms(2) e n unfolding holders_ok_def members_ok_def by metis
  then show ?thesis using assms(2) n place_sent(1) by (simp add: members_ok_def registry_ok_def)
qed (use assms(2) in \<open>auto simp: members_ok_def registry_ok_def holders_ok_def holds_def\<close>)

lemma members_dispatch: "members_ok s \<Longrightarrow> members_ok (dispatch select_node s)"
  unfolding dispatch_def
proof (rule dispatch_loop_rule [where P = "\<lambda>_. members_ok" and Q = "\<lambda>_. members_ok"])
  show "case r of Inl s' \<Rightarrow> members_ok s' | Inr (busy', s') \<Rightarrow> members_ok s' \<and> (\<forall>u. members_ok u \<longrightarrow> members_ok u)"
    if "members_ok s" "placing select_node busy s r" for busy s r
    using placing_members [OF that(2,1)] by (auto split: sum.splits)
qed

lemma members_settle: "members_ok s \<Longrightarrow> members_ok (dispatch select_node (refresh_leadership el s))"
  by (intro members_dispatch members_refresh)

lemma led_settle: "led el (dispatch select_node (refresh_leadership el s))"
  by (rule led_same [OF led_refresh]) simp_all

end

subsection \<open>The health sweep\<close>

lemma sweep_entry_cases:
  "node_id (entry_node (fst (sweep_entry p now e))) = node_id (entry_node e)"
  "entry_handle (fst (sweep_entry p now e)) = entry_handle e"
  "serving e \<Longrightarrow> serving (fst (sweep_entry p now e)) \<or> snd (sweep_entry p now e) = Some (node_id (entry_node e), Offline)"
  "accepts_work (node_status (entry_node (fst (sweep_entry p now e)))) \<Longrightarrow>
     accepts_work (node_status (entry_node e)) \<or> entry_handle e \<noteq> None"
  using classify_cases [of p "last_seen (entry_node e)" now]
  by (auto simp: sweep_entry_def serving_def Let_def split: option.split)

lemma sweep_transition_releases: "releases s (sweep_transition p s)"
  by (cases p; cases "snd p")
    (auto simp: sweep_transition_def intro: releases_emit releases_trans [OF releases_emit requeue_releases])

lemma sweep_transition_works: "works s (sweep_transition p s)"
  by (cases p; cases "snd p")
    (auto simp: sweep_transition_def intro: works_emit works_trans [OF works_emit works_requeue_tasks])

lemma sweep_clears:
  assumes "sup_inv s" "(n, Offline) \<in> set ps"
  shows "\<not> holds (foldl (\<lambda>s p. sweep_transition p s) s ps) n k"
  using assms
proof (induction ps arbitrary: s)
  case (Cons p ps)
  have i: "sup_inv (sweep_transition p s)" using works_inv [OF sweep_transition_works Cons.prems(1)] .
  show ?case
  proof (cases "(n, Offline) \<in> set ps")
    case True
    then show ?thesis using Cons.IH [OF i] by simp
  next
    case False
    then have "\<not> holds (sweep_transition p s) n k"
      using Cons.prems requeue_clears [OF works_inv [OF works_emit]] by (auto simp: sweep_transition_def)
    moreover have "releases (sweep_transition p s) (foldl (\<lambda>s p. sweep_transition p s) (sweep_transition p s) ps)"
      by (rule releases_foldl) (rule sweep_transition_releases)
    ultimately show ?thesis by (auto simp: releases_def)
  qed
qed simp

lemma members_sweep:
  assumes m: "members_ok s" and i: "sup_inv s"
  shows "members_ok (sweep_health s)"
proof -
  obtain now s0 where c: "read_clock s = (now, s0)" by fastforce
  note fr = read_clock_frame [OF c]
  define f where "f = (\<lambda>e. sweep_entry (health (cfg s0)) now e)"
  define ps where "ps = List.map_filter (\<lambda>e. snd (f e)) (bt_values (nodes s))"
  define s1 where "s1 = s0\<lparr>nodes := bt_map (\<lambda>e. fst (f e)) (nodes s)\<rparr>"
  let ?s = "sweep_health s"
  have e: "?s = foldl (\<lambda>s p. sweep_transition p s) s1 ps"
    unfolding sweep_health_def c prod.case Let_def s1_def ps_def f_def by (simp add: fr)
  have i1: "sup_inv s1" using works_inv [OF same_workI i] fr by (simp add: s1_def)
  have r: "releases s1 ?s" unfolding e by (rule releases_foldl) (rule sweep_transition_releases)
  have h: "holds s n k" if "holds ?s n k" for n k
    using r that by (auto simp: releases_def s1_def holds_def fr)
  have n: "nodes ?s = bt_map (\<lambda>e. fst (f e)) (nodes s)" using r by (simp add: releases_def s1_def)
  have "registry_ok ?s" using m sweep_entry_cases
    by (fastforce simp: members_ok_def registry_ok_def n f_def)
  moreover have "holders_ok ?s" unfolding holders_ok_def
  proof (intro allI impI)
    fix n k
    assume hk: "holds ?s n k"
    then obtain en where en: "bt_get (nodes s) n = Some en" "serving en"
      using m h unfolding members_ok_def holders_ok_def by metis
    have id: "node_id (entry_node en) = n" using m en(1) registryD(1) by (auto simp: members_ok_def)
    have "en \<in> set (bt_values (nodes s))"
      using m en(1) bt_values_get [of "nodes s" en] by (auto simp: members_ok_def registry_ok_def)
    then have "(n, Offline) \<in> set ps" if "snd (f en) = Some (n, Offline)"
      using that by (force simp: ps_def map_filter_def)
    then have "serving (fst (f en))"
      using sweep_entry_cases(3) [OF en(2)] hk sweep_clears [OF i1] id unfolding e f_def by metis
    then show "\<exists>e. bt_get (nodes ?s) n = Some e \<and> serving e" using en(1) by (simp add: n)
  qed
  ultimately show ?thesis by (simp add: members_ok_def)
qed

subsection \<open>Commands and reports\<close>

lemma roles_unchanged:
  "\<not> snd (roleset_insert r rs) \<Longrightarrow> fst (roleset_insert r rs) = rs"
  "\<not> snd (roleset_remove r rs) \<Longrightarrow> fst (roleset_remove r rs) = rs"
  by (auto simp: roleset_insert_def roleset_remove_def Let_def roleset_contains_bit bit_role_bit bit_simps intro!: bit_eqI)

text \<open>Changing what neither the registry nor the election looks at.\<close>

definition steady :: "election \<Rightarrow> supervisor \<Rightarrow> bool" where
  "steady el s \<longleftrightarrow> members_ok s \<and> led el s"

lemma members_edit:
  assumes "members_ok s" "bt_get (nodes s) i = Some e0" "nodes s' = bt_insert i e (nodes s)" "tasks s' = tasks s"
    "node_id (entry_node e) = node_id (entry_node e0)" "node_status (entry_node e) = node_status (entry_node e0)"
    "entry_handle e = entry_handle e0"
  shows "members_ok s'"
  using assms(1,3,4,2,5) by (rule members_insert)
    (use assms registryD(2) in \<open>auto simp: members_ok_def serving_def\<close>)

lemma steady_releases: "releases s s' \<Longrightarrow> steady el s \<Longrightarrow> steady el s'"
  using releases_members [of s s'] led_same [of el s s'] by (auto simp: steady_def releases_def)

lemma steady_clock: "read_clock s = (now, s') \<Longrightarrow> steady el s \<Longrightarrow> steady el s'"
  by (rule steady_releases [OF releases_same]) (simp_all add: read_clock_frame)

context steady_elector
begin

lemma steady_edit:
  assumes "steady elect s" "bt_get (nodes s) i = Some e0" "nodes s' = bt_insert i e (nodes s)" "tasks s' = tasks s"
    "leader s' = leader s" "node_view (entry_node e) = node_view (entry_node e0)" "entry_handle e = entry_handle e0"
  shows "steady elect s'"
proof -
  have m: "members_ok s" "led elect s" using assms(1) by (auto simp: steady_def)
  have "entries_view s' = entries_view s"
    using m(1) assms(2,3,6) by (intro entries_view_insert [of s i e0 s' e]) (auto simp: members_ok_def registry_ok_def)
  from elect_leader_view [OF this] have "led elect s'" using m(2) assms(5) by (simp add: led_def)
  moreover have "members_ok s'" using m(1) assms by (rule_tac members_edit [of s i e0 s' e]) (auto simp: node_view_def)
  ultimately show ?thesis by (simp add: steady_def)
qed

lemma steady_heartbeat:
  assumes "steady elect s"
  shows "steady elect (handle_report sel (ReportHeartbeat hb) s)"
proof -
  obtain now s0 where c: "read_clock s = (now, s0)" by fastforce
  have s0: "steady elect s0" using steady_clock [OF c assms] .
  show ?thesis
  proof (cases "bt_get (nodes s0) (hb_node hb)")
    case (Some e)
    let ?e = "e\<lparr>entry_node := (entry_node e)\<lparr>last_seen := now, node_load := hb_load hb\<rparr>\<rparr>"
    show ?thesis by (rule steady_edit [OF s0 Some, of _ ?e]) (simp_all add: c Some node_view_def)
  qed (simp add: c s0)
qed

lemma steady_pause:
  assumes "steady elect s"
  shows "steady elect (snd (pause_heartbeat i p s))"
proof -
  obtain r s1 where c: "send_to_node i (InPauseHeartbeat p) s = (r, s1)" by fastforce
  note fr = send_to_node_frame [OF c]
  have s1: "steady elect s1" by (rule steady_releases [OF releases_same assms]) (simp_all add: fr)
  show ?thesis
  proof (cases "bt_get (nodes s1) i")
    case (Some e)
    have "steady elect (s1\<lparr>nodes := bt_insert i (e\<lparr>entry_paused := p\<rparr>) (nodes s1)\<rparr>)"
      by (rule steady_edit [OF s1 Some, of _ "e\<lparr>entry_paused := p\<rparr>"]) simp_all
    then show ?thesis using s1 by (simp add: pause_heartbeat_def c Some split: sum.split)
  qed (simp add: pause_heartbeat_def c s1 split: sum.split)
qed

lemma steady_set_role:
  assumes "steady elect s"
  shows "steady elect (snd (set_role elect i r enabled s))"
proof (cases "bt_get (nodes s) i")
  case None
  then show ?thesis using assms by (simp add: set_role_def)
next
  case (Some e)
  obtain roles changed where p: "(if enabled then roleset_insert r (node_roles (entry_node e))
      else roleset_remove r (node_roles (entry_node e))) = (roles, changed)" by (metis surj_pair)
  let ?e = "e\<lparr>entry_node := (entry_node e)\<lparr>node_roles := roles\<rparr>\<rparr>"
  let ?s = "s\<lparr>nodes := bt_insert i ?e (nodes s)\<rparr>"
  have m: "members_ok ?s" using assms by (rule_tac members_edit [OF _ Some, of _ ?e]) (simp_all add: steady_def)
  show ?thesis
  proof (cases changed)
    case True
    let ?s1 = "emit (if enabled then EvRoleAssigned i r else EvRoleRemoved i r) (persist_roles i roles ?s)"
    have "members_ok ?s1" by (rule releases_members [OF releases_same m]) simp_all
    then have "steady elect (refresh_leadership elect ?s1)" by (simp add: steady_def members_refresh led_refresh)
    then show ?thesis using True Some p by (simp add: set_role_def Let_def)
  next
    case False
    then have "roles = node_roles (entry_node e)"
      using p roles_unchanged [of r "node_roles (entry_node e)"] by (cases enabled) simp_all
    then have "steady elect ?s" by (rule_tac steady_edit [OF assms Some, of _ ?e]) (simp_all add: node_view_def)
    then show ?thesis using False Some p by (simp add: set_role_def Let_def)
  qed
qed

end

lemma foldl_insert_get:
  "bt_get (foldl (\<lambda>m x. bt_insert (task_id x) x m) m ts) k = Some t \<Longrightarrow> t \<in> set ts \<or> bt_get m k = Some t"
  by (induction ts arbitrary: m) (fastforce split: if_splits)+

lemma releases_add:
  assumes "\<forall>t\<in>set ts. \<not> active t" "nodes s' = nodes s" "leader s' = leader s"
    "tasks s' = foldl (\<lambda>m x. bt_insert (task_id x) x m) (tasks s) ts"
  shows "releases s s'"
  using assms foldl_insert_get by (fastforce simp: releases_def holds_def)

lemma releases_store_call: "store_call f s = (r, s') \<Longrightarrow> releases s s'"
  by (rule releases_same) (simp_all add: store_call_frame)

lemma releases_store_write: "store_write f s = (r, s') \<Longrightarrow> releases s s'"
  unfolding store_write_def by (rule releases_store_call)

lemma releases_allocate: "allocate_job spec now s = (r, s') \<Longrightarrow> releases s s'"
  by (auto simp: allocate_job_def Let_def split: prod.splits sum.splits
      intro: releases_store_call releases_trans [OF releases_store_call releases_store_call])

locale supervision = scheduler select_node + steady_elector elect
  for select_node :: selection and elect :: election
begin

lemma steady_settle: "members_ok s \<Longrightarrow> steady elect (dispatch select_node (refresh_leadership elect s))"
  by (simp add: steady_def members_settle led_settle)

lemma steady_dispatch: "steady elect s \<Longrightarrow> steady elect (dispatch select_node s)"
  using members_dispatch led_same [of elect s "dispatch select_node s"] by (auto simp: steady_def)

lemma steady_prune:
  assumes "steady elect s" "bt_wf (tasks s)"
  shows "steady elect (prune_memory s)"
proof (rule steady_releases [OF _ assms(1)])
  have "bt_get (bt_retain P (tasks s)) k = Some t \<Longrightarrow> bt_get (tasks s) k = Some t" for P k t
    using assms(2) by (auto simp: bt_get_retain split: option.splits if_splits)
  then show "releases s (prune_memory s)"
    by (auto simp: prune_memory_def Let_def releases_def holds_def)
qed

lemma steady_tick:
  assumes "steady elect s" "sup_inv s"
  shows "steady elect (tick select_node elect s)"
proof -
  have "members_ok (sweep_health s)" using assms by (simp add: members_sweep steady_def)
  moreover have "sup_inv (dispatch select_node (refresh_leadership elect (sweep_health s)))"
    using works_inv [OF works_trans [OF works_sweep works_settle_nodes] assms(2)] .
  ultimately show ?thesis unfolding tick_def by (simp add: steady_prune steady_settle sup_inv_tables(2))
qed

lemma steady_report:
  assumes "steady elect s"
  shows "steady elect (handle_report select_node r s)"
proof (cases r)
  case (ReportStarted node t)
  obtain now s0 where c: "read_clock s = (now, s0)" by fastforce
  have s0: "steady elect s0" using steady_clock [OF c assms] .
  have "releases s0 (persist_task y (s0\<lparr>tasks := bt_insert (task_id t) y (tasks s0)\<rparr>))"
    if "bt_get (tasks s0) (task_id t) = Some x" "start now x = Inr y" for x y
    using that by (intro releases_task) (auto simp: start_Inr_iff active_def)
  then show ?thesis
    using s0 steady_releases [of s0] by (auto simp: ReportStarted c split: option.split sum.split)
next
  case (ReportFinished node t out)
  then show ?thesis using steady_dispatch [OF steady_releases [OF releases_finish assms]] by simp
qed (simp add: steady_heartbeat [OF assms] del: handle_report.simps)

lemma steady_submit:
  assumes "steady elect s"
  shows "steady elect (snd (submit_job select_node spec s))"
proof -
  obtain now s0 where c: "read_clock s = (now, s0)" by fastforce
  have s0: "steady elect s0" using steady_clock [OF c assms] .
  obtain r s1 where a: "allocate_job spec now s0 = (r, s1)" by fastforce
  have s1: "steady elect s1" using steady_releases [OF releases_allocate [OF a] s0] .
  show ?thesis
  proof (cases r)
    case (Inl e)
    then show ?thesis using s1 by (simp add: submit_job_def c a)
  next
    case (Inr p)
    obtain job ts where p: "p = (job, ts)" by fastforce
    obtain r2 s2 where w: "store_write (create_job job ts) s1 = (r2, s2)" by fastforce
    have s2: "steady elect s2" using steady_releases [OF releases_store_write [OF w] s1] .
    let ?s = "emit (EvJobCreated (job_id job)) (foldl (\<lambda>s t. s\<lparr>queue := queue s @ [task_id t],
      tasks := bt_insert (task_id t) t (tasks s)\<rparr>) (s2\<lparr>jobs := bt_insert (job_id job) job (jobs s2)\<rparr>) ts)"
    have "\<forall>t\<in>set ts. \<not> active t"
      using allocate_job_cases(2) [OF a Inr [unfolded p]] allocated_in(5) by (fastforce simp: active_def)
    then have "releases s2 ?s" by (intro releases_add) (simp_all add: foldl_enqueue)
    from steady_dispatch [OF steady_releases [OF this s2]] show ?thesis
      using s2 Inr p by (simp add: submit_job_def c a w split: sum.split)
  qed
qed

lemma steady_stop:
  assumes "steady elect s" "sup_inv s"
  shows "steady elect (snd (stop_node select_node elect i s))"
proof -
  have "members_ok (requeue_tasks_of i (emit (EvNodeLeft i) (s\<lparr>terminated := terminated s @ [h], nodes := bt_insert i (offline_entry e) (nodes s)\<rparr>)))"
    if "bt_get (nodes s) i = Some e" for e h
    using assms that works_inv [OF same_workI assms(2)] by (intro members_leave(1) [of s i e]) (auto simp: steady_def)
  then show ?thesis using assms(1) by (auto simp: stop_node_def Let_def split: option.split intro: steady_settle)
qed

lemma steady_detach:
  assumes "steady elect s" "sup_inv s"
  shows "steady elect (detach_remote select_node elect i g s)"
proof (cases "bt_get (nodes s) i")
  case None
  then show ?thesis using assms(1) by (simp add: detach_remote_def)
next
  case (Some e)
  let ?s = "requeue_tasks_of i (emit (EvNodeLeft i) (s\<lparr>nodes := bt_insert i (offline_entry e) (nodes s)\<rparr>))"
  have "sup_inv (emit (EvNodeLeft i) (s\<lparr>nodes := bt_insert i (offline_entry e) (nodes s)\<rparr>))"
    by (rule works_inv [OF same_workI assms(2)]) simp_all
  note leave = members_leave [OF _ assms(2) Some _ _ this]
  have m: "members_ok ?s" using assms(1) by (intro leave(1)) (auto simp: steady_def)
  have gone: "\<not> holds ?s i k" for k using assms(1) by (intro leave(2)) (auto simp: steady_def)
  have "members_ok (persist_roles i roleset_empty (?s\<lparr>nodes := bt_remove i (nodes ?s)\<rparr>))"
    using m gone unfolding members_ok_def registry_ok_def holders_ok_def holds_def
    by (auto split: if_splits)
  then show ?thesis using assms(1) m Some
    by (auto simp: detach_remote_def Let_def intro: steady_settle)
qed

lemma steady_start:
  assumes "steady elect s"
  shows "steady elect (snd (start_node select_node elect i s))"
proof -
  have "members_ok (emit ev (launch_node i s))" if e: "bt_get (nodes s) i = Some e" for e ev
  proof (rule members_insert [OF _ _ _ e])
    show "nodes (emit ev (launch_node i s)) = bt_insert i
        (e\<lparr>entry_node := (entry_node e)\<lparr>node_status := Healthy, last_seen := clock s (clock_reads s), node_load := default_load\<rparr>,
           entry_paused := False, entry_handle := Some (LocalTask (spawned s))\<rparr>) (nodes s)"
      by (simp add: launch_node_def e Let_def read_clock_def)
  qed (use assms in \<open>auto simp: steady_def serving_def\<close>)
  then show ?thesis using assms by (auto simp: start_node_def Let_def split: option.split intro: steady_settle)
qed

lemma attach_identity_members:
  assumes "steady elect s" "attach_identity asked caps now s = Inr (i, s')"
  shows "members_ok s'" "asked = Some i \<and> s' = s \<or>
    asked = None \<and> bt_get (nodes s) i = None \<and> (\<exists>e. bt_get (nodes s') i = Some e \<and> entry_kind e = Remote False \<and> entry_handle e = None)"
proof -
  have m: "registry_ok s" "holders_ok s" using assms(1) by (auto simp: steady_def members_ok_def)
  have free: "bt_get (nodes s) k = None" if "next_free_id s = Some k" for k
    using that by (auto simp: next_free_id_def find_Some_iff bt_contains_def)
  show "asked = Some i \<and> s' = s \<or>
    asked = None \<and> bt_get (nodes s) i = None \<and> (\<exists>e. bt_get (nodes s') i = Some e \<and> entry_kind e = Remote False \<and> entry_handle e = None)"
    using assms(2) free by (auto simp: attach_identity_def Let_def split: option.splits)
  show "members_ok s'"
  proof (cases asked)
    case (Some k)
    then show ?thesis using assms by (simp add: attach_identity_def steady_def)
  next
    case None
    then obtain n where n: "bt_get (nodes s) i = None" "nodes s' = bt_insert i n (nodes s)" "tasks s' = tasks s"
      "node_id (entry_node n) = i" "node_status (entry_node n) = Starting"
      using assms(2) free by (auto simp: attach_identity_def Let_def new_node_def split: option.splits)
    then have "registry_ok s'" by (intro registry_insert [OF m(1)]) (auto simp: accepts_work_def)
    moreover have "holders_ok s'" using m(2) n unfolding holders_ok_def holds_def by (metis bt_get_insert option.distinct(1))
    ultimately show ?thesis by (simp add: members_ok_def)
  qed
qed

lemma steady_attach:
  assumes "steady elect s"
  shows "steady elect (snd (attach_remote select_node elect asked caps conn s))"
proof -
  obtain now s0 where c: "read_clock s = (now, s0)" by fastforce
  have s0: "steady elect s0" using steady_clock [OF c assms] .
  show ?thesis
  proof (cases "attach_identity asked caps now s0")
    case (Inl why)
    with s0 show ?thesis by (simp add: attach_remote_def c)
  next
    case (Inr p)
    obtain i s1 where p: "p = (i, s1)" by fastforce
    note id = attach_identity_members [OF s0 Inr [unfolded p]]
    have join: "members_ok (emit ev (persist_roles i rs (s2\<lparr>nodes := bt_insert i (attach_entry caps conn now e) (nodes s1)\<rparr>)))"
      if e: "bt_get (nodes s1) i = Some e" and s2: "nodes s2 = nodes s1" "tasks s2 = tasks s1" for e s2 rs ev
      by (rule members_insert [OF id(1) _ _ e, of _ "attach_entry caps conn now e"])
        (simp_all add: s2 attach_entry_def serving_def)
    show ?thesis
    proof (cases "bt_get (nodes s1) i")
      case None
      then have "s1 = s0" using id(2) by auto
      then show ?thesis using None s0 by (simp add: attach_remote_def c Inr p)
    next
      case (Some e)
      show ?thesis
      proof (cases "entry_kind e = Simulated \<or> entry_handle e \<noteq> None \<and> accepts_work (node_status (entry_node e))")
        case True
        then have "s1 = s0" using id(2) Some by auto
        then show ?thesis using True s0 Some by (auto simp: attach_remote_def c Inr p)
      next
        case False
        then show ?thesis
          using steady_settle [OF join [OF Some]] Some
          by (auto simp: attach_remote_def c Inr p Let_def split: option.split)
      qed
    qed
  qed
qed

lemma steady_run_one:
  assumes "steady elect s" "sup_inv s"
  shows "steady elect (run_one select_node elect i s)"
proof (cases i)
  case (InCommand c)
  have "releases s (snd (send_to_node n m s))" for n m
    by (cases "send_to_node n m s") (simp add: releases_same send_to_node_frame)
  moreover have "releases s (snd (job_detail n s))" for n
    unfolding job_detail_def Let_def store_read_def
    by (auto split: option.split sum.split prod.split if_split) (meson releases_store_call releases_trans)+
  ultimately show ?thesis unfolding InCommand using steady_releases [OF _ assms(1)] assms
    by (cases c) (simp_all add: steady_submit steady_set_role steady_stop steady_start steady_pause steady_attach steady_detach)
next
  case (InDrain refused)
  have "releases s (drain_one refused s)"
    by (rule releases_same) (simp_all add: drain_one_def split: list.split sum.split)
  then show ?thesis using steady_releases [OF _ assms(1)] by (simp add: InDrain)
qed (simp_all add: steady_report steady_tick assms)

end

interpretation cluster: supervision least_loaded lowest_healthy_id
  by unfold_locales

end
