(* ===== verification/Startup.thy ===== *)
theory Startup
  imports Membership
begin

text \<open>
  Starting up: what \<open>bootstrap\<close> puts in the registry, the first assignment of roles, the paged reading of
  unfinished jobs, and that from a database without jobs the supervisor starts in a state that satisfies
  the invariants of \<open>Supervision\<close> and \<open>Membership\<close>.
\<close>

section \<open>The first nodes\<close>

text \<open>Before anything is launched: entries under their own id, declared workers offline.\<close>

definition unlaunched :: "(nodeid, node_entry) btree \<Rightarrow> bool" where
  "unlaunched m \<longleftrightarrow> bt_wf m \<and> (\<forall>i e. bt_get m i = Some e \<longrightarrow> node_id (entry_node e) = i \<and>
     (entry_kind e = Simulated \<or> node_status (entry_node e) = Offline))"

lemma unlaunched_insert:
  "unlaunched m \<Longrightarrow> node_id (entry_node e) = i \<Longrightarrow> entry_kind e = Simulated \<or> node_status (entry_node e) = Offline \<Longrightarrow>
   unlaunched (bt_insert i e m)"
  by (auto simp: unlaunched_def)

lemma unlaunched_edit:
  assumes "unlaunched m" "bt_get m i = Some e" "node_id (entry_node e') = node_id (entry_node e)"
    "entry_kind e' = entry_kind e" "node_status (entry_node e') = node_status (entry_node e)"
  shows "unlaunched (bt_insert i e' m)"
  using assms by (intro unlaunched_insert) (auto simp: unlaunched_def)

lemma foldl_keep: "P m \<Longrightarrow> (\<And>m x. P m \<Longrightarrow> x \<in> set xs \<Longrightarrow> P (f m x)) \<Longrightarrow> P (foldl f m xs)"
  by (induction xs arbitrary: m) auto

lemma unlaunched_initial: "unlaunched (initial_nodes c now)"
proof -
  have "unlaunched (foldl (\<lambda>m index. bt_insert (index + 1) (simulated_entry c now index) m) [] [0..<node_count c])"
    by (rule foldl_keep) (auto intro!: unlaunched_insert simp: simulated_entry_def new_node_def unlaunched_def)
  then show ?thesis unfolding initial_nodes_def Let_def
    by (rule foldl_keep) (auto intro!: unlaunched_insert simp: declared_entry_def new_node_def)
qed

lemma give_role_frame [simp]:
  "node_id (entry_node (give_role r e)) = node_id (entry_node e)" "entry_kind (give_role r e) = entry_kind e"
  "node_status (entry_node (give_role r e)) = node_status (entry_node e)"
  "entry_handle (give_role r e) = entry_handle e"
  by (simp_all add: give_role_def)

lemma unlaunched_place: "unlaunched m \<Longrightarrow> unlaunched (snd (place_role r ids k (cursor, m)))"
proof (induction k arbitrary: cursor m)
  case (Suc k)
  then show ?case by (auto simp: Let_def split: option.split intro!: Suc.IH unlaunched_edit)
qed simp

lemma unlaunched_roles:
  assumes "unlaunched m"
  shows "unlaunched (assign_initial_roles c m)"
proof -
  let ?m = "foldl (\<lambda>m i. case bt_get m i of None \<Rightarrow> m | Some e \<Rightarrow> bt_insert i (give_role Compute e) m) m (bt_keys m)"
  have "unlaunched ?m"
    using assms by (rule foldl_keep) (auto split: option.split intro!: unlaunched_edit)
  then have "unlaunched (snd (foldl (\<lambda>p r. if r = Compute then p
      else place_role r (bt_keys m) (min_replicas (policy_get (policies c) r)) p) (0, ?m) rs))" for rs
    by (rule_tac foldl_keep [where P = "\<lambda>p. unlaunched (snd p)"]) (auto intro: unlaunched_place)
  then show ?thesis using assms by (simp add: assign_initial_roles_def Let_def)
qed

lemma restore_roles_frame:
  "jobs (restore_roles s) = jobs s" "tasks (restore_roles s) = tasks s" "queue (restore_roles s) = queue s"
  "cfg (restore_roles s) = cfg s" "store (restore_roles s) = store s"
  by (auto simp: restore_roles_def split: prod.split sum.split dest: store_read_frame)

lemma unlaunched_restore:
  assumes "unlaunched (nodes s)"
  shows "unlaunched (nodes (restore_roles s))"
proof -
  have "unlaunched (foldl (\<lambda>m p. case bt_get m (fst p) of None \<Rightarrow> m
      | Some e \<Rightarrow> bt_insert (fst p) (e\<lparr>entry_node := (entry_node e)\<lparr>node_roles := snd p\<rparr>\<rparr>) m) (nodes s) stored)" for stored
    using assms by (rule foldl_keep) (auto split: option.split intro!: unlaunched_edit)
  then show ?thesis using assms by (auto simp: restore_roles_def split: prod.split sum.split dest: store_read_frame)
qed

text \<open>Launching: what has been passed over and accepts work has a mailbox.\<close>

lemma boot_node_frame [simp]:
  "jobs (boot_node s i) = jobs s" "tasks (boot_node s i) = tasks s" "queue (boot_node s i) = queue s"
  "cfg (boot_node s i) = cfg s" "store (boot_node s i) = store s"
  by (simp_all add: boot_node_def Let_def split: option.split)

lemma boot_node_nodes:
  assumes "unlaunched (nodes s)"
  shows "unlaunched (nodes (boot_node s i))"
    "set (bt_keys (nodes (boot_node s i))) = set (bt_keys (nodes s))"
    "bt_get (nodes (boot_node s i)) i = Some e \<Longrightarrow> accepts_work (node_status (entry_node e)) \<Longrightarrow> entry_handle e \<noteq> None"
    "k \<noteq> i \<Longrightarrow> bt_get (nodes (boot_node s i)) k = bt_get (nodes s) k"
proof -
  show "unlaunched (nodes (boot_node s i))" "set (bt_keys (nodes (boot_node s i))) = set (bt_keys (nodes s))"
    using assms by (auto simp: boot_node_def launch_node_def Let_def read_clock_def unlaunched_def bt_keys_get
        split: option.splits if_splits)
  show "bt_get (nodes (boot_node s i)) i = Some e \<Longrightarrow> accepts_work (node_status (entry_node e)) \<Longrightarrow> entry_handle e \<noteq> None"
    using assms by (fastforce simp: boot_node_def launch_node_def Let_def read_clock_def unlaunched_def accepts_work_def
        split: option.splits if_splits)
  show "k \<noteq> i \<Longrightarrow> bt_get (nodes (boot_node s i)) k = bt_get (nodes s) k"
    by (auto simp: boot_node_def launch_node_def Let_def read_clock_def split: option.splits if_splits)
qed

lemma boot_nodes:
  assumes "unlaunched (nodes s)"
  shows "unlaunched (nodes (foldl boot_node s ks)) \<and>
    set (bt_keys (nodes (foldl boot_node s ks))) = set (bt_keys (nodes s)) \<and>
    (\<forall>i e. i \<in> set ks \<longrightarrow> bt_get (nodes (foldl boot_node s ks)) i = Some e \<longrightarrow>
       accepts_work (node_status (entry_node e)) \<longrightarrow> entry_handle e \<noteq> None)"
proof (induction ks rule: rev_induct)
  case (snoc i ks)
  let ?s = "foldl boot_node s ks"
  note b = boot_node_nodes [where s = ?s and i = i]
  show ?case
  proof (intro conjI allI impI)
    fix k e
    assume k: "k \<in> set (ks @ [i])" "bt_get (nodes (foldl boot_node s (ks @ [i]))) k = Some e"
      "accepts_work (node_status (entry_node e))"
    show "entry_handle e \<noteq> None"
    proof (cases "k = i")
      case True
      then show ?thesis using k b(3) snoc.IH by simp
    next
      case False
      then show ?thesis using k b(4) snoc.IH by auto
    qed
  qed (use snoc.IH b in simp_all)
qed (use assms in simp)

lemma foldl_boot_frame:
  "jobs (foldl boot_node s ks) = jobs s" "tasks (foldl boot_node s ks) = tasks s" "queue (foldl boot_node s ks) = queue s"
  "cfg (foldl boot_node s ks) = cfg s" "store (foldl boot_node s ks) = store s"
  by (induction ks arbitrary: s) simp_all

section \<open>A database without jobs\<close>

lemma collect_pages_frame:
  "collect_pages after m s = (m', s') \<Longrightarrow> nodes s' = nodes s \<and> jobs s' = jobs s \<and> tasks s' = tasks s \<and>
     queue s' = queue s \<and> cfg s' = cfg s \<and> store s' = store s \<and> leader s' = leader s \<and>
     event_seq s' = event_seq s \<and> published s' = published s \<and> events s' = events s \<and>
     writes s' = writes s"
proof (induction after m s rule: collect_pages.induct)
  case (1 after m s)
  obtain r s1 where r: "store_read (unfinished_jobs_page after PAGE) s = (r, s1)" by fastforce
  note f = store_read_frame [OF r]
  show ?case
  proof (cases "\<exists>page. r = Inr page \<and> page \<noteq> [] \<and> length page = PAGE")
    case True
    then obtain page where p: "r = Inr page" "page \<noteq> []" "length page = PAGE" by blast
    then show ?thesis
      using "1.IH" [OF r [symmetric] p] "1.prems" f by (simp add: collect_pages.simps [of after m s] r)
  next
    case False
    then show ?thesis
      using "1.prems" f by (auto simp: collect_pages.simps [of after m s] r split: sum.splits if_splits)
  qed
qed

lemma restore_jobs_none:
  assumes "job_rows (store s) = []"
  shows "jobs (restore_jobs s) = jobs s" "tasks (restore_jobs s) = tasks s" "queue (restore_jobs s) = queue s"
    "nodes (restore_jobs s) = nodes s" "cfg (restore_jobs s) = cfg s"
proof -
  have empty: "fst (collect_pages None [] s1) = []" if "job_rows (store s1) = []" for s1
    using that store_read_cases(2) [of "unfinished_jobs_page None PAGE" s1]
    by (subst collect_pages.simps)
      (auto simp: unfinished_jobs_page_def unfinished_jobs_def bt_values_def split: prod.splits sum.splits)
  obtain r s1 where r: "store_read (recent_jobs (job_buffer (cfg s))) s = (r, s1)" by fastforce
  note f1 = store_read_frame [OF r]
  have "jobs (restore_jobs s) = jobs s \<and> tasks (restore_jobs s) = tasks s \<and> queue (restore_jobs s) = queue s \<and>
    nodes (restore_jobs s) = nodes s \<and> cfg (restore_jobs s) = cfg s"
  proof (cases r)
    case (Inl e)
    then show ?thesis using f1 by (simp add: restore_jobs_def r)
  next
    case (Inr recent)
    have "recent = []" using store_read_cases(2) [OF r] Inr assms by (auto simp: recent_jobs_def bt_values_def)
    moreover obtain now s2 where c: "read_clock s1 = (now, s2)" by fastforce
    note f2 = read_clock_frame [OF c]
    obtain m s3 where p: "collect_pages None [] s2 = (m, s3)" by fastforce
    have "m = []" using empty [of s2] p assms f1 f2 by simp
    ultimately show ?thesis
      using collect_pages_frame [OF p] f1 f2 p by (simp add: restore_jobs_def r Inr c bt_values_def)
  qed
  then show "jobs (restore_jobs s) = jobs s" "tasks (restore_jobs s) = tasks s" "queue (restore_jobs s) = queue s"
    "nodes (restore_jobs s) = nodes s" "cfg (restore_jobs s) = cfg s" by auto
qed

lemma fresh_boot:
  assumes boot: "bootstrap el s0 = Some s" and fresh: "jobs s0 = []" "tasks s0 = []" "queue s0 = []" "job_rows (store s0) = []"
  shows "sup_inv s" "steady el s" "cfg s = cfg s0"
proof -
  obtain r s1 where r: "store_read last_seq s0 = (r, s1)" by fastforce
  note f1 = store_read_frame [OF r]
  define s2 where "s2 = s1\<lparr>event_seq := (case r of Inl _ \<Rightarrow> 0 | Inr n \<Rightarrow> n)\<rparr>"
  obtain now s3 where c: "read_clock s2 = (now, s3)" by fastforce
  note f3 = read_clock_frame [OF c]
  define s4 where "s4 = restore_roles (s3\<lparr>nodes := assign_initial_roles (cfg s3) (initial_nodes (cfg s3) now)\<rparr>)"
  define s5 where "s5 = foldl boot_node s4 (bt_keys (nodes s4))"
  have s: "s = refresh_leadership el (restore_jobs s5)"
    using boot unfolding bootstrap_def r prod.case s2_def [symmetric] Let_def c s4_def [symmetric] s5_def [symmetric]
    by (auto split: if_splits)
  have u: "unlaunched (nodes s4)"
    unfolding s4_def by (rule unlaunched_restore) (simp add: unlaunched_roles unlaunched_initial)
  note b = boot_nodes [OF u, of "bt_keys (nodes s4)"]
  have f5: "jobs s5 = []" "tasks s5 = []" "queue s5 = []" "job_rows (store s5) = []" "cfg s5 = cfg s0"
    using fresh by (simp_all add: s5_def foldl_boot_frame s4_def restore_roles_frame f3 s2_def f1)
  note f6 = restore_jobs_none [OF f5(4)]
  have empty: "jobs s = []" "tasks s = []" "queue s = []" "cfg s = cfg s0"
    using f5 f6 by (simp_all add: s)
  then show "cfg s = cfg s0" by simp
  show "sup_inv s"
    using empty board_inv_empty [of "max_task_attempts (cfg s)"]
    by (simp add: sup_inv_def board_of_def ids_known_def bt_keys_def)
  have "registry_ok (restore_jobs s5)"
    using b unfolding registry_ok_def f6 s5_def [symmetric] unlaunched_def by (metis get_in_keys)
  then have "members_ok (restore_jobs s5)"
    using f5 f6 by (simp add: members_ok_def holders_ok_def holds_def)
  then show "steady el s" by (simp add: s steady_def members_refresh led_refresh)
qed

lemma fresh_reachable:
  assumes "reachable least_loaded lowest_healthy_id s0 s"
    and "jobs s0 = []" "tasks s0 = []" "queue s0 = []" "job_rows (store s0) = []"
  shows "sup_inv s \<and> steady lowest_healthy_id s \<and> cfg s = cfg s0"
  using assms
proof (induction rule: reachable.induct)
  case (reach_boot s0 s)
  then show ?case using fresh_boot by blast
next
  case (reach_step s0 s i)
  then have "sup_inv s" "steady lowest_healthy_id s" "cfg s = cfg s0" by auto
  moreover have "works s (run_one least_loaded lowest_healthy_id i s)" using reach_step.hyps(2) by (rule ll.works_run_one)
  ultimately show ?case using works_inv works_cfg cluster.steady_run_one by metis
qed

section \<open>The first roles\<close>

definition role_count :: "role \<Rightarrow> (nodeid, node_entry) btree \<Rightarrow> nat" where
  "role_count r m = bt_count (\<lambda>e. roleset_contains (node_roles (entry_node e)) r) m"

lemma contains_give [simp]:
  "roleset_contains (node_roles (entry_node (give_role r e))) q \<longleftrightarrow>
     q = r \<or> roleset_contains (node_roles (entry_node e)) q"
  using role_set_insert [of r "node_roles (entry_node e)"] by (auto simp: give_role_def role_set_def)

lemma role_count_le: "role_count r m \<le> length m"
proof -
  have "role_count r m \<le> length (bt_values m)" by (simp add: role_count_def bt_count_def)
  then show ?thesis by (simp add: bt_values_def)
qed

lemma role_count_give:
  assumes "bt_wf m" "bt_get m i = Some e" "\<not> roleset_contains (node_roles (entry_node e)) r"
  shows "role_count q (bt_insert i (give_role r e) m) = role_count q m + (if q = r then 1 else 0)"
  using bt_count_insert_old [OF assms(1,2), of "\<lambda>e. roleset_contains (node_roles (entry_node e)) q" "give_role r e"] assms(3)
  by (auto simp: role_count_def)

lemma bt_keys_insert_old:
  assumes "bt_wf m" "bt_get m i = Some e"
  shows "bt_keys (bt_insert i e' m) = bt_keys m"
  using assms
proof (induction m)
  case (Cons p m)
  obtain a b where p: "p = (a, b)" by (cases p)
  have "bt_wf m" "i < a \<Longrightarrow> bt_get m i = None" using Cons.prems(1) bt_get_below unfolding p by (auto simp: bt_wf_def)
  then show ?case using Cons.IH Cons.prems(2) unfolding p by (auto simp: bt_keys_def bt_get_Cons split: if_splits)
qed simp

lemma round_robin_covers: "j < n \<Longrightarrow> \<exists>off<n. (c + off) mod n = j" for c j n :: nat
proof -
  assume j: "j < n"
  then have "(c + (j + (n - c mod n)) mod n) mod n = (c mod n + (j + (n - c mod n))) mod n"
    by (metis mod_add_eq mod_mod_trivial)
  also have "c mod n + (j + (n - c mod n)) = j + n" using j mod_less_divisor [of n c] by linarith
  also have "(j + n) mod n = j" using j by simp
  finally show ?thesis using j by (intro exI [of _ "(j + (n - c mod n)) mod n"]) simp
qed

lemma role_count_full:
  assumes "bt_wf m" "\<And>i e. bt_get m i = Some e \<Longrightarrow> roleset_contains (node_roles (entry_node e)) r"
  shows "role_count r m = length m"
proof -
  have "filter (\<lambda>e. roleset_contains (node_roles (entry_node e)) r) (bt_values m) = bt_values m"
    using assms(2) bt_values_get [OF assms(1)] by (intro filter_True) metis
  then show ?thesis by (simp add: role_count_def bt_count_def bt_values_def)
qed

lemma find_SomeP: "find P xs = Some x \<Longrightarrow> P x"
  by (induction xs) (auto split: if_splits)

lemma place_role_counts:
  assumes "bt_wf m"
  shows "bt_wf (snd (place_role r (bt_keys m) k (cursor, m))) \<and>
    bt_keys (snd (place_role r (bt_keys m) k (cursor, m))) = bt_keys m \<and>
    role_count r (snd (place_role r (bt_keys m) k (cursor, m))) = min (role_count r m + k) (length m) \<and>
    (q \<noteq> r \<longrightarrow> role_count q (snd (place_role r (bt_keys m) k (cursor, m))) = role_count q m)"
  using assms
proof (induction k arbitrary: cursor m)
  case 0
  then show ?case using role_count_le [of r m] by simp
next
  case (Suc k)
  let ?ids = "bt_keys m" and ?n = "length m"
  have len: "length ?ids = ?n" by (simp add: bt_keys_def)
  let ?P = "\<lambda>offset. case bt_get m (?ids ! ((cursor + offset) mod length ?ids)) of None \<Rightarrow> False
    | Some e \<Rightarrow> \<not> roleset_contains (node_roles (entry_node e)) r"
  show ?case
  proof (cases "find ?P [0..<length ?ids]")
    case None
    have "roleset_contains (node_roles (entry_node e)) r" if e: "bt_get m i = Some e" for i e
    proof -
      obtain j where j: "j < ?n" "?ids ! j = i" using get_in_keys [OF e] by (auto simp: in_set_conv_nth len)
      then obtain off where "off < ?n" "(cursor + off) mod ?n = j" using round_robin_covers by blast
      then show ?thesis using None e j(2) by (auto simp: find_None_iff len split: option.splits)
    qed
    then have "role_count r m = ?n" using role_count_full [OF Suc.prems] by blast
    then show ?thesis using None Suc.prems by simp
  next
    case (Some off)
    let ?i = "?ids ! ((cursor + off) mod length ?ids)"
    obtain e where e: "bt_get m ?i = Some e" "\<not> roleset_contains (node_roles (entry_node e)) r"
      using find_SomeP [OF Some] by (auto split: option.splits)
    let ?m = "bt_insert ?i (give_role r e) m"
    have wf: "bt_wf ?m" using Suc.prems by simp
    have keys: "bt_keys ?m = ?ids" using bt_keys_insert_old [OF Suc.prems e(1)] .
    then have "length (bt_keys ?m) = length ?ids" by (rule arg_cong)
    then have len': "length ?m = ?n" unfolding bt_keys_def length_map .
    have "place_role r ?ids (Suc k) (cursor, m) = place_role r (bt_keys ?m) k (cursor + (off + 1), ?m)"
      using Some e(1) by (simp add: keys Let_def)
    moreover have "role_count r ?m = Suc (role_count r m)" "q \<noteq> r \<longrightarrow> role_count q ?m = role_count q m"
      using role_count_give [OF Suc.prems e] by auto
    ultimately show ?thesis using Suc.IH [OF wf, of "cursor + (off + 1)"] keys len' by simp
  qed
qed

lemma place_roles_counts:
  assumes "bt_wf m" "ids = bt_keys m" "distinct rs"
  shows "bt_keys (snd (foldl (\<lambda>p r. if r = Compute then p else place_role r ids (want r) p) (cursor, m) rs)) = ids \<and>
    role_count q (snd (foldl (\<lambda>p r. if r = Compute then p else place_role r ids (want r) p) (cursor, m) rs)) =
      (if q \<noteq> Compute \<and> q \<in> set rs then min (role_count q m + want q) (length m) else role_count q m)"
  using assms
proof (induction rs arbitrary: cursor m)
  case (Cons r rs)
  show ?case
  proof (cases "r = Compute")
    case True
    then show ?thesis using Cons.IH [OF Cons.prems(1,2)] Cons.prems(3) by auto
  next
    case False
    obtain c' m' where p: "place_role r ids (want r) (cursor, m) = (c', m')" by fastforce
    note pl = place_role_counts [OF Cons.prems(1), of r "want r" cursor, folded Cons.prems(2), unfolded p snd_conv]
    then have "length (bt_keys m') = length (bt_keys m)" using Cons.prems(2) by simp
    then have "length m' = length m" unfolding bt_keys_def length_map .
    then show ?thesis
      using Cons.IH [of m' c'] pl [of q] Cons.prems(2,3) False p by (cases "q = r") auto
  qed
qed simp

lemma compute_for_all:
  assumes "bt_wf m" "set ids \<subseteq> set (bt_keys m)"
  defines "f \<equiv> foldl (\<lambda>m i. case bt_get m i of None \<Rightarrow> m | Some e \<Rightarrow> bt_insert i (give_role Compute e) m)"
  shows "bt_wf (f m ids) \<and> bt_keys (f m ids) = bt_keys m \<and>
    (\<forall>i e. bt_get (f m ids) i = Some e \<longrightarrow> i \<in> set ids \<longrightarrow> roleset_contains (node_roles (entry_node e)) Compute) \<and>
    (\<forall>q. q \<noteq> Compute \<longrightarrow> role_count q (f m ids) = role_count q m)"
  using assms(1,2) unfolding f_def
proof (induction ids rule: rev_induct)
  case (snoc i ids)
  let ?m = "foldl (\<lambda>m i. case bt_get m i of None \<Rightarrow> m | Some e \<Rightarrow> bt_insert i (give_role Compute e) m) m ids"
  have IH: "bt_wf ?m" "bt_keys ?m = bt_keys m"
    "\<And>i e. bt_get ?m i = Some e \<Longrightarrow> i \<in> set ids \<Longrightarrow> roleset_contains (node_roles (entry_node e)) Compute"
    "\<And>q. q \<noteq> Compute \<Longrightarrow> role_count q ?m = role_count q m"
    using snoc by auto
  obtain e where e: "bt_get ?m i = Some e" using snoc.prems(2) IH(2) bt_keys_get [of i ?m] by auto
  have "role_count q (bt_insert i (give_role Compute e) ?m) = role_count q ?m" if "q \<noteq> Compute" for q
    using bt_count_insert_old [OF IH(1) e, of "\<lambda>e. roleset_contains (node_roles (entry_node e)) q" "give_role Compute e"] that
    by (auto simp: role_count_def)
  then show ?case using IH bt_keys_insert_old [OF IH(1) e] e by (auto split: if_splits)
qed simp

lemma initial_no_roles: "role_count r (initial_nodes c now) = 0"
proof -
  define ok :: "(nodeid, node_entry) btree \<Rightarrow> bool"
    where "ok m \<longleftrightarrow> (\<forall>i e. bt_get m i = Some e \<longrightarrow> node_roles (entry_node e) = roleset_empty)" for m
  have "ok (foldl (\<lambda>m index. bt_insert (index + 1) (simulated_entry c now index) m) [] [0..<node_count c])"
    by (rule foldl_keep) (auto simp: ok_def simulated_entry_def new_node_def)
  then have "ok (initial_nodes c now)" unfolding initial_nodes_def Let_def
    by (rule foldl_keep) (auto simp: ok_def declared_entry_def new_node_def)
  moreover have "\<not> roleset_contains roleset_empty r" using role_set_empty by (auto simp: role_set_def)
  ultimately show ?thesis
    using bt_values_get [of "initial_nodes c now"] unlaunched_initial [of c now]
    unfolding role_count_def bt_count_zero ok_def unlaunched_def by metis
qed

text \<open>
  C10: The first assignment of roles spreads exactly the minimum over the nodes: every node gets the compute
  role, and every other role is given to exactly as many nodes as its policy asks for, or to all of them when
  there are not that many; so no minimum is left unmet that the nodes could meet, and no node gets a role
  twice in another's place.
\<close>
theorem initial_roles_meet_policies:
  "role_count r (assign_initial_roles c (initial_nodes c now)) =
     (if r = Compute then length (initial_nodes c now)
      else min (min_replicas (policy_get (policies c) r)) (length (initial_nodes c now))) \<and>
   bt_keys (assign_initial_roles c (initial_nodes c now)) = bt_keys (initial_nodes c now)"
proof (cases "bt_keys (initial_nodes c now) = []")
  case True
  then show ?thesis by (simp add: assign_initial_roles_def role_count_def bt_keys_def)
next
  case False
  let ?m = "initial_nodes c now"
  define m1 where "m1 = foldl (\<lambda>m i. case bt_get m i of None \<Rightarrow> m | Some e \<Rightarrow> bt_insert i (give_role Compute e) m) ?m (bt_keys ?m)"
  have wf: "bt_wf ?m" using unlaunched_initial [of c now] by (simp add: unlaunched_def)
  note one = compute_for_all [OF wf subset_refl, folded m1_def]
  have "role_count Compute m1 = length m1"
  proof (rule role_count_full)
    fix i e
    assume "bt_get m1 i = Some e"
    then show "roleset_contains (node_roles (entry_node e)) Compute" using one get_in_keys [of m1 i e] by simp
  qed (use one in simp)
  moreover have "length (bt_keys m1) = length (bt_keys ?m)" using one by simp
  then have "length m1 = length ?m" unfolding bt_keys_def length_map .
  moreover have "role_count r m1 = 0" if "r \<noteq> Compute" using one that initial_no_roles by simp
  moreover have "distinct degradation_priority" "r \<in> set degradation_priority"
    by (cases r; simp add: degradation_priority_def)+
  moreover have "assign_initial_roles c ?m = snd (foldl (\<lambda>p r. if r = Compute then p
      else place_role r (bt_keys ?m) (min_replicas (policy_get (policies c) r)) p) (0, m1) degradation_priority)"
    using False by (simp add: assign_initial_roles_def Let_def m1_def)
  ultimately show ?thesis
    using place_roles_counts [of m1 "bt_keys ?m" degradation_priority "\<lambda>r. min_replicas (policy_get (policies c) r)" 0 r] one
    by auto
qed

section \<open>Reading unfinished jobs in pages\<close>

text \<open>The rows of the job table stand under their own id, as the primary key has it.\<close>

definition rows_keyed :: "store \<Rightarrow> bool" where
  "rows_keyed st \<longleftrightarrow> bt_wf (job_rows st) \<and> (\<forall>p\<in>set (job_rows st). jr_id (snd p) = fst p \<and> 0 \<le> fst p)"

definition by_id :: "job \<times> task list \<Rightarrow> jobid \<times> (job \<times> task list)" where
  "by_id p = (job_id (fst p), p)"

definition ascending :: "(job \<times> task list) list \<Rightarrow> bool" where
  "ascending ps \<longleftrightarrow> sorted_wrt (\<lambda>p q. job_id (fst p) < job_id (fst q)) ps"

lemma collect_Inr: "collect zs = Inr ys \<longleftrightarrow> zs = map Inr ys"
proof (induction zs arbitrary: ys rule: collect.induct)
  case (3 x xs)
  have "collect xs = Inr (tl ys) \<longleftrightarrow> xs = map Inr (tl ys)" by (rule "3.IH")
  then show ?case by (cases "collect xs"; cases ys) auto
qed auto

lemma job_row_id: "job_from_row r = Inr j \<Longrightarrow> job_id j = as_u64 (jr_id r)"
  unfolding job_from_row_def by (cases "parse_job_state (jr_state r)") (simp_all only: option.case sum.inject, auto)

lemma unfinished_ascending:
  assumes "rows_keyed st" "unfinished_jobs st = Inr js" "\<forall>p\<in>set (job_rows st). fst p < 2 ^ 63"
  shows "ascending js"
proof -
  define rows where "rows = filter (\<lambda>r. jr_state r = ''queued'' \<or> jr_state r = ''running'') (bt_values (job_rows st))"
  have bound: "0 \<le> jr_id r \<and> jr_id r < 2 ^ 63" if "r \<in> set rows" for r
    using that assms(1,3) by (fastforce simp: rows_def bt_values_def rows_keyed_def)
  have "map jr_id (bt_values (job_rows st)) = map fst (job_rows st)"
    using assms(1) by (auto simp: bt_values_def rows_keyed_def)
  then have "sorted_wrt (<) (map jr_id (bt_values (job_rows st)))"
    using assms(1) by (simp add: rows_keyed_def bt_wf_def)
  then have rows: "sorted_wrt (\<lambda>r q. jr_id r < jr_id q) rows"
    by (simp add: rows_def sorted_wrt_map sorted_wrt_filter)
  define f where "f = (\<lambda>r. case job_from_row r of Inl e \<Rightarrow> Inl e
    | Inr j \<Rightarrow> (case tasks_for_job (job_id j) st of Inl e \<Rightarrow> Inl e | Inr ts \<Rightarrow> Inr (j, ts)))"
  have f: "map f rows = map Inr js"
    using assms(2) unfolding unfinished_jobs_def collect_Inr rows_def [symmetric] f_def [symmetric] .
  have dec: "job_from_row r = Inr (fst p)" if "f r = Inr p" for r p
    using that by (auto simp: f_def split: sum.splits)
  have len: "length rows = length js" using arg_cong [OF f, of length] by simp
  have ids: "job_id (fst (js ! k)) = as_u64 (jr_id (rows ! k))" if "k < length js" for k
  proof -
    have "f (rows ! k) = Inr (js ! k)" using arg_cong [OF f, of "\<lambda>xs. xs ! k"] that len by simp
    then show ?thesis by (intro job_row_id dec)
  qed
  show ?thesis unfolding ascending_def sorted_wrt_iff_nth_less
  proof (intro allI impI)
    fix a b
    assume ab: "a < b" "b < length js"
    then have "jr_id (rows ! a) < jr_id (rows ! b)" using rows len by (simp add: sorted_wrt_iff_nth_less)
    then show "job_id (fst (js ! a)) < job_id (fst (js ! b))"
      using ab ids [of a] ids [of b] bound [of "rows ! a"] bound [of "rows ! b"] len
      by (simp add: as_u64_def)
  qed
qed

lemma insert_page:
  "ascending (xs @ ps) \<Longrightarrow> foldl (\<lambda>m p. bt_insert (job_id (fst p)) p m) (map by_id xs) ps = map by_id (xs @ ps)"
proof (induction ps arbitrary: xs)
  case (Cons p ps)
  have "bt_insert (job_id (fst p)) p (map by_id xs) = map by_id xs @ [(job_id (fst p), p)]"
    using Cons.prems by (intro bt_insert_last) (auto simp: ascending_def sorted_wrt_append by_id_def)
  then show ?case using Cons.IH [of "xs @ [p]"] Cons.prems by (simp add: by_id_def [of p])
qed simp

text \<open>\<open>xs\<close> has been read, \<open>ys\<close> is still to come.\<close>

lemma rest_after:
  assumes "ascending (xs @ ys)" "after = (if xs = [] then None else Some (job_id (fst (last xs))))"
  shows "filter (\<lambda>p. case after of None \<Rightarrow> True | Some i \<Rightarrow> job_id (fst p) > i) (xs @ ys) = ys"
proof (cases "xs = []")
  case False
  then obtain zs z where z: "xs = zs @ [z]" by (metis rev_exhaust)
  have "filter (\<lambda>p. job_id (fst z) < job_id (fst p)) (zs @ [z]) = []" "filter (\<lambda>p. job_id (fst z) < job_id (fst p)) ys = ys"
    using assms(1) by (auto simp: z ascending_def sorted_wrt_append filter_empty_conv intro!: filter_True)
  then show ?thesis using assms(2) by (simp add: z)
qed (use assms(2) in simp)

lemma store_read_sound:
  assumes "\<And>n. \<not> faults s n" "store_read f s = (r, s')"
  shows "r = f (store s)" "faults s' = faults s"
  using assms by (auto simp: store_read_def store_call_def Let_def split: if_splits sum.splits prod.splits)

lemma collect_pages_all:
  assumes "\<And>n. \<not> faults s n" "unfinished_jobs (store s) = Inr (xs @ ys)" "ascending (xs @ ys)"
    "after = (if xs = [] then None else Some (job_id (fst (last xs))))"
  shows "fst (collect_pages after (map by_id xs) s) = map by_id (xs @ ys)"
  using assms
proof (induction "length ys" arbitrary: xs ys after s rule: less_induct)
  case less
  obtain r s1 where r: "store_read (unfinished_jobs_page after PAGE) s = (r, s1)" by fastforce
  note ok = store_read_sound [OF less.prems(1) r] store_read_frame(13) [OF r]
  have page: "r = Inr (take PAGE ys)"
    unfolding ok(1) unfinished_jobs_page_def less.prems(2) sum.case rest_after [OF less.prems(3,4)] ..
  have asc: "ascending (xs @ take PAGE ys)"
    using less.prems(3) by (auto simp: ascending_def sorted_wrt_append sorted_wrt_take dest!: in_set_takeD)
  note ins = insert_page [OF asc]
  show ?case
  proof (cases "take PAGE ys \<noteq> [] \<and> length (take PAGE ys) = PAGE")
    case True
    have e: "(xs @ take PAGE ys) @ drop PAGE ys = xs @ ys" by simp
    have "0 < PAGE" by (simp add: PAGE_def)
    then have "length (drop PAGE ys) < length ys" using True by auto
    then have "fst (collect_pages (Some (job_id (fst (last (take PAGE ys))))) (map by_id (xs @ take PAGE ys)) s1) =
        map by_id ((xs @ take PAGE ys) @ drop PAGE ys)"
      using less.prems ok True by (intro less.hyps) (auto simp: e)
    then show ?thesis using True by (simp add: collect_pages.simps [of after "map by_id xs" s] r page ins)
  next
    case False
    then have "take PAGE ys = ys" by (auto simp: PAGE_def)
    then show ?thesis using False ins by (auto simp: collect_pages.simps [of after "map by_id xs" s] r page)
  qed
qed

text \<open>
  C7: After a restart no unfinished job is forgotten: when the database answers, the loop over pages of 200
  ends and has read every job that is queued or running, each once with all its tasks, however many there
  are.
\<close>
theorem restart_reads_all_unfinished:
  assumes "\<And>n. \<not> faults s n" "rows_keyed (store s)" "\<forall>p\<in>set (job_rows (store s)). fst p < 2 ^ 63"
    and "unfinished_jobs (store s) = Inr js"
  shows "fst (collect_pages None [] s) = map (\<lambda>p. (job_id (fst p), p)) js"
  using collect_pages_all [of s "[]" js None] unfinished_ascending [OF assms(2,4,3)] assms(1,4)
  by (simp add: by_id_def [abs_def])

text \<open>Three stored jobs, of which the second has ended.\<close>

definition demo_jobs :: "job list" where
  "demo_jobs = [new_job 4 (JobSleep 5 1) 9, (new_job 6 (JobSleep 5 1) 9)\<lparr>job_state := JobFailed\<rparr>,
     (new_job 8 (JobSleep 5 1) 9)\<lparr>job_state := JobRunning\<rparr>]"

definition demo_stored :: supervisor where
  "demo_stored = demo_supervisor\<lparr>store := empty_store\<lparr>job_rows := map (\<lambda>j. (int (job_id j), job_to_row j)) demo_jobs\<rparr>\<rparr>"

lemma demo_unfinished: "unfinished_jobs (store demo_stored) = Inr [(demo_jobs ! 0, []), (demo_jobs ! 2, [])]"
proof -
  have "parse_job_state ''queued'' = Some JobQueued" "parse_job_state ''running'' = Some JobRunning"
    by (simp_all add: parse_job_state_iff)
  then show ?thesis
    by (simp add: unfinished_jobs_def bt_values_def demo_stored_def demo_jobs_def empty_store_def new_job_def job_to_row_def
        job_from_row_def to_i64_def as_u64_def as_u16_def tasks_for_job_def task_count_def)
qed

theorem restart_reads_all_unfinished_witness:
  "rows_keyed (store demo_stored) \<and>
   fst (collect_pages None [] demo_stored) = [(4, demo_jobs ! 0, []), (8, demo_jobs ! 2, [])]"
proof -
  have ok: "\<not> faults demo_stored n" for n by (simp add: demo_stored_def demo_supervisor_def new_supervisor_def)
  have keyed: "rows_keyed (store demo_stored)" "\<forall>p\<in>set (job_rows (store demo_stored)). fst p < 2 ^ 63"
    by (simp_all add: rows_keyed_def bt_wf_def bt_keys_def demo_stored_def demo_jobs_def empty_store_def new_job_def job_to_row_def to_i64_def)
  have "job_id (demo_jobs ! 0) = 4" "job_id (demo_jobs ! 2) = 8" by (simp_all add: demo_jobs_def new_job_def)
  then show ?thesis using keyed restart_reads_all_unfinished [OF ok keyed demo_unfinished] by simp
qed

lemma boots:
  assumes "profiles (cfg s) \<noteq> []"
  shows "\<exists>s'. bootstrap el s = Some s'"
proof -
  obtain r s1 where r: "store_read last_seq s = (r, s1)" by fastforce
  then show ?thesis using assms store_read_frame(1) [OF r] by (simp add: bootstrap_def Let_def read_clock_def)
qed

lemma demo_boots: "\<exists>s. reachable sel el demo_supervisor s"
proof -
  have "profiles (cfg demo_supervisor) \<noteq> []" by (simp add: demo_supervisor_def new_supervisor_def default_config_def)
  then show ?thesis using boots reach_boot by blast
qed

end
