(* ===== verification/Placement.thy ===== *)
theory Placement
  imports Membership
begin

text \<open>
  Dispatching does not leave work waiting next to a node that could do it: when \<open>dispatch\<close> returns, the
  queue is empty, or every node that takes work holds a task, or the last mailbox it tried was full.
\<close>

lemma busy_nodes_holds:
  assumes "bt_wf (tasks s)"
  shows "n \<in> set (busy_nodes s) \<longleftrightarrow> (\<exists>k. holds s n k)"
proof -
  have "n \<in> set (busy_nodes s) \<longleftrightarrow> (\<exists>t\<in>set (bt_values (tasks s)). active t \<and> assigned_to t = Some n)"
    by (force simp: busy_nodes_def active_def map_filter_def)
  then show ?thesis using bt_values_get [OF assms] unfolding holds_def by metis
qed

lemma candidates_cong: "set busy = set busy' \<Longrightarrow> candidates busy s = candidates busy' s"
  by (simp add: candidates_def)

lemma candidates_schedulable: "n \<in> set (candidates busy s) \<Longrightarrow> is_schedulable n"
  by (auto simp: candidates_def)

definition no_idle_node :: "supervisor \<Rightarrow> bool" where
  "no_idle_node s \<longleftrightarrow> (\<forall>i e. bt_get (nodes s) i = Some e \<longrightarrow> entry_handle e \<noteq> None \<longrightarrow>
     is_schedulable (entry_node e) \<longrightarrow> (\<exists>k. holds s i k))"

lemma no_candidate:
  assumes "candidates busy s = []" "registry_ok s" "\<And>n. n \<in> set busy \<Longrightarrow> \<exists>k. holds s n k"
  shows "no_idle_node s"
  unfolding no_idle_node_def
proof (intro allI impI)
  fix i e
  assume e: "bt_get (nodes s) i = Some e" "entry_handle e \<noteq> None" "is_schedulable (entry_node e)"
  have "e \<in> set (bt_values (nodes s))" using e(1) assms(2) bt_values_get [of "nodes s" e] by (auto simp: registry_ok_def)
  then have "node_id (entry_node e) \<in> set busy"
    using assms(1) e(2,3) by (auto simp: candidates_def filter_empty_conv)
  then show "\<exists>k. holds s i k" using assms(3) registryD(1) [OF assms(2) e(1)] by blast
qed

definition all_held :: "nodeid list \<Rightarrow> supervisor \<Rightarrow> bool" where
  "all_held busy s \<longleftrightarrow> (\<forall>n\<in>set busy. \<exists>k. holds s n k)"

definition placed_all :: "supervisor \<Rightarrow> supervisor \<Rightarrow> bool" where
  "placed_all s s' \<longleftrightarrow> sends s \<le> sends s' \<and> mailbox s' = mailbox s \<and>
     (queue s' = [] \<or> no_idle_node s' \<or> sends s < sends s' \<and> \<not> mailbox s (sends s' - 1))"

lemma frame_sends [simp]:
  "sends (emit e s) = sends s" "mailbox (emit e s) = mailbox s"
  "sends (persist_task t s) = sends s" "mailbox (persist_task t s) = mailbox s"
  "sends (start_job_if_queued j s) = sends s" "mailbox (start_job_if_queued j s) = mailbox s"
  by (simp_all add: emit_def persist_task_def persist_job_def start_job_if_queued_def push_def read_clock_def Let_def
      split: option.split sum.split)

context scheduler
begin

lemma placing_placed:
  assumes "placing select_node busy s r" "sup_inv s" "members_ok s" "all_held busy s"
  shows "case r of Inl s' \<Rightarrow> placed_all s s'
    | Inr (busy', s') \<Rightarrow> all_held busy' s' \<and> sends s \<le> sends s' \<and> mailbox s' = mailbox s"
  using assms(1)
proof cases
  case place_empty
  then show ?thesis by (simp add: placed_all_def)
next
  case (place_drop tid q)
  then show ?thesis using assms(4) by (simp add: all_held_def holds_def)
next
  case (place_stuck tid q t e)
  have "candidates busy s = []"
    using select_exhaustive [OF place_stuck(4)] candidates_schedulable [of _ busy s] by (cases "candidates busy s") force+
  then have "no_idle_node s" using assms(3,4) by (intro no_candidate [of busy]) (auto simp: members_ok_def all_held_def)
  then show ?thesis by (simp add: placed_all_def place_stuck(1))
next
  case (place_illegal tid q t chosen now e s')
  then show ?thesis using queued_assign [OF assms(2), of tid q t chosen now] by simp
next
  case (place_refused tid q t chosen now y z s')
  obtain e where "bt_get (nodes s) chosen = Some e" "serving e"
    using assms(3) chosen_serving [OF _ place_refused(4)] by (auto simp: members_ok_def)
  then have "\<not> mailbox s (sends s)" "sends s' = sends s + 1"
    using place_refused(7) by (auto simp: serving_def)
  then show ?thesis using place_refused(1,8) by (simp add: placed_all_def)
next
  case (place_sent tid q t chosen now y e h s1 s')
  have y: "assigned_to y = Some chosen" "active y" using place_sent(5) by (auto simp: assign_Inr_iff active_def)
  have id: "task_id y = tid" using sup_inv_task(1) [OF assms(2) place_sent(3)] requeue_keeps(5) [OF place_sent(5)] by simp
  have t: "\<not> active t" using place_sent(5) by (auto simp: assign_Inr_iff active_def)
  have tasks: "tasks s' = bt_insert tid y (tasks s)" by (simp add: place_sent(9,10) id)
  then have "holds s' chosen tid" using y by (simp add: holds_def)
  moreover have "holds s' n k" if "holds s n k" for n k
    using that t place_sent(3) by (auto simp: holds_def tasks)
  ultimately have "all_held (chosen # busy) s'" using assms(4) unfolding all_held_def by (metis set_ConsD)
  then show ?thesis by (simp add: place_sent(1,9,10))
qed

lemma dispatch_places:
  assumes "sup_inv s" "members_ok s"
  shows "placed_all s (dispatch select_node s)"
  unfolding dispatch_def
proof (rule dispatch_loop_rule [where Q = placed_all and
      P = "\<lambda>busy s. sup_inv s \<and> members_ok s \<and> covers busy s \<and> all_held busy s"])
  show "sup_inv s \<and> members_ok s \<and> covers (busy_nodes s) s \<and> all_held (busy_nodes s) s"
    using assms covers_busy_nodes busy_nodes_holds [OF sup_inv_tables(2) [OF assms(1)]] by (simp add: all_held_def)
next
  fix busy s r
  assume P: "sup_inv s \<and> members_ok s \<and> covers busy s \<and> all_held busy s" and r: "placing select_node busy s r"
  have trans: "placed_all s u" if "sends s \<le> sends s'" "mailbox s' = mailbox s" "placed_all s' u" for s' u
    using that by (auto simp: placed_all_def)
  show "case r of Inl s' \<Rightarrow> placed_all s s'
      | Inr (busy', s') \<Rightarrow> (sup_inv s' \<and> members_ok s' \<and> covers busy' s' \<and> all_held busy' s') \<and>
          (\<forall>u. placed_all s' u \<longrightarrow> placed_all s u)"
    using placing_placed [OF r] placing_works [OF r] placing_members [OF r] P trans
    by (auto split: sum.splits intro: works_inv)
qed

end

text \<open>
  C4: Dispatching never leaves a queued task next to an idle node: when \<open>dispatch\<close> returns, the queue is
  empty, or every registered node with a mailbox that is healthy and may compute holds a task, or the loop
  stopped because the last mailbox it tried was full.
\<close>
theorem dispatch_leaves_no_node_idle:
  assumes "sup_inv s" "members_ok s" and "s' = dispatch least_loaded s"
  shows "queue s' = [] \<or>
    (\<forall>i e. bt_get (nodes s') i = Some e \<longrightarrow> entry_handle e \<noteq> None \<longrightarrow> is_schedulable (entry_node e) \<longrightarrow>
       (\<exists>k t. bt_get (tasks s') k = Some t \<and> active t \<and> assigned_to t = Some i)) \<or>
    (sends s < sends s' \<and> \<not> mailbox s (sends s' - 1))"
  using ll.dispatch_places [OF assms(1,2)]
  unfolding assms(3) placed_all_def no_idle_node_def holds_def by blast

lemma demo_members: "members_ok demo_supervisor" "led el demo_supervisor \<longleftrightarrow> el [] = None"
  by (auto simp: members_ok_def registry_ok_def holders_ok_def holds_def led_def elect_leader_def bt_values_def
      demo_supervisor_def new_supervisor_def split: option.split)

theorem dispatch_leaves_no_node_idle_witness:
  "sup_inv demo_supervisor \<and> members_ok demo_supervisor \<and>
   (queue (dispatch least_loaded demo_supervisor) = [] \<or>
    (\<forall>i e. bt_get (nodes (dispatch least_loaded demo_supervisor)) i = Some e \<longrightarrow> entry_handle e \<noteq> None \<longrightarrow>
       is_schedulable (entry_node e) \<longrightarrow>
       (\<exists>k t. bt_get (tasks (dispatch least_loaded demo_supervisor)) k = Some t \<and> active t \<and> assigned_to t = Some i)) \<or>
    (sends demo_supervisor < sends (dispatch least_loaded demo_supervisor) \<and>
     \<not> mailbox demo_supervisor (sends (dispatch least_loaded demo_supervisor) - 1)))"
  using dispatch_leaves_no_node_idle [OF demo_inv demo_members(1) refl] demo_inv demo_members(1) by blast

end
