(* ===== verification/Event_Log.thy ===== *)
theory Event_Log
  imports Startup
begin

text \<open>
  The event log. Every event the supervisor emits gets the next sequence number, is published, kept in
  memory and queued for the database, in that order; the sequence has no gap and no repetition, whatever
  the handlers do.
\<close>

definition pending :: "supervisor \<Rightarrow> event_record list" where
  "pending s = List.map_filter (\<lambda>w. case w of WriteEvent r \<Rightarrow> Some r | _ \<Rightarrow> None) (writes s)"

text \<open>From one state to the next, some events are appended everywhere, numbered on.\<close>

definition logs :: "supervisor \<Rightarrow> supervisor \<Rightarrow> bool" where
  "logs s s' \<longleftrightarrow> (\<exists>rs. published s' = published s @ rs \<and> events s' = events s @ rs \<and>
     pending s' = pending s @ rs \<and> event_seq s' = event_seq s + length rs \<and>
     map ev_seq rs = [event_seq s + 1..<event_seq s + 1 + length rs])"

lemma logs_same:
  "published s' = published s \<Longrightarrow> events s' = events s \<Longrightarrow> pending s' = pending s \<Longrightarrow> event_seq s' = event_seq s \<Longrightarrow>
   logs s s'"
  by (simp add: logs_def)

lemma logs_refl [simp]: "logs s s"
  by (simp add: logs_same)

lemma logs_trans [trans]:
  assumes "logs s t" "logs t u"
  shows "logs s u"
proof -
  obtain xs where x: "published t = published s @ xs" "events t = events s @ xs" "pending t = pending s @ xs"
    "event_seq t = event_seq s + length xs" "map ev_seq xs = [event_seq s + 1..<event_seq s + 1 + length xs]"
    using assms(1) by (auto simp: logs_def)
  obtain ys where y: "published u = published t @ ys" "events u = events t @ ys" "pending u = pending t @ ys"
    "event_seq u = event_seq t + length ys" "map ev_seq ys = [event_seq t + 1..<event_seq t + 1 + length ys]"
    using assms(2) by (auto simp: logs_def)
  have "[event_seq s + 1..<event_seq s + 1 + length (xs @ ys)] =
      [event_seq s + 1..<event_seq s + 1 + length xs] @ [event_seq t + 1..<event_seq t + 1 + length ys]"
    using upt_add_eq_append [of "event_seq s + 1" "event_seq s + 1 + length xs" "length ys"] x(4) by (simp add: add.assoc)
  then show ?thesis using x y unfolding logs_def by (intro exI [of _ "xs @ ys"]) simp
qed

lemma logs_foldl: "(\<And>s x. logs s (f s x)) \<Longrightarrow> logs s (foldl f s xs)"
  by (induction xs arbitrary: s) (auto intro: logs_trans)

lemma pending_push: "pending (push w s) = pending s @ (case w of WriteEvent r \<Rightarrow> [r] | _ \<Rightarrow> [])"
  by (cases w) (simp_all add: pending_def push_def map_filter_def)

lemma logs_emit: "logs s (emit e s)"
proof -
  have "pending (s\<lparr>event_seq := n, clock_reads := m\<rparr>) = pending s" for n m by (simp add: pending_def)
  then show ?thesis
    unfolding logs_def emit_def read_clock_def Let_def prod.case
    by (intro exI [of _ "[new_event_record (event_seq s + 1) (clock s (clock_reads s)) e]"])
      (simp add: pending_def push_def map_filter_def new_event_record_def)
qed

lemma logs_plain:
  "logs s (persist_task t s)" "logs s (persist_job j s)" "logs s (persist_roles n r s)" "logs s (record_failure t w d s)"
  "logs s (push (WriteTask t) s)"
  by (rule logs_same;
      simp add: persist_task_def persist_job_def persist_roles_def record_failure_def read_clock_def push_def pending_def map_filter_def)+

lemma logs_update:
  "logs s (s\<lparr>tasks := x1\<rparr>)" "logs s (s\<lparr>jobs := x2\<rparr>)" "logs s (s\<lparr>queue := x3\<rparr>)" "logs s (s\<lparr>nodes := x4\<rparr>)"
  "logs s (s\<lparr>terminated := x5\<rparr>)" "logs s (s\<lparr>spawned := x6\<rparr>)" "logs s (s\<lparr>clock_reads := x7\<rparr>)"
  "logs s (s\<lparr>sends := x8\<rparr>)" "logs s (s\<lparr>outbox := x9\<rparr>)" "logs s (s\<lparr>leader := y1\<rparr>)" "logs s (s\<lparr>gateway := y2\<rparr>)"
  "logs s (s\<lparr>task_retries := y3\<rparr>)" "logs s (s\<lparr>jobs_recovered := y4\<rparr>)" "logs s (s\<lparr>store := y5\<rparr>)"
  "logs s (s\<lparr>store_calls := y6\<rparr>)"
  by (rule logs_same; simp add: pending_def)+

lemma logs_clock: "read_clock s = (now, s') \<Longrightarrow> logs s s'"
  by (auto simp: read_clock_def intro: logs_update)

lemma logs_store_call: "store_call f s = (r, s') \<Longrightarrow> logs s s'"
  by (rule logs_same) (simp_all add: store_call_frame pending_def)

lemma logs_store_read: "store_read f s = (r, s') \<Longrightarrow> logs s s'"
  unfolding store_read_def by (rule logs_store_call)

lemma logs_store_write: "store_write f s = (r, s') \<Longrightarrow> logs s s'"
  unfolding store_write_def by (rule logs_store_call)

text \<open>The same facts as rules that peel the last effect off a state.\<close>

named_theorems log_intros

lemma logs_then [log_intros]:
  "logs s t \<Longrightarrow> logs s (emit e t)" "logs s t \<Longrightarrow> logs s (persist_task x t)" "logs s t \<Longrightarrow> logs s (persist_job j t)"
  "logs s t \<Longrightarrow> logs s (persist_roles n r t)" "logs s t \<Longrightarrow> logs s (record_failure x w d t)"
  by (rule logs_trans, assumption, rule logs_emit logs_plain)+

lemma logs_then_update [log_intros]:
  "logs s t \<Longrightarrow> logs s (t\<lparr>tasks := x1\<rparr>)" "logs s t \<Longrightarrow> logs s (t\<lparr>jobs := x2\<rparr>)" "logs s t \<Longrightarrow> logs s (t\<lparr>queue := x3\<rparr>)"
  "logs s t \<Longrightarrow> logs s (t\<lparr>nodes := x4\<rparr>)" "logs s t \<Longrightarrow> logs s (t\<lparr>terminated := x5\<rparr>)" "logs s t \<Longrightarrow> logs s (t\<lparr>spawned := x6\<rparr>)"
  "logs s t \<Longrightarrow> logs s (t\<lparr>clock_reads := x7\<rparr>)" "logs s t \<Longrightarrow> logs s (t\<lparr>sends := x8\<rparr>)" "logs s t \<Longrightarrow> logs s (t\<lparr>outbox := x9\<rparr>)"
  "logs s t \<Longrightarrow> logs s (t\<lparr>leader := y1\<rparr>)" "logs s t \<Longrightarrow> logs s (t\<lparr>gateway := y2\<rparr>)" "logs s t \<Longrightarrow> logs s (t\<lparr>task_retries := y3\<rparr>)"
  "logs s t \<Longrightarrow> logs s (t\<lparr>store := y5\<rparr>)" "logs s t \<Longrightarrow> logs s (t\<lparr>store_calls := y6\<rparr>)"
  by (rule logs_trans, assumption, rule logs_update)+

lemma logs_then_job [log_intros]:
  "logs s t \<Longrightarrow> logs s (bump_job f i t)" "logs s t \<Longrightarrow> logs s (start_job_if_queued i t)" "logs s t \<Longrightarrow> logs s (settle_job i t)"
  by (auto simp: bump_job_def start_job_if_queued_def settle_job_def read_clock_def Let_def
      intro!: log_intros split: option.split sum.split)

lemma logs_then_retry [log_intros]: "logs s t \<Longrightarrow> logs s (retry_or_give_up k now t)"
  by (auto simp: retry_or_give_up_def Let_def intro!: log_intros split: option.split sum.split)

lemma logs_then_work [log_intros]:
  "logs s t \<Longrightarrow> logs s (finish_task n k out t)" "logs s t \<Longrightarrow> logs s (requeue_tasks_of n t)"
proof -
  have "logs t (foldl (\<lambda>s tid. case bt_get (tasks s) tid of None \<Rightarrow> s
      | Some x \<Rightarrow> retry_or_give_up tid now (emit (EvTaskFailed tid (Some n) NodeOffline)
          (record_failure x NodeOffline ''node went offline'' s))) t ks)" for t now ks
    by (rule logs_foldl) (auto intro!: log_intros split: option.split)
  then have "logs t (requeue_tasks_of n t)" for t
    unfolding requeue_tasks_of_def read_clock_def Let_def prod.case by (rule logs_trans [OF logs_update(7)])
  then show "logs s t \<Longrightarrow> logs s (requeue_tasks_of n t)" by (rule logs_trans [rotated])
  show "logs s t \<Longrightarrow> logs s (finish_task n k out t)"
    by (auto simp: finish_task_def read_clock_def Let_def intro!: log_intros split: option.split sum.split task_outcome.split)
qed

lemma logs_dispatch: "logs s (dispatch sel s)"
  unfolding dispatch_def
proof (rule dispatch_loop_rule [where P = "\<lambda>_ _. True" and Q = logs])
  fix busy s r
  assume "placing sel busy s r"
  then show "case r of Inl s' \<Rightarrow> logs s s' | Inr (busy', s') \<Rightarrow> True \<and> (\<forall>u. logs s' u \<longrightarrow> logs s u)"
  proof cases
    case (place_refused tid q t chosen now y z s')
    then show ?thesis by (simp add: logs_same pending_def)
  next
    case (place_sent tid q t chosen now y e h s1 s')
    have "logs s s'" unfolding place_sent by (intro log_intros logs_refl)
    then show ?thesis using logs_trans by (auto simp: place_sent(1))
  qed (auto intro: logs_trans [OF logs_update(3)] logs_trans [OF logs_trans [OF logs_update(3) logs_update(7)]])
qed simp

lemma logs_then_dispatch [log_intros]: "logs s t \<Longrightarrow> logs s (dispatch sel t)"
  using logs_dispatch by (rule logs_trans [rotated])

lemma logs_then_refresh [log_intros]: "logs s t \<Longrightarrow> logs s (refresh_leadership el t)"
  by (auto simp: refresh_leadership_def Let_def intro!: log_intros split: option.split)

lemma logs_then_sweep [log_intros]: "logs s t \<Longrightarrow> logs s (sweep_health t)"
proof -
  have "logs t (foldl (\<lambda>s p. sweep_transition p s) t ps)" for t ps
    by (rule logs_foldl) (auto simp: sweep_transition_def intro!: log_intros split: prod.split node_status.split)
  then show "logs s t \<Longrightarrow> logs s (sweep_health t)"
    by (auto simp: sweep_health_def read_clock_def Let_def intro: logs_trans [OF _ logs_trans [OF logs_trans [OF logs_update(7) logs_update(4)]]])
qed

section \<open>Every turn of the loop\<close>

definition log_ok :: "supervisor \<Rightarrow> bool" where
  "log_ok s \<longleftrightarrow> length (published s) \<le> event_seq s \<and>
     map ev_seq (published s) = [event_seq s + 1 - length (published s)..<event_seq s + 1] \<and>
     (\<exists>n. events s = drop n (published s)) \<and> (\<exists>n. pending s = drop n (published s))"

lemma drop_append_le: "\<exists>m. drop n xs @ ys = drop m (xs @ ys)"
  by (rule exI [of _ "min n (length xs)"]) (simp add: min_def)

lemma log_ok_logs:
  assumes "log_ok s" "logs s s'"
  shows "log_ok s'"
proof -
  obtain rs where rs: "published s' = published s @ rs" "events s' = events s @ rs" "pending s' = pending s @ rs"
    "event_seq s' = event_seq s + length rs" "map ev_seq rs = [event_seq s + 1..<event_seq s + 1 + length rs]"
    using assms(2) by (auto simp: logs_def)
  obtain a b where ab: "events s = drop a (published s)" "pending s = drop b (published s)"
    using assms(1) by (auto simp: log_ok_def)
  let ?n = "event_seq s + 1 - length (published s)"
  have "?n \<le> event_seq s + 1" by simp
  from upt_add_eq_append [OF this, of "length rs"]
  have "map ev_seq (published s') = [?n..<event_seq s' + 1]"
    using assms(1) rs by (simp add: log_ok_def)
  moreover have "?n = event_seq s' + 1 - length (published s')" using rs assms(1) by (simp add: log_ok_def)
  ultimately show ?thesis
    using assms(1) rs ab drop_append_le [of a "published s" rs] drop_append_le [of b "published s" rs]
    unfolding log_ok_def by simp
qed

lemma log_ok_prune: "log_ok s \<Longrightarrow> log_ok (prune_memory s)"
  by (auto simp: log_ok_def prune_memory_def Let_def pending_def)

lemma log_ok_drain:
  assumes "log_ok s"
  shows "log_ok (drain_one refused s)"
proof (cases "writes s")
  case (Cons w ws)
  obtain n where n: "pending s = drop n (published s)" using assms by (auto simp: log_ok_def)
  have "pending (drain_one refused s) = (case w of WriteEvent _ \<Rightarrow> tl (pending s) | _ \<Rightarrow> pending s)"
    by (cases w) (simp_all add: pending_def drain_one_def Cons map_filter_def split: sum.split)
  then have "pending (drain_one refused s) = drop n (published s) \<or> pending (drain_one refused s) = drop (Suc n) (published s)"
    using n by (cases w) (simp_all add: drop_Suc tl_drop)
  moreover have "published (drain_one refused s) = published s" "events (drain_one refused s) = events s"
    "event_seq (drain_one refused s) = event_seq s"
    by (simp_all add: drain_one_def split: list.split sum.split)
  ultimately show ?thesis using assms unfolding log_ok_def by metis
qed (use assms in \<open>simp add: drain_one_def\<close>)

lemma logs_nodes:
  "logs s (snd (set_role el i r en s))" "logs s (snd (stop_node sel el i s))" "logs s (snd (start_node sel el i s))"
  "logs s (snd (send_to_node i m s))" "logs s (snd (pause_heartbeat i p s))" "logs s (detach_remote sel el i g s)"
  "logs s (handle_report sel rep s)"
proof -
  have launch: "logs s t \<Longrightarrow> logs s (launch_node i t)" for s t
    by (auto simp: launch_node_def read_clock_def Let_def intro!: log_intros split: option.split)
  show "logs s (snd (set_role el i r en s))"
    by (auto simp: set_role_def Let_def intro!: log_intros split: option.split prod.split)
  show "logs s (snd (stop_node sel el i s))" "logs s (detach_remote sel el i g s)"
    by (auto simp: stop_node_def detach_remote_def Let_def intro!: log_intros split: option.split)
  show "logs s (snd (start_node sel el i s))"
    by (auto simp: start_node_def Let_def intro!: log_intros launch split: option.split)
  show send: "logs s (snd (send_to_node i m s))" for m
    by (auto simp: send_to_node_def try_send_def intro!: log_intros split: option.split)
  show "logs s (snd (pause_heartbeat i p s))"
    using send [of "InPauseHeartbeat p"] by (auto simp: pause_heartbeat_def intro!: log_intros split: option.split sum.split prod.split)
  show "logs s (handle_report sel rep s)"
    by (cases rep) (auto simp: read_clock_def intro!: log_intros split: option.split sum.split)
qed

lemma logs_job_detail: "logs s (snd (job_detail i s))"
  unfolding job_detail_def Let_def
  by (auto split: option.split sum.split prod.split if_split) (meson logs_store_read logs_trans)+

lemma logs_attach: "logs s (snd (attach_remote sel el asked caps conn s))"
  by (auto simp: attach_remote_def attach_identity_def read_clock_def Let_def intro!: log_intros
      split: option.split sum.split)

lemma logs_submit: "logs s (snd (submit_job sel spec s))"
proof -
  obtain now s0 where c: "read_clock s = (now, s0)" by fastforce
  obtain r s1 where a: "allocate_job spec now s0 = (r, s1)" by fastforce
  have "logs s0 s1" using a
    by (auto simp: allocate_job_def Let_def split: prod.splits sum.splits
        intro: logs_store_call logs_trans [OF logs_store_call logs_store_call])
  with logs_clock [OF c] have s1: "logs s s1" by (rule logs_trans)
  have add: "logs s t \<Longrightarrow> logs s (foldl (\<lambda>s x. s\<lparr>queue := queue s @ [task_id x], tasks := bt_insert (task_id x) x (tasks s)\<rparr>) t ts)" for t ts
    by (rule logs_trans, assumption, rule logs_foldl) (intro log_intros logs_refl)
  show ?thesis
  proof (cases r)
    case (Inl e)
    then show ?thesis using s1 by (simp add: submit_job_def c a)
  next
    case (Inr p)
    obtain job ts where p: "p = (job, ts)" by fastforce
    obtain r2 s2 where w: "store_write (create_job job ts) s1 = (r2, s2)" by fastforce
    have "logs s s2" using s1 logs_store_write [OF w] by (rule logs_trans)
    then show ?thesis
      using Inr p by (auto simp: submit_job_def c a w Let_def intro!: log_intros add split: sum.split)
  qed
qed

lemma log_ok_run_one:
  assumes "log_ok s"
  shows "log_ok (run_one sel el i s)"
proof (cases i)
  case (InCommand c)
  have "logs s (snd (handle_command sel el c s))"
    by (cases c) (simp_all add: logs_job_detail logs_submit logs_nodes logs_attach)
  then show ?thesis using log_ok_logs [OF assms] by (simp add: InCommand)
next
  case (InReport rep)
  then show ?thesis using log_ok_logs [OF assms logs_nodes(7)] by simp
next
  case InTick
  have "logs s (dispatch sel (refresh_leadership el (sweep_health s)))" by (intro log_intros logs_refl)
  then show ?thesis unfolding InTick run_one.simps tick_def using log_ok_prune log_ok_logs [OF assms] by blast
next
  case (InDrain b)
  then show ?thesis using log_ok_drain [OF assms] by simp
qed

section \<open>From the start\<close>

lemma logs_restore_roles: "logs s (restore_roles s)"
  by (auto simp: restore_roles_def split: prod.split sum.split dest: logs_store_read intro!: log_intros)

lemma logs_boot_node: "logs s (boot_node s i)"
  by (auto simp: boot_node_def launch_node_def read_clock_def Let_def intro!: log_intros split: option.split)

lemma logs_restore_job: "logs s (restore_job now s p)"
proof -
  have w: "logs t (snd (store_write f t))" for f t
    by (cases "store_write f t") (auto dest: logs_store_write)
  have "logs t (restore_task u now t x)" for u t x
    by (auto simp: restore_task_def Let_def intro!: log_intros w)
  then have "logs t (foldl (restore_task u now) t ts)" for u t ts by (rule logs_foldl)
  then show ?thesis
    by (cases p) (auto simp: restore_job_def intro: logs_trans [OF logs_update(2)])
qed

lemma logs_collect_recent: "collect_recent js m s = (m', s') \<Longrightarrow> logs s s'"
  by (induction js arbitrary: m s) (auto split: prod.splits dest: logs_store_read intro: logs_trans)

lemma logs_restore_jobs: "logs s (restore_jobs s)"
proof -
  obtain r s1 where r: "store_read (recent_jobs (job_buffer (cfg s))) s = (r, s1)" by fastforce
  obtain now s2 where c: "read_clock s1 = (now, s2)" by fastforce
  obtain m s3 where m: "collect_recent (case r of Inl _ \<Rightarrow> [] | Inr x \<Rightarrow> x) [] s2 = (m, s3)" by fastforce
  obtain m' s4 where m': "collect_pages None m s3 = (m', s4)" by fastforce
  have p: "logs s3 s4" by (rule logs_same) (use collect_pages_frame [OF m'] in \<open>simp_all add: pending_def\<close>)
  have fold: "logs s4 (foldl (restore_job now) (s4\<lparr>jobs_recovered := n\<rparr>) ps)" for n ps
    by (rule logs_trans [OF logs_update(13)], rule logs_foldl) (rule logs_restore_job)
  have "logs s s4" using logs_trans [OF logs_trans [OF logs_trans [OF logs_store_read [OF r] logs_clock [OF c]] logs_collect_recent [OF m]] p] .
  then show ?thesis using logs_store_read [OF r] logs_trans [OF _ fold] m m'
    by (auto simp: restore_jobs_def r c Let_def split: sum.splits)
qed

lemma log_ok_boot:
  assumes "bootstrap el s0 = Some s" "published s0 = []" "events s0 = []" "writes s0 = []"
  shows "log_ok s"
proof -
  obtain r s1 where r: "store_read last_seq s0 = (r, s1)" by fastforce
  note f1 = store_read_frame [OF r]
  define s2 where "s2 = s1\<lparr>event_seq := (case r of Inl _ \<Rightarrow> 0 | Inr n \<Rightarrow> n)\<rparr>"
  obtain now s3 where c: "read_clock s2 = (now, s3)" by fastforce
  define s4 where "s4 = restore_roles (s3\<lparr>nodes := assign_initial_roles (cfg s3) (initial_nodes (cfg s3) now)\<rparr>)"
  have s: "s = refresh_leadership el (restore_jobs (foldl boot_node s4 (bt_keys (nodes s4))))"
    using assms(1) unfolding bootstrap_def r prod.case s2_def [symmetric] Let_def c s4_def [symmetric]
    by (auto split: if_splits)
  have "log_ok s2" using assms(2-4) by (simp add: log_ok_def s2_def f1 pending_def map_filter_def)
  moreover have "logs s2 s4" unfolding s4_def
    by (rule logs_trans [OF logs_trans [OF logs_clock [OF c] logs_update(4)] logs_restore_roles])
  then have "logs s2 s" unfolding s
    by (intro log_intros logs_trans [OF _ logs_restore_jobs] logs_trans [OF _ logs_foldl] logs_boot_node)
  ultimately show ?thesis by (rule log_ok_logs)
qed

text \<open>
  C6: The event log has no gap and no repetition: in every state the supervisor reaches, the events it has
  published carry consecutive sequence numbers up to the current one, in order; what is in memory and what
  still waits to be written to the database are the latest of them; and a tick leaves no more in memory than
  the buffer allows.
\<close>
theorem event_log_contiguous:
  assumes "reachable least_loaded lowest_healthy_id (new_supervisor c st flt clk mbox) s"
  shows "length (published s) \<le> event_seq s \<and>
    map ev_seq (published s) = [event_seq s + 1 - length (published s)..<event_seq s + 1] \<and>
    (\<exists>n. events s = drop n (published s)) \<and> (\<exists>n. pending s = drop n (published s)) \<and>
    length (events (tick least_loaded lowest_healthy_id s)) \<le> event_buffer (cfg s)"
proof -
  have "log_ok s"
    using assms
  proof (induction "new_supervisor c st flt clk mbox" s rule: reachable.induct)
    case (reach_boot s)
    then show ?case by (rule log_ok_boot) (simp_all add: new_supervisor_def)
  next
    case (reach_step s i)
    then show ?case by (intro log_ok_run_one)
  qed
  moreover have "length (events (prune_memory t)) \<le> event_buffer (cfg t)" for t
    by (simp add: prune_memory_def Let_def)
  then have "length (events (tick least_loaded lowest_healthy_id s)) \<le> event_buffer (cfg s)"
    unfolding tick_def using works_cfg [OF works_trans [OF works_sweep ll.works_settle_nodes [of _ lowest_healthy_id]]] by metis
  ultimately show ?thesis by (simp add: log_ok_def)
qed

theorem event_log_contiguous_witness:
  "\<exists>s. reachable least_loaded lowest_healthy_id demo_supervisor s \<and>
     map ev_seq (published s) = [event_seq s + 1 - length (published s)..<event_seq s + 1]"
proof -
  obtain s where s: "reachable least_loaded lowest_healthy_id demo_supervisor s" using demo_boots by blast
  then show ?thesis using event_log_contiguous [OF s [unfolded demo_supervisor_def]] by blast
qed

end
