(* ===== verification/Joining.thy ===== *)
theory Joining
  imports Startup
begin

text \<open>
  Workers that join and leave: the outcomes of \<open>attach_remote\<close>, and what the supervisor does with messages
  from a connection or a node that no longer has a say.
\<close>

lemma next_free_id_lowest:
  "next_free_id s = Some i \<longleftrightarrow> 1 \<le> i \<and> i \<le> u16_max \<and> bt_get (nodes s) i = None \<and>
     (\<forall>k. 1 \<le> k \<longrightarrow> k < i \<longrightarrow> bt_get (nodes s) k \<noteq> None)"
  "next_free_id s = None \<longleftrightarrow> (\<forall>k. 1 \<le> k \<longrightarrow> k \<le> u16_max \<longrightarrow> bt_get (nodes s) k \<noteq> None)"
proof -
  show "next_free_id s = None \<longleftrightarrow> (\<forall>k. 1 \<le> k \<longrightarrow> k \<le> u16_max \<longrightarrow> bt_get (nodes s) k \<noteq> None)"
    unfolding next_free_id_def find_None_iff bt_contains_def by (auto simp: less_Suc_eq_le)
  have "next_free_id s = Some i \<longleftrightarrow> (\<exists>n < length [1..<u16_max + 1]. bt_get (nodes s) ([1..<u16_max + 1] ! n) = None \<and>
      i = [1..<u16_max + 1] ! n \<and> (\<forall>j<n. bt_get (nodes s) ([1..<u16_max + 1] ! j) \<noteq> None))"
    unfolding next_free_id_def find_Some_iff bt_contains_def by auto
  also have "\<dots> \<longleftrightarrow> (\<exists>n < u16_max. bt_get (nodes s) (1 + n) = None \<and> i = 1 + n \<and> (\<forall>j<n. bt_get (nodes s) (1 + j) \<noteq> None))"
    by (auto simp del: upt_Suc)
  also have "\<dots> \<longleftrightarrow> 1 \<le> i \<and> i \<le> u16_max \<and> bt_get (nodes s) i = None \<and> (\<forall>k. 1 \<le> k \<longrightarrow> k < i \<longrightarrow> bt_get (nodes s) k \<noteq> None)"
  proof
    assume r: "1 \<le> i \<and> i \<le> u16_max \<and> bt_get (nodes s) i = None \<and> (\<forall>k. 1 \<le> k \<longrightarrow> k < i \<longrightarrow> bt_get (nodes s) k \<noteq> None)"
    then show "\<exists>n<u16_max. bt_get (nodes s) (1 + n) = None \<and> i = 1 + n \<and> (\<forall>j<n. bt_get (nodes s) (1 + j) \<noteq> None)"
      by (intro exI [of _ "i - 1"]) auto
  next
    assume "\<exists>n<u16_max. bt_get (nodes s) (1 + n) = None \<and> i = 1 + n \<and> (\<forall>j<n. bt_get (nodes s) (1 + j) \<noteq> None)"
    then obtain n where n: "n < u16_max" "bt_get (nodes s) (1 + n) = None" "i = 1 + n"
      "\<And>j. j < n \<Longrightarrow> bt_get (nodes s) (1 + j) \<noteq> None" by blast
    have "bt_get (nodes s) k \<noteq> None" if "1 \<le> k" "k < i" for k using n(4) [of "k - 1"] that n(3) by simp
    then show "1 \<le> i \<and> i \<le> u16_max \<and> bt_get (nodes s) i = None \<and> (\<forall>k. 1 \<le> k \<longrightarrow> k < i \<longrightarrow> bt_get (nodes s) k \<noteq> None)"
      using n by auto
  qed
  finally show "next_free_id s = Some i \<longleftrightarrow> 1 \<le> i \<and> i \<le> u16_max \<and> bt_get (nodes s) i = None \<and>
     (\<forall>k. 1 \<le> k \<longrightarrow> k < i \<longrightarrow> bt_get (nodes s) k \<noteq> None)" .
qed

text \<open>May a worker that asks for this id be connected?\<close>

definition refusal :: "nodeid \<Rightarrow> supervisor \<Rightarrow> reject_reason option" where
  "refusal i s =
     (case bt_get (nodes s) i of
        None \<Rightarrow> Some UnknownNodeReason
      | Some e \<Rightarrow> if entry_kind e = Simulated then Some UnknownNodeReason
                  else if entry_handle e \<noteq> None \<and> node_status (entry_node e) = Healthy then Some AlreadyConnected
                  else None)"

definition asked_id :: "nodeid option \<Rightarrow> supervisor \<Rightarrow> reject_reason + nodeid" where
  "asked_id asked s =
     (case asked of
        None \<Rightarrow> (case next_free_id s of None \<Rightarrow> Inl Full | Some i \<Rightarrow> Inr i)
      | Some i \<Rightarrow> (case refusal i s of Some why \<Rightarrow> Inl why | None \<Rightarrow> Inr i))"

text \<open>
  C8: The outcome of a worker asking to join is decided by the registry alone: without an id it gets the
  lowest one from 1 that is free, or is turned away as full exactly when all 65535 are taken; with one it is
  refused exactly when the id is not registered, belongs to an in-process node or is held by a healthy
  connection. A refusal changes nothing but the clock reading; an acceptance leaves the node healthy, with
  the new connection and the generation after the old connection's.
\<close>
theorem attach_remote_outcome:
  "(case attach_remote sel el asked caps conn s of
      (Inl why, s') \<Rightarrow> asked_id asked s = Inl why \<and> s' = s\<lparr>clock_reads := clock_reads s + 1\<rparr>
    | (Inr a, s') \<Rightarrow> asked_id asked s = Inr (at_id a) \<and>
        at_heartbeat_interval_ms a = heartbeat_interval_ms (health (cfg s')) \<and>
        (\<exists>e. bt_get (nodes s') (at_id a) = Some e \<and> entry_handle e = Some conn \<and>
           node_status (entry_node e) = Healthy \<and> entry_generation e = at_generation a \<and>
           at_generation a = (case bt_get (nodes s) (at_id a) of None \<Rightarrow> 1
             | Some old \<Rightarrow> (entry_generation old + 1) mod 2 ^ 64)))"
proof (cases asked)
    case None
    show ?thesis
    proof (cases "next_free_id (s\<lparr>clock_reads := clock_reads s + 1\<rparr>)")
      case full: None
      then have "next_free_id s = None" by (simp add: next_free_id_def)
      then show ?thesis using full by (simp add: attach_remote_def read_clock_def attach_identity_def asked_id_def None)
    next
      case (Some i)
      then have f: "next_free_id s = Some i" by (simp add: next_free_id_def)
      then have "bt_get (nodes s) i = None" by (simp only: next_free_id_lowest)
      then show ?thesis using Some f
        by (simp add: attach_remote_def read_clock_def attach_identity_def asked_id_def None Let_def attach_entry_def)
    qed
  next
    case (Some i)
    show ?thesis
      by (auto simp: attach_remote_def read_clock_def attach_identity_def asked_id_def Some refusal_def Let_def
          attach_entry_def accepts_work_def split: option.split)
qed

section \<open>Generations\<close>

text \<open>The generation of a node that the configuration declares: how often a worker was connected under its id.\<close>

definition declared_generation :: "supervisor \<Rightarrow> nodeid \<Rightarrow> nat option" where
  "declared_generation s i =
     (case bt_get (nodes s) i of
        None \<Rightarrow> None
      | Some e \<Rightarrow> if entry_kind e = Remote True then Some (entry_generation e) else None)"

lemma generation_same: "nodes s' = nodes s \<Longrightarrow> declared_generation s' i = declared_generation s i"
  by (simp add: declared_generation_def)

lemma generation_frame [simp]:
  "declared_generation (dispatch sel s) i = declared_generation s i"
  "declared_generation (refresh_leadership el s) i = declared_generation s i"
  "declared_generation (emit e s) i = declared_generation s i"
  "declared_generation (persist_roles n r s) i = declared_generation s i"
  by (rule generation_same, simp)+

lemma generation_edit:
  assumes "bt_get (nodes s) k = Some e" "nodes s' = bt_insert k e' (nodes s)"
    "entry_kind e' = entry_kind e" "entry_generation e' = entry_generation e"
  shows "declared_generation s' i = declared_generation s i"
  using assms by (simp add: declared_generation_def)

lemma generation_releases: "releases s s' \<Longrightarrow> declared_generation s' i = declared_generation s i"
  by (rule generation_same) (simp add: releases_def)

lemma generation_report: "declared_generation (handle_report sel r s) i = declared_generation s i"
proof (cases r)
  case (ReportHeartbeat hb)
  then show ?thesis
    by (auto simp: read_clock_def declared_generation_def split: option.split)
next
  case (ReportStarted n t)
  then show ?thesis
    by (auto simp: read_clock_def intro!: generation_same split: option.split sum.split)
next
  case (ReportFinished n t out)
  then show ?thesis
    using generation_releases [OF releases_finish [of s n "task_id t" out]] by simp
qed

lemma sweep_entry_generation:
  "entry_kind (fst (sweep_entry p now e)) = entry_kind e"
  "entry_generation (fst (sweep_entry p now e)) = entry_generation e"
  by (auto simp: sweep_entry_def Let_def split: option.split)

lemma generation_tick: "declared_generation (tick sel el s) i = declared_generation s i"
proof -
  obtain now s0 where c: "read_clock s = (now, s0)" by fastforce
  let ?s = "s0\<lparr>nodes := bt_map (\<lambda>e. fst (sweep_entry (health (cfg s0)) now e)) (nodes s0)\<rparr>"
  have "releases ?s (sweep_health s)"
    unfolding sweep_health_def c prod.case Let_def by (rule releases_foldl) (rule sweep_transition_releases)
  then have "declared_generation (sweep_health s) i = declared_generation ?s i" by (rule generation_releases)
  also have "\<dots> = declared_generation s0 i"
    by (simp add: declared_generation_def sweep_entry_generation split: option.split)
  also have "\<dots> = declared_generation s i" using read_clock_frame(1) [OF c] by (rule generation_same)
  finally have "declared_generation (sweep_health s) i = declared_generation s i" .
  moreover have "nodes (prune_memory u) = nodes u" for u by (simp add: prune_memory_def Let_def)
  ultimately show ?thesis by (simp add: tick_def declared_generation_def)
qed

lemma generation_leave:
  assumes "bt_get (nodes s) k = Some e" "nodes s1 = bt_insert k (offline_entry e) (nodes s)"
  shows "declared_generation (requeue_tasks_of k s1) i = declared_generation s i"
  using generation_releases [OF requeue_releases [of s1 k]] generation_edit [OF assms]
  by (simp add: offline_entry_def)

lemma generation_detach: "declared_generation (detach_remote sel el k g s) i = declared_generation s i"
proof (cases "bt_get (nodes s) k")
  case None
  then show ?thesis by (simp add: detach_remote_def)
next
  case (Some e)
  let ?s = "requeue_tasks_of k (emit (EvNodeLeft k) (s\<lparr>nodes := bt_insert k (offline_entry e) (nodes s)\<rparr>))"
  have g: "declared_generation ?s j = declared_generation s j" for j by (rule generation_leave [OF Some]) simp
  have "declared_generation (?s\<lparr>nodes := bt_remove k (nodes ?s)\<rparr>) i = declared_generation s i"
    if "entry_kind e \<noteq> Remote True"
    using that Some g [of i] by (cases "i = k") (simp_all add: declared_generation_def)
  then show ?thesis using Some g [of i] by (simp add: detach_remote_def Let_def)
qed

lemma generation_stop: "declared_generation (snd (stop_node sel el k s)) i = declared_generation s i"
proof (cases "bt_get (nodes s) k")
  case (Some e)
  have "declared_generation (requeue_tasks_of k (emit (EvNodeLeft k)
      (s\<lparr>terminated := terminated s @ [h], nodes := bt_insert k (offline_entry e) (nodes s)\<rparr>))) i = declared_generation s i" for h
    by (rule generation_leave [OF Some]) simp
  then show ?thesis using Some by (simp add: stop_node_def Let_def split: option.split)
qed (simp add: stop_node_def)

lemma generation_start: "declared_generation (snd (start_node sel el k s)) i = declared_generation s i"
  by (auto simp: start_node_def launch_node_def read_clock_def Let_def declared_generation_def split: option.split)

lemma generation_pause: "declared_generation (snd (pause_heartbeat k p s)) i = declared_generation s i"
proof -
  obtain r s1 where c: "send_to_node k (InPauseHeartbeat p) s = (r, s1)" by fastforce
  have "declared_generation s1 i = declared_generation s i" using send_to_node_frame(5) [OF c] by (rule generation_same)
  then show ?thesis
    by (auto simp: pause_heartbeat_def c declared_generation_def split: sum.split option.split)
qed

lemma generation_set_role: "declared_generation (snd (set_role el k r enabled s)) i = declared_generation s i"
  by (auto simp: set_role_def Let_def declared_generation_def split: option.split prod.split)

lemma generation_submit: "declared_generation (snd (submit_job sel spec s)) i = declared_generation s i"
proof -
  obtain now s0 where c: "read_clock s = (now, s0)" by fastforce
  obtain r s1 where a: "allocate_job spec now s0 = (r, s1)" by fastforce
  have n1: "nodes s1 = nodes s" using releases_allocate [OF a] read_clock_frame(1) [OF c] by (simp add: releases_def)
  have f: "nodes (foldl (\<lambda>s t. s\<lparr>queue := queue s @ [task_id t], tasks := bt_insert (task_id t) t (tasks s)\<rparr>) u ts) = nodes u" for u ts
    by (induction ts arbitrary: u) auto
  have "nodes (snd (submit_job sel spec s)) = nodes s"
    using n1 releases_store_write by (auto simp: submit_job_def c a f releases_def Let_def split: sum.split prod.split)
  then show ?thesis by (rule generation_same)
qed

text \<open>Whether a turn of the loop connects a worker under this id.\<close>

fun joins :: "selection \<Rightarrow> election \<Rightarrow> nodeid \<Rightarrow> loop_input \<Rightarrow> supervisor \<Rightarrow> nat" where
  "joins sel el i (InCommand (CmdAttachRemote asked caps conn)) s =
     (case fst (attach_remote sel el asked caps conn s) of
        Inl why \<Rightarrow> 0
      | Inr a \<Rightarrow> if at_id a = i then 1 else 0)"
| "joins sel el i _ s = 0"

lemma generation_attach:
  assumes g: "declared_generation s i = Some g"
  shows "declared_generation (snd (attach_remote sel el asked caps conn s)) i =
    Some (case fst (attach_remote sel el asked caps conn s) of
            Inl why \<Rightarrow> g | Inr a \<Rightarrow> if at_id a = i then (g + 1) mod 2 ^ 64 else g)"
proof -
  obtain e where e: "bt_get (nodes s) i = Some e" "entry_kind e = Remote True" "entry_generation e = g"
    using g by (auto simp: declared_generation_def split: option.splits if_splits)
  obtain now s0 where c: "read_clock s = (now, s0)" by fastforce
  have n0: "nodes s0 = nodes s" using read_clock_frame(1) [OF c] .
  show ?thesis
  proof (cases "attach_identity asked caps now s0")
    case (Inl why)
    then show ?thesis using g n0 by (simp add: attach_remote_def c declared_generation_def)
  next
    case (Inr p)
    obtain k s1 where p: "p = (k, s1)" by fastforce
    have free: "bt_get (nodes s0) k = None" if "next_free_id s0 = Some k" for k
      using that by (auto simp: next_free_id_def find_Some_iff bt_contains_def)
    have n1: "bt_get (nodes s1) i = Some e"
      using Inr p e(1) n0 free by (auto simp: attach_identity_def Let_def split: option.splits)
    then show ?thesis
      using e Inr p by (auto simp: attach_remote_def c Let_def declared_generation_def attach_entry_def split: option.split)
  qed
qed

lemma attached_generation:
  assumes "attach_remote sel el asked caps conn s = (Inr a, s1)" "declared_generation s (at_id a) = Some g"
  shows "at_generation a = (g + 1) mod 2 ^ 64"
proof -
  obtain now s0 where c: "read_clock s = (now, s0)" by fastforce
  have n0: "nodes s0 = nodes s" using read_clock_frame(1) [OF c] .
  have free: "bt_get (nodes s0) k = None" if "next_free_id s0 = Some k" for k
    using that by (auto simp: next_free_id_def find_Some_iff bt_contains_def)
  obtain k s2 where i: "attach_identity asked caps now s0 = Inr (k, s2)"
    using assms(1) by (auto simp: attach_remote_def c split: sum.splits)
  have a: "at_id a = k" "at_generation a = (case bt_get (nodes s2) k of Some e \<Rightarrow> (entry_generation e + 1) mod 2 ^ 64 | None \<Rightarrow> 0)"
    using assms(1) i by (auto simp: attach_remote_def c Let_def attach_entry_def split: option.splits if_splits)
  moreover have "bt_get (nodes s2) k = bt_get (nodes s) k"
    using i n0 free assms(2) a(1)
    by (auto simp: attach_identity_def Let_def declared_generation_def split: option.splits if_splits)
  ultimately show ?thesis using assms(2) by (auto simp: declared_generation_def split: option.splits if_splits)
qed

lemma generation_run_one:
  assumes g: "declared_generation s i = Some g" "g < 2 ^ 64"
  shows "declared_generation (run_one sel el x s) i = Some ((g + joins sel el i x s) mod 2 ^ 64)"
proof (cases x)
  case (InCommand c)
  have send: "declared_generation (snd (send_to_node k m s)) i = declared_generation s i" for k m
    by (cases "send_to_node k m s") (auto intro!: generation_same simp: send_to_node_frame)
  have detail: "declared_generation (snd (job_detail k s)) i = declared_generation s i" for k
    unfolding job_detail_def Let_def store_read_def
    by (rule generation_releases) (auto split: option.split sum.split prod.split if_split, (meson releases_store_call releases_trans)+)
  show ?thesis
  proof (cases c)
    case (CmdAttachRemote asked caps conn)
    then show ?thesis using generation_attach [OF g(1), of sel el asked caps conn] InCommand g(2)
      by (auto split: sum.split)
  qed (use InCommand g send detail in \<open>simp_all add: generation_submit generation_set_role generation_stop
      generation_start generation_pause generation_detach\<close>)
next
  case (InDrain refused)
  have "nodes (drain_one refused s) = nodes s" by (simp add: drain_one_def split: list.split sum.split)
  then show ?thesis using g InDrain generation_same [of "drain_one refused s" s i] by simp
qed (use g in \<open>simp_all add: generation_report generation_tick del: handle_report.simps\<close>)

text \<open>Any number of turns, and the workers connected under an id meanwhile.\<close>

fun run_inputs :: "selection \<Rightarrow> election \<Rightarrow> loop_input list \<Rightarrow> supervisor \<Rightarrow> supervisor" where
  "run_inputs sel el [] s = s"
| "run_inputs sel el (x # xs) s = run_inputs sel el xs (run_one sel el x s)"

fun connections_of :: "selection \<Rightarrow> election \<Rightarrow> nodeid \<Rightarrow> loop_input list \<Rightarrow> supervisor \<Rightarrow> nat" where
  "connections_of sel el i [] s = 0"
| "connections_of sel el i (x # xs) s = joins sel el i x s + connections_of sel el i xs (run_one sel el x s)"

lemma generation_run:
  "declared_generation s i = Some g \<Longrightarrow> g < 2 ^ 64 \<Longrightarrow>
     declared_generation (run_inputs sel el xs s) i = Some ((g + connections_of sel el i xs s) mod 2 ^ 64)"
proof (induction xs arbitrary: s g)
  case (Cons x xs)
  have "(g + joins sel el i x s) mod 2 ^ 64 < 2 ^ 64" by simp
  then show ?case
    using Cons.IH [OF generation_run_one [OF Cons.prems, of sel el x]] by (simp only: run_inputs.simps connections_of.simps mod_add_left_eq add.assoc)
qed simp

section \<open>What a round of dispatch leaves alone\<close>

definition job_counters :: "supervisor \<Rightarrow> jobid \<Rightarrow> (nat \<times> nat) option" where
  "job_counters s i = map_option (\<lambda>j. (tasks_completed j, tasks_failed j)) (bt_get (jobs s) i)"

definition keyed_tasks :: "supervisor \<Rightarrow> bool" where
  "keyed_tasks s \<longleftrightarrow> (\<forall>k t. bt_get (tasks s) k = Some t \<longrightarrow> task_id t = k)"

lemma job_counters_start [simp]: "job_counters (start_job_if_queued j s) i = job_counters s i"
  by (auto simp: start_job_if_queued_def read_clock_def job_counters_def persist_job_def push_def
      job_transition_to_def Let_def split: option.split sum.split)

lemma job_counters_frame [simp]:
  "job_counters (emit e s) i = job_counters s i" "job_counters (persist_task t s) i = job_counters s i"
  by (simp_all add: job_counters_def)

lemma dispatch_only_queued:
  assumes "keyed_tasks s"
  shows "(\<forall>k. k \<notin> set (queue s) \<longrightarrow> bt_get (tasks (dispatch sel s)) k = bt_get (tasks s) k) \<and>
    (\<forall>j. job_counters (dispatch sel s) j = job_counters s j)"
  unfolding dispatch_def
proof (rule dispatch_loop_rule [where P = "\<lambda>_. keyed_tasks" and
      Q = "\<lambda>s s'. (\<forall>k. k \<notin> set (queue s) \<longrightarrow> bt_get (tasks s') k = bt_get (tasks s) k) \<and>
        (\<forall>j. job_counters s' j = job_counters s j)"])
  show "case r of Inl s' \<Rightarrow> (\<forall>k. k \<notin> set (queue s) \<longrightarrow> bt_get (tasks s') k = bt_get (tasks s) k) \<and>
        (\<forall>j. job_counters s' j = job_counters s j)
    | Inr (busy', s') \<Rightarrow> keyed_tasks s' \<and>
        (\<forall>u. (\<forall>k. k \<notin> set (queue s') \<longrightarrow> bt_get (tasks u) k = bt_get (tasks s') k) \<and>
             (\<forall>j. job_counters u j = job_counters s' j) \<longrightarrow>
           (\<forall>k. k \<notin> set (queue s) \<longrightarrow> bt_get (tasks u) k = bt_get (tasks s) k) \<and>
             (\<forall>j. job_counters u j = job_counters s j))"
    if key: "keyed_tasks s" and place: "placing sel busy s r" for busy s r
    using place
  proof cases
    case (place_refused tid q t chosen now y z s')
    then have "task_id z = tid" using key by (auto simp: keyed_tasks_def task_op_Inr_iff)
    then show ?thesis using place_refused by (auto simp: job_counters_def)
  next
    case (place_sent tid q t chosen now y e h s1 s')
    have y: "task_id y = tid" using place_sent(2,3,5) key by (auto simp: keyed_tasks_def task_op_Inr_iff)
    have "keyed_tasks s'" using place_sent(9,10) key y by (auto simp: keyed_tasks_def)
    moreover have "job_counters s' j = job_counters s j" for j
      unfolding place_sent(10) place_sent(9)
      by (simp only: job_counters_frame job_counters_start) (simp add: job_counters_def)
    moreover have "queue s' = q" "tasks s' = bt_insert tid y (tasks s)" using place_sent(9,10) y by simp_all
    ultimately show ?thesis using place_sent(1,2) by auto
  qed (use key in \<open>auto simp: keyed_tasks_def job_counters_def\<close>)
qed (rule assms)

lemma stale_result_dispatches:
  assumes "\<not> (\<exists>t. bt_get (tasks s) (task_id x) = Some t \<and> assigned_to t = Some i \<and> \<not> task_terminal (task_state t))"
  shows "handle_report sel (ReportFinished i x out) s = dispatch sel (s\<lparr>clock_reads := clock_reads s + 1\<rparr>)"
  using assms by (auto simp: finish_task_def read_clock_def split: option.split)

lemma stale_start_ignored:
  assumes "\<not> (\<exists>t. bt_get (tasks s) (task_id x) = Some t \<and> assigned_to t = Some i \<and> task_state t = TaskAssigned)"
  shows "handle_report sel (ReportStarted i x) s = s\<lparr>clock_reads := clock_reads s + 1\<rparr>"
  using assms by (auto simp: read_clock_def start_Inr_iff split: option.split sum.split)

lemma run_inputs_inv:
  assumes "sup_inv s" "list_all input_fits xs"
  shows "sup_inv (run_inputs least_loaded el xs s)"
  using assms
proof (induction xs arbitrary: s)
  case (Cons x xs)
  then have "sup_inv (run_one least_loaded el x s)" using works_inv [OF ll.works_run_one] by simp
  then show ?case using Cons by simp
qed simp

section \<open>Late messages\<close>

text \<open>
  C9: Late messages do no harm. Take any state of the supervisor in which the work is accounted for (as in every
  state it can reach), a worker that is then connected under an id the configuration declares, and any commands,
  reports, ticks and writes after that. The id's generation counts the connections accepted for it since; so once
  the worker has been replaced, and until 2 to the 64 have been, its connection's farewell leaves the supervisor
  exactly as it is, and does not disconnect the worker that took its place. A result from any node for a task that
  the node does not hold, because it was given to another, ended, or was forgotten, has no effect of its own: the
  handler makes the round of dispatch it makes after every result and nothing else, in which no task outside the
  queue and no job's count of completed and failed tasks changes; and the start of a task the node was not
  assigned changes nothing but the clock reading.
\<close>
theorem stale_messages_ignored:
  assumes "sup_inv s"
    and "attach_remote least_loaded el asked caps conn s = (Inr a, s1)" "declared_generation s (at_id a) \<noteq> None"
    and "list_all input_fits inputs" "s' = run_inputs least_loaded el inputs s1"
    and "n = connections_of least_loaded el (at_id a) inputs s1"
  shows "declared_generation s' (at_id a) = Some ((at_generation a + n) mod 2 ^ 64) \<and>
    (0 < n \<and> n < 2 ^ 64 \<longrightarrow> detach_remote least_loaded el (at_id a) (at_generation a) s' = s') \<and>
    (\<forall>i x out. \<not> (\<exists>t. bt_get (tasks s') (task_id x) = Some t \<and> assigned_to t = Some i \<and> \<not> task_terminal (task_state t)) \<longrightarrow>
       handle_report least_loaded (ReportFinished i x out) s' =
         dispatch least_loaded (s'\<lparr>clock_reads := clock_reads s' + 1\<rparr>) \<and>
       (\<forall>k. k \<notin> set (queue s') \<longrightarrow>
          bt_get (tasks (handle_report least_loaded (ReportFinished i x out) s')) k = bt_get (tasks s') k) \<and>
       (\<forall>j. job_counters (handle_report least_loaded (ReportFinished i x out) s') j = job_counters s' j)) \<and>
    (\<forall>i x. \<not> (\<exists>t. bt_get (tasks s') (task_id x) = Some t \<and> assigned_to t = Some i \<and> task_state t = TaskAssigned) \<longrightarrow>
       handle_report least_loaded (ReportStarted i x) s' = s'\<lparr>clock_reads := clock_reads s' + 1\<rparr>)"
proof -
  let ?g = "at_generation a"
  have one: "s1 = run_one least_loaded el (InCommand (CmdAttachRemote asked caps conn)) s" using assms(2) by simp
  have "works s s1" unfolding one by (rule ll.works_run_one) simp
  then have inv: "sup_inv s1" using works_inv assms(1) by blast
  obtain g where g: "declared_generation s (at_id a) = Some g" using assms(3) by blast
  have gen: "declared_generation s1 (at_id a) = Some ?g" "?g < 2 ^ 64"
    using generation_attach [OF g, of least_loaded el asked caps conn] attached_generation [OF assms(2) g]
    by (simp_all add: assms(2))
  have g': "declared_generation s' (at_id a) = Some ((?g + n) mod 2 ^ 64)"
    using generation_run [OF gen] assms(5,6) by simp
  have farewell: "detach_remote least_loaded el (at_id a) ?g s' = s'" if "0 < n" "n < 2 ^ 64"
  proof -
    have "(?g + n) mod 2 ^ 64 \<noteq> ?g"
    proof (cases "?g + n < 2 ^ 64")
      case False
      then have "(?g + n) mod 2 ^ 64 = ?g + n - 2 ^ 64" using gen(2) that by (simp add: mod_if)
      then show ?thesis using that False by linarith
    qed (use that in simp)
    then show ?thesis
      using g' by (auto simp: declared_generation_def detach_remote_def split: option.splits if_splits)
  qed
  have key: "keyed_tasks (s'\<lparr>clock_reads := clock_reads s' + 1\<rparr>)"
    using sup_inv_task(1) [OF run_inputs_inv [OF inv assms(4), of el]] assms(5) by (simp add: keyed_tasks_def)
  note round = dispatch_only_queued [OF key, of least_loaded]
  show ?thesis
    using g' farewell stale_result_dispatches stale_start_ignored round
    by (simp add: job_counters_def del: handle_report.simps)
qed

text \<open>Node 7 is declared: a worker connects, is stopped, and another takes its place.\<close>

definition demo_declared :: supervisor where
  "demo_declared = demo_supervisor\<lparr>nodes := [(7, declared_entry 5 (7, new_capabilities 4 1024))]\<rparr>"

definition demo_replaced :: "loop_input list" where
  "demo_replaced = [InCommand (CmdStopNode 7), InCommand (CmdAttachRemote (Some 7) (new_capabilities 4 1024) (Connection 2))]"

lemma dispatch_idle: "queue s = [] \<Longrightarrow> dispatch sel s = s"
  by (simp add: dispatch_def dispatch_loop.simps dispatch_one_def)

lemma attach_idle:
  assumes "queue s = []" "tasks s = []" "bt_get (nodes s) i = Some e" "entry_kind e \<noteq> Simulated" "entry_handle e = None"
  shows "\<exists>a s' e'. attach_remote sel el (Some i) caps conn s = (Inr a, s') \<and> at_id a = i \<and>
    queue s' = [] \<and> tasks s' = [] \<and> bt_get (nodes s') i = Some e' \<and> entry_kind e' = entry_kind e \<and> entry_handle e' = Some conn"
  using assms by (simp add: attach_remote_def read_clock_def attach_identity_def Let_def dispatch_idle attach_entry_def)

lemma stop_idle:
  assumes "queue s = []" "tasks s = []" "bt_get (nodes s) i = Some e" "entry_handle e = Some h"
  shows "\<exists>e'. queue (snd (stop_node sel el i s)) = [] \<and> tasks (snd (stop_node sel el i s)) = [] \<and>
    bt_get (nodes (snd (stop_node sel el i s))) i = Some e' \<and> entry_kind e' = entry_kind e \<and> entry_handle e' = None"
  using assms by (simp add: stop_node_def requeue_tasks_of_def read_clock_def Let_def dispatch_idle offline_entry_def bt_values_def)

theorem stale_messages_ignored_witness:
  "\<exists>a s1. attach_remote least_loaded lowest_healthy_id (Some 7) (new_capabilities 4 1024) (Connection 1) demo_declared = (Inr a, s1) \<and>
     connections_of least_loaded lowest_healthy_id 7 demo_replaced s1 = 1 \<and>
     detach_remote least_loaded lowest_healthy_id 7 (at_generation a)
       (run_inputs least_loaded lowest_healthy_id demo_replaced s1) = run_inputs least_loaded lowest_healthy_id demo_replaced s1 \<and>
     job_counters (handle_report least_loaded (ReportFinished 7 (new_task 9 1 0 (TaskSleep 10) 5) (OutCompleted []))
       (run_inputs least_loaded lowest_healthy_id demo_replaced s1)) 1 =
     job_counters (run_inputs least_loaded lowest_healthy_id demo_replaced s1) 1"
proof -
  let ?L = least_loaded and ?E = lowest_healthy_id and ?c = "new_capabilities 4 1024"
  let ?e = "declared_entry 5 (7, ?c)"
  have start: "queue demo_declared = []" "tasks demo_declared = []" "bt_get (nodes demo_declared) 7 = Some ?e"
    "entry_kind ?e = Remote True" "entry_handle ?e = None"
    by (simp_all add: demo_declared_def demo_supervisor_def new_supervisor_def bt_get_Cons declared_entry_def)
  have inv: "sup_inv demo_declared"
    by (rule works_inv [OF same_workI demo_inv]) (simp_all add: demo_declared_def)
  obtain a s1 e1 where a: "attach_remote ?L ?E (Some 7) ?c (Connection 1) demo_declared = (Inr a, s1)" "at_id a = 7"
    "queue s1 = []" "tasks s1 = []" "bt_get (nodes s1) 7 = Some e1" "entry_kind e1 = Remote True" "entry_handle e1 = Some (Connection 1)"
    using attach_idle [OF start(1,2,3) _ start(5), of ?L ?E ?c "Connection 1"] start(4) by auto
  define s2 where "s2 = snd (stop_node ?L ?E 7 s1)"
  obtain e2 where b: "queue s2 = []" "tasks s2 = []" "bt_get (nodes s2) 7 = Some e2" "entry_kind e2 = Remote True" "entry_handle e2 = None"
    using stop_idle [OF a(3,4,5,7), of ?L ?E] a(6) by (auto simp: s2_def)
  obtain a' s3 where d: "attach_remote ?L ?E (Some 7) ?c (Connection 2) s2 = (Inr a', s3)" "at_id a' = 7" "tasks s3 = []"
    using attach_idle [OF b(1,2,3) _ b(5), of ?L ?E ?c "Connection 2"] b(4) by auto
  have run: "run_inputs ?L ?E demo_replaced s1 = s3" "connections_of ?L ?E 7 demo_replaced s1 = 1"
    using d by (simp_all add: demo_replaced_def s2_def [symmetric])
  have fits: "list_all input_fits demo_replaced" by (simp add: demo_replaced_def)
  have decl: "declared_generation demo_declared (at_id a) \<noteq> None"
    using start(3,4) a(2) by (simp add: declared_generation_def)
  have n: "1 = connections_of ?L ?E (at_id a) demo_replaced s1" using run(2) a(2) by simp
  note late = stale_messages_ignored [OF inv a(1) decl fits run(1) [symmetric] n]
  have "detach_remote ?L ?E 7 (at_generation a) s3 = s3"
    using late [THEN conjunct2, THEN conjunct1] a(2) by simp
  moreover have "bt_get (tasks s3) k = None" for k using d(3) by (simp add: bt_get_def)
  then have "job_counters (handle_report ?L (ReportFinished 7 (new_task 9 1 0 (TaskSleep 10) 5) (OutCompleted [])) s3) 1 = job_counters s3 1"
    using late [THEN conjunct2, THEN conjunct2, THEN conjunct1] by (metis option.distinct(1))
  ultimately show ?thesis using a(1) run by auto
qed

end
