(* ===== verification/Text_Forms.thy ===== *)
theory Text_Forms
  imports Gavel_Prelude
begin

text \<open>
  The string operations of Rust's standard library that the stored forms of the market code are
  written with: \<open>split\<close>, \<open>split_once\<close>, \<open>strip_prefix\<close>, \<open>strip_suffix\<close>, \<open>parse\<close> of unsigned integers and
  ASCII case folding, with the laws that make a written form readable again. Strings are lists of
  characters; all texts the code builds from them are ASCII.
\<close>

named_theorems text_simps \<open>reading back what was written\<close>

section \<open>Splitting and joining\<close>

text \<open>\<open>split(c)\<close>: the pieces between the separators, one more than there are separators.\<close>

fun split_on :: "char \<Rightarrow> string \<Rightarrow> string list" where
  "split_on c [] = [[]]"
| "split_on c (x # xs) =
     (if x = c then [] # split_on c xs
      else (x # hd (split_on c xs)) # tl (split_on c xs))"

text \<open>The loop that writes a separator before every piece but the first.\<close>

fun join_with :: "char \<Rightarrow> string list \<Rightarrow> string" where
  "join_with c [] = []"
| "join_with c [p] = p"
| "join_with c (p # q # ps) = p @ c # join_with c (q # ps)"

definition free_of :: "char \<Rightarrow> string \<Rightarrow> bool" where
  "free_of c s \<longleftrightarrow> c \<notin> set s"

lemma free_of_simps [text_simps]:
  "free_of c []"
  "free_of c (x # s) \<longleftrightarrow> x \<noteq> c \<and> free_of c s"
  "free_of c (s @ t) \<longleftrightarrow> free_of c s \<and> free_of c t"
  by (auto simp: free_of_def)

lemma split_on_nonempty [simp]: "split_on c s \<noteq> []"
  by (cases s) auto

lemma split_on_free: "free_of c s \<Longrightarrow> split_on c s = [s]"
  by (induction s) (auto simp: free_of_def)

lemma split_on_append: "free_of c s \<Longrightarrow> split_on c (s @ c # t) = s # split_on c t"
  by (induction s) (auto simp: free_of_def)

lemma split_join:
  assumes "ps \<noteq> []" and "\<And>p. p \<in> set ps \<Longrightarrow> free_of c p"
  shows "split_on c (join_with c ps) = ps"
  using assms
proof (induction c ps rule: join_with.induct)
  case (3 c p q ps)
  then show ?case by (simp add: split_on_append)
qed (auto simp: split_on_free)

lemma split_on_pieces_free: "p \<in> set (split_on c s) \<Longrightarrow> free_of c p"
proof (induction s arbitrary: p)
  case (Cons x s)
  have hd: "free_of c (hd (split_on c s))"
    using Cons.IH [OF hd_in_set [OF split_on_nonempty]] .
  have tl: "free_of c q" if "q \<in> set (tl (split_on c s))" for q
    using Cons.IH [OF list.set_sel(2) [OF split_on_nonempty that]] .
  show ?case
    using Cons.prems Cons.IH hd tl by (auto simp: free_of_simps split: if_splits)
qed (simp add: free_of_def)

lemma join_split: "join_with c (split_on c s) = s"
proof (induction s)
  case (Cons x s)
  obtain p ps where sp: "split_on c s = p # ps" by (cases "split_on c s") auto
  show ?case
    using Cons sp by (cases ps) (auto simp: sp)
qed simp

lemma join_with_inj:
  assumes "ps \<noteq> []" "qs \<noteq> []"
    and "\<And>p. p \<in> set ps \<Longrightarrow> free_of c p" "\<And>q. q \<in> set qs \<Longrightarrow> free_of c q"
    and "join_with c ps = join_with c qs"
  shows "ps = qs"
  using assms split_join [of ps c] split_join [of qs c] by metis

text \<open>\<open>split_once\<close>: the text before and after the first separator.\<close>

fun split_once :: "char \<Rightarrow> string \<Rightarrow> (string \<times> string) option" where
  "split_once c [] = None"
| "split_once c (x # xs) =
     (if x = c then Some ([], xs) else map_option (\<lambda>(a, b). (x # a, b)) (split_once c xs))"

lemma split_once_append: "free_of c s \<Longrightarrow> split_once c (s @ c # t) = Some (s, t)"
  by (induction s) (auto simp: free_of_def)

lemma split_once_None: "split_once c s = None \<longleftrightarrow> free_of c s"
  by (induction s) (auto simp: free_of_def)

section \<open>Prefixes and suffixes\<close>

fun strip_prefix :: "string \<Rightarrow> string \<Rightarrow> string option" where
  "strip_prefix [] s = Some s"
| "strip_prefix (p # ps) [] = None"
| "strip_prefix (p # ps) (x # xs) = (if p = x then strip_prefix ps xs else None)"

lemma strip_prefix_iff: "strip_prefix p s = Some r \<longleftrightarrow> s = p @ r"
  by (induction p s rule: strip_prefix.induct) auto

lemma strip_prefix_append [simp, text_simps]: "strip_prefix p (p @ s) = Some s"
  by (simp add: strip_prefix_iff)

definition strip_suffix_char :: "char \<Rightarrow> string \<Rightarrow> string option" where
  "strip_suffix_char c s = (if s \<noteq> [] \<and> last s = c then Some (butlast s) else None)"

lemma strip_suffix_snoc [simp, text_simps]: "strip_suffix_char c (s @ [c]) = Some s"
  by (simp add: strip_suffix_char_def)

section \<open>Unsigned integers\<close>

text \<open>
  \<open>str::parse\<close> at an unsigned type whose largest value is \<open>m\<close>: an optional plus sign, at least one
  digit, nothing else, and no more than \<open>m\<close>.
\<close>

definition unsigned_digits :: "string \<Rightarrow> string" where
  "unsigned_digits s = (case s of c # r \<Rightarrow> if c = CHR ''+'' then r else s | [] \<Rightarrow> [])"

definition parse_uint :: "nat \<Rightarrow> string \<Rightarrow> nat option" where
  "parse_uint m s =
     (let ds = unsigned_digits s in
      if ds \<noteq> [] \<and> list_all is_digit ds \<and> dec_val ds \<le> m then Some (dec_val ds) else None)"

lemma not_digit_plus: "\<not> is_digit (CHR ''+'')"
  by (simp add: is_digit_def)

lemma unsigned_digits_show [simp]: "unsigned_digits (show_nat n) = show_nat n"
proof (cases "show_nat n")
  case (Cons c r)
  then have "is_digit c" using show_nat_digits [of c n] by simp
  then have "c \<noteq> CHR ''+''" using not_digit_plus by auto
  then show ?thesis using Cons by (simp add: unsigned_digits_def)
qed simp

lemma parse_show [text_simps]: "n \<le> m \<Longrightarrow> parse_uint m (show_nat n) = Some n"
  using show_nat_digits by (auto simp: parse_uint_def dec_val_show_nat list_all_iff)

lemma parse_show_iff: "parse_uint m (show_nat n) = (if n \<le> m then Some n else None)"
  using show_nat_digits by (auto simp: parse_uint_def dec_val_show_nat list_all_iff)

lemma parse_uint_le: "parse_uint m s = Some n \<Longrightarrow> n \<le> m"
  by (auto simp: parse_uint_def Let_def split: if_splits)

lemma parse_uint_Nil [simp]: "parse_uint m [] = None"
  by (simp add: parse_uint_def unsigned_digits_def)

lemma parse_uint_nonempty: "parse_uint m s = Some n \<Longrightarrow> s \<noteq> []"
  by auto

lemma show_nat_free [text_simps]: "\<not> is_digit c \<Longrightarrow> free_of c (show_nat n)"
  using show_nat_digits by (auto simp: free_of_def)

lemma separators_not_digits [text_simps]:
  "\<not> is_digit (CHR '':'')" "\<not> is_digit (CHR '','')" "\<not> is_digit (CHR ''|'')" "\<not> is_digit (CHR ''-'')"
  "\<not> is_digit (CHR ''d'')"
  by (simp_all add: is_digit_def)

lemma last_show_nat: "is_digit (last (show_nat n))"
  using show_nat_digits [OF last_in_set [OF show_nat_nonempty]] .

section \<open>Case folding\<close>

text \<open>\<open>to_ascii_lowercase\<close> and \<open>eq_ignore_ascii_case\<close>.\<close>

definition ascii_lower :: "char \<Rightarrow> char" where
  "ascii_lower c = (if 65 \<le> (of_char c :: nat) \<and> (of_char c :: nat) \<le> 90 then char_of ((of_char c :: nat) + 32) else c)"

definition to_ascii_lowercase :: "string \<Rightarrow> string" where
  "to_ascii_lowercase s = map ascii_lower s"

definition eq_ignore_ascii_case :: "string \<Rightarrow> string \<Rightarrow> bool" where
  "eq_ignore_ascii_case s t \<longleftrightarrow> to_ascii_lowercase s = to_ascii_lowercase t"

lemma eq_ignore_ascii_case_refl [simp]: "eq_ignore_ascii_case s s"
  by (simp add: eq_ignore_ascii_case_def)

lemma ascii_lower_idem [simp]: "ascii_lower (ascii_lower c) = ascii_lower c"
  by (auto simp: ascii_lower_def of_char_of)

lemma to_ascii_lowercase_idem [simp]: "to_ascii_lowercase (to_ascii_lowercase s) = to_ascii_lowercase s"
  by (simp add: to_ascii_lowercase_def)

section \<open>White space\<close>

definition is_space :: "char \<Rightarrow> bool" where
  "is_space c \<longleftrightarrow> (let n = (of_char c :: nat) in n = 32 \<or> 9 \<le> n \<and> n \<le> 13)"

definition trim :: "string \<Rightarrow> string" where
  "trim s = rev (dropWhile is_space (rev (dropWhile is_space s)))"

lemma dropWhile_id: "(\<And>c. c \<in> set s \<Longrightarrow> \<not> P c) \<Longrightarrow> dropWhile P s = s"
  by (cases s) auto

lemma trim_id: "(\<And>c. c \<in> set s \<Longrightarrow> \<not> is_space c) \<Longrightarrow> trim s = s"
  unfolding trim_def by (subst dropWhile_id, simp, subst dropWhile_id, simp_all)

end
