(* ===== verification/Market.thy ===== *)
theory Market
  imports Text_Forms "HOL-Library.Multiset"
begin

text \<open>
  The vocabulary of the auction-house market (\<open>crates/app-core/src/market/mod.rs\<close>) and the reduction
  of a pile of listings to one observation (\<open>market/stats.rs\<close>).

  Prices and quantities are \<open>u64\<close>: natural numbers here, with the wrap-around of the release build
  written out (\<open>wrap64\<close>) at every addition and multiplication the source leaves unchecked, and no
  wrap where it widens to \<open>u128\<close>. The specification side is \<open>weigh\<close>, a sum over the listings in any
  order, from which the number of units up to a price and the quantiles of the supply are defined.
\<close>

section \<open>Regions and money\<close>

datatype region = Eu | Us | Kr | Tw

definition all_regions :: "region list" where
  "all_regions = [Eu, Us, Kr, Tw]"

fun region_str :: "region \<Rightarrow> string" where
  "region_str Eu = ''eu''"
| "region_str Us = ''us''"
| "region_str Kr = ''kr''"
| "region_str Tw = ''tw''"

fun api_host :: "region \<Rightarrow> string" where
  "api_host Eu = ''https://eu.api.blizzard.com''"
| "api_host Us = ''https://us.api.blizzard.com''"
| "api_host Kr = ''https://kr.api.blizzard.com''"
| "api_host Tw = ''https://tw.api.blizzard.com''"

definition region_namespace :: "region \<Rightarrow> string" where
  "region_namespace r = ''dynamic-'' @ region_str r"

definition static_namespace :: "region \<Rightarrow> string" where
  "static_namespace r = ''static-'' @ region_str r"

definition region_parse :: "string \<Rightarrow> region option" where
  "region_parse s = find (\<lambda>r. eq_ignore_ascii_case (region_str r) s) all_regions"

type_synonym copper = nat
type_synonym itemid = nat

definition gold_part :: "copper \<Rightarrow> nat" where
  "gold_part c = c div 10000"

definition silver_part :: "copper \<Rightarrow> nat" where
  "silver_part c = (c mod 10000) div 100"

definition copper_part :: "copper \<Rightarrow> nat" where
  "copper_part c = c mod 100"

definition show_copper :: "copper \<Rightarrow> string" where
  "show_copper c =
     (if 10000 \<le> c then show_nat (gold_part c) @ ''g '' @ pad 2 (show_nat (silver_part c)) @ ''s''
      else if 100 \<le> c then show_nat (silver_part c) @ ''s '' @ pad 2 (show_nat (copper_part c)) @ ''c''
      else show_nat (copper_part c) @ ''c'')"

section \<open>Listings and samples\<close>

record listing =
  l_item :: itemid
  l_unit_price :: copper
  l_quantity :: nat

record price_sample =
  sm_item :: itemid
  sm_region :: region
  sm_observed_at :: millis
  sm_min :: copper
  sm_p05 :: copper
  sm_median :: copper
  sm_quantity :: nat
  sm_listings :: nat

section \<open>Unchecked 64-bit arithmetic\<close>

definition wrap64 :: "nat \<Rightarrow> nat" where
  "wrap64 n = n mod 18446744073709551616"

definition div_ceil :: "nat \<Rightarrow> nat \<Rightarrow> nat" where
  "div_ceil a b = a div b + (if a mod b = 0 then 0 else 1)"

lemma wrap64_small [simp]: "n \<le> u64_max \<Longrightarrow> wrap64 n = n"
  by (simp add: wrap64_def)

lemma div_ceil_le: "a \<le> b * c \<Longrightarrow> 0 < b \<Longrightarrow> div_ceil a b \<le> c"
proof -
  assume ab: "a \<le> b * c" and b: "0 < b"
  show "div_ceil a b \<le> c"
  proof (cases "a mod b = 0")
    case True
    then show ?thesis using ab b by (auto simp: div_ceil_def less_eq_div_iff_mult_less_eq div_le_mono2
        intro: order_trans [OF div_le_mono [OF ab]])
  next
    case False
    then have "b * (a div b) < a"
      using mult_div_mod_eq [of b a] by linarith
    then have "b * (a div b) < b * c" using ab by linarith
    then show ?thesis using False b by (simp add: div_ceil_def)
  qed
qed

lemma div_ceil_mono: "a \<le> b \<Longrightarrow> div_ceil a c \<le> div_ceil b c"
proof (cases "a div c = b div c")
  case True
  moreover assume "a \<le> b"
  ultimately have "a mod c \<le> b mod c"
    using mult_div_mod_eq [of c a] mult_div_mod_eq [of c b] by (metis add_le_cancel_left)
  with True show ?thesis by (auto simp: div_ceil_def)
next
  case False
  assume "a \<le> b"
  then have "a div c < b div c" using False div_le_mono [of a b c] by simp
  then show ?thesis by (auto simp: div_ceil_def)
qed

section \<open>Summarising listings\<close>

record price_stats =
  ps_min :: copper
  ps_p05 :: copper
  ps_median :: copper
  ps_quantity :: nat
  ps_listings :: nat

text \<open>The loop of \<open>quantile_price\<close>, and the price of the last listing when it falls through.\<close>

fun quantile_loop :: "nat \<Rightarrow> nat \<Rightarrow> listing list \<Rightarrow> copper option" where
  "quantile_loop target seen [] = None"
| "quantile_loop target seen (l # ls) =
     (let seen' = wrap64 (seen + l_quantity l) in
      if target \<le> seen' then Some (l_unit_price l) else quantile_loop target seen' ls)"

definition quantile_price :: "listing list \<Rightarrow> nat \<Rightarrow> nat \<Rightarrow> copper" where
  "quantile_price ls tot percent =
     (let target = max 1 (div_ceil (wrap64 (tot * percent)) 100) in
      case quantile_loop target 0 ls of
        Some p \<Rightarrow> p
      | None \<Rightarrow> if ls = [] then 0 else l_unit_price (last ls))"

definition sum_quantity :: "listing list \<Rightarrow> nat" where
  "sum_quantity ls = foldl (\<lambda>acc l. wrap64 (acc + l_quantity l)) 0 ls"

text \<open>
  \<open>sort_unstable_by_key\<close> may order listings of one price in any way; \<open>summarise_order\<close> below shows that
  the result does not depend on it.
\<close>

definition summarise :: "listing list \<Rightarrow> price_stats option" where
  "summarise listings =
     (if listings = [] then None
      else let ls = sort_key l_unit_price listings; tot = sum_quantity ls in
        if tot = 0 then None
        else Some \<lparr> ps_min = l_unit_price (hd ls),
                    ps_p05 = quantile_price ls tot 5,
                    ps_median = quantile_price ls tot 50,
                    ps_quantity = tot,
                    ps_listings = length ls mod 4294967296 \<rparr>)"

definition into_sample :: "price_stats \<Rightarrow> itemid \<Rightarrow> region \<Rightarrow> millis \<Rightarrow> price_sample" where
  "into_sample st item region observed_at =
     \<lparr> sm_item = item, sm_region = region, sm_observed_at = observed_at, sm_min = ps_min st,
       sm_p05 = ps_p05 st, sm_median = ps_median st, sm_quantity = ps_quantity st,
       sm_listings = ps_listings st \<rparr>"

section \<open>Supply, in any order\<close>

text \<open>
  The listings as a measure on prices: \<open>weigh g\<close> adds up \<open>g\<close> of the price over all units. Units up to a
  price, all units, and what a purchase saves against a uniform price are instances.
\<close>

definition weigh :: "(copper \<Rightarrow> nat) \<Rightarrow> listing list \<Rightarrow> nat" where
  "weigh g ls = (\<Sum>l\<leftarrow>ls. l_quantity l * g (l_unit_price l))"

definition units :: "listing list \<Rightarrow> nat" where
  "units ls = (\<Sum>l\<leftarrow>ls. l_quantity l)"

definition units_upto :: "listing list \<Rightarrow> copper \<Rightarrow> nat" where
  "units_upto ls p = (\<Sum>l\<leftarrow>ls. if l_unit_price l \<le> p then l_quantity l else 0)"

lemma weigh_simps [simp]:
  "weigh g [] = 0" "weigh g (l # ls) = l_quantity l * g (l_unit_price l) + weigh g ls"
  "weigh g (ls @ ks) = weigh g ls + weigh g ks"
  by (simp_all add: weigh_def)

lemma units_simps [simp]:
  "units [] = 0" "units (l # ls) = l_quantity l + units ls" "units (ls @ ks) = units ls + units ks"
  by (simp_all add: units_def)

lemma units_upto_simps [simp]:
  "units_upto [] p = 0"
  "units_upto (l # ls) p = (if l_unit_price l \<le> p then l_quantity l else 0) + units_upto ls p"
  "units_upto (ls @ ks) p = units_upto ls p + units_upto ks p"
  by (simp_all add: units_upto_def)

lemma units_weigh: "units ls = weigh (\<lambda>_. 1) ls"
  by (simp add: units_def weigh_def)

lemma units_upto_weigh: "units_upto ls p = weigh (\<lambda>q. if q \<le> p then 1 else 0) ls"
  unfolding units_upto_def weigh_def by (rule arg_cong [where f = sum_list]) auto

lemma weigh_mset: "mset ls = mset ks \<Longrightarrow> weigh g ls = weigh g ks"
proof -
  assume m: "mset ls = mset ks"
  have "weigh g xs = sum_mset (image_mset (\<lambda>l. l_quantity l * g (l_unit_price l)) (mset xs))" for xs
    by (induction xs) auto
  with m show ?thesis by simp
qed

lemma units_mset: "mset ls = mset ks \<Longrightarrow> units ls = units ks"
  by (simp add: units_weigh weigh_mset [of ls ks])

lemma units_upto_mset: "mset ls = mset ks \<Longrightarrow> units_upto ls p = units_upto ks p"
  by (simp add: units_upto_weigh weigh_mset [of ls ks])

lemma units_upto_le: "units_upto ls p \<le> units ls"
  by (induction ls) auto

lemma units_upto_mono: "p \<le> q \<Longrightarrow> units_upto ls p \<le> units_upto ls q"
  by (induction ls) auto

lemma units_upto_all: "(\<And>l. l \<in> set ls \<Longrightarrow> l_unit_price l \<le> p) \<Longrightarrow> units_upto ls p = units ls"
  by (induction ls) auto

lemma units_upto_none: "(\<And>l. l \<in> set ls \<Longrightarrow> p < l_unit_price l) \<Longrightarrow> units_upto ls p = 0"
proof (induction ls)
  case (Cons l ls)
  have "p < l_unit_price l" "\<And>k. k \<in> set ls \<Longrightarrow> p < l_unit_price k" using Cons.prems by auto
  then show ?case using Cons.IH by simp
qed simp

text \<open>The price by which \<open>t\<close> units are on offer, and not before.\<close>

definition is_quantile :: "listing list \<Rightarrow> nat \<Rightarrow> copper \<Rightarrow> bool" where
  "is_quantile ls t p \<longleftrightarrow> t \<le> units_upto ls p \<and> (\<forall>q<p. units_upto ls q < t)"

lemma is_quantile_unique: "is_quantile ls t p \<Longrightarrow> is_quantile ls t q \<Longrightarrow> p = q"
  unfolding is_quantile_def by (metis leD linorder_neqE_nat)

lemma is_quantile_mono: "is_quantile ls s p \<Longrightarrow> is_quantile ls t q \<Longrightarrow> s \<le> t \<Longrightarrow> p \<le> q"
  unfolding is_quantile_def by (metis leD leI order.strict_trans2)

lemma is_quantile_mset: "mset ls = mset ks \<Longrightarrow> is_quantile ls t p \<longleftrightarrow> is_quantile ks t p"
  by (simp add: is_quantile_def units_upto_mset [of ls ks])

section \<open>The summary is the supply's\<close>

lemma sum_quantity_exact: "units ls \<le> u64_max \<Longrightarrow> sum_quantity ls = units ls"
proof -
  have "foldl (\<lambda>acc l. wrap64 (acc + l_quantity l)) a ls = a + units ls" if "a + units ls \<le> u64_max" for a
    using that by (induction ls arbitrary: a) auto
  then show "units ls \<le> u64_max \<Longrightarrow> sum_quantity ls = units ls" by (simp add: sum_quantity_def)
qed

lemma quantile_loop_correct:
  assumes "sorted (map l_unit_price (pre @ ls))" "units (pre @ ls) \<le> u64_max"
    and "units pre < t" "t \<le> units (pre @ ls)"
  shows "\<exists>p. quantile_loop t (units pre) ls = Some p \<and> is_quantile (pre @ ls) t p"
  using assms
proof (induction ls arbitrary: pre)
  case (Cons l ls)
  have step: "wrap64 (units pre + l_quantity l) = units (pre @ [l])"
    using Cons.prems(2) by simp
  show ?case
  proof (cases "t \<le> units (pre @ [l])")
    case True
    have below: "units_upto (pre @ l # ls) q \<le> units pre" if "q < l_unit_price l" for q
      using Cons.prems(1) that units_upto_none [of "l # ls" q] units_upto_le [of pre q]
      by (fastforce simp: sorted_append)
    have "units_upto pre (l_unit_price l) = units pre"
      using Cons.prems(1) by (intro units_upto_all) (auto simp: sorted_append)
    then have "is_quantile (pre @ l # ls) t (l_unit_price l)"
      using True below Cons.prems(3) by (force simp: is_quantile_def)
    then show ?thesis using True step by simp
  next
    case False
    then show ?thesis
      using Cons.IH [of "pre @ [l]"] Cons.prems step by simp
  qed
qed simp

text \<open>How many units \<open>percent\<close> of the supply is: rounded up, and at least one.\<close>

definition share_of :: "nat \<Rightarrow> nat \<Rightarrow> nat" where
  "share_of tot percent = max 1 (div_ceil (tot * percent) 100)"

lemma share_of_le: "0 < tot \<Longrightarrow> percent \<le> 100 \<Longrightarrow> share_of tot percent \<le> tot"
  by (simp add: share_of_def div_ceil_le)

lemma share_of_mono: "p \<le> q \<Longrightarrow> share_of tot p \<le> share_of tot q"
  unfolding share_of_def by (meson div_ceil_mono max.mono mult_le_mono2 order_refl)

lemma quantile_price_correct:
  assumes "sorted (map l_unit_price ls)" "0 < units ls" "percent \<le> 100"
    and "units ls \<le> u64_max" "units ls * percent \<le> u64_max"
  shows "is_quantile ls (share_of (units ls) percent) (quantile_price ls (units ls) percent)"
proof -
  have "1 \<le> share_of (units ls) percent" by (simp add: share_of_def)
  then obtain p where "quantile_loop (share_of (units ls) percent) 0 ls = Some p"
    "is_quantile ls (share_of (units ls) percent) p"
    using quantile_loop_correct [of "[]" ls "share_of (units ls) percent"] share_of_le [of "units ls" percent]
      assms by auto
  then show ?thesis
    using assms(5) by (simp add: quantile_price_def share_of_def)
qed

lemma summarise_None_iff: "units ls \<le> u64_max \<Longrightarrow> summarise ls = None \<longleftrightarrow> units ls = 0"
  using units_mset [of "sort_key l_unit_price ls" ls]
  by (auto simp: summarise_def Let_def sum_quantity_exact)

lemma hd_sort_key_Min: "ls \<noteq> [] \<Longrightarrow> f (hd (sort_key f ls)) = Min (f ` set ls)" for f :: "'a \<Rightarrow> nat"
proof -
  assume ne: "ls \<noteq> []"
  have "sorted (map f (sort_key f ls))" by simp
  moreover have ne': "sort_key f ls \<noteq> []" using ne by (metis length_0_conv length_sort)
  ultimately have "f (hd (sort_key f ls)) \<le> f x" if "x \<in> set ls" for x
    using that by (cases "sort_key f ls") (auto, metis set_ConsD set_sort order_refl)
  moreover have "hd (sort_key f ls) \<in> set ls" using hd_in_set [OF ne'] by simp
  ultimately show ?thesis by (intro Min_eqI [symmetric]) auto
qed

lemma summary_correct:
  assumes "0 < units ls" "50 * units ls \<le> u64_max" "length ls \<le> u32_max" "mset ls' = mset ls"
  shows "\<exists>st. summarise ls' = Some st
    \<and> is_quantile ls (share_of (units ls) 5) (ps_p05 st)
    \<and> is_quantile ls (share_of (units ls) 50) (ps_median st)
    \<and> ps_min st = Min (l_unit_price ` set ls)
    \<and> ps_min st \<le> ps_p05 st \<and> ps_p05 st \<le> ps_median st
    \<and> ps_quantity st = units ls \<and> ps_listings st = length ls"
proof -
  let ?s = "sort_key l_unit_price ls'"
  have ms: "mset ?s = mset ls" using assms(4) by simp
  have u: "units ?s = units ls" "units ?s \<le> u64_max" "0 < units ?s"
    using units_mset [OF ms] assms(1,2) by simp_all
  have ne: "ls' \<noteq> []" "set ls' = set ls" "length ls' = length ls"
    using u(3) mset_eq_setD [OF assms(4)] mset_eq_length [OF assms(4)] by auto
  let ?p = "quantile_price ?s (units ls) 5" and ?m = "quantile_price ?s (units ls) 50"
  have q: "is_quantile ls (share_of (units ls) 5) ?p" "is_quantile ls (share_of (units ls) 50) ?m"
    using quantile_price_correct [of ?s 5] quantile_price_correct [of ?s 50] u assms(2)
    by (simp_all add: is_quantile_mset [OF ms])
  have mn: "l_unit_price (hd ?s) = Min (l_unit_price ` set ls)"
    using hd_sort_key_Min [of ls' l_unit_price] ne by simp
  have "0 < units_upto ls ?p" using q(1) by (auto simp: is_quantile_def share_of_def)
  then obtain l where "l \<in> set ls" "l_unit_price l \<le> ?p"
    using units_upto_none [of ls ?p] by (metis leI less_irrefl)
  then have "Min (l_unit_price ` set ls) \<le> ?p" by (meson Min_le finite_imageI finite_set image_eqI order_trans)
  then show ?thesis
    using q mn ne u assms(3) is_quantile_mono [OF q share_of_mono]
    by (simp add: summarise_def Let_def sum_quantity_exact)
qed

text \<open>
  The summary of a market's listings is a function of its supply: \<open>p05\<close> and \<open>median\<close> are the prices
  by which a twentieth and half of the units are on offer (and not before), \<open>min\<close> is the cheapest
  listing, they are ordered, and nothing depends on the order in which the listings arrived.
\<close>

lemma summarise_quantiles:
  assumes "0 < units ls" "50 * units ls \<le> u64_max" "length ls \<le> u32_max" "mset ls' = mset ls"
  shows "\<exists>st. summarise ls' = Some st
    \<and> is_quantile ls (share_of (units ls) 5) (ps_p05 st)
    \<and> is_quantile ls (share_of (units ls) 50) (ps_median st)
    \<and> ps_min st = Min (l_unit_price ` set ls)
    \<and> ps_min st \<le> ps_p05 st \<and> ps_p05 st \<le> ps_median st
    \<and> ps_quantity st = units ls \<and> ps_listings st = length ls"
  using assms by (rule summary_correct)

text \<open>Five listings in two orders: 95 units, of which the fifth is at 300 and the middle one at 310.\<close>

definition demo_listings :: "listing list" where
  "demo_listings =
     [\<lparr> l_item = 7, l_unit_price = 310, l_quantity = 60 \<rparr>, \<lparr> l_item = 7, l_unit_price = 1, l_quantity = 1 \<rparr>,
      \<lparr> l_item = 7, l_unit_price = 300, l_quantity = 20 \<rparr>, \<lparr> l_item = 7, l_unit_price = 900, l_quantity = 4 \<rparr>,
      \<lparr> l_item = 7, l_unit_price = 320, l_quantity = 10 \<rparr>]"

lemma summarise_quantiles_example:
  "0 < units demo_listings \<and> 50 * units demo_listings \<le> u64_max \<and> length demo_listings \<le> u32_max
   \<and> summarise (rev demo_listings) =
       Some \<lparr> ps_min = 1, ps_p05 = 300, ps_median = 310, ps_quantity = 95, ps_listings = 5 \<rparr>
   \<and> is_quantile demo_listings (share_of (units demo_listings) 5) 300"
proof -
  have h: "0 < units demo_listings" "50 * units demo_listings \<le> u64_max" "length demo_listings \<le> u32_max"
    "mset (rev demo_listings) = mset demo_listings"
    by (simp_all add: demo_listings_def)
  have e: "summarise (rev demo_listings) =
      Some \<lparr> ps_min = 1, ps_p05 = 300, ps_median = 310, ps_quantity = 95, ps_listings = 5 \<rparr>"
    by (simp add: demo_listings_def summarise_def sum_quantity_def quantile_price_def div_ceil_def wrap64_def
        sort_key_def)
  obtain st where st: "summarise (rev demo_listings) = Some st"
    "is_quantile demo_listings (share_of (units demo_listings) 5) (ps_p05 st)"
    using summarise_quantiles [OF h] by blast
  then have "ps_p05 st = 300" using e by auto
  then show ?thesis using h e st(2) by simp
qed

end
