(* ===== verification/Depth.thy ===== *)
theory Depth
  imports Market "HOL-Library.Signed_Division"
begin

text \<open>
  Supply ladders (\<open>crates/app-core/src/market/depth.rs\<close>): listings grouped by price, what it costs to
  sweep them, the archive curve, and the stored text of ladders and depth panels.

  The source keeps the running sum on every rung and answers every question by a search over it. The
  lemmas relate each answer to the listings the ladder was built from, through \<open>weigh\<close>.
\<close>

section \<open>Data\<close>

record step =
  s_price :: copper
  s_quantity :: nat
  s_cumulative :: nat

record ladder =
  steps :: "step list"

definition CURVE_BANDS :: "nat list" where
  "CURVE_BANDS = [0, 1, 2, 5, 10, 20, 35, 50, 100, 200, 500, 1000]"

definition SPARSE_STEPS :: nat where
  "SPARSE_STEPS = 5"

definition WALL_SHARE :: nat where
  "WALL_SHARE = 20"

record curve =
  cv_cheapest :: copper
  cv_cumulative :: "nat list"
  cv_total :: nat
  cv_levels :: nat

record fill =
  f_wanted :: nat
  f_filled :: nat
  f_complete :: bool
  f_total_cost :: copper
  f_average_unit :: copper
  f_clearing_price :: copper
  f_impact_percent :: nat

record wall =
  w_price :: copper
  w_quantity :: nat
  w_share_percent :: nat

section \<open>Building a ladder\<close>

text \<open>\<open>*by_price.entry(p).or_default() += q\<close>.\<close>

definition at_price :: "(copper, nat) btree \<Rightarrow> copper \<Rightarrow> nat" where
  "at_price m p = (case bt_get m p of None \<Rightarrow> 0 | Some v \<Rightarrow> v)"

definition pool :: "copper \<Rightarrow> nat \<Rightarrow> (copper, nat) btree \<Rightarrow> (copper, nat) btree" where
  "pool p q m = bt_insert p (wrap64 (at_price m p + q)) m"

text \<open>The closure that turns the map's entries into rungs, carrying the running sum.\<close>

fun rungs :: "nat \<Rightarrow> (copper, nat) btree \<Rightarrow> step list" where
  "rungs cum [] = []"
| "rungs cum ((p, q) # m) =
     (let cum' = wrap64 (cum + q) in
      \<lparr> s_price = p, s_quantity = q, s_cumulative = cum' \<rparr> # rungs cum' m)"

definition ladder_of :: "listing list \<Rightarrow> ladder" where
  "ladder_of listings =
     \<lparr> steps = rungs 0 (fold (\<lambda>l m. if l_quantity l = 0 then m else pool (l_unit_price l) (l_quantity l) m)
                          listings []) \<rparr>"

definition merged :: "ladder list \<Rightarrow> ladder" where
  "merged ladders =
     \<lparr> steps = rungs 0 (fold (\<lambda>L m. fold (\<lambda>s m. pool (s_price s) (s_quantity s) m) (steps L) m)
                          ladders []) \<rparr>"

section \<open>Reading a ladder\<close>

definition ladder_is_empty :: "ladder \<Rightarrow> bool" where
  "ladder_is_empty L \<longleftrightarrow> steps L = []"

definition levels :: "ladder \<Rightarrow> nat" where
  "levels L = length (steps L)"

definition total_units :: "ladder \<Rightarrow> nat" where
  "total_units L = (if steps L = [] then 0 else s_cumulative (last (steps L)))"

definition cheapest :: "ladder \<Rightarrow> copper option" where
  "cheapest L = (case steps L of [] \<Rightarrow> None | s # _ \<Rightarrow> Some (s_price s))"

definition dearest :: "ladder \<Rightarrow> copper option" where
  "dearest L = (if steps L = [] then None else Some (s_price (last (steps L))))"

definition is_sparse :: "ladder \<Rightarrow> bool" where
  "is_sparse L \<longleftrightarrow> length (steps L) < SPARSE_STEPS"

text \<open>\<open>partition_point\<close> on a slice that is partitioned by the predicate.\<close>

definition partition_point :: "('a \<Rightarrow> bool) \<Rightarrow> 'a list \<Rightarrow> nat" where
  "partition_point P xs = length (takeWhile P xs)"

definition quantity_upto :: "ladder \<Rightarrow> copper \<Rightarrow> nat" where
  "quantity_upto L p =
     (let i = partition_point (\<lambda>s. s_price s \<le> p) (steps L) in
      if i = 0 then 0 else s_cumulative (steps L ! (i - 1)))"

text \<open>A price \<open>percent\<close> above another, computed in 128 bits and clamped.\<close>

definition percent_above :: "copper \<Rightarrow> nat \<Rightarrow> copper" where
  "percent_above base percent = min u64_max (base * (100 + percent) div 100)"

definition quantity_within :: "ladder \<Rightarrow> nat \<Rightarrow> nat option" where
  "quantity_within L percent = map_option (\<lambda>c. quantity_upto L (percent_above c percent)) (cheapest L)"

definition supply_percentile :: "ladder \<Rightarrow> nat \<Rightarrow> copper option" where
  "supply_percentile L percent =
     (if is_sparse L then None
      else let tot = total_units L in
        if tot = 0 then None
        else let target = max 1 (div_ceil (wrap64 (tot * percent)) 100) in
          case find (\<lambda>s. target \<le> s_cumulative s) (steps L) of
            Some s \<Rightarrow> Some (s_price s)
          | None \<Rightarrow> dearest L)"

text \<open>The sweep: \<open>(filled, cost, clearing)\<close> over the rungs. The cost is summed in 128 bits.\<close>

fun fill_loop :: "nat \<Rightarrow> step list \<Rightarrow> nat \<Rightarrow> nat \<Rightarrow> copper \<Rightarrow> nat \<times> nat \<times> copper" where
  "fill_loop wanted [] filled cost clearing = (filled, cost, clearing)"
| "fill_loop wanted (s # ss) filled cost clearing =
     (if wanted \<le> filled then (filled, cost, clearing)
      else let took = min (s_quantity s) (wanted - filled) in
        fill_loop wanted ss (filled + took) (cost + took * s_price s) (s_price s))"

text \<open>
  The impact is computed in signed 128-bit arithmetic, whose division truncates towards zero, and cut
  to 32 bits by \<open>as u32\<close>.
\<close>

definition impact :: "copper \<Rightarrow> copper \<Rightarrow> nat" where
  "impact base average = nat (((int average - int base) * 100 sdiv int base) mod 4294967296)"

definition fill_ladder :: "ladder \<Rightarrow> nat \<Rightarrow> fill" where
  "fill_ladder L wanted =
     (let base = (case cheapest L of None \<Rightarrow> 0 | Some c \<Rightarrow> c);
          (filled, cost, clearing) = fill_loop wanted (steps L) 0 0 base;
          average = (if filled = 0 then 0 else wrap64 (cost div filled)) in
      \<lparr> f_wanted = wanted, f_filled = filled, f_complete = (filled = wanted),
        f_total_cost = min u64_max cost, f_average_unit = average, f_clearing_price = clearing,
        f_impact_percent = (if base = 0 \<or> filled = 0 then 0 else impact base average) \<rparr>)"

definition walls :: "ladder \<Rightarrow> wall list" where
  "walls L =
     (if is_sparse L then []
      else let tot = total_units L in
        if tot = 0 then []
        else List.map_filter (\<lambda>s.
          let share = s_quantity s * 100 div tot mod 4294967296 in
          if WALL_SHARE \<le> share
          then Some \<lparr> w_price = s_price s, w_quantity = s_quantity s, w_share_percent = share \<rparr>
          else None) (steps L))"

section \<open>Ladders and listings\<close>

text \<open>
  What a ladder in memory satisfies: prices strictly ascend, no rung is empty, and \<open>cumulative\<close> is the
  running sum.
\<close>

definition ladder_ok :: "ladder \<Rightarrow> bool" where
  "ladder_ok L \<longleftrightarrow>
     sorted_wrt (<) (map s_price (steps L)) \<and> (\<forall>s\<in>set (steps L). 0 < s_quantity s) \<and>
     (\<forall>i<length (steps L). s_cumulative (steps L ! i) = (\<Sum>s\<leftarrow>take (Suc i) (steps L). s_quantity s))"

text \<open>The supply a ladder, or the map it is built from, describes.\<close>

definition step_weigh :: "(copper \<Rightarrow> nat) \<Rightarrow> step list \<Rightarrow> nat" where
  "step_weigh g ss = (\<Sum>s\<leftarrow>ss. s_quantity s * g (s_price s))"

definition pool_weigh :: "(copper \<Rightarrow> nat) \<Rightarrow> (copper, nat) btree \<Rightarrow> nat" where
  "pool_weigh g m = (\<Sum>(p, q)\<leftarrow>m. q * g p)"

lemma step_weigh_simps [simp]:
  "step_weigh g [] = 0" "step_weigh g (s # ss) = s_quantity s * g (s_price s) + step_weigh g ss"
  "step_weigh g (ss @ ts) = step_weigh g ss + step_weigh g ts"
  by (simp_all add: step_weigh_def)

lemma pool_weigh_simps [simp]:
  "pool_weigh g [] = 0" "pool_weigh g ((p, q) # m) = q * g p + pool_weigh g m"
  by (simp_all add: pool_weigh_def)

lemma step_weigh_ge: "s \<in> set ss \<Longrightarrow> s_quantity s * g (s_price s) \<le> step_weigh g ss"
  by (induction ss) auto

abbreviation pool_units :: "(copper, nat) btree \<Rightarrow> nat" where
  "pool_units \<equiv> pool_weigh (\<lambda>_. 1)"

lemma pool_weigh_insert:
  "bt_wf m \<Longrightarrow> pool_weigh g (bt_insert p q m) + at_price m p * g p = pool_weigh g m + q * g p"
proof (induction p q m rule: bt_insert.induct)
  case (2 k v a b m)
  have wf: "bt_wf m" using "2.prems" by (simp add: bt_wf_def)
  have "k < a \<Longrightarrow> bt_get m k = None" using "2.prems" by (rule bt_get_below)
  then show ?case using 2 wf by (auto simp: at_price_def bt_get_Cons split: option.splits)
qed (simp add: at_price_def)

lemma at_price_le: "at_price m p \<le> pool_units m"
  by (induction m) (auto simp: at_price_def bt_get_Cons split: option.splits if_splits)

lemma pool_weigh_pool:
  assumes "bt_wf m" "pool_units m + q \<le> u64_max"
  shows "pool_weigh g (pool p q m) = pool_weigh g m + q * g p"
proof -
  have "pool p q m = bt_insert p (at_price m p + q) m"
    using at_price_le [of m p] assms(2) by (simp add: pool_def)
  then show ?thesis
    using pool_weigh_insert [OF assms(1), of g p "at_price m p + q"] by (simp add: add_mult_distrib)
qed

definition pool_ok :: "(copper, nat) btree \<Rightarrow> bool" where
  "pool_ok m \<longleftrightarrow> bt_wf m \<and> (\<forall>(p, q)\<in>set m. 0 < q)"

lemma set_bt_insert: "set (bt_insert k v m) \<subseteq> insert (k, v) (set m)"
  by (induction k v m rule: bt_insert.induct) auto

lemma pool_ok_pool:
  assumes "pool_ok m" "pool_units m + q \<le> u64_max" "0 < q"
  shows "pool_ok (pool p q m)"
proof -
  have "wrap64 (at_price m p + q) = at_price m p + q"
    using at_price_le [of m p] assms(2) by simp
  then show ?thesis
    using assms set_bt_insert [of p "at_price m p + q" m] by (auto simp: pool_ok_def pool_def)
qed

text \<open>Pooling a list of (price, quantity) pairs, the shape both constructors share.\<close>

lemma pool_all:
  assumes "pool_ok m" "pool_units m + (\<Sum>(p, q)\<leftarrow>xs. q) \<le> u64_max" "\<And>p q. (p, q) \<in> set xs \<Longrightarrow> 0 < q"
  shows "pool_ok (fold (\<lambda>(p, q). pool p q) xs m)
    \<and> pool_weigh g (fold (\<lambda>(p, q). pool p q) xs m) = pool_weigh g m + (\<Sum>(p, q)\<leftarrow>xs. q * g p)"
  using assms
proof (induction xs arbitrary: m)
  case (Cons x xs)
  obtain p q where x: "x = (p, q)" by (cases x)
  have wf: "bt_wf m" using Cons.prems(1) by (simp add: pool_ok_def)
  have "pool_ok (pool p q m)" "pool_units (pool p q m) = pool_units m + q"
    "pool_weigh g (pool p q m) = pool_weigh g m + q * g p"
    using Cons.prems x pool_ok_pool [of m q p] pool_weigh_pool [OF wf, of q _ p] by auto
  moreover have "\<And>p q. (p, q) \<in> set xs \<Longrightarrow> 0 < q" using Cons.prems(3) by (meson list.set_intros(2))
  ultimately show ?case using Cons.IH [of "pool p q m"] Cons.prems(2) x by simp
qed simp

lemma pool_from_empty:
  assumes "(\<Sum>(p, q)\<leftarrow>xs. q) \<le> u64_max" "\<And>p q. (p, q) \<in> set xs \<Longrightarrow> 0 < q"
  shows "pool_ok (fold (\<lambda>(p, q). pool p q) xs [])"
    and "pool_weigh g (fold (\<lambda>(p, q). pool p q) xs []) = (\<Sum>(p, q)\<leftarrow>xs. q * g p)"
proof -
  have "pool_ok []" "pool_units [] + (\<Sum>(p, q)\<leftarrow>xs. q) \<le> u64_max" using assms(1) by (simp_all add: pool_ok_def)
  note pool_all [OF this assms(2), where g = g]
  then show "pool_ok (fold (\<lambda>(p, q). pool p q) xs [])"
    "pool_weigh g (fold (\<lambda>(p, q). pool p q) xs []) = (\<Sum>(p, q)\<leftarrow>xs. q * g p)"
    by simp_all
qed

lemma rungs_cum:
  "cum + pool_units m \<le> u64_max \<Longrightarrow> i < length (rungs cum m) \<Longrightarrow>
     s_cumulative (rungs cum m ! i) = cum + (\<Sum>s\<leftarrow>take (Suc i) (rungs cum m). s_quantity s)"
  by (induction cum m arbitrary: i rule: rungs.induct) (auto simp: nth_Cons Let_def split: nat.split)

lemma rungs_shape:
  "map (\<lambda>s. (s_price s, s_quantity s)) (rungs cum m) = m"
  by (induction cum m rule: rungs.induct) (auto simp: Let_def)

lemma rungs_prices: "map s_price (rungs cum m) = map fst m"
  using arg_cong [OF rungs_shape [of cum m], of "map fst"] by (simp add: comp_def)

lemma rungs_weigh: "step_weigh g (rungs cum m) = pool_weigh g m"
  by (induction cum m rule: rungs.induct) (auto simp: Let_def)

lemma rungs_ok:
  assumes "pool_ok m" "pool_units m \<le> u64_max"
  shows "ladder_ok \<lparr> steps = rungs 0 m \<rparr>"
proof -
  have "0 < s_quantity s" if "s \<in> set (rungs 0 m)" for s
  proof -
    have "(s_price s, s_quantity s) \<in> set m"
      using that rungs_shape [of 0 m] by (metis (no_types, lifting) imageI image_set)
    then show ?thesis using assms(1) by (auto simp: pool_ok_def)
  qed
  then show ?thesis
    using assms rungs_cum [of 0 m] rungs_prices [of 0 m] by (auto simp: ladder_ok_def pool_ok_def bt_wf_def)
qed


lemma ladder_of_pool:
  "ladder_of ls = \<lparr> steps = rungs 0 (fold (\<lambda>(p, q). pool p q)
     (map (\<lambda>l. (l_unit_price l, l_quantity l)) (filter (\<lambda>l. l_quantity l \<noteq> 0) ls)) []) \<rparr>"
proof -
  have "fold (\<lambda>l m. if l_quantity l = 0 then m else pool (l_unit_price l) (l_quantity l) m) ls m =
      fold (\<lambda>(p, q). pool p q)
        (map (\<lambda>l. (l_unit_price l, l_quantity l)) (filter (\<lambda>l. l_quantity l \<noteq> 0) ls)) m" for m
    by (induction ls arbitrary: m) auto
  then show ?thesis by (simp add: ladder_of_def)
qed

lemma merged_pool:
  "merged Ls = \<lparr> steps = rungs 0 (fold (\<lambda>(p, q). pool p q)
     (map (\<lambda>s. (s_price s, s_quantity s)) (concat (map steps Ls))) []) \<rparr>"
proof -
  have one: "fold (\<lambda>s m. pool (s_price s) (s_quantity s) m) ss m =
      fold (\<lambda>(p, q). pool p q) (map (\<lambda>s. (s_price s, s_quantity s)) ss) m" for ss m
    by (induction ss arbitrary: m) auto
  have "fold (\<lambda>L m. fold (\<lambda>s m. pool (s_price s) (s_quantity s) m) (steps L) m) Ls m =
      fold (\<lambda>(p, q). pool p q) (map (\<lambda>s. (s_price s, s_quantity s)) (concat (map steps Ls))) m" for m
    by (induction Ls arbitrary: m) (simp_all add: one)
  then show ?thesis by (simp add: merged_def)
qed

lemma sum_nonzero_listings:
  "(\<Sum>(p, q)\<leftarrow>map (\<lambda>l. (l_unit_price l, l_quantity l)) (filter (\<lambda>l. l_quantity l \<noteq> 0) ls). q * g p) = weigh g ls"
  by (induction ls) auto

lemma ladder_of_supply:
  assumes "units ls \<le> u64_max"
  shows "ladder_ok (ladder_of ls)" "step_weigh g (steps (ladder_of ls)) = weigh g ls"
proof -
  let ?ps = "map (\<lambda>l. (l_unit_price l, l_quantity l)) (filter (\<lambda>l. l_quantity l \<noteq> 0) ls)"
  let ?m = "fold (\<lambda>(p, q). pool p q) ?ps []"
  have "(\<Sum>(p, q)\<leftarrow>?ps. q) = units ls"
    using sum_nonzero_listings [of "\<lambda>_. 1" ls] by (simp add: units_weigh)
  then have sum: "(\<Sum>(p, q)\<leftarrow>?ps. q) \<le> u64_max" using assms by simp
  have pos: "0 < q" if "(p, q) \<in> set ?ps" for p q using that by auto
  have m: "pool_ok ?m" "pool_weigh h ?m = weigh h ls" for h
    using pool_from_empty(1) [OF sum pos] pool_from_empty(2) [OF sum pos, where g = h] sum_nonzero_listings [of h ls] by simp_all
  have "pool_units ?m \<le> u64_max" using m(2) [of "\<lambda>_. 1"] assms by (simp add: units_weigh)
  then show "ladder_ok (ladder_of ls)" "step_weigh g (steps (ladder_of ls)) = weigh g ls"
    using m rungs_ok [of ?m] by (simp_all add: ladder_of_pool rungs_weigh)
qed

abbreviation step_units :: "step list \<Rightarrow> nat" where
  "step_units \<equiv> step_weigh (\<lambda>_. 1)"

lemma merged_supply:
  assumes "\<And>L. L \<in> set Ls \<Longrightarrow> ladder_ok L" "(\<Sum>L\<leftarrow>Ls. step_units (steps L)) \<le> u64_max"
  shows "ladder_ok (merged Ls)" "step_weigh g (steps (merged Ls)) = (\<Sum>L\<leftarrow>Ls. step_weigh g (steps L))"
proof -
  let ?ps = "map (\<lambda>s. (s_price s, s_quantity s)) (concat (map steps Ls))"
  let ?m = "fold (\<lambda>(p, q). pool p q) ?ps []"
  have "(\<Sum>(p, q)\<leftarrow>map (\<lambda>s. (s_price s, s_quantity s)) ss. q * h p) = step_weigh h ss" for h ss
    by (induction ss) auto
  moreover have "step_weigh h (concat (map steps Ls)) = (\<Sum>L\<leftarrow>Ls. step_weigh h (steps L))" for h
    by (induction Ls) auto
  ultimately have w: "(\<Sum>(p, q)\<leftarrow>?ps. q * h p) = (\<Sum>L\<leftarrow>Ls. step_weigh h (steps L))" for h
    by simp
  have pos: "0 < q" if "(p, q) \<in> set ?ps" for p q
  proof -
    from that obtain s where "s \<in> set (concat (map steps Ls))" "q = s_quantity s"
      unfolding set_map by blast
    moreover from this obtain L where "L \<in> set Ls" "s \<in> set (steps L)" by auto
    ultimately have "L \<in> set Ls" "s \<in> set (steps L)" "q = s_quantity s" by simp_all
    then show ?thesis using assms(1) [of L] by (simp add: ladder_ok_def)
  qed
  have sum: "(\<Sum>(p, q)\<leftarrow>?ps. q) \<le> u64_max"
    using w [of "\<lambda>_. 1"] assms(2) by simp
  have m: "pool_ok ?m \<and> pool_weigh h ?m = (\<Sum>L\<leftarrow>Ls. step_weigh h (steps L))" for h
    using pool_from_empty(1) [OF sum pos] pool_from_empty(2) [OF sum pos, where g = h] w [of h] by simp
  have "pool_units ?m \<le> u64_max" using m [of "\<lambda>_. 1"] assms(2) by simp
  then show "ladder_ok (merged Ls)" "step_weigh g (steps (merged Ls)) = (\<Sum>L\<leftarrow>Ls. step_weigh g (steps L))"
    using m rungs_ok [of ?m] by (simp_all add: merged_pool rungs_weigh)
qed

text \<open>A well-formed ladder is determined by the supply it describes.\<close>

lemma step_weigh_at:
  assumes "sorted_wrt (<) (map s_price ss)" "s \<in> set ss"
  shows "step_weigh (\<lambda>p. if p = s_price s then 1 else 0) ss = s_quantity s"
proof -
  have none: "step_weigh (\<lambda>p. if p = a then 1 else 0) ts = 0" if "a \<notin> s_price ` set ts" for a ts
    using that by (induction ts) auto
  show ?thesis
    using assms
  proof (induction ss)
    case (Cons t ss)
    show ?case
    proof (cases "s = t")
      case True
      then have "s_price s \<notin> s_price ` set ss" using Cons.prems(1) by auto
      then show ?thesis using True none by simp
    next
      case False
      then have "s_price t < s_price s" "s \<in> set ss" using Cons.prems by auto
      then have "s_price t \<noteq> s_price s" "s \<in> set ss" by simp_all
      then show ?thesis using Cons by simp
    qed
  qed simp
qed

lemma step_weigh_pos: "0 < step_weigh (\<lambda>p. if p = a then 1 else 0) ss \<Longrightarrow> \<exists>s\<in>set ss. s_price s = a"
  by (induction ss) (auto split: if_splits)

lemma ladder_pairs:
  assumes "ladder_ok L"
  shows "(p, q) \<in> (\<lambda>s. (s_price s, s_quantity s)) ` set (steps L) \<longleftrightarrow>
    0 < q \<and> step_weigh (\<lambda>a. if a = p then 1 else 0) (steps L) = q"
proof
  assume "(p, q) \<in> (\<lambda>s. (s_price s, s_quantity s)) ` set (steps L)"
  then show "0 < q \<and> step_weigh (\<lambda>a. if a = p then 1 else 0) (steps L) = q"
    using assms step_weigh_at [of "steps L"] by (auto simp: ladder_ok_def)
next
  assume q: "0 < q \<and> step_weigh (\<lambda>a. if a = p then 1 else 0) (steps L) = q"
  then obtain s where "s \<in> set (steps L)" "s_price s = p" using step_weigh_pos by blast
  then show "(p, q) \<in> (\<lambda>s. (s_price s, s_quantity s)) ` set (steps L)"
    using q assms step_weigh_at [of "steps L" s] by (force simp: ladder_ok_def)
qed

lemma step_eqI: "s_price s = s_price t \<Longrightarrow> s_quantity s = s_quantity t \<Longrightarrow> s_cumulative s = s_cumulative t \<Longrightarrow> s = t"
  for s t :: step
  by simp

lemma rel_eqI: "(\<And>a b. (a, b) \<in> R \<longleftrightarrow> (a, b) \<in> S) \<Longrightarrow> R = S"
  by auto

lemma sorted_pairs_unique:
  fixes xs ys :: "(nat \<times> nat) list"
  assumes "sorted_wrt (<) (map fst xs)" "sorted_wrt (<) (map fst ys)" "set xs = set ys"
  shows "xs = ys"
  using assms
proof (induction xs arbitrary: ys)
  case (Cons x xs)
  then obtain y zs where y: "ys = y # zs" by (cases ys) auto
  have "x \<in> set (y # zs)" "y \<in> set (x # xs)" using Cons.prems(3) y by auto
  moreover have "\<forall>a\<in>set xs. fst x < fst a" "\<forall>a\<in>set zs. fst y < fst a" using Cons.prems(1,2) y by auto
  ultimately have xy: "x = y" by (metis less_asym set_ConsD)
  moreover have "x \<notin> set xs" "y \<notin> set zs" using Cons.prems(1,2) y by auto
  ultimately have "set xs = set zs" using Cons.prems(3) y by (metis insert_eq_iff list.simps(15))
  then show ?case using Cons y xy by simp
qed simp

lemma ladder_unique:
  assumes "ladder_ok L" "ladder_ok L'" "\<And>g. step_weigh g (steps L) = step_weigh g (steps L')"
  shows "L = L'"
proof -
  let ?f = "\<lambda>s. (s_price s, s_quantity s)"
  have "(p, q) \<in> ?f ` set (steps L) \<longleftrightarrow> (p, q) \<in> ?f ` set (steps L')" for p q
    unfolding ladder_pairs [OF assms(1)] ladder_pairs [OF assms(2)] assms(3) ..
  then have set: "set (map ?f (steps L)) = set (map ?f (steps L'))"
    unfolding set_map by (rule rel_eqI)
  have "sorted_wrt (<) (map fst (map ?f (steps M)))" if "ladder_ok M" for M
    using that by (simp add: ladder_ok_def comp_def)
  then have pairs: "map ?f (steps L) = map ?f (steps L')"
    using assms(1,2) set by (intro sorted_pairs_unique)
  have len: "length (steps L) = length (steps L')" using map_eq_imp_length_eq [OF pairs] .
  have q: "map s_quantity (steps L) = map s_quantity (steps L')"
    using arg_cong [OF pairs, of "map snd"] by (simp add: comp_def)
  have "steps L ! i = steps L' ! i" if "i < length (steps L)" for i
  proof (rule step_eqI)
    show "s_price (steps L ! i) = s_price (steps L' ! i)" "s_quantity (steps L ! i) = s_quantity (steps L' ! i)"
      using arg_cong [OF pairs, of "\<lambda>xs. xs ! i"] that len by simp_all
    show "s_cumulative (steps L ! i) = s_cumulative (steps L' ! i)"
      using assms(1,2) that len arg_cong [OF q, of "\<lambda>xs. sum_list (take (Suc i) xs)"]
      by (simp add: ladder_ok_def take_map)
  qed
  then have "steps L = steps L'" using len by (auto intro: nth_equalityI)
  then show ?thesis by simp
qed


section \<open>What the searches answer\<close>

lemma takeWhile_sorted: "sorted_wrt (<) (map f xs) \<Longrightarrow> takeWhile (\<lambda>x. f x \<le> p) xs = filter (\<lambda>x. f x \<le> p) xs"
  for f :: "'a \<Rightarrow> nat"
proof (induction xs)
  case (Cons x xs)
  have "\<not> f x \<le> p \<Longrightarrow> filter (\<lambda>x. f x \<le> p) xs = []" using Cons.prems by (fastforce simp: filter_empty_conv)
  then show ?case using Cons by auto
qed simp

lemma step_units_filter:
  "step_units (filter (\<lambda>s. s_price s \<le> p) ss) = step_weigh (\<lambda>q. if q \<le> p then 1 else 0) ss"
  by (induction ss) auto

lemma ladder_cumulative:
  "ladder_ok L \<Longrightarrow> i < length (steps L) \<Longrightarrow> s_cumulative (steps L ! i) = step_units (take (Suc i) (steps L))"
  by (simp add: ladder_ok_def step_weigh_def)

lemma quantity_upto_supply:
  assumes "ladder_ok L"
  shows "quantity_upto L p = step_weigh (\<lambda>q. if q \<le> p then 1 else 0) (steps L)"
proof -
  define k where "k = partition_point (\<lambda>s. s_price s \<le> p) (steps L)"
  have k: "k \<le> length (steps L)" "take k (steps L) = filter (\<lambda>s. s_price s \<le> p) (steps L)"
    using assms
    by (simp_all add: k_def partition_point_def length_takeWhile_le takeWhile_sorted [symmetric] ladder_ok_def
        takeWhile_eq_take [symmetric])
  have "quantity_upto L p = step_units (take k (steps L))"
    using ladder_cumulative [OF assms, of "k - 1"] k(1)
    by (cases "k = 0") (simp_all add: quantity_upto_def k_def [symmetric])
  then show ?thesis by (simp only: k(2) step_units_filter)
qed

lemma total_units_supply: "ladder_ok L \<Longrightarrow> total_units L = step_units (steps L)"
  using ladder_cumulative [of L "length (steps L) - 1"]
  by (cases "steps L = []") (auto simp: total_units_def last_conv_nth)

lemma cumulative_at_price:
  assumes "ladder_ok L" "i < length (steps L)"
  shows "s_cumulative (steps L ! i) = quantity_upto L (s_price (steps L ! i))"
proof -
  let ?p = "s_price (steps L ! i)"
  have sorted: "sorted_wrt (<) (map s_price (steps L))" using assms(1) by (simp add: ladder_ok_def)
  have "s_price (steps L ! j) \<le> ?p \<longleftrightarrow> j < Suc i" if "j < length (steps L)" for j
    using sorted_wrt_nth_less [OF sorted, of i j] sorted_wrt_nth_less [OF sorted, of j i] that assms(2)
    by (cases j i rule: linorder_cases) auto
  then have "takeWhile (\<lambda>s. s_price s \<le> ?p) (steps L) = take (Suc i) (steps L)"
    using assms(2) by (intro takeWhile_eq_take_P_nth) auto
  then have "step_units (take (Suc i) (steps L)) = step_weigh (\<lambda>q. if q \<le> ?p then 1 else 0) (steps L)"
    using takeWhile_sorted [OF sorted, of ?p] step_units_filter [of ?p "steps L"] by simp
  then show ?thesis
    using assms by (simp add: ladder_cumulative quantity_upto_supply)
qed

lemma quantity_upto_below:
  assumes "ladder_ok L" "i < length (steps L)" "q < s_price (steps L ! i)" "0 < t"
    and "\<And>j. j < i \<Longrightarrow> s_cumulative (steps L ! j) < t"
  shows "quantity_upto L q < t"
proof -
  define k where "k = partition_point (\<lambda>s. s_price s \<le> q) (steps L)"
  have "\<not> i < k"
    using assms(2,3) set_takeWhileD [OF nth_mem, of i "\<lambda>s. s_price s \<le> q" "steps L"]
    by (auto simp: takeWhile_nth k_def partition_point_def)
  then show ?thesis
    using assms(4) assms(5) [of "k - 1"] by (cases "k = 0") (simp_all add: quantity_upto_def k_def [symmetric])
qed

lemma find_nth: "find P xs = Some x \<Longrightarrow> \<exists>i<length xs. xs ! i = x \<and> P x \<and> (\<forall>j<i. \<not> P (xs ! j))"
  by (simp add: find_Some_iff) metis

section \<open>The ladder of a pile of listings\<close>

lemma ladder_of_answers:
  assumes "units ls \<le> u64_max"
  shows "quantity_upto (ladder_of ls) p = units_upto ls p" "total_units (ladder_of ls) = units ls"
  using ladder_of_supply [OF assms] quantity_upto_supply [of "ladder_of ls" p] total_units_supply [of "ladder_of ls"]
  by (simp_all add: units_upto_weigh units_weigh)

lemma ladder_of_prices:
  assumes "units ls \<le> u64_max"
  shows "s_price ` set (steps (ladder_of ls)) = l_unit_price ` {l \<in> set ls. 0 < l_quantity l}"
proof -
  let ?i = "\<lambda>p a. if a = p then 1 else 0 :: nat"
  have st: "p \<in> s_price ` set (steps (ladder_of ls)) \<longleftrightarrow> 0 < step_weigh (?i p) (steps (ladder_of ls))" for p
  proof
    assume "p \<in> s_price ` set (steps (ladder_of ls))"
    then obtain s where s: "s \<in> set (steps (ladder_of ls))" "p = s_price s" by auto
    then show "0 < step_weigh (?i p) (steps (ladder_of ls))"
      using step_weigh_at [of "steps (ladder_of ls)" s] ladder_of_supply(1) [OF assms] by (simp add: ladder_ok_def)
  qed (use step_weigh_pos in blast)
  have "0 < weigh (?i p) ks \<longleftrightarrow> p \<in> l_unit_price ` {l \<in> set ks. 0 < l_quantity l}" for p ks
    by (induction ks) auto
  then show ?thesis using st by (intro set_eqI) (simp only: ladder_of_supply(2) [OF assms])
qed

text \<open>The prices at which anything is listed; the ends of a ladder are the least and the greatest of them.\<close>

definition listed_prices :: "listing list \<Rightarrow> copper set" where
  "listed_prices ls = l_unit_price ` {l \<in> set ls. 0 < l_quantity l}"

lemma ascending_ends:
  fixes f :: "'a \<Rightarrow> nat"
  assumes "sorted_wrt (<) (map f xs)" "xs \<noteq> []"
  shows "f (hd xs) = Min (f ` set xs)" "f (last xs) = Max (f ` set xs)"
proof -
  obtain a r where x: "xs = a # r" using assms(2) by (cases xs) auto
  show "f (hd xs) = Min (f ` set xs)"
    using assms(1) unfolding x by (intro Min_eqI [symmetric]) (auto intro: less_imp_le)
  obtain c q where x: "xs = q @ [c]" using assms(2) by (cases xs rule: rev_cases) auto
  show "f (last xs) = Max (f ` set xs)"
    using assms(1) unfolding x by (intro Max_eqI [symmetric]) (auto simp: sorted_wrt_append intro: less_imp_le)
qed

lemma ladder_ends:
  assumes ok: "ladder_ok L" and p: "s_price ` set (steps L) = P"
  shows "cheapest L = (if P = {} then None else Some (Min P))"
    and "dearest L = (if P = {} then None else Some (Max P))"
proof -
  have "P = {} \<longleftrightarrow> steps L = []" using p by auto
  moreover have "sorted_wrt (<) (map s_price (steps L))" using ok by (simp add: ladder_ok_def)
  moreover have "cheapest L = (if steps L = [] then None else Some (s_price (hd (steps L))))"
    by (simp add: cheapest_def split: list.split)
  ultimately show "cheapest L = (if P = {} then None else Some (Min P))"
    "dearest L = (if P = {} then None else Some (Max P))"
    using ascending_ends [of s_price "steps L"] p by (simp_all add: dearest_def)
qed

text \<open>
  C26: A ladder is the supply of its listings: prices strictly ascend and no rung is empty; the running sums
  answer \<open>quantity_upto\<close> with exactly the units listed at or below a price, and \<open>total_units\<close> with all of them;
  \<open>cheapest\<close> and \<open>dearest\<close> are the least and the greatest price at which anything is listed, \<open>quantity_within\<close> counts
  the units listed up to the given percentage above the cheapest; and pooling the ladders of several variants
  gives the ladder of all their listings together.
\<close>

theorem ladder_refines_listings:
  assumes "(\<Sum>ls\<leftarrow>lss. units ls) \<le> u64_max"
  shows "ladder_ok (ladder_of (concat lss))
    \<and> merged (map ladder_of lss) = ladder_of (concat lss)
    \<and> (\<forall>p. quantity_upto (merged (map ladder_of lss)) p = units_upto (concat lss) p)
    \<and> total_units (merged (map ladder_of lss)) = units (concat lss)
    \<and> s_price ` set (steps (merged (map ladder_of lss))) = listed_prices (concat lss)
    \<and> cheapest (merged (map ladder_of lss)) =
        (if listed_prices (concat lss) = {} then None else Some (Min (listed_prices (concat lss))))
    \<and> dearest (merged (map ladder_of lss)) =
        (if listed_prices (concat lss) = {} then None else Some (Max (listed_prices (concat lss))))
    \<and> (\<forall>percent. quantity_within (merged (map ladder_of lss)) percent =
        (if listed_prices (concat lss) = {} then None
         else Some (units_upto (concat lss) (percent_above (Min (listed_prices (concat lss))) percent))))"
proof -
  have "units (concat lss) = (\<Sum>ls\<leftarrow>lss. units ls)" by (induction lss) auto
  then have all: "units (concat lss) \<le> u64_max" using assms by simp
  have each: "units ls \<le> u64_max" if "ls \<in> set lss" for ls
    using member_le_sum_list [of "units ls" "map units lss"] that assms by auto
  have sum: "(\<Sum>L\<leftarrow>map ladder_of lss. step_weigh g (steps L)) = weigh g (concat lss)" for g
    using each by (induction lss) (auto simp: ladder_of_supply(2))
  have "(\<Sum>L\<leftarrow>map ladder_of lss. step_units (steps L)) \<le> u64_max"
    using sum [of "\<lambda>_. 1"] all by (simp add: units_weigh)
  then have m: "ladder_ok (merged (map ladder_of lss))"
    "step_weigh g (steps (merged (map ladder_of lss))) = weigh g (concat lss)" for g
    using merged_supply [of "map ladder_of lss"] each ladder_of_supply(1) sum by auto
  have eq: "merged (map ladder_of lss) = ladder_of (concat lss)"
    using m ladder_of_supply [OF all] by (intro ladder_unique) simp_all
  have ok: "ladder_ok (ladder_of (concat lss))" using ladder_of_supply(1) [OF all] .
  have prices: "s_price ` set (steps (ladder_of (concat lss))) = listed_prices (concat lss)"
    using ladder_of_prices [OF all] by (simp add: listed_prices_def)
  show ?thesis
    unfolding eq quantity_within_def
    using ok prices ladder_of_answers [OF all] ladder_ends [OF ok prices] by simp
qed

theorem ladder_refines_listings_witness:
  "(\<Sum>ls\<leftarrow>[demo_listings, demo_listings]. units ls) \<le> u64_max
   \<and> map s_cumulative (steps (merged (map ladder_of [demo_listings, demo_listings]))) = [2, 42, 162, 182, 190]
   \<and> quantity_upto (merged (map ladder_of [demo_listings, demo_listings])) 305 = 42
   \<and> dearest (merged (map ladder_of [demo_listings, demo_listings])) = Some (Max (listed_prices (concat [demo_listings, demo_listings])))"
proof -
  have h: "(\<Sum>ls\<leftarrow>[demo_listings, demo_listings]. units ls) \<le> u64_max" by (simp add: demo_listings_def)
  have e: "map s_cumulative (steps (ladder_of (concat [demo_listings, demo_listings]))) = [2, 42, 162, 182, 190]"
    "units_upto (concat [demo_listings, demo_listings]) 305 = 42"
    by (simp_all add: ladder_of_def demo_listings_def pool_def at_price_def bt_get_def wrap64_def)
  have "hd demo_listings \<in> {l \<in> set (concat [demo_listings, demo_listings]). 0 < l_quantity l}"
    by (simp add: demo_listings_def)
  then have ne: "listed_prices (concat [demo_listings, demo_listings]) \<noteq> {}"
    unfolding listed_prices_def by blast
  have "merged (map ladder_of [demo_listings, demo_listings]) = ladder_of (concat [demo_listings, demo_listings])"
    "quantity_upto (merged (map ladder_of [demo_listings, demo_listings])) 305 =
       units_upto (concat [demo_listings, demo_listings]) 305"
    "dearest (merged (map ladder_of [demo_listings, demo_listings])) =
       (if listed_prices (concat [demo_listings, demo_listings]) = {} then None
        else Some (Max (listed_prices (concat [demo_listings, demo_listings]))))"
    using ladder_refines_listings [OF h] by (auto simp only:)
  then show ?thesis using h e ne by (simp only: if_False simp_thms)
qed


section \<open>Percentiles of the supply\<close>

lemma supply_percentile_quantile:
  assumes "units ls \<le> u64_max" "percent \<le> 100" "units ls * percent \<le> u64_max" "\<not> is_sparse (ladder_of ls)"
  shows "\<exists>p. supply_percentile (ladder_of ls) percent = Some p \<and> is_quantile ls (share_of (units ls) percent) p"
proof -
  let ?L = "ladder_of ls" and ?t = "share_of (units ls) percent"
  note ok = ladder_of_supply(1) [OF assms(1)]
  have ne: "steps ?L \<noteq> []" using assms(4) by (auto simp: is_sparse_def SPARSE_STEPS_def)
  then have pos: "0 < units ls"
    using ok ladder_of_supply(2) [OF assms(1), of "\<lambda>_. 1"] by (cases "steps ?L") (auto simp: ladder_ok_def units_weigh)
  have last: "s_cumulative (last (steps ?L)) = units ls"
    using ladder_of_answers(2) [OF assms(1)] ne by (simp add: total_units_def)
  then have "\<exists>s\<in>set (steps ?L). ?t \<le> s_cumulative s"
    using share_of_le [OF pos assms(2)] last_in_set [OF ne] by force
  then obtain s where f: "find (\<lambda>s. ?t \<le> s_cumulative s) (steps ?L) = Some s"
    by (cases "find (\<lambda>s. ?t \<le> s_cumulative s) (steps ?L)") (auto simp: find_None_iff)
  then obtain i where i: "i < length (steps ?L)" "steps ?L ! i = s" "?t \<le> s_cumulative s"
    "\<And>j. j < i \<Longrightarrow> s_cumulative (steps ?L ! j) < ?t"
    using find_nth [OF f] by (auto simp: not_le)
  have "?t \<le> units_upto ls (s_price s)"
    using cumulative_at_price [OF ok i(1)] i(2,3) ladder_of_answers(1) [OF assms(1)] by simp
  moreover have "units_upto ls q < ?t" if "q < s_price s" for q
    using quantity_upto_below [OF ok i(1), of q ?t] that i(2,4) ladder_of_answers(1) [OF assms(1), of q]
    by (simp add: share_of_def)
  moreover have "supply_percentile ?L percent = Some (s_price s)"
    using assms(3,4) pos f ladder_of_answers(2) [OF assms(1)] by (simp add: supply_percentile_def share_of_def)
  ultimately show ?thesis by (auto simp: is_quantile_def)
qed

text \<open>
  The ladder's percentiles are the summary's: on every ladder that is not sparse
  \<open>supply_percentile\<close> of 5 and of 50 are the \<open>p05\<close> and the \<open>median\<close> that \<open>summarise\<close> computes from the
  same listings by a different route.
\<close>

lemma percentiles_agree:
  assumes "50 * units ls \<le> u64_max" "length ls \<le> u32_max" "\<not> is_sparse (ladder_of ls)"
  shows "\<exists>st. summarise ls = Some st
    \<and> supply_percentile (ladder_of ls) 5 = Some (ps_p05 st)
    \<and> supply_percentile (ladder_of ls) 50 = Some (ps_median st)"
proof -
  have u: "units ls \<le> u64_max" "units ls * 5 \<le> u64_max" "units ls * 50 \<le> u64_max" using assms(1) by simp_all
  obtain p m where l: "supply_percentile (ladder_of ls) 5 = Some p" "is_quantile ls (share_of (units ls) 5) p"
    "supply_percentile (ladder_of ls) 50 = Some m" "is_quantile ls (share_of (units ls) 50) m"
    using supply_percentile_quantile [OF u(1) _ _ assms(3), of 5] u
      supply_percentile_quantile [OF u(1) _ _ assms(3), of 50] by auto
  have "0 < units ls"
  proof (rule ccontr)
    assume "\<not> 0 < units ls"
    then show False using l(1) ladder_of_answers(2) [OF u(1)] by (simp add: supply_percentile_def assms(3))
  qed
  then obtain st where st: "summarise ls = Some st" "is_quantile ls (share_of (units ls) 5) (ps_p05 st)"
    "is_quantile ls (share_of (units ls) 50) (ps_median st)"
    using summary_correct [of ls ls] assms by auto
  then show ?thesis using l is_quantile_unique by blast
qed


lemma percentiles_agree_example:
  "50 * units demo_listings \<le> u64_max \<and> length demo_listings \<le> u32_max \<and> \<not> is_sparse (ladder_of demo_listings)
   \<and> supply_percentile (ladder_of demo_listings) 5 = Some 300
   \<and> summarise demo_listings \<noteq> None"
proof -
  have h: "50 * units demo_listings \<le> u64_max" "length demo_listings \<le> u32_max" "\<not> is_sparse (ladder_of demo_listings)"
    by (simp_all add: demo_listings_def is_sparse_def SPARSE_STEPS_def ladder_of_def pool_def at_price_def bt_get_def
        wrap64_def)
  have "supply_percentile (ladder_of demo_listings) 5 = Some 300"
    by (simp add: demo_listings_def is_sparse_def SPARSE_STEPS_def ladder_of_def pool_def at_price_def bt_get_def
        wrap64_def supply_percentile_def total_units_def div_ceil_def)
  then show ?thesis using h percentiles_agree [OF h] by auto
qed

section \<open>Sweeping the ladder\<close>

text \<open>
  The sweep against a uniform price: with every unit bought at the clearing price \<open>c\<close>, the rungs below
  \<open>c\<close> save \<open>q * (c - p)\<close> each. The cost of the sweep is \<open>c * filled\<close> less these savings.
\<close>

lemma fill_loop_filled:
  "filled \<le> wanted \<Longrightarrow> fst (fill_loop wanted ss filled cost clearing) = min wanted (filled + step_units ss)"
  by (induction ss arbitrary: filled cost clearing) (auto simp: Let_def min_def)

lemma step_weigh_none: "(\<And>s. s \<in> set ss \<Longrightarrow> g (s_price s) = 0) \<Longrightarrow> step_weigh g ss = 0"
  by (induction ss) auto

lemma fill_loop_cost:
  assumes "sorted_wrt (<) (map s_price ss)" "\<And>s. s \<in> set ss \<Longrightarrow> 0 < s_quantity s" "ss \<noteq> []" "filled < wanted"
    and "fill_loop wanted ss filled cost clearing = (f, k, c)"
  shows "c \<in> s_price ` set ss \<and> k + step_weigh (\<lambda>p. c - p) ss = cost + c * (f - filled)
    \<and> filled + step_weigh (\<lambda>p. if p < c then 1 else 0) ss < f
    \<and> f \<le> filled + step_weigh (\<lambda>p. if p \<le> c then 1 else 0) ss"
  using assms
proof (induction ss arbitrary: filled cost clearing)
  case (Cons s ss)
  let ?p = "s_price s" and ?q = "s_quantity s"
  have above: "\<forall>t\<in>set ss. ?p < s_price t" and q: "0 < ?q" using Cons.prems(1,2) by auto
  show ?case
  proof (cases "wanted \<le> filled + ?q \<or> ss = []")
    case True
    let ?took = "min ?q (wanted - filled)"
    have "fill_loop wanted ss (filled + ?took) (cost + ?took * ?p) ?p = (filled + ?took, cost + ?took * ?p, ?p)"
      using True by (cases ss) auto
    then have e: "f = filled + ?took" "k = cost + ?took * ?p" "c = ?p" using Cons.prems(4,5) by (auto simp: Let_def)
    have "step_weigh (\<lambda>p. c - p) ss = 0" "step_weigh (\<lambda>p. if p < c then 1 else 0) ss = 0"
      "step_weigh (\<lambda>p. if p \<le> c then 1 else 0) ss = 0"
      using e(3) above by (intro step_weigh_none; auto simp: less_imp_le)+
    then show ?thesis using e q Cons.prems(4) by simp
  next
    case False
    have r: "fill_loop wanted ss (filled + ?q) (cost + ?q * ?p) ?p = (f, k, c)"
    proof -
      have "min ?q (wanted - filled) = ?q" using False by (auto simp: min_def)
      then show ?thesis using False Cons.prems(4,5) by (simp add: Let_def)
    qed
    have ih: "c \<in> s_price ` set ss \<and> k + step_weigh (\<lambda>p. c - p) ss = cost + ?q * ?p + c * (f - (filled + ?q))
      \<and> filled + ?q + step_weigh (\<lambda>p. if p < c then 1 else 0) ss < f
      \<and> f \<le> filled + ?q + step_weigh (\<lambda>p. if p \<le> c then 1 else 0) ss"
      using Cons.prems(1,2) False by (intro Cons.IH [OF _ _ _ _ r]) auto
    note ih = ih [THEN conjunct1] ih [THEN conjunct2, THEN conjunct1] ih [THEN conjunct2, THEN conjunct2]
    have "?p < c" using ih(1) above by auto
    then obtain d where d: "c = ?p + d" using less_imp_add_positive by blast
    obtain e where e: "f = filled + ?q + e" using ih(3) by (metis add_lessD1 less_imp_add_positive)
    show ?thesis using ih \<open>?p < c\<close> d e by (simp add: algebra_simps)
  qed
qed simp

text \<open>A purchase: how many units to take of each listing.\<close>

definition purchase :: "listing list \<Rightarrow> nat list \<Rightarrow> bool" where
  "purchase ls ts \<longleftrightarrow> list_all2 (\<lambda>t l. t \<le> l_quantity l) ts ls"

definition purchase_cost :: "listing list \<Rightarrow> nat list \<Rightarrow> nat" where
  "purchase_cost ls ts = (\<Sum>(t, l)\<leftarrow>zip ts ls. t * l_unit_price l)"

lemma purchase_saves_less:
  assumes "purchase ls ts"
  shows "c * sum_list ts \<le> purchase_cost ls ts + weigh (\<lambda>p. c - p) ls"
  using assms unfolding purchase_def
proof (induction ts ls rule: list_all2_induct)
  case (Cons t ts l ls)
  let ?p = "l_unit_price l"
  have "c * t \<le> t * ?p + l_quantity l * (c - ?p)"
  proof (cases "?p \<le> c")
    case True
    then have "c * t = t * ?p + t * (c - ?p)" by (simp add: diff_mult_distrib2 mult.commute)
    then show ?thesis using Cons(1) by simp
  qed (simp add: mult.commute)
  then show ?case using Cons by (simp add: purchase_cost_def algebra_simps)
qed (simp add: purchase_cost_def)

text \<open>The purchase the sweep makes: everything below \<open>c\<close>, and as much at \<open>c\<close> as is still wanted.\<close>

lemma purchase_exists:
  assumes "weigh (\<lambda>p. if p < c then 1 else 0) ls \<le> n" "n \<le> units_upto ls c"
  shows "\<exists>ts. purchase ls ts \<and> sum_list ts = n \<and> purchase_cost ls ts + weigh (\<lambda>p. c - p) ls = c * n"
  using assms
proof (induction ls arbitrary: n)
  case (Cons l ls)
  let ?p = "l_unit_price l" and ?q = "l_quantity l"
  define rest where "rest = weigh (\<lambda>p. if p < c then 1 else 0) ls"
  define t where "t = (if ?p < c then ?q else if ?p = c then min ?q (n - rest) else 0)"
  have "rest \<le> units_upto ls c"
    unfolding rest_def units_upto_def weigh_def by (intro sum_list_mono) auto
  then have "rest \<le> n - t \<and> n - t \<le> units_upto ls c \<and> t \<le> ?q \<and> t \<le> n"
    using Cons.prems by (auto simp: t_def rest_def [symmetric] min_def split: if_splits)
  then obtain m where m: "n = t + m" "rest \<le> m" "m \<le> units_upto ls c" "t \<le> ?q"
    by (metis add_diff_inverse_nat diff_add_inverse le_add_diff_inverse not_less)
  then obtain ts where ts: "purchase ls ts" "sum_list ts = m" "purchase_cost ls ts + weigh (\<lambda>p. c - p) ls = c * m"
    using Cons.IH [of m] by (auto simp: rest_def)
  have "t * ?p + ?q * (c - ?p) = c * t"
    by (auto simp: t_def algebra_simps diff_mult_distrib2 split: if_splits)
  moreover have "purchase_cost (l # ls) (t # ts) = t * ?p + purchase_cost ls ts" by (simp add: purchase_cost_def)
  ultimately have "purchase_cost (l # ls) (t # ts) + weigh (\<lambda>p. c - p) (l # ls) = c * n"
    using ts(3) m(1) by (simp add: distrib_left)
  moreover have "purchase (l # ls) (t # ts)" "sum_list (t # ts) = n"
    using ts m by (simp_all add: purchase_def)
  ultimately show ?case by blast
qed (simp add: purchase_def purchase_cost_def)


lemma purchase_cost_le: "purchase ls ts \<Longrightarrow> \<forall>l\<in>set ls. l_unit_price l \<le> m \<Longrightarrow> purchase_cost ls ts \<le> m * sum_list ts"
  unfolding purchase_def
proof (induction ts ls rule: list_all2_induct)
  case (Cons t ts l ls)
  then have a: "t * l_unit_price l \<le> m * t" by (simp add: mult.commute)
  show ?case using add_mono [OF a, of "purchase_cost ls ts" "m * sum_list ts"] Cons by (simp add: purchase_cost_def distrib_left)
qed (simp add: purchase_cost_def)

text \<open>The sweep, over the listings: what is taken, at what cost, and the price of the last unit.\<close>

lemma fill_loop_sweep:
  assumes "units ls \<le> u64_max" "fill_loop wanted (steps (ladder_of ls)) 0 0 base = (f, k, c)"
  shows "f = min wanted (units ls)"
    and "\<exists>ts. purchase ls ts \<and> sum_list ts = f \<and> purchase_cost ls ts = k"
    and "purchase ls ts \<Longrightarrow> sum_list ts = f \<Longrightarrow> k \<le> purchase_cost ls ts"
    and "0 < f \<Longrightarrow> is_quantile ls f c"
proof -
  let ?ss = "steps (ladder_of ls)"
  note ok = ladder_of_supply(1) [OF assms(1)] and w = ladder_of_supply(2) [OF assms(1)]
  show f: "f = min wanted (units ls)"
    using fill_loop_filled [of 0 wanted ?ss 0 base] assms(2) by (simp add: w units_weigh)
  have zero: "k = 0" if "f = 0"
  proof (cases ?ss)
    case (Cons s ss)
    then have "0 < units ls" using ok w [of "\<lambda>_. 1"] by (auto simp: ladder_ok_def units_weigh)
    then have "wanted = 0" using f that by simp
    then show ?thesis using assms(2) Cons by simp
  qed (use assms(2) in simp)
  have pos: "is_quantile ls f c \<and> weigh (\<lambda>p. if p < c then 1 else 0) ls \<le> f \<and> k + weigh (\<lambda>p. c - p) ls = c * f"
    if "0 < f"
  proof -
    have "?ss \<noteq> []" using that f w [of "\<lambda>_. 1"] by (auto simp: units_weigh)
    then have "k + weigh (\<lambda>p. c - p) ls = c * f" "weigh (\<lambda>p. if p < c then 1 else 0) ls < f" "f \<le> units_upto ls c"
      using fill_loop_cost [OF _ _ _ _ assms(2)] ok that f by (auto simp: ladder_ok_def w units_upto_weigh)
    moreover have "units_upto ls q < f" if "q < c" for q
    proof -
      have "units_upto ls q \<le> weigh (\<lambda>p. if p < c then 1 else 0) ls"
        unfolding units_upto_def weigh_def by (intro sum_list_mono) (use that in auto)
      then show ?thesis using calculation(2) by simp
    qed
    ultimately show ?thesis by (auto simp: is_quantile_def)
  qed
  then show "0 < f \<Longrightarrow> is_quantile ls f c" by blast
  show "\<exists>ts. purchase ls ts \<and> sum_list ts = f \<and> purchase_cost ls ts = k"
  proof (cases "f = 0")
    case True
    have "purchase ls (replicate (length ls) 0) \<and> purchase_cost ls (replicate (length ls) 0) = 0"
      by (induction ls) (simp_all add: purchase_def purchase_cost_def)
    then show ?thesis using zero True by (intro exI [of _ "replicate (length ls) 0"]) simp
  next
    case False
    then show ?thesis
      using pos purchase_exists [of c ls f] by (auto simp: is_quantile_def)
  qed
  show "k \<le> purchase_cost ls ts" if "purchase ls ts" "sum_list ts = f"
    using purchase_saves_less [OF that(1), of c] that(2) pos zero by (cases "f = 0") auto
qed

text \<open>
  C20: A sweep is the cheapest purchase. It takes what is wanted or all there is; the cost it reports is
  the cost of some choice of units among the listings, and no choice of as many units costs less; the
  clearing price is the price of the last of them, and the average is their mean rounded down.
\<close>

theorem fill_is_cheapest:
  assumes "units ls \<le> u64_max" "\<forall>l\<in>set ls. l_unit_price l \<le> u64_max" "fill_ladder (ladder_of ls) wanted = f"
  shows "f_filled f = min wanted (units ls) \<and> (f_complete f \<longleftrightarrow> wanted \<le> units ls)
    \<and> (\<forall>ts. purchase ls ts \<and> sum_list ts = f_filled f \<longrightarrow> f_total_cost f \<le> purchase_cost ls ts)
    \<and> (\<exists>ts. purchase ls ts \<and> sum_list ts = f_filled f \<and> f_total_cost f = min u64_max (purchase_cost ls ts)
         \<and> f_average_unit f = purchase_cost ls ts div f_filled f)
    \<and> (0 < f_filled f \<longrightarrow> is_quantile ls (f_filled f) (f_clearing_price f))"
proof -
  let ?base = "case cheapest (ladder_of ls) of None \<Rightarrow> 0 | Some c \<Rightarrow> c"
  obtain n k c where r: "fill_loop wanted (steps (ladder_of ls)) 0 0 ?base = (n, k, c)"
    by (metis surj_pair)
  note sweep = fill_loop_sweep [OF assms(1) r]
  have f: "f_filled f = n" "f_complete f = (n = wanted)" "f_total_cost f = min u64_max k"
    "f_average_unit f = (if n = 0 then 0 else wrap64 (k div n))" "f_clearing_price f = c"
    using assms(3) r by (auto simp: fill_ladder_def Let_def)
  obtain ts where ts: "purchase ls ts" "sum_list ts = n" "purchase_cost ls ts = k" using sweep(2) by blast
  have "k div n \<le> u64_max"
    using purchase_cost_le [OF ts(1) assms(2)] ts div_le_mono [of k "u64_max * n" n] by (cases "n = 0") simp_all
  then have "f_average_unit f = purchase_cost ls ts div n" using f(4) ts(3) by simp
  moreover have "f_complete f \<longleftrightarrow> wanted \<le> units ls" using f(2) sweep(1) by auto
  moreover have "f_total_cost f \<le> purchase_cost ls us" if "purchase ls us" "sum_list us = n" for us
    using sweep(3) [OF that] f(3) by (simp add: min.coboundedI2)
  ultimately show ?thesis using f(1,3,5) sweep(1,4) ts by auto
qed


theorem fill_is_cheapest_witness:
  "units demo_listings \<le> u64_max \<and> list_all (\<lambda>l. l_unit_price l \<le> u64_max) demo_listings
   \<and> fill_ladder (ladder_of demo_listings) 30 =
       \<lparr> f_wanted = 30, f_filled = 30, f_complete = True, f_total_cost = 8791, f_average_unit = 293,
         f_clearing_price = 310, f_impact_percent = 29200 \<rparr>
   \<and> (\<exists>ts. purchase demo_listings ts \<and> sum_list ts = 30 \<and> 8791 = min u64_max (purchase_cost demo_listings ts))
   \<and> is_quantile demo_listings 30 310"
proof -
  have h: "units demo_listings \<le> u64_max" "\<forall>l\<in>set demo_listings. l_unit_price l \<le> u64_max"
    by (simp_all add: demo_listings_def)
  have f: "fill_ladder (ladder_of demo_listings) 30 =
      \<lparr> f_wanted = 30, f_filled = 30, f_complete = True, f_total_cost = 8791, f_average_unit = 293,
        f_clearing_price = 310, f_impact_percent = 29200 \<rparr>"
    by (simp add: demo_listings_def ladder_of_def pool_def at_price_def bt_get_def wrap64_def fill_ladder_def
        cheapest_def impact_def signed_divide_int_def)
  have "\<exists>ts. purchase demo_listings ts \<and> sum_list ts = 30 \<and> 8791 = min u64_max (purchase_cost demo_listings ts)"
    "is_quantile demo_listings 30 310"
    using fill_is_cheapest [OF h f] by auto
  then show ?thesis using h f by (simp add: list_all_iff)
qed

text \<open>
  The impact is the excess of the average over the cheapest price in percent as long as that fits 32
  bits. It need not: with one unit listed at a copper and the rest at five thousand gold, the excess of
  some forty-seven million times the cheapest price is reported as a few hundred million percent too little.
\<close>

lemma impact_exact:
  assumes "0 < base" "base \<le> average" "(average - base) * 100 div base \<le> u32_max"
  shows "impact base average = (average - base) * 100 div base"
proof -
  define x where "x = (average - base) * 100"
  have x: "(int average - int base) * 100 = int x" using assms(2) by (simp add: x_def of_nat_diff)
  have "int x sdiv int base = int (x div base)"
    using assms(1) by (cases "x = 0") (simp_all add: signed_divide_int_def zdiv_int)
  moreover have "int (x div base) mod 4294967296 = int (x div base)"
    using assms(3) by (intro mod_pos_pos_trivial) (simp_all add: x_def)
  ultimately show ?thesis unfolding impact_def x by (simp only: nat_int x_def)
qed

lemma impact_truncated:
  "fill_ladder (ladder_of [\<lparr> l_item = 1, l_unit_price = 1, l_quantity = 1 \<rparr>,
                           \<lparr> l_item = 1, l_unit_price = 50000000, l_quantity = 19 \<rparr>]) 20 =
     \<lparr> f_wanted = 20, f_filled = 20, f_complete = True, f_total_cost = 950000001, f_average_unit = 47500000,
       f_clearing_price = 50000000, f_impact_percent = 455032604 \<rparr>"
  by (simp add: ladder_of_def pool_def at_price_def bt_get_def wrap64_def fill_ladder_def
      cheapest_def impact_def signed_divide_int_def)

end
