(* ===== verification/Depth_Store.thy ===== *)
theory Depth_Store
  imports Depth "HOL-Library.Monad_Syntax"
begin

text \<open>
  What is kept of a ladder (\<open>crates/app-core/src/market/depth.rs\<close>): the text forms of ladders and depth
  panels, and the archive curve that samples the supply at fixed distances from the cheapest price.
\<close>

section \<open>The ladder column\<close>

definition encode_step :: "step \<Rightarrow> string" where
  "encode_step s = show_nat (s_price s) @ CHR '':'' # show_nat (s_quantity s)"

definition encode_ladder :: "ladder \<Rightarrow> string" where
  "encode_ladder L = join_with (CHR '','') (map encode_step (steps L))"

text \<open>One rung of the stored text; \<open>None\<close> is dropped by \<open>filter_map\<close>.\<close>

definition decode_rung :: "string \<Rightarrow> (copper \<times> nat) option" where
  "decode_rung rung = do {
     (price, quantity) \<leftarrow> split_once (CHR '':'') rung;
     p \<leftarrow> parse_uint u64_max price;
     q \<leftarrow> parse_uint u64_max quantity;
     if 0 < p \<and> 0 < q then Some (p, q) else None }"

definition decode_ladder :: "string \<Rightarrow> ladder" where
  "decode_ladder raw =
     (if raw = [] then \<lparr> steps = [] \<rparr>
      else \<lparr> steps = rungs 0 (List.map_filter decode_rung (split_on (CHR '','') raw)) \<rparr>)"

lemma decode_encode_step:
  assumes "0 < s_price s" "s_price s \<le> u64_max" "0 < s_quantity s" "s_quantity s \<le> u64_max"
  shows "decode_rung (encode_step s) = Some (s_price s, s_quantity s)"
  using assms by (simp add: decode_rung_def encode_step_def split_once_append text_simps)

lemma encode_step_free: "free_of (CHR '','') (encode_step s)"
  by (simp add: encode_step_def text_simps)

lemma join_with_nonempty: "ps \<noteq> [] \<Longrightarrow> \<forall>p\<in>set ps. p \<noteq> [] \<Longrightarrow> join_with c ps \<noteq> []"
  by (induction c ps rule: join_with.induct) auto

lemma rungs_of_ladder:
  assumes "ladder_ok L" "step_units (steps L) \<le> u64_max"
  shows "rungs 0 (map (\<lambda>s. (s_price s, s_quantity s)) (steps L)) = steps L"
proof -
  let ?m = "map (\<lambda>s. (s_price s, s_quantity s)) (steps L)"
  have "pool_weigh g ?m = step_weigh g (steps L)" for g
    by (induction "steps L") (simp_all add: pool_weigh_def step_weigh_def comp_def)
  moreover have "pool_ok ?m" using assms(1) by (auto simp: pool_ok_def bt_wf_def ladder_ok_def comp_def)
  ultimately have "\<lparr> steps = rungs 0 ?m \<rparr> = L"
    using assms rungs_ok [of ?m] by (intro ladder_unique) (simp_all add: rungs_weigh)
  from arg_cong [OF this, of steps] show ?thesis by simp
qed

text \<open>What a ladder of priced listings satisfies, and what makes it readable again.\<close>

definition ladder_fits :: "ladder \<Rightarrow> bool" where
  "ladder_fits L \<longleftrightarrow> ladder_ok L \<and> step_units (steps L) \<le> u64_max \<and>
     (\<forall>s\<in>set (steps L). 0 < s_price s \<and> s_price s \<le> u64_max) \<and> length (steps L) \<le> u32_max"

lemma ladder_fits_step:
  assumes "ladder_fits L" "s \<in> set (steps L)"
  shows "0 < s_price s" "s_price s \<le> u64_max" "0 < s_quantity s" "s_quantity s \<le> u64_max"
  using assms step_weigh_ge [OF assms(2), of "\<lambda>_. 1"] by (auto simp: ladder_fits_def ladder_ok_def)

lemma map_filter_Some: "(\<And>x. x \<in> set xs \<Longrightarrow> f (g x) = Some (h x)) \<Longrightarrow> List.map_filter f (map g xs) = map h xs"
  by (induction xs) (auto simp: List.map_filter_simps)

lemma ladder_roundtrip:
  assumes "ladder_fits L"
  shows "decode_ladder (encode_ladder L) = L"
proof (cases "steps L = []")
  case True
  then show ?thesis by (simp add: encode_ladder_def decode_ladder_def)
next
  case False
  have ne: "encode_ladder L \<noteq> []"
    unfolding encode_ladder_def using False by (intro join_with_nonempty) (auto simp: encode_step_def)
  have "split_on (CHR '','') (encode_ladder L) = map encode_step (steps L)"
    unfolding encode_ladder_def using False by (intro split_join) (auto simp: encode_step_free)
  moreover have "List.map_filter decode_rung (map encode_step (steps L)) = map (\<lambda>s. (s_price s, s_quantity s)) (steps L)"
    using ladder_fits_step [OF assms] by (intro map_filter_Some decode_encode_step) auto
  ultimately have "decode_ladder (encode_ladder L) = \<lparr> steps = steps L \<rparr>"
    using ne assms rungs_of_ladder [of L] by (simp add: decode_ladder_def ladder_fits_def)
  then show ?thesis by simp
qed

section \<open>The depth panel\<close>

record depth =
  d_levels :: nat
  d_total :: nat
  d_cheapest :: copper
  d_p25 :: "copper option"
  d_p50 :: "copper option"
  d_within_5 :: "nat option"
  d_within_20 :: "nat option"
  d_target :: nat
  d_fill :: fill
  d_walls :: "wall list"
  d_sparse :: bool

definition depth_of :: "ladder \<Rightarrow> nat \<Rightarrow> depth option" where
  "depth_of L target =
     map_option (\<lambda>c. \<lparr> d_levels = levels L mod 4294967296, d_total = total_units L, d_cheapest = c,
         d_p25 = supply_percentile L 25, d_p50 = supply_percentile L 50,
         d_within_5 = (if is_sparse L then None else quantity_within L 5),
         d_within_20 = (if is_sparse L then None else quantity_within L 20),
         d_target = target, d_fill = fill_ladder L target, d_walls = walls L, d_sparse = is_sparse L \<rparr>)
       (cheapest L)"

definition show_opt :: "nat option \<Rightarrow> string" where
  "show_opt v = (case v of None \<Rightarrow> [] | Some n \<Rightarrow> show_nat n)"

definition encode_wall :: "wall \<Rightarrow> string" where
  "encode_wall w = show_nat (w_price w) @ CHR '':'' # show_nat (w_quantity w) @ CHR '':'' # show_nat (w_share_percent w)"

definition encode_depth :: "depth \<Rightarrow> string" where
  "encode_depth d = join_with (CHR ''|'')
     ([show_nat (d_levels d), show_nat (d_total d), show_nat (d_cheapest d), show_opt (d_p25 d),
       show_opt (d_p50 d), show_opt (d_within_5 d), show_opt (d_within_20 d), show_nat (d_target d),
       show_nat (f_filled (d_fill d)), show_nat (f_total_cost (d_fill d)),
       show_nat (f_average_unit (d_fill d)), show_nat (f_clearing_price (d_fill d)),
       show_nat (f_impact_percent (d_fill d))] @ map encode_wall (d_walls d))"

definition parse_opt :: "string \<Rightarrow> nat option option" where
  "parse_opt field = (if field = [] then Some None else map_option Some (parse_uint u64_max field))"

definition decode_wall :: "string \<Rightarrow> wall option" where
  "decode_wall raw = (case split_on (CHR '':'') raw of
      a # b # c # _ \<Rightarrow> do {
        p \<leftarrow> parse_uint u64_max a;
        q \<leftarrow> parse_uint u64_max b;
        s \<leftarrow> parse_uint u32_max c;
        Some \<lparr> w_price = p, w_quantity = q, w_share_percent = s \<rparr> }
    | _ \<Rightarrow> None)"

definition decode_depth :: "string \<Rightarrow> depth option" where
  "decode_depth raw = (case split_on (CHR ''|'') raw of
      a # b # c # d # e # f # g # h # i # j # k # l # m # ws \<Rightarrow> do {
        lvls \<leftarrow> parse_uint u64_max a;
        tot \<leftarrow> parse_uint u64_max b;
        cheap \<leftarrow> parse_uint u64_max c;
        p25 \<leftarrow> parse_opt d;
        p50 \<leftarrow> parse_opt e;
        w5 \<leftarrow> parse_opt f;
        w20 \<leftarrow> parse_opt g;
        target \<leftarrow> parse_uint u64_max h;
        filled \<leftarrow> parse_uint u64_max i;
        cost \<leftarrow> parse_uint u64_max j;
        average \<leftarrow> parse_uint u64_max k;
        clearing \<leftarrow> parse_uint u64_max l;
        imp \<leftarrow> parse_uint u64_max m;
        Some \<lparr> d_levels = lvls mod 4294967296, d_total = tot, d_cheapest = cheap, d_p25 = p25, d_p50 = p50,
          d_within_5 = w5, d_within_20 = w20, d_target = target,
          d_fill = \<lparr> f_wanted = target, f_filled = filled, f_complete = (filled = target), f_total_cost = cost,
            f_average_unit = average, f_clearing_price = clearing, f_impact_percent = imp mod 4294967296 \<rparr>,
          d_walls = List.map_filter decode_wall ws, d_sparse = lvls mod 4294967296 < SPARSE_STEPS \<rparr> }
    | _ \<Rightarrow> None)"

definition opt_fits :: "nat option \<Rightarrow> bool" where
  "opt_fits v \<longleftrightarrow> (\<forall>n. v = Some n \<longrightarrow> n \<le> u64_max)"

definition wall_fits :: "wall \<Rightarrow> bool" where
  "wall_fits w \<longleftrightarrow> w_price w \<le> u64_max \<and> w_quantity w \<le> u64_max \<and> w_share_percent w \<le> u32_max"

definition fill_fits :: "fill \<Rightarrow> bool" where
  "fill_fits f \<longleftrightarrow> f_wanted f \<le> u64_max \<and> f_filled f \<le> u64_max \<and> f_complete f = (f_filled f = f_wanted f) \<and>
     f_total_cost f \<le> u64_max \<and> f_average_unit f \<le> u64_max \<and> f_clearing_price f \<le> u64_max \<and>
     f_impact_percent f \<le> u32_max"

definition depth_fits :: "depth \<Rightarrow> bool" where
  "depth_fits d \<longleftrightarrow> d_levels d \<le> u32_max \<and> d_total d \<le> u64_max \<and> d_cheapest d \<le> u64_max \<and> opt_fits (d_p25 d) \<and>
     opt_fits (d_p50 d) \<and> opt_fits (d_within_5 d) \<and> opt_fits (d_within_20 d) \<and> fill_fits (d_fill d) \<and>
     f_wanted (d_fill d) = d_target d \<and> (\<forall>w\<in>set (d_walls d). wall_fits w) \<and>
     d_sparse d = (d_levels d < SPARSE_STEPS)"

lemma parse_show_opt: "opt_fits v \<Longrightarrow> parse_opt (show_opt v) = Some v"
  by (cases v) (simp_all add: parse_opt_def show_opt_def opt_fits_def parse_show)

lemma show_opt_free: "\<not> is_digit c \<Longrightarrow> free_of c (show_opt v)"
  by (cases v) (simp_all add: show_opt_def text_simps)

lemma decode_encode_wall: "wall_fits w \<Longrightarrow> decode_wall (encode_wall w) = Some w"
  by (simp add: decode_wall_def encode_wall_def wall_fits_def split_on_append split_on_free text_simps)

lemma encode_wall_free: "free_of (CHR ''|'') (encode_wall w)"
  by (simp add: encode_wall_def text_simps)

lemma depth_roundtrip:
  assumes "depth_fits d"
  shows "decode_depth (encode_depth d) = Some d"
proof -
  let ?fields = "[show_nat (d_levels d), show_nat (d_total d), show_nat (d_cheapest d), show_opt (d_p25 d),
       show_opt (d_p50 d), show_opt (d_within_5 d), show_opt (d_within_20 d), show_nat (d_target d),
       show_nat (f_filled (d_fill d)), show_nat (f_total_cost (d_fill d)),
       show_nat (f_average_unit (d_fill d)), show_nat (f_clearing_price (d_fill d)),
       show_nat (f_impact_percent (d_fill d))]"
  have "split_on (CHR ''|'') (encode_depth d) = ?fields @ map encode_wall (d_walls d)"
    unfolding encode_depth_def
    by (intro split_join) (auto simp: encode_wall_free show_opt_free text_simps)
  moreover have "List.map_filter decode_wall (map encode_wall (d_walls d)) = d_walls d"
    using assms map_filter_Some [of "d_walls d" decode_wall encode_wall id] decode_encode_wall
    by (simp add: depth_fits_def)
  moreover have "f_impact_percent (d_fill d) \<le> u64_max" "d_levels d \<le> u64_max"
    using assms by (simp_all add: depth_fits_def fill_fits_def)
  ultimately show ?thesis
    using assms by (simp add: decode_depth_def depth_fits_def fill_fits_def parse_show parse_show_opt)
qed


section \<open>Every panel can be read back\<close>

lemma supply_percentile_price: "supply_percentile L n = Some p \<Longrightarrow> p \<in> s_price ` set (steps L)"
  by (auto simp: supply_percentile_def dearest_def Let_def find_Some_iff split: if_splits option.splits)

lemma step_weigh_le: "(\<And>p. g p \<le> 1) \<Longrightarrow> step_weigh g ss \<le> step_units ss"
  by (induction ss) (auto intro: add_mono simp: mult_le_cancel1 [where k = "s_quantity _", of _ 1, simplified])

lemma quantity_upto_le: "ladder_ok L \<Longrightarrow> quantity_upto L p \<le> step_units (steps L)"
  unfolding quantity_upto_supply by (intro step_weigh_le) simp

lemma fill_loop_clearing:
  "snd (snd (fill_loop wanted ss filled cost clearing)) \<in> insert clearing (s_price ` set ss)"
proof (induction ss arbitrary: filled cost clearing)
  case (Cons s ss)
  show ?case
    using Cons.IH [of "filled + min (s_quantity s) (wanted - filled)" _ "s_price s"] by (auto simp: Let_def)
qed simp

lemma opt_fits_if: "opt_fits v \<Longrightarrow> opt_fits (if b then None else v)"
  by (simp add: opt_fits_def)

lemma fill_fits_ladder:
  assumes "ladder_fits L" "target \<le> u64_max"
  shows "fill_fits (fill_ladder L target)" "f_wanted (fill_ladder L target) = target"
proof -
  let ?base = "case cheapest L of None \<Rightarrow> 0 | Some c \<Rightarrow> c"
  obtain n k c where r: "fill_loop target (steps L) 0 0 ?base = (n, k, c)" by (metis surj_pair)
  have n: "n \<le> target" using fill_loop_filled [of 0 target "steps L" 0 ?base] r by simp
  have "?base = 0 \<or> ?base \<in> s_price ` set (steps L)" by (cases "steps L") (auto simp: cheapest_def)
  moreover have "c = ?base \<or> c \<in> s_price ` set (steps L)"
    using fill_loop_clearing [of target "steps L" 0 0 ?base] r by simp
  ultimately have "c \<le> u64_max" using ladder_fits_step(2) [OF assms(1)] by auto
  moreover have "wrap64 x \<le> u64_max" for x
    using mod_less_divisor [of 18446744073709551616 x] by (simp add: wrap64_def)
  moreover have "impact b a \<le> u32_max" for a b
    using pos_mod_bound [of 4294967296 "(int a - int b) * 100 sdiv int b"] by (simp add: impact_def)
  ultimately show "fill_fits (fill_ladder L target)" "f_wanted (fill_ladder L target) = target"
    using n assms(2) r by (auto simp: fill_ladder_def fill_fits_def Let_def)
qed

lemma walls_fit: "ladder_fits L \<Longrightarrow> w \<in> set (walls L) \<Longrightarrow> wall_fits w"
  using ladder_fits_step [of L]
  by (auto simp: walls_def Let_def List.map_filter_def wall_fits_def split: if_splits)

lemma depth_of_fits:
  assumes "ladder_fits L" "target \<le> u64_max" "depth_of L target = Some d"
  shows "depth_fits d"
proof -
  obtain c where c: "cheapest L = Some c" using assms(3) by (auto simp: depth_of_def)
  have ok: "ladder_ok L" "step_units (steps L) \<le> u64_max" "length (steps L) \<le> u32_max"
    using assms(1) by (simp_all add: ladder_fits_def)
  have "c \<le> u64_max" using c ladder_fits_step(2) [OF assms(1)] by (auto simp: cheapest_def split: list.splits)
  moreover have "total_units L \<le> u64_max" using ok total_units_supply by simp
  moreover have "opt_fits (supply_percentile L n)" for n
    using supply_percentile_price [of L n] ladder_fits_step(2) [OF assms(1)] by (auto simp: opt_fits_def)
  moreover have "opt_fits (quantity_within L n)" for n
    using quantity_upto_le [OF ok(1)] ok(2) by (auto simp: opt_fits_def quantity_within_def intro: order_trans)
  moreover have "levels L mod 4294967296 = levels L" using ok(3) by (simp add: levels_def)
  ultimately show ?thesis
    using assms(3) c fill_fits_ladder [OF assms(1,2)] walls_fit [OF assms(1)] ok(3)
    by (auto simp: depth_of_def depth_fits_def levels_def is_sparse_def opt_fits_if)
qed

lemma ladder_of_fits:
  assumes "units ls \<le> u64_max" "\<forall>l\<in>set ls. 0 < l_unit_price l \<and> l_unit_price l \<le> u64_max" "length ls \<le> u32_max"
  shows "ladder_fits (ladder_of ls)"
proof -
  note ok = ladder_of_supply(1) [OF assms(1)]
  have prices: "s_price ` set (steps (ladder_of ls)) \<subseteq> l_unit_price ` set ls"
    using ladder_of_prices [OF assms(1)] by auto
  have "distinct (map s_price (steps (ladder_of ls)))" using ok by (simp add: ladder_ok_def strict_sorted_iff)
  then have "length (steps (ladder_of ls)) = card (s_price ` set (steps (ladder_of ls)))"
    using distinct_card [of "map s_price (steps (ladder_of ls))"] by simp
  also have "\<dots> \<le> card (l_unit_price ` set ls)" using prices by (intro card_mono) auto
  also have "\<dots> \<le> length ls" by (meson card_image_le card_length finite_set order_trans)
  finally have "length (steps (ladder_of ls)) \<le> u32_max" using assms(3) by simp
  moreover have "step_units (steps (ladder_of ls)) \<le> u64_max"
    using ladder_of_supply(2) [OF assms(1), of "\<lambda>_. 1"] assms(1) by (simp add: units_weigh)
  ultimately show ?thesis using ok prices assms(2) by (fastforce simp: ladder_fits_def)
qed

text \<open>
  What is stored of a market's depth is read back exactly: the ladder column of any listings with
  positive prices decodes to the same ladder, running sums included, and the depth panel computed from it
  for any target quantity decodes to the same panel, absent figures and walls included.
\<close>

lemma depth_stored_exactly:
  assumes "units ls \<le> u64_max" "\<forall>l\<in>set ls. 0 < l_unit_price l \<and> l_unit_price l \<le> u64_max" "length ls \<le> u32_max"
    and "target \<le> u64_max"
  shows "decode_ladder (encode_ladder (ladder_of ls)) = ladder_of ls
    \<and> (\<forall>d. depth_of (ladder_of ls) target = Some d \<longrightarrow> decode_depth (encode_depth d) = Some d)"
  using ladder_of_fits [OF assms(1-3)] assms(4) ladder_roundtrip depth_of_fits depth_roundtrip by blast

lemma depth_stored_exactly_example:
  "units demo_listings \<le> u64_max
   \<and> list_all (\<lambda>l. 0 < l_unit_price l \<and> l_unit_price l \<le> u64_max) demo_listings \<and> length demo_listings \<le> u32_max
   \<and> encode_ladder (ladder_of demo_listings) = ''1:1,300:20,310:60,320:10,900:4''
   \<and> decode_ladder ''1:1,300:20,310:60,320:10,900:4'' = ladder_of demo_listings
   \<and> (\<exists>d. depth_of (ladder_of demo_listings) 20 = Some d \<and> decode_depth (encode_depth d) = Some d)"
proof -
  have h: "units demo_listings \<le> u64_max" "\<forall>l\<in>set demo_listings. 0 < l_unit_price l \<and> l_unit_price l \<le> u64_max"
    "length demo_listings \<le> u32_max" "(20 :: nat) \<le> u64_max"
    by (simp_all add: demo_listings_def)
  have e: "encode_ladder (ladder_of demo_listings) = ''1:1,300:20,310:60,320:10,900:4''"
    by (simp add: demo_listings_def ladder_of_def pool_def at_price_def bt_get_def wrap64_def encode_ladder_def
        encode_step_def show_nat.simps digit_char_def char_of_def bit_0)
  have "cheapest (ladder_of demo_listings) = Some 1"
    by (simp add: demo_listings_def ladder_of_def pool_def at_price_def bt_get_def wrap64_def cheapest_def)
  then obtain d where "depth_of (ladder_of demo_listings) 20 = Some d" by (simp add: depth_of_def)
  then show ?thesis using h e depth_stored_exactly [OF h] by (auto simp: list_all_iff)
qed


section \<open>The archive curve\<close>

definition compact :: "ladder \<Rightarrow> curve" where
  "compact L =
     (case cheapest L of
        None \<Rightarrow> \<lparr> cv_cheapest = 0, cv_cumulative = replicate 12 0, cv_total = 0, cv_levels = 0 \<rparr>
      | Some c \<Rightarrow> \<lparr> cv_cheapest = c, cv_cumulative = map (\<lambda>b. quantity_upto L (percent_above c b)) CURVE_BANDS,
          cv_total = total_units L, cv_levels = length (steps L) mod 4294967296 \<rparr>)"

definition curve_is_sparse :: "curve \<Rightarrow> bool" where
  "curve_is_sparse C \<longleftrightarrow> cv_levels C < SPARSE_STEPS"

text \<open>Unchecked subtraction of \<open>u64\<close>.\<close>

definition wrap_sub64 :: "nat \<Rightarrow> nat \<Rightarrow> nat" where
  "wrap_sub64 a b = (a + 18446744073709551616 - b) mod 18446744073709551616"

definition curve_within :: "curve \<Rightarrow> nat \<Rightarrow> nat option" where
  "curve_within C percent =
     (if cv_cheapest C = 0 then None
      else case position (\<lambda>b. b = percent) CURVE_BANDS of
        Some i \<Rightarrow> Some (cv_cumulative C ! i)
      | None \<Rightarrow> (case position (\<lambda>b. percent < b) CURVE_BANDS of
          None \<Rightarrow> Some (cv_total C)
        | Some upper \<Rightarrow>
            if upper = 0 then Some (cv_cumulative C ! 0)
            else let lo = CURVE_BANDS ! (upper - 1); hi = CURVE_BANDS ! upper;
                     a = cv_cumulative C ! (upper - 1); b = cv_cumulative C ! upper in
              Some (wrap64 (a + wrap64 (wrap_sub64 b a * (percent - lo) div (hi - lo))))))"

text \<open>The loop of \<open>Curve::supply_percentile\<close>: the first band that holds \<open>wanted\<close> units, interpolated.\<close>

definition band_price :: "curve \<Rightarrow> nat \<Rightarrow> nat \<Rightarrow> copper" where
  "band_price C wanted i =
     (let hi = CURVE_BANDS ! i; cum = cv_cumulative C ! i;
          (lo, below) = (if i = 0 then (0, 0) else (CURVE_BANDS ! (i - 1), cv_cumulative C ! (i - 1)));
          span = cum - below; into = wanted - below;
          ratio = (if span = 0 then lo else lo + div_ceil ((hi - lo) * into) span) in
      percent_above (cv_cheapest C) ratio)"

definition curve_percentile :: "curve \<Rightarrow> nat \<Rightarrow> copper option" where
  "curve_percentile C percent =
     (if curve_is_sparse C \<or> cv_total C = 0 then None
      else let wanted = wrap64 (div_ceil (cv_total C * percent) 100) in
        case position (\<lambda>u. wanted \<le> u) (cv_cumulative C) of
          Some i \<Rightarrow> Some (band_price C wanted i)
        | None \<Rightarrow> Some (percent_above (cv_cheapest C) (last CURVE_BANDS)))"

lemma position_Some: "position P xs = Some i \<longleftrightarrow> i < length xs \<and> P (xs ! i) \<and> (\<forall>j<i. \<not> P (xs ! j))"
proof (induction xs arbitrary: i)
  case (Cons x xs)
  show ?case using Cons by (cases i) (auto simp: All_less_Suc2)
qed simp

lemma position_None: "position P xs = None \<longleftrightarrow> (\<forall>x\<in>set xs. \<not> P x)"
  by (induction xs) auto

lemma bands_sorted: "sorted_wrt (<) CURVE_BANDS"
  by (simp add: CURVE_BANDS_def)

lemma percent_above_mono: "a \<le> b \<Longrightarrow> percent_above c a \<le> percent_above c b"
  unfolding percent_above_def by (intro min.mono div_le_mono mult_le_mono2) auto

lemma quantity_upto_mono: "ladder_ok L \<Longrightarrow> p \<le> q \<Longrightarrow> quantity_upto L p \<le> quantity_upto L q"
  unfolding quantity_upto_supply step_weigh_def by (intro sum_list_mono) auto

lemma interpolate_between:
  fixes a b n d :: nat
  assumes "a \<le> b" "n \<le> d" "0 < d"
  shows "a \<le> a + (b - a) * n div d" "a + (b - a) * n div d \<le> b"
proof -
  have "(b - a) * n div d \<le> (b - a) * d div d" using assms(2) by (intro div_le_mono mult_le_mono2)
  then show "a + (b - a) * n div d \<le> b" using assms(1,3) by simp
qed simp

lemma wrap_sub64_exact: "a \<le> b \<Longrightarrow> b \<le> u64_max \<Longrightarrow> wrap_sub64 b a = b - a"
proof -
  assume ab: "a \<le> b" "b \<le> u64_max"
  then have e: "b + 18446744073709551616 - a = (b - a) + 18446744073709551616" by simp
  have "(b - a) mod 18446744073709551616 = b - a" using ab(2) by (intro mod_less) linarith
  then show ?thesis unfolding wrap_sub64_def e by (simp only: mod_add_self2)
qed

text \<open>The two recorded distances around one that is not recorded.\<close>

lemma bands_around:
  assumes "position (\<lambda>b. percent < b) CURVE_BANDS = Some u" "percent \<notin> set CURVE_BANDS"
  shows "u < length CURVE_BANDS" "0 < u" "CURVE_BANDS ! (u - 1) \<le> percent" "percent < CURVE_BANDS ! u"
    and "\<And>b. b \<in> set CURVE_BANDS \<Longrightarrow> b \<le> percent \<Longrightarrow> b \<le> CURVE_BANDS ! (u - 1)"
    and "\<And>b. b \<in> set CURVE_BANDS \<Longrightarrow> percent \<le> b \<Longrightarrow> CURVE_BANDS ! u \<le> b"
proof -
  have u: "u < length CURVE_BANDS" "percent < CURVE_BANDS ! u" "\<forall>j<u. CURVE_BANDS ! j \<le> percent"
    using assms(1) by (auto simp: position_Some not_less)
  have u0: "0 < u" using u(2) by (cases u) (simp_all add: CURVE_BANDS_def)
  show "u < length CURVE_BANDS" "0 < u" "CURVE_BANDS ! (u - 1) \<le> percent" "percent < CURVE_BANDS ! u"
    using u u0 by simp_all
  fix b assume b: "b \<in> set CURVE_BANDS"
  then obtain j where j: "j < length CURVE_BANDS" "b = CURVE_BANDS ! j" by (metis in_set_conv_nth)
  show "b \<le> CURVE_BANDS ! (u - 1)" if "b \<le> percent"
  proof -
    have "j < u"
      using that j u(2) sorted_wrt_nth_less [OF bands_sorted, of u j] by (cases j u rule: linorder_cases) auto
    then have "j = u - 1 \<or> j < u - 1" by linarith
    then show ?thesis
      using j less_imp_diff_less [OF u(1), of 1] sorted_wrt_nth_less [OF bands_sorted, of j "u - 1"] by auto
  qed
  show "CURVE_BANDS ! u \<le> b" if "percent \<le> b"
  proof -
    have "\<not> j < u" using u(3) j that assms(2) b by (metis order.antisym)
    then show ?thesis using j sorted_wrt_nth_less [OF bands_sorted, of u j] by (cases "j = u") auto
  qed
qed

text \<open>
  The archive curve answers what the ladder would: exactly at every recorded distance from the
  cheapest price, and in between with a number of units between the ladder's answers at the recorded
  distances around it, never more than the whole supply.
\<close>

lemma curve_within_bounds:
  assumes "ladder_ok L" "step_units (steps L) \<le> u64_max" "cheapest L = Some c" "0 < c"
  shows "\<exists>v. curve_within (compact L) percent = Some v \<and> v \<le> total_units L
    \<and> (percent \<in> set CURVE_BANDS \<longrightarrow> quantity_within L percent = Some v)
    \<and> (\<forall>lo\<in>set CURVE_BANDS. lo \<le> percent \<longrightarrow> quantity_upto L (percent_above c lo) \<le> v)
    \<and> (\<forall>hi\<in>set CURVE_BANDS. percent \<le> hi \<longrightarrow> v \<le> quantity_upto L (percent_above c hi))"
proof -
  let ?C = "compact L" and ?q = "\<lambda>b. quantity_upto L (percent_above c b)"
  have C: "cv_cheapest ?C = c" "cv_total ?C = total_units L" "cv_cumulative ?C = map ?q CURVE_BANDS"
    using assms(3) by (simp_all add: compact_def)
  have mono: "?q a \<le> ?q b" if "a \<le> b" for a b
    using that by (intro quantity_upto_mono assms(1) percent_above_mono)
  have le: "?q b \<le> total_units L" for b
    using quantity_upto_le [OF assms(1)] total_units_supply [OF assms(1)] by simp
  have nth: "cv_cumulative ?C ! i = ?q (CURVE_BANDS ! i)" if "i < length CURVE_BANDS" for i
    using that C(3) by simp
  show ?thesis
  proof (cases "position (\<lambda>b. b = percent) CURVE_BANDS")
    case (Some i)
    then have i: "i < length CURVE_BANDS" "CURVE_BANDS ! i = percent" by (simp_all add: position_Some)
    have "curve_within ?C percent = Some (?q percent)"
      using Some C(1) assms(4) nth [OF i(1)] i(2) by (simp add: curve_within_def)
    then show ?thesis using le mono assms(3) by (auto simp: quantity_within_def)
  next
    case None
    then have notin: "percent \<notin> set CURVE_BANDS" by (auto simp: position_None)
    show ?thesis
    proof (cases "position (\<lambda>b. percent < b) CURVE_BANDS")
      case no: None
      then have "\<forall>b\<in>set CURVE_BANDS. b < percent" using notin by (force simp: position_None not_less order.order_iff_strict)
      moreover have "curve_within ?C percent = Some (total_units L)"
        using None no C assms(4) by (simp add: curve_within_def)
      ultimately show ?thesis using le notin by (auto simp: leD)
    next
      case (Some u)
      note u = bands_around [OF Some notin]
      let ?lo = "CURVE_BANDS ! (u - 1)" and ?hi = "CURVE_BANDS ! u"
      let ?v = "?q ?lo + (?q ?hi - ?q ?lo) * (percent - ?lo) div (?hi - ?lo)"
      have ab: "?q ?lo \<le> ?q ?hi" using u(3,4) by (intro mono) simp
      have v: "?q ?lo \<le> ?v" "?v \<le> ?q ?hi"
        using interpolate_between [OF ab, of "percent - ?lo" "?hi - ?lo"] u(3,4) by auto
      have small: "?q ?hi \<le> u64_max" using le total_units_supply [OF assms(1)] assms(2) by (metis order_trans)
      have n: "cv_cumulative ?C ! u = ?q ?hi" "cv_cumulative ?C ! (u - 1) = ?q ?lo"
        using nth [of u] nth [of "u - 1"] u(1) by simp_all
      have w: "wrap64 ?v = ?v" "wrap64 ((?q ?hi - ?q ?lo) * (percent - ?lo) div (?hi - ?lo)) = ?v - ?q ?lo"
        using v small by (simp_all del: One_nat_def)
      have val: "curve_within ?C percent = Some ?v"
        using None Some C(1) assms(4) u(2) w v(1)
        by (simp add: curve_within_def Let_def n wrap_sub64_exact [OF ab small] del: One_nat_def)
      have "?q b \<le> ?v" if "b \<in> set CURVE_BANDS" "b \<le> percent" for b
        using mono [OF u(5) [OF that]] v(1) by (rule order_trans)
      moreover have "?v \<le> ?q b" if "b \<in> set CURVE_BANDS" "percent \<le> b" for b
        using v(2) mono [OF u(6) [OF that]] by (rule order_trans)
      moreover have "?v \<le> total_units L" using v(2) le by (rule order_trans)
      ultimately show ?thesis using val notin by blast
    qed
  qed
qed

text \<open>Fourteen hundred units from ten silver up, asked for eight percent: between the bands 5 and 10.\<close>

definition demo_shelf :: ladder where
  "demo_shelf = ladder_of [\<lparr> l_item = 3, l_unit_price = 1000, l_quantity = 100 \<rparr>,
     \<lparr> l_item = 3, l_unit_price = 1040, l_quantity = 300 \<rparr>, \<lparr> l_item = 3, l_unit_price = 1090, l_quantity = 1000 \<rparr>]"

lemma curve_within_bounds_example:
  "ladder_ok demo_shelf \<and> step_units (steps demo_shelf) \<le> u64_max \<and> cheapest demo_shelf = Some 1000
   \<and> curve_within (compact demo_shelf) 8 = Some 1000
   \<and> quantity_upto demo_shelf (percent_above 1000 5) \<le> 1000 \<and> 1000 \<le> quantity_upto demo_shelf (percent_above 1000 10)"
proof -
  let ?ls = "[\<lparr> l_item = 3, l_unit_price = 1000, l_quantity = 100 \<rparr>,
     \<lparr> l_item = 3, l_unit_price = 1040, l_quantity = 300 \<rparr>, \<lparr> l_item = 3, l_unit_price = 1090, l_quantity = 1000 \<rparr>]"
  have u: "units ?ls \<le> u64_max" by simp
  have h: "ladder_ok demo_shelf" "step_units (steps demo_shelf) \<le> u64_max" "cheapest demo_shelf = Some 1000" "0 < (1000 :: nat)"
    using ladder_of_supply [OF u] u
    by (simp_all add: demo_shelf_def units_weigh)
      (simp add: ladder_of_def pool_def at_price_def bt_get_def wrap64_def cheapest_def)
  have e: "curve_within (compact demo_shelf) 8 = Some 1000"
    by (simp add: demo_shelf_def compact_def cheapest_def ladder_of_def pool_def at_price_def bt_get_def wrap64_def
        curve_within_def CURVE_BANDS_def quantity_upto_def partition_point_def percent_above_def wrap_sub64_def total_units_def)
  have b: "(5 :: nat) \<in> set CURVE_BANDS" "(10 :: nat) \<in> set CURVE_BANDS" by (simp_all add: CURVE_BANDS_def)
  obtain v where "curve_within (compact demo_shelf) 8 = Some v"
    "\<forall>lo\<in>set CURVE_BANDS. lo \<le> 8 \<longrightarrow> quantity_upto demo_shelf (percent_above 1000 lo) \<le> v"
    "\<forall>hi\<in>set CURVE_BANDS. 8 \<le> hi \<longrightarrow> v \<le> quantity_upto demo_shelf (percent_above 1000 hi)"
    using curve_within_bounds [OF h, of 8] by blast
  then show ?thesis using h e b by simp
qed

end
