(* ===== verification/Throttle.thy ===== *)
theory Throttle
  imports Text_Forms
begin

text \<open>
  The limits on sign-in, registration and event streams (\<open>crates/app-web/src/throttle.rs\<close>). A
  \<open>HashMap\<close> is a finite map, a mutex or atomic counter the value it protects; each operation is the
  critical section the source runs. The clock is an argument, and the theorems assume that it does not
  step back.
\<close>

section \<open>Constants and data\<close>

definition MAX_FAILURES :: nat where "MAX_FAILURES = 8"
definition WINDOW_MS :: nat where "WINDOW_MS = 300000"
definition MAX_ORIGIN_ATTEMPTS :: nat where "MAX_ORIGIN_ATTEMPTS = 20"
definition MAX_GLOBAL_ATTEMPTS :: nat where "MAX_GLOBAL_ATTEMPTS = 100"
definition MAX_ARGON2_CONCURRENCY :: nat where "MAX_ARGON2_CONCURRENCY = 4"
definition MAX_SIGN_UPS :: nat where "MAX_SIGN_UPS = 10"

lemmas throttle_limits = MAX_FAILURES_def WINDOW_MS_def MAX_ORIGIN_ATTEMPTS_def MAX_GLOBAL_ATTEMPTS_def
  MAX_ARGON2_CONCURRENCY_def MAX_SIGN_UPS_def

datatype ip_addr = V4 "32 word" | V6 "128 word"

record bucket =
  bk_failures :: nat
  bk_last :: millis

type_synonym login_throttle = "string \<rightharpoonup> bucket"

record attempt_window =
  aw_started :: millis
  aw_attempts :: nat

text \<open>\<open>retain\<close> on a map.\<close>

definition map_retain :: "('v \<Rightarrow> bool) \<Rightarrow> ('k \<rightharpoonup> 'v) \<Rightarrow> ('k \<rightharpoonup> 'v)" where
  "map_retain P m = (\<lambda>k. case m k of None \<Rightarrow> None | Some v \<Rightarrow> if P v then Some v else None)"

section \<open>Failed sign-ins by username\<close>

definition bucket_expired :: "bucket \<Rightarrow> millis \<Rightarrow> bool" where
  "bucket_expired b now \<longleftrightarrow> WINDOW_MS \<le> now - bk_last b"

definition login_key :: "string \<Rightarrow> string" where
  "login_key username = to_ascii_lowercase username"

definition allows :: "login_throttle \<Rightarrow> string \<Rightarrow> millis \<Rightarrow> bool \<times> login_throttle" where
  "allows m username now =
     (let key = login_key username in
      case m key of
        Some b \<Rightarrow> if bucket_expired b now then (True, m(key := None)) else (bk_failures b < MAX_FAILURES, m)
      | None \<Rightarrow> (True, m))"

definition failed :: "login_throttle \<Rightarrow> string \<Rightarrow> millis \<Rightarrow> login_throttle" where
  "failed m username now =
     (let key = login_key username;
          m' = map_retain (\<lambda>b. \<not> bucket_expired b now) m;
          b = (case m' key of Some b \<Rightarrow> b | None \<Rightarrow> \<lparr> bk_failures = 0, bk_last = now \<rparr>) in
      m'(key \<mapsto> \<lparr> bk_failures = sat_add u32_max (bk_failures b) 1, bk_last = now \<rparr>))"

definition succeeded :: "login_throttle \<Rightarrow> string \<Rightarrow> login_throttle" where
  "succeeded m username = m(login_key username := None)"

section \<open>Windows of attempts\<close>

definition aw_live :: "millis \<Rightarrow> attempt_window \<Rightarrow> bool" where
  "aw_live now w \<longleftrightarrow> now - aw_started w < WINDOW_MS"

definition take_window :: "attempt_window option \<Rightarrow> millis \<Rightarrow> nat \<Rightarrow> bool \<times> attempt_window option" where
  "take_window cell now maximum =
     (case cell of
        Some w \<Rightarrow>
          if aw_live now w
          then let attempts = sat_add u32_max (aw_attempts w) 1 in
            (attempts \<le> maximum, Some (w\<lparr> aw_attempts := attempts \<rparr>))
          else (True, Some \<lparr> aw_started = now, aw_attempts = 1 \<rparr>)
      | None \<Rightarrow> (True, Some \<lparr> aw_started = now, aw_attempts = 1 \<rparr>))"

text \<open>\<open>SignUpThrottle::take\<close> is the same critical section, written out in the source.\<close>

definition sign_up_take :: "attempt_window option \<Rightarrow> millis \<Rightarrow> bool \<times> attempt_window option" where
  "sign_up_take cell now =
     (let fresh = \<lparr> aw_started = now, aw_attempts = 1 \<rparr> in
      case cell of
        Some w \<Rightarrow>
          if aw_live now w
          then let attempts = sat_add u32_max (aw_attempts w) 1 in
            (attempts \<le> MAX_SIGN_UPS, Some \<lparr> aw_started = aw_started w, aw_attempts = attempts \<rparr>)
          else (True, Some fresh)
      | None \<Rightarrow> (True, Some fresh))"

record auth_gate =
  ag_permits :: nat
  ag_origins :: "ip_addr \<rightharpoonup> attempt_window"
  ag_global :: "attempt_window option"

definition new_gate :: "nat \<Rightarrow> auth_gate" where
  "new_gate max_hashes = \<lparr> ag_permits = max max_hashes 1, ag_origins = Map.empty, ag_global = None \<rparr>"

definition gate_take :: "auth_gate \<Rightarrow> ip_addr \<Rightarrow> millis \<Rightarrow> bool \<times> auth_gate" where
  "gate_take g origin now =
     (let (global_ok, cell) = take_window (ag_global g) now MAX_GLOBAL_ATTEMPTS;
          g = g\<lparr> ag_global := cell \<rparr> in
      if \<not> global_ok then (False, g)
      else let m = map_retain (aw_live now) (ag_origins g);
               w = (case m origin of Some w \<Rightarrow> w | None \<Rightarrow> \<lparr> aw_started = now, aw_attempts = 0 \<rparr>);
               w = w\<lparr> aw_attempts := sat_add u32_max (aw_attempts w) 1 \<rparr> in
        (aw_attempts w \<le> MAX_ORIGIN_ATTEMPTS, g\<lparr> ag_origins := m(origin \<mapsto> w) \<rparr>))"

text \<open>The semaphore: \<open>try_acquire_owned\<close>, and the drop of a permit.\<close>

definition try_hash :: "auth_gate \<Rightarrow> auth_gate option" where
  "try_hash g = (if ag_permits g = 0 then None else Some (g\<lparr> ag_permits := ag_permits g - 1 \<rparr>))"

definition drop_permit :: "auth_gate \<Rightarrow> auth_gate" where
  "drop_permit g = g\<lparr> ag_permits := ag_permits g + 1 \<rparr>"

section \<open>Counting failures\<close>

text \<open>The calls the sign-in route makes, oldest first, and the throttle they leave.\<close>

datatype login_call = Allows string millis | Failed string millis | Succeeded string

fun call_time :: "login_call \<Rightarrow> millis \<Rightarrow> millis" where
  "call_time (Allows u t) d = t"
| "call_time (Failed u t) d = t"
| "call_time (Succeeded u) d = d"

fun login_step :: "login_call \<Rightarrow> login_throttle \<Rightarrow> login_throttle" where
  "login_step (Allows u t) m = snd (allows m u t)"
| "login_step (Failed u t) m = failed m u t"
| "login_step (Succeeded u) m = succeeded m u"

text \<open>No call is earlier than one before it.\<close>

fun monotone_calls :: "millis \<Rightarrow> login_call list \<Rightarrow> bool" where
  "monotone_calls d [] \<longleftrightarrow> True"
| "monotone_calls d (c # cs) \<longleftrightarrow> d \<le> call_time c d \<and> monotone_calls (call_time c d) cs"

definition last_time :: "millis \<Rightarrow> login_call list \<Rightarrow> millis" where
  "last_time d cs = fold call_time cs d"

text \<open>
  The reference: how many failures of a username, newest first, follow each other within the window
  with no success between them.
\<close>

fun streak :: "string \<Rightarrow> millis \<Rightarrow> login_call list \<Rightarrow> nat" where
  "streak k now [] = 0"
| "streak k now (Failed u t # cs) =
     (if login_key u \<noteq> k then streak k now cs
      else if now - t < WINDOW_MS then Suc (streak k t cs) else 0)"
| "streak k now (Succeeded u # cs) = (if login_key u = k then 0 else streak k now cs)"
| "streak k now (Allows u t # cs) = streak k now cs"

text \<open>The last failure of a username since its last success.\<close>

fun last_failure :: "string \<Rightarrow> login_call list \<Rightarrow> millis option" where
  "last_failure k [] = None"
| "last_failure k (Failed u t # cs) = (if login_key u = k then Some t else last_failure k cs)"
| "last_failure k (Succeeded u # cs) = (if login_key u = k then None else last_failure k cs)"
| "last_failure k (Allows u t # cs) = last_failure k cs"

text \<open>
  A bucket tracks a username's history (newest first) at a time: it holds the streak and the time of the
  last failure, or there is none and the streak is over.
\<close>

definition tracks :: "string \<Rightarrow> login_call list \<Rightarrow> millis \<Rightarrow> bucket option \<Rightarrow> bool" where
  "tracks k h now e = (case e of
      None \<Rightarrow> streak k now h = 0
    | Some b \<Rightarrow> last_failure k h = Some (bk_last b) \<and> bk_failures b = min u32_max (streak k (bk_last b) h))"

lemma streak_later:
  "last_failure k h = Some t \<Longrightarrow> streak k now h = (if now - t < WINDOW_MS then streak k t h else 0)"
  by (induction k h rule: last_failure.induct) (auto simp: WINDOW_MS_def split: if_splits)

lemma streak_none: "last_failure k h = None \<Longrightarrow> streak k now h = 0"
  by (induction k h rule: last_failure.induct) (auto split: if_splits)

lemma streak_pos: "last_failure k h = Some t \<Longrightarrow> 0 < streak k t h"
  by (induction k h rule: last_failure.induct) (auto simp: WINDOW_MS_def split: if_splits)

lemma streak_over:
  assumes "streak k t h = 0" "t \<le> now"
  shows "streak k now h = 0"
proof (cases "last_failure k h")
  case (Some s)
  then show ?thesis
    using assms streak_later [OF Some, of t] streak_later [OF Some, of now] streak_pos [OF Some] by (auto split: if_splits)
qed (simp add: streak_none)

lemma tracks_later: "tracks k h t e \<Longrightarrow> t \<le> now \<Longrightarrow> tracks k h now e"
  by (auto simp: tracks_def streak_over split: option.splits)

lemma tracks_streak:
  "tracks k h now e \<Longrightarrow>
     min u32_max (streak k now h) =
       (case e of None \<Rightarrow> 0 | Some b \<Rightarrow> if bucket_expired b now then 0 else bk_failures b)"
  using streak_later [of k h "bk_last (the e)" now] by (cases e) (auto simp: tracks_def bucket_expired_def)

text \<open>Dropping an expired bucket loses nothing.\<close>

definition live_bucket :: "millis \<Rightarrow> bucket option \<Rightarrow> bucket option" where
  "live_bucket now e = (case e of None \<Rightarrow> None | Some b \<Rightarrow> if bucket_expired b now then None else Some b)"

lemma tracks_live: "tracks k h now e \<Longrightarrow> tracks k h now (live_bucket now e)"
  using streak_later [of k h "bk_last (the e)" now] by (cases e) (auto simp: tracks_def live_bucket_def bucket_expired_def)

lemma tracks_other [simp]:
  "tracks k (Allows u t # h) now e = tracks k h now e"
  "login_key u \<noteq> k \<Longrightarrow> tracks k (Failed u t # h) now e = tracks k h now e"
  "login_key u \<noteq> k \<Longrightarrow> tracks k (Succeeded u # h) now e = tracks k h now e"
  by (simp_all add: tracks_def split: option.splits)

lemma allows_entry: "snd (allows m u t) k = (if k = login_key u then live_bucket t (m k) else m k)"
  by (cases "m (login_key u)") (auto simp: allows_def live_bucket_def)

lemma failed_entry:
  "failed m u t k =
     (if k = login_key u
      then Some \<lparr> bk_failures = sat_add u32_max (case live_bucket t (m k) of None \<Rightarrow> 0 | Some b \<Rightarrow> bk_failures b) 1, bk_last = t \<rparr>
      else live_bucket t (m k))"
  by (cases "m k") (auto simp: failed_def live_bucket_def map_retain_def Let_def)

lemma tracks_step:
  assumes "tracks k h d (m k)" "d \<le> call_time c d"
  shows "tracks k (c # h) (call_time c d) (login_step c m k)"
proof (cases c)
  case (Allows u t)
  then show ?thesis
    using tracks_later [OF assms] tracks_live [OF tracks_later [OF assms]]
    by (cases "k = login_key u") (simp_all add: allows_entry)
next
  case (Failed u t)
  have t: "tracks k h t (m k)" using tracks_later [OF assms] Failed by simp
  show ?thesis
  proof (cases "login_key u = k")
    case True
    have "min u32_max (streak k t h) = (case live_bucket t (m k) of None \<Rightarrow> 0 | Some b \<Rightarrow> bk_failures b)"
      using tracks_streak [OF t] by (simp add: live_bucket_def split: option.split)
    then have "failed m u t k = Some \<lparr> bk_failures = min u32_max (Suc (min u32_max (streak k t h))), bk_last = t \<rparr>"
      using True by (simp add: failed_entry sat_add_def)
    then show ?thesis using Failed True by (simp add: tracks_def WINDOW_MS_def)
  next
    case False
    then show ?thesis using Failed tracks_live [OF t] by (simp add: failed_entry)
  qed
next
  case (Succeeded u)
  show ?thesis
  proof (cases "login_key u = k")
    case True
    then show ?thesis using Succeeded by (simp add: succeeded_def tracks_def)
  next
    case False
    then show ?thesis using Succeeded assms by (simp add: succeeded_def)
  qed
qed

lemma tracks_run:
  assumes "monotone_calls d cs" "tracks k h d (m k)"
  shows "tracks k (rev cs @ h) (last_time d cs) (fold login_step cs m k)"
  using assms
proof (induction cs arbitrary: d h m)
  case (Cons c cs)
  have "tracks k (c # h) (call_time c d) (login_step c m k)"
    using Cons.prems by (intro tracks_step) auto
  then show ?case
    using Cons.IH [of "call_time c d" "c # h" "login_step c m"] Cons.prems by (simp add: last_time_def)
qed (simp add: last_time_def)

text \<open>
  C24: The sign-in throttle counts streaks. Whatever calls were made before, in whatever order and for
  whichever usernames, as long as the readings they carry do not step back from call to call (a route reads the
  clock before it hashes and passes that reading to \<open>failed\<close>): a username is refused exactly when it has at least eight failures of which each, and the present attempt, came within five minutes of the one
  before, with no success in between. Upper and lower case share the count.
\<close>

theorem login_throttle_counts_streaks:
  assumes "monotone_calls 0 cs" "last_time 0 cs \<le> now"
  shows "fst (allows (fold login_step cs Map.empty) u now) \<longleftrightarrow> streak (login_key u) now (rev cs) < MAX_FAILURES"
proof -
  have "tracks (login_key u) (rev cs) now (fold login_step cs Map.empty (login_key u))"
    using tracks_later [OF tracks_run [OF assms(1), of _ "[]" Map.empty] assms(2)] by (simp add: tracks_def)
  from tracks_streak [OF this] show ?thesis
    by (auto simp: allows_def Let_def MAX_FAILURES_def min_def split: option.splits if_splits)
qed

theorem login_throttle_counts_streaks_witness:
  "monotone_calls 0 (map (Failed ''Alice'') [0, 1, 2, 3, 4, 5, 6, 7]) \<and>
   last_time 0 (map (Failed ''Alice'') [0, 1, 2, 3, 4, 5, 6, 7]) \<le> 10 \<and>
   \<not> fst (allows (fold login_step (map (Failed ''Alice'') [0, 1, 2, 3, 4, 5, 6, 7]) Map.empty) ''alice'' 10) \<and>
   fst (allows (fold login_step (map (Failed ''Alice'') [0, 1, 2, 3, 4, 5, 6, 7]) Map.empty) ''bob'' 10)"
proof -
  let ?cs = "map (Failed ''Alice'') [0, 1, 2, 3, 4, 5, 6, 7]"
  have h: "monotone_calls 0 ?cs" "last_time 0 ?cs \<le> 10" by (simp_all add: last_time_def)
  have "login_key ''Alice'' = login_key ''alice''" "login_key ''Alice'' \<noteq> login_key ''bob''"
    by (simp_all add: login_key_def to_ascii_lowercase_def ascii_lower_def of_char_def char_of_def bit_0)
  then have "streak (login_key ''alice'') 10 (rev ?cs) = 8" "streak (login_key ''bob'') 10 (rev ?cs) = 0"
    by (simp_all add: WINDOW_MS_def)
  then show ?thesis
    using h login_throttle_counts_streaks [OF h, of "''alice''"] login_throttle_counts_streaks [OF h, of "''bob''"]
    by (simp add: MAX_FAILURES_def)
qed


section \<open>Rates\<close>

text \<open>
  How many attempts of an interval \<open>[t, t + WINDOW_MS)\<close> a window has let through. A window opened before
  the interval leaves at most \<open>M\<close> to it, the next one at most \<open>M\<close> more, and the one after opens too late.
  \<open>now\<close> is the time of the latest call, \<open>c\<close> the attempts let through so far.
\<close>

definition inside :: "millis \<Rightarrow> millis \<Rightarrow> bool" where
  "inside t at \<longleftrightarrow> t \<le> at \<and> at < t + WINDOW_MS"

definition rate_ok :: "nat \<Rightarrow> millis \<Rightarrow> attempt_window option \<Rightarrow> millis \<Rightarrow> nat \<Rightarrow> bool" where
  "rate_ok M t e now c \<longleftrightarrow> c \<le> 2 * M \<and> (now < t \<longrightarrow> c = 0) \<and>
     (case e of
        None \<Rightarrow> c \<le> M \<or> t + WINDOW_MS \<le> now
      | Some w \<Rightarrow> aw_started w \<le> now \<and> (aw_started w < t \<longrightarrow> c \<le> min (aw_attempts w) M) \<and>
          (inside t (aw_started w) \<longrightarrow> c \<le> M + min (aw_attempts w) M))"

lemma rate_ok_None [simp]: "rate_ok M t None now 0"
  by (simp add: rate_ok_def)

lemma rate_ok_less: "rate_ok M t e now c \<Longrightarrow> c' \<le> c \<Longrightarrow> rate_ok M t e now c'"
  by (auto simp: rate_ok_def split: option.splits)

lemma rate_ok_later: "rate_ok M t e L c \<Longrightarrow> L \<le> now \<Longrightarrow> rate_ok M t e now c"
  by (auto simp: rate_ok_def split: option.splits)

definition live_window :: "millis \<Rightarrow> attempt_window option \<Rightarrow> attempt_window option" where
  "live_window now e = (case e of None \<Rightarrow> None | Some w \<Rightarrow> if aw_live now w then Some w else None)"

lemma rate_ok_live: "rate_ok M t e now c \<Longrightarrow> rate_ok M t (live_window now e) now c"
  by (auto simp: rate_ok_def live_window_def aw_live_def inside_def split: option.splits)

lemma rate_ok_take:
  assumes "rate_ok M t e L c" "L \<le> now" "0 < M" "M < u32_max" "take_window e now M = (ok, e')"
  shows "rate_ok M t e' now (c + of_bool (ok \<and> inside t now))"
proof (cases "live_window now e")
  case None
  then have "e' = Some \<lparr> aw_started = now, aw_attempts = 1 \<rparr>" "ok"
    using assms(5) by (auto simp: live_window_def take_window_def split: option.splits if_splits)
  moreover have "rate_ok M t None now c"
    using rate_ok_live [OF rate_ok_later [OF assms(1,2)]] None by simp
  ultimately show ?thesis
    using assms(3) by (auto simp: rate_ok_def inside_def)
next
  case (Some w)
  then have e: "e = Some w" "aw_live now w" by (auto simp: live_window_def split: option.splits if_splits)
  have r: "ok \<longleftrightarrow> Suc (aw_attempts w) \<le> M" "e' = Some (w\<lparr> aw_attempts := min u32_max (Suc (aw_attempts w)) \<rparr>)"
    using assms(4,5) e by (auto simp: take_window_def sat_add_def)
  show ?thesis
    using rate_ok_later [OF assms(1,2)] assms(4) e r by (auto simp: rate_ok_def inside_def aw_live_def)
qed

lemma sign_up_take_window: "sign_up_take e now = take_window e now MAX_SIGN_UPS"
  by (auto simp: sign_up_take_def take_window_def Let_def split: option.splits)

lemma gate_take_window:
  assumes "gate_take g origin now = (ok, g')"
  obtains gok cell where "take_window (ag_global g) now MAX_GLOBAL_ATTEMPTS = (gok, cell)" "ag_global g' = cell"
    "ag_permits g' = ag_permits g"
    "\<not> gok \<Longrightarrow> \<not> ok \<and> ag_origins g' = ag_origins g"
    "gok \<Longrightarrow> take_window (ag_origins g origin) now MAX_ORIGIN_ATTEMPTS = (ok, ag_origins g' origin)"
    "\<And>k. gok \<Longrightarrow> k \<noteq> origin \<Longrightarrow> ag_origins g' k = live_window now (ag_origins g k)"
proof -
  obtain gok cell where w: "take_window (ag_global g) now MAX_GLOBAL_ATTEMPTS = (gok, cell)"
    by (metis surj_pair)
  have o: "take_window (ag_origins g origin) now MAX_ORIGIN_ATTEMPTS = (ok, ag_origins g' origin)" if gok
    using assms w that
    by (cases "ag_origins g origin")
      (auto simp: gate_take_def take_window_def map_retain_def Let_def sat_add_def MAX_ORIGIN_ATTEMPTS_def split: if_splits)
  show thesis
    using that [OF w] assms w o
    by (auto simp: gate_take_def map_retain_def live_window_def Let_def split: if_splits option.splits)
qed


text \<open>The gate as a whole: one count for all origins, one for the origin \<open>k\<close>.\<close>

definition gate_rate :: "millis \<Rightarrow> ip_addr \<Rightarrow> millis \<Rightarrow> auth_gate \<Rightarrow> nat \<Rightarrow> nat \<Rightarrow> bool" where
  "gate_rate t k now g c ck \<longleftrightarrow>
     rate_ok MAX_GLOBAL_ATTEMPTS t (ag_global g) now c \<and> rate_ok MAX_ORIGIN_ATTEMPTS t (ag_origins g k) now ck"

lemma gate_rate_later: "gate_rate t k L g c ck \<Longrightarrow> L \<le> now \<Longrightarrow> gate_rate t k now g c ck"
  by (auto simp: gate_rate_def intro: rate_ok_later)

lemma gate_rate_take:
  assumes "gate_rate t k L g c ck" "L \<le> now" "gate_take g origin now = (ok, g')"
  shows "gate_rate t k now g' (c + of_bool (ok \<and> inside t now)) (ck + of_bool (ok \<and> origin = k \<and> inside t now))"
proof -
  have pos: "0 < MAX_GLOBAL_ATTEMPTS" "MAX_GLOBAL_ATTEMPTS < u32_max" "0 < MAX_ORIGIN_ATTEMPTS" "MAX_ORIGIN_ATTEMPTS < u32_max"
    by (simp_all add: throttle_limits)
  have gl: "rate_ok MAX_GLOBAL_ATTEMPTS t (ag_global g) L c" and og: "rate_ok MAX_ORIGIN_ATTEMPTS t (ag_origins g k) L ck"
    using assms(1) by (simp_all add: gate_rate_def)
  from assms(3) show ?thesis
  proof (rule gate_take_window)
    fix gok cell
    assume w: "take_window (ag_global g) now MAX_GLOBAL_ATTEMPTS = (gok, cell)" "ag_global g' = cell"
      and no: "\<not> gok \<Longrightarrow> \<not> ok \<and> ag_origins g' = ag_origins g"
      and own: "gok \<Longrightarrow> take_window (ag_origins g origin) now MAX_ORIGIN_ATTEMPTS = (ok, ag_origins g' origin)"
      and others: "\<And>k. gok \<Longrightarrow> k \<noteq> origin \<Longrightarrow> ag_origins g' k = live_window now (ag_origins g k)"
    have "rate_ok MAX_GLOBAL_ATTEMPTS t (ag_global g') now (c + of_bool (gok \<and> inside t now))"
      using rate_ok_take [OF gl assms(2) pos(1,2) w(1)] w(2) by simp
    then have "rate_ok MAX_GLOBAL_ATTEMPTS t (ag_global g') now (c + of_bool (ok \<and> inside t now))"
      using no by (elim rate_ok_less) auto
    moreover have "rate_ok MAX_ORIGIN_ATTEMPTS t (ag_origins g' k) now (ck + of_bool (ok \<and> origin = k \<and> inside t now))"
    proof (cases "gok \<and> origin = k")
      case True
      then show ?thesis using rate_ok_take [OF og assms(2) pos(3,4)] own by auto
    next
      case False
      then show ?thesis
        using rate_ok_later [OF og assms(2)] rate_ok_live [OF rate_ok_later [OF og assms(2)]] no others [of k]
        by (cases gok) auto
    qed
    ultimately show ?thesis by (simp add: gate_rate_def)
  qed
qed

section \<open>The size of the origin map\<close>

text \<open>
  Origins that started in the current global window are at most its admitted attempts; the others
  started in the window before it, and are gone by the time the next one opens.
\<close>

definition started_in :: "(attempt_window \<Rightarrow> bool) \<Rightarrow> (ip_addr \<rightharpoonup> attempt_window) \<Rightarrow> ip_addr set" where
  "started_in P m = {k. \<exists>w. m k = Some w \<and> P w}"

definition origins_ok :: "auth_gate \<Rightarrow> bool" where
  "origins_ok g \<longleftrightarrow> finite (dom (ag_origins g)) \<and>
     (case ag_global g of
        None \<Rightarrow> ag_origins g = Map.empty
      | Some w \<Rightarrow>
          (\<forall>k v. ag_origins g k = Some v \<longrightarrow> aw_started v < aw_started w + WINDOW_MS) \<and>
          card (started_in (\<lambda>v. aw_started w \<le> aw_started v) (ag_origins g)) \<le> min (aw_attempts w) MAX_GLOBAL_ATTEMPTS \<and>
          card (started_in (\<lambda>v. aw_started v < aw_started w) (ag_origins g)) \<le> MAX_GLOBAL_ATTEMPTS)"

lemma started_in_finite: "finite (dom m) \<Longrightarrow> finite (started_in P m)"
  by (rule finite_subset [of _ "dom m"]) (auto simp: started_in_def)

lemma origins_ok_card: "origins_ok g \<Longrightarrow> card (dom (ag_origins g)) \<le> 2 * MAX_GLOBAL_ATTEMPTS"
proof (cases "ag_global g")
  case (Some w)
  assume ok: "origins_ok g"
  let ?m = "ag_origins g"
  have "dom ?m = started_in (\<lambda>v. aw_started w \<le> aw_started v) ?m \<union> started_in (\<lambda>v. aw_started v < aw_started w) ?m"
    by (auto simp: started_in_def)
  then have "card (dom ?m) \<le> card (started_in (\<lambda>v. aw_started w \<le> aw_started v) ?m)
      + card (started_in (\<lambda>v. aw_started v < aw_started w) ?m)"
    by (metis card_Un_le)
  then show ?thesis using ok Some by (auto simp: origins_ok_def)
qed (auto simp: origins_ok_def)

lemma card_insert_le': "finite B \<Longrightarrow> A \<subseteq> insert x B \<Longrightarrow> card A \<le> Suc (card B)"
  by (metis card_insert_le_m1 card_mono finite_insert le_SucI card_insert_if order_trans)

text \<open>An entry after an admitted call is new, or was there and live before it.\<close>

definition entry_from :: "(ip_addr \<rightharpoonup> attempt_window) \<Rightarrow> ip_addr \<Rightarrow> millis \<Rightarrow> ip_addr \<Rightarrow> attempt_window \<Rightarrow> bool" where
  "entry_from m origin now k v' \<longleftrightarrow> k = origin \<and> aw_started v' = now \<or>
     (\<exists>v. m k = Some v \<and> aw_live now v \<and> aw_started v' = aw_started v)"

lemma entry_from_finite: "finite (dom m) \<Longrightarrow> (\<And>k v. m' k = Some v \<Longrightarrow> entry_from m origin now k v) \<Longrightarrow> finite (dom m')"
  by (rule finite_subset [of _ "insert origin (dom m)"]) (fastforce simp: entry_from_def)+

lemma origins_fresh:
  assumes "origins_ok g" "live_window now (ag_global g) = None"
    and entry: "\<And>k v. m' k = Some v \<Longrightarrow> entry_from (ag_origins g) origin now k v"
  shows "\<forall>k v. m' k = Some v \<longrightarrow> aw_started v < now + WINDOW_MS"
    and "card (started_in (\<lambda>v. now \<le> aw_started v) m') \<le> 1"
    and "card (started_in (\<lambda>v. aw_started v < now) m') \<le> MAX_GLOBAL_ATTEMPTS"
proof -
  let ?m = "ag_origins g"
  have fin: "finite (dom ?m)" using assms(1) by (simp add: origins_ok_def)
  have old: "\<exists>w. ag_global g = Some w \<and> aw_started v < now \<and> (aw_live now v \<longrightarrow> aw_started w \<le> aw_started v)"
    if v: "?m k = Some v" for k v
  proof (cases "ag_global g")
    case (Some w)
    then have "\<not> aw_live now w" "aw_started v < aw_started w + WINDOW_MS"
      using assms(1,2) v by (auto simp: origins_ok_def live_window_def split: if_splits)
    then show ?thesis using Some by (auto simp: aw_live_def WINDOW_MS_def)
  qed (use assms(1) v in \<open>simp add: origins_ok_def\<close>)
  show "\<forall>k v. m' k = Some v \<longrightarrow> aw_started v < now + WINDOW_MS"
    using entry old by (fastforce simp: entry_from_def WINDOW_MS_def)
  have "started_in (\<lambda>v. now \<le> aw_started v) m' \<subseteq> {origin}"
    using entry old by (fastforce simp: started_in_def entry_from_def)
  then show "card (started_in (\<lambda>v. now \<le> aw_started v) m') \<le> 1"
    using card_mono [of "{origin}"] by fastforce
  show "card (started_in (\<lambda>v. aw_started v < now) m') \<le> MAX_GLOBAL_ATTEMPTS"
  proof (cases "ag_global g")
    case (Some w)
    have "started_in (\<lambda>v. aw_started v < now) m' \<subseteq> started_in (\<lambda>v. aw_started w \<le> aw_started v) ?m"
      using entry old Some by (fastforce simp: started_in_def entry_from_def)
    from card_mono [OF started_in_finite [OF fin] this] show ?thesis
      using assms(1) Some by (simp add: origins_ok_def)
  next
    case None
    then have "started_in (\<lambda>v. aw_started v < now) m' = {}"
      using entry assms(1) by (fastforce simp: started_in_def origins_ok_def entry_from_def)
    then show ?thesis by simp
  qed
qed

lemma origins_same:
  assumes "origins_ok g" "ag_global g = Some s" "aw_live now s" "aw_started s \<le> now"
    and entry: "\<And>k v. m' k = Some v \<Longrightarrow> entry_from (ag_origins g) origin now k v"
  shows "\<forall>k v. m' k = Some v \<longrightarrow> aw_started v < aw_started s + WINDOW_MS"
    and "card (started_in (\<lambda>v. aw_started s \<le> aw_started v) m') \<le> Suc (aw_attempts s)"
    and "card (started_in (\<lambda>v. aw_started v < aw_started s) m') \<le> MAX_GLOBAL_ATTEMPTS"
proof -
  let ?m = "ag_origins g"
  have fin: "finite (dom ?m)" using assms(1) by (simp add: origins_ok_def)
  have inv: "\<And>k v. ?m k = Some v \<Longrightarrow> aw_started v < aw_started s + WINDOW_MS"
    "card (started_in (\<lambda>v. aw_started s \<le> aw_started v) ?m) \<le> aw_attempts s"
    "card (started_in (\<lambda>v. aw_started v < aw_started s) ?m) \<le> MAX_GLOBAL_ATTEMPTS"
    using assms(1,2) by (auto simp: origins_ok_def)
  have now: "now < aw_started s + WINDOW_MS" using assms(3,4) by (simp add: aw_live_def)
  then show "\<forall>k v. m' k = Some v \<longrightarrow> aw_started v < aw_started s + WINDOW_MS"
    using entry inv(1) by (fastforce simp: entry_from_def)
  have "started_in (\<lambda>v. aw_started s \<le> aw_started v) m' \<subseteq> insert origin (started_in (\<lambda>v. aw_started s \<le> aw_started v) ?m)"
    using entry by (fastforce simp: started_in_def entry_from_def)
  from card_insert_le' [OF started_in_finite [OF fin] this]
  show "card (started_in (\<lambda>v. aw_started s \<le> aw_started v) m') \<le> Suc (aw_attempts s)" using inv(2) by simp
  have "started_in (\<lambda>v. aw_started v < aw_started s) m' \<subseteq> started_in (\<lambda>v. aw_started v < aw_started s) ?m"
    using entry assms(4) by (fastforce simp: started_in_def entry_from_def)
  from card_mono [OF started_in_finite [OF fin] this]
  show "card (started_in (\<lambda>v. aw_started v < aw_started s) m') \<le> MAX_GLOBAL_ATTEMPTS" using inv(3) by simp
qed

lemma origins_ok_take:
  assumes "origins_ok g" "gate_take g origin now = (ok, g')" "\<And>w. ag_global g = Some w \<Longrightarrow> aw_started w \<le> now"
  shows "origins_ok g'"
  using assms(2)
proof (rule gate_take_window)
  fix gok cell
  let ?m = "ag_origins g" and ?m' = "ag_origins g'"
  assume w: "take_window (ag_global g) now MAX_GLOBAL_ATTEMPTS = (gok, cell)" "ag_global g' = cell"
    and no: "\<not> gok \<Longrightarrow> \<not> ok \<and> ?m' = ?m"
    and own: "gok \<Longrightarrow> take_window (?m origin) now MAX_ORIGIN_ATTEMPTS = (ok, ?m' origin)"
    and others: "\<And>k. gok \<Longrightarrow> k \<noteq> origin \<Longrightarrow> ?m' k = live_window now (?m k)"
  have fin: "finite (dom ?m)" using assms(1) by (simp add: origins_ok_def)
  have entry: "entry_from ?m origin now k v'" if gok "?m' k = Some v'" for k v'
    using that own others [of k]
    by (cases "k = origin")
      (auto simp: entry_from_def live_window_def take_window_def Let_def split: option.splits if_splits)
  have fin': "finite (dom ?m')" if gok using entry_from_finite [OF fin entry] that by blast
  show ?thesis
  proof (cases "live_window now (ag_global g)")
    case None
    then have gok: gok and g': "ag_global g' = Some \<lparr> aw_started = now, aw_attempts = 1 \<rparr>"
      using w by (auto simp: live_window_def take_window_def split: option.splits if_splits)
    show ?thesis
      using origins_fresh [OF assms(1) None entry [OF gok]] g' fin' [OF gok] by (simp add: origins_ok_def throttle_limits)
  next
    case (Some s)
    then have g: "ag_global g = Some s" "aw_live now s" by (auto simp: live_window_def split: option.splits if_splits)
    have g': "gok \<longleftrightarrow> Suc (aw_attempts s) \<le> MAX_GLOBAL_ATTEMPTS"
      "ag_global g' = Some (s\<lparr> aw_attempts := min u32_max (Suc (aw_attempts s)) \<rparr>)"
      using w g by (auto simp: take_window_def sat_add_def MAX_GLOBAL_ATTEMPTS_def)
    show ?thesis
    proof (cases gok)
      case True
      show ?thesis
        using origins_same [OF assms(1) g assms(3) [OF g(1)] entry [OF True]] g' True fin' [OF True]
        by (auto simp: origins_ok_def throttle_limits)
    next
      case False
      then show ?thesis using no g' fin assms(1) g(1) by (auto simp: origins_ok_def throttle_limits)
    qed
  qed
qed

lemma origins_ok_new: "origins_ok (new_gate n)"
  by (simp add: origins_ok_def new_gate_def)

end
