(* ===== verification/Streams.thy ===== *)
theory Streams
  imports Throttle "HOL-Library.Multiset"
begin

text \<open>
  The limit on open event streams (\<open>SseGate\<close> and \<open>SsePermit\<close> of \<open>crates/app-web/src/throttle.rs\<close>). Its
  total is an atomic counter and its per-origin counts are behind a mutex, so one request is several
  atomic actions, and those of different requests interleave. The step relation has one step per atomic
  action; \<open>sse_enter\<close> is a request that runs without interruption. The counter is a natural number: the
  invariant shows that it is positive before every decrement.
\<close>

section \<open>The atomic actions\<close>

record sse_gate =
  sg_total :: nat
  sg_origins :: "ip_addr \<rightharpoonup> nat"
  sg_max_total :: nat
  sg_max_per_origin :: nat

definition new_sse_gate :: sse_gate where
  "new_sse_gate = \<lparr> sg_total = 0, sg_origins = Map.empty, sg_max_total = 256, sg_max_per_origin = 8 \<rparr>"

text \<open>\<open>fetch_add\<close>, with whether the previous value was at the limit; and \<open>fetch_sub\<close>.\<close>

definition count_in :: "sse_gate \<Rightarrow> bool \<times> sse_gate" where
  "count_in g = (sg_max_total g \<le> sg_total g, g\<lparr> sg_total := sg_total g + 1 \<rparr>)"

definition count_out :: "sse_gate \<Rightarrow> sse_gate" where
  "count_out g = g\<lparr> sg_total := sg_total g - 1 \<rparr>"

definition origin_count :: "sse_gate \<Rightarrow> ip_addr \<Rightarrow> nat" where
  "origin_count g origin = (case sg_origins g origin of None \<Rightarrow> 0 | Some n \<Rightarrow> n)"

text \<open>The critical section of \<open>enter\<close>: whether the origin is at its limit. \<open>or_default\<close> inserts a zero.\<close>

definition origin_in :: "sse_gate \<Rightarrow> ip_addr \<Rightarrow> bool \<times> sse_gate" where
  "origin_in g origin =
     (let n = origin_count g origin in
      if sg_max_per_origin g \<le> n then (True, g\<lparr> sg_origins := (sg_origins g)(origin \<mapsto> n) \<rparr>)
      else (False, g\<lparr> sg_origins := (sg_origins g)(origin \<mapsto> n + 1) \<rparr>))"

text \<open>The critical section of \<open>drop\<close>.\<close>

definition origin_out :: "sse_gate \<Rightarrow> ip_addr \<Rightarrow> sse_gate" where
  "origin_out g origin =
     (case sg_origins g origin of
        None \<Rightarrow> g
      | Some n \<Rightarrow> if n - 1 = 0 then g\<lparr> sg_origins := (sg_origins g)(origin := None) \<rparr>
                  else g\<lparr> sg_origins := (sg_origins g)(origin \<mapsto> n - 1) \<rparr>)"

definition sse_enter :: "sse_gate \<Rightarrow> ip_addr \<Rightarrow> bool \<times> sse_gate" where
  "sse_enter g origin =
     (let (full, g) = count_in g in
      if full then (False, count_out g)
      else let (over, g) = origin_in g origin in
        if over then (False, count_out g) else (True, g))"

definition sse_drop :: "sse_gate \<Rightarrow> ip_addr \<Rightarrow> sse_gate" where
  "sse_drop g origin = origin_out (count_out g) origin"

section \<open>Interleaved requests\<close>

text \<open>
  Requests by where they are: refused and about to give their count back, counted and waiting for the
  lock, open, and closed but still to be taken out of their origin's count.
\<close>

record sse_system =
  ss_gate :: sse_gate
  ss_refused :: nat
  ss_checking :: "ip_addr multiset"
  ss_open :: "ip_addr multiset"
  ss_closing :: "ip_addr multiset"

definition sse_start :: sse_system where
  "sse_start = \<lparr> ss_gate = new_sse_gate, ss_refused = 0, ss_checking = {#}, ss_open = {#}, ss_closing = {#} \<rparr>"

inductive sse_step :: "sse_system \<Rightarrow> sse_system \<Rightarrow> bool" where
  full: "count_in (ss_gate S) = (True, g) \<Longrightarrow>
    sse_step S (S\<lparr> ss_gate := g, ss_refused := ss_refused S + 1 \<rparr>)"
| counted: "count_in (ss_gate S) = (False, g) \<Longrightarrow>
    sse_step S (S\<lparr> ss_gate := g, ss_checking := add_mset origin (ss_checking S) \<rparr>)"
| over: "origin \<in># ss_checking S \<Longrightarrow> origin_in (ss_gate S) origin = (True, g) \<Longrightarrow>
    sse_step S (S\<lparr> ss_gate := g, ss_checking := ss_checking S - {#origin#}, ss_refused := ss_refused S + 1 \<rparr>)"
| entered: "origin \<in># ss_checking S \<Longrightarrow> origin_in (ss_gate S) origin = (False, g) \<Longrightarrow>
    sse_step S (S\<lparr> ss_gate := g, ss_checking := ss_checking S - {#origin#}, ss_open := add_mset origin (ss_open S) \<rparr>)"
| undone: "0 < ss_refused S \<Longrightarrow>
    sse_step S (S\<lparr> ss_gate := count_out (ss_gate S), ss_refused := ss_refused S - 1 \<rparr>)"
| closed: "origin \<in># ss_open S \<Longrightarrow>
    sse_step S (S\<lparr> ss_gate := count_out (ss_gate S), ss_open := ss_open S - {#origin#},
                  ss_closing := add_mset origin (ss_closing S) \<rparr>)"
| released: "origin \<in># ss_closing S \<Longrightarrow>
    sse_step S (S\<lparr> ss_gate := origin_out (ss_gate S) origin, ss_closing := ss_closing S - {#origin#} \<rparr>)"

abbreviation sse_reachable :: "sse_system \<Rightarrow> bool" where
  "sse_reachable \<equiv> sse_step\<^sup>*\<^sup>* sse_start"

section \<open>The counts are exact\<close>

definition sse_ok :: "sse_system \<Rightarrow> bool" where
  "sse_ok S \<longleftrightarrow>
     sg_max_total (ss_gate S) = 256 \<and> sg_max_per_origin (ss_gate S) = 8 \<and>
     sg_total (ss_gate S) = ss_refused S + size (ss_checking S) + size (ss_open S) \<and>
     size (ss_checking S) + size (ss_open S) \<le> 256 \<and>
     (\<forall>k. origin_count (ss_gate S) k = count (ss_open S) k + count (ss_closing S) k) \<and>
     (\<forall>k. origin_count (ss_gate S) k \<le> 8) \<and>
     (\<forall>k. sg_origins (ss_gate S) k \<noteq> Some 0)"

lemma origin_count_upd:
  "origin_count (g\<lparr> sg_total := n \<rparr>) k = origin_count g k"
  "origin_count (g\<lparr> sg_origins := (sg_origins g)(origin \<mapsto> m) \<rparr>) k = (if k = origin then m else origin_count g k)"
  "origin_count (g\<lparr> sg_origins := (sg_origins g)(origin := None) \<rparr>) k = (if k = origin then 0 else origin_count g k)"
  by (simp_all add: origin_count_def)

lemma origin_in_entered:
  assumes "origin_in g origin = (False, g')"
  shows "sg_total g' = sg_total g" "sg_max_total g' = sg_max_total g" "sg_max_per_origin g' = sg_max_per_origin g"
    and "origin_count g' k = origin_count g k + of_bool (k = origin)" "origin_count g origin < sg_max_per_origin g"
    and "(\<forall>k. sg_origins g k \<noteq> Some 0) \<Longrightarrow> sg_origins g' k \<noteq> Some 0"
  using assms by (auto simp: origin_in_def Let_def origin_count_upd split: if_splits)

lemma origin_in_over:
  assumes "origin_in g origin = (True, g')" "0 < sg_max_per_origin g" "\<forall>k. sg_origins g k \<noteq> Some 0"
  shows "g' = g"
proof -
  have "sg_max_per_origin g \<le> origin_count g origin"
    "g' = g\<lparr> sg_origins := (sg_origins g)(origin \<mapsto> origin_count g origin) \<rparr>"
    using assms(1) by (auto simp: origin_in_def Let_def split: if_splits)
  moreover from this obtain n where "sg_origins g origin = Some n" "origin_count g origin = n"
    using assms(2) by (auto simp: origin_count_def split: option.splits)
  ultimately show ?thesis by (simp add: map_upd_triv)
qed

lemma origin_out_count:
  assumes "0 < origin_count g origin" "\<forall>k. sg_origins g k \<noteq> Some 0"
  shows "sg_total (origin_out g origin) = sg_total g" "sg_max_total (origin_out g origin) = sg_max_total g"
    and "sg_max_per_origin (origin_out g origin) = sg_max_per_origin g"
    and "origin_count (origin_out g origin) k = origin_count g k - of_bool (k = origin)"
    and "sg_origins (origin_out g origin) k \<noteq> Some 0"
proof -
  obtain n where n: "sg_origins g origin = Some n" "origin_count g origin = n" "0 < n"
    using assms(1) by (auto simp: origin_count_def split: option.splits)
  then show "sg_total (origin_out g origin) = sg_total g" "sg_max_total (origin_out g origin) = sg_max_total g"
    "sg_max_per_origin (origin_out g origin) = sg_max_per_origin g"
    "origin_count (origin_out g origin) k = origin_count g k - of_bool (k = origin)"
    "sg_origins (origin_out g origin) k \<noteq> Some 0"
    using assms(2) by (auto simp: origin_out_def origin_count_upd)
qed

lemma sse_ok_step: "sse_step S S' \<Longrightarrow> sse_ok S \<Longrightarrow> sse_ok S'"
proof (induction rule: sse_step.induct)
  case (over origin S g)
  then have "g = ss_gate S" by (intro origin_in_over) (auto simp: sse_ok_def)
  then show ?case using over size_Suc_Diff1 [OF over(1)] by (auto simp: sse_ok_def simp del: size_Suc_Diff1)
next
  case (entered origin S g)
  show ?case
    using entered size_Suc_Diff1 [OF entered(1)] origin_in_entered [OF entered(2)]
    by (auto simp: sse_ok_def simp del: size_Suc_Diff1)
next
  case (closed origin S)
  have "0 < count (ss_open S) origin" using closed(1) by simp
  then show ?case
    using closed(2) size_Suc_Diff1 [OF closed(1)]
    by (auto simp: sse_ok_def count_out_def origin_count_upd simp del: size_Suc_Diff1)
next
  case (released origin S)
  have "0 < origin_count (ss_gate S) origin" "\<forall>k. sg_origins (ss_gate S) k \<noteq> Some 0"
    using released by (auto simp: sse_ok_def)
  then show ?case
    using released origin_out_count [of "ss_gate S" origin] by (auto simp: sse_ok_def intro: order_trans [OF diff_le_self])
qed (auto simp: sse_ok_def count_in_def count_out_def origin_count_upd)

lemma sse_ok_start: "sse_ok sse_start"
  by (simp add: sse_ok_def sse_start_def new_sse_gate_def origin_count_def)

lemma sse_ok_reachable: "sse_reachable S \<Longrightarrow> sse_ok S"
  by (induction rule: rtranclp_induct) (auto intro: sse_ok_step sse_ok_start)

text \<open>
  C25: However the requests of all clients interleave, at most 256 event streams are open and at most
  eight of one origin; a request that found the gate full is refused without ever being open; and once
  every request has finished, the gate is as it was at the start: no count leaks.
\<close>

theorem sse_gate_limits:
  assumes "sse_reachable S"
  shows "size (ss_open S) \<le> 256 \<and> count (ss_open S) k \<le> 8
    \<and> (ss_refused S = 0 \<and> ss_checking S = {#} \<and> ss_open S = {#} \<and> ss_closing S = {#} \<longrightarrow> ss_gate S = new_sse_gate)"
proof -
  note ok = sse_ok_reachable [OF assms]
  have bounds: "size (ss_open S) \<le> 256" using ok by (simp add: sse_ok_def)
  have "count (ss_open S) k + count (ss_closing S) k \<le> 8" using ok unfolding sse_ok_def by metis
  moreover have "ss_gate S = new_sse_gate"
    if q: "ss_refused S = 0" "ss_checking S = {#}" "ss_open S = {#}" "ss_closing S = {#}"
  proof -
    have "sg_origins (ss_gate S) j = None" for j
    proof -
      have "origin_count (ss_gate S) j = 0" "sg_origins (ss_gate S) j \<noteq> Some 0" using ok q by (simp_all add: sse_ok_def)
      then show ?thesis by (cases "sg_origins (ss_gate S) j") (auto simp: origin_count_def)
    qed
    then have "sg_origins (ss_gate S) = Map.empty" by auto
    moreover have "sg_total (ss_gate S) = 0" "sg_max_total (ss_gate S) = 256" "sg_max_per_origin (ss_gate S) = 8"
      using ok q by (simp_all add: sse_ok_def)
    ultimately show ?thesis by (simp add: new_sse_gate_def)
  qed
  ultimately show ?thesis using bounds by auto
qed

text \<open>A stream that opens, and closes.\<close>

lemma demo_stream_open:
  "sse_reachable (sse_start\<lparr> ss_gate := snd (sse_enter new_sse_gate (V4 1)), ss_open := {#V4 1#} \<rparr>)"
proof -
  have c: "count_in (ss_gate sse_start) = (False, new_sse_gate\<lparr> sg_total := 1 \<rparr>)"
    by (simp add: sse_start_def new_sse_gate_def count_in_def)
  let ?S = "sse_start\<lparr> ss_gate := new_sse_gate\<lparr> sg_total := 1 \<rparr>, ss_checking := {#V4 1#} \<rparr>"
  have s1: "sse_step sse_start ?S"
    using sse_step.counted [OF c, of "V4 1"] by (simp add: sse_start_def)
  have o: "origin_in (ss_gate ?S) (V4 1) = (False, snd (sse_enter new_sse_gate (V4 1)))"
    by (simp add: sse_enter_def count_in_def origin_in_def origin_count_def new_sse_gate_def)
  have "sse_step ?S (sse_start\<lparr> ss_gate := snd (sse_enter new_sse_gate (V4 1)), ss_open := {#V4 1#} \<rparr>)"
    using sse_step.entered [OF _ o] by (simp add: sse_start_def)
  then show ?thesis using s1 by (meson converse_rtranclp_into_rtranclp rtranclp.rtrancl_refl)
qed

theorem sse_gate_limits_witness:
  "sse_reachable (sse_start\<lparr> ss_gate := snd (sse_enter new_sse_gate (V4 1)), ss_open := {#V4 1#} \<rparr>) \<and>
   fst (sse_enter new_sse_gate (V4 1)) \<and>
   count (ss_open (sse_start\<lparr> ss_gate := snd (sse_enter new_sse_gate (V4 1)), ss_open := {#V4 1#} \<rparr>)) (V4 1) = 1 \<and>
   size (ss_open (sse_start\<lparr> ss_gate := snd (sse_enter new_sse_gate (V4 1)), ss_open := {#V4 1#} \<rparr>)) \<le> 256"
  using sse_gate_limits [OF demo_stream_open] demo_stream_open
  by (simp add: sse_enter_def count_in_def origin_in_def origin_count_def new_sse_gate_def)

end
