(* ===== verification/Accounts.thy ===== *)
theory Accounts
  imports Text_Forms Cluster_Time "HOL-Library.Monad_Syntax"
begin

text \<open>
  User accounts and sessions: the tables \<open>users\<close>, \<open>sessions\<close> and \<open>admin_bootstrap\<close> with the queries of
  \<open>crates/storage/src/sqlite/users.rs\<close> and \<open>sessions.rs\<close>, and \<open>AuthService\<close> of
  \<open>crates/app-core/src/auth.rs\<close>.

  A table is an ordered map or a map by its primary key. What the schema enforces is part of the
  queries: \<open>username\<close> is unique without regard to case (\<open>COLLATE NOCASE\<close>), \<open>AUTOINCREMENT\<close> never reuses an
  id, deleting a user deletes its sessions and clears its entry in \<open>admin_bootstrap\<close>, and a session needs
  an existing user. A query may also fail in the backend; that is a flag of the caller. The password
  hasher (argon2) and the token source are parameters. Texts of error messages are left out.
\<close>

section \<open>Data\<close>

datatype repo_error = Repo_NotFound | Repo_Conflict | Repo_Corrupt | Repo_Backend

datatype app_error = App_NotFound | App_Validation | App_Unauthorized | App_Forbidden | App_TooManyRequests
  | App_Conflict | App_Integration | App_Cluster | App_Repo repo_error | App_Internal

record user =
  u_id :: nat
  u_username :: string
  u_created_at :: millis
  u_is_admin :: bool

record credentials =
  cr_user :: user
  cr_password_hash :: string

record session =
  se_id :: string
  se_user_id :: nat
  se_created_at :: millis
  se_expires_at :: millis

text \<open>A row of \<open>users\<close>: its columns are those of \<open>Credentials\<close> and the webhook.\<close>

record user_row =
  ur_credentials :: credentials
  ur_webhook :: "string option"

record account_db =
  db_users :: "(nat, user_row) btree"
  db_user_seq :: nat
  db_sessions :: "string \<rightharpoonup> session"
  db_bootstrap :: "nat option option"

definition empty_db :: account_db where
  "empty_db = \<lparr> db_users = [], db_user_seq = 0, db_sessions = Map.empty, db_bootstrap = None \<rparr>"

definition SESSION_TTL_MS :: nat where
  "SESSION_TTL_MS = 7 * 24 * 60 * 60 * 1000"

definition session_is_expired :: "session \<Rightarrow> millis \<Rightarrow> bool" where
  "session_is_expired s now \<longleftrightarrow> se_expires_at s \<le> now"

abbreviation row_user :: "user_row \<Rightarrow> user" where
  "row_user r \<equiv> cr_user (ur_credentials r)"

section \<open>Validation\<close>

definition username_char :: "char \<Rightarrow> bool" where
  "username_char c \<longleftrightarrow> (let n = (of_char c :: nat) in
     (48 \<le> n \<and> n \<le> 57) \<or> (65 \<le> n \<and> n \<le> 90) \<or> (97 \<le> n \<and> n \<le> 122)) \<or> c = CHR ''_'' \<or> c = CHR ''-''"

definition validate_username :: "string \<Rightarrow> app_error option" where
  "validate_username u =
     (if \<not> (3 \<le> length u \<and> length u \<le> 32) then Some App_Validation
      else if \<not> list_all username_char u then Some App_Validation
      else None)"

definition validate_password :: "string \<Rightarrow> app_error option" where
  "validate_password p = (if \<not> (8 \<le> length p \<and> length p \<le> 256) then Some App_Validation else None)"

section \<open>The users table\<close>

definition same_name :: "string \<Rightarrow> user_row \<Rightarrow> bool" where
  "same_name username r \<longleftrightarrow> eq_ignore_ascii_case (u_username (row_user r)) username"

definition by_username :: "account_db \<Rightarrow> string \<Rightarrow> credentials option" where
  "by_username db username = map_option ur_credentials (find (same_name username) (bt_values (db_users db)))"

definition by_id :: "account_db \<Rightarrow> nat \<Rightarrow> user option" where
  "by_id db i = map_option row_user (bt_get (db_users db) i)"

text \<open>\<open>INSERT INTO users ... RETURNING\<close>, with the unique index and the sequence.\<close>

definition insert_user :: "account_db \<Rightarrow> string \<Rightarrow> string \<Rightarrow> millis \<Rightarrow> bool \<Rightarrow> repo_error + (user \<times> account_db)" where
  "insert_user db username hash now admin =
     (if by_username db username \<noteq> None then Inl Repo_Conflict
      else let i = db_user_seq db + 1;
               u = \<lparr> u_id = i, u_username = username, u_created_at = now, u_is_admin = admin \<rparr> in
        Inr (u, db\<lparr> db_users := bt_insert i \<lparr> ur_credentials = \<lparr> cr_user = u, cr_password_hash = hash \<rparr>,
                                              ur_webhook = None \<rparr> (db_users db),
                    db_user_seq := i \<rparr>))"

definition create_user :: "account_db \<Rightarrow> string \<Rightarrow> string \<Rightarrow> millis \<Rightarrow> repo_error + (user \<times> account_db)" where
  "create_user db username hash now = insert_user db username hash now False"

text \<open>
  The transaction of \<open>bootstrap_admin\<close>: a database that already has an administrator is marked first;
  the mark, once there, stays.
\<close>

definition first_admin :: "account_db \<Rightarrow> nat option" where
  "first_admin db = map_option (u_id \<circ> row_user) (find (u_is_admin \<circ> row_user) (bt_values (db_users db)))"

definition bootstrap_admin ::
    "account_db \<Rightarrow> string \<Rightarrow> string \<Rightarrow> millis \<Rightarrow> repo_error + (user option \<times> account_db)" where
  "bootstrap_admin db username hash now =
     (let db1 = (case (db_bootstrap db, first_admin db) of
                   (None, Some i) \<Rightarrow> db\<lparr> db_bootstrap := Some (Some i) \<rparr>
                 | _ \<Rightarrow> db) in
      if db_bootstrap db1 \<noteq> None then Inr (None, db1)
      else case insert_user db1 username hash now True of
          Inl e \<Rightarrow> Inl e
        | Inr (u, db2) \<Rightarrow> Inr (Some u, db2\<lparr> db_bootstrap := Some (Some (u_id u)) \<rparr>))"

definition discord_webhook :: "account_db \<Rightarrow> nat \<Rightarrow> string option" where
  "discord_webhook db i = (case bt_get (db_users db) i of None \<Rightarrow> None | Some r \<Rightarrow> ur_webhook r)"

definition set_discord_webhook :: "account_db \<Rightarrow> nat \<Rightarrow> string option \<Rightarrow> account_db" where
  "set_discord_webhook db i w =
     (case bt_get (db_users db) i of
        None \<Rightarrow> db
      | Some r \<Rightarrow> db\<lparr> db_users := bt_insert i (r\<lparr> ur_webhook := w \<rparr>) (db_users db) \<rparr>)"

text \<open>\<open>DELETE FROM users\<close> with \<open>ON DELETE CASCADE\<close> and \<open>ON DELETE SET NULL\<close>.\<close>

definition delete_user :: "account_db \<Rightarrow> nat \<Rightarrow> bool \<times> account_db" where
  "delete_user db i =
     (if bt_contains (db_users db) i
      then (True, db\<lparr> db_users := bt_remove i (db_users db),
             db_sessions := (\<lambda>k. case db_sessions db k of
                 None \<Rightarrow> None | Some s \<Rightarrow> if se_user_id s = i then None else Some s),
             db_bootstrap := (if db_bootstrap db = Some (Some i) then Some None else db_bootstrap db) \<rparr>)
      else (False, db))"

section \<open>The sessions table\<close>

definition create_session :: "account_db \<Rightarrow> session \<Rightarrow> repo_error + account_db" where
  "create_session db s =
     (if db_sessions db (se_id s) \<noteq> None then Inl Repo_Conflict
      else if \<not> bt_contains (db_users db) (se_user_id s) then Inl Repo_Backend
      else Inr (db\<lparr> db_sessions := (db_sessions db)(se_id s \<mapsto> s) \<rparr>))"

definition get_session :: "account_db \<Rightarrow> string \<Rightarrow> session option" where
  "get_session db token = db_sessions db token"

definition delete_session :: "account_db \<Rightarrow> string \<Rightarrow> account_db" where
  "delete_session db token = db\<lparr> db_sessions := (db_sessions db)(token := None) \<rparr>"

definition purge_expired :: "account_db \<Rightarrow> millis \<Rightarrow> account_db" where
  "purge_expired db now = db\<lparr> db_sessions := (\<lambda>k. case db_sessions db k of
      None \<Rightarrow> None | Some s \<Rightarrow> if se_expires_at s \<le> now then None else Some s) \<rparr>"

section \<open>The authentication service\<close>

definition start_session :: "account_db \<Rightarrow> user \<Rightarrow> string \<Rightarrow> millis \<Rightarrow> app_error + (session \<times> account_db)" where
  "start_session db u token now =
     (let s = \<lparr> se_id = token, se_user_id = u_id u, se_created_at = now, se_expires_at = plus_ms now SESSION_TTL_MS \<rparr> in
      case create_session db s of Inl e \<Rightarrow> Inl (App_Repo e) | Inr db' \<Rightarrow> Inr (s, db'))"

definition logout :: "account_db \<Rightarrow> string \<Rightarrow> account_db" where
  "logout db token = delete_session db token"

definition authenticate :: "account_db \<Rightarrow> string \<Rightarrow> millis \<Rightarrow> user option \<times> account_db" where
  "authenticate db token now =
     (case get_session db token of
        None \<Rightarrow> (None, db)
      | Some s \<Rightarrow>
          if session_is_expired s now then (None, delete_session db token)
          else (by_id db (se_user_id s), db))"

definition has_admin_access :: "user option \<Rightarrow> bool" where
  "has_admin_access u = (case u of None \<Rightarrow> False | Some u \<Rightarrow> u_is_admin u)"


text \<open>\<open>AuthService::register\<close> and \<open>login\<close>, over a hasher: \<open>hash\<close> of a password, \<open>verify\<close> of a password and a hash.\<close>

definition svc_register ::
    "(string \<Rightarrow> app_error + string) \<Rightarrow> account_db \<Rightarrow> string \<Rightarrow> string \<Rightarrow> millis \<Rightarrow> app_error + (user \<times> account_db)" where
  "svc_register hash db username password now =
     (case validate_username username of Some e \<Rightarrow> Inl e | None \<Rightarrow>
      case validate_password password of Some e \<Rightarrow> Inl e | None \<Rightarrow>
      if by_username db username \<noteq> None then Inl App_Conflict
      else case hash password of Inl e \<Rightarrow> Inl e | Inr h \<Rightarrow>
        (case create_user db username h now of Inl e \<Rightarrow> Inl (App_Repo e) | Inr r \<Rightarrow> Inr r))"

definition svc_login ::
    "(string \<Rightarrow> string \<Rightarrow> app_error + bool) \<Rightarrow> account_db \<Rightarrow> string \<Rightarrow> string \<Rightarrow> string \<Rightarrow> millis \<Rightarrow>
      app_error + (session \<times> account_db)" where
  "svc_login verify db username password token now =
     (case by_username db username of
        None \<Rightarrow> Inl App_Unauthorized
      | Some c \<Rightarrow> (case verify password (cr_password_hash c) of
          Inl e \<Rightarrow> Inl e
        | Inr False \<Rightarrow> Inl App_Unauthorized
        | Inr True \<Rightarrow> start_session db (cr_user c) token now))"

section \<open>Consistency of the tables\<close>

definition db_ok :: "account_db \<Rightarrow> bool" where
  "db_ok db \<longleftrightarrow> bt_wf (db_users db) \<and>
     (\<forall>i r. bt_get (db_users db) i = Some r \<longrightarrow> u_id (row_user r) = i \<and> i \<le> db_user_seq db) \<and>
     (\<forall>i j r q. bt_get (db_users db) i = Some r \<and> bt_get (db_users db) j = Some q \<and>
        same_name (u_username (row_user q)) r \<longrightarrow> i = j) \<and>
     (\<forall>t s. db_sessions db t = Some s \<longrightarrow> se_id s = t \<and> bt_get (db_users db) (se_user_id s) \<noteq> None) \<and>
     (\<forall>i. db_bootstrap db = Some (Some i) \<longrightarrow> bt_get (db_users db) i \<noteq> None)"

text \<open>Every administrator is the one that was bootstrapped.\<close>

definition admin_ok :: "account_db \<Rightarrow> bool" where
  "admin_ok db \<longleftrightarrow> (\<forall>i r. bt_get (db_users db) i = Some r \<and> u_is_admin (row_user r) \<longrightarrow> db_bootstrap db = Some (Some i))"

lemma db_okD:
  assumes "db_ok db"
  shows "bt_wf (db_users db)"
    and "\<And>i r. bt_get (db_users db) i = Some r \<Longrightarrow> u_id (row_user r) = i"
    and "\<And>i r. bt_get (db_users db) i = Some r \<Longrightarrow> i \<le> db_user_seq db"
    and "\<And>i j r q. bt_get (db_users db) i = Some r \<Longrightarrow> bt_get (db_users db) j = Some q \<Longrightarrow>
           same_name (u_username (row_user q)) r \<Longrightarrow> i = j"
    and "\<And>t s. db_sessions db t = Some s \<Longrightarrow> se_id s = t"
    and "\<And>t s. db_sessions db t = Some s \<Longrightarrow> bt_get (db_users db) (se_user_id s) \<noteq> None"
    and "\<And>i. db_bootstrap db = Some (Some i) \<Longrightarrow> bt_get (db_users db) i \<noteq> None"
  using assms by (auto simp: db_ok_def)

lemma same_name_sym: "same_name (u_username (row_user q)) r \<longleftrightarrow> same_name (u_username (row_user r)) q"
  by (auto simp: same_name_def eq_ignore_ascii_case_def)

lemma same_name_trans: "same_name u r \<Longrightarrow> same_name u q \<Longrightarrow> same_name (u_username (row_user q)) r"
  by (simp add: same_name_def eq_ignore_ascii_case_def)

lemma by_username_Some:
  assumes "db_ok db"
  shows "by_username db u = Some c \<longleftrightarrow> (\<exists>i r. bt_get (db_users db) i = Some r \<and> same_name u r \<and> c = ur_credentials r)"
proof
  assume "by_username db u = Some c"
  then obtain r where "find (same_name u) (bt_values (db_users db)) = Some r" "c = ur_credentials r"
    by (auto simp: by_username_def)
  then have "r \<in> set (bt_values (db_users db))" "same_name u r" "c = ur_credentials r"
    by (auto simp: find_Some_iff)
  then show "\<exists>i r. bt_get (db_users db) i = Some r \<and> same_name u r \<and> c = ur_credentials r"
    using bt_values_get [OF db_okD(1) [OF assms]] by blast
next
  assume "\<exists>i r. bt_get (db_users db) i = Some r \<and> same_name u r \<and> c = ur_credentials r"
  then obtain i r where r: "bt_get (db_users db) i = Some r" "same_name u r" "c = ur_credentials r" by blast
  then have "r \<in> set (bt_values (db_users db))" using bt_values_get [OF db_okD(1) [OF assms]] by blast
  then obtain q where q: "find (same_name u) (bt_values (db_users db)) = Some q"
    using r(2) by (cases "find (same_name u) (bt_values (db_users db))") (auto simp: find_None_iff)
  then have "q \<in> set (bt_values (db_users db))" "same_name u q" by (auto simp: find_Some_iff)
  then obtain j where j: "bt_get (db_users db) j = Some q" using bt_values_get [OF db_okD(1) [OF assms]] by blast
  have "i = j" using db_okD(4) [OF assms r(1) j same_name_trans [OF r(2) \<open>same_name u q\<close>]] .
  then show "by_username db u = Some c" using r j q by (simp add: by_username_def)
qed

lemma by_username_None:
  "db_ok db \<Longrightarrow> by_username db u = None \<longleftrightarrow> (\<forall>i r. bt_get (db_users db) i = Some r \<longrightarrow> \<not> same_name u r)"
  using by_username_Some [of db u] by (metis not_None_eq)

lemma db_ok_empty: "db_ok empty_db" "admin_ok empty_db"
  by (simp_all add: db_ok_def admin_ok_def empty_db_def)

lemma insert_user_Inr:
  assumes "db_ok db" "insert_user db name hash now admin = Inr (u, db')"
  shows "db_ok db'" "u_id u = db_user_seq db + 1" "bt_get (db_users db) (u_id u) = None"
    and "bt_get (db_users db') i = (if i = u_id u
           then Some \<lparr> ur_credentials = \<lparr> cr_user = u, cr_password_hash = hash \<rparr>, ur_webhook = None \<rparr>
           else bt_get (db_users db) i)"
    and "u_is_admin u = admin" "u_username u = name" "u_created_at u = now"
    and "db_sessions db' = db_sessions db" "db_bootstrap db' = db_bootstrap db"
proof -
  let ?r = "\<lparr> ur_credentials = \<lparr> cr_user = u, cr_password_hash = hash \<rparr>, ur_webhook = None \<rparr>"
  have u: "u = \<lparr> u_id = db_user_seq db + 1, u_username = name, u_created_at = now, u_is_admin = admin \<rparr>"
    and d: "db' = db\<lparr> db_users := bt_insert (u_id u) ?r (db_users db), db_user_seq := u_id u \<rparr>"
    and none: "by_username db name = None"
    using assms(2) by (auto simp: insert_user_def Let_def split: if_splits)
  then show "u_id u = db_user_seq db + 1" "u_is_admin u = admin" "u_username u = name" "u_created_at u = now"
    "db_sessions db' = db_sessions db" "db_bootstrap db' = db_bootstrap db"
    by simp_all
  show fresh: "bt_get (db_users db) (u_id u) = None"
    using db_okD(3) [OF assms(1), of "u_id u"] u by (cases "bt_get (db_users db) (u_id u)") auto
  show get: "bt_get (db_users db') i = (if i = u_id u then Some ?r else bt_get (db_users db) i)" for i
    using d by simp
  have names: "\<not> same_name name q" if "bt_get (db_users db) j = Some q" for j q
    using none that by (simp add: by_username_None [OF assms(1)])
  have "i = j" if "bt_get (db_users db') i = Some r" "bt_get (db_users db') j = Some q"
    "same_name (u_username (row_user q)) r" for i j r q
  proof -
    have new: "same_name (u_username (row_user p)) ?r \<longleftrightarrow> same_name name p" "same_name (u_username u) p \<longleftrightarrow> same_name name p" for p
      using u by (auto simp: same_name_def eq_ignore_ascii_case_def)
    show ?thesis
      using that names [of i r] names [of j q] db_okD(4) [OF assms(1), of i r j q] new
      by (cases "i = u_id u"; cases "j = u_id u") (auto simp: get)
  qed
  moreover have "i \<le> db_user_seq db' \<and> u_id (row_user r) = i" if "bt_get (db_users db') i = Some r" for i r
    using that db_okD(2,3) [OF assms(1), of i r] d u by (auto simp: get le_SucI split: if_splits)
  moreover have "bt_wf (db_users db')" using d db_okD(1) [OF assms(1)] by simp
  moreover have "se_id s = t \<and> bt_get (db_users db') (se_user_id s) \<noteq> None" if "db_sessions db' t = Some s" for t s
    using that db_okD(5,6) [OF assms(1), of t s] d by (simp add: get)
  moreover have "bt_get (db_users db') i \<noteq> None" if "db_bootstrap db' = Some (Some i)" for i
    using that db_okD(7) [OF assms(1), of i] d by (simp add: get)
  ultimately show "db_ok db'" unfolding db_ok_def by blast
qed


text \<open>
  Tables stay consistent under a change that keeps or removes users, keeps their identity, and keeps no
  session or bootstrap entry of a user that is gone.
\<close>

lemma db_ok_change:
  assumes "db_ok db" "bt_wf (db_users db')" "db_user_seq db' = db_user_seq db"
    and rows: "\<And>i r. bt_get (db_users db') i = Some r \<Longrightarrow> \<exists>q. bt_get (db_users db) i = Some q \<and> row_user q = row_user r"
    and sessions: "\<And>t s. db_sessions db' t = Some s \<Longrightarrow> db_sessions db t = Some s \<and> bt_get (db_users db') (se_user_id s) \<noteq> None"
    and boot: "\<And>i. db_bootstrap db' = Some (Some i) \<Longrightarrow> bt_get (db_users db') i \<noteq> None"
  shows "db_ok db'"
proof -
  have "u_id (row_user r) = i \<and> i \<le> db_user_seq db'" if r: "bt_get (db_users db') i = Some r" for i r
    using rows [OF r] db_okD(2,3) [OF assms(1)] assms(3) by metis
  moreover have "i = j" if ij: "bt_get (db_users db') i = Some r" "bt_get (db_users db') j = Some q"
    "same_name (u_username (row_user q)) r" for i j r q
  proof -
    obtain r0 q0 where "bt_get (db_users db) i = Some r0" "row_user r0 = row_user r"
      "bt_get (db_users db) j = Some q0" "row_user q0 = row_user q"
      using rows [OF ij(1)] rows [OF ij(2)] by blast
    then show ?thesis using ij(3) db_okD(4) [OF assms(1), of i r0 j q0] by (simp add: same_name_def)
  qed
  moreover have "se_id s = t \<and> bt_get (db_users db') (se_user_id s) \<noteq> None" if "db_sessions db' t = Some s" for t s
    using sessions [OF that] db_okD(5) [OF assms(1), of t s] by blast
  ultimately show ?thesis unfolding db_ok_def using assms(2) boot by blast
qed

lemma admin_ok_change:
  assumes "admin_ok db" "db_bootstrap db' = db_bootstrap db"
    and "\<And>i r. bt_get (db_users db') i = Some r \<Longrightarrow> \<exists>q. bt_get (db_users db) i = Some q \<and> row_user q = row_user r"
  shows "admin_ok db'"
  unfolding admin_ok_def assms(2) using assms(1,3) unfolding admin_ok_def by metis

lemma delete_user_ok:
  assumes "db_ok db"
  shows "db_ok (snd (delete_user db i))" "admin_ok db \<Longrightarrow> admin_ok (snd (delete_user db i))"
proof -
  let ?db = "snd (delete_user db i)"
  show "db_ok ?db"
  proof (cases "bt_contains (db_users db) i")
    case True
    then show ?thesis
      using db_okD(1,6,7) [OF assms]
      by (intro db_ok_change [OF assms]) (auto simp: delete_user_def split: option.splits if_splits)
  qed (simp add: delete_user_def assms)
  show "admin_ok ?db" if "admin_ok db"
    using that by (auto simp: admin_ok_def delete_user_def)
qed

lemma create_session_ok:
  assumes "db_ok db" "create_session db s = Inr db'"
  shows "db_ok db'" "admin_ok db \<Longrightarrow> admin_ok db'"
  using assms by (auto simp: create_session_def db_ok_def admin_ok_def bt_contains_def split: if_splits)

lemma delete_session_ok:
  assumes "db_ok db"
  shows "db_ok (delete_session db t)" "admin_ok db \<Longrightarrow> admin_ok (delete_session db t)"
  using db_okD(1,6,7) [OF assms]
  by (auto intro!: db_ok_change [OF assms] admin_ok_change [of db] simp: delete_session_def split: if_splits)

lemma purge_expired_ok:
  assumes "db_ok db"
  shows "db_ok (purge_expired db now)" "admin_ok db \<Longrightarrow> admin_ok (purge_expired db now)"
  using db_okD(1,6,7) [OF assms]
  by (auto intro!: db_ok_change [OF assms] admin_ok_change [of db] simp: purge_expired_def split: option.splits if_splits)

lemma set_discord_webhook_ok:
  assumes "db_ok db"
  shows "db_ok (set_discord_webhook db i w)" "admin_ok db \<Longrightarrow> admin_ok (set_discord_webhook db i w)"
proof -
  let ?db = "set_discord_webhook db i w"
  have rows: "\<exists>q. bt_get (db_users db) j = Some q \<and> row_user q = row_user r" if "bt_get (db_users ?db) j = Some r" for j r
    using that by (auto simp: set_discord_webhook_def split: option.splits if_splits)
  have dom: "bt_get (db_users ?db) j \<noteq> None \<longleftrightarrow> bt_get (db_users db) j \<noteq> None" for j
    by (auto simp: set_discord_webhook_def split: option.splits)
  have rest: "db_sessions ?db = db_sessions db" "db_bootstrap ?db = db_bootstrap db" "db_user_seq ?db = db_user_seq db"
    "bt_wf (db_users ?db)"
    using db_okD(1) [OF assms] by (auto simp: set_discord_webhook_def split: option.splits)
  show "db_ok ?db"
    by (rule db_ok_change [OF assms rest(4,3) rows]) (use rest dom db_okD(6,7) [OF assms] in auto)
  show "admin_ok ?db" if "admin_ok db" by (rule admin_ok_change [OF that rest(2) rows])
qed

lemma create_user_ok:
  assumes "db_ok db" "create_user db name hash now = Inr (u, db')"
  shows "db_ok db'" "admin_ok db \<Longrightarrow> admin_ok db'"
proof -
  note i = insert_user_Inr [OF assms(1) assms(2) [unfolded create_user_def]]
  show "db_ok db'" by (rule i(1))
  show "admin_ok db'" if "admin_ok db"
    using that i(5) by (auto simp: admin_ok_def i(4,9) split: if_splits)
qed

lemma first_admin_None: "db_ok db \<Longrightarrow> first_admin db = None \<Longrightarrow> bt_get (db_users db) i = Some r \<Longrightarrow> \<not> u_is_admin (row_user r)"
  using bt_values_get [OF db_okD(1), of db r] by (auto simp: first_admin_def find_None_iff)

lemma first_admin_Some:
  assumes "db_ok db" "first_admin db = Some i"
  shows "\<exists>r. bt_get (db_users db) i = Some r \<and> u_is_admin (row_user r)"
proof -
  obtain r where "find (u_is_admin \<circ> row_user) (bt_values (db_users db)) = Some r" "u_id (row_user r) = i"
    using assms(2) by (auto simp: first_admin_def)
  then have r: "r \<in> set (bt_values (db_users db))" "u_is_admin (row_user r)" by (auto simp: find_Some_iff)
  then obtain j where "bt_get (db_users db) j = Some r" using bt_values_get [OF db_okD(1) [OF assms(1)]] by blast
  then show ?thesis using r db_okD(2) [OF assms(1), of j r] \<open>u_id (row_user r) = i\<close> by auto
qed

lemma bootstrap_admin_ok:
  assumes "db_ok db" "admin_ok db" "bootstrap_admin db name hash now = Inr (r, db')"
  shows "db_ok db'" "admin_ok db'" "db_bootstrap db' \<noteq> None" "db_bootstrap db \<noteq> None \<Longrightarrow> db' = db \<and> r = None"
proof -
  have none: "first_admin db = None" if "db_bootstrap db = None"
    using first_admin_Some [OF assms(1)] assms(2) that by (cases "first_admin db") (auto simp: admin_ok_def)
  have "db_ok db' \<and> admin_ok db' \<and> db_bootstrap db' \<noteq> None" if b: "db_bootstrap db = None"
  proof -
    obtain u db2 where ins: "insert_user db name hash now True = Inr (u, db2)"
      and d: "db' = db2\<lparr> db_bootstrap := Some (Some (u_id u)) \<rparr>"
      using assms(3) b none by (auto simp: bootstrap_admin_def split: sum.splits prod.splits)
    note i = insert_user_Inr [OF assms(1) ins]
    have "\<not> u_is_admin (row_user q)" if "bt_get (db_users db) j = Some q" for j q
      using first_admin_None [OF assms(1) none [OF b] that] .
    then have "admin_ok db'" using d by (auto simp: admin_ok_def i(4) split: if_splits)
    moreover have "db_ok db'"
      by (rule db_ok_change [OF i(1)]) (use db_okD(1,6) [OF i(1)] d in \<open>auto simp: i(4)\<close>)
    ultimately show ?thesis using d by simp
  qed
  moreover have "db' = db \<and> r = None" if "db_bootstrap db \<noteq> None"
    using assms(3) that by (auto simp: bootstrap_admin_def split: option.splits)
  ultimately show "db_ok db'" "admin_ok db'" "db_bootstrap db' \<noteq> None" "db_bootstrap db \<noteq> None \<Longrightarrow> db' = db \<and> r = None"
    using assms(1,2) by (cases "db_bootstrap db = None"; auto)+
qed

lemma authenticate_ok:
  assumes "db_ok db"
  shows "db_ok (snd (authenticate db t now))" "admin_ok db \<Longrightarrow> admin_ok (snd (authenticate db t now))"
  using delete_session_ok [OF assms] assms by (auto simp: authenticate_def split: option.splits)


section \<open>Sessions as the service uses them\<close>

text \<open>
  What \<open>AuthService\<close> relies on: a created session is found under its token and no other changes, a
  deleted one is gone.
\<close>

locale session_store =
  fixes get :: "'db \<Rightarrow> string \<Rightarrow> session option"
    and create :: "'db \<Rightarrow> session \<Rightarrow> repo_error + 'db"
    and delete :: "'db \<Rightarrow> string \<Rightarrow> 'db"
  assumes get_create: "create db s = Inr db' \<Longrightarrow> get db' t = (if t = se_id s then Some s else get db t)"
    and create_fresh: "create db s = Inr db' \<Longrightarrow> get db (se_id s) = None"
    and get_delete: "get (delete db t) u = (if u = t then None else get db u)"
begin

text \<open>Signing out after signing in leaves every session as it was.\<close>

lemma create_delete: "create db s = Inr db' \<Longrightarrow> get (delete db' (se_id s)) t = get db t"
  using create_fresh by (simp add: get_create get_delete)

text \<open>Tokens issued one after the other are all valid, each for its own session.\<close>

lemma create_all:
  assumes "\<And>k. k < length ss \<Longrightarrow> create (dbs ! k) (ss ! k) = Inr (dbs ! Suc k)" "length dbs = Suc (length ss)" "k < length ss"
  shows "get (last dbs) (se_id (ss ! k)) = Some (ss ! k)"
proof -
  have "get (dbs ! m) (se_id (ss ! k)) = Some (ss ! k)" if "Suc k \<le> m" "m \<le> length ss" for m
    using that
  proof (induction m rule: dec_induct)
    case base
    then show ?case using get_create [OF assms(1) [OF assms(3)]] by simp
  next
    case (step n)
    then have n: "n < length ss" "get (dbs ! n) (se_id (ss ! k)) = Some (ss ! k)" by simp_all
    show ?case using get_create [OF assms(1) [OF n(1)]] create_fresh [OF assms(1) [OF n(1)]] n(2) by auto
  qed
  then show ?thesis using assms(2,3) by (metis Suc_leI diff_Suc_1 last_conv_nth le_refl length_0_conv nat.simps(3))
qed

end

interpretation sql_sessions: session_store get_session create_session delete_session
  by unfold_locales (auto simp: get_session_def create_session_def delete_session_def split: if_splits)

lemma start_session_Inr:
  assumes "start_session db u token now = Inr (s, db')"
  shows "s = \<lparr> se_id = token, se_user_id = u_id u, se_created_at = now, se_expires_at = plus_ms now SESSION_TTL_MS \<rparr>"
    and "create_session db s = Inr db'" "db_users db' = db_users db" "db_bootstrap db' = db_bootstrap db"
    and "get_session db' t = (if t = token then Some s else get_session db t)"
proof -
  show s: "s = \<lparr> se_id = token, se_user_id = u_id u, se_created_at = now, se_expires_at = plus_ms now SESSION_TTL_MS \<rparr>"
    and c: "create_session db s = Inr db'"
    using assms by (auto simp: start_session_def Let_def split: sum.splits)
  show "db_users db' = db_users db" "db_bootstrap db' = db_bootstrap db"
    using c by (auto simp: create_session_def split: if_splits)
  show "get_session db' t = (if t = token then Some s else get_session db t)"
    using sql_sessions.get_create [OF c, of t] s by simp
qed

lemma authenticate_session:
  assumes "db_ok db" "get_session db token = Some s"
  shows "fst (authenticate db token now) = (if now < se_expires_at s then by_id db (se_user_id s) else None)"
  using assms(2) by (simp add: authenticate_def session_is_expired_def)

text \<open>
  C23: Who registers can sign in. After a registration, signing in with the same password and the username
  in any capitalisation succeeds with any fresh token, for the account that was created; a password the
  hasher rejects does not; and the token then authenticates that account for exactly seven days, or until
  it signs out.
\<close>

theorem register_then_login:
  assumes "db_ok db" "svc_register hash db username password now = Inr (u, db1)"
    and hasher: "\<And>p q h. hash p = Inr h \<Longrightarrow> verify q h = Inr (q = p)"
    and "eq_ignore_ascii_case name username" "get_session db1 token = None"
  shows "\<exists>s db2. svc_login verify db1 name password token later = Inr (s, db2)
    \<and> (\<forall>t. fst (authenticate db2 token t) = (if t < plus_ms later SESSION_TTL_MS then Some u else None))
    \<and> fst (authenticate (logout db2 token) token t') = None
    \<and> u_username u = username \<and> \<not> u_is_admin u
    \<and> (\<forall>wrong. wrong \<noteq> password \<longrightarrow> svc_login verify db1 name wrong token later = Inl App_Unauthorized)"
proof -
  obtain h where h: "hash password = Inr h" and c: "create_user db username h now = Inr (u, db1)"
    using assms(2) by (auto simp: svc_register_def split: option.splits if_splits sum.splits)
  note i = insert_user_Inr [OF assms(1) c [unfolded create_user_def]]
  let ?r = "\<lparr> ur_credentials = \<lparr> cr_user = u, cr_password_hash = h \<rparr>, ur_webhook = None \<rparr>"
  have row: "bt_get (db_users db1) (u_id u) = Some ?r" using i(4) by simp
  have "same_name name ?r"
    using assms(4) i(6) by (simp add: same_name_def eq_ignore_ascii_case_def)
  then have cred: "by_username db1 name = Some (ur_credentials ?r)"
    using row by (subst by_username_Some [OF i(1)]) blast
  have "svc_login verify db1 name wrong token later = Inl App_Unauthorized" if "wrong \<noteq> password" for wrong
    using cred hasher [OF h, of wrong] that by (simp add: svc_login_def)
  moreover have ok: "create_session db1 \<lparr> se_id = token, se_user_id = u_id u, se_created_at = later,
      se_expires_at = plus_ms later SESSION_TTL_MS \<rparr> \<noteq> Inl e" for e
    using assms(5) row by (simp add: create_session_def get_session_def bt_contains_def)
  from ok obtain s db2 where s: "start_session db1 u token later = Inr (s, db2)"
    by (cases "start_session db1 u token later") (auto simp: start_session_def Let_def split: sum.splits)
  note ss = start_session_Inr [OF s]
  moreover have "svc_login verify db1 name password token later = Inr (s, db2)"
    using cred hasher [OF h, of password] s by (simp add: svc_login_def)
  moreover have "fst (authenticate db2 token t) = (if t < plus_ms later SESSION_TTL_MS then Some u else None)" for t
    using authenticate_session [OF create_session_ok(1) [OF i(1) ss(2)], of token s t] ss(1,3,5) row by (simp add: by_id_def)
  moreover have "fst (authenticate (logout db2 token) token t') = None"
    by (simp add: authenticate_def logout_def sql_sessions.get_delete)
  ultimately show ?thesis using i(5,6) by blast
qed

text \<open>A hasher for which the law holds: the password itself, marked.\<close>

definition demo_hash :: "string \<Rightarrow> app_error + string" where
  "demo_hash p = Inr (CHR ''$'' # p)"

definition demo_verify :: "string \<Rightarrow> string \<Rightarrow> app_error + bool" where
  "demo_verify p h = Inr (h = CHR ''$'' # p)"

definition demo_user :: user where
  "demo_user = \<lparr> u_id = 1, u_username = ''Alice'', u_created_at = 5, u_is_admin = False \<rparr>"

theorem register_then_login_witness:
  "\<exists>db1 s db2. svc_register demo_hash empty_db ''Alice'' ''correct horse'' 5 = Inr (demo_user, db1) \<and>
     svc_login demo_verify db1 ''alice'' ''correct horse'' ''t0'' 9 = Inr (s, db2) \<and>
     fst (authenticate db2 ''t0'' 10) = Some demo_user \<and>
     svc_login demo_verify db1 ''alice'' ''battery staple'' ''t0'' 9 = Inl App_Unauthorized"
proof -
  let ?db = "empty_db\<lparr> db_users := [(1, \<lparr> ur_credentials = \<lparr> cr_user = demo_user, cr_password_hash = ''$correct horse'' \<rparr>,
      ur_webhook = None \<rparr>)], db_user_seq := 1 \<rparr>"
  have r: "svc_register demo_hash empty_db ''Alice'' ''correct horse'' 5 = Inr (demo_user, ?db)"
    by (simp add: svc_register_def validate_username_def validate_password_def username_char_def by_username_def empty_db_def
        bt_values_def demo_hash_def create_user_def insert_user_def demo_user_def Let_def)
  have e: "eq_ignore_ascii_case ''alice'' ''Alice''"
    by (simp add: eq_ignore_ascii_case_def to_ascii_lowercase_def ascii_lower_def of_char_def char_of_def bit_0)
  have v: "\<And>p q h. demo_hash p = Inr h \<Longrightarrow> demo_verify q h = Inr (q = p)" by (auto simp: demo_hash_def demo_verify_def)
  have t: "get_session ?db ''t0'' = None" by (simp add: get_session_def empty_db_def)
  have w: "(''battery staple'' :: string) \<noteq> ''correct horse''" by simp
  have l: "(10 :: nat) < plus_ms 9 SESSION_TTL_MS" by (simp add: plus_ms_def sat_add_def SESSION_TTL_MS_def)
  obtain s db2 where o: "svc_login demo_verify ?db ''alice'' ''correct horse'' ''t0'' 9 = Inr (s, db2)"
    "\<forall>t. fst (authenticate db2 ''t0'' t) = (if t < plus_ms 9 SESSION_TTL_MS then Some demo_user else None)"
    "\<forall>wrong. wrong \<noteq> ''correct horse'' \<longrightarrow> svc_login demo_verify ?db ''alice'' wrong ''t0'' 9 = Inl App_Unauthorized"
    using register_then_login [where verify = demo_verify and later = 9, OF db_ok_empty(1) r v e t] by blast
  have "fst (authenticate db2 ''t0'' 10) = Some demo_user" using o(2) [rule_format, of 10] l by simp
  moreover have "svc_login demo_verify ?db ''alice'' ''battery staple'' ''t0'' 9 = Inl App_Unauthorized"
    using o(3) [rule_format, OF w] .
  ultimately show ?thesis using r o(1) by blast
qed

end
