(* ===== verification/Account_Routes.thy ===== *)
theory Account_Routes
  imports Accounts Throttle
begin

text \<open>
  The account routes of the web server (\<open>crates/app-web/src/routes/account.rs\<close>, \<open>session.rs\<close>) over the
  account tables and the throttles, with the administrator bootstrap of \<open>crates/server/src/main.rs\<close>.

  A sign-in or a registration waits for its password hash on the blocking pool while other requests run,
  so each is two steps: up to the hash, with everything that may refuse it, and from the hash on. The
  clock is read once, before the first; other waits are for the database. The steps take what the request
  does not determine as arguments: whether a query fails in the backend, the outcome of the hash task,
  the token drawn. \<open>web_reach\<close> are the states the server can get into, with the log of hashes started.
\<close>

section \<open>State and requests\<close>

record request =
  rq_origin :: ip_addr
  rq_username :: string
  rq_password :: string
  rq_csrf_ok :: bool
  rq_now :: millis

text \<open>What a password is verified against when there is no such user, so that the answer takes as long.\<close>

definition ABSENT_USER_HASH :: string where
  "ABSENT_USER_HASH =
     ''$argon2id$v=19$m=19456,t=2,p=1$PBDGmYQeDFZi+ngthQy7oA$nWFqoA3BhV2HzsVjhYkCtBOCC1eJX9HiHrqd0jaL7aQ''"

text \<open>
  A request that waits for its password task and holds a permit. The permit belongs to the request, not
  to the task: when the client goes away, the request is dropped, its permit is free again, and the task
  runs on.
\<close>

datatype hashing = Verifying request "credentials option" | Hashing request

record web =
  w_db :: account_db
  w_throttle :: login_throttle
  w_sign_ups :: "attempt_window option"
  w_gate :: auth_gate
  w_hashing :: "hashing list"

definition new_web :: web where
  "new_web = \<lparr> w_db = empty_db, w_throttle = Map.empty, w_sign_ups = None,
     w_gate = new_gate MAX_ARGON2_CONCURRENCY, w_hashing = [] \<rparr>"

section \<open>Signing in\<close>

text \<open>\<open>login\<close> up to the hash. \<open>None\<close> is a request that is now waiting for it.\<close>

definition login_begin :: "bool \<Rightarrow> request \<Rightarrow> web \<Rightarrow> app_error option \<times> web" where
  "login_begin fault rq S =
     (if \<not> rq_csrf_ok rq then (Some App_Forbidden, S)
      else let (ok, th) = allows (w_throttle S) (rq_username rq) (rq_now rq); S = S\<lparr> w_throttle := th \<rparr> in
        if \<not> ok then (Some App_TooManyRequests, S)
        else let (ok, g) = gate_take (w_gate S) (rq_origin rq) (rq_now rq); S = S\<lparr> w_gate := g \<rparr> in
          if \<not> ok then (Some App_TooManyRequests, S)
          else if fault then (Some (App_Repo Repo_Backend), S)
          else case try_hash (w_gate S) of
              None \<Rightarrow> (Some App_TooManyRequests, S)
            | Some g \<Rightarrow> (None, S\<lparr> w_gate := g,
                w_hashing := Verifying rq (by_username (w_db S) (rq_username rq)) # w_hashing S \<rparr>))"

text \<open>
  \<open>login\<close> from the hash on: \<open>verdict\<close> is the outcome of the task. The permit is dropped on every path.
\<close>

definition login_finish ::
    "app_error + bool \<Rightarrow> bool \<Rightarrow> string \<Rightarrow> request \<Rightarrow> credentials option \<Rightarrow> web \<Rightarrow> (app_error + session) \<times> web" where
  "login_finish verdict fault token rq cred S =
     (let S = S\<lparr> w_gate := drop_permit (w_gate S), w_hashing := remove1 (Verifying rq cred) (w_hashing S) \<rparr> in
      case verdict of
        Inl e \<Rightarrow> (Inl e, S)
      | Inr verified \<Rightarrow>
          let result = (case (verified, cred) of
              (True, Some c) \<Rightarrow>
                if fault then Inl (App_Repo Repo_Backend) else start_session (w_db S) (cr_user c) token (rq_now rq)
            | _ \<Rightarrow> Inl App_Unauthorized) in
          (case result of
             Inr (s, db) \<Rightarrow> (Inr s, S\<lparr> w_db := db, w_throttle := succeeded (w_throttle S) (rq_username rq) \<rparr>)
           | Inl e \<Rightarrow>
               if e = App_Unauthorized
               then (Inl e, S\<lparr> w_throttle := failed (w_throttle S) (rq_username rq) (rq_now rq) \<rparr>)
               else (Inl e, S)))"

section \<open>Registering\<close>

definition register_begin :: "bool \<Rightarrow> request \<Rightarrow> web \<Rightarrow> app_error option \<times> web" where
  "register_begin fault rq S =
     (if \<not> rq_csrf_ok rq then (Some App_Forbidden, S)
      else let (ok, cell) = sign_up_take (w_sign_ups S) (rq_now rq); S = S\<lparr> w_sign_ups := cell \<rparr> in
        if \<not> ok then (Some App_TooManyRequests, S)
        else let (ok, g) = gate_take (w_gate S) (rq_origin rq) (rq_now rq); S = S\<lparr> w_gate := g \<rparr> in
          if \<not> ok then (Some App_TooManyRequests, S)
          else case validate_username (rq_username rq) of Some e \<Rightarrow> (Some e, S) | None \<Rightarrow>
            case validate_password (rq_password rq) of Some e \<Rightarrow> (Some e, S) | None \<Rightarrow>
            if fault then (Some (App_Repo Repo_Backend), S)
            else if by_username (w_db S) (rq_username rq) \<noteq> None then (Some App_Conflict, S)
            else case try_hash (w_gate S) of
                None \<Rightarrow> (Some App_TooManyRequests, S)
              | Some g \<Rightarrow> (None, S\<lparr> w_gate := g, w_hashing := Hashing rq # w_hashing S \<rparr>))"

definition register_finish ::
    "app_error + string \<Rightarrow> bool \<Rightarrow> bool \<Rightarrow> string \<Rightarrow> request \<Rightarrow> web \<Rightarrow> (app_error + session) \<times> web" where
  "register_finish hashed fault1 fault2 token rq S =
     (let S = S\<lparr> w_gate := drop_permit (w_gate S), w_hashing := remove1 (Hashing rq) (w_hashing S) \<rparr> in
      case hashed of
        Inl e \<Rightarrow> (Inl e, S)
      | Inr h \<Rightarrow>
          if fault1 then (Inl (App_Repo Repo_Backend), S)
          else (case create_user (w_db S) (rq_username rq) h (rq_now rq) of
            Inl e \<Rightarrow> (Inl (App_Repo e), S)
          | Inr (u, db) \<Rightarrow>
              let S = S\<lparr> w_db := db \<rparr> in
              if fault2 then (Inl (App_Repo Repo_Backend), S)
              else (case start_session db u token (rq_now rq) of
                  Inl e \<Rightarrow> (Inl e, S)
                | Inr (s, db) \<Rightarrow> (Inr s, S\<lparr> w_db := db \<rparr>))))"

section \<open>The other account routes\<close>

definition logout_route :: "bool \<Rightarrow> string option \<Rightarrow> web \<Rightarrow> app_error option \<times> web" where
  "logout_route csrf_ok cookie S =
     (if \<not> csrf_ok then (Some App_Forbidden, S)
      else case cookie of
          None \<Rightarrow> (None, S)
        | Some token \<Rightarrow> (None, S\<lparr> w_db := logout (w_db S) token \<rparr>))"

definition current_user :: "string option \<Rightarrow> millis \<Rightarrow> web \<Rightarrow> user option \<times> web" where
  "current_user cookie now S =
     (case cookie of
        None \<Rightarrow> (None, S)
      | Some token \<Rightarrow> let (u, db) = authenticate (w_db S) token now in (u, S\<lparr> w_db := db \<rparr>))"

definition delete_route :: "bool \<Rightarrow> string option \<Rightarrow> millis \<Rightarrow> web \<Rightarrow> app_error option \<times> web" where
  "delete_route csrf_ok cookie now S =
     (if \<not> csrf_ok then (Some App_Forbidden, S)
      else case cookie of
          None \<Rightarrow> (Some App_Unauthorized, S)
        | Some token \<Rightarrow>
            (case current_user cookie now S of
               (None, S) \<Rightarrow> (Some App_Unauthorized, S)
             | (Some u, S) \<Rightarrow>
                 let (gone, db) = delete_user (w_db S) (u_id u) in
                 ((if gone then None else Some App_NotFound), S\<lparr> w_db := db \<rparr>)))"

text \<open>\<open>admin_only\<close>: whether the request goes on to an operations page.\<close>

definition admin_only :: "string option \<Rightarrow> millis \<Rightarrow> web \<Rightarrow> bool \<times> web" where
  "admin_only cookie now S = (let (u, S) = current_user cookie now S in (has_admin_access u, S))"

text \<open>The server's start: the bootstrap administrator, if one is configured.\<close>

definition server_bootstrap :: "app_error + string \<Rightarrow> string \<Rightarrow> string \<Rightarrow> millis \<Rightarrow> web \<Rightarrow> app_error option \<times> web" where
  "server_bootstrap hashed username password now S =
     (case validate_username username of Some e \<Rightarrow> (Some e, S) | None \<Rightarrow>
      case validate_password password of Some e \<Rightarrow> (Some e, S) | None \<Rightarrow>
      case hashed of Inl e \<Rightarrow> (Some e, S) | Inr h \<Rightarrow>
      case bootstrap_admin (w_db S) username h now of
        Inl e \<Rightarrow> (Some (App_Repo e), S)
      | Inr (_, db) \<Rightarrow> (None, S\<lparr> w_db := db \<rparr>))"


section \<open>The states the server can get into\<close>

text \<open>The log of password hashes started: by a registration or a sign-in, from where and when.\<close>

datatype hash_kind = SignIn | SignUp

type_synonym hash_log = "(hash_kind \<times> ip_addr \<times> millis) list"

text \<open>
  \<open>web_reach verify S now log\<close>: the server is in state \<open>S\<close> and the clock has shown \<open>now\<close>. A request may
  be of any content and arrive at any time that is not before the last; the tasks finish in any order,
  and a client may go away while its request waits (a request dropped at another wait is one whose query
  failed there).
  The outcome of a verification is the hasher's, or the failure of its task.
\<close>

inductive web_reach :: "(string \<Rightarrow> string \<Rightarrow> app_error + bool) \<Rightarrow> web \<Rightarrow> millis \<Rightarrow> hash_log \<Rightarrow> bool"
  for verify where
  start: "web_reach verify new_web 0 []"
| login: "web_reach verify S now log \<Longrightarrow> now \<le> rq_now rq \<Longrightarrow> login_begin fault rq S = (r, S') \<Longrightarrow>
    web_reach verify S' (rq_now rq) (if r = None then (SignIn, rq_origin rq, rq_now rq) # log else log)"
| login_done: "web_reach verify S now log \<Longrightarrow> Verifying rq cred \<in> set (w_hashing S) \<Longrightarrow>
    verdict = verify (rq_password rq) (case cred of None \<Rightarrow> ABSENT_USER_HASH | Some c \<Rightarrow> cr_password_hash c) \<or> verdict = Inl App_Internal \<Longrightarrow>
    login_finish verdict fault token rq cred S = (r, S') \<Longrightarrow> web_reach verify S' now log"
| register: "web_reach verify S now log \<Longrightarrow> now \<le> rq_now rq \<Longrightarrow> register_begin fault rq S = (r, S') \<Longrightarrow>
    web_reach verify S' (rq_now rq) (if r = None then (SignUp, rq_origin rq, rq_now rq) # log else log)"
| register_done: "web_reach verify S now log \<Longrightarrow> Hashing rq \<in> set (w_hashing S) \<Longrightarrow>
    register_finish hashed fault1 fault2 token rq S = (r, S') \<Longrightarrow> web_reach verify S' now log"
| gone: "web_reach verify S now log \<Longrightarrow> h \<in> set (w_hashing S) \<Longrightarrow>
    web_reach verify (S\<lparr> w_gate := drop_permit (w_gate S), w_hashing := remove1 h (w_hashing S) \<rparr>) now log"
| logout: "web_reach verify S now log \<Longrightarrow> logout_route csrf_ok cookie S = (r, S') \<Longrightarrow> web_reach verify S' now log"
| visit: "web_reach verify S now log \<Longrightarrow> now \<le> now' \<Longrightarrow> admin_only cookie now' S = (r, S') \<Longrightarrow> web_reach verify S' now' log"
| delete: "web_reach verify S now log \<Longrightarrow> now \<le> now' \<Longrightarrow> delete_route csrf_ok cookie now' S = (r, S') \<Longrightarrow>
    web_reach verify S' now' log"
| webhook: "web_reach verify S now log \<Longrightarrow> web_reach verify (S\<lparr> w_db := set_discord_webhook (w_db S) i w \<rparr>) now log"
| purge: "web_reach verify S now log \<Longrightarrow> now \<le> now' \<Longrightarrow> web_reach verify (S\<lparr> w_db := purge_expired (w_db S) now' \<rparr>) now' log"
| bootstrap: "web_reach verify S now log \<Longrightarrow> now \<le> now' \<Longrightarrow> server_bootstrap hashed username password now' S = (r, S') \<Longrightarrow>
    web_reach verify S' now' log"

section \<open>Accounts\<close>

lemma login_begin_db: "login_begin fault rq S = (r, S') \<Longrightarrow> w_db S' = w_db S"
  by (auto simp: login_begin_def Let_def split: prod.splits if_splits option.splits)

lemma register_begin_db: "register_begin fault rq S = (r, S') \<Longrightarrow> w_db S' = w_db S"
  by (auto simp: register_begin_def Let_def split: prod.splits if_splits option.splits)

lemma start_session_ok:
  assumes "db_ok db \<and> admin_ok db" "start_session db u token now = Inr (s, db')"
  shows "db_ok db' \<and> admin_ok db'"
  using start_session_Inr(2) [OF assms(2)] create_session_ok [of db s db'] assms(1) by blast

lemma login_finish_db:
  assumes "login_finish verdict fault token rq cred S = (r, S')"
  shows "w_db S' = w_db S \<or> (\<exists>u s. start_session (w_db S) u token (rq_now rq) = Inr (s, w_db S'))"
  using assms
  by (auto simp: login_finish_def Let_def split: sum.splits prod.splits if_splits bool.splits option.splits)

lemma register_finish_db:
  assumes "register_finish hashed fault1 fault2 token rq S = (r, S')"
  shows "w_db S' = w_db S \<or> (\<exists>u h db. create_user (w_db S) (rq_username rq) h (rq_now rq) = Inr (u, db) \<and>
    (w_db S' = db \<or> (\<exists>s. start_session db u token (rq_now rq) = Inr (s, w_db S'))))"
  using assms
  by (auto simp: register_finish_def Let_def split: sum.splits prod.splits if_splits) blast+

lemma current_user_db: "current_user cookie now S = (u, S') \<Longrightarrow> db_ok (w_db S) \<and> admin_ok (w_db S) \<Longrightarrow> db_ok (w_db S') \<and> admin_ok (w_db S')"
  using authenticate_ok [of "w_db S"]
  by (auto simp: current_user_def split: option.splits prod.splits) (metis snd_conv)+

lemma accounts_ok: "web_reach verify S now log \<Longrightarrow> db_ok (w_db S) \<and> admin_ok (w_db S)"
proof (induction rule: web_reach.induct)
  case start
  then show ?case by (simp add: new_web_def db_ok_empty)
next
  case (login_done S now log rq cred verdict fault token r S')
  then show ?case using login_finish_db [OF login_done(4)] start_session_ok [of "w_db S"] by metis
next
  case (register_done S now log rq hashed fault1 fault2 token r S')
  then show ?case
    using register_finish_db [OF register_done(3)] create_user_ok [of "w_db S"] start_session_ok by metis
next
  case (logout S now log csrf_ok cookie r S')
  then show ?case
    using delete_session_ok [of "w_db S"] by (auto simp: logout_route_def logout_def split: if_splits option.splits)
next
  case (visit S now log now' cookie r S')
  then show ?case using current_user_db [of cookie now' S] by (auto simp: admin_only_def split: prod.splits)
next
  case (delete S now log now' csrf_ok cookie r S')
  obtain u S1 where c: "current_user cookie now' S = (u, S1)" by (metis surj_pair)
  then have "db_ok (w_db S1) \<and> admin_ok (w_db S1)" using current_user_db delete.IH by blast
  then show ?case
    using delete c delete_user_ok [of "w_db S1"]
    by (auto simp: delete_route_def Let_def split: if_splits option.splits prod.splits) (metis snd_conv)+
next
  case (webhook S now log i w)
  then show ?case using set_discord_webhook_ok [of "w_db S"] by simp
next
  case (purge S now log now')
  then show ?case using purge_expired_ok [of "w_db S"] by simp
next
  case (bootstrap S now log now' hashed username password r S')
  then show ?case
    using bootstrap_admin_ok [of "w_db S"]
    by (auto simp: server_bootstrap_def split: option.splits sum.splits prod.splits)
qed (auto dest: login_begin_db register_begin_db)


text \<open>
  C21: Only the operator makes an administrator. In every state the server can get into there is at most
  one administrator, the one account that was bootstrapped; an operations page is served only on a live
  session of that account; and once the bootstrap has been used it creates nobody again, even after that
  account was deleted. Sessions always belong to existing users, and no two usernames differ only in
  case.
\<close>

theorem admins_only_by_bootstrap:
  assumes "web_reach verify S now log"
  shows "db_ok (w_db S)
    \<and> (\<forall>i r. bt_get (db_users (w_db S)) i = Some r \<and> u_is_admin (row_user r) \<longrightarrow> db_bootstrap (w_db S) = Some (Some i))
    \<and> (\<forall>cookie t. fst (admin_only cookie t S) \<longrightarrow> (\<exists>token s. cookie = Some token \<and>
         db_sessions (w_db S) token = Some s \<and> t < se_expires_at s \<and> db_bootstrap (w_db S) = Some (Some (se_user_id s))))
    \<and> (\<forall>hashed name pw t. db_bootstrap (w_db S) \<noteq> None \<longrightarrow> snd (server_bootstrap hashed name pw t S) = S)"
proof -
  have ok: "db_ok (w_db S)" "admin_ok (w_db S)" using accounts_ok [OF assms] by simp_all
  have "\<exists>token s. cookie = Some token \<and> db_sessions (w_db S) token = Some s \<and> t < se_expires_at s \<and>
      db_bootstrap (w_db S) = Some (Some (se_user_id s))" if admin: "fst (admin_only cookie t S)" for cookie t
  proof -
    obtain token u where c: "cookie = Some token" "fst (authenticate (w_db S) token t) = Some u" "u_is_admin u"
      using admin
      by (auto simp: admin_only_def current_user_def has_admin_access_def split: option.splits prod.splits)
    then obtain s where s: "db_sessions (w_db S) token = Some s" "t < se_expires_at s"
      "by_id (w_db S) (se_user_id s) = Some u"
      by (auto simp: authenticate_def get_session_def session_is_expired_def split: option.splits if_splits)
    then have "db_bootstrap (w_db S) = Some (Some (se_user_id s))"
      using ok(2) c(3) by (auto simp: by_id_def admin_ok_def)
    then show ?thesis using c(1) s by blast
  qed
  moreover have "snd (server_bootstrap hashed name pw t S) = S" if "db_bootstrap (w_db S) \<noteq> None" for hashed name pw t
    using bootstrap_admin_ok(4) [OF ok _ that]
    by (auto simp: server_bootstrap_def split: option.splits sum.splits prod.splits)
  ultimately show ?thesis using ok by (auto simp: admin_ok_def)
qed

section \<open>How many passwords are hashed\<close>

definition hashes_in :: "millis \<Rightarrow> hash_log \<Rightarrow> nat" where
  "hashes_in t log = length (filter (\<lambda>(kind, origin, at). inside t at) log)"

definition hashes_from :: "ip_addr \<Rightarrow> millis \<Rightarrow> hash_log \<Rightarrow> nat" where
  "hashes_from k t log = length (filter (\<lambda>(kind, origin, at). origin = k \<and> inside t at) log)"

definition sign_ups_in :: "millis \<Rightarrow> hash_log \<Rightarrow> nat" where
  "sign_ups_in t log = length (filter (\<lambda>(kind, origin, at). kind = SignUp \<and> inside t at) log)"

lemma log_counts [simp]:
  "hashes_in t [] = 0" "hashes_in t ((kind, origin, at) # log) = hashes_in t log + of_bool (inside t at)"
  "hashes_from k t [] = 0"
  "hashes_from k t ((kind, origin, at) # log) = hashes_from k t log + of_bool (origin = k \<and> inside t at)"
  "sign_ups_in t [] = 0" "sign_ups_in t ((kind, origin, at) # log) = sign_ups_in t log + of_bool (kind = SignUp \<and> inside t at)"
  by (simp_all add: hashes_in_def hashes_from_def sign_ups_in_def)

definition web_rate :: "millis \<Rightarrow> ip_addr \<Rightarrow> web \<Rightarrow> millis \<Rightarrow> hash_log \<Rightarrow> bool" where
  "web_rate t k S now log \<longleftrightarrow>
     gate_rate t k now (w_gate S) (hashes_in t log) (hashes_from k t log) \<and>
     rate_ok MAX_SIGN_UPS t (w_sign_ups S) now (sign_ups_in t log) \<and>
     origins_ok (w_gate S) \<and> ag_permits (w_gate S) + length (w_hashing S) = MAX_ARGON2_CONCURRENCY"

lemma gate_rate_less: "gate_rate t k now g c ck \<Longrightarrow> c' \<le> c \<Longrightarrow> ck' \<le> ck \<Longrightarrow> gate_rate t k now g c' ck'"
  by (auto simp: gate_rate_def intro: rate_ok_less)

lemma gate_permits [simp]:
  "gate_rate t k now (g\<lparr> ag_permits := n \<rparr>) c ck = gate_rate t k now g c ck"
  "origins_ok (g\<lparr> ag_permits := n \<rparr>) = origins_ok g"
  by (simp_all add: gate_rate_def origins_ok_def split: option.split)

lemma gate_rate_started: "gate_rate t k now g c ck \<Longrightarrow> ag_global g = Some w \<Longrightarrow> aw_started w \<le> now"
  by (simp add: gate_rate_def rate_ok_def)

text \<open>What one pass through the gate leaves, whether or not the request gets to its hash.\<close>

lemma gate_passed:
  assumes "gate_rate t k now g c ck" "origins_ok g" "now \<le> at" "gate_take g origin at = (ok, g')"
  shows "gate_rate t k at g' c ck" "ok \<Longrightarrow> gate_rate t k at g' (c + of_bool (inside t at)) (ck + of_bool (origin = k \<and> inside t at))"
    and "origins_ok g'" "ag_permits g' = ag_permits g"
proof -
  note r = gate_rate_take [OF assms(1,3,4)]
  show "gate_rate t k at g' c ck" using r by (elim gate_rate_less) auto
  show "ok \<Longrightarrow> gate_rate t k at g' (c + of_bool (inside t at)) (ck + of_bool (origin = k \<and> inside t at))" using r by simp
  show "origins_ok g'"
    using origins_ok_take [OF assms(2,4)] gate_rate_started [OF assms(1)] assms(3) by (meson order_trans)
  show "ag_permits g' = ag_permits g" using assms(4) by (rule gate_take_window)
qed

lemma try_hash_Some: "try_hash g = Some g' \<Longrightarrow> \<exists>n. g' = g\<lparr> ag_permits := n \<rparr> \<and> ag_permits g = Suc n"
  by (auto simp: try_hash_def split: if_splits)

lemma login_begin_cases:
  assumes "login_begin fault rq S = (r, S')"
  obtains (refused) "r \<noteq> None" "w_gate S' = w_gate S" "w_sign_ups S' = w_sign_ups S" "w_hashing S' = w_hashing S"
  | (turned_away) ok g where "gate_take (w_gate S) (rq_origin rq) (rq_now rq) = (ok, g)" "r \<noteq> None" "w_gate S' = g"
      "w_sign_ups S' = w_sign_ups S" "w_hashing S' = w_hashing S"
  | (hashing) g h where "gate_take (w_gate S) (rq_origin rq) (rq_now rq) = (True, g)" "r = None"
      "try_hash g = Some (w_gate S')" "w_sign_ups S' = w_sign_ups S" "w_hashing S' = h # w_hashing S"
  using assms
  by (auto simp: login_begin_def Let_def split: prod.splits if_splits option.splits)

lemma register_begin_cases:
  assumes "register_begin fault rq S = (r, S')"
  obtains (forged) "r \<noteq> None" "S' = S"
  | (refused) ok where "sign_up_take (w_sign_ups S) (rq_now rq) = (ok, w_sign_ups S')" "r \<noteq> None" "w_gate S' = w_gate S"
      "w_hashing S' = w_hashing S"
  | (turned_away) ok ok' g where "sign_up_take (w_sign_ups S) (rq_now rq) = (ok, w_sign_ups S')"
      "gate_take (w_gate S) (rq_origin rq) (rq_now rq) = (ok', g)" "r \<noteq> None" "w_gate S' = g" "w_hashing S' = w_hashing S"
  | (hashing) g h where "sign_up_take (w_sign_ups S) (rq_now rq) = (True, w_sign_ups S')"
      "gate_take (w_gate S) (rq_origin rq) (rq_now rq) = (True, g)" "r = None"
      "try_hash g = Some (w_gate S')" "w_hashing S' = h # w_hashing S"
proof (cases "rq_csrf_ok rq")
  case False
  then show thesis using that(1) assms by (auto simp: register_begin_def)
next
  case csrf: True
  obtain ok cell where s: "sign_up_take (w_sign_ups S) (rq_now rq) = (ok, cell)" by (metis surj_pair)
  obtain ok' g where t: "gate_take (w_gate S) (rq_origin rq) (rq_now rq) = (ok', g)" by (metis surj_pair)
  show thesis
  proof (cases "ok \<and> ok'")
    case False
    then show thesis using that(2,3) assms csrf s t by (auto simp: register_begin_def Let_def split: if_splits)
  next
    case True
    then show thesis
      using that(3) [of ok ok' g] that(4) [of g] assms csrf s t
      by (cases "validate_username (rq_username rq)"; cases "validate_password (rq_password rq)")
        (auto simp: register_begin_def Let_def split: if_splits option.splits)
  qed
qed

lemma sign_ups_rate:
  assumes "rate_ok MAX_SIGN_UPS t e now c" "now \<le> at" "sign_up_take e at = (ok, e')"
  shows "rate_ok MAX_SIGN_UPS t e' at c" "ok \<Longrightarrow> rate_ok MAX_SIGN_UPS t e' at (c + of_bool (inside t at))"
proof -
  have "rate_ok MAX_SIGN_UPS t e' at (c + of_bool (ok \<and> inside t at))"
    using assms by (intro rate_ok_take [of _ _ e now]) (simp_all add: sign_up_take_window throttle_limits)
  then show "rate_ok MAX_SIGN_UPS t e' at c" "ok \<Longrightarrow> rate_ok MAX_SIGN_UPS t e' at (c + of_bool (inside t at))"
    by (auto intro: rate_ok_less)
qed

lemma web_rate_later: "web_rate t k S now log \<Longrightarrow> now \<le> now' \<Longrightarrow> web_rate t k S now' log"
  by (auto simp: web_rate_def intro: gate_rate_later rate_ok_later)

text \<open>A step that leaves the throttles and the tasks alone.\<close>

lemma web_rate_same:
  "web_rate t k S now log \<Longrightarrow> now \<le> now' \<Longrightarrow> w_gate S' = w_gate S \<Longrightarrow> w_sign_ups S' = w_sign_ups S \<Longrightarrow>
     w_hashing S' = w_hashing S \<Longrightarrow> web_rate t k S' now' log"
  by (drule (1) web_rate_later) (simp add: web_rate_def)

text \<open>A task that ends gives its permit back.\<close>

lemma web_rate_done:
  assumes "web_rate t k S now log" "h \<in> set (w_hashing S)" "w_gate S' = drop_permit (w_gate S)"
    "w_sign_ups S' = w_sign_ups S" "w_hashing S' = remove1 h (w_hashing S)"
  shows "web_rate t k S' now log"
proof -
  have "length (w_hashing S) = Suc (length (w_hashing S'))"
    using assms(2,5) length_pos_if_in_set [OF assms(2)] by (simp add: length_remove1)
  then show ?thesis using assms by (simp add: web_rate_def drop_permit_def)
qed

lemma web_rate_login:
  assumes "web_rate t k S now log" "now \<le> rq_now rq" "login_begin fault rq S = (r, S')"
  shows "web_rate t k S' (rq_now rq) (if r = None then (SignIn, rq_origin rq, rq_now rq) # log else log)"
  using assms(3)
proof (cases rule: login_begin_cases)
  case refused
  then show ?thesis using web_rate_same [OF assms(1,2)] by auto
next
  case (turned_away ok g)
  have "gate_rate t k now (w_gate S) (hashes_in t log) (hashes_from k t log)" "origins_ok (w_gate S)"
    using assms(1) by (simp_all add: web_rate_def)
  note p = gate_passed [OF this assms(2) turned_away(1)]
  then show ?thesis
    using turned_away assms rate_ok_later by (auto simp: web_rate_def)
next
  case (hashing g h)
  have "gate_rate t k now (w_gate S) (hashes_in t log) (hashes_from k t log)" "origins_ok (w_gate S)"
    using assms(1) by (simp_all add: web_rate_def)
  note p = gate_passed [OF this assms(2) hashing(1)]
  obtain n where "w_gate S' = g\<lparr> ag_permits := n \<rparr>" "ag_permits g = Suc n" using try_hash_Some [OF hashing(3)] by blast
  then show ?thesis
    using hashing p assms rate_ok_later by (auto simp: web_rate_def)
qed

lemma web_rate_register:
  assumes "web_rate t k S now log" "now \<le> rq_now rq" "register_begin fault rq S = (r, S')"
  shows "web_rate t k S' (rq_now rq) (if r = None then (SignUp, rq_origin rq, rq_now rq) # log else log)"
proof -
  have g: "gate_rate t k now (w_gate S) (hashes_in t log) (hashes_from k t log)" "origins_ok (w_gate S)"
    and u: "rate_ok MAX_SIGN_UPS t (w_sign_ups S) now (sign_ups_in t log)"
    using assms(1) by (simp_all add: web_rate_def)
  note g = g assms(2) and u = u assms(2)
  show ?thesis using assms(3)
  proof (cases rule: register_begin_cases)
    case forged
    then show ?thesis using web_rate_same [OF assms(1,2)] by auto
  next
    case (refused ok)
    then show ?thesis
      using sign_ups_rate [OF u refused(1)] web_rate_later [OF assms(1,2)] by (auto simp: web_rate_def)
  next
    case (turned_away ok ok' g)
    then show ?thesis
      using sign_ups_rate [OF u turned_away(1)] gate_passed [OF g turned_away(2)] assms by (auto simp: web_rate_def)
  next
    case (hashing g' h)
    obtain n where "w_gate S' = g'\<lparr> ag_permits := n \<rparr>" "ag_permits g' = Suc n" using try_hash_Some [OF hashing(4)] by blast
    then show ?thesis
      using hashing sign_ups_rate [OF u hashing(1)] gate_passed [OF g hashing(2)] assms by (auto simp: web_rate_def)
  qed
qed

lemma finish_frame:
  "login_finish verdict fault token rq cred S = (r, S') \<Longrightarrow>
     w_gate S' = drop_permit (w_gate S) \<and> w_sign_ups S' = w_sign_ups S \<and> w_hashing S' = remove1 (Verifying rq cred) (w_hashing S)"
  "register_finish hashed fault1 fault2 token rq S = (q, S') \<Longrightarrow>
     w_gate S' = drop_permit (w_gate S) \<and> w_sign_ups S' = w_sign_ups S \<and> w_hashing S' = remove1 (Hashing rq) (w_hashing S)"
  by (auto simp: login_finish_def register_finish_def Let_def split: sum.splits prod.splits if_splits bool.splits option.splits)

lemma w_db_same: "\<exists>db. S = S\<lparr> w_db := db \<rparr>" for S :: web
  by (rule exI [of _ "w_db S"]) simp

lemma current_user_frame: "current_user cookie now S = (u, S') \<Longrightarrow> \<exists>db. S' = S\<lparr> w_db := db \<rparr>"
  by (auto simp: current_user_def w_db_same split: option.splits prod.splits)

lemma route_frame:
  "logout_route csrf_ok cookie S = (r, S') \<Longrightarrow> \<exists>db. S' = S\<lparr> w_db := db \<rparr>"
  "admin_only cookie now S = (b, S') \<Longrightarrow> \<exists>db. S' = S\<lparr> w_db := db \<rparr>"
  "delete_route csrf_ok cookie now S = (r, S') \<Longrightarrow> \<exists>db. S' = S\<lparr> w_db := db \<rparr>"
  "server_bootstrap hashed username password now S = (r, S') \<Longrightarrow> \<exists>db. S' = S\<lparr> w_db := db \<rparr>"
proof -
  show "logout_route csrf_ok cookie S = (r, S') \<Longrightarrow> \<exists>db. S' = S\<lparr> w_db := db \<rparr>"
    by (auto simp: logout_route_def w_db_same split: if_splits option.splits)
  show "admin_only cookie now S = (b, S') \<Longrightarrow> \<exists>db. S' = S\<lparr> w_db := db \<rparr>"
    by (auto simp: admin_only_def split: prod.splits dest: current_user_frame)
  show "delete_route csrf_ok cookie now S = (r, S') \<Longrightarrow> \<exists>db. S' = S\<lparr> w_db := db \<rparr>"
    by (auto simp: delete_route_def w_db_same Let_def split: if_splits option.splits prod.splits dest!: current_user_frame)
  show "server_bootstrap hashed username password now S = (r, S') \<Longrightarrow> \<exists>db. S' = S\<lparr> w_db := db \<rparr>"
    by (auto simp: server_bootstrap_def w_db_same split: option.splits sum.splits prod.splits)
qed

lemma web_rate_reach: "web_reach verify S now log \<Longrightarrow> web_rate t k S now log"
proof (induction rule: web_reach.induct)
  case start
  then show ?case
    by (simp add: web_rate_def new_web_def gate_rate_def new_gate_def origins_ok_def throttle_limits)
next
  case (login_done S now log rq cred verdict fault token r S')
  then show ?case using finish_frame(1) [OF login_done(4)] by (intro web_rate_done [OF login_done.IH login_done(2)]) auto
next
  case (register_done S now log rq hashed fault1 fault2 token r S')
  then show ?case using finish_frame(2) [OF register_done(3)] by (intro web_rate_done [OF register_done.IH register_done(2)]) auto
next
  case (gone S now log h)
  then show ?case by (intro web_rate_done [OF gone.IH gone(2)]) auto
next
  case (login S now log rq fault r S')
  then show ?case by (intro web_rate_login)
next
  case (register S now log rq fault r S')
  then show ?case by (intro web_rate_register)
next
  case (logout S now log csrf_ok cookie r S')
  then show ?case using route_frame(1) [OF logout(2)] web_rate_same [OF logout.IH] by auto
next
  case (visit S now log now' cookie r S')
  then show ?case using route_frame(2) [OF visit(3)] web_rate_same [OF visit.IH visit(2)] by auto
next
  case (delete S now log now' csrf_ok cookie r S')
  then show ?case using route_frame(3) [OF delete(3)] web_rate_same [OF delete.IH delete(2)] by auto
next
  case (webhook S now log i w)
  then show ?case using web_rate_same [OF webhook.IH] by simp
next
  case (purge S now log now')
  then show ?case using web_rate_same [OF purge.IH purge(2)] by simp
next
  case (bootstrap S now log now' hashed username password r S')
  then show ?case using route_frame(4) [OF bootstrap(3)] web_rate_same [OF bootstrap.IH bootstrap(2)] by auto
qed

text \<open>
  C22: Password hashing is rationed. However requests arrive, from wherever, with whatever content and
  however their tasks interleave: in any five minutes at most 200 hashes are started, at most 40 for one
  origin and at most 20 for registrations, twice each limit because a window may open just before; at most
  four requests wait for one; and the gate remembers at most 200 origins.
\<close>

theorem password_hashing_limited:
  assumes "web_reach verify S now log"
  shows "hashes_in t log \<le> 200 \<and> hashes_from k t log \<le> 40 \<and> sign_ups_in t log \<le> 20
    \<and> length (w_hashing S) \<le> 4 \<and> card (dom (ag_origins (w_gate S))) \<le> 200"
proof -
  have r: "web_rate t k S now log" using assms by (rule web_rate_reach)
  then have "card (dom (ag_origins (w_gate S))) \<le> 2 * MAX_GLOBAL_ATTEMPTS"
    using origins_ok_card by (simp add: web_rate_def)
  then show ?thesis using r by (simp add: web_rate_def gate_rate_def rate_ok_def throttle_limits)
qed

text \<open>A run: the operator's account is made, and its owner starts to sign in.\<close>

definition demo_request :: request where
  "demo_request = \<lparr> rq_origin = V4 1, rq_username = ''Admin'', rq_password = ''correct horse'', rq_csrf_ok = True, rq_now = 5 \<rparr>"

definition demo_booted :: web where
  "demo_booted = snd (server_bootstrap (Inr ''hash'') ''admin'' ''correct horse'' 3 new_web)"

definition demo_waiting :: web where
  "demo_waiting = snd (login_begin False demo_request demo_booted)"

lemmas demo_simps = server_bootstrap_def bootstrap_admin_def first_admin_def insert_user_def by_username_def validate_username_def
  validate_password_def username_char_def new_web_def empty_db_def bt_values_def Let_def

lemma demo_booted_is:
  "db_bootstrap (w_db demo_booted) = Some (Some 1)" "w_throttle demo_booted = Map.empty"
  "w_gate demo_booted = new_gate 4" "w_hashing demo_booted = []"
  by (simp_all add: demo_booted_def demo_simps throttle_limits)

lemma demo_waiting_is:
  "fst (login_begin False demo_request demo_booted) = None"
  "w_db demo_waiting = w_db demo_booted" "length (w_hashing demo_waiting) = 1"
proof -
  note s = demo_booted_is(2-4)
  have t: "allows Map.empty (rq_username demo_request) (rq_now demo_request) = (True, Map.empty)" by (simp add: allows_def)
  have g: "fst (gate_take (new_gate 4) origin at)" "\<exists>g. try_hash (snd (gate_take (new_gate 4) origin at)) = Some g" for origin at
    by (simp_all add: gate_take_def new_gate_def take_window_def try_hash_def map_retain_def sat_add_def throttle_limits Let_def)
  have c: "rq_csrf_ok demo_request" by (simp add: demo_request_def)
  show "fst (login_begin False demo_request demo_booted) = None"
    using g [of "rq_origin demo_request" "rq_now demo_request"] by (auto simp: login_begin_def c s t Let_def split: prod.split)
  show "w_db demo_waiting = w_db demo_booted" "length (w_hashing demo_waiting) = 1"
    using g [of "rq_origin demo_request" "rq_now demo_request"]
    by (auto simp: demo_waiting_def login_begin_def c s t Let_def split: prod.split)
qed

lemma demo_waiting_reached: "web_reach verify demo_waiting 5 [(SignIn, V4 1, 5)]"
proof -
  have l: "login_begin False demo_request demo_booted = (None, demo_waiting)"
    using demo_waiting_is(1) by (simp add: demo_waiting_def prod_eq_iff)
  have "web_reach verify demo_booted 3 []"
    unfolding demo_booted_def by (rule web_reach.bootstrap [OF web_reach.start]) (simp, rule surjective_pairing)
  from web_reach.login [OF this _ l] show ?thesis by (simp add: demo_request_def)
qed

theorem admins_only_by_bootstrap_witness:
  "db_bootstrap (w_db demo_waiting) = Some (Some 1) \<and>
   snd (server_bootstrap (Inr ''other'') ''mallory'' ''correct horse'' 9 demo_waiting) = demo_waiting"
proof -
  have b: "db_bootstrap (w_db demo_waiting) = Some (Some 1)" by (simp only: demo_waiting_is demo_booted_is)
  then have "snd (server_bootstrap (Inr ''other'') ''mallory'' ''correct horse'' 9 demo_waiting) = demo_waiting"
    using admins_only_by_bootstrap [OF demo_waiting_reached] by blast
  with b show ?thesis by blast
qed

theorem password_hashing_limited_witness:
  "hashes_in 0 [(SignIn, V4 1, 5)] = 1 \<and> hashes_in 0 [(SignIn, V4 1, 5)] \<le> 200 \<and>
   length (w_hashing demo_waiting) = 1 \<and> length (w_hashing demo_waiting) \<le> 4"
  using password_hashing_limited [OF demo_waiting_reached, of 0]
  by (simp add: demo_waiting_is inside_def WINDOW_MS_def)

end
