(* ===== verification/Floats.thy ===== *)
theory Floats
  imports Gavel_Prelude "HOL-Library.Log_Nat"
begin

text \<open>
  The arithmetic of Rust's \<open>f64\<close> as far as the market statistics use it. A finite double is the rational
  it stands for, and every operation is the exact one followed by \<open>f64\<close>, the rounding of IEEE 754 to the
  nearest double with ties to even, subnormals included. Overflow to infinity is left out: the values the
  statistics form are below \<open>2\<close> to the \<open>65\<close>. What the proofs use is that rounding is monotone and that it
  leaves integers of up to 53 bits alone.
\<close>

section \<open>Rounding\<close>

text \<open>The exponent of the leading bit of a positive number.\<close>

definition ilog2 :: "rat \<Rightarrow> int" where
  "ilog2 x = (let (a, b) = quotient_of x; e = bitlen a - bitlen b in if x < 2 powi e then e - 1 else e)"

definition round_half_even :: "rat \<Rightarrow> int" where
  "round_half_even x =
     (let n = \<lfloor>x\<rfloor>; d = x - of_int n in
      if d < 1 / 2 then n else if 1 / 2 < d then n + 1 else if even n then n else n + 1)"

text \<open>The distance between the doubles around a number.\<close>

definition f64_unit :: "rat \<Rightarrow> int" where
  "f64_unit x = max (ilog2 \<bar>x\<bar> - 52) (- 1074)"

definition f64 :: "rat \<Rightarrow> rat" where
  "f64 x = (if x = 0 then 0 else of_int (round_half_even (x / 2 powi f64_unit x)) * 2 powi f64_unit x)"

text \<open>\<open>round\<close> and the saturating cast of a value that is not negative.\<close>

definition round_away :: "rat \<Rightarrow> int" where
  "round_away x = (if 0 \<le> x then \<lfloor>x + 1 / 2\<rfloor> else - \<lfloor>1 / 2 - x\<rfloor>)"

definition f64_to_u64 :: "rat \<Rightarrow> nat" where
  "f64_to_u64 x = min u64_max (nat \<lfloor>x\<rfloor>)"

definition clamp :: "rat \<Rightarrow> rat \<Rightarrow> rat \<Rightarrow> rat" where
  "clamp lo hi x = (if x < lo then lo else if hi < x then hi else x)"

section \<open>Properties\<close>

lemma bitlen_bounds_rat:
  assumes "0 < n"
  shows "2 powi (bitlen n - 1) \<le> (of_int n :: rat)" "(of_int n :: rat) < 2 powi bitlen n"
proof -
  have b: "2 ^ nat (bitlen n - 1) \<le> n" "n < 2 ^ nat (bitlen n)" "0 < bitlen n"
    using bitlen_bounds [OF assms] bitlen_nonneg [of n] assms by (auto simp: bitlen_alt_def)
  have "(of_int (2 ^ nat (bitlen n - 1)) :: rat) \<le> of_int n" "(of_int n :: rat) < of_int (2 ^ nat (bitlen n))"
    using b(1,2) by (simp_all only: of_int_le_iff of_int_less_iff)
  then show "2 powi (bitlen n - 1) \<le> (of_int n :: rat)" "(of_int n :: rat) < 2 powi bitlen n"
    using b(3) by (simp_all add: power_int_nonneg_exp)
qed

lemma ilog2:
  assumes "0 < x"
  shows "2 powi ilog2 x \<le> x" "x < 2 powi (ilog2 x + 1)"
proof -
  obtain a b where q: "quotient_of x = (a, b)" by (metis surj_pair)
  have b: "0 < b" and x: "x = of_int a / of_int b"
    using quotient_of_denom_pos [OF q] quotient_of_div [OF q] by simp_all
  have a: "0 < a" using assms b x by (simp add: zero_less_divide_iff)
  let ?e = "bitlen a - bitlen b"
  have "x \<le> of_int a / 2 powi (bitlen b - 1)" "of_int a / 2 powi bitlen b < x"
    using bitlen_bounds_rat [OF b] a b unfolding x
    by (auto intro!: divide_left_mono divide_strict_left_mono mult_pos_pos)
  moreover have "of_int a / 2 powi (bitlen b - 1) < (2 :: rat) powi bitlen a / 2 powi (bitlen b - 1)"
    "(2 :: rat) powi (bitlen a - 1) / 2 powi bitlen b \<le> of_int a / 2 powi bitlen b"
    using bitlen_bounds_rat [OF a] by (simp_all add: divide_strict_right_mono divide_right_mono)
  moreover have "(2 :: rat) powi bitlen a / 2 powi (bitlen b - 1) = 2 powi (?e + 1)"
    "(2 :: rat) powi (bitlen a - 1) / 2 powi bitlen b = 2 powi (?e - 1)"
    by (simp_all add: power_int_diff [symmetric] algebra_simps)
  ultimately have "x < 2 powi (?e + 1)" "2 powi (?e - 1) \<le> x" by linarith+
  then show "2 powi ilog2 x \<le> x" "x < 2 powi (ilog2 x + 1)" by (simp_all add: ilog2_def q Let_def)
qed

lemma powi_le_iff [simp]: "(2 :: rat) powi i \<le> 2 powi j \<longleftrightarrow> i \<le> j"
  using power_int_increasing [of i j "2 :: rat"] power_int_strict_increasing [of j i "2 :: rat"] by (auto simp: not_le [symmetric])

lemma powi_less_iff [simp]: "(2 :: rat) powi i < 2 powi j \<longleftrightarrow> i < j"
  by (simp add: less_le_not_le)

lemma ilog2_mono: "0 < x \<Longrightarrow> x \<le> y \<Longrightarrow> ilog2 x \<le> ilog2 y"
  using ilog2 [of x] ilog2 [of y] order.strict_trans1 [of "2 powi ilog2 x" y "2 powi (ilog2 y + 1)"] by simp

lemma ilog2_eq: "0 < x \<Longrightarrow> 2 powi e \<le> x \<Longrightarrow> x < 2 powi (e + 1) \<Longrightarrow> ilog2 x = e"
  using ilog2 [of x] order.strict_trans1 [of "2 powi e" x "2 powi (ilog2 x + 1)"]
    order.strict_trans1 [of "2 powi ilog2 x" x "2 powi (e + 1)"] by simp

lemma round_half_even_int [simp]: "round_half_even (of_int n) = n"
  by (simp add: round_half_even_def)

lemma round_half_even_near: "of_int (round_half_even x) \<le> x + 1 / 2" "x - 1 / 2 \<le> of_int (round_half_even x)"
  unfolding round_half_even_def Let_def by (auto split: if_splits) linarith+

lemma round_half_even_mono: "x \<le> y \<Longrightarrow> round_half_even x \<le> round_half_even y"
proof -
  assume le: "x \<le> y"
  then have f: "\<lfloor>x\<rfloor> \<le> \<lfloor>y\<rfloor>" by (rule floor_mono)
  show ?thesis
  proof (cases "\<lfloor>x\<rfloor> = \<lfloor>y\<rfloor>")
    case True
    then show ?thesis using le by (auto simp: round_half_even_def Let_def)
  next
    case False
    then show ?thesis using f by (auto simp: round_half_even_def Let_def)
  qed
qed

lemma round_half_even_minus: "round_half_even (- x) = - round_half_even x"
proof (cases "x = of_int \<lfloor>x\<rfloor>")
  case True
  then show ?thesis by (metis of_int_minus round_half_even_int)
next
  case False
  then have "\<lfloor>- x\<rfloor> = - \<lfloor>x\<rfloor> - 1" by (intro floor_unique) linarith+
  then show ?thesis by (auto simp: round_half_even_def Let_def)
qed

lemma f64_zero [simp]: "f64 0 = 0"
  by (simp add: f64_def)

lemma f64_minus [simp]: "f64 (- x) = - f64 x"
  by (simp add: f64_def f64_unit_def round_half_even_minus)

lemma f64_pos_mono:
  assumes "0 < x" "x \<le> y"
  shows "f64 x \<le> f64 y"
proof -
  define u v where uv: "u = f64_unit x" "v = f64_unit y"
  have f: "f64 x = of_int (round_half_even (x / 2 powi u)) * 2 powi u" "f64 y = of_int (round_half_even (y / 2 powi v)) * 2 powi v"
    using assms by (simp_all add: f64_def uv)
  have le: "u \<le> v" using ilog2_mono [OF assms] assms by (simp add: uv f64_unit_def)
  show ?thesis
  proof (cases "u = v")
    case True
    have "x / 2 powi u \<le> y / 2 powi u" using assms(2) by (simp add: divide_right_mono)
    then show ?thesis using True f round_half_even_mono by (simp add: mult_right_mono)
  next
    case False
    let ?e = "ilog2 y"
    have v: "v = ?e - 52" "u < ?e - 52" using False le assms by (auto simp: uv f64_unit_def max_def split: if_splits)
    have "ilog2 x < ?e" using v assms uv by (auto simp: f64_unit_def)
    then have "(2 :: rat) powi (ilog2 x + 1) \<le> 2 powi ?e" by simp
    then have x: "x \<le> 2 powi ?e" using ilog2(2) [OF assms(1)] by linarith
    have k: "(2 :: rat) powi ?e = of_int (2 ^ nat (?e - w)) * 2 powi w" if "w \<le> ?e" for w
      using that by (simp add: power_int_nonneg_exp [symmetric] power_int_add [symmetric])
    have "x / 2 powi u \<le> of_int (2 ^ nat (?e - u))" using x k [of u] v by (simp add: pos_divide_le_eq)
    then have "round_half_even (x / 2 powi u) \<le> 2 ^ nat (?e - u)" by (metis round_half_even_int round_half_even_mono)
    then have "(of_int (round_half_even (x / 2 powi u)) :: rat) \<le> of_int (2 ^ nat (?e - u))" by (simp only: of_int_le_iff)
    then have "f64 x \<le> 2 powi ?e" using f(1) k [of u] v by (simp add: mult_right_mono)
    moreover
    have "of_int (2 ^ nat (?e - v)) \<le> y / 2 powi v" using ilog2(1) [of y] assms k [of v] v by (simp add: pos_le_divide_eq)
    then have "2 ^ nat (?e - v) \<le> round_half_even (y / 2 powi v)" by (metis round_half_even_int round_half_even_mono)
    then have "(of_int (2 ^ nat (?e - v)) :: rat) \<le> of_int (round_half_even (y / 2 powi v))" by (simp only: of_int_le_iff)
    then have "2 powi ?e \<le> f64 y" using f(2) k [of v] v by (simp add: mult_right_mono)
    ultimately show ?thesis by simp
  qed
qed

lemma f64_pos: "0 < x \<Longrightarrow> 0 \<le> f64 x"
  using round_half_even_mono [of 0 "x / 2 powi f64_unit x"] by (simp add: f64_def round_half_even_def [of 0])

lemma f64_mono: "x \<le> y \<Longrightarrow> f64 x \<le> f64 y"
proof -
  assume le: "x \<le> y"
  consider "0 < x" | "x \<le> 0" "0 \<le> y" | "y < 0" using le by linarith
  then show ?thesis
  proof cases
    case 2
    have "f64 x \<le> 0" using 2(1) f64_pos [of "- x"] by (cases "x = 0") auto
    moreover have "0 \<le> f64 y" using 2(2) f64_pos [of y] by (cases "y = 0") auto
    ultimately show ?thesis by simp
  next
    case 3
    then show ?thesis using le f64_pos_mono [of "- y" "- x"] by simp
  qed (use le f64_pos_mono in blast)
qed

lemma f64_pos_int:
  assumes "0 < n" "n \<le> 2 ^ 53"
  shows "f64 (of_int n) = of_int n"
proof -
  let ?x = "of_int n :: rat" let ?e = "ilog2 ?x"
  have x: "0 < ?x" using assms(1) by simp
  have "(2 :: rat) powi ?e \<le> of_int (2 ^ 53)" using ilog2(1) [OF x] assms(2) by (metis of_int_le_iff order_trans)
  then have e: "?e \<le> 53" using powi_le_iff [of ?e 53] by simp
  have "(2 :: rat) powi 0 < 2 powi (?e + 1)" using ilog2(2) [OF x] assms(1) by (simp add: order.strict_trans1 [of 1 ?x])
  then have nn: "0 \<le> ?e" by (simp only: powi_less_iff)
  then have u: "f64_unit ?x = ?e - 52" using x by (simp add: f64_unit_def)
  have "\<exists>k. ?x / 2 powi (?e - 52) = of_int k"
  proof (cases "?e \<le> 52")
    case True
    have "(2 :: rat) powi (?e - 52) * 2 powi (52 - ?e) = 1" by (simp add: power_int_add [symmetric])
    then have "?x / 2 powi (?e - 52) = ?x * 2 powi (52 - ?e)" by (simp add: field_simps)
    also have "\<dots> = of_int (n * 2 ^ nat (52 - ?e))" using True by (simp add: power_int_nonneg_exp)
    finally show ?thesis by blast
  next
    case False
    then have "?e = 53" using e by simp
    then have "of_int (2 ^ 53) \<le> ?x" using ilog2(1) [OF x] by simp
    then have "n = 2 ^ 53" using assms(2) by (simp only: of_int_le_iff)
    then show ?thesis using \<open>?e = 53\<close> by (intro exI [of _ "2 ^ 52"]) simp
  qed
  then obtain k where k: "?x / 2 powi (?e - 52) = of_int k" by blast
  then have "f64 ?x = of_int k * 2 powi (?e - 52)" using assms(1) by (simp add: f64_def u)
  then show ?thesis using k by (simp add: field_simps)
qed

lemma f64_nat [simp]: "n \<le> 2 ^ 53 \<Longrightarrow> f64 (of_nat n) = of_nat n"
proof (cases "n = 0")
  case False
  assume "n \<le> 2 ^ 53"
  then have "int n \<le> 2 ^ 53" by simp
  then show ?thesis using f64_pos_int [of "int n"] False by simp
qed simp

lemma f64_nonneg: "0 \<le> x \<Longrightarrow> 0 \<le> f64 x"
  using f64_mono [of 0 x] by simp

lemma f64_le_nat: "x \<le> of_nat n \<Longrightarrow> n \<le> 2 ^ 53 \<Longrightarrow> f64 x \<le> of_nat n"
  using f64_mono [of x "of_nat n"] by simp

lemma f64_ge_nat: "of_nat n \<le> x \<Longrightarrow> n \<le> 2 ^ 53 \<Longrightarrow> of_nat n \<le> f64 x"
  using f64_mono [of "of_nat n" x] by simp

lemma clamp_mono: "x \<le> y \<Longrightarrow> lo \<le> hi \<Longrightarrow> clamp lo hi x \<le> clamp lo hi y"
  by (auto simp: clamp_def)

lemma clamp_bounds: "lo \<le> hi \<Longrightarrow> lo \<le> clamp lo hi x \<and> clamp lo hi x \<le> hi"
  by (auto simp: clamp_def)

end
