(* ===== verification/Engine.thy ===== *)
theory Engine
  imports Depth Floats "HOL-Library.Monad_Syntax"
begin

text \<open>
  The statistics of a market's history (\<open>crates/app-core/src/market/engine.rs\<close>): hourly buckets, the
  type 8 sample quantile in floating point, the distribution summary, ranks and valuation bands, Tukey's
  fences, the evidence gates and the position of a price. Casts with \<open>as\<close> wrap at their width where the
  source does not clamp. Sparklines and charts are in \<open>Price_Series\<close>.
\<close>

section \<open>Hourly buckets\<close>

definition BUCKET_MS :: nat where
  "BUCKET_MS = 60 * 60 * 1000"

record buckets =
  b_prices :: "copper list"

text \<open>One step of the loop: the slot of the observation's hour keeps the later observation.\<close>

definition take_latest :: "millis \<times> copper \<Rightarrow> (nat, millis \<times> copper) btree \<Rightarrow> (nat, millis \<times> copper) btree" where
  "take_latest ob latest =
     (let b = fst ob div BUCKET_MS;
          slot = (case bt_get latest b of None \<Rightarrow> ob | Some s \<Rightarrow> s) in
      bt_insert b (if fst slot \<le> fst ob then ob else slot) latest)"

definition from_observations :: "(millis \<times> copper) list \<Rightarrow> buckets" where
  "from_observations obs = \<lparr> b_prices = sort (map snd (bt_values (fold take_latest obs []))) \<rparr>"

definition b_len :: "buckets \<Rightarrow> nat" where
  "b_len b = length (b_prices b)"

definition b_is_empty :: "buckets \<Rightarrow> bool" where
  "b_is_empty b \<longleftrightarrow> b_prices b = []"

text \<open>The literal \<open>1.0 / 3.0\<close>.\<close>

definition THIRD :: rat where
  "THIRD = f64 (1 / 3)"

definition quantile_h :: "nat \<Rightarrow> rat \<Rightarrow> rat" where
  "quantile_h n p = f64 (f64 (f64 (f64 (of_nat n) + THIRD) * clamp 0 1 p) + THIRD)"

definition quantile :: "buckets \<Rightarrow> rat \<Rightarrow> copper option" where
  "quantile b p =
     (let n = b_len b in
      if n = 0 then None
      else if n = 1 then Some (b_prices b ! 0)
      else let h = quantile_h n p;
               lower = nat \<lfloor>clamp 1 (f64 (of_nat n)) (of_int \<lfloor>h\<rfloor>)\<rfloor>;
               upper = min (lower + 1) n;
               low = f64 (of_nat (b_prices b ! (lower - 1)));
               high = f64 (of_nat (b_prices b ! (upper - 1)));
               v = f64 (low + f64 (clamp 0 1 (f64 (h - f64 (of_nat lower))) * f64 (high - low))) in
        Some (f64_to_u64 (max 0 (of_int (round_away v)))))"

definition rank_of :: "buckets \<Rightarrow> copper \<Rightarrow> nat option" where
  "rank_of b price =
     (if b_is_empty b then None
      else let below = partition_point (\<lambda>p. p < price) (b_prices b);
               at_or_below = partition_point (\<lambda>p. p \<le> price) (b_prices b) in
        Some (min 100 ((below + at_or_below) * 100 div (2 * b_len b))))"

section \<open>The distribution\<close>

record distribution =
  di_p05 :: copper
  di_p25 :: copper
  di_median :: copper
  di_p75 :: copper
  di_p95 :: copper
  di_iqr :: copper
  di_mad :: copper
  di_buckets :: nat

definition abs_diff :: "nat \<Rightarrow> nat \<Rightarrow> nat" where
  "abs_diff a b = (if a < b then b - a else a - b)"

definition distribution_of :: "buckets \<Rightarrow> distribution option" where
  "distribution_of b = do {
     median \<leftarrow> quantile b (f64 (1 / 2));
     p25 \<leftarrow> quantile b (f64 (1 / 4));
     p75 \<leftarrow> quantile b (f64 (3 / 4));
     mad \<leftarrow> quantile \<lparr> b_prices = sort (map (\<lambda>p. abs_diff p median) (b_prices b)) \<rparr> (f64 (1 / 2));
     p05 \<leftarrow> quantile b (f64 (1 / 20));
     p95 \<leftarrow> quantile b (f64 (19 / 20));
     Some \<lparr> di_p05 = p05, di_p25 = p25, di_median = median, di_p75 = p75, di_p95 = p95,
       di_iqr = p75 - p25, di_mad = mad, di_buckets = b_len b mod 2 ^ 32 \<rparr> }"

section \<open>Valuation and anomaly\<close>

datatype valuation = VeryCheap | Cheap | Typical | Expensive | VeryExpensive

definition all_valuations :: "valuation list" where
  "all_valuations = [VeryCheap, Cheap, Typical, Expensive, VeryExpensive]"

definition valuation_index :: "valuation \<Rightarrow> nat" where
  "valuation_index v = (case v of VeryCheap \<Rightarrow> 0 | Cheap \<Rightarrow> 1 | Typical \<Rightarrow> 2 | Expensive \<Rightarrow> 3 | VeryExpensive \<Rightarrow> 4)"

instantiation valuation :: linorder
begin

definition less_eq_valuation :: "valuation \<Rightarrow> valuation \<Rightarrow> bool" where
  "less_eq_valuation a b \<longleftrightarrow> valuation_index a \<le> valuation_index b"

definition less_valuation :: "valuation \<Rightarrow> valuation \<Rightarrow> bool" where
  "less_valuation a b \<longleftrightarrow> valuation_index a < valuation_index b"

instance
  by standard (auto simp: less_eq_valuation_def less_valuation_def valuation_index_def split: valuation.splits)

end

definition of_rank :: "nat \<Rightarrow> valuation" where
  "of_rank rank =
     (if rank \<le> 5 then VeryCheap else if rank \<le> 25 then Cheap else if rank \<le> 75 then Typical
      else if rank \<le> 95 then Expensive else VeryExpensive)"

fun valuation_str :: "valuation \<Rightarrow> string" where
  "valuation_str VeryCheap = ''Very cheap''"
| "valuation_str Cheap = ''Cheap''"
| "valuation_str Typical = ''Typical''"
| "valuation_str Expensive = ''Expensive''"
| "valuation_str VeryExpensive = ''Very expensive''"

fun valuation_slug :: "valuation \<Rightarrow> string" where
  "valuation_slug VeryCheap = ''very-cheap''"
| "valuation_slug Cheap = ''cheap''"
| "valuation_slug Typical = ''typical''"
| "valuation_slug Expensive = ''expensive''"
| "valuation_slug VeryExpensive = ''very-expensive''"

datatype anomaly = Ordinary | Mild | Extreme

definition beyond :: "distribution \<Rightarrow> copper \<Rightarrow> int \<Rightarrow> bool" where
  "beyond d price factor \<longleftrightarrow>
     int price < int (di_p25 d) - factor * int (di_iqr d) div 2 \<or> int (di_p75 d) + factor * int (di_iqr d) div 2 < int price"

definition anomaly_of :: "copper \<Rightarrow> distribution \<Rightarrow> anomaly" where
  "anomaly_of price d =
     (if di_iqr d = 0 then Ordinary
      else if beyond d price 6 then Extreme else if beyond d price 3 then Mild else Ordinary)"

fun anomaly_str :: "anomaly \<Rightarrow> string" where
  "anomaly_str Ordinary = ''Ordinary''"
| "anomaly_str Mild = ''Unusual''"
| "anomaly_str Extreme = ''Extreme''"

definition swing_of :: "buckets \<Rightarrow> nat" where
  "swing_of b =
     (if b_prices b = [] then 0
      else let mean = sum_list (b_prices b) div b_len b in
        if mean = 0 then 0 else (last (b_prices b) - hd (b_prices b)) * 100 div mean mod 2 ^ 32)"

section \<open>Evidence\<close>

datatype insufficient = NotEnoughHistory nat nat | TooManyGaps nat nat

record gates =
  g_median :: nat
  g_tails :: nat
  g_coverage :: nat

definition default_gates :: gates where
  "default_gates = \<lparr> g_median = 12, g_tails = 24, g_coverage = 25 \<rparr>"

definition admit :: "gates \<Rightarrow> nat \<Rightarrow> nat option \<Rightarrow> insufficient option" where
  "admit g held coverage =
     (if held < g_tails g then Some (NotEnoughHistory held (g_tails g))
      else case coverage of
          Some c \<Rightarrow> if c < g_coverage g then Some (TooManyGaps c (g_coverage g)) else None
        | None \<Rightarrow> None)"

definition admits_median :: "gates \<Rightarrow> nat \<Rightarrow> bool" where
  "admits_median g held \<longleftrightarrow> g_median g \<le> held"

record position =
  po_rank :: "nat option"
  po_valuation :: "valuation option"
  po_insufficient :: "insufficient option"
  po_from_median_percent :: "int option"
  po_anomaly :: anomaly

definition as_i32 :: "int \<Rightarrow> int" where
  "as_i32 x = (x + 2 ^ 31) mod 2 ^ 32 - 2 ^ 31"

definition from_median :: "copper \<Rightarrow> copper \<Rightarrow> int" where
  "from_median price median =
     (if median = 0 then 0 else as_i32 ((int price - int median) * 100 sdiv int median))"

definition position_of :: "copper \<Rightarrow> buckets \<Rightarrow> nat option \<Rightarrow> gates \<Rightarrow> position" where
  "position_of price b coverage g =
     (let held = b_len b mod 2 ^ 32 in
      case distribution_of b of
        None \<Rightarrow> \<lparr> po_rank = None, po_valuation = None, po_insufficient = Some (NotEnoughHistory 0 (g_tails g)),
          po_from_median_percent = None, po_anomaly = Ordinary \<rparr>
      | Some d \<Rightarrow>
          let rank = (if admits_median g held then rank_of b price else None);
              admitted = admit g held coverage in
          \<lparr> po_rank = rank,
            po_valuation = (case (admitted, rank) of (None, Some r) \<Rightarrow> Some (of_rank r) | _ \<Rightarrow> None),
            po_insufficient = (case admitted of
                None \<Rightarrow> if rank = None then Some (NotEnoughHistory held (g_median g)) else None
              | Some reason \<Rightarrow> Some reason),
            po_from_median_percent = (if admits_median g held then Some (from_median price (di_median d)) else None),
            po_anomaly = anomaly_of price d \<rparr>)"

section \<open>Quantiles\<close>

lemma floor_clamp: "\<lfloor>clamp 1 (of_nat n) (of_int k)\<rfloor> = max 1 (min (int n) k)" if "1 \<le> n"
  using that by (auto simp: clamp_def)

lemma third_pos: "0 \<le> THIRD"
  by (simp add: THIRD_def f64_nonneg)

lemma quantile_h_mono: "p \<le> q \<Longrightarrow> quantile_h n p \<le> quantile_h n q"
  unfolding quantile_h_def
  by (intro f64_mono add_right_mono mult_left_mono clamp_mono f64_nonneg add_nonneg_nonneg third_pos) auto

text \<open>A market with at least two hours, its prices sorted and below 2 to the 53.\<close>

definition tame :: "copper list \<Rightarrow> bool" where
  "tame ps \<longleftrightarrow> sorted ps \<and> (\<forall>p\<in>set ps. p \<le> 2 ^ 53) \<and> length ps \<le> 2 ^ 53"

definition quantile_lower :: "nat \<Rightarrow> rat \<Rightarrow> nat" where
  "quantile_lower n p = nat (max 1 (min (int n) \<lfloor>quantile_h n p\<rfloor>))"

definition quantile_value :: "copper list \<Rightarrow> rat \<Rightarrow> rat" where
  "quantile_value ps p =
     (let n = length ps; l = quantile_lower n p;
          low = of_nat (ps ! (l - 1)); high = of_nat (ps ! (min (l + 1) n - 1)) in
      f64 (low + f64 (clamp 0 1 (f64 (quantile_h n p - of_nat l)) * (high - low))))"

lemma quantile_lower_bounds: "1 \<le> n \<Longrightarrow> 1 \<le> quantile_lower n p \<and> quantile_lower n p \<le> n"
  by (auto simp: quantile_lower_def)

lemma quantile_lower_mono: "p \<le> q \<Longrightarrow> quantile_lower n p \<le> quantile_lower n q"
  unfolding quantile_lower_def
  by (intro nat_mono max.mono min.mono floor_mono quantile_h_mono) auto

lemma tame_nth:
  assumes "tame ps" "i \<le> j" "j < length ps"
  shows "ps ! i \<le> ps ! j"
  using assms by (auto simp: tame_def sorted_nth_mono)

lemma tame_le: "tame ps \<Longrightarrow> j < length ps \<Longrightarrow> ps ! j \<le> 2 ^ 53"
  by (simp add: tame_def)

lemma f64_diff_nat: "a \<le> b \<Longrightarrow> b \<le> 2 ^ 53 \<Longrightarrow> f64 (of_nat b - of_nat a) = of_nat b - of_nat a"
  using f64_nat [of "b - a"] by (simp add: of_nat_diff)

lemma quantile_value_eq:
  assumes "tame (b_prices b)" "2 \<le> b_len b"
  shows "quantile b p = Some (f64_to_u64 (max 0 (of_int (round_away (quantile_value (b_prices b) p)))))"
proof -
  let ?ps = "b_prices b" let ?n = "length ?ps" let ?l = "quantile_lower ?n p"
  have n: "?n \<le> 2 ^ 53" "2 \<le> ?n" using assms by (simp_all add: tame_def b_len_def)
  have l: "1 \<le> ?l" "?l \<le> ?n" using quantile_lower_bounds [of ?n p] n by auto
  have lower: "nat \<lfloor>clamp 1 (f64 (of_nat ?n)) (of_int \<lfloor>quantile_h ?n p\<rfloor>)\<rfloor> = ?l"
    using n floor_clamp [of ?n] by (simp add: quantile_lower_def)
  have le: "?ps ! (?l - 1) \<le> ?ps ! (min (?l + 1) ?n - 1)" "?ps ! (min (?l + 1) ?n - 1) \<le> 2 ^ 53"
    using l n by (auto intro!: tame_nth [OF assms(1)] tame_le [OF assms(1), simplified])
  have e: "f64 (of_nat (?ps ! (?l - 1))) = of_nat (?ps ! (?l - 1))"
    "f64 (of_nat (?ps ! (min (?l + 1) ?n - 1))) = of_nat (?ps ! (min (?l + 1) ?n - 1))" "f64 (of_nat ?l) = of_nat ?l"
    using le l n by (auto intro!: f64_nat)
  have "?ps \<noteq> []" "?n \<noteq> 1" using n by auto
  then show ?thesis
    unfolding quantile_def b_len_def Let_def lower quantile_value_def e f64_diff_nat [OF le] by simp
qed

lemma interpolation_bounds:
  assumes "a \<le> b" "b \<le> 2 ^ 53" "0 \<le> t" "t \<le> 1"
  shows "of_nat a \<le> f64 (of_nat a + f64 (t * (of_nat b - of_nat a)))"
    and "f64 (of_nat a + f64 (t * (of_nat b - of_nat a))) \<le> of_nat b"
proof -
  have d: "(0 :: rat) \<le> of_nat b - of_nat a" using assms(1) by simp
  have "0 \<le> f64 (t * (of_nat b - of_nat a))" using assms(3) d by (intro f64_nonneg mult_nonneg_nonneg)
  then show "of_nat a \<le> f64 (of_nat a + f64 (t * (of_nat b - of_nat a)))"
    using assms by (intro f64_ge_nat) auto
  have "t * (of_nat b - of_nat a) \<le> of_nat b - of_nat a" using mult_right_mono [OF assms(4) d] by simp
  then have "f64 (t * (of_nat b - of_nat a)) \<le> of_nat b - of_nat a"
    using f64_mono [of "t * (of_nat b - of_nat a)" "of_nat b - of_nat a"] f64_diff_nat [OF assms(1,2)] by simp
  then show "f64 (of_nat a + f64 (t * (of_nat b - of_nat a))) \<le> of_nat b"
    using assms by (intro f64_le_nat) auto
qed

lemma quantile_value_between:
  assumes "tame ps" "2 \<le> length ps"
  defines "l \<equiv> \<lambda>p. quantile_lower (length ps) p"
  shows "of_nat (ps ! (l p - 1)) \<le> quantile_value ps p"
    and "quantile_value ps p \<le> of_nat (ps ! (min (l p + 1) (length ps) - 1))"
proof -
  have l: "1 \<le> l p" "l p \<le> length ps" using quantile_lower_bounds [of "length ps" p] assms(2) by (auto simp: l_def)
  have "ps ! (l p - 1) \<le> ps ! (min (l p + 1) (length ps) - 1)" "ps ! (min (l p + 1) (length ps) - 1) \<le> 2 ^ 53"
    using l assms(2) by (auto intro!: tame_nth [OF assms(1)] tame_le [OF assms(1), simplified])
  note interpolation_bounds [OF this, of "clamp 0 1 (f64 (quantile_h (length ps) p - of_nat (l p)))"]
  then show "of_nat (ps ! (l p - 1)) \<le> quantile_value ps p"
    "quantile_value ps p \<le> of_nat (ps ! (min (l p + 1) (length ps) - 1))"
    using clamp_bounds [of 0 1] by (simp_all add: quantile_value_def Let_def l_def)
qed

lemma quantile_value_mono:
  assumes "tame ps" "2 \<le> length ps" "p \<le> q"
  shows "quantile_value ps p \<le> quantile_value ps q"
proof (cases "quantile_lower (length ps) p = quantile_lower (length ps) q")
  case True
  let ?l = "quantile_lower (length ps) q"
  have l: "1 \<le> ?l" "?l \<le> length ps" using quantile_lower_bounds [of "length ps" q] assms(2) by auto
  then have "(0 :: rat) \<le> of_nat (ps ! (min (?l + 1) (length ps) - 1)) - of_nat (ps ! (?l - 1))"
    using tame_nth [OF assms(1), of "?l - 1" "min (?l + 1) (length ps) - 1"] by simp
  then show ?thesis
    unfolding quantile_value_def Let_def True
    by (intro f64_mono add_left_mono mult_right_mono clamp_mono diff_right_mono quantile_h_mono assms(3)) auto
next
  case False
  let ?l = "quantile_lower (length ps) p" and ?m = "quantile_lower (length ps) q"
  have m: "?l < ?m" "1 \<le> ?l" "?m \<le> length ps"
    using False quantile_lower_mono [OF assms(3), of "length ps"] quantile_lower_bounds [of "length ps"] assms(2) by force+
  have "ps ! (min (?l + 1) (length ps) - 1) \<le> ps ! (?m - 1)"
    using m by (intro tame_nth [OF assms(1)]) auto
  then have "(of_nat (ps ! (min (?l + 1) (length ps) - 1)) :: rat) \<le> of_nat (ps ! (?m - 1))" by simp
  then show ?thesis
    using quantile_value_between(2) [OF assms(1,2), of p] quantile_value_between(1) [OF assms(1,2), of q] by linarith
qed

lemma round_away_mono: "x \<le> y \<Longrightarrow> 0 \<le> x \<Longrightarrow> round_away x \<le> round_away y"
  by (auto simp: round_away_def intro: floor_mono)

lemma round_away_nat: "round_away (of_nat n) = int n"
  by (simp add: round_away_def floor_unique)

lemma to_u64_round: "0 \<le> x \<Longrightarrow> x \<le> 2 ^ 53 \<Longrightarrow> f64_to_u64 (max 0 (of_int (round_away x))) = nat (round_away x)"
proof -
  assume x: "0 \<le> x" "x \<le> 2 ^ 53"
  have "0 \<le> round_away x" "round_away x \<le> 2 ^ 53"
    using round_away_mono [of 0 x] round_away_mono [of x "of_nat (2 ^ 53)"] round_away_nat [of "2 ^ 53"] x
    round_away_nat [of 0] by simp_all
  then show ?thesis by (simp add: f64_to_u64_def)
qed

lemma quantile_exact:
  assumes "tame (b_prices b)" "2 \<le> b_len b"
  shows "quantile b p = Some (nat (round_away (quantile_value (b_prices b) p)))"
    "0 \<le> quantile_value (b_prices b) p"
proof -
  let ?ps = "b_prices b" let ?l = "quantile_lower (length ?ps) p"
  have n: "2 \<le> length ?ps" using assms(2) by (simp add: b_len_def)
  have l: "1 \<le> ?l" "?l \<le> length ?ps" using quantile_lower_bounds [of "length ?ps" p] n by auto
  show nn: "0 \<le> quantile_value ?ps p"
    using quantile_value_between(1) [OF assms(1) n, of p] of_nat_0_le_iff order_trans by blast
  have "?ps ! (min (?l + 1) (length ?ps) - 1) \<le> 2 ^ 53" using l n by (intro tame_le [OF assms(1)]) auto
  then have "(of_nat (?ps ! (min (?l + 1) (length ?ps) - 1)) :: rat) \<le> of_nat (2 ^ 53)" by (simp only: of_nat_le_iff)
  then have "quantile_value ?ps p \<le> 2 ^ 53" using quantile_value_between(2) [OF assms(1) n, of p] by simp
  then show "quantile b p = Some (nat (round_away (quantile_value ?ps p)))"
    using quantile_value_eq [OF assms] to_u64_round [OF nn] by simp
qed

lemma quantile_mono:
  assumes "tame (b_prices b)" "p \<le> q" "quantile b p = Some x" "quantile b q = Some y"
  shows "x \<le> y"
proof (cases "2 \<le> b_len b")
  case True
  have "2 \<le> length (b_prices b)" using True by (simp add: b_len_def)
  then show ?thesis
    using quantile_exact [OF assms(1) True] quantile_value_mono [OF assms(1) _ assms(2)] assms(3,4)
    by (auto intro!: nat_mono round_away_mono)
next
  case False
  then show ?thesis using assms(3,4) by (auto simp: quantile_def Let_def split: if_splits)
qed

lemma quantile_range:
  assumes "tame (b_prices b)" "quantile b p = Some x"
  shows "hd (b_prices b) \<le> x" "x \<le> last (b_prices b)"
proof -
  let ?ps = "b_prices b"
  have ne: "?ps \<noteq> []" using assms(2) by (auto simp: quantile_def b_len_def Let_def)
  have "hd ?ps \<le> x \<and> x \<le> last ?ps"
  proof (cases "2 \<le> b_len b")
    case True
    let ?l = "quantile_lower (length ?ps) p"
    have n: "2 \<le> length ?ps" using True by (simp add: b_len_def)
    have l: "1 \<le> ?l" "?l \<le> length ?ps" using quantile_lower_bounds [of "length ?ps" p] n by auto
    have "?ps ! 0 \<le> ?ps ! (?l - 1)" "?ps ! (min (?l + 1) (length ?ps) - 1) \<le> ?ps ! (length ?ps - 1)"
      using l n by (auto intro!: tame_nth [OF assms(1)])
    then have "(of_nat (?ps ! 0) :: rat) \<le> of_nat (?ps ! (?l - 1))"
      "(of_nat (?ps ! (min (?l + 1) (length ?ps) - 1)) :: rat) \<le> of_nat (?ps ! (length ?ps - 1))" by simp_all
    then have "of_nat (?ps ! 0) \<le> quantile_value ?ps p" "quantile_value ?ps p \<le> of_nat (?ps ! (length ?ps - 1))"
      using quantile_value_between [OF assms(1) n, of p] by linarith+
    then have "int (?ps ! 0) \<le> round_away (quantile_value ?ps p)" "round_away (quantile_value ?ps p) \<le> int (?ps ! (length ?ps - 1))"
      using round_away_mono quantile_exact(2) [OF assms(1) True] by (metis of_nat_0_le_iff round_away_nat)+
    then show ?thesis
      using quantile_exact(1) [OF assms(1) True, of p] assms(2) ne by (auto simp: hd_conv_nth last_conv_nth)
  next
    case False
    then have "length ?ps = 1" using ne by (cases ?ps) (simp_all add: b_len_def not_le)
    then obtain y where "?ps = [y]" by (auto simp: length_Suc_conv)
    then show ?thesis using assms(2) by (simp add: quantile_def b_len_def)
  qed
  then show "hd ?ps \<le> x" "x \<le> last ?ps" by simp_all
qed

lemma quantile_None: "quantile b p = None \<longleftrightarrow> b_prices b = []"
  by (simp add: quantile_def b_len_def Let_def)

lemma distribution_None: "distribution_of b = None \<longleftrightarrow> b_prices b = []"
proof (cases "b_prices b = []")
  case True
  then show ?thesis using quantile_None [of b] by (simp add: distribution_of_def)
next
  case False
  then have "quantile b p \<noteq> None" for p using quantile_None [of b] by simp
  moreover have "sort (map (\<lambda>p. abs_diff p m) (b_prices b)) \<noteq> []" for m
    using False by (metis length_0_conv length_map length_sort)
  then have "quantile \<lparr> b_prices = sort (map (\<lambda>p. abs_diff p m) (b_prices b)) \<rparr> p \<noteq> None" for m p
    by (simp add: quantile_None)
  ultimately show ?thesis using False by (auto simp: distribution_of_def bind_eq_None_conv)
qed

text \<open>The order of the percentiles for any sorted prices; what \<open>from_observations\<close> gives it follows below.\<close>

lemma distribution_sorted:
  assumes "sorted (b_prices b)" "\<forall>p\<in>set (b_prices b). p \<le> 2 ^ 53" "b_len b \<le> u32_max"
  shows "(distribution_of b = None \<longleftrightarrow> b_is_empty b)
    \<and> (\<forall>d. distribution_of b = Some d \<longrightarrow>
        hd (b_prices b) \<le> di_p05 d \<and> di_p05 d \<le> di_p25 d \<and> di_p25 d \<le> di_median d \<and> di_median d \<le> di_p75 d
        \<and> di_p75 d \<le> di_p95 d \<and> di_p95 d \<le> last (b_prices b) \<and> di_p25 d + di_iqr d = di_p75 d
        \<and> (\<exists>p\<in>set (b_prices b). di_mad d \<le> abs_diff p (di_median d)) \<and> di_buckets d = b_len b)"
proof (intro conjI allI impI)
  show "distribution_of b = None \<longleftrightarrow> b_is_empty b"
    by (simp add: distribution_None b_is_empty_def)
  fix d
  assume "distribution_of b = Some d"
  then obtain mad p05 p25 m p75 p95 where
    q: "quantile b (f64 (1 / 20)) = Some p05" "quantile b (f64 (1 / 4)) = Some p25" "quantile b (f64 (1 / 2)) = Some m"
      "quantile b (f64 (3 / 4)) = Some p75" "quantile b (f64 (19 / 20)) = Some p95"
    and mad: "quantile \<lparr> b_prices = sort (map (\<lambda>p. abs_diff p m) (b_prices b)) \<rparr> (f64 (1 / 2)) = Some mad"
    and d: "d = \<lparr> di_p05 = p05, di_p25 = p25, di_median = m, di_p75 = p75, di_p95 = p95, di_iqr = p75 - p25, di_mad = mad,
      di_buckets = b_len b mod 2 ^ 32 \<rparr>"
    by (auto simp: distribution_of_def bind_eq_Some_conv)
  have tame: "tame (b_prices b)" using assms by (auto simp: tame_def b_len_def)
  have lits: "f64 (1 / 20) \<le> f64 (1 / 4)" "f64 (1 / 4) \<le> f64 (1 / 2)" "f64 (1 / 2) \<le> f64 (3 / 4)" "f64 (3 / 4) \<le> f64 (19 / 20)"
    by (auto intro!: f64_mono)
  note mono = quantile_mono [OF tame lits(1) q(1,2)] quantile_mono [OF tame lits(2) q(2,3)]
    quantile_mono [OF tame lits(3) q(3,4)] quantile_mono [OF tame lits(4) q(4,5)]
  then show "di_p05 d \<le> di_p25 d" "di_p25 d \<le> di_median d" "di_median d \<le> di_p75 d" "di_p75 d \<le> di_p95 d" "di_p25 d + di_iqr d = di_p75 d"
    by (simp_all add: d)
  show "hd (b_prices b) \<le> di_p05 d" "di_p95 d \<le> last (b_prices b)"
    using quantile_range [OF tame q(1)] quantile_range [OF tame q(5)] by (simp_all add: d)
  show "di_buckets d = b_len b" using assms(3) by (simp add: d)
  let ?ds = "sort (map (\<lambda>p. abs_diff p m) (b_prices b))"
  have ne: "b_prices b \<noteq> []" using q(1) quantile_None [of b] by auto
  have "m \<le> 2 ^ 53" using quantile_range(2) [OF tame q(3)] assms(2) last_in_set [OF ne] by (meson order_trans)
  then have "\<forall>p\<in>set (b_prices b). abs_diff p m \<le> 2 ^ 53" using assms(2) by (fastforce simp: abs_diff_def)
  then have "tame ?ds" using tame by (simp add: tame_def)
  then have "mad \<le> last ?ds" using quantile_range(2) [of "\<lparr> b_prices = ?ds \<rparr>"] mad by simp
  moreover have "?ds \<noteq> []" using ne by (metis length_0_conv length_map length_sort)
  then have "last ?ds \<in> set ?ds" by (rule last_in_set)
  ultimately show "\<exists>p\<in>set (b_prices b). di_mad d \<le> abs_diff p (di_median d)" by (auto simp: d)
qed

section \<open>Positions\<close>

lemma partition_sorted:
  assumes "sorted ps" "\<And>x y. x \<le> y \<Longrightarrow> P y \<Longrightarrow> P x"
  shows "partition_point P ps = length (filter P ps)"
  using assms(1)
proof (induction ps)
  case (Cons x ps)
  have "filter P ps = []" if "\<not> P x" using Cons.prems assms(2) that by (auto simp: filter_empty_conv)
  then show ?case using Cons by (auto simp: partition_point_def)
qed (simp add: partition_point_def)

lemma percent_le: "k \<le> n \<Longrightarrow> k * 100 div n \<le> 100" for k n :: nat
  using div_le_mono [of "k * 100" "n * 100" n] by (cases "n = 0") simp_all

lemma rank_counts:
  assumes "sorted (b_prices b)"
  shows "rank_of b price =
    (if b_prices b = [] then None
     else Some ((length (filter (\<lambda>p. p < price) (b_prices b)) + length (filter (\<lambda>p. p \<le> price) (b_prices b))) * 100
       div (2 * b_len b)))"
proof -
  let ?k = "length (filter (\<lambda>p. p < price) (b_prices b)) + length (filter (\<lambda>p. p \<le> price) (b_prices b))"
  have "?k \<le> 2 * b_len b"
    using length_filter_le [of "\<lambda>p. p < price" "b_prices b"] length_filter_le [of "\<lambda>p. p \<le> price" "b_prices b"]
    unfolding b_len_def by linarith
  then have "?k * 100 div (2 * b_len b) \<le> 100" by (rule percent_le)
  then show ?thesis
    using partition_sorted [OF assms, of "\<lambda>p. p < price"] partition_sorted [OF assms, of "\<lambda>p. p \<le> price"]
    by (simp add: rank_of_def b_is_empty_def Let_def)
qed

lemma length_filter_mono: "(\<And>x. P x \<Longrightarrow> Q x) \<Longrightarrow> length (filter P xs) \<le> length (filter Q xs)"
  by (induction xs) (auto simp: le_SucI)

lemma rank_mono:
  assumes "sorted (b_prices b)" "price \<le> price'" "rank_of b price = Some r" "rank_of b price' = Some r'"
  shows "r \<le> r'"
  using assms(3,4) length_filter_mono [of "\<lambda>p. p < price" "\<lambda>p. p < price'" "b_prices b"]
    length_filter_mono [of "\<lambda>p. p \<le> price" "\<lambda>p. p \<le> price'" "b_prices b"] assms(2)
  by (auto simp: rank_counts [OF assms(1)] split: if_splits intro!: div_le_mono add_mono)

lemma of_rank_mono: "r \<le> r' \<Longrightarrow> of_rank r \<le> of_rank r'"
  by (auto simp: of_rank_def less_eq_valuation_def valuation_index_def)

text \<open>The position, given the distribution and the rank.\<close>

definition position_with :: "distribution \<Rightarrow> copper \<Rightarrow> buckets \<Rightarrow> nat option \<Rightarrow> nat option \<Rightarrow> position" where
  "position_with d price b coverage rank =
     (let admitted = admit default_gates (b_len b) coverage in
      \<lparr> po_rank = rank,
        po_valuation = (case (admitted, rank) of (None, Some r) \<Rightarrow> Some (of_rank r) | _ \<Rightarrow> None),
        po_insufficient = (case admitted of
            None \<Rightarrow> if rank = None then Some (NotEnoughHistory (b_len b) (g_median default_gates)) else None
          | Some reason \<Rightarrow> Some reason),
        po_from_median_percent = (if admits_median default_gates (b_len b) then Some (from_median price (di_median d)) else None),
        po_anomaly = anomaly_of price d \<rparr>)"

text \<open>
  A price gets a band exactly when the evidence supports one, and a reason exactly when it does not.
  There is a valuation exactly with at least 24 hours and, where the window has a datable start, a quarter
  of its hours observed; it is the band of the mid-rank, the percentage of hours cheaper plus half of
  those at the same price; a dearer price never has a lower rank or band; and a market that never moved
  is at rank 50, typical.
\<close>

lemma position_by_evidence:
  assumes "sorted (b_prices b)" "b_len b \<le> u32_max"
  shows "(po_valuation (position_of price b coverage default_gates) \<noteq> None \<longleftrightarrow>
        24 \<le> b_len b \<and> (coverage = None \<or> (\<exists>c. coverage = Some c \<and> 25 \<le> c)))
    \<and> (po_insufficient (position_of price b coverage default_gates) = None \<longleftrightarrow>
        po_valuation (position_of price b coverage default_gates) \<noteq> None)
    \<and> (\<forall>v. po_valuation (position_of price b coverage default_gates) = Some v \<longrightarrow>
        v = of_rank ((length (filter (\<lambda>p. p < price) (b_prices b)) + length (filter (\<lambda>p. p \<le> price) (b_prices b))) * 100
              div (2 * b_len b)))
    \<and> (\<forall>price' v v'. price \<le> price' \<and> po_valuation (position_of price b coverage default_gates) = Some v
        \<and> po_valuation (position_of price' b coverage default_gates) = Some v' \<longrightarrow> v \<le> v')
    \<and> (12 \<le> b_len b \<and> set (b_prices b) = {price} \<longrightarrow> po_rank (position_of price b coverage default_gates) = Some 50)"
proof -
  let ?V = "\<lambda>x. po_valuation (position_of x b coverage default_gates)"
  let ?r = "\<lambda>x. (length (filter (\<lambda>p. p < x) (b_prices b)) + length (filter (\<lambda>p. p \<le> x) (b_prices b))) * 100 div (2 * b_len b)"
  let ?ok = "24 \<le> b_len b \<and> (coverage = None \<or> (\<exists>c. coverage = Some c \<and> 25 \<le> c))"
  have held: "b_len b mod 2 ^ 32 = b_len b" using assms(2) by simp
  note none = distribution_None [of b]
  have empty: "b_prices b = [] \<longleftrightarrow> b_len b = 0" by (simp add: b_len_def)
  have adm: "admit default_gates (b_len b) coverage = None \<longleftrightarrow> ?ok"
    by (auto simp: admit_def default_gates_def split: option.split)
  have rank: "(if admits_median default_gates (b_len b) then rank_of b x else None) =
      (if 12 \<le> b_len b then Some (?r x) else None)" for x
    using empty by (auto simp: admits_median_def default_gates_def rank_counts [OF assms(1)])
  have V: "?V x = (if ?ok then Some (of_rank (?r x)) else None)"
    and I: "po_insufficient (position_of x b coverage default_gates) = None \<longleftrightarrow> ?ok"
    and R: "12 \<le> b_len b \<Longrightarrow> po_rank (position_of x b coverage default_gates) = Some (?r x)" for x
  proof (atomize (full), cases "distribution_of b")
    case None
    then show "?V x = (if ?ok then Some (of_rank (?r x)) else None) \<and>
      (po_insufficient (position_of x b coverage default_gates) = None \<longleftrightarrow> ?ok) \<and>
      (12 \<le> b_len b \<longrightarrow> po_rank (position_of x b coverage default_gates) = Some (?r x))"
      using none empty by (simp add: position_of_def)
  next
    case (Some d)
    have p: "position_of x b coverage default_gates = position_with d x b coverage (if 12 \<le> b_len b then Some (?r x) else None)"
      unfolding position_of_def position_with_def Let_def held Some option.case rank by (rule refl)
    show "?V x = (if ?ok then Some (of_rank (?r x)) else None) \<and>
      (po_insufficient (position_of x b coverage default_gates) = None \<longleftrightarrow> ?ok) \<and>
      (12 \<le> b_len b \<longrightarrow> po_rank (position_of x b coverage default_gates) = Some (?r x))"
      unfolding p using adm by (cases "admit default_gates (b_len b) coverage") (auto simp: position_with_def)
  qed
  have "v \<le> v'" if "price \<le> price'" "?V price = Some v" "?V price' = Some v'" for price' v v'
  proof -
    have k: ?ok using that(2) unfolding V by (cases ?ok) simp_all
    then have "b_prices b \<noteq> []" using empty by simp
    then have "rank_of b price = Some (?r price)" "rank_of b price' = Some (?r price')"
      by (simp_all only: rank_counts [OF assms(1)] if_False)
    then have "of_rank (?r price) \<le> of_rank (?r price')" by (intro of_rank_mono rank_mono [OF assms(1) that(1)])
    moreover have "v = of_rank (?r price)" "v' = of_rank (?r price')" using that(2,3) k unfolding V by simp_all
    ultimately show ?thesis by (simp only:)
  qed
  moreover have "po_rank (position_of price b coverage default_gates) = Some 50" if "12 \<le> b_len b" "set (b_prices b) = {price}"
  proof -
    have "filter (\<lambda>p. p < price) (b_prices b) = []" "filter (\<lambda>p. p \<le> price) (b_prices b) = b_prices b"
      using that(2) by (auto simp: filter_empty_conv intro!: filter_True)
    then have "?r price = b_len b * 100 div (2 * b_len b)" by (simp add: b_len_def)
    also have "\<dots> = 50" using that(1) by (simp add: div_mult2_eq)
    finally show ?thesis using R [OF that(1)] by simp
  qed
  ultimately show ?thesis using V I by auto
qed

section \<open>One price per hour\<close>

text \<open>The reference: of the observations of an hour the last of the latest.\<close>

definition hour_obs :: "(millis \<times> copper) list \<Rightarrow> nat \<Rightarrow> (millis \<times> copper) list" where
  "hour_obs obs k = filter (\<lambda>ob. fst ob div BUCKET_MS = k) obs"

definition last_latest :: "('a \<Rightarrow> nat) \<Rightarrow> 'a list \<Rightarrow> 'a" where
  "last_latest f xs = last (filter (\<lambda>x. f x = Max (f ` set xs)) xs)"

lemma last_latest_snoc:
  "last_latest f (xs @ [x]) = (if xs = [] \<or> f (last_latest f xs) \<le> f x then x else last_latest f xs)"
proof (cases "xs = []")
  case False
  define M where "M = Max (f ` set xs)"
  have "M \<in> f ` set xs" unfolding M_def using False by (intro Max_in) auto
  then have "filter (\<lambda>y. f y = M) xs \<noteq> []" unfolding filter_empty_conv by (metis imageE)
  moreover have l: "last_latest f xs = last (filter (\<lambda>y. f y = M) xs)" by (simp add: last_latest_def M_def)
  ultimately have "last_latest f xs \<in> set (filter (\<lambda>y. f y = M) xs)" by (metis last_in_set)
  then have m: "f (last_latest f xs) = M" by simp
  have "Max (f ` set (xs @ [x])) = max (f x) M" using False by (simp add: Max_insert M_def)
  then have s: "last_latest f (xs @ [x]) = last (filter (\<lambda>y. f y = max (f x) M) (xs @ [x]))"
    by (simp only: last_latest_def)
  show ?thesis
  proof (cases "M \<le> f x")
    case True
    then show ?thesis using s False m by (simp add: max_absorb1)
  next
    case False
    then show ?thesis using s \<open>xs \<noteq> []\<close> m l by (simp add: max_def)
  qed
qed (simp add: last_latest_def)

lemma last_latest_in: "xs \<noteq> [] \<Longrightarrow> last_latest f xs \<in> set xs"
proof (induction xs rule: rev_induct)
  case (snoc x xs)
  then show ?case by (cases "xs = []") (auto simp: last_latest_snoc [of f xs] last_latest_def [of f "[x]"])
qed simp

lemma latest_get:
  "bt_wf (fold take_latest obs []) \<and>
   bt_get (fold take_latest obs []) k = (if hour_obs obs k = [] then None else Some (last_latest fst (hour_obs obs k)))"
proof (induction obs arbitrary: k rule: rev_induct)
  case (snoc x xs)
  let ?m = "fold take_latest xs []" let ?b = "fst x div BUCKET_MS"
  have wf: "bt_wf ?m" using snoc by blast
  have get: "bt_get ?m k = (if hour_obs xs k = [] then None else Some (last_latest fst (hour_obs xs k)))" for k
    using snoc by blast
  have h: "hour_obs (xs @ [x]) k = hour_obs xs k @ (if ?b = k then [x] else [])" by (simp add: hour_obs_def)
  have "fold take_latest (xs @ [x]) [] = take_latest x ?m" by simp
  moreover have "bt_wf (take_latest x ?m)" using wf by (simp add: take_latest_def Let_def)
  moreover have "bt_get (take_latest x ?m) k =
      (if hour_obs (xs @ [x]) k = [] then None else Some (last_latest fst (hour_obs (xs @ [x]) k)))"
    by (auto simp: take_latest_def Let_def get h last_latest_snoc)
  ultimately show ?case by simp
qed (simp add: hour_obs_def)

lemma bt_values_keys: "bt_wf m \<Longrightarrow> bt_values m = map (\<lambda>k. the (bt_get m k)) (bt_keys m)"
  by (auto simp: bt_values_def bt_keys_def bt_get_iff_entry [symmetric] intro!: map_cong)

lemma bt_keys_sorted: "bt_wf m \<Longrightarrow> bt_keys m = sorted_list_of_set (set (bt_keys m))"
  using sorted_list_of_set.idem_if_sorted_distinct [of "bt_keys m"] by (simp add: bt_wf_def bt_keys_def strict_sorted_iff)

text \<open>
  A history counts each hour once. The prices of the buckets are, sorted, one price for every hour in
  which there was an observation: that of the latest observation of the hour, the last one if several
  carry the same time.
\<close>

lemma buckets_one_price_per_hour:
  "b_prices (from_observations obs) =
     sort (map (\<lambda>k. snd (last_latest fst (hour_obs obs k))) (sorted_list_of_set ((\<lambda>ob. fst ob div BUCKET_MS) ` set obs)))"
proof -
  let ?m = "fold take_latest obs []"
  have wf: "bt_wf ?m" using latest_get by blast
  have get: "bt_get ?m k = (if hour_obs obs k = [] then None else Some (last_latest fst (hour_obs obs k)))" for k
    using latest_get by blast
  have "k \<in> set (bt_keys ?m) \<longleftrightarrow> hour_obs obs k \<noteq> []" for k using bt_keys_get [of k ?m] get [of k] by auto
  then have keys: "set (bt_keys ?m) = (\<lambda>ob. fst ob div BUCKET_MS) ` set obs"
    by (auto simp: hour_obs_def filter_empty_conv image_iff)
  have "map snd (bt_values ?m) = map (\<lambda>k. snd (the (bt_get ?m k))) (bt_keys ?m)" using bt_values_keys [OF wf] by simp
  also have "\<dots> = map (\<lambda>k. snd (last_latest fst (hour_obs obs k))) (bt_keys ?m)"
    using get bt_keys_get [of _ ?m] by (auto split: if_splits)
  finally show ?thesis using bt_keys_sorted [OF wf] keys by (simp add: from_observations_def)
qed

lemma bucket_price_in: "p \<in> set (b_prices (from_observations obs)) \<Longrightarrow> \<exists>t. (t, p) \<in> set obs"
proof -
  assume "p \<in> set (b_prices (from_observations obs))"
  then obtain v where v: "v \<in> set (bt_values (fold take_latest obs []))" "p = snd v" by (auto simp: from_observations_def)
  then obtain k where "bt_get (fold take_latest obs []) k = Some v"
    using bt_values_get [OF latest_get [of obs, THEN conjunct1]] v(1) by metis
  then have "hour_obs obs k \<noteq> []" "v = last_latest fst (hour_obs obs k)" using latest_get [of obs k] by (auto split: if_splits)
  then have "v \<in> set (hour_obs obs k)" using last_latest_in by blast
  then have "v \<in> set obs" by (simp add: hour_obs_def)
  then show ?thesis using v(2) by (metis prod.collapse)
qed

lemma bucket_count_le: "length (b_prices (from_observations obs)) \<le> length obs"
proof -
  have "length (bt_insert k v m) \<le> Suc (length m)" for k :: nat and v :: "millis \<times> copper" and m
    by (induction k v m rule: bt_insert.induct) auto
  then have one: "length (take_latest ob m) \<le> Suc (length m)" for ob m by (simp add: take_latest_def Let_def)
  have "length (fold take_latest obs m) \<le> length obs + length m" for m
  proof (induction obs arbitrary: m)
    case (Cons ob obs)
    show ?case using Cons.IH [of "take_latest ob m"] one [of ob m] by simp
  qed simp
  from this [of "[]"] show ?thesis by (simp add: from_observations_def bt_values_def)
qed

section \<open>The distribution of a history\<close>

text \<open>One price for every hour with an observation, hour by hour.\<close>

definition hourly_prices :: "(millis \<times> copper) list \<Rightarrow> copper list" where
  "hourly_prices obs =
     map (\<lambda>k. snd (last_latest fst (hour_obs obs k))) (sorted_list_of_set ((\<lambda>ob. fst ob div BUCKET_MS) ` set obs))"

lemma buckets_hourly: "b_prices (from_observations obs) = sort (hourly_prices obs)"
  by (simp add: buckets_one_price_per_hour hourly_prices_def)

lemma hourly_prices_empty: "hourly_prices obs = [] \<longleftrightarrow> obs = []"
  by (auto simp: hourly_prices_def)

text \<open>
  C27: The summary of a market's history is in order. For any observations, in any order, of prices up to 2 to
  the 53 (where \<open>f64\<close> holds whole numbers exactly) and at most \<open>u32::MAX\<close> of them, with the interpolation done in
  \<open>f64\<close> as the source does it, each step rounded to the nearest and ties to even: there is a summary exactly when
  there is an observation; its five percentiles ascend and lie between the least and the greatest of the hourly
  prices, the latest price of each hour observed; the interquartile range is the exact difference of its
  quartiles; the median deviation is at most the largest deviation from the median; and the count is that of the
  hours.
\<close>
theorem distribution_in_order:
  assumes "\<forall>ob\<in>set obs. snd ob \<le> 2 ^ 53" "length obs \<le> u32_max"
  shows "(distribution_of (from_observations obs) = None \<longleftrightarrow> obs = [])
    \<and> (\<forall>d. distribution_of (from_observations obs) = Some d \<longrightarrow>
        Min (set (hourly_prices obs)) \<le> di_p05 d \<and> di_p05 d \<le> di_p25 d \<and> di_p25 d \<le> di_median d
        \<and> di_median d \<le> di_p75 d \<and> di_p75 d \<le> di_p95 d \<and> di_p95 d \<le> Max (set (hourly_prices obs))
        \<and> di_p25 d + di_iqr d = di_p75 d
        \<and> (\<exists>p\<in>set (hourly_prices obs). di_mad d \<le> abs_diff p (di_median d))
        \<and> di_buckets d = card ((\<lambda>ob. fst ob div BUCKET_MS) ` set obs))"
proof -
  let ?b = "from_observations obs"
  have len: "b_len ?b = card ((\<lambda>ob. fst ob div BUCKET_MS) ` set obs)"
    by (simp add: b_len_def buckets_hourly hourly_prices_def)
  have h: "sorted (b_prices ?b)" "\<forall>p\<in>set (b_prices ?b). p \<le> 2 ^ 53" "b_len ?b \<le> u32_max"
    using assms bucket_price_in [of _ obs] bucket_count_le [of obs]
    by (simp add: buckets_hourly, fastforce, simp add: b_len_def)
  have none: "distribution_of ?b = None \<longleftrightarrow> obs = []"
    using distribution_None [of ?b] hourly_prices_empty [of obs] by (metis buckets_hourly length_0_conv length_sort)
  have ends: "hd (b_prices ?b) = Min (set (hourly_prices obs))" "last (b_prices ?b) = Max (set (hourly_prices obs))"
    if "distribution_of ?b = Some d" for d
    using that none sort_ends [of "hourly_prices obs"] by (auto simp: buckets_hourly hourly_prices_empty)
  have set: "set (b_prices ?b) = set (hourly_prices obs)" by (simp add: buckets_hourly)
  show ?thesis
    using none distribution_sorted [OF h, THEN conjunct2] ends unfolding set len by auto
qed

theorem distribution_in_order_witness:
  "\<exists>d. distribution_of (from_observations [(0, 150), (3600000, 100), (7200000, 130), (7300000, 120)]) = Some d \<and>
     100 \<le> di_p05 d \<and> di_p05 d \<le> di_median d \<and> di_p95 d \<le> 150 \<and> di_p25 d + di_iqr d = di_p75 d \<and> di_buckets d = 3"
proof -
  let ?o = "[(0, 150), (3600000, 100), (7200000, 130), (7300000, 120)] :: (millis \<times> copper) list"
  have h: "\<forall>ob\<in>set ?o. snd ob \<le> 2 ^ 53" "length ?o \<le> u32_max" by simp_all
  have hours: "(\<lambda>ob. fst ob div BUCKET_MS) ` set ?o = {0, 1, 2}" by (simp add: BUCKET_MS_def)
  have "sorted_list_of_set {0, 1, 2 :: nat} = [0, 1, 2]" by simp
  then have p: "hourly_prices ?o = [150, 100, 120]"
    unfolding hourly_prices_def hours by (simp add: hour_obs_def BUCKET_MS_def last_latest_def)
  have "distribution_of (from_observations ?o) \<noteq> None"
    using distribution_in_order [OF h, THEN conjunct1] by simp
  then obtain d where d: "distribution_of (from_observations ?o) = Some d" by blast
  show ?thesis
    using d distribution_in_order [OF h, THEN conjunct2, rule_format, OF d] unfolding p hours by auto
qed

lemma position_by_evidence_example:
  "po_valuation (position_of 100 \<lparr> b_prices = replicate 24 100 \<rparr> (Some 80) default_gates) = Some Typical
   \<and> po_rank (position_of 100 \<lparr> b_prices = replicate 24 100 \<rparr> (Some 80) default_gates) = Some 50
   \<and> po_valuation (position_of 100 \<lparr> b_prices = replicate 24 100 \<rparr> (Some 10) default_gates) = None"
proof -
  let ?b = "\<lparr> b_prices = replicate 24 100 \<rparr> :: buckets"
  have h: "sorted (b_prices ?b)" "b_len ?b \<le> u32_max" by (simp_all add: b_len_def sorted_replicate)
  have len: "b_len ?b = 24" "b_prices ?b = replicate 24 100" by (simp_all add: b_len_def)
  note ok = position_by_evidence [OF h, of 100 "Some 80"]
  have some: "po_valuation (position_of 100 ?b (Some 80) default_gates) \<noteq> None"
    using ok [THEN conjunct1] unfolding len by simp
  then obtain v where v: "po_valuation (position_of 100 ?b (Some 80) default_gates) = Some v" by blast
  have "v = of_rank 50"
    using ok [THEN conjunct2, THEN conjunct2, THEN conjunct1, rule_format, OF v] unfolding len by simp
  moreover have "po_rank (position_of 100 ?b (Some 80) default_gates) = Some 50"
    using ok [THEN conjunct2, THEN conjunct2, THEN conjunct2, THEN conjunct2, rule_format] unfolding len by simp
  moreover have "po_valuation (position_of 100 ?b (Some 10) default_gates) = None"
    using position_by_evidence [OF h, of 100 "Some 10", THEN conjunct1] by simp
  moreover have "of_rank 50 = Typical" by (simp add: of_rank_def)
  ultimately show ?thesis using v by (simp only: simp_thms)
qed

end
