(* ===== verification/Price_Series.thy ===== *)
theory Price_Series
  imports Engine
begin

text \<open>
  The shapes a market's history is stored in: the card's sparkline (\<open>Spark\<close> of
  \<open>crates/app-core/src/market/engine.rs\<close>), the fixed-resolution chart and the histogram
  (\<open>crates/app-core/src/market/series.rs\<close>), with their text forms. The two reductions to slots are the
  same code in the source and share \<open>place\<close> here; its products are 64-bit.
\<close>

section \<open>Slots\<close>

definition slot_of :: "nat \<Rightarrow> millis \<Rightarrow> millis \<Rightarrow> millis \<Rightarrow> nat" where
  "slot_of n since until t = min (wrap64 ((t - since) * n) div (until - since)) (n - 1)"

definition place :: "('a \<Rightarrow> millis) \<Rightarrow> nat \<Rightarrow> millis \<Rightarrow> millis \<Rightarrow> 'a \<Rightarrow> 'a option list \<Rightarrow> 'a option list" where
  "place at_of n since until ob slots =
     (if at_of ob < since \<or> until < at_of ob then slots
      else let i = slot_of n since until (at_of ob) in
        case slots ! i of
          Some held \<Rightarrow> if at_of ob < at_of held then slots else slots[i := Some ob]
        | None \<Rightarrow> slots[i := Some ob])"

definition place_all :: "('a \<Rightarrow> millis) \<Rightarrow> nat \<Rightarrow> millis \<Rightarrow> millis \<Rightarrow> 'a list \<Rightarrow> 'a option list" where
  "place_all at_of n since until obs = fold (place at_of n since until) obs (replicate n None)"

text \<open>The reference: the observations of a slot, and the last of the latest of them.\<close>

definition slot_obs :: "('a \<Rightarrow> millis) \<Rightarrow> nat \<Rightarrow> millis \<Rightarrow> millis \<Rightarrow> 'a list \<Rightarrow> nat \<Rightarrow> 'a list" where
  "slot_obs at_of n since until obs i =
     filter (\<lambda>ob. since \<le> at_of ob \<and> at_of ob \<le> until \<and> slot_of n since until (at_of ob) = i) obs"

lemma slot_of_less: "0 < n \<Longrightarrow> slot_of n since until t < n"
  by (simp add: slot_of_def min_def) linarith

lemma place_all_slots:
  assumes "0 < n"
  shows "length (place_all at_of n since until obs) = n \<and>
    (\<forall>i<n. place_all at_of n since until obs ! i =
      (if slot_obs at_of n since until obs i = [] then None else Some (last_latest at_of (slot_obs at_of n since until obs i))))"
proof (induction obs rule: rev_induct)
  case (snoc x xs)
  let ?s = "place_all at_of n since until xs" let ?k = "slot_of n since until (at_of x)"
  have all: "place_all at_of n since until (xs @ [x]) = place at_of n since until x ?s" by (simp add: place_all_def)
  have len: "length ?s = n" using snoc by simp
  have get: "?s ! j = (if slot_obs at_of n since until xs j = [] then None
      else Some (last_latest at_of (slot_obs at_of n since until xs j)))" if "j < n" for j
    using snoc that by blast
  have k: "?k < n" using slot_of_less [OF assms] .
  have obs: "slot_obs at_of n since until (xs @ [x]) i = slot_obs at_of n since until xs i @
      (if since \<le> at_of x \<and> at_of x \<le> until \<and> ?k = i then [x] else [])" for i
    by (simp add: slot_obs_def)
  have "length (place at_of n since until x ?s) = n" by (simp add: place_def Let_def len split: option.split)
  moreover have "place at_of n since until x ?s ! i =
      (if slot_obs at_of n since until (xs @ [x]) i = [] then None
       else Some (last_latest at_of (slot_obs at_of n since until (xs @ [x]) i)))" if i: "i < n" for i
    using get [OF i] get [OF k] k i len
    by (auto simp: place_def Let_def obs last_latest_snoc nth_list_update split: option.splits)
  ultimately show ?case using all by simp
qed (simp add: place_all_def slot_obs_def)

lemmas place_all_slot = place_all_slots [THEN conjunct1] place_all_slots [THEN conjunct2, rule_format]

section \<open>Sparklines\<close>

definition SPARK_SLOTS :: nat where
  "SPARK_SLOTS = 16"

record spark =
  sp_slots :: "copper option list"

definition spark_over :: "(millis \<times> copper) list \<Rightarrow> millis \<Rightarrow> millis \<Rightarrow> spark" where
  "spark_over obs since until =
     (if until - since = 0 then \<lparr> sp_slots = [] \<rparr>
      else \<lparr> sp_slots = map (map_option snd) (place_all fst SPARK_SLOTS since until obs) \<rparr>)"

definition spark_is_empty :: "spark \<Rightarrow> bool" where
  "spark_is_empty s \<longleftrightarrow> length (filter (\<lambda>x. x \<noteq> None) (sp_slots s)) < 2"

definition encode_slot :: "copper option \<Rightarrow> string" where
  "encode_slot x = (case x of None \<Rightarrow> [] | Some p \<Rightarrow> show_nat p)"

definition encode_spark :: "spark \<Rightarrow> string" where
  "encode_spark s = join_with (CHR '','') (map encode_slot (sp_slots s))"

definition decode_spark :: "string \<Rightarrow> spark" where
  "decode_spark raw =
     (if raw = [] then \<lparr> sp_slots = [] \<rparr>
      else \<lparr> sp_slots = map (parse_uint u64_max) (take SPARK_SLOTS (split_on (CHR '','') raw)) \<rparr>)"

section \<open>Charts\<close>

definition RESOLUTION :: nat where
  "RESOLUTION = 96"

definition ROLLING_SLOTS :: nat where
  "ROLLING_SLOTS = 12"

record chart_point =
  cp_at :: millis
  cp_price :: copper
  cp_median :: copper
  cp_p25 :: copper
  cp_p75 :: copper
  cp_quantity :: nat
  cp_listings :: nat
  cp_observed :: bool

record chart_series =
  cs_from :: millis
  cs_until :: millis
  cs_points :: "chart_point list"

record observation =
  ob_at :: millis
  ob_price :: copper
  ob_quantity :: nat
  ob_listings :: nat

text \<open>\<open>ChartPoint::default\<close> at a time: a gap.\<close>

definition gap :: "millis \<Rightarrow> chart_point" where
  "gap t = \<lparr> cp_at = t, cp_price = 0, cp_median = 0, cp_p25 = 0, cp_p75 = 0, cp_quantity = 0, cp_listings = 0,
     cp_observed = False \<rparr>"

definition no_chart :: chart_series where
  "no_chart = \<lparr> cs_from = 0, cs_until = 0, cs_points = [] \<rparr>"

text \<open>The instant of one of \<open>n\<close> slots.\<close>

definition slot_at :: "millis \<Rightarrow> millis \<Rightarrow> nat \<Rightarrow> nat \<Rightarrow> millis" where
  "slot_at since until n i = wrap64 (since + wrap64 ((until - since) * i) div n)"

definition trailing :: "observation option list \<Rightarrow> nat \<Rightarrow> buckets" where
  "trailing slots i =
     from_observations (List.map_filter (map_option (\<lambda>ob. (ob_at ob, ob_price ob)))
       (drop (i - (ROLLING_SLOTS - 1)) (take (Suc i) slots)))"

definition or_price :: "copper option \<Rightarrow> copper \<Rightarrow> copper" where
  "or_price x p = (case x of None \<Rightarrow> p | Some q \<Rightarrow> q)"

definition point_at :: "millis \<Rightarrow> millis \<Rightarrow> observation option list \<Rightarrow> nat \<Rightarrow> chart_point" where
  "point_at since until slots i =
     (let time = slot_at since until RESOLUTION i; t = trailing slots i in
      case slots ! i of
        Some ob \<Rightarrow>
          \<lparr> cp_at = time, cp_price = ob_price ob, cp_median = or_price (quantile t (f64 (1 / 2))) (ob_price ob),
            cp_p25 = or_price (quantile t (f64 (1 / 4))) (ob_price ob), cp_p75 = or_price (quantile t (f64 (3 / 4))) (ob_price ob),
            cp_quantity = ob_quantity ob, cp_listings = ob_listings ob, cp_observed = True \<rparr>
      | None \<Rightarrow> gap time)"

definition chart_over :: "observation list \<Rightarrow> millis \<Rightarrow> millis \<Rightarrow> chart_series" where
  "chart_over obs since until =
     (if until - since = 0 then no_chart
      else let slots = place_all ob_at RESOLUTION since until obs in
        \<lparr> cs_from = since, cs_until = until, cs_points = map (point_at since until slots) [0..<RESOLUTION] \<rparr>)"

definition chart_observed :: "chart_series \<Rightarrow> nat" where
  "chart_observed c = length (filter cp_observed (cs_points c))"

definition chart_is_empty :: "chart_series \<Rightarrow> bool" where
  "chart_is_empty c \<longleftrightarrow> chart_observed c < 2"

definition encode_point :: "chart_point \<Rightarrow> string" where
  "encode_point p =
     (if \<not> cp_observed p then []
      else join_with (CHR '','') (map show_nat [cp_price p, cp_median p, cp_p25 p, cp_p75 p, cp_quantity p, cp_listings p]))"

definition encode_chart :: "chart_series \<Rightarrow> string" where
  "encode_chart c =
     (if cs_points c = [] then []
      else join_with (CHR '';'')
        (join_with (CHR '','') [show_nat (cs_from c), show_nat (cs_until c)] # map encode_point (cs_points c)))"

text \<open>The first six fields, if all of them are numbers.\<close>

definition decode_point :: "millis \<Rightarrow> string \<Rightarrow> chart_point" where
  "decode_point t record_text =
     (case map (parse_uint u64_max) (split_on (CHR '','') record_text) of
        Some price # Some median # Some p25 # Some p75 # Some quantity # Some listings # _ \<Rightarrow>
          \<lparr> cp_at = t, cp_price = price, cp_median = median, cp_p25 = p25, cp_p75 = p75, cp_quantity = quantity,
            cp_listings = listings mod 2 ^ 32, cp_observed = True \<rparr>
      | _ \<Rightarrow> gap t)"

definition decode_chart :: "string \<Rightarrow> chart_series" where
  "decode_chart raw =
     (let parts = split_on (CHR '';'') raw; slots = tl parts in
      case map (parse_uint u64_max) (split_on (CHR '','') (hd parts)) of
        Some since # Some until # _ \<Rightarrow>
          if slots = [] then no_chart
          else \<lparr> cs_from = since, cs_until = until,
            cs_points = map (\<lambda>(i, r). decode_point (slot_at since until (length slots) i) r) (enumerate 0 slots) \<rparr>
      | _ \<Rightarrow> no_chart)"

section \<open>Histograms\<close>

definition BINS :: nat where
  "BINS = 21"

record histogram =
  h_lo :: copper
  h_hi :: copper
  h_bins :: "nat list"

definition bin_index :: "copper \<Rightarrow> copper \<Rightarrow> copper \<Rightarrow> nat" where
  "bin_index lo hi price = (if hi = lo then BINS div 2 else min ((price - lo) * (BINS - 1) div (hi - lo)) (BINS - 1))"

definition count_bin :: "copper \<Rightarrow> copper \<Rightarrow> copper \<Rightarrow> nat list \<Rightarrow> nat list" where
  "count_bin lo hi price bins = (let i = bin_index lo hi price in bins[i := (bins ! i + 1) mod 2 ^ 32])"

definition histogram_of :: "buckets \<Rightarrow> histogram option" where
  "histogram_of b =
     (if b_prices b = [] then None
      else let lo = hd (b_prices b); hi = last (b_prices b) in
        Some \<lparr> h_lo = lo, h_hi = hi, h_bins = fold (count_bin lo hi) (b_prices b) (replicate BINS 0) \<rparr>)"

definition bin_of :: "histogram \<Rightarrow> copper \<Rightarrow> nat option" where
  "bin_of h price =
     (if price < h_lo h \<or> h_hi h < price then None
      else if h_hi h = h_lo h then Some (BINS div 2)
      else Some (min ((price - h_lo h) * (BINS - 1) div (h_hi h - h_lo h)) (BINS - 1)))"

definition tallest :: "histogram \<Rightarrow> nat" where
  "tallest h = (if h_bins h = [] then 0 else Max (set (h_bins h)))"

definition histogram_is_empty :: "histogram \<Rightarrow> bool" where
  "histogram_is_empty h \<longleftrightarrow> list_all (\<lambda>c. c = 0) (h_bins h)"

definition encode_histogram :: "histogram \<Rightarrow> string" where
  "encode_histogram h =
     (if histogram_is_empty h then [] else join_with (CHR '','') (map show_nat (h_lo h # h_hi h # h_bins h)))"

definition decode_histogram :: "string \<Rightarrow> histogram option" where
  "decode_histogram raw =
     (case split_on (CHR '','') raw of
        lo # hi # rest \<Rightarrow> do {
          lo \<leftarrow> parse_uint u64_max lo;
          hi \<leftarrow> parse_uint u64_max hi;
          let bins = map (\<lambda>f. case parse_uint u32_max f of None \<Rightarrow> 0 | Some n \<Rightarrow> n) rest;
          if length bins = BINS then Some \<lparr> h_lo = lo, h_hi = hi, h_bins = bins \<rparr> else None }
      | _ \<Rightarrow> None)"

section \<open>Slots hold the latest observation\<close>

lemma point_observed:
  "cp_observed (point_at since until slots i) \<longleftrightarrow> slots ! i \<noteq> None"
  "slots ! i = Some ob \<Longrightarrow> cp_price (point_at since until slots i) = ob_price ob"
  "slots ! i = Some ob \<Longrightarrow> cp_quantity (point_at since until slots i) = ob_quantity ob"
  by (auto simp: point_at_def gap_def Let_def split: option.split)

lemma place_all_in: "0 < n \<Longrightarrow> Some ob \<in> set (place_all at_of n since until obs) \<Longrightarrow> ob \<in> set obs"
proof -
  assume n: "0 < n" and ob: "Some ob \<in> set (place_all at_of n since until obs)"
  then obtain i where i: "i < n" "place_all at_of n since until obs ! i = Some ob"
    using place_all_slot(1) [OF n] by (metis in_set_conv_nth)
  then have ne: "slot_obs at_of n since until obs i \<noteq> []" and l: "ob = last_latest at_of (slot_obs at_of n since until obs i)"
    using place_all_slot(2) [OF n i(1), of at_of since until obs] by (auto split: if_splits)
  have "ob \<in> set (slot_obs at_of n since until obs i)" using last_latest_in [OF ne] l by simp
  then show ?thesis by (simp add: slot_obs_def)
qed

lemma trailing_prices: "set (b_prices (trailing slots i)) \<subseteq> {ob_price ob | ob. Some ob \<in> set slots}"
proof
  fix p
  assume "p \<in> set (b_prices (trailing slots i))"
  then obtain t where "(t, p) \<in> set (List.map_filter (map_option (\<lambda>ob. (ob_at ob, ob_price ob)))
      (drop (i - (ROLLING_SLOTS - 1)) (take (Suc i) slots)))"
    unfolding trailing_def using bucket_price_in by blast
  then obtain ob where "Some ob \<in> set (drop (i - (ROLLING_SLOTS - 1)) (take (Suc i) slots))" "p = ob_price ob"
    by (auto simp: List.map_filter_def)
  then show "p \<in> {ob_price ob | ob. Some ob \<in> set slots}" by (blast dest: in_set_dropD in_set_takeD)
qed

lemma trailing_tame:
  assumes "\<And>ob. Some ob \<in> set slots \<Longrightarrow> ob_price ob \<le> 2 ^ 53" "length slots \<le> 2 ^ 53"
  shows "tame (b_prices (trailing slots i))"
proof -
  have "length (b_prices (trailing slots i)) \<le> length (List.map_filter (map_option (\<lambda>ob. (ob_at ob, ob_price ob)))
      (drop (i - (ROLLING_SLOTS - 1)) (take (Suc i) slots)))"
    unfolding trailing_def by (rule bucket_count_le)
  also have "\<dots> \<le> length slots"
    by (rule order_trans [of _ "length (drop (i - (ROLLING_SLOTS - 1)) (take (Suc i) slots))"])
      (simp_all only: List.map_filter_def length_map length_filter_le, simp)
  finally show ?thesis
    using assms trailing_prices [of slots i] by (fastforce simp: tame_def trailing_def from_observations_def)
qed

text \<open>
  A chart is its observations on a clock. It has 96 slots of equal duration; a slot is a gap exactly
  when no observation of the window falls into it, and otherwise shows the last of its latest
  observations, whatever order they came in; and with prices below 2 to the 53 the rolling band around it
  is in order.
\<close>

lemma chart_slots_exact:
  assumes "since < until" "i < RESOLUTION"
  shows "length (cs_points (chart_over obs since until)) = RESOLUTION
    \<and> (cp_observed (cs_points (chart_over obs since until) ! i) \<longleftrightarrow> slot_obs ob_at RESOLUTION since until obs i \<noteq> [])
    \<and> (cp_observed (cs_points (chart_over obs since until) ! i) \<longrightarrow>
        cp_price (cs_points (chart_over obs since until) ! i) =
          ob_price (last_latest ob_at (slot_obs ob_at RESOLUTION since until obs i))
        \<and> cp_quantity (cs_points (chart_over obs since until) ! i) =
          ob_quantity (last_latest ob_at (slot_obs ob_at RESOLUTION since until obs i)))
    \<and> ((\<forall>ob\<in>set obs. ob_price ob \<le> 2 ^ 53) \<longrightarrow>
        cp_p25 (cs_points (chart_over obs since until) ! i) \<le> cp_median (cs_points (chart_over obs since until) ! i)
        \<and> cp_median (cs_points (chart_over obs since until) ! i) \<le> cp_p75 (cs_points (chart_over obs since until) ! i))"
proof -
  let ?s = "place_all ob_at RESOLUTION since until obs"
  have n: "0 < RESOLUTION" by (simp add: RESOLUTION_def)
  have c: "cs_points (chart_over obs since until) ! i = point_at since until ?s i"
    using assms by (simp add: chart_over_def Let_def)
  note slot = place_all_slot(2) [OF n assms(2), of ob_at since until obs]
  have "cp_p25 (point_at since until ?s i) \<le> cp_median (point_at since until ?s i) \<and>
      cp_median (point_at since until ?s i) \<le> cp_p75 (point_at since until ?s i)" if p: "\<forall>ob\<in>set obs. ob_price ob \<le> 2 ^ 53"
  proof -
    have "tame (b_prices (trailing ?s i))"
    proof (rule trailing_tame)
      show "ob_price ob \<le> 2 ^ 53" if "Some ob \<in> set ?s" for ob using p place_all_in [OF n that] by blast
      show "length ?s \<le> 2 ^ 53" using place_all_slot(1) [OF n, of ob_at since until obs] by (simp add: RESOLUTION_def)
    qed
    note m = quantile_mono [OF this]
    have lits: "f64 (1 / 4) \<le> f64 (1 / 2)" "f64 (1 / 2) \<le> f64 (3 / 4)" by (auto intro!: f64_mono)
    show ?thesis
    proof (cases "?s ! i")
      case (Some ob)
      show ?thesis
        using m [OF lits(1)] m [OF lits(2)] quantile_None [of "trailing ?s i"] Some
        by (cases "b_prices (trailing ?s i) = []") (auto simp: point_at_def Let_def or_price_def split: option.split)
    qed (simp add: point_at_def gap_def Let_def)
  qed
  then show ?thesis
    using slot assms point_observed [where since = since and until = until and slots = ?s and i = i] unfolding c
    by (auto simp: chart_over_def Let_def split: if_splits)
qed

section \<open>Stored forms\<close>

lemma join_nonempty_list: "2 \<le> length ps \<Longrightarrow> join_with c ps \<noteq> []"
  by (cases ps; cases "tl ps") auto

lemma slot_free: "free_of (CHR '','') (encode_slot x)"
  by (cases x) (simp_all add: encode_slot_def text_simps)

lemma spark_roundtrip:
  assumes "length (sp_slots s) = SPARK_SLOTS \<or> sp_slots s = []" "\<And>p. Some p \<in> set (sp_slots s) \<Longrightarrow> p \<le> u64_max"
  shows "decode_spark (encode_spark s) = s"
proof (cases "sp_slots s = []")
  case True
  then show ?thesis by (simp add: encode_spark_def decode_spark_def)
next
  case False
  then have len: "length (sp_slots s) = SPARK_SLOTS" using assms(1) by blast
  have "encode_spark s \<noteq> []"
    unfolding encode_spark_def by (rule join_nonempty_list) (simp add: len SPARK_SLOTS_def)
  moreover have "split_on (CHR '','') (encode_spark s) = map encode_slot (sp_slots s)"
    unfolding encode_spark_def using False by (intro split_join) (auto simp: slot_free)
  moreover have "parse_uint u64_max (encode_slot x) = x" if "x \<in> set (sp_slots s)" for x
    using assms(2) that by (cases x) (auto simp: encode_slot_def parse_show)
  ultimately show ?thesis by (simp add: decode_spark_def len [symmetric] map_idI)
qed

lemma spark_over_shape:
  "length (sp_slots (spark_over obs since until)) = SPARK_SLOTS \<or> sp_slots (spark_over obs since until) = []"
  "Some p \<in> set (sp_slots (spark_over obs since until)) \<Longrightarrow> p \<in> snd ` set obs"
proof -
  have n: "0 < SPARK_SLOTS" by (simp add: SPARK_SLOTS_def)
  show "length (sp_slots (spark_over obs since until)) = SPARK_SLOTS \<or> sp_slots (spark_over obs since until) = []"
    using place_all_slot(1) [OF n, of fst since until obs] by (simp add: spark_over_def)
  show "p \<in> snd ` set obs" if p: "Some p \<in> set (sp_slots (spark_over obs since until))"
  proof -
    have "Some p \<in> map_option snd ` set (place_all fst SPARK_SLOTS since until obs)"
      using p by (simp add: spark_over_def split: if_splits)
    then obtain x where x: "x \<in> set (place_all fst SPARK_SLOTS since until obs)" "Some p = map_option snd x" by (rule imageE)
    obtain ob where "x = Some ob" "p = snd ob" using x(2) by (cases x) auto
    then show ?thesis using place_all_in [OF n, of ob fst since until obs] x(1) by simp
  qed
qed

definition point_fits :: "chart_point \<Rightarrow> bool" where
  "point_fits p \<longleftrightarrow> (if cp_observed p
     then cp_price p \<le> u64_max \<and> cp_median p \<le> u64_max \<and> cp_p25 p \<le> u64_max \<and> cp_p75 p \<le> u64_max \<and>
       cp_quantity p \<le> u64_max \<and> cp_listings p \<le> u32_max
     else p = gap (cp_at p))"

lemma point_free: "free_of (CHR '';'') (encode_point p)"
  by (simp add: encode_point_def text_simps is_digit_def)

lemma decode_encode_point:
  assumes "point_fits p"
  shows "decode_point (cp_at p) (encode_point p) = p"
proof (cases "cp_observed p")
  case True
  let ?fs = "map show_nat [cp_price p, cp_median p, cp_p25 p, cp_p75 p, cp_quantity p, cp_listings p]"
  have "split_on (CHR '','') (join_with (CHR '','') ?fs) = ?fs"
    by (rule split_join) (auto simp: text_simps)
  then show ?thesis using True assms by (simp add: encode_point_def decode_point_def point_fits_def parse_show)
next
  case False
  then show ?thesis using assms by (simp add: encode_point_def decode_point_def point_fits_def)
qed

lemma chart_roundtrip:
  assumes "cs_points c \<noteq> []" "cs_from c \<le> u64_max" "cs_until c \<le> u64_max" "\<And>p. p \<in> set (cs_points c) \<Longrightarrow> point_fits p"
    "\<And>i. i < length (cs_points c) \<Longrightarrow> cp_at (cs_points c ! i) = slot_at (cs_from c) (cs_until c) (length (cs_points c)) i"
  shows "decode_chart (encode_chart c) = c"
proof -
  define h where "h = join_with (CHR '','') [show_nat (cs_from c), show_nat (cs_until c)]"
  let ?ps = "h # map encode_point (cs_points c)"
  have "split_on (CHR '','') h = [show_nat (cs_from c), show_nat (cs_until c)]"
    unfolding h_def by (rule split_join) (auto simp: text_simps)
  then have hd: "map (parse_uint u64_max) (split_on (CHR '','') h) = [Some (cs_from c), Some (cs_until c)]"
    using assms(2,3) by (simp add: parse_show)
  have free: "free_of (CHR '';'') h" by (simp add: h_def text_simps is_digit_def)
  have parts: "split_on (CHR '';'') (encode_chart c) = ?ps"
    unfolding encode_chart_def h_def [symmetric] using assms(1) free by (simp only: if_False, intro split_join) (auto simp: point_free)
  have points: "map (\<lambda>(i, r). decode_point (slot_at (cs_from c) (cs_until c) (length (cs_points c)) i) r)
      (enumerate 0 (map encode_point (cs_points c))) = cs_points c"
  proof (rule nth_equalityI)
    fix i
    assume "i < length (map (\<lambda>(i, r). decode_point (slot_at (cs_from c) (cs_until c) (length (cs_points c)) i) r)
      (enumerate 0 (map encode_point (cs_points c))))"
    then have i: "i < length (cs_points c)" by simp
    then have "decode_point (slot_at (cs_from c) (cs_until c) (length (cs_points c)) i) (encode_point (cs_points c ! i)) = cs_points c ! i"
      using decode_encode_point [OF assms(4)] assms(5) [OF i] by (metis nth_mem)
    then show "map (\<lambda>(i, r). decode_point (slot_at (cs_from c) (cs_until c) (length (cs_points c)) i) r)
      (enumerate 0 (map encode_point (cs_points c))) ! i = cs_points c ! i"
      using i by (simp add: nth_enumerate_eq)
  qed simp
  show ?thesis
    unfolding decode_chart_def Let_def parts list.sel hd using assms(1) points by simp
qed

lemma quantile_fits: "\<forall>p\<in>set (b_prices b). p \<le> u64_max \<Longrightarrow> quantile b q = Some x \<Longrightarrow> x \<le> u64_max"
proof (cases "b_len b = 1")
  case True
  assume "\<forall>p\<in>set (b_prices b). p \<le> u64_max" "quantile b q = Some x"
  moreover have "quantile b q = Some (b_prices b ! 0)" using True by (simp add: quantile_def Let_def)
  moreover have "b_prices b ! 0 \<in> set (b_prices b)" using True by (simp add: b_len_def)
  ultimately show ?thesis by (metis option.inject)
next
  case False
  assume q: "quantile b q = Some x"
  then have "b_len b \<noteq> 0" using quantile_None [of b q] by (auto simp: b_len_def)
  then have "\<exists>y. x = f64_to_u64 y" using q False unfolding quantile_def Let_def by (simp only: if_False option.inject) blast
  then show ?thesis by (auto simp: f64_to_u64_def)
qed

lemma point_at_fits:
  assumes "\<And>ob. Some ob \<in> set slots \<Longrightarrow> ob_price ob \<le> u64_max \<and> ob_quantity ob \<le> u64_max \<and> ob_listings ob \<le> u32_max"
    "i < length slots"
  shows "point_fits (point_at since until slots i)"
proof (cases "slots ! i")
  case (Some ob)
  then have ob: "ob_price ob \<le> u64_max" "ob_quantity ob \<le> u64_max" "ob_listings ob \<le> u32_max"
    using assms by (metis nth_mem)+
  have "\<forall>p\<in>set (b_prices (trailing slots i)). p \<le> u64_max" using trailing_prices [of slots i] assms(1) by blast
  note q = quantile_fits [OF this]
  have "or_price (quantile (trailing slots i) x) (ob_price ob) \<le> u64_max" for x
    using q [of x] ob(1) by (auto simp: or_price_def split: option.split)
  then show ?thesis using Some ob by (simp add: point_at_def point_fits_def Let_def)
qed (simp add: point_at_def point_fits_def gap_def Let_def)

section \<open>Histograms count hours\<close>

lemma bin_index_less: "bin_index lo hi p < BINS"
  by (auto simp: bin_index_def BINS_def)

lemma count_bins:
  assumes "length bins = BINS" "\<And>i. i < BINS \<Longrightarrow> bins ! i + length ps \<le> u32_max"
  shows "length (fold (count_bin lo hi) ps bins) = BINS \<and> (\<forall>i<BINS.
    fold (count_bin lo hi) ps bins ! i = bins ! i + length (filter (\<lambda>p. bin_index lo hi p = i) ps))"
  using assms
proof (induction ps arbitrary: bins)
  case (Cons p ps)
  let ?b = "count_bin lo hi p bins"
  have k: "bin_index lo hi p < BINS" by (rule bin_index_less)
  have "bins ! bin_index lo hi p + 1 \<le> u32_max" using Cons.prems(2) [OF k] by simp
  then have b: "?b ! i = bins ! i + of_bool (bin_index lo hi p = i)" if "i < BINS" for i
    using that Cons.prems(1) by (auto simp: count_bin_def Let_def nth_list_update)
  have "length ?b = BINS" using Cons.prems(1) by (simp add: count_bin_def Let_def)
  moreover have "?b ! i + length ps \<le> u32_max" if "i < BINS" for i using b [OF that] Cons.prems(2) [OF that] by simp
  ultimately show ?case using Cons.IH [of ?b] b by auto
qed simp

lemma sorted_ends: "sorted ps \<Longrightarrow> p \<in> set ps \<Longrightarrow> hd ps \<le> p \<and> p \<le> last ps"
  by (induction ps) (auto dest: last_in_set)

lemma histogram_counts:
  assumes "sorted (b_prices b)" "b_len b \<le> u32_max" "histogram_of b = Some h"
  shows "length (h_bins h) = BINS"
    and "i < BINS \<Longrightarrow> h_bins h ! i = length (filter (\<lambda>p. bin_of h p = Some i) (b_prices b))"
    and "h_lo h = hd (b_prices b)" "h_hi h = last (b_prices b)" "b_prices b \<noteq> []"
proof -
  let ?ps = "b_prices b"
  have ne: "?ps \<noteq> []" and h: "h = \<lparr> h_lo = hd ?ps, h_hi = last ?ps, h_bins = fold (count_bin (hd ?ps) (last ?ps)) ?ps (replicate BINS 0) \<rparr>"
    using assms(3) by (auto simp: histogram_of_def Let_def split: if_splits)
  show "h_lo h = hd ?ps" "h_hi h = last ?ps" "?ps \<noteq> []" using h ne by simp_all
  have c: "length (h_bins h) = BINS \<and> (\<forall>i<BINS. h_bins h ! i = length (filter (\<lambda>p. bin_index (hd ?ps) (last ?ps) p = i) ?ps))"
    using count_bins [of "replicate BINS 0" ?ps "hd ?ps" "last ?ps"] assms(2) h by (simp add: b_len_def)
  then show "length (h_bins h) = BINS" by blast
  have "bin_of h p = Some (bin_index (hd ?ps) (last ?ps) p)" if "p \<in> set ?ps" for p
  proof -
    have "hd ?ps \<le> p" "p \<le> last ?ps" using sorted_ends [OF assms(1) that] by simp_all
    then show ?thesis by (auto simp: bin_of_def bin_index_def h)
  qed
  then have "filter (\<lambda>p. bin_of h p = Some i) ?ps = filter (\<lambda>p. bin_index (hd ?ps) (last ?ps) p = i) ?ps" for i
    by (intro filter_cong) auto
  then show "i < BINS \<Longrightarrow> h_bins h ! i = length (filter (\<lambda>p. bin_of h p = Some i) ?ps)" using c by simp
qed

lemma histogram_nonempty:
  assumes "sorted (b_prices b)" "b_len b \<le> u32_max" "histogram_of b = Some h"
  shows "\<not> histogram_is_empty h"
proof -
  note c = histogram_counts [OF assms]
  define p where "p = hd (b_prices b)"
  define i where "i = bin_index (h_lo h) (h_hi h) p"
  have p: "p \<in> set (b_prices b)" using c(5) by (simp add: p_def)
  have i: "i < BINS" unfolding i_def by (rule bin_index_less)
  have "h_lo h = p" "p \<le> h_hi h" using c(3,4) sorted_ends [OF assms(1) p] by (simp_all add: p_def)
  then have "bin_of h p = Some i" by (simp add: bin_of_def bin_index_def i_def)
  then have "p \<in> set (filter (\<lambda>p. bin_of h p = Some i) (b_prices b))" using p by simp
  then have "0 < h_bins h ! i" using c(2) [OF i] length_pos_if_in_set by metis
  moreover have "h_bins h ! i \<in> set (h_bins h)" using i c(1) by simp
  ultimately show ?thesis by (auto simp: histogram_is_empty_def list_all_iff)
qed

lemma histogram_roundtrip:
  assumes "length (h_bins h) = BINS" "h_lo h \<le> u64_max" "h_hi h \<le> u64_max" "\<And>c. c \<in> set (h_bins h) \<Longrightarrow> c \<le> u32_max"
    "\<not> histogram_is_empty h"
  shows "decode_histogram (encode_histogram h) = Some h"
proof -
  let ?fs = "map show_nat (h_lo h # h_hi h # h_bins h)"
  have "split_on (CHR '','') (encode_histogram h) = ?fs"
    unfolding encode_histogram_def using assms(5) by (simp only: if_False, intro split_join) (auto simp: text_simps)
  moreover have "map (\<lambda>f. case parse_uint u32_max f of None \<Rightarrow> 0 | Some n \<Rightarrow> n) (map show_nat (h_bins h)) = h_bins h"
    using assms(4) by (simp add: parse_show map_idI comp_def)
  ultimately show ?thesis using assms(1-3) by (simp add: decode_histogram_def parse_show)
qed

text \<open>
  What is stored of a market's history is read back exactly: the sparkline, the chart with the instant
  of every slot, and the histogram, whose bins count the hours by the bin the page marks for a price.
\<close>

lemma series_stored_exactly:
  assumes "since \<le> u64_max" "until \<le> u64_max"
    "\<forall>ob\<in>set obs. ob_price ob \<le> u64_max \<and> ob_quantity ob \<le> u64_max \<and> ob_listings ob \<le> u32_max"
    "length obs \<le> u32_max"
  shows "decode_chart (encode_chart (chart_over obs since until)) = chart_over obs since until
    \<and> decode_spark (encode_spark (spark_over (map (\<lambda>ob. (ob_at ob, ob_price ob)) obs) since until)) =
        spark_over (map (\<lambda>ob. (ob_at ob, ob_price ob)) obs) since until
    \<and> (\<forall>h. histogram_of (from_observations (map (\<lambda>ob. (ob_at ob, ob_price ob)) obs)) = Some h \<longrightarrow>
        decode_histogram (encode_histogram h) = Some h
        \<and> (\<forall>i<BINS. h_bins h ! i = length (filter (\<lambda>p. bin_of h p = Some i)
             (b_prices (from_observations (map (\<lambda>ob. (ob_at ob, ob_price ob)) obs))))))"
proof (intro conjI allI impI)
  let ?xs = "map (\<lambda>ob. (ob_at ob, ob_price ob)) obs" let ?s = "place_all ob_at RESOLUTION since until obs"
  have n: "0 < RESOLUTION" by (simp add: RESOLUTION_def)
  show "decode_chart (encode_chart (chart_over obs since until)) = chart_over obs since until"
  proof (cases "until - since = 0")
    case True
    then show ?thesis by (simp add: chart_over_def no_chart_def encode_chart_def decode_chart_def)
  next
    case False
    let ?c = "chart_over obs since until"
    have c: "cs_from ?c = since" "cs_until ?c = until" "cs_points ?c = map (point_at since until ?s) [0..<RESOLUTION]"
      using False by (simp_all add: chart_over_def Let_def)
    have "point_fits (point_at since until ?s i)" if "i < RESOLUTION" for i
    proof (rule point_at_fits)
      fix ob
      assume "Some ob \<in> set ?s"
      from place_all_in [OF n this] show "ob_price ob \<le> u64_max \<and> ob_quantity ob \<le> u64_max \<and> ob_listings ob \<le> u32_max"
        using assms(3) by blast
    qed (simp add: place_all_slot(1) [OF n] that)
    moreover have "cp_at (point_at since until ?s i) = slot_at since until RESOLUTION i" for i
      by (simp add: point_at_def gap_def Let_def split: option.split)
    ultimately show ?thesis using assms(1,2) n c by (intro chart_roundtrip) auto
  qed
  have price: "p \<le> u64_max" if "p \<in> snd ` set ?xs" for p using that assms(3) by auto
  show "decode_spark (encode_spark (spark_over ?xs since until)) = spark_over ?xs since until"
    using spark_over_shape [where obs = ?xs and since = since and until = until] price by (intro spark_roundtrip) blast+
  fix h
  assume h: "histogram_of (from_observations ?xs) = Some h"
  let ?b = "from_observations ?xs"
  have sorted: "sorted (b_prices ?b)" by (simp add: from_observations_def)
  have len: "b_len ?b \<le> u32_max" using bucket_count_le [of ?xs] assms(4) by (simp add: b_len_def)
  note c = histogram_counts [OF sorted len h]
  show "h_bins h ! i = length (filter (\<lambda>p. bin_of h p = Some i) (b_prices ?b))" if "i < BINS" for i
    using c(2) [OF that] .
  have fits: "p \<le> u64_max" if "p \<in> set (b_prices ?b)" for p using bucket_price_in [OF that] price by force
  show "decode_histogram (encode_histogram h) = Some h"
  proof (rule histogram_roundtrip [OF c(1)])
    show "h_lo h \<le> u64_max" "h_hi h \<le> u64_max" using c(3-5) fits by simp_all
    show "x \<le> u32_max" if x: "x \<in> set (h_bins h)" for x
    proof -
      obtain i where i: "i < length (h_bins h)" "x = h_bins h ! i" using x unfolding in_set_conv_nth by blast
      have i: "i < BINS" "x = h_bins h ! i" using i by (simp_all only: c(1))
      have "x = length (filter (\<lambda>p. bin_of h p = Some i) (b_prices ?b))" using c(2) [OF i(1)] i(2) by (simp only:)
      then have "x \<le> length (b_prices ?b)" by (simp only: length_filter_le)
      then show ?thesis using len by (simp add: b_len_def)
    qed
    show "\<not> histogram_is_empty h" using sorted len h by (rule histogram_nonempty)
  qed
qed

definition demo_obs :: "observation list" where
  "demo_obs = [\<lparr> ob_at = 5000, ob_price = 310, ob_quantity = 4, ob_listings = 2 \<rparr>,
     \<lparr> ob_at = 9600000, ob_price = 290, ob_quantity = 7, ob_listings = 3 \<rparr>,
     \<lparr> ob_at = 4000, ob_price = 300, ob_quantity = 5, ob_listings = 1 \<rparr>]"

lemma chart_slots_exact_example:
  "0 < (9600000 :: nat) \<and> 0 < RESOLUTION \<and> cp_observed (cs_points (chart_over demo_obs 0 9600000) ! 0)
   \<and> cp_price (cs_points (chart_over demo_obs 0 9600000) ! 0) = 310 \<and> \<not> cp_observed (cs_points (chart_over demo_obs 0 9600000) ! 1)"
proof -
  have h: "0 < (9600000 :: nat)" "0 < RESOLUTION" "1 < RESOLUTION" by (simp_all add: RESOLUTION_def)
  have s: "slot_obs ob_at RESOLUTION 0 9600000 demo_obs 0 = [demo_obs ! 0, demo_obs ! 2]"
    "slot_obs ob_at RESOLUTION 0 9600000 demo_obs 1 = []"
    by (simp_all add: slot_obs_def demo_obs_def slot_of_def RESOLUTION_def wrap64_def)
  have l: "last_latest ob_at [demo_obs ! 0, demo_obs ! 2] = demo_obs ! 0"
    by (simp add: last_latest_def demo_obs_def)
  note c = chart_slots_exact [OF h(1,2), of demo_obs] and g = chart_slots_exact [OF h(1,3), of demo_obs]
  have "cp_observed (cs_points (chart_over demo_obs 0 9600000) ! 0)" using c [THEN conjunct2, THEN conjunct1] s by simp
  moreover from this have "cp_price (cs_points (chart_over demo_obs 0 9600000) ! 0) = ob_price (demo_obs ! 0)"
    using c [THEN conjunct2, THEN conjunct2, THEN conjunct1, rule_format, THEN conjunct1] s(1) l by simp
  moreover have "\<not> cp_observed (cs_points (chart_over demo_obs 0 9600000) ! 1)" using g [THEN conjunct2, THEN conjunct1] s by simp
  ultimately show ?thesis using h by (simp add: demo_obs_def)
qed

lemma series_stored_exactly_example:
  "length demo_obs = 3 \<and> decode_chart (encode_chart (chart_over demo_obs 0 9600000)) = chart_over demo_obs 0 9600000"
proof -
  have h: "(0 :: nat) \<le> u64_max" "(9600000 :: nat) \<le> u64_max"
    "\<forall>ob\<in>set demo_obs. ob_price ob \<le> u64_max \<and> ob_quantity ob \<le> u64_max \<and> ob_listings ob \<le> u32_max"
    "length demo_obs \<le> u32_max"
    by (simp_all add: demo_obs_def)
  have "length demo_obs = 3" by (simp add: demo_obs_def)
  then show ?thesis using series_stored_exactly [OF h, THEN conjunct1] by blast
qed

end
