(* ===== verification/Item_Catalog.thy ===== *)
theory Item_Catalog
  imports Depth Cluster_Time "HOL-Library.Char_ord" "HOL-Library.List_Lexorder"
begin

text \<open>
  The catalogue of tracked items (\<open>crates/app-core/src/market/catalog.rs\<close>): the enumerations with the
  names they are stored under, items and their ranks, patches and raid tiers, and the lookups the rest of
  the program makes. Maps keyed by text are ordered by bytes, as \<open>BTreeMap<String, _>\<close> is.

  Reading \<open>catalogs.json\<close> is the work of serde and not modelled: a catalogue is a value of the record.
  The sentences of \<open>problems\<close> are values of a datatype, one constructor per message. Interface labels are
  left out.
\<close>

section \<open>Enumerations\<close>

datatype audience = Melee | Caster | Common

definition ALL_AUDIENCES :: "audience list" where
  "ALL_AUDIENCES = [Melee, Caster, Common]"

fun audience_str :: "audience \<Rightarrow> string" where
  "audience_str Melee = ''melee''"
| "audience_str Caster = ''caster''"
| "audience_str Common = ''common''"

definition audience_parse :: "string \<Rightarrow> audience option" where
  "audience_parse s = enum_parse ALL_AUDIENCES audience_str s"

datatype stat = Haste | Crit | Mastery | Versatility | Primary | Stamina | NoStat

definition all_stats :: "stat list" where
  "all_stats = [Haste, Crit, Mastery, Versatility, Primary, Stamina, NoStat]"

fun stat_str :: "stat \<Rightarrow> string" where
  "stat_str Haste = ''haste''"
| "stat_str Crit = ''crit''"
| "stat_str Mastery = ''mastery''"
| "stat_str Versatility = ''versatility''"
| "stat_str Primary = ''primary''"
| "stat_str Stamina = ''stamina''"
| "stat_str NoStat = ''none''"

datatype category = Flask | CombatPotion | HealingPotion | ManaPotion | Food | Feast | WeaponOil | WeaponStone
  | AugmentRune | BoeCategory | RecipeCategory | VantusRune | Utility | ReagentCategory | EnchantCategory
  | GemCategory

definition all_categories :: "category list" where
  "all_categories = [Flask, CombatPotion, HealingPotion, ManaPotion, Food, Feast, WeaponOil, WeaponStone,
     AugmentRune, VantusRune, Utility, ReagentCategory, EnchantCategory, GemCategory, BoeCategory,
     RecipeCategory]"

fun category_str :: "category \<Rightarrow> string" where
  "category_str Flask = ''flask''"
| "category_str CombatPotion = ''combat_potion''"
| "category_str HealingPotion = ''healing_potion''"
| "category_str ManaPotion = ''mana_potion''"
| "category_str Food = ''food''"
| "category_str Feast = ''feast''"
| "category_str WeaponOil = ''weapon_oil''"
| "category_str WeaponStone = ''weapon_stone''"
| "category_str AugmentRune = ''augment_rune''"
| "category_str VantusRune = ''vantus_rune''"
| "category_str Utility = ''utility''"
| "category_str ReagentCategory = ''reagent''"
| "category_str EnchantCategory = ''enchant''"
| "category_str GemCategory = ''gem''"
| "category_str BoeCategory = ''boe''"
| "category_str RecipeCategory = ''recipe''"

datatype profession = Alchemy | Blacksmithing | Cooking | Enchanting | Engineering | Fishing | Herbalism
  | Inscription | Jewelcrafting | Leatherworking | Mining | Skinning | Tailoring | SharedProfession

definition ALL_PROFESSIONS :: "profession list" where
  "ALL_PROFESSIONS = [Alchemy, Blacksmithing, Cooking, Enchanting, Engineering, Fishing, Herbalism,
     Inscription, Jewelcrafting, Leatherworking, Mining, Skinning, Tailoring, SharedProfession]"

fun profession_str :: "profession \<Rightarrow> string" where
  "profession_str Alchemy = ''alchemy''"
| "profession_str Blacksmithing = ''blacksmithing''"
| "profession_str Cooking = ''cooking''"
| "profession_str Enchanting = ''enchanting''"
| "profession_str Engineering = ''engineering''"
| "profession_str Fishing = ''fishing''"
| "profession_str Herbalism = ''herbalism''"
| "profession_str Inscription = ''inscription''"
| "profession_str Jewelcrafting = ''jewelcrafting''"
| "profession_str Leatherworking = ''leatherworking''"
| "profession_str Mining = ''mining''"
| "profession_str Skinning = ''skinning''"
| "profession_str Tailoring = ''tailoring''"
| "profession_str SharedProfession = ''shared''"

datatype item_kind = Consumable | Reagent | Enchant | Gem | Boe | Recipe

definition all_kinds :: "item_kind list" where
  "all_kinds = [Consumable, Reagent, Enchant, Gem, Boe, Recipe]"

fun kind_str :: "item_kind \<Rightarrow> string" where
  "kind_str Consumable = ''consumable''"
| "kind_str Reagent = ''reagent''"
| "kind_str Enchant = ''enchant''"
| "kind_str Gem = ''gem''"
| "kind_str Boe = ''boe''"
| "kind_str Recipe = ''recipe''"

definition is_commodity :: "item_kind \<Rightarrow> bool" where
  "is_commodity k \<longleftrightarrow> k \<noteq> Boe \<and> k \<noteq> Recipe"

definition is_generated :: "item_kind \<Rightarrow> bool" where
  "is_generated k \<longleftrightarrow> k = Enchant \<or> k = Gem"

text \<open>\<open>Target::of\<close> of \<open>depth.rs\<close>: how many of a kind a buyer usually buys.\<close>

fun target_of_kind :: "item_kind \<Rightarrow> nat" where
  "target_of_kind Consumable = 20"
| "target_of_kind Reagent = 200"
| "target_of_kind Enchant = 5"
| "target_of_kind Gem = 5"
| "target_of_kind Boe = 1"
| "target_of_kind Recipe = 1"

datatype slot = Head | Neck | Shoulder | Cloak | Chest | Wrist | Hands | Waist | Legs | Feet | Finger
  | Weapon | TwoHandedWeapon

definition ALL_SLOTS :: "slot list" where
  "ALL_SLOTS = [Head, Neck, Shoulder, Cloak, Chest, Wrist, Hands, Waist, Legs, Feet, Finger, Weapon,
     TwoHandedWeapon]"

fun slot_str :: "slot \<Rightarrow> string" where
  "slot_str Head = ''head''"
| "slot_str Neck = ''neck''"
| "slot_str Shoulder = ''shoulder''"
| "slot_str Cloak = ''cloak''"
| "slot_str Chest = ''chest''"
| "slot_str Wrist = ''wrist''"
| "slot_str Hands = ''hands''"
| "slot_str Waist = ''waist''"
| "slot_str Legs = ''legs''"
| "slot_str Feet = ''feet''"
| "slot_str Finger = ''finger''"
| "slot_str Weapon = ''weapon''"
| "slot_str TwoHandedWeapon = ''two_handed_weapon''"

datatype track = Veteran | Champion | Hero | Myth

definition all_tracks :: "track list" where
  "all_tracks = [Veteran, Champion, Hero, Myth]"

fun track_str :: "track \<Rightarrow> string" where
  "track_str Veteran = ''Veteran''"
| "track_str Champion = ''Champion''"
| "track_str Hero = ''Hero''"
| "track_str Myth = ''Myth''"

fun track_slug :: "track \<Rightarrow> string" where
  "track_slug Veteran = ''veteran''"
| "track_slug Champion = ''champion''"
| "track_slug Hero = ''hero''"
| "track_slug Myth = ''myth''"

definition from_slug :: "string \<Rightarrow> track option" where
  "from_slug s = enum_parse all_tracks track_slug s"

text \<open>\<open>split_whitespace().next()\<close>: the first run of characters that are not white space.\<close>

definition first_word :: "string \<Rightarrow> string option" where
  "first_word s = (let r = dropWhile is_space s in
     if r = [] then None else Some (takeWhile (\<lambda>c. \<not> is_space c) r))"

definition track_parse :: "string \<Rightarrow> track option" where
  "track_parse raw =
     (let word = (case first_word raw of Some w \<Rightarrow> w | None \<Rightarrow> raw)
      in find (\<lambda>t. eq_ignore_ascii_case word (track_str t)) all_tracks)"

datatype catalog_status = DraftPtr | Active | Archived

definition all_statuses :: "catalog_status list" where
  "all_statuses = [DraftPtr, Active, Archived]"

fun catalog_status_str :: "catalog_status \<Rightarrow> string" where
  "catalog_status_str DraftPtr = ''draft_ptr''"
| "catalog_status_str Active = ''active''"
| "catalog_status_str Archived = ''archived''"

definition catalog_status_parse :: "string \<Rightarrow> catalog_status option" where
  "catalog_status_parse s = enum_parse all_statuses catalog_status_str s"

definition is_active :: "catalog_status \<Rightarrow> bool" where
  "is_active s \<longleftrightarrow> s = Active"

definition is_public :: "catalog_status \<Rightarrow> bool" where
  "is_public s \<longleftrightarrow> s = Active \<or> s = Archived"

definition is_collected :: "catalog_status \<Rightarrow> bool" where
  "is_collected s \<longleftrightarrow> s = Active"

text \<open>Every stored name is read back as the value it was written for.\<close>

interpretation audience_names: named_enum ALL_AUDIENCES audience_str
proof unfold_locales
  show "v \<in> set ALL_AUDIENCES" for v by (cases v) (auto simp: ALL_AUDIENCES_def)
  show "audience_str v = audience_str w \<Longrightarrow> v = w" for v w by (cases v; cases w) auto
qed

interpretation stat_names: named_enum all_stats stat_str
proof unfold_locales
  show "v \<in> set all_stats" for v by (cases v) (auto simp: all_stats_def)
  show "stat_str v = stat_str w \<Longrightarrow> v = w" for v w by (cases v; cases w) auto
qed

interpretation category_names: named_enum all_categories category_str
proof unfold_locales
  show "v \<in> set all_categories" for v by (cases v) (auto simp: all_categories_def)
  show "category_str v = category_str w \<Longrightarrow> v = w" for v w by (cases v; cases w) auto
qed

interpretation profession_names: named_enum ALL_PROFESSIONS profession_str
proof unfold_locales
  show "v \<in> set ALL_PROFESSIONS" for v by (cases v) (auto simp: ALL_PROFESSIONS_def)
  show "profession_str v = profession_str w \<Longrightarrow> v = w" for v w by (cases v; cases w) auto
qed

interpretation kind_names: named_enum all_kinds kind_str
proof unfold_locales
  show "v \<in> set all_kinds" for v by (cases v) (auto simp: all_kinds_def)
  show "kind_str v = kind_str w \<Longrightarrow> v = w" for v w by (cases v; cases w) auto
qed

interpretation slot_names: named_enum ALL_SLOTS slot_str
proof unfold_locales
  show "v \<in> set ALL_SLOTS" for v by (cases v) (auto simp: ALL_SLOTS_def)
  show "slot_str v = slot_str w \<Longrightarrow> v = w" for v w by (cases v; cases w) auto
qed

interpretation track_slugs: named_enum all_tracks track_slug
proof unfold_locales
  show "v \<in> set all_tracks" for v by (cases v) (auto simp: all_tracks_def)
  show "track_slug v = track_slug w \<Longrightarrow> v = w" for v w by (cases v; cases w) auto
qed

interpretation catalog_status_names: named_enum all_statuses catalog_status_str
proof unfold_locales
  show "v \<in> set all_statuses" for v by (cases v) (auto simp: all_statuses_def)
  show "catalog_status_str v = catalog_status_str w \<Longrightarrow> v = w" for v w by (cases v; cases w) auto
qed

section \<open>Catalogues\<close>

record item_rank =
  ir_rank :: nat
  ir_item_id :: itemid

record catalog_item =
  ci_name :: string
  ci_category :: category
  ci_kind :: item_kind
  ci_profession :: "profession option"
  ci_slot :: "slot option"
  ci_audience :: audience
  ci_stat :: stat
  ci_ranks :: "item_rank list"
  ci_floor_copper :: "nat option"
  ci_icon :: "string option"
  ci_target_quantity :: "nat option"

definition ci_target :: "catalog_item \<Rightarrow> nat" where
  "ci_target i = (case ci_target_quantity i of Some q \<Rightarrow> q | None \<Rightarrow> target_of_kind (ci_kind i))"

definition icon_url :: "catalog_item \<Rightarrow> string option" where
  "icon_url i = map_option (\<lambda>slug. ''https://render.worldofwarcraft.com/eu/icons/56/'' @ slug) (ci_icon i)"

definition item_ids :: "catalog_item \<Rightarrow> itemid list" where
  "item_ids i = map ir_item_id (ci_ranks i)"

definition item_rank_of :: "catalog_item \<Rightarrow> itemid \<Rightarrow> nat option" where
  "item_rank_of i item = map_option ir_rank (find (\<lambda>r. ir_item_id r = item) (ci_ranks i))"

definition display_name :: "catalog_item \<Rightarrow> itemid \<Rightarrow> string" where
  "display_name i item =
     (case item_rank_of i item of
        Some rank \<Rightarrow> if 1 < length (ci_ranks i) then ci_name i @ '' (R'' @ show_nat rank @ '')'' else ci_name i
      | None \<Rightarrow> ci_name i)"

record item_level =
  il_item_level :: nat
  il_upgrade :: string

record patch =
  pa_patch :: string
  pa_name :: string
  pa_started :: string

record raid_tier =
  rt_id :: string
  rt_name :: string
  rt_patch :: string
  rt_opened :: string
  rt_season :: "nat option"

text \<open>\<open>YYYY-MM-DD\<close>; the year is an \<open>i64\<close>, and no piece of the split contains a minus sign.\<close>

definition parse_date :: "string \<Rightarrow> millis option" where
  "parse_date value =
     (case split_on (CHR ''-'') value of
        y # m # d # _ \<Rightarrow>
          (case (parse_uint 9223372036854775807 y, parse_uint u32_max m, parse_uint u32_max d) of
             (Some year, Some month, Some day) \<Rightarrow>
               if 1 \<le> month \<and> month \<le> 12 \<and> 1 \<le> day \<and> day \<le> 31
               then Some (from_utc_date (int year) month day) else None
           | _ \<Rightarrow> None)
      | _ \<Rightarrow> None)"

definition started_at :: "patch \<Rightarrow> millis" where
  "started_at p = (case parse_date (pa_started p) of Some t \<Rightarrow> t | None \<Rightarrow> 0)"

definition opened_at :: "raid_tier \<Rightarrow> millis" where
  "opened_at t = (case parse_date (rt_opened t) of Some x \<Rightarrow> x | None \<Rightarrow> 0)"

record catalog =
  cg_id :: string
  cg_expansion :: string
  cg_status :: catalog_status
  cg_version :: nat
  cg_patches :: "patch list"
  cg_tiers :: "raid_tier list"
  cg_items :: "catalog_item list"
  cg_item_levels :: "(string, item_level) btree"
  cg_tracks :: "(string, track) btree"
  cg_modifiers :: "(string, string) btree"
  cg_notes :: "string list"

section \<open>Tiers, patches and problems\<close>

text \<open>\<open>Iterator::max_by_key\<close>: the last element with the greatest key.\<close>

fun max_by_key :: "('a \<Rightarrow> 'k::linorder) \<Rightarrow> 'a list \<Rightarrow> 'a option" where
  "max_by_key f [] = None"
| "max_by_key f (x # xs) =
     (case max_by_key f xs of
        None \<Rightarrow> Some x
      | Some y \<Rightarrow> if f x \<le> f y then Some y else Some x)"

definition current_tier :: "catalog \<Rightarrow> raid_tier option" where
  "current_tier c = max_by_key opened_at (cg_tiers c)"

definition tiers_of_patch :: "catalog \<Rightarrow> string \<Rightarrow> raid_tier list" where
  "tiers_of_patch c p = filter (\<lambda>t. rt_patch t = p) (cg_tiers c)"

datatype problem =
    PatchDate string string
  | TierRepeated string nat
  | TierDate string string
  | TierPatch string string
  | TierEarly string string string string

definition count_tier :: "raid_tier \<Rightarrow> (string, nat) btree \<Rightarrow> (string, nat) btree" where
  "count_tier t m = bt_insert (rt_id t) ((case bt_get m (rt_id t) of Some n \<Rightarrow> n | None \<Rightarrow> 0) + 1) m"

definition tier_problems :: "catalog \<Rightarrow> raid_tier \<Rightarrow> problem list" where
  "tier_problems c t =
     (if parse_date (rt_opened t) = None then [TierDate (rt_id t) (rt_opened t)]
      else case find (\<lambda>p. pa_patch p = rt_patch t) (cg_patches c) of
             None \<Rightarrow> [TierPatch (rt_id t) (rt_patch t)]
           | Some p \<Rightarrow> if opened_at t < started_at p
                       then [TierEarly (rt_id t) (rt_opened t) (pa_patch p) (pa_started p)] else [])"

definition problems :: "catalog \<Rightarrow> problem list" where
  "problems c =
     [PatchDate (pa_patch p) (pa_started p). p \<leftarrow> cg_patches c, parse_date (pa_started p) = None] @
     [TierRepeated i n. (i, n) \<leftarrow> fold count_tier (cg_tiers c) [], 1 < n] @
     concat (map (tier_problems c) (cg_tiers c))"

fun windows_of :: "patch list \<Rightarrow> (patch \<times> millis \<times> millis option) list" where
  "windows_of [] = []"
| "windows_of (p # ps) =
     (p, started_at p, case ps of [] \<Rightarrow> None | q # _ \<Rightarrow> Some (started_at q)) # windows_of ps"

definition patch_windows :: "catalog \<Rightarrow> (patch \<times> millis \<times> millis option) list" where
  "patch_windows c = windows_of (sort_key started_at (cg_patches c))"

definition span_start :: "catalog \<Rightarrow> millis" where
  "span_start c = (case min_by_key id (map started_at (cg_patches c)) of Some t \<Rightarrow> t | None \<Rightarrow> 0)"

section \<open>Lookups\<close>

definition ids_where :: "catalog \<Rightarrow> (item_kind \<Rightarrow> bool) \<Rightarrow> itemid list" where
  "ids_where c keep =
     remdups_adj (sort (concat (map item_ids (filter (\<lambda>i. keep (ci_kind i)) (cg_items c)))))"

definition tracked_ids :: "catalog \<Rightarrow> itemid list" where
  "tracked_ids c = ids_where c is_commodity"

definition realm_tracked_ids :: "catalog \<Rightarrow> itemid list" where
  "realm_tracked_ids c = ids_where c (\<lambda>k. \<not> is_commodity k)"

definition catalog_index :: "catalog \<Rightarrow> (itemid, catalog_item) btree" where
  "catalog_index c = fold (\<lambda>i. fold (\<lambda>id. bt_insert id i) (item_ids i)) (cg_items c) []"

definition find_item :: "catalog \<Rightarrow> itemid \<Rightarrow> catalog_item option" where
  "find_item c item = find (\<lambda>i. item_rank_of i item \<noteq> None) (cg_items c)"

definition by_audience :: "catalog \<Rightarrow> audience \<Rightarrow> catalog_item list" where
  "by_audience c a = filter (\<lambda>i. ci_kind i = Consumable \<and> ci_audience i = a) (cg_items c)"

definition of_kind :: "catalog \<Rightarrow> item_kind \<Rightarrow> catalog_item list" where
  "of_kind c k = filter (\<lambda>i. ci_kind i = k) (cg_items c)"

definition by_profession :: "catalog \<Rightarrow> profession \<Rightarrow> catalog_item list" where
  "by_profession c p = filter (\<lambda>i. ci_profession i = Some p) (of_kind c Reagent)"

definition by_slot :: "catalog \<Rightarrow> slot \<Rightarrow> catalog_item list" where
  "by_slot c s = filter (\<lambda>i. ci_slot i = Some s) (of_kind c Enchant)"

definition recipes_for :: "catalog \<Rightarrow> profession \<Rightarrow> catalog_item list" where
  "recipes_for c p = filter (\<lambda>i. ci_profession i = Some p) (of_kind c Recipe)"

definition item_level_of :: "catalog \<Rightarrow> nat \<Rightarrow> item_level option" where
  "item_level_of c bonus = bt_get (cg_item_levels c) (show_nat bonus)"

definition track_of :: "catalog \<Rightarrow> nat \<Rightarrow> track option" where
  "track_of c bonus = bt_get (cg_tracks c) (show_nat bonus)"

definition modifier_of :: "catalog \<Rightarrow> nat \<Rightarrow> string option" where
  "modifier_of c bonus = bt_get (cg_modifiers c) (show_nat bonus)"

definition bonuses :: "string \<Rightarrow> nat list" where
  "bonuses variant = List.map_filter (parse_uint u32_max) (split_on (CHR '','') variant)"

definition upgrade_in :: "catalog \<Rightarrow> string \<Rightarrow> nat option" where
  "upgrade_in c variant = find (\<lambda>b. item_level_of c b \<noteq> None) (bonuses variant)"

definition rank_in :: "catalog \<Rightarrow> string \<Rightarrow> item_level option" where
  "rank_in c variant = Option.bind (upgrade_in c variant) (item_level_of c)"

text \<open>\<open>find_map\<close>: the first answer there is.\<close>

fun find_map :: "('a \<Rightarrow> 'b option) \<Rightarrow> 'a list \<Rightarrow> 'b option" where
  "find_map f [] = None"
| "find_map f (x # xs) = (case f x of Some y \<Rightarrow> Some y | None \<Rightarrow> find_map f xs)"

definition track_in :: "catalog \<Rightarrow> string \<Rightarrow> track option" where
  "track_in c variant =
     (case find_map (track_of c) (bonuses variant) of
        Some t \<Rightarrow> Some t
      | None \<Rightarrow> Option.bind (rank_in c variant) (\<lambda>l. track_parse (il_upgrade l)))"

definition modifier_names :: "catalog \<Rightarrow> string \<Rightarrow> string list" where
  "modifier_names c variant = List.map_filter (modifier_of c) (bonuses variant)"

definition level_range :: "catalog \<Rightarrow> string list \<Rightarrow> string" where
  "level_range c variants =
     (let levels = List.map_filter (\<lambda>v. map_option il_item_level (rank_in c v)) variants in
      if levels = [] then []
      else let low = Min (set levels); high = Max (set levels) in
        if low = high then show_nat low
        else show_nat low @ [CHR 0xE2, CHR 0x80, CHR 0x93] @ show_nat high)"

section \<open>The set of catalogues\<close>

type_synonym catalog_set = "catalog list"

definition shipped_active :: "catalog_set \<Rightarrow> catalog option" where
  "shipped_active cs = find (\<lambda>c. is_active (cg_status c)) cs"

definition shipped_states :: "catalog_set \<Rightarrow> (string \<times> catalog_status) list" where
  "shipped_states cs = map (\<lambda>c. (cg_id c, cg_status c)) cs"

text \<open>The comparison of \<open>ordered_by\<close> as a key: active first, then the latest start, then the id.\<close>

definition display_key :: "(catalog \<Rightarrow> catalog_status) \<Rightarrow> catalog \<Rightarrow> bool \<times> int \<times> string" where
  "display_key state_of c = (\<not> is_active (state_of c), - int (span_start c), cg_id c)"

definition ordered_by :: "catalog_set \<Rightarrow> (catalog \<Rightarrow> catalog_status) \<Rightarrow> catalog list" where
  "ordered_by cs state_of = sort_key (display_key state_of) cs"

definition catalog_by_id :: "catalog_set \<Rightarrow> string \<Rightarrow> catalog option" where
  "catalog_by_id cs i = find (\<lambda>c. cg_id c = i) cs"

definition set_index :: "catalog_set \<Rightarrow> (itemid, catalog \<times> catalog_item) btree" where
  "set_index cs = fold (\<lambda>c. fold (\<lambda>i. fold (\<lambda>id. bt_insert id (c, i)) (item_ids i)) (cg_items c)) cs []"

section \<open>What a reviewed catalogue promises\<close>

lemma find_SomeD: "find P xs = Some x \<Longrightarrow> x \<in> set xs \<and> P x"
  by (induction xs) (auto split: if_splits)

lemma max_by_key_None [simp]: "max_by_key f xs = None \<longleftrightarrow> xs = []"
  by (cases xs) (auto split: option.splits)

lemma max_by_key_in: "max_by_key f xs = Some x \<Longrightarrow> x \<in> set xs"
  by (induction xs arbitrary: x) (auto split: option.splits if_splits)

lemma max_by_key_greatest: "max_by_key f xs = Some x \<Longrightarrow> y \<in> set xs \<Longrightarrow> f y \<le> f x"
  by (induction xs arbitrary: x) (fastforce split: option.splits if_splits)+

lemma count_tiers_wf: "bt_wf m \<Longrightarrow> bt_wf (fold count_tier ts m)"
  by (induction ts arbitrary: m) (auto simp: count_tier_def)

lemma count_tiers:
  assumes "bt_wf m"
  shows "bt_get (fold count_tier ts m) i =
    (let n = length (filter (\<lambda>t. rt_id t = i) ts) in
     case bt_get m i of Some k \<Rightarrow> Some (k + n) | None \<Rightarrow> if n = 0 then None else Some n)"
  using assms
proof (induction ts arbitrary: m)
  case (Cons t ts)
  from Cons.prems have wf: "bt_wf (count_tier t m)" by (simp add: count_tier_def)
  show ?case
    using Cons.IH [OF wf] Cons.prems
    by (auto simp: count_tier_def bt.lookup_insert Let_def split: option.splits)
qed (simp split: option.splits)

lemma all_positive_iff: "(\<forall>i n. 0 < n \<and> n = f i \<longrightarrow> \<not> 1 < n) \<longleftrightarrow> (\<forall>i. \<not> 1 < f i)" for f :: "'a \<Rightarrow> nat"
proof
  assume h: "\<forall>i n. 0 < n \<and> n = f i \<longrightarrow> \<not> 1 < n"
  show "\<forall>i. \<not> 1 < f i"
  proof
    show "\<not> 1 < f i" for i using h [rule_format, of "f i" i] by linarith
  qed
qed simp

lemma distinct_map_filter: "distinct (map f xs) \<longleftrightarrow> (\<forall>i. \<not> 1 < length (filter (\<lambda>x. f x = i) xs))"
proof (induction xs)
  case (Cons x xs)
  let ?n = "\<lambda>i. length (filter (\<lambda>x. f x = i) xs)"
  have "f x \<notin> set (map f xs) \<longleftrightarrow> ?n (f x) = 0"
    unfolding length_0_conv filter_empty_conv set_map image_iff by (auto dest: sym)
  moreover have "(\<forall>i. \<not> 1 < length (filter (\<lambda>x. f x = i) (x # xs))) \<longleftrightarrow> ?n (f x) = 0 \<and> (\<forall>i. \<not> 1 < ?n i)"
    (is "?l \<longleftrightarrow> ?r")
  proof
    assume l: ?l
    have "?n (f x) = 0" using l [rule_format, of "f x"] by simp
    moreover have "\<not> 1 < ?n i" for i using l [rule_format, of i] by (auto split: if_splits)
    ultimately show ?r by blast
  qed auto
  ultimately show ?case using Cons.IH by simp
qed simp

lemma no_repeated_tier:
  "[TierRepeated i n. (i, n) \<leftarrow> fold count_tier ts [], 1 < n] = [] \<longleftrightarrow> distinct (map rt_id ts)"
proof -
  have wf: "bt_wf (fold count_tier ts [])" by (rule count_tiers_wf) simp
  have get: "bt_get (fold count_tier ts []) i = Some n \<longleftrightarrow>
      0 < n \<and> n = length (filter (\<lambda>t. rt_id t = i) ts)" for i n
    by (auto simp: count_tiers Let_def bt.lookup_empty split: if_splits)
  have "[TierRepeated i n. (i, n) \<leftarrow> m, 1 < n] = [] \<longleftrightarrow> (\<forall>i n. (i, n) \<in> set m \<longrightarrow> \<not> 1 < n)" for m
    by (induction m) (auto split: if_splits)
  also have "(\<forall>i n. (i, n) \<in> set (fold count_tier ts []) \<longrightarrow> \<not> 1 < n) \<longleftrightarrow>
      (\<forall>i. \<not> 1 < length (filter (\<lambda>t. rt_id t = i) ts))"
    unfolding bt.entries_lookup [OF wf] get by (rule all_positive_iff)
  also have "\<dots> \<longleftrightarrow> distinct (map rt_id ts)" by (rule distinct_map_filter [symmetric])
  finally show ?thesis .
qed

text \<open>The review of \<open>/admin\<close> finds nothing exactly when the catalogue's release identity holds together.\<close>

lemma problems_none_iff:
  "problems c = [] \<longleftrightarrow>
     (\<forall>p\<in>set (cg_patches c). parse_date (pa_started p) \<noteq> None) \<and>
     distinct (map rt_id (cg_tiers c)) \<and>
     (\<forall>t\<in>set (cg_tiers c). parse_date (rt_opened t) \<noteq> None \<and>
        (\<exists>p. find (\<lambda>p. pa_patch p = rt_patch t) (cg_patches c) = Some p \<and> started_at p \<le> opened_at t))"
proof -
  have 1: "[PatchDate (pa_patch p) (pa_started p). p \<leftarrow> ps, parse_date (pa_started p) = None] = [] \<longleftrightarrow>
      (\<forall>p\<in>set ps. parse_date (pa_started p) \<noteq> None)" for ps
    by (induction ps) (auto split: if_splits)
  have 2: "tier_problems c t = [] \<longleftrightarrow> parse_date (rt_opened t) \<noteq> None \<and>
        (\<exists>p. find (\<lambda>p. pa_patch p = rt_patch t) (cg_patches c) = Some p \<and> started_at p \<le> opened_at t)" for t
    by (auto simp: tier_problems_def not_less split: option.splits)
  have 3: "concat (map (tier_problems c) ts) = [] \<longleftrightarrow> (\<forall>t\<in>set ts. tier_problems c t = [])" for ts
    by (induction ts) auto
  show ?thesis unfolding problems_def append_is_Nil_conv no_repeated_tier 1 3 2 by (rule refl)
qed

section \<open>Windows of time\<close>

definition covers :: "millis \<Rightarrow> millis \<times> millis option \<Rightarrow> bool" where
  "covers t w \<longleftrightarrow> fst w \<le> t \<and> (case snd w of None \<Rightarrow> True | Some u \<Rightarrow> t < u)"

lemma windows_of_patches [simp]: "map fst (windows_of ps) = ps"
  by (induction ps) auto

lemma windows_of_from: "w \<in> set (windows_of ps) \<Longrightarrow> fst w \<in> set ps \<and> fst (snd w) = started_at (fst w)"
  by (induction ps) auto

lemma windows_of_count:
  "sorted (map started_at ps) \<Longrightarrow>
     length (filter (\<lambda>w. covers t (snd w)) (windows_of ps)) =
       (if ps \<noteq> [] \<and> started_at (hd ps) \<le> t then 1 else 0)"
proof (induction ps)
  case (Cons p ps)
  show ?case
  proof (cases "ps \<noteq> [] \<and> started_at (hd ps) \<le> t")
    case True
    then have "\<not> covers t (started_at p, case ps of [] \<Rightarrow> None | q # _ \<Rightarrow> Some (started_at q))"
      by (cases ps) (auto simp: covers_def)
    then show ?thesis using Cons.IH Cons.prems True by (cases ps) auto
  next
    case False
    then have c: "covers t (started_at p, case ps of [] \<Rightarrow> None | q # _ \<Rightarrow> Some (started_at q)) \<longleftrightarrow>
        started_at p \<le> t" by (cases ps) (auto simp: covers_def)
    have "filter (\<lambda>w. covers t (snd w)) (windows_of ps) = []"
      using Cons.IH Cons.prems False by auto
    then show ?thesis using c by simp
  qed
qed simp

lemma windows_of_latest:
  "sorted (map started_at ps) \<Longrightarrow> w \<in> set (windows_of ps) \<Longrightarrow> covers t (snd w) \<Longrightarrow>
     q \<in> set ps \<Longrightarrow> started_at q \<le> t \<Longrightarrow> started_at q \<le> started_at (fst w)"
proof (induction ps)
  case (Cons p ps)
  show ?case
  proof (cases "w \<in> set (windows_of ps)")
    case True
    then have "started_at p \<le> started_at (fst w)"
      using Cons.prems(1) windows_of_from [OF True] by auto
    then show ?thesis using Cons.IH [OF _ True] Cons.prems by auto
  next
    case False
    then have w: "w = (p, started_at p, case ps of [] \<Rightarrow> None | q # _ \<Rightarrow> Some (started_at q))"
      using Cons.prems(2) by simp
    have "q \<notin> set ps"
      using Cons.prems w by (cases ps) (auto simp: covers_def)
    then show ?thesis using Cons.prems w by simp
  qed
qed simp

lemma span_start_hd:
  "cg_patches c \<noteq> [] \<Longrightarrow> span_start c = started_at (hd (sort_key started_at (cg_patches c)))"
proof -
  assume ne: "cg_patches c \<noteq> []"
  define ps where "ps = sort_key started_at (cg_patches c)"
  have psne: "ps \<noteq> []" using ne by (metis ps_def length_0_conv length_sort)
  have srt: "sorted (map started_at ps)" by (simp add: ps_def)
  obtain m where m: "min_by_key id (map started_at (cg_patches c)) = Some m"
    using ne by (cases "min_by_key id (map started_at (cg_patches c))") auto
  have mem: "m \<in> set (map started_at ps)" using min_by_key_in [OF m] by (simp add: ps_def)
  have hd_in: "started_at (hd ps) \<in> set (map started_at (cg_patches c))"
    using hd_in_set [OF psne] by (simp add: ps_def)
  have "m \<le> started_at (hd ps)" using min_by_key_least [OF m hd_in] by simp
  moreover have "started_at (hd ps) \<le> m" using srt psne mem by (cases ps) auto
  ultimately show ?thesis using m by (simp add: span_start_def ps_def)
qed

section \<open>An example\<close>

text \<open>Two patches, one raid tier that opened a week after its patch, and a potion of two ranks.\<close>

definition demo_potion :: catalog_item where
  "demo_potion = \<lparr> ci_name = ''Healing Potion'', ci_category = HealingPotion, ci_kind = Consumable,
     ci_profession = None, ci_slot = None, ci_audience = Common, ci_stat = NoStat,
     ci_ranks = [\<lparr> ir_rank = 2, ir_item_id = 211879 \<rparr>, \<lparr> ir_rank = 3, ir_item_id = 211880 \<rparr>],
     ci_floor_copper = None, ci_icon = None, ci_target_quantity = None \<rparr>"

definition demo_catalog :: catalog where
  "demo_catalog = \<lparr> cg_id = ''now'', cg_expansion = ''Now'', cg_status = Active, cg_version = 1,
     cg_patches = [\<lparr> pa_patch = ''12.1'', pa_name = ''This'', pa_started = ''2026-08-11'' \<rparr>,
                   \<lparr> pa_patch = ''12.0'', pa_name = ''First'', pa_started = ''2026-03-02'' \<rparr>],
     cg_tiers = [\<lparr> rt_id = ''abyss'', rt_name = ''The Venomous Abyss'', rt_patch = ''12.1'',
                    rt_opened = ''2026-08-18'', rt_season = Some 2 \<rparr>],
     cg_items = [demo_potion], cg_item_levels = [], cg_tracks = [], cg_modifiers = [], cg_notes = [] \<rparr>"

lemma demo_dates:
  "parse_date ''2026-08-11'' = Some 1786406400000"
  "parse_date ''2026-03-02'' = Some 1772409600000"
  "parse_date ''2026-08-18'' = Some 1787011200000"
proof -
  have "from_utc_date 2026 8 11 = 1786406400000" "from_utc_date 2026 3 2 = 1772409600000"
    "from_utc_date 2026 8 18 = 1787011200000"
    by (simp_all add: from_utc_date_def i64_id cong: let_weak_cong)
  then show "parse_date ''2026-08-11'' = Some 1786406400000"
    "parse_date ''2026-03-02'' = Some 1772409600000"
    "parse_date ''2026-08-18'' = Some 1787011200000"
    by (simp_all add: parse_date_def parse_uint_def unsigned_digits_def is_digit_def dec_val_def digit_val_def)
qed

lemma demo_reviewed: "problems demo_catalog = []"
  unfolding problems_none_iff by (simp add: demo_catalog_def demo_dates started_at_def opened_at_def)

end
