(* ===== verification/Releases.thy ===== *)
theory Releases
  imports Item_Catalog Accounts
begin

text \<open>
  Where each catalogue is in its life: the table \<open>catalog_releases\<close> with the queries of
  \<open>crates/storage/src/sqlite/releases.rs\<close>, the copy of the states the pages read and the gates of
  \<open>crates/app-core/src/market/release.rs\<close>, the activation route of \<open>crates/app-web/src/routes/admin.rs\<close> and
  the start of the server (\<open>crates/server/src/main.rs\<close>).

  The table's primary key and its partial unique index (one row in state \<open>active\<close>) are checked where the
  statements run; a violation is a conflict and the transaction leaves the table as it was. An activation
  is three atomic actions, the transaction, reading the table back and replacing the copy in memory,
  and activations interleave. The text of a state the table holds is kept as text.
\<close>

section \<open>The table\<close>

record release_row =
  rr_state :: string
  rr_changed_at :: millis
  rr_activated_at :: "millis option"
  rr_archived_at :: "millis option"

type_synonym release_table = "(string, release_row) btree"

record release =
  re_catalog :: string
  re_state :: catalog_status
  re_changed_at :: millis
  re_activated_at :: "millis option"
  re_archived_at :: "millis option"

record activation =
  av_activated :: string
  av_archived :: "string option"

definition row_active :: "string \<times> release_row \<Rightarrow> bool" where
  "row_active r \<longleftrightarrow> rr_state (snd r) = ''active''"

fun read_release :: "string \<times> release_row \<Rightarrow> repo_error + release" where
  "read_release (i, r) =
     (case catalog_status_parse (rr_state r) of
        None \<Rightarrow> Inl Repo_Corrupt
      | Some st \<Rightarrow> Inr \<lparr> re_catalog = i, re_state = st, re_changed_at = rr_changed_at r,
                         re_activated_at = rr_activated_at r, re_archived_at = rr_archived_at r \<rparr>)"

fun collect_results :: "('e + 'a) list \<Rightarrow> 'e + 'a list" where
  "collect_results [] = Inr []"
| "collect_results (Inl e # rs) = Inl e"
| "collect_results (Inr x # rs) = (case collect_results rs of Inl e \<Rightarrow> Inl e | Inr xs \<Rightarrow> Inr (x # xs))"

definition releases :: "release_table \<Rightarrow> repo_error + release list" where
  "releases t = collect_results (map read_release t)"

definition active_row :: "release_table \<Rightarrow> string option" where
  "active_row t = map_option fst (find row_active t)"

text \<open>The state a shipped catalogue is seeded with, given the one that is collecting.\<close>

definition seed_state :: "string option \<Rightarrow> string \<Rightarrow> catalog_status \<Rightarrow> catalog_status" where
  "seed_state collecting i shipped =
     (case collecting of
        Some held \<Rightarrow> if is_active shipped \<and> held \<noteq> i then DraftPtr else shipped
      | None \<Rightarrow> shipped)"

text \<open>\<open>INSERT ... ON CONFLICT(catalog_id) DO NOTHING\<close>, and how many rows it wrote.\<close>

definition insert_release :: "string \<Rightarrow> catalog_status \<Rightarrow> millis \<Rightarrow> release_table \<Rightarrow> repo_error + nat \<times> release_table" where
  "insert_release i st now t =
     (if bt_get t i \<noteq> None then Inr (0, t)
      else if is_active st \<and> find row_active t \<noteq> None then Inl Repo_Conflict
      else Inr (1, bt_insert i \<lparr> rr_state = catalog_status_str st, rr_changed_at = now,
                    rr_activated_at = (if is_active st then Some now else None), rr_archived_at = None \<rparr> t))"

fun seed_loop :: "(string \<times> catalog_status) list \<Rightarrow> millis \<Rightarrow> string option \<Rightarrow> nat \<Rightarrow> release_table \<Rightarrow>
    repo_error + nat \<times> release_table" where
  "seed_loop [] now collecting written t = Inr (written, t)"
| "seed_loop ((i, shipped) # ds) now collecting written t =
     (let st = seed_state collecting i shipped;
          collecting = (if is_active st then Some i else collecting)
      in case insert_release i st now t of
           Inl e \<Rightarrow> Inl e
         | Inr (n, t) \<Rightarrow> seed_loop ds now collecting (written + n) t)"

definition seed :: "(string \<times> catalog_status) list \<Rightarrow> millis \<Rightarrow> release_table \<Rightarrow> repo_error + nat \<times> release_table" where
  "seed defaults now t = seed_loop defaults now (active_row t) 0 t"

definition archive_row :: "millis \<Rightarrow> release_row \<Rightarrow> release_row" where
  "archive_row now r = r\<lparr> rr_state := ''archived'', rr_changed_at := now, rr_archived_at := Some now \<rparr>"

definition activate_row :: "millis \<Rightarrow> release_row \<Rightarrow> release_row" where
  "activate_row now r =
     r\<lparr> rr_state := ''active'', rr_changed_at := now, rr_activated_at := Some now, rr_archived_at := None \<rparr>"

text \<open>\<open>UPDATE ... WHERE catalog_id = ?\<close>.\<close>

definition update_row :: "string \<Rightarrow> (release_row \<Rightarrow> release_row) \<Rightarrow> release_table \<Rightarrow> release_table" where
  "update_row i f t = (case bt_get t i of None \<Rightarrow> t | Some r \<Rightarrow> bt_insert i (f r) t)"

definition activate :: "string \<Rightarrow> millis \<Rightarrow> release_table \<Rightarrow> repo_error + activation \<times> release_table" where
  "activate i now t =
     (case bt_get t i of
        None \<Rightarrow> Inl Repo_NotFound
      | Some r \<Rightarrow>
          if rr_state r = catalog_status_str Active then Inr (\<lparr> av_activated = i, av_archived = None \<rparr>, t)
          else let previous = active_row t;
                   t1 = (case previous of None \<Rightarrow> t | Some old \<Rightarrow> update_row old (archive_row now) t)
               in if find row_active t1 \<noteq> None then Inl Repo_Conflict
                  else Inr (\<lparr> av_activated = i, av_archived = previous \<rparr>, update_row i (activate_row now) t1))"

section \<open>The copy in memory\<close>

type_synonym release_states = "(string, catalog_status) btree"

definition replace_states :: "(string \<times> catalog_status) list \<Rightarrow> release_states" where
  "replace_states states = fold (\<lambda>p. bt_insert (fst p) (snd p)) states []"

definition held_state_of :: "release_states \<Rightarrow> string \<Rightarrow> catalog_status \<Rightarrow> catalog_status" where
  "held_state_of held i shipped = (case bt_get held i of Some st \<Rightarrow> st | None \<Rightarrow> shipped)"

definition state_of :: "release_states \<Rightarrow> catalog \<Rightarrow> catalog_status" where
  "state_of states c = held_state_of states (cg_id c) (cg_status c)"

definition active_catalog :: "catalog_set \<Rightarrow> release_states \<Rightarrow> catalog option" where
  "active_catalog cs states = find (\<lambda>c. is_active (state_of states c)) cs"

definition public_catalog :: "catalog_set \<Rightarrow> release_states \<Rightarrow> string \<Rightarrow> catalog option" where
  "public_catalog cs states i =
     Option.bind (catalog_by_id cs i) (\<lambda>c. if is_public (state_of states c) then Some c else None)"

definition all_catalogs :: "catalog_set \<Rightarrow> release_states \<Rightarrow> catalog list" where
  "all_catalogs cs states = ordered_by cs (state_of states)"

definition public_all :: "catalog_set \<Rightarrow> release_states \<Rightarrow> catalog list" where
  "public_all cs states = filter (\<lambda>c. is_public (state_of states c)) (ordered_by cs (state_of states))"

definition public_owners :: "catalog_set \<Rightarrow> release_states \<Rightarrow> (itemid, catalog) btree" where
  "public_owners cs states =
     fold (\<lambda>c. fold (\<lambda>i. fold (\<lambda>id. bt_insert id c) (item_ids i)) (cg_items c)) (rev (public_all cs states)) []"

definition public_item :: "catalog_set \<Rightarrow> release_states \<Rightarrow> itemid \<Rightarrow> (catalog \<times> catalog_item) option" where
  "public_item cs states item = find_map (\<lambda>c. map_option (\<lambda>e. (c, e)) (find_item c item)) (public_all cs states)"

definition public_index :: "catalog_set \<Rightarrow> release_states \<Rightarrow> (itemid, catalog \<times> catalog_item) btree" where
  "public_index cs states =
     fold (\<lambda>c. fold (\<lambda>i. fold (\<lambda>id. bt_insert id (c, i)) (item_ids i)) (cg_items c)) (rev (public_all cs states)) []"

section \<open>Activation and start\<close>

record release_sys =
  rs_table :: release_table
  rs_states :: release_states
  rs_committed :: nat
  rs_read :: "(string \<times> catalog_status) list list"

definition listed :: "release list \<Rightarrow> (string \<times> catalog_status) list" where
  "listed rs = map (\<lambda>r. (re_catalog r, re_state r)) rs"

text \<open>\<open>POST /admin/release\<close> up to the end of its transaction.\<close>

definition activate_route :: "catalog_set \<Rightarrow> user option \<Rightarrow> bool \<Rightarrow> string \<Rightarrow> millis \<Rightarrow> release_table \<Rightarrow>
    app_error + activation \<times> release_table" where
  "activate_route cs u csrf_ok form_catalog now t =
     (if \<not> has_admin_access u then Inl App_NotFound
      else if \<not> csrf_ok then Inl App_Forbidden
      else case catalog_by_id cs form_catalog of
             None \<Rightarrow> Inl App_NotFound
           | Some c \<Rightarrow>
               if problems c \<noteq> [] then Inl App_NotFound
               else (case activate (cg_id c) now t of Inl e \<Rightarrow> Inl (App_Repo e) | Inr r \<Rightarrow> Inr r))"

definition server_releases :: "catalog_set \<Rightarrow> millis \<Rightarrow> release_table \<Rightarrow> repo_error + release_sys" where
  "server_releases cs now t =
     (case seed (shipped_states cs) now t of
        Inl e \<Rightarrow> Inl e
      | Inr (_, t) \<Rightarrow>
          (case releases t of
             Inl e \<Rightarrow> Inl e
           | Inr known \<Rightarrow> Inr \<lparr> rs_table = t, rs_states = replace_states (listed known), rs_committed = 0, rs_read = [] \<rparr>))"

inductive release_step :: "catalog_set \<Rightarrow> release_sys \<Rightarrow> release_sys \<Rightarrow> bool" for cs where
  commit: "activate_route cs u csrf i now (rs_table s) = Inr (a, t) \<Longrightarrow>
    release_step cs s (s\<lparr> rs_table := t, rs_committed := Suc (rs_committed s) \<rparr>)"
| read_back: "rs_committed s = Suc n \<Longrightarrow> releases (rs_table s) = Inr known \<Longrightarrow>
    release_step cs s (s\<lparr> rs_committed := n, rs_read := listed known # rs_read s \<rparr>)"
| fail_back: "rs_committed s = Suc n \<Longrightarrow> release_step cs s (s\<lparr> rs_committed := n \<rparr>)"
| publish: "p \<in> set (rs_read s) \<Longrightarrow>
    release_step cs s (s\<lparr> rs_states := replace_states p, rs_read := remove1 p (rs_read s) \<rparr>)"

text \<open>A server on a new database, its steps, and a restart, possibly of a build with other catalogues.\<close>

inductive release_reach :: "catalog_set \<Rightarrow> release_sys \<Rightarrow> bool" where
  first: "server_releases cs now [] = Inr s \<Longrightarrow> release_reach cs s"
| restart: "release_reach cs s \<Longrightarrow> server_releases cs' now (rs_table s) = Inr s' \<Longrightarrow> release_reach cs' s'"
| step: "release_reach cs s \<Longrightarrow> release_step cs s s' \<Longrightarrow> release_reach cs s'"

section \<open>The table's invariant\<close>

definition in_state :: "release_table \<Rightarrow> string \<Rightarrow> catalog_status \<Rightarrow> bool" where
  "in_state t i st \<longleftrightarrow> (\<exists>r. bt_get t i = Some r \<and> rr_state r = catalog_status_str st)"

definition table_ok :: "release_table \<Rightarrow> bool" where
  "table_ok t \<longleftrightarrow> bt_wf t \<and>
     (\<forall>i r. bt_get t i = Some r \<longrightarrow> rr_state r \<in> range catalog_status_str) \<and>
     (\<forall>i j. in_state t i Active \<longrightarrow> in_state t j Active \<longrightarrow> i = j)"

text \<open>What may happen to a row: it stays, and it never becomes a draft again.\<close>

definition later :: "release_table \<Rightarrow> release_table \<Rightarrow> bool" where
  "later t t' \<longleftrightarrow> (\<forall>i. bt_get t i \<noteq> None \<longrightarrow> bt_get t' i \<noteq> None \<and> (in_state t' i DraftPtr \<longrightarrow> in_state t i DraftPtr))"

lemma in_state_unique: "in_state t i st \<Longrightarrow> in_state t i st' \<Longrightarrow> st = st'"
  using catalog_status_names.as_str_distinct by (auto simp: in_state_def)

lemma in_state_cases: "table_ok t \<Longrightarrow> bt_get t i \<noteq> None \<Longrightarrow> \<exists>st. in_state t i st"
  by (fastforce simp: table_ok_def in_state_def image_iff)

lemma in_state_insert:
  "bt_wf t \<Longrightarrow> in_state (bt_insert k r t) i st \<longleftrightarrow> (if i = k then rr_state r = catalog_status_str st else in_state t i st)"
  by (simp add: in_state_def bt.lookup_insert)

lemma table_ok_wf: "table_ok t \<Longrightarrow> bt_wf t"
  by (simp add: table_ok_def)

lemma row_active_iff: "bt_wf t \<Longrightarrow> find row_active t = None \<longleftrightarrow> (\<forall>i. \<not> in_state t i Active)"
  using bt.entries_lookup [of t] by (fastforce simp: find_None_iff row_active_def in_state_def)

lemma active_row_Some: "bt_wf t \<Longrightarrow> active_row t = Some i \<Longrightarrow> in_state t i Active"
  by (auto simp: active_row_def row_active_def in_state_def bt.entries_lookup dest!: find_SomeD)

lemma active_row_None: "bt_wf t \<Longrightarrow> active_row t = None \<longleftrightarrow> (\<forall>i. \<not> in_state t i Active)"
  by (simp add: active_row_def row_active_iff)

lemma table_okI:
  assumes "bt_wf t" "\<And>i. bt_get t i \<noteq> None \<Longrightarrow> \<exists>st. in_state t i st"
    "\<And>i j. in_state t i Active \<Longrightarrow> in_state t j Active \<Longrightarrow> i = j"
  shows "table_ok t"
  using assms by (fastforce simp: table_ok_def in_state_def)

lemma later_refl [simp]: "later t t"
  by (simp add: later_def)

lemma later_trans: "later t u \<Longrightarrow> later u v \<Longrightarrow> later t v"
  by (meson later_def)

section \<open>Seeding\<close>

lemma insert_release_ok:
  assumes ok: "table_ok t" and free: "is_active st \<Longrightarrow> \<forall>j. in_state t j Active \<longrightarrow> j = i"
  obtains n t' where "insert_release i st now t = Inr (n, t')" "table_ok t'" "later t t'" "bt_get t' i \<noteq> None"
    "\<forall>j. in_state t' j Active \<longleftrightarrow> in_state t j Active \<or> bt_get t i = None \<and> j = i \<and> is_active st"
    "\<forall>j. bt_get t j \<noteq> None \<longrightarrow> bt_get t' j = bt_get t j"
proof (cases "bt_get t i")
  case None
  have wf: "bt_wf t" using ok by (rule table_ok_wf)
  have none: "\<not> (is_active st \<and> find row_active t \<noteq> None)"
  proof
    assume a: "is_active st \<and> find row_active t \<noteq> None"
    then obtain j where "in_state t j Active" unfolding row_active_iff [OF wf] by auto
    with free a have "in_state t i Active" by metis
    then show False using None by (simp add: in_state_def)
  qed
  let ?r = "\<lparr> rr_state = catalog_status_str st, rr_changed_at = now,
    rr_activated_at = (if is_active st then Some now else None), rr_archived_at = None \<rparr>"
  have act: "in_state (bt_insert i ?r t) j Active \<longleftrightarrow> in_state t j Active \<or> j = i \<and> is_active st" for j
    using None catalog_status_names.as_str_distinct [of st Active]
    by (auto simp: in_state_insert [OF wf] is_active_def) (auto simp: in_state_def)
  show ?thesis
  proof (rule that)
    show "insert_release i st now t = Inr (1, bt_insert i ?r t)"
      using None none by (simp add: insert_release_def)
    show "table_ok (bt_insert i ?r t)"
    proof (rule table_okI)
      show "bt_wf (bt_insert i ?r t)" using wf by simp
      show "\<exists>st. in_state (bt_insert i ?r t) j st" if "bt_get (bt_insert i ?r t) j \<noteq> None" for j
        using that in_state_cases [OF ok, of j] wf
        by (cases "j = i") (auto simp: in_state_insert bt.lookup_insert)
      show "j = k" if "in_state (bt_insert i ?r t) j Active" "in_state (bt_insert i ?r t) k Active" for j k
        using that ok free unfolding act by (auto simp: table_ok_def)
    qed
  qed (use wf None act in \<open>auto simp: later_def in_state_insert bt.lookup_insert\<close>)
next
  case (Some r)
  then show ?thesis using ok by (intro that [of 0 t]) (auto simp: insert_release_def)
qed

text \<open>While the loop runs, the catalogue it takes for collecting is the only one a row can be active for.\<close>

lemma seed_loop_ok:
  assumes "table_ok t" "\<forall>j. in_state t j Active \<longrightarrow> collecting = Some j"
  shows "\<exists>n t'. seed_loop ds now collecting w t = Inr (n, t') \<and> table_ok t' \<and> later t t' \<and>
    (\<forall>i\<in>fst ` set ds. bt_get t' i \<noteq> None) \<and> (\<forall>j. bt_get t j \<noteq> None \<longrightarrow> bt_get t' j = bt_get t j)"
  using assms
proof (induction ds arbitrary: t collecting w)
  case (Cons d ds)
  obtain i shipped where d: "d = (i, shipped)" by (cases d)
  let ?st = "seed_state collecting i shipped"
  let ?c = "if is_active ?st then Some i else collecting"
  have mine: "\<forall>j. in_state t j Active \<longrightarrow> j = i" if "is_active ?st"
    using that Cons.prems(2) by (auto simp: seed_state_def is_active_def split: option.splits if_splits)
  obtain n t' where t': "insert_release i ?st now t = Inr (n, t')" "table_ok t'" "later t t'" "bt_get t' i \<noteq> None"
    and act: "\<forall>j. in_state t' j Active \<longleftrightarrow> in_state t j Active \<or> bt_get t i = None \<and> j = i \<and> is_active ?st"
    and keep: "\<forall>j. bt_get t j \<noteq> None \<longrightarrow> bt_get t' j = bt_get t j"
    by (rule insert_release_ok [OF Cons.prems(1) mine])
  have "\<forall>j. in_state t' j Active \<longrightarrow> ?c = Some j" using act mine Cons.prems(2) by auto
  from Cons.IH [OF t'(2) this, of "w + n"] obtain m u where u:
    "seed_loop ds now ?c (w + n) t' = Inr (m, u)" "table_ok u" "later t' u"
    "\<forall>i\<in>fst ` set ds. bt_get u i \<noteq> None" "\<forall>j. bt_get t' j \<noteq> None \<longrightarrow> bt_get u j = bt_get t' j"
    by blast
  have "seed_loop (d # ds) now collecting w t = Inr (m, u)"
    using u(1) t'(1) by (simp add: d Let_def)
  moreover have "\<forall>j. bt_get t j \<noteq> None \<longrightarrow> bt_get u j = bt_get t j"
    using keep u(5) by metis
  moreover have "bt_get u i \<noteq> None" using t'(4) u(5) by metis
  ultimately show ?case using u(2,4) later_trans [OF t'(3) u(3)] by (auto simp: d)
qed auto

lemma seed_ok:
  assumes "table_ok t"
  shows "\<exists>n t'. seed ds now t = Inr (n, t') \<and> table_ok t' \<and> later t t' \<and>
    (\<forall>i\<in>fst ` set ds. bt_get t' i \<noteq> None) \<and> (\<forall>j. bt_get t j \<noteq> None \<longrightarrow> bt_get t' j = bt_get t j)"
proof -
  have "\<forall>j. in_state t j Active \<longrightarrow> active_row t = Some j"
  proof (intro allI impI)
    fix j
    assume j: "in_state t j Active"
    then obtain k where k: "active_row t = Some k"
      using active_row_None [OF table_ok_wf [OF assms]] by (cases "active_row t") auto
    then have "in_state t k Active" by (rule active_row_Some [OF table_ok_wf [OF assms]])
    with j k assms show "active_row t = Some j" by (auto simp: table_ok_def)
  qed
  then show ?thesis unfolding seed_def by (rule seed_loop_ok [OF assms])
qed

section \<open>Activating\<close>

lemma update_row_wf [simp]: "bt_wf t \<Longrightarrow> bt_wf (update_row i f t)"
  by (auto simp: update_row_def split: option.splits)

lemma get_update_row:
  "bt_wf t \<Longrightarrow> bt_get (update_row i f t) j = (if j = i then map_option f (bt_get t i) else bt_get t j)"
  by (auto simp: update_row_def bt.lookup_insert split: option.splits)

lemma in_state_activate:
  "bt_wf t \<Longrightarrow> in_state (update_row i (activate_row now) t) j st \<longleftrightarrow>
     (if j = i then bt_get t i \<noteq> None \<and> st = Active else in_state t j st)"
  using catalog_status_names.as_str_distinct [of st Active] catalog_status_str.simps(2)
  by (auto simp: in_state_def get_update_row activate_row_def)

lemma in_state_archive:
  "bt_wf t \<Longrightarrow> in_state (update_row i (archive_row now) t) j st \<longleftrightarrow>
     (if j = i then bt_get t i \<noteq> None \<and> st = Archived else in_state t j st)"
  using catalog_status_names.as_str_distinct [of st Archived] catalog_status_str.simps(3)
  by (auto simp: in_state_def get_update_row archive_row_def)

lemma activate_ok:
  assumes ok: "table_ok t" and i: "bt_get t i \<noteq> None"
  obtains a t' where "activate i now t = Inr (a, t')" "av_activated a = i" "table_ok t'" "later t t'"
    "\<And>j st. in_state t' j st \<longleftrightarrow>
       (if j = i then st = Active
        else if in_state t j Active then st = Archived else in_state t j st)"
    "\<And>j. av_archived a = Some j \<longleftrightarrow> in_state t j Active \<and> j \<noteq> i"
    "\<And>j. bt_get t' j = None \<longleftrightarrow> bt_get t j = None"
proof -
  have wf: "bt_wf t" using ok by (rule table_ok_wf)
  have one: "j = k" if "in_state t j Active" "in_state t k Active" for j k
    using ok that by (auto simp: table_ok_def)
  from i obtain r where r: "bt_get t i = Some r" by auto
  show ?thesis
  proof (cases "in_state t i Active")
    case True
    then have "rr_state r = catalog_status_str Active" using r by (simp add: in_state_def)
    then have "activate i now t = Inr (\<lparr> av_activated = i, av_archived = None \<rparr>, t)"
      using r by (simp add: activate_def)
    then show ?thesis
      using ok True one in_state_unique [of t i] by (intro that) auto
  next
    case False
    then have na: "rr_state r \<noteq> catalog_status_str Active" using r by (simp add: in_state_def)
    define t1 where "t1 = (case active_row t of None \<Rightarrow> t | Some old \<Rightarrow> update_row old (archive_row now) t)"
    have wf1: "bt_wf t1" using wf by (auto simp: t1_def split: option.splits)
    have t1: "in_state t1 j st \<longleftrightarrow> (if in_state t j Active then st = Archived else in_state t j st)" for j st
    proof (cases "active_row t")
      case None
      then show ?thesis using active_row_None [OF wf] by (simp add: t1_def)
    next
      case (Some old)
      have "in_state t old Active" using active_row_Some [OF wf Some] .
      then have "in_state t j Active \<longleftrightarrow> j = old" "bt_get t old \<noteq> None" using one by (auto simp: in_state_def)
      then show ?thesis using Some by (simp add: t1_def in_state_archive [OF wf])
    qed
    have dom1: "bt_get t1 j = None \<longleftrightarrow> bt_get t j = None" for j
      by (auto simp: t1_def get_update_row [OF wf] split: option.splits)
    define t' where "t' = update_row i (activate_row now) t1"
    have "find row_active t1 = None" unfolding row_active_iff [OF wf1] t1 by auto
    then have eq: "activate i now t = Inr (\<lparr> av_activated = i, av_archived = active_row t \<rparr>, t')"
      using r na by (simp add: activate_def Let_def t'_def t1_def)
    have st: "in_state t' j st \<longleftrightarrow>
        (if j = i then st = Active else if in_state t j Active then st = Archived else in_state t j st)" for j st
      using r dom1 [of i] unfolding t'_def in_state_activate [OF wf1] t1 by auto
    have dom: "bt_get t' j = None \<longleftrightarrow> bt_get t j = None" for j
      using dom1 by (auto simp: t'_def get_update_row [OF wf1])
    show ?thesis
    proof (rule that [OF eq])
      show "table_ok t'"
      proof (rule table_okI)
        show "bt_wf t'" using wf1 by (simp add: t'_def)
        show "\<exists>st. in_state t' j st" if "bt_get t' j \<noteq> None" for j
          using that in_state_cases [OF ok, of j] unfolding dom st by auto
        show "j = k" if "in_state t' j Active" "in_state t' k Active" for j k
          using that unfolding st by (auto split: if_splits)
      qed
      show "later t t'" unfolding later_def dom st by auto
      show "av_archived \<lparr> av_activated = i, av_archived = active_row t \<rparr> = Some j \<longleftrightarrow> in_state t j Active \<and> j \<noteq> i" for j
      proof -
        have "active_row t = Some j \<longleftrightarrow> in_state t j Active"
          using active_row_Some [OF wf] active_row_None [OF wf] one by (cases "active_row t") auto
        then show ?thesis using False by auto
      qed
    qed (use st dom in auto)
  qed
qed

section \<open>Reading back\<close>

text \<open>The copy that reading the table gives: a state for exactly the rows, the one the row has.\<close>

lemma collect_all: "(\<And>x. x \<in> set xs \<Longrightarrow> f x = Inr (g x)) \<Longrightarrow> collect_results (map f xs) = Inr (map g xs)"
  by (induction xs) auto

lemma map_of_rev_distinct: "distinct (map fst ps) \<Longrightarrow> map_of (rev ps) = map_of ps"
  by (rule map_of_eqI) (auto simp: map_of_eq_Some_iff rev_map [symmetric])

lemma releases_read:
  assumes ok: "table_ok t"
  obtains known where "releases t = Inr known"
    "\<forall>i st. bt_get (replace_states (listed known)) i = Some st \<longleftrightarrow> in_state t i st"
proof -
  define g :: "string \<times> release_row \<Rightarrow> release" where "g = (\<lambda>(i, r). \<lparr> re_catalog = i, re_state = the (catalog_status_parse (rr_state r)),
    re_changed_at = rr_changed_at r, re_activated_at = rr_activated_at r, re_archived_at = rr_archived_at r \<rparr>)"
  have parse: "catalog_status_parse (rr_state r) = Some st \<longleftrightarrow> rr_state r = catalog_status_str st" for r :: release_row and st
    by (auto simp: catalog_status_parse_def catalog_status_names.parse_iff)
  have "read_release x = Inr (g x)" if "x \<in> set t" for x
  proof -
    obtain i r where x: "x = (i, r)" by (cases x)
    then have "bt_get t i = Some r" using that bt.entries_lookup [OF table_ok_wf [OF ok]] by simp
    then obtain st where "rr_state r = catalog_status_str st"
      using in_state_cases [OF ok, of i] by (auto simp: in_state_def)
    then have "catalog_status_parse (rr_state r) = Some st" by (rule parse [THEN iffD2])
    then show ?thesis by (simp add: x g_def)
  qed
  then have rel: "releases t = Inr (map g t)" unfolding releases_def by (rule collect_all)
  let ?l = "listed (map g t)"
  have keys: "map fst ?l = map fst t" by (auto simp: listed_def g_def)
  have dist: "distinct (map fst ?l)" unfolding keys by (rule bt.entries_distinct [OF table_ok_wf [OF ok]])
  have look: "bt_get (replace_states ?l) i = map_of ?l i" for i
    unfolding replace_states_def
    by (simp add: bt.insert_all_lookup bt.lookup_empty map_of_rev_distinct [OF dist] split: option.splits)
  have "map_of ?l i = map_option (\<lambda>r. the (catalog_status_parse (rr_state r))) (bt_get t i)" for i
    unfolding listed_def g_def bt_get_def by (induction t) auto
  note entry = this
  have "bt_get (replace_states ?l) i = Some st \<longleftrightarrow> in_state t i st" for i st
  proof (cases "bt_get t i")
    case (Some r)
    then obtain st' where st': "rr_state r = catalog_status_str st'"
      using in_state_cases [OF ok, of i] by (auto simp: in_state_def)
    then have "in_state t i st \<longleftrightarrow> st = st'"
      using Some catalog_status_names.as_str_distinct [of st' st] by (auto simp: in_state_def)
    then show ?thesis using parse [THEN iffD2, OF st'] Some by (auto simp: look entry)
  qed (simp add: look entry in_state_def)
  with rel that show ?thesis by blast
qed

section \<open>Copies that lag behind\<close>

text \<open>
  A copy of the states, possibly stale: it knows every shipped catalogue, it shows none that the table has
  as a draft, and it has at most one active one.
\<close>

definition copy_ok :: "catalog_set \<Rightarrow> release_table \<Rightarrow> release_states \<Rightarrow> bool" where
  "copy_ok cs t m \<longleftrightarrow>
     (\<forall>c\<in>set cs. bt_get m (cg_id c) \<noteq> None) \<and>
     (\<forall>i st. bt_get m i = Some st \<longrightarrow> bt_get t i \<noteq> None \<and> (in_state t i DraftPtr \<longrightarrow> st = DraftPtr)) \<and>
     (\<forall>i j. bt_get m i = Some Active \<longrightarrow> bt_get m j = Some Active \<longrightarrow> i = j)"

definition release_inv :: "catalog_set \<Rightarrow> release_sys \<Rightarrow> bool" where
  "release_inv cs s \<longleftrightarrow>
     table_ok (rs_table s) \<and> (\<forall>c\<in>set cs. bt_get (rs_table s) (cg_id c) \<noteq> None) \<and>
     copy_ok cs (rs_table s) (rs_states s) \<and>
     (\<forall>p\<in>set (rs_read s). copy_ok cs (rs_table s) (replace_states p))"

lemma copy_ok_later: "copy_ok cs t m \<Longrightarrow> later t t' \<Longrightarrow> copy_ok cs t' m"
  unfolding copy_ok_def later_def by blast

lemma copy_ok_read:
  assumes "table_ok t" "\<forall>c\<in>set cs. bt_get t (cg_id c) \<noteq> None" "releases t = Inr known"
  shows "copy_ok cs t (replace_states (listed known))"
proof -
  obtain k where k: "releases t = Inr k"
    "\<forall>i st. bt_get (replace_states (listed k)) i = Some st \<longleftrightarrow> in_state t i st"
    by (rule releases_read [OF assms(1)])
  have eq: "known = k" using k(1) assms(3) by simp
  have "bt_get (replace_states (listed k)) (cg_id c) \<noteq> None" if "c \<in> set cs" for c
    using in_state_cases [OF assms(1)] assms(2) that k(2) by (metis option.distinct(1))
  moreover have "bt_get t i \<noteq> None \<and> (in_state t i DraftPtr \<longrightarrow> st = DraftPtr)" if "in_state t i st" for i st
    using that in_state_unique [of t i] by (auto simp: in_state_def)
  moreover have "i = j" if "in_state t i Active" "in_state t j Active" for i j
    using that assms(1) by (auto simp: table_ok_def)
  ultimately show ?thesis unfolding copy_ok_def eq k(2) [rule_format] by blast
qed

lemma server_releases_ok:
  assumes "table_ok t"
  obtains s where "server_releases cs now t = Inr s" "release_inv cs s" "later t (rs_table s)"
    "\<forall>j. bt_get t j \<noteq> None \<longrightarrow> bt_get (rs_table s) j = bt_get t j"
    "\<forall>i st. bt_get (rs_states s) i = Some st \<longleftrightarrow> in_state (rs_table s) i st"
proof -
  obtain n t' where t': "seed (shipped_states cs) now t = Inr (n, t')" "table_ok t'" "later t t'"
    "\<forall>i\<in>fst ` set (shipped_states cs). bt_get t' i \<noteq> None" "\<forall>j. bt_get t j \<noteq> None \<longrightarrow> bt_get t' j = bt_get t j"
    using seed_ok [OF assms] by blast
  obtain known where k: "releases t' = Inr known"
    "\<forall>i st. bt_get (replace_states (listed known)) i = Some st \<longleftrightarrow> in_state t' i st"
    by (rule releases_read [OF t'(2)])
  have rows: "\<forall>c\<in>set cs. bt_get t' (cg_id c) \<noteq> None" using t'(4) by (auto simp: shipped_states_def)
  show ?thesis
    using t' k copy_ok_read [OF t'(2) rows k(1)] rows
    by (intro that) (auto simp: server_releases_def release_inv_def)
qed

lemma activate_route_ok:
  assumes "activate_route cs u csrf i now t = Inr (a, t')" "table_ok t"
  shows "table_ok t'" "later t t'" "has_admin_access u"
    "\<exists>c. catalog_by_id cs i = Some c \<and> problems c = [] \<and> activate (cg_id c) now t = Inr (a, t')"
proof -
  obtain c where c: "catalog_by_id cs i = Some c" "problems c = []" "activate (cg_id c) now t = Inr (a, t')"
    and adm: "has_admin_access u"
    using assms(1) by (auto simp: activate_route_def split: if_splits option.splits sum.splits)
  have "bt_get t (cg_id c) \<noteq> None" using c(3) by (auto simp: activate_def split: option.splits)
  then show "table_ok t'" "later t t'"
    by (auto intro: activate_ok [OF assms(2), of "cg_id c" now] simp: c(3))
  show "has_admin_access u" by (rule adm)
  show "\<exists>c. catalog_by_id cs i = Some c \<and> problems c = [] \<and> activate (cg_id c) now t = Inr (a, t')"
    using c by blast
qed

lemma release_step_inv: "release_step cs s s' \<Longrightarrow> release_inv cs s \<Longrightarrow> release_inv cs s'"
proof (induction rule: release_step.induct)
  case (commit u csrf i now s a t)
  from commit.prems have ok: "table_ok (rs_table s)" by (simp add: release_inv_def)
  note r = activate_route_ok [OF commit.hyps ok]
  have "\<forall>c\<in>set cs. bt_get t (cg_id c) \<noteq> None" using commit.prems r(2) by (auto simp: release_inv_def later_def)
  then show ?case using commit.prems r(1) copy_ok_later [OF _ r(2)] by (auto simp: release_inv_def)
next
  case (read_back s n known)
  then show ?case using copy_ok_read by (auto simp: release_inv_def)
next
  case (publish p s)
  then show ?case by (auto simp: release_inv_def dest: notin_set_remove1)
qed (simp add: release_inv_def)

lemma table_ok_empty: "table_ok []"
  by (simp add: table_ok_def in_state_def bt.lookup_empty)

lemma release_reach_inv: "release_reach cs s \<Longrightarrow> release_inv cs s"
proof (induction rule: release_reach.induct)
  case (first cs now s)
  then show ?case using server_releases_ok [OF table_ok_empty, of cs now] by auto
next
  case (restart cs s cs' now s')
  then have "table_ok (rs_table s)" by (simp add: release_inv_def)
  then show ?case using server_releases_ok [of "rs_table s" cs' now] restart.hyps by auto
qed (rule release_step_inv)

section \<open>The public lookups\<close>

definition lists_item :: "itemid \<Rightarrow> catalog \<Rightarrow> bool" where
  "lists_item item c \<longleftrightarrow> (\<exists>i\<in>set (cg_items c). item \<in> set (item_ids i))"

lemma insert_ids:
  "bt_wf m \<Longrightarrow> bt_wf (fold (\<lambda>id. bt_insert id v) ids m) \<and>
     bt_get (fold (\<lambda>id. bt_insert id v) ids m) k = (if k \<in> set ids then Some v else bt_get m k)"
  by (induction ids arbitrary: m) (auto simp: bt.lookup_insert)

lemma insert_items:
  assumes "bt_wf m"
  shows "bt_wf (fold (\<lambda>i. fold (\<lambda>id. bt_insert id (f i)) (item_ids i)) items m) \<and>
     (\<exists>e. bt_get (fold (\<lambda>i. fold (\<lambda>id. bt_insert id (f i)) (item_ids i)) items m) k =
       (if \<exists>i\<in>set items. k \<in> set (item_ids i) then Some (f e) else bt_get m k))"
  using assms
proof (induction items arbitrary: m)
  case (Cons i items)
  let ?m = "fold (\<lambda>id. bt_insert id (f i)) (item_ids i) m"
  have m: "bt_wf ?m" "bt_get ?m k = (if k \<in> set (item_ids i) then Some (f i) else bt_get m k)"
    using insert_ids [OF Cons.prems] by auto
  from Cons.IH [OF m(1)] show ?case using m(2) by (auto split: if_splits)
qed auto

text \<open>Maps written from the last catalogue to the first hold, for each item, the first that lists it.\<close>

lemma insert_catalogs:
  fixes f :: "catalog \<Rightarrow> catalog_item \<Rightarrow> 'v"
  defines "F \<equiv> \<lambda>c. fold (\<lambda>i. fold (\<lambda>id. bt_insert id (f c i)) (item_ids i)) (cg_items c)"
  shows "bt_wf (fold F (rev l) []) \<and>
     (case find (lists_item k) l of
        None \<Rightarrow> bt_get (fold F (rev l) []) k = None
      | Some c \<Rightarrow> \<exists>e. bt_get (fold F (rev l) []) k = Some (f c e))"
proof (induction l)
  case (Cons c l)
  let ?m = "fold F (rev l) []"
  have m: "bt_wf ?m" using Cons.IH by blast
  obtain e where e: "bt_get (F c ?m) k = (if lists_item k c then Some (f c e) else bt_get ?m k)"
    and wf: "bt_wf (F c ?m)"
    using insert_items [OF m, of "f c" "cg_items c" k] unfolding F_def lists_item_def by blast
  then show ?case using Cons.IH by (auto split: option.splits)
qed (simp add: bt.lookup_empty)

lemma find_item_lists: "find_item c item = None \<longleftrightarrow> \<not> lists_item item c"
  by (auto simp: find_item_def item_rank_of_def item_ids_def lists_item_def find_None_iff)

lemma find_map_first: "map_option fst (find_map (\<lambda>c. map_option (\<lambda>e. (c, e)) (g c)) l) = find (\<lambda>c. g c \<noteq> None) l"
  by (induction l) (auto split: option.splits)

lemma find_split: "find P l = Some x \<Longrightarrow> \<exists>xs ys. l = xs @ x # ys \<and> (\<forall>y\<in>set xs. \<not> P y)"
proof (induction l)
  case (Cons a l)
  show ?case
  proof (cases "P a")
    case True
    then show ?thesis using Cons.prems by (intro exI [of _ "[]"] exI [of _ l]) auto
  next
    case False
    then obtain xs ys where "l = xs @ x # ys" "\<forall>y\<in>set xs. \<not> P y" using Cons by auto
    then have "a # l = (a # xs) @ x # ys \<and> (\<forall>y\<in>set (a # xs). \<not> P y)" using False by simp
    then show ?thesis by blast
  qed
qed simp

lemma display_first:
  assumes "find P (public_all cs m) = Some c" "c' \<in> set cs" "is_active (state_of m c')" "P c'"
  shows "is_active (state_of m c)"
proof (rule ccontr)
  assume na: "\<not> is_active (state_of m c)"
  have "is_public (state_of m c')" using assms(3) by (simp add: is_public_def is_active_def)
  then have in_all: "c' \<in> set (public_all cs m)" using assms(2) by (simp add: public_all_def ordered_by_def)
  from assms(1) obtain xs ys where split: "public_all cs m = xs @ c # ys" "\<forall>x\<in>set xs. \<not> P x"
    by (auto dest!: find_split)
  have "c' \<in> set ys" using in_all split assms(3,4) na by auto
  moreover have "sorted (map (display_key (state_of m)) (public_all cs m))"
    by (simp add: public_all_def ordered_by_def sorted_filter)
  ultimately have "display_key (state_of m) c \<le> display_key (state_of m) c'"
    unfolding split(1) by (auto simp: sorted_append)
  then show False using na assms(3) by (auto simp: display_key_def)
qed

text \<open>
  The public lookups of the item pages agree. Which catalogue describes an item is the first in
  display order that lists it, among those that are not drafts: \<open>public_owners\<close>, \<open>public_index\<close> and
  \<open>public_item\<close> answer that one, all three nothing when there is none, and it is the active catalogue
  whenever that one lists the item.
\<close>
lemma public_lookups_agree:
  "bt_get (public_owners cs m) item = find (lists_item item) (public_all cs m) \<and>
   map_option fst (bt_get (public_index cs m) item) = bt_get (public_owners cs m) item \<and>
   map_option fst (public_item cs m item) = bt_get (public_owners cs m) item \<and>
   (\<forall>c c'. bt_get (public_owners cs m) item = Some c \<longrightarrow> c' \<in> set cs \<longrightarrow> is_active (state_of m c') \<longrightarrow>
      lists_item item c' \<longrightarrow> is_active (state_of m c))"
proof (intro conjI)
  show own: "bt_get (public_owners cs m) item = find (lists_item item) (public_all cs m)"
    using insert_catalogs [where f = "\<lambda>c i. c" and l = "public_all cs m" and k = item]
    unfolding public_owners_def by (auto split: option.splits)
  show "map_option fst (bt_get (public_index cs m) item) = bt_get (public_owners cs m) item"
    using insert_catalogs [where f = "\<lambda>c i. (c, i)" and l = "public_all cs m" and k = item]
    unfolding own unfolding public_index_def by (auto split: option.splits)
  show "map_option fst (public_item cs m item) = bt_get (public_owners cs m) item"
    unfolding own public_item_def find_map_first by (simp add: find_item_lists)
  show "\<forall>c c'. bt_get (public_owners cs m) item = Some c \<longrightarrow> c' \<in> set cs \<longrightarrow> is_active (state_of m c') \<longrightarrow>
      lists_item item c' \<longrightarrow> is_active (state_of m c)"
    unfolding own using display_first [of "lists_item item" cs m] by blast
qed

section \<open>Every state the server can get into\<close>

lemma reach_public:
  assumes inv: "release_inv cs s" and d: "in_state (rs_table s) i DraftPtr" and c: "c \<in> set cs"
    and p: "is_public (state_of (rs_states s) c)"
  shows "cg_id c \<noteq> i"
proof
  assume i: "cg_id c = i"
  have copy: "copy_ok cs (rs_table s) (rs_states s)" using inv by (simp add: release_inv_def)
  then obtain st where st: "bt_get (rs_states s) i = Some st" using c i by (auto simp: copy_ok_def)
  then have "st = DraftPtr" using copy d by (auto simp: copy_ok_def)
  then show False using p st i by (simp add: state_of_def held_state_of_def is_public_def)
qed

text \<open>
  C28: A catalogue that the database has as a draft reaches no visitor. In every state the server can get
  into, through any number of restarts, of builds with any catalogues, and any interleaving of activations
  whose copies of the states may be stale, no public lookup answers with it: not by its id, not in the list
  of catalogues, not as the description or the owner of an item, and it is not collected.
\<close>
theorem drafts_never_public:
  assumes "release_reach cs s" "in_state (rs_table s) i DraftPtr"
  shows "public_catalog cs (rs_states s) i = None \<and>
    i \<notin> cg_id ` set (public_all cs (rs_states s)) \<and>
    (\<forall>item c e. public_item cs (rs_states s) item = Some (c, e) \<longrightarrow> cg_id c \<noteq> i) \<and>
    (\<forall>item c. bt_get (public_owners cs (rs_states s)) item = Some c \<longrightarrow> cg_id c \<noteq> i) \<and>
    (\<forall>item c e. bt_get (public_index cs (rs_states s)) item = Some (c, e) \<longrightarrow> cg_id c \<noteq> i) \<and>
    (\<forall>c. active_catalog cs (rs_states s) = Some c \<longrightarrow> cg_id c \<noteq> i)"
proof -
  note hidden = reach_public [OF release_reach_inv [OF assms(1)] assms(2)]
  have all: "cg_id c \<noteq> i" if "c \<in> set (public_all cs (rs_states s))" for c
    using that hidden by (auto simp: public_all_def ordered_by_def)
  have own: "cg_id c \<noteq> i" if "find (lists_item item) (public_all cs (rs_states s)) = Some c" for item c
    using find_SomeD [OF that] all by blast
  have item: "find (lists_item item) (public_all cs (rs_states s)) = Some c"
    if "public_item cs (rs_states s) item = Some (c, e)" for item c e
    using find_map_first [of "\<lambda>c. find_item c item" "public_all cs (rs_states s)"] that
    by (simp add: public_item_def find_item_lists)
  have index: "find (lists_item item) (public_all cs (rs_states s)) = Some c"
    if "bt_get (public_index cs (rs_states s)) item = Some (c, e)" for item c e
    using insert_catalogs [where f = "\<lambda>c i. (c, i)" and l = "public_all cs (rs_states s)" and k = item] that
    unfolding public_index_def by (auto split: option.splits)
  have owners: "find (lists_item item) (public_all cs (rs_states s)) = Some c"
    if "bt_get (public_owners cs (rs_states s)) item = Some c" for item c
    using insert_catalogs [where f = "\<lambda>c i. c" and l = "public_all cs (rs_states s)" and k = item] that
    unfolding public_owners_def by (auto split: option.splits)
  have id: "public_catalog cs (rs_states s) i = None"
  proof (cases "catalog_by_id cs i")
    case (Some c)
    then have "c \<in> set cs \<and> cg_id c = i" unfolding catalog_by_id_def by (rule find_SomeD)
    then show ?thesis using Some hidden [of c] by (auto simp: public_catalog_def)
  qed (simp add: public_catalog_def)
  have active: "cg_id c \<noteq> i" if "active_catalog cs (rs_states s) = Some c" for c
    using hidden [of c] find_SomeD [OF that [unfolded active_catalog_def]]
    by (auto simp: is_active_def is_public_def)
  show ?thesis using id all own [OF item] own [OF owners] own [OF index] active by blast
qed

text \<open>
  C29: One catalogue collects, and a rollover is one step. In every state the server can get into, at most
  one catalogue is active in the database and, by the copy the pages read, among the shipped ones. The
  server starts on that database whatever the catalogues of the new build, and leaves every row it finds as
  it is. And an administrator who activates a reviewed catalogue succeeds: it is active, the one that was
  active before is archived and reported, and no other changes.
\<close>
theorem catalogue_rollover:
  assumes "release_reach cs s"
  shows "(\<forall>i j. in_state (rs_table s) i Active \<longrightarrow> in_state (rs_table s) j Active \<longrightarrow> i = j) \<and>
    (\<forall>c c'. c \<in> set cs \<longrightarrow> c' \<in> set cs \<longrightarrow> is_active (state_of (rs_states s) c) \<longrightarrow>
       is_active (state_of (rs_states s) c') \<longrightarrow> cg_id c = cg_id c') \<and>
    (\<forall>cs' now. \<exists>s'. server_releases cs' now (rs_table s) = Inr s' \<and>
       (\<forall>j. bt_get (rs_table s) j \<noteq> None \<longrightarrow> bt_get (rs_table s') j = bt_get (rs_table s) j)) \<and>
    (\<forall>u i c now. has_admin_access u \<longrightarrow> catalog_by_id cs i = Some c \<longrightarrow> problems c = [] \<longrightarrow>
       (\<exists>a t. activate_route cs u True i now (rs_table s) = Inr (a, t) \<and> av_activated a = i \<and>
          (\<forall>j st. in_state t j st \<longleftrightarrow>
             (if j = i then st = Active else if in_state (rs_table s) j Active then st = Archived
              else in_state (rs_table s) j st)) \<and>
          (\<forall>j. av_archived a = Some j \<longleftrightarrow> in_state (rs_table s) j Active \<and> j \<noteq> i)))"
proof -
  have inv: "release_inv cs s" by (rule release_reach_inv [OF assms])
  then have ok: "table_ok (rs_table s)" and copy: "copy_ok cs (rs_table s) (rs_states s)"
    and rows: "\<forall>c\<in>set cs. bt_get (rs_table s) (cg_id c) \<noteq> None" by (auto simp: release_inv_def)
  have state: "bt_get (rs_states s) (cg_id c) = Some Active"
    if "c \<in> set cs" "is_active (state_of (rs_states s) c)" for c
    using copy that by (auto simp: copy_ok_def state_of_def held_state_of_def is_active_def split: option.splits)
  have 1: "i = j" if "in_state (rs_table s) i Active" "in_state (rs_table s) j Active" for i j
    using that ok by (auto simp: table_ok_def)
  have 2: "cg_id c = cg_id c'" if "c \<in> set cs" "c' \<in> set cs" "is_active (state_of (rs_states s) c)"
    "is_active (state_of (rs_states s) c')" for c c'
    using state [OF that(1,3)] state [OF that(2,4)] copy by (auto simp: copy_ok_def)
  have 3: "\<exists>s'. server_releases cs' now (rs_table s) = Inr s' \<and>
       (\<forall>j. bt_get (rs_table s) j \<noteq> None \<longrightarrow> bt_get (rs_table s') j = bt_get (rs_table s) j)" for cs' now
    using server_releases_ok [OF ok, of cs' now] by metis
  have 4: "\<exists>a t. activate_route cs u True i now (rs_table s) = Inr (a, t) \<and> av_activated a = i \<and>
          (\<forall>j st. in_state t j st \<longleftrightarrow>
             (if j = i then st = Active else if in_state (rs_table s) j Active then st = Archived
              else in_state (rs_table s) j st)) \<and>
          (\<forall>j. av_archived a = Some j \<longleftrightarrow> in_state (rs_table s) j Active \<and> j \<noteq> i)"
    if "has_admin_access u" "catalog_by_id cs i = Some c" "problems c = []" for u i c now
  proof -
    have c: "c \<in> set cs" "cg_id c = i" using find_SomeD [OF that(2) [unfolded catalog_by_id_def]] by auto
    then have "bt_get (rs_table s) i \<noteq> None" using rows by auto
    then obtain a t where at: "activate i now (rs_table s) = Inr (a, t)" "av_activated a = i"
      "\<And>j st. in_state t j st \<longleftrightarrow>
         (if j = i then st = Active else if in_state (rs_table s) j Active then st = Archived
          else in_state (rs_table s) j st)"
      "\<And>j. av_archived a = Some j \<longleftrightarrow> in_state (rs_table s) j Active \<and> j \<noteq> i"
      by (rule activate_ok [OF ok]) (rule that; assumption)
    have "activate_route cs u True i now (rs_table s) = Inr (a, t)"
      using that at(1) c by (simp add: activate_route_def)
    then show ?thesis using at by blast
  qed
  show ?thesis using 1 2 3 4 by blast
qed

section \<open>Examples\<close>

text \<open>A build that ships two active catalogues, on a new database: the second waits as a draft.\<close>

definition demo_next :: catalog where
  "demo_next = demo_catalog\<lparr> cg_id := ''next'' \<rparr>"

definition demo_sys :: release_sys where
  "demo_sys = \<lparr> rs_table =
       [(''next'', \<lparr> rr_state = ''draft_ptr'', rr_changed_at = 5, rr_activated_at = None, rr_archived_at = None \<rparr>),
        (''now'', \<lparr> rr_state = ''active'', rr_changed_at = 5, rr_activated_at = Some 5, rr_archived_at = None \<rparr>)],
     rs_states = [(''next'', DraftPtr), (''now'', Active)], rs_committed = 0, rs_read = [] \<rparr>"

lemma text_order: "''next'' < ''now''" "\<not> ''now'' < ''next''"
  by (simp_all add: less_char_def of_char_def bit_0)

lemma demo_start: "server_releases [demo_catalog, demo_next] 5 [] = Inr demo_sys"
  by (simp add: server_releases_def seed_def shipped_states_def demo_catalog_def demo_next_def active_row_def
      seed_state_def is_active_def insert_release_def bt_get_def row_active_def releases_def
      catalog_status_parse_def enum_parse_def all_statuses_def replace_states_def listed_def demo_sys_def text_order Let_def)

lemma demo_reach: "release_reach [demo_catalog, demo_next] demo_sys"
  using demo_start by (rule release_reach.first)

lemma demo_draft: "in_state (rs_table demo_sys) ''next'' DraftPtr"
  by (simp add: in_state_def demo_sys_def bt_get_def)

theorem drafts_never_public_witness:
  "release_reach [demo_catalog, demo_next] demo_sys \<and> in_state (rs_table demo_sys) ''next'' DraftPtr \<and>
   public_catalog [demo_catalog, demo_next] (rs_states demo_sys) ''next'' = None \<and>
   ''next'' \<notin> cg_id ` set (public_all [demo_catalog, demo_next] (rs_states demo_sys))"
  using drafts_never_public [OF demo_reach demo_draft] demo_reach demo_draft by blast

theorem catalogue_rollover_witness:
  "\<exists>a t. activate_route [demo_catalog, demo_next] (Some \<lparr> u_id = 1, u_username = ''root'', u_created_at = 0, u_is_admin = True \<rparr>)
     True ''next'' 9 (rs_table demo_sys) = Inr (a, t) \<and> av_archived a = Some ''now'' \<and>
     in_state t ''now'' Archived \<and> in_state t ''next'' Active"
proof -
  let ?u = "Some \<lparr> u_id = 1, u_username = ''root'', u_created_at = 0, u_is_admin = True \<rparr>"
  have "has_admin_access ?u" by (simp add: has_admin_access_def)
  moreover have "catalog_by_id [demo_catalog, demo_next] ''next'' = Some demo_next"
    by (simp add: catalog_by_id_def demo_next_def demo_catalog_def)
  moreover have "problems demo_next = []"
    using demo_reviewed unfolding problems_none_iff by (simp add: demo_next_def)
  moreover have "in_state (rs_table demo_sys) ''now'' Active"
    by (simp add: in_state_def demo_sys_def bt_get_def)
  ultimately obtain a t where at: "activate_route [demo_catalog, demo_next] ?u True ''next'' 9 (rs_table demo_sys) = Inr (a, t)"
      "\<forall>j st. in_state t j st \<longleftrightarrow>
         (if j = ''next'' then st = Active else if in_state (rs_table demo_sys) j Active then st = Archived
          else in_state (rs_table demo_sys) j st)"
      "\<forall>j. av_archived a = Some j \<longleftrightarrow> in_state (rs_table demo_sys) j Active \<and> j \<noteq> ''next''"
      and now: "in_state (rs_table demo_sys) ''now'' Active"
    using catalogue_rollover [OF demo_reach, THEN conjunct2, THEN conjunct2, THEN conjunct2, rule_format,
        of ?u "''next''" demo_next 9] by blast
  have "av_archived a = Some ''now''" "in_state t ''now'' Archived" "in_state t ''next'' Active"
    using now at(2) [rule_format, of "''now''" Archived] at(2) [rule_format, of "''next''" Active]
      at(3) [rule_format, of "''now''"] by simp_all
  then show ?thesis using at(1) by blast
qed

lemma public_lookups_agree_example:
  "bt_get (public_owners [demo_catalog, demo_next] (rs_states demo_sys)) 211880 = Some demo_catalog \<and>
   is_active (state_of (rs_states demo_sys) demo_catalog)"
proof -
  let ?cs = "[demo_catalog, demo_next]"
  have st: "state_of (rs_states demo_sys) demo_catalog = Active" "state_of (rs_states demo_sys) demo_next = DraftPtr"
    by (simp_all add: state_of_def held_state_of_def demo_sys_def demo_next_def demo_catalog_def bt_get_def)
  have "public_all ?cs (rs_states demo_sys) = [demo_catalog]"
    unfolding public_all_def ordered_by_def by (simp add: st is_public_def display_key_def is_active_def)
  moreover have l: "lists_item 211880 demo_catalog"
    by (simp add: lists_item_def demo_catalog_def demo_potion_def item_ids_def)
  ultimately have own: "bt_get (public_owners ?cs (rs_states demo_sys)) 211880 = Some demo_catalog"
    using public_lookups_agree [of ?cs "rs_states demo_sys" 211880, THEN conjunct1] by simp
  moreover have "is_active (state_of (rs_states demo_sys) demo_catalog)"
    using public_lookups_agree [THEN conjunct2, THEN conjunct2, THEN conjunct2, rule_format, OF own _ _ l]
    by (simp add: st is_active_def)
  ultimately show ?thesis by blast
qed

text \<open>
  Two activations whose answers cross leave the copy stale after both are done: the database collects one
  catalogue, the pages say it is the other, until the next activation or restart.
\<close>

definition demo_table :: "string \<Rightarrow> string \<Rightarrow> release_table" where
  "demo_table x n =
     [(''next'', \<lparr> rr_state = x, rr_changed_at = 9, rr_activated_at = Some 9,
        rr_archived_at = (if x = ''archived'' then Some 9 else None) \<rparr>),
      (''now'', \<lparr> rr_state = n, rr_changed_at = 9, rr_activated_at = (if n = ''archived'' then Some 5 else Some 9),
        rr_archived_at = (if n = ''archived'' then Some 9 else None) \<rparr>)]"

abbreviation demo_admin :: "user option" where
  "demo_admin \<equiv> Some \<lparr> u_id = 1, u_username = ''root'', u_created_at = 0, u_is_admin = True \<rparr>"

lemma demo_next_reviewed: "problems demo_next = []"
  using demo_reviewed unfolding problems_none_iff by (simp add: demo_next_def)

lemmas demo_eval = has_admin_access_def catalog_by_id_def demo_next_def demo_catalog_def
  activate_def bt_get_def active_row_def row_active_def update_row_def
  archive_row_def activate_row_def text_order demo_table_def Let_def

lemma demo_by_id:
  "catalog_by_id [demo_catalog, demo_next] ''next'' = Some demo_next" "cg_id demo_next = ''next''"
  "catalog_by_id [demo_catalog, demo_next] ''now'' = Some demo_catalog" "cg_id demo_catalog = ''now''"
  by (simp_all add: demo_eval)

lemma demo_activations:
  "activate_route [demo_catalog, demo_next] demo_admin True ''next'' 9 (rs_table demo_sys) =
     Inr (\<lparr> av_activated = ''next'', av_archived = Some ''now'' \<rparr>, demo_table ''active'' ''archived'')"
  "activate_route [demo_catalog, demo_next] demo_admin True ''now'' 9 (demo_table ''active'' ''archived'') =
     Inr (\<lparr> av_activated = ''now'', av_archived = Some ''next'' \<rparr>, demo_table ''archived'' ''active'')"
  unfolding activate_route_def demo_by_id option.case
  by (simp_all add: demo_reviewed demo_next_reviewed demo_by_id) (simp_all add: demo_eval demo_sys_def)

lemma demo_reads:
  "\<exists>k. releases (demo_table ''active'' ''archived'') = Inr k \<and> listed k = [(''next'', Active), (''now'', Archived)]"
  "\<exists>k. releases (demo_table ''archived'' ''active'') = Inr k \<and> listed k = [(''next'', Archived), (''now'', Active)]"
  by (simp_all add: releases_def demo_table_def catalog_status_parse_def enum_parse_def all_statuses_def listed_def)

lemma stale_copy:
  "\<exists>s. release_reach [demo_catalog, demo_next] s \<and> rs_committed s = 0 \<and> rs_read s = [] \<and>
     in_state (rs_table s) ''now'' Active \<and>
     active_catalog [demo_catalog, demo_next] (rs_states s) = Some demo_next"
proof -
  let ?cs = "[demo_catalog, demo_next]"
  let ?p = "[(''next'', Active), (''now'', Archived)]" and ?q = "[(''next'', Archived), (''now'', Active)]"
  obtain k k' where k: "releases (demo_table ''active'' ''archived'') = Inr k" "listed k = ?p"
    "releases (demo_table ''archived'' ''active'') = Inr k'" "listed k' = ?q"
    using demo_reads by blast
  let ?s1 = "demo_sys\<lparr> rs_table := demo_table ''active'' ''archived'', rs_committed := 1 \<rparr>"
  let ?s2 = "?s1\<lparr> rs_committed := 0, rs_read := [?p] \<rparr>"
  let ?s3 = "?s2\<lparr> rs_table := demo_table ''archived'' ''active'', rs_committed := 1 \<rparr>"
  let ?s4 = "?s3\<lparr> rs_committed := 0, rs_read := [?q, ?p] \<rparr>"
  let ?s5 = "?s4\<lparr> rs_states := replace_states ?q, rs_read := [?p] \<rparr>"
  let ?s6 = "?s5\<lparr> rs_states := replace_states ?p, rs_read := [] \<rparr>"
  have "release_step ?cs demo_sys ?s1"
    using release_step.commit [OF demo_activations(1)] by (simp add: demo_sys_def)
  then have "release_reach ?cs ?s1" using demo_reach release_reach.step by blast
  moreover have "release_step ?cs ?s1 ?s2"
    using release_step.read_back [of ?s1 0 k ?cs] k by (simp add: demo_sys_def)
  ultimately have "release_reach ?cs ?s2" using release_reach.step by blast
  moreover have "release_step ?cs ?s2 ?s3"
    using release_step.commit [of ?cs demo_admin True "''now''" 9 ?s2] demo_activations(2) by simp
  ultimately have "release_reach ?cs ?s3" using release_reach.step by blast
  moreover have "release_step ?cs ?s3 ?s4"
    using release_step.read_back [of ?s3 0 k' ?cs] k by simp
  ultimately have "release_reach ?cs ?s4" using release_reach.step by blast
  moreover have "release_step ?cs ?s4 ?s5"
    using release_step.publish [of ?q ?s4 ?cs] by simp
  ultimately have "release_reach ?cs ?s5" using release_reach.step by blast
  moreover have "release_step ?cs ?s5 ?s6"
    using release_step.publish [of ?p ?s5 ?cs] by simp
  ultimately have r: "release_reach ?cs ?s6" using release_reach.step by blast
  have now: "in_state (demo_table ''archived'' ''active'') ''now'' Active"
    by (simp add: in_state_def demo_table_def bt_get_def)
  have "active_catalog ?cs (replace_states ?p) = Some demo_next"
    by (simp add: active_catalog_def state_of_def held_state_of_def replace_states_def bt_get_def text_order
        demo_by_id is_active_def)
  then show ?thesis using r now by (intro exI [of _ ?s6]) simp
qed

end
