(* ===== verification/Market_Keys.thy ===== *)
theory Market_Keys
  imports Item_Catalog
begin

text \<open>
  What identifies a market (\<open>crates/app-core/src/market/key.rs\<close>) and the periods it is described over
  (\<open>market/window.rs\<close>), with the texts both are stored under. A text that is not a key is \<open>None\<close>, where the
  code answers \<open>BadMarketKey\<close> with the text itself.
\<close>

section \<open>Markets\<close>

datatype market_key =
    KeyCommodity region itemid nat
  | KeyRecipe region nat itemid
  | KeyBoe region nat itemid "track option"

definition key_commodity :: "region \<Rightarrow> itemid \<Rightarrow> nat \<Rightarrow> market_key" where
  "key_commodity r item rank = KeyCommodity r item (max rank 1)"

definition key_recipe :: "region \<Rightarrow> nat \<Rightarrow> itemid \<Rightarrow> market_key" where
  "key_recipe r realm item = KeyRecipe r realm item"

definition key_boe :: "region \<Rightarrow> nat \<Rightarrow> itemid \<Rightarrow> track option \<Rightarrow> market_key" where
  "key_boe r realm item t = KeyBoe r realm item t"

fun key_region :: "market_key \<Rightarrow> region" where
  "key_region (KeyCommodity r _ _) = r"
| "key_region (KeyRecipe r _ _) = r"
| "key_region (KeyBoe r _ _ _) = r"

fun key_item :: "market_key \<Rightarrow> itemid" where
  "key_item (KeyCommodity _ i _) = i"
| "key_item (KeyRecipe _ _ i) = i"
| "key_item (KeyBoe _ _ i _) = i"

fun key_realm :: "market_key \<Rightarrow> nat option" where
  "key_realm (KeyCommodity _ _ _) = None"
| "key_realm (KeyRecipe _ realm _) = Some realm"
| "key_realm (KeyBoe _ realm _ _) = Some realm"

fun key_is_commodity :: "market_key \<Rightarrow> bool" where
  "key_is_commodity (KeyCommodity _ _ _) = True"
| "key_is_commodity _ = False"

fun key_tag :: "market_key \<Rightarrow> char" where
  "key_tag (KeyCommodity _ _ _) = CHR ''c''"
| "key_tag (KeyRecipe _ _ _) = CHR ''r''"
| "key_tag (KeyBoe _ _ _ _) = CHR ''b''"

fun key_fields :: "market_key \<Rightarrow> string list" where
  "key_fields (KeyCommodity _ item rank) = [show_nat item, show_nat rank]"
| "key_fields (KeyRecipe _ realm item) = [show_nat realm, show_nat item]"
| "key_fields (KeyBoe _ realm item track) =
     [show_nat realm, show_nat item, case track of None \<Rightarrow> ''-'' | Some t \<Rightarrow> track_slug t]"

definition key_str :: "market_key \<Rightarrow> string" where
  "key_str k = join_with (CHR '':'') ([key_tag k] # region_str (key_region k) # key_fields k)"

definition track_field :: "string \<Rightarrow> track option option" where
  "track_field s = (if s = ''-'' then Some None else map_option Some (from_slug s))"

definition key_of_fields :: "string \<Rightarrow> region \<Rightarrow> string list \<Rightarrow> market_key option" where
  "key_of_fields tag r rest =
     (if tag = ''c'' then
        (case rest of
           [i, k] \<Rightarrow> (case (parse_uint u32_max i, parse_uint 255 k) of
                         (Some item, Some rank) \<Rightarrow> if rank = 0 then None else Some (KeyCommodity r item rank)
                       | _ \<Rightarrow> None)
         | _ \<Rightarrow> None)
      else if tag = ''r'' then
        (case rest of
           [m, i] \<Rightarrow> (case (parse_uint u32_max m, parse_uint u32_max i) of
                         (Some realm, Some item) \<Rightarrow> Some (KeyRecipe r realm item)
                       | _ \<Rightarrow> None)
         | _ \<Rightarrow> None)
      else if tag = ''b'' then
        (case rest of
           [m, i, t] \<Rightarrow> (case (parse_uint u32_max m, parse_uint u32_max i, track_field t) of
                            (Some realm, Some item, Some track) \<Rightarrow> Some (KeyBoe r realm item track)
                          | _ \<Rightarrow> None)
         | _ \<Rightarrow> None)
      else None)"

definition key_from_str :: "string \<Rightarrow> market_key option" where
  "key_from_str raw =
     (case split_on (CHR '':'') raw of
        tag # region # rest \<Rightarrow>
          (case region_parse region of Some r \<Rightarrow> key_of_fields tag r rest | None \<Rightarrow> None)
      | _ \<Rightarrow> None)"

text \<open>The commodity market of an item, with the rank the catalogue gives it.\<close>

definition market_of_key :: "catalog \<Rightarrow> region \<Rightarrow> itemid \<Rightarrow> market_key" where
  "market_of_key c r item =
     key_commodity r item
       (case Option.bind (find_item c item) (\<lambda>e. item_rank_of e item) of Some k \<Rightarrow> k | None \<Rightarrow> 1)"

definition market_of :: "catalog \<Rightarrow> price_sample \<Rightarrow> market_key" where
  "market_of c s = market_of_key c (sm_region s) (sm_item s)"

section \<open>Windows\<close>

datatype window = Days nat | PatchWindow string | TierWindow string | Expansion | AllTime

definition HOUR_MS :: nat where
  "HOUR_MS = 60 * 60 * 1000"

definition DAY_MS :: nat where
  "DAY_MS = 24 * HOUR_MS"

definition ROLLING_DAYS :: "nat list" where
  "ROLLING_DAYS = [1, 3, 7, 14, 30]"

definition universal_windows :: "window list" where
  "universal_windows = map Days ROLLING_DAYS @ [Expansion, AllTime]"

definition windows_for :: "catalog \<Rightarrow> window list" where
  "windows_for c = universal_windows @ map (\<lambda>p. PatchWindow (pa_patch p)) (cg_patches c)
     @ map (\<lambda>t. TierWindow (rt_id t)) (cg_tiers c)"

definition next_tier :: "catalog \<Rightarrow> raid_tier \<Rightarrow> millis option" where
  "next_tier c t = min_by_key id (filter (\<lambda>u. opened_at t < u) (map opened_at (cg_tiers c)))"

fun window_bounds :: "window \<Rightarrow> catalog \<Rightarrow> millis \<Rightarrow> (millis \<times> millis option) option" where
  "window_bounds (Days d) c now = Some (now - wrap64 (d * DAY_MS), None)"
| "window_bounds (PatchWindow p) c now = map_option snd (find (\<lambda>w. pa_patch (fst w) = p) (patch_windows c))"
| "window_bounds (TierWindow i) c now =
     map_option (\<lambda>t. (opened_at t, next_tier c t)) (find (\<lambda>t. rt_id t = i) (cg_tiers c))"
| "window_bounds Expansion c now = Some (span_start c, None)"
| "window_bounds AllTime c now = Some (0, None)"

definition expected_buckets :: "window \<Rightarrow> catalog \<Rightarrow> millis \<Rightarrow> nat option" where
  "expected_buckets w c now =
     (case window_bounds w c now of
        None \<Rightarrow> None
      | Some (from, until) \<Rightarrow>
          if from = 0 then None
          else let end_at = (case until of Some u \<Rightarrow> u | None \<Rightarrow> now)
               in Some ((end_at - from) div HOUR_MS mod 4294967296))"

fun window_key :: "window \<Rightarrow> string" where
  "window_key (Days d) = show_nat d @ ''d''"
| "window_key (PatchWindow p) = ''patch:'' @ p"
| "window_key (TierWindow i) = ''tier:'' @ i"
| "window_key Expansion = ''expansion''"
| "window_key AllTime = ''all''"

definition window_parse :: "string \<Rightarrow> window option" where
  "window_parse raw =
     (if raw = ''expansion'' then Some Expansion
      else if raw = ''all'' then Some AllTime
      else case strip_suffix_char (CHR ''d'') raw of
             Some days \<Rightarrow> map_option Days (parse_uint u64_max days)
           | None \<Rightarrow>
               (case strip_prefix ''patch:'' raw of
                  Some p \<Rightarrow> if p = [] then None else Some (PatchWindow p)
                | None \<Rightarrow>
                    (case strip_prefix ''tier:'' raw of
                       Some i \<Rightarrow> if i = [] then None else Some (TierWindow i)
                     | None \<Rightarrow> None)))"

section \<open>Keys name markets\<close>

text \<open>The widths of the fields: item and realm ids are \<open>u32\<close>, a rank is a \<open>u8\<close> from 1.\<close>

fun key_ok :: "market_key \<Rightarrow> bool" where
  "key_ok (KeyCommodity _ item rank) \<longleftrightarrow> item \<le> u32_max \<and> 1 \<le> rank \<and> rank \<le> 255"
| "key_ok (KeyRecipe _ realm item) \<longleftrightarrow> realm \<le> u32_max \<and> item \<le> u32_max"
| "key_ok (KeyBoe _ realm item _) \<longleftrightarrow> realm \<le> u32_max \<and> item \<le> u32_max"

lemma region_parse_str [simp]: "region_parse (region_str r) = Some r"
  by (cases r) (simp_all add: region_parse_def all_regions_def eq_ignore_ascii_case_def to_ascii_lowercase_def
      ascii_lower_def)

lemma track_field_written [simp]:
  "track_field (case t of None \<Rightarrow> ''-'' | Some t \<Rightarrow> track_slug t) = Some t"
proof (cases t)
  case (Some a)
  have "track_slug a \<noteq> ''-''" by (cases a) auto
  then show ?thesis using Some by (simp add: track_field_def from_slug_def track_slugs.parse_as_str)
qed (simp add: track_field_def)

lemma key_fields_free: "p \<in> set ([key_tag k] # region_str (key_region k) # key_fields k) \<Longrightarrow> free_of (CHR '':'') p"
proof -
  have r: "free_of (CHR '':'') (region_str r)" for r by (cases r) (auto simp: free_of_def)
  have t: "free_of (CHR '':'') (case t of None \<Rightarrow> ''-'' | Some t \<Rightarrow> track_slug t)" for t
  proof (cases t)
    case (Some a)
    then show ?thesis by (cases a) (auto simp: free_of_def)
  qed (simp add: free_of_def)
  assume "p \<in> set ([key_tag k] # region_str (key_region k) # key_fields k)"
  then show ?thesis using r t by (cases k) (auto simp: text_simps)
qed

lemma key_read_back: "key_ok k \<Longrightarrow> key_from_str (key_str k) = Some k"
proof -
  assume ok: "key_ok k"
  have split: "split_on (CHR '':'') (key_str k) = [key_tag k] # region_str (key_region k) # key_fields k"
    unfolding key_str_def by (rule split_join) (use key_fields_free in auto)
  show ?thesis
    unfolding key_from_str_def split using ok
    by (cases k) (simp_all add: key_of_fields_def parse_show)
qed

lemma key_from_str_ok: "key_from_str s = Some k \<Longrightarrow> key_ok k"
  by (auto simp: key_from_str_def key_of_fields_def Suc_le_eq split: list.splits option.splits if_splits
      dest: parse_uint_le)

text \<open>The reader takes more than the writer writes: letter case, plus signs and leading zeros are accepted.\<close>

lemma two_texts_one_market:
  "key_from_str ''c:EU:+7:01'' = key_from_str (key_str (KeyCommodity Eu 7 1))"
proof -
  have "region_parse ''EU'' = Some Eu"
    by (simp add: region_parse_def all_regions_def eq_ignore_ascii_case_def to_ascii_lowercase_def ascii_lower_def
        char_of_def of_char_def bit_0)
  then show ?thesis
    by (simp add: key_read_back) (simp add: key_from_str_def key_of_fields_def parse_uint_def
        unsigned_digits_def is_digit_def dec_val_def digit_val_def)
qed

lemma market_of_key_ok:
  assumes "item \<le> u32_max" "\<And>e k. find_item c item = Some e \<Longrightarrow> item_rank_of e item = Some k \<Longrightarrow> k \<le> 255"
  shows "key_ok (market_of_key c r item)"
proof -
  have "(case Option.bind (find_item c item) (\<lambda>e. item_rank_of e item) of Some k \<Rightarrow> k | None \<Rightarrow> 1) \<le> 255"
    using assms(2) by (auto split: option.splits Option.bind_splits)
  then show ?thesis using assms(1) by (simp add: market_of_key_def key_commodity_def)
qed

text \<open>
  The stored text of a market key names one market. A key whose fields have the width of their types
  is read back exactly, so two markets never share a text; whatever the reader accepts is such a key, so
  nothing it returns fails to survive being written again; and a commodity observation is filed under a key
  of that kind, the rank the catalogue gives its item, never zero.
\<close>
lemma market_keys_canonical:
  "(key_ok k \<longrightarrow> key_from_str (key_str k) = Some k) \<and>
   (key_ok k \<longrightarrow> key_ok k' \<longrightarrow> key_str k = key_str k' \<longrightarrow> k = k') \<and>
   (key_from_str s = Some k \<longrightarrow> key_ok k \<and> key_from_str (key_str k) = key_from_str s) \<and>
   (sm_item p \<le> u32_max \<longrightarrow> (\<forall>i\<in>set (cg_items c). \<forall>r\<in>set (ci_ranks i). ir_rank r \<le> 255) \<longrightarrow>
      key_ok (market_of c p) \<and> key_region (market_of c p) = sm_region p \<and> key_item (market_of c p) = sm_item p)"
proof (intro conjI impI)
  show "key_from_str (key_str k) = Some k" if "key_ok k" using that by (rule key_read_back)
  show "k = k'" if "key_ok k" "key_ok k'" "key_str k = key_str k'"
    using key_read_back [OF that(1)] key_read_back [OF that(2)] unfolding that(3) by simp
  show "key_ok k" if "key_from_str s = Some k" using that by (rule key_from_str_ok)
  show "key_from_str (key_str k) = key_from_str s" if "key_from_str s = Some k"
    unfolding that by (rule key_read_back [OF key_from_str_ok [OF that]])
  show "key_ok (market_of c p)" if "sm_item p \<le> u32_max"
    "\<forall>i\<in>set (cg_items c). \<forall>r\<in>set (ci_ranks i). ir_rank r \<le> 255"
    unfolding market_of_def
  proof (rule market_of_key_ok [OF that(1)])
    fix e n
    assume "find_item c (sm_item p) = Some e" "item_rank_of e (sm_item p) = Some n"
    then have "e \<in> set (cg_items c)" "n \<in> ir_rank ` set (ci_ranks e)"
      unfolding find_item_def item_rank_of_def by (auto dest!: find_SomeD)
    then show "n \<le> 255" using that(2) by auto
  qed
qed (simp_all add: market_of_def market_of_key_def key_commodity_def)

section \<open>Windows tile the calendar\<close>

lemma next_tier_covers:
  assumes "t \<in> set (cg_tiers c)"
  shows "covers at (opened_at t, next_tier c t) \<longleftrightarrow>
    opened_at t \<le> at \<and> (\<forall>u\<in>set (cg_tiers c). opened_at u \<le> at \<longrightarrow> opened_at u \<le> opened_at t)"
proof (cases "next_tier c t")
  case None
  then have "\<forall>u\<in>set (cg_tiers c). \<not> opened_at t < opened_at u"
    by (auto simp: next_tier_def filter_empty_conv)
  then show ?thesis using None by (auto simp: covers_def not_less)
next
  case (Some n)
  then have n: "n \<in> opened_at ` set (cg_tiers c)" "opened_at t < n"
    using min_by_key_in [OF Some [unfolded next_tier_def]] by auto
  have least: "n \<le> opened_at u" if "u \<in> set (cg_tiers c)" "opened_at t < opened_at u" for u
    using min_by_key_least [OF Some [unfolded next_tier_def], of "opened_at u"] that by simp
  show ?thesis
  proof (cases "at < n")
    case True
    then have "opened_at u \<le> opened_at t" if "u \<in> set (cg_tiers c)" "opened_at u \<le> at" for u
      using least [OF that(1)] that(2) by (meson leD leI order_trans)
    then show ?thesis using True Some by (auto simp: covers_def)
  next
    case False
    then show ?thesis using n Some by (auto simp: covers_def not_less)
  qed
qed

text \<open>
  The named windows of a catalogue tile the calendar. Every instant from the first patch on lies in
  exactly one patch window, that of the patch that had started last, and no earlier instant lies in any; an
  instant lies in the window of a raid tier exactly when that tier is the latest to have opened; and the
  windows are those of the catalogue's patches, each once, in the order they started.
\<close>
lemma windows_tile:
  "length (filter (\<lambda>w. covers x (snd w)) (patch_windows c)) =
     (if cg_patches c \<noteq> [] \<and> span_start c \<le> x then 1 else 0) \<and>
   (\<forall>w\<in>set (patch_windows c). covers x (snd w) \<longrightarrow>
      (\<forall>p\<in>set (cg_patches c). started_at p \<le> x \<longrightarrow> started_at p \<le> started_at (fst w))) \<and>
   (\<forall>i from until. window_bounds (TierWindow i) c now = Some (from, until) \<longrightarrow>
      (covers x (from, until) \<longleftrightarrow>
        from \<le> x \<and> (\<forall>u\<in>set (cg_tiers c). opened_at u \<le> x \<longrightarrow> opened_at u \<le> from))) \<and>
   mset (map fst (patch_windows c)) = mset (cg_patches c) \<and>
   sorted (map (\<lambda>w. fst (snd w)) (patch_windows c))"
proof (intro conjI)
  let ?ps = "sort_key started_at (cg_patches c)"
  have srt: "sorted (map started_at ?ps)" by simp
  have starts: "map (\<lambda>w. fst (snd w)) (windows_of ps) = map started_at ps" for ps
    by (induction ps) auto
  have ne: "?ps = [] \<longleftrightarrow> cg_patches c = []" by (metis length_0_conv length_sort)
  show "length (filter (\<lambda>w. covers x (snd w)) (patch_windows c)) =
     (if cg_patches c \<noteq> [] \<and> span_start c \<le> x then 1 else 0)"
    unfolding patch_windows_def windows_of_count [OF srt] ne by (auto simp: span_start_hd)
  show "\<forall>w\<in>set (patch_windows c). covers x (snd w) \<longrightarrow>
      (\<forall>p\<in>set (cg_patches c). started_at p \<le> x \<longrightarrow> started_at p \<le> started_at (fst w))"
    unfolding patch_windows_def using windows_of_latest [OF srt] by simp
  show "\<forall>i from until. window_bounds (TierWindow i) c now = Some (from, until) \<longrightarrow>
      (covers x (from, until) \<longleftrightarrow>
        from \<le> x \<and> (\<forall>u\<in>set (cg_tiers c). opened_at u \<le> x \<longrightarrow> opened_at u \<le> from))"
    using next_tier_covers by (fastforce simp: find_Some_iff)
  show "mset (map fst (patch_windows c)) = mset (cg_patches c)" by (simp add: patch_windows_def)
  show "sorted (map (\<lambda>w. fst (snd w)) (patch_windows c))" using srt by (simp add: patch_windows_def starts)
qed

text \<open>
  A window's text is read back except where the name of a patch or tier is empty or ends in \<open>d\<close>: the suffix
  of the rolling windows is tried first.
\<close>

lemma parse_uint_head: "\<not> is_digit x \<Longrightarrow> x \<noteq> CHR ''+'' \<Longrightarrow> parse_uint m (x # s) = None"
  by (simp add: parse_uint_def unsigned_digits_def)

lemma window_parse_key:
  "window_parse (window_key w) = Some w \<longleftrightarrow>
     (case w of Days d \<Rightarrow> d \<le> u64_max
      | PatchWindow p \<Rightarrow> p \<noteq> [] \<and> last p \<noteq> CHR ''d''
      | TierWindow i \<Rightarrow> i \<noteq> [] \<and> last i \<noteq> CHR ''d''
      | _ \<Rightarrow> True)"
proof (cases w)
  case (Days d)
  have "show_nat d @ ''d'' \<noteq> ''expansion''" "show_nat d @ ''d'' \<noteq> ''all''"
    using arg_cong [of "show_nat d @ ''d''" _ last] by auto
  then show ?thesis using Days by (simp add: window_parse_def parse_show_iff)
next
  case (PatchWindow p)
  have "parse_uint u64_max (butlast (''patch:'' @ p)) = None" if "p \<noteq> []"
    using that by (simp add: butlast_append parse_uint_head is_digit_def)
  then show ?thesis
    using PatchWindow by (auto simp: window_parse_def strip_suffix_char_def)
next
  case (TierWindow p)
  have "parse_uint u64_max (butlast (''tier:'' @ p)) = None" if "p \<noteq> []"
    using that by (simp add: butlast_append parse_uint_head is_digit_def)
  then show ?thesis
    using TierWindow by (auto simp: window_parse_def strip_suffix_char_def)
qed (simp_all add: window_parse_def)

section \<open>Examples\<close>

lemma market_keys_canonical_example:
  "key_from_str (key_str (KeyBoe Eu 1403 258412 (Some Hero))) = Some (KeyBoe Eu 1403 258412 (Some Hero)) \<and>
   key_str (KeyBoe Eu 1403 258412 (Some Hero)) = ''b:eu:1403:258412:hero'' \<and>
   key_ok (market_of demo_catalog \<lparr> sm_item = 211880, sm_region = Eu, sm_observed_at = 0, sm_min = 1, sm_p05 = 1,
     sm_median = 1, sm_quantity = 1, sm_listings = 1 \<rparr>) \<and>
   key_from_str ''b:eu:1403:258412:hero'' \<noteq> None"
proof -
  let ?k = "KeyBoe Eu 1403 258412 (Some Hero)"
  let ?p = "\<lparr> sm_item = 211880, sm_region = Eu, sm_observed_at = 0, sm_min = 1, sm_p05 = 1,
     sm_median = 1, sm_quantity = 1, sm_listings = 1 \<rparr>"
  have written: "key_str ?k = ''b:eu:1403:258412:hero''"
    by (simp add: key_str_def show_nat.simps digit_char_def char_of_def bit_0)
  note t = market_keys_canonical [of ?k ?k "key_str ?k" ?p demo_catalog]
  have "key_from_str (key_str ?k) = Some ?k" using t by simp
  moreover have "key_ok (market_of demo_catalog ?p)"
    using t by (simp add: demo_catalog_def demo_potion_def)
  ultimately show ?thesis using written by simp
qed

lemma windows_tile_example:
  "length (filter (\<lambda>w. covers 1786500000000 (snd w)) (patch_windows demo_catalog)) = 1 \<and>
   window_bounds (TierWindow ''abyss'') demo_catalog 0 = Some (1787011200000, None) \<and>
   covers 1787011200000 (1787011200000, None) \<and> \<not> covers 1787011199999 (1787011200000, None) \<and>
   list_all (\<lambda>w. \<not> covers 1786500000000 (snd w) \<or> 1786406400000 \<le> started_at (fst w)) (patch_windows demo_catalog)"
proof -
  have tiers: "cg_tiers demo_catalog \<noteq> []" "map opened_at (cg_tiers demo_catalog) = [1787011200000]"
    by (simp_all add: demo_catalog_def opened_at_def demo_dates)
  have b: "window_bounds (TierWindow ''abyss'') demo_catalog 0 = Some (1787011200000, None)"
    by (simp add: demo_catalog_def opened_at_def demo_dates next_tier_def)
  have p: "span_start demo_catalog = 1772409600000"
    "\<lparr> pa_patch = ''12.1'', pa_name = ''This'', pa_started = ''2026-08-11'' \<rparr> \<in> set (cg_patches demo_catalog)"
    "cg_patches demo_catalog \<noteq> []"
    "started_at \<lparr> pa_patch = ''12.1'', pa_name = ''This'', pa_started = ''2026-08-11'' \<rparr> = 1786406400000"
    by (simp_all add: demo_catalog_def span_start_def started_at_def demo_dates)
  note t = windows_tile [of 1786500000000 demo_catalog 0]
  have "length (filter (\<lambda>w. covers 1786500000000 (snd w)) (patch_windows demo_catalog)) = 1"
    using t [THEN conjunct1] p by simp
  moreover have "1786406400000 \<le> started_at (fst w)"
    if "w \<in> set (patch_windows demo_catalog)" "covers 1786500000000 (snd w)" for w
    using t [THEN conjunct2, THEN conjunct1, rule_format, OF that p(2)] unfolding p(4) by simp
  moreover have "covers x (1787011200000, None) \<longleftrightarrow> 1787011200000 \<le> x" for x
    using windows_tile [THEN conjunct2, THEN conjunct2, THEN conjunct1, rule_format, OF b] tiers
    by (simp add: covers_def)
  ultimately show ?thesis using b by (auto simp: list_all_iff)
qed

end
