(* ===== verification/Realms.thy ===== *)
theory Realms
  imports Market_Keys Depth
begin

text \<open>
  The auction houses of the connected realms (\<open>crates/app-core/src/market/realm.rs\<close>): how often one is asked
  for a new snapshot, and the reduction of its listings to one sample and one ladder for every version of
  an item. The realm's market of a sample is \<open>market_of_realm\<close> of \<open>catalog.rs\<close>.
\<close>

section \<open>Cadence\<close>

record cadence =
  cd_interval :: nat
  cd_next :: millis

definition cadence_bounds :: "nat \<Rightarrow> nat \<Rightarrow> nat \<times> nat" where
  "cadence_bounds minimum maximum = (let minimum = max minimum 1 in (minimum, max maximum minimum))"

definition cadence_new :: "millis \<Rightarrow> nat \<Rightarrow> cadence" where
  "cadence_new now minimum = \<lparr> cd_interval = minimum, cd_next = now \<rparr>"

definition is_due :: "cadence \<Rightarrow> millis \<Rightarrow> bool" where
  "is_due c now \<longleftrightarrow> cd_next c \<le> now"

definition sat_mul :: "nat \<Rightarrow> nat \<Rightarrow> nat" where
  "sat_mul a b = min (a * b) u64_max"

definition within_bounds :: "cadence \<Rightarrow> nat \<Rightarrow> nat \<Rightarrow> cadence" where
  "within_bounds c minimum maximum =
     (let (minimum, maximum) = cadence_bounds minimum maximum;
          previous = max (cd_interval c) 1;
          checked_at = cd_next c - previous;
          interval = min (max (cd_interval c) minimum) maximum
      in \<lparr> cd_interval = interval, cd_next = plus_ms checked_at interval \<rparr>)"

definition after_unchanged :: "cadence \<Rightarrow> millis \<Rightarrow> nat \<Rightarrow> nat \<Rightarrow> cadence" where
  "after_unchanged c now minimum maximum =
     (let (minimum, maximum) = cadence_bounds minimum maximum;
          five = min (sat_mul minimum 5) maximum;
          fifteen = min (sat_mul minimum 15) maximum;
          interval = (if cd_interval c < five then five
                      else if cd_interval c < fifteen then fifteen
                      else maximum)
      in \<lparr> cd_interval = interval, cd_next = plus_ms now interval \<rparr>)"

definition after_activity :: "millis \<Rightarrow> nat \<Rightarrow> nat \<Rightarrow> cadence" where
  "after_activity now minimum maximum =
     (let (minimum, _) = cadence_bounds minimum maximum
      in \<lparr> cd_interval = minimum, cd_next = plus_ms now minimum \<rparr>)"

definition after_failure :: "cadence \<Rightarrow> millis \<Rightarrow> nat \<Rightarrow> nat \<Rightarrow> cadence" where
  "after_failure c now minimum maximum =
     (let (_, maximum) = cadence_bounds minimum maximum;
          current = within_bounds c minimum maximum;
          interval = min (sat_mul (cd_interval current) 2) maximum
      in \<lparr> cd_interval = interval, cd_next = plus_ms now interval \<rparr>)"

section \<open>Listings of one realm\<close>

record gear_listing =
  gl_item :: itemid
  gl_price :: copper
  gl_bonus_ids :: "nat list"

definition variant :: "gear_listing \<Rightarrow> string" where
  "variant l = join_with (CHR '','') (map show_nat (gl_bonus_ids l))"

record realm_sample =
  rs_item :: itemid
  rs_region :: region
  rs_realm :: nat
  rs_variant :: string
  rs_observed_at :: millis
  rs_min_price :: copper
  rs_median_price :: copper
  rs_max_price :: copper
  rs_listings :: nat

definition group_listing :: "gear_listing \<Rightarrow> (itemid \<times> string, copper list) btree \<Rightarrow> (itemid \<times> string, copper list) btree" where
  "group_listing l m =
     (let k = (gl_item l, variant l) in
      bt_insert k ((case bt_get m k of Some ps \<Rightarrow> ps | None \<Rightarrow> []) @ [gl_price l]) m)"

definition realm_entry :: "region \<Rightarrow> nat \<Rightarrow> millis \<Rightarrow> (itemid \<times> string) \<times> copper list \<Rightarrow>
    (realm_sample \<times> itemid \<times> string \<times> ladder) option" where
  "realm_entry region realm at_time e =
     (case e of ((item, v), prices) \<Rightarrow>
        let ps = sort prices in
        if ps = [] then None
        else Some (\<lparr> rs_item = item, rs_region = region, rs_realm = realm, rs_variant = v,
                     rs_observed_at = at_time, rs_min_price = hd ps,
                     rs_median_price = ps ! (length ps div 2), rs_max_price = last ps,
                     rs_listings = length ps mod 4294967296 \<rparr>,
                   item, v, ladder_of (map (\<lambda>p. \<lparr> l_item = item, l_unit_price = p, l_quantity = 1 \<rparr>) ps)))"

definition summarise_realm :: "gear_listing list \<Rightarrow> region \<Rightarrow> nat \<Rightarrow> millis \<Rightarrow>
    realm_sample list \<times> (itemid \<times> string \<times> ladder) list" where
  "summarise_realm listings region realm at_time =
     (let es = List.map_filter (realm_entry region realm at_time) (fold group_listing listings [])
      in (map fst es, map snd es))"

definition market_of_realm :: "catalog \<Rightarrow> realm_sample \<Rightarrow> market_key" where
  "market_of_realm c s =
     (if map_option ci_kind (find_item c (rs_item s)) = Some Recipe
      then key_recipe (rs_region s) (rs_realm s) (rs_item s)
      else key_boe (rs_region s) (rs_realm s) (rs_item s) (track_in c (rs_variant s)))"

section \<open>The polling interval\<close>

datatype answer = Unchanged | Changed | Failed

fun after_answer :: "nat \<Rightarrow> nat \<Rightarrow> answer \<times> millis \<Rightarrow> cadence \<Rightarrow> cadence" where
  "after_answer lo hi (Unchanged, now) c = after_unchanged c now lo hi"
| "after_answer lo hi (Changed, now) c = after_activity now lo hi"
| "after_answer lo hi (Failed, now) c = after_failure c now lo hi"

definition ladder_step :: "nat \<Rightarrow> nat \<Rightarrow> nat \<Rightarrow> nat" where
  "ladder_step lo hi i =
     (let five = min (sat_mul lo 5) hi; fifteen = min (sat_mul lo 15) hi in
      if i < five then five else if i < fifteen then fifteen else hi)"

lemma cadence_bounds_ok:
  assumes "lo \<le> u64_max" "hi \<le> u64_max"
  obtains l h where "cadence_bounds lo hi = (l, h)" "1 \<le> l" "l \<le> h" "h \<le> u64_max"
    "cadence_bounds l h = (l, h)" "l = max lo 1" "h = max hi l"
  using assms by (auto simp: cadence_bounds_def Let_def)

lemma ladder_rungs:
  assumes "l \<le> h" "h \<le> u64_max"
  shows "l \<le> min (sat_mul l 5) h" "min (sat_mul l 5) h \<le> min (sat_mul l 15) h"
  using assms by (auto simp: sat_mul_def)

lemma ladder_step_bounds:
  assumes "l \<le> h" "h \<le> u64_max"
  shows "l \<le> ladder_step l h i" "ladder_step l h i \<le> h" "ladder_step l h (ladder_step l h (ladder_step l h i)) = h"
proof -
  define f n where "f = min (sat_mul l 5) h" and "n = min (sat_mul l 15) h"
  have "l \<le> f" "f \<le> n" "n \<le> h" using ladder_rungs [OF assms] by (auto simp: f_def n_def)
  then show "l \<le> ladder_step l h i" "ladder_step l h i \<le> h"
    "ladder_step l h (ladder_step l h (ladder_step l h i)) = h"
    unfolding ladder_step_def Let_def f_def [symmetric] n_def [symmetric] by auto
qed

lemma after_unchanged_alt:
  "cadence_bounds lo hi = (l, h) \<Longrightarrow> after_unchanged c now lo hi =
     \<lparr> cd_interval = ladder_step l h (cd_interval c), cd_next = plus_ms now (ladder_step l h (cd_interval c)) \<rparr>"
  by (simp add: after_unchanged_def ladder_step_def Let_def)

lemma after_failure_alt:
  assumes "cadence_bounds lo hi = (l, h)" "cadence_bounds lo h = (l, h)"
  shows "after_failure c now lo hi =
    (let i = min (sat_mul (min (max (cd_interval c) l) h) 2) h in \<lparr> cd_interval = i, cd_next = plus_ms now i \<rparr>)"
  using assms by (simp add: after_failure_def within_bounds_def Let_def)

lemma cadence_bounds_again: "cadence_bounds lo hi = (l, h) \<Longrightarrow> cadence_bounds lo h = (l, h)"
  by (auto simp: cadence_bounds_def Let_def)

lemma after_answer_ok:
  assumes "cadence_bounds lo hi = (l, h)" "l \<le> h" "h \<le> u64_max"
  shows "l \<le> cd_interval (after_answer lo hi (a, now) c)" "cd_interval (after_answer lo hi (a, now) c) \<le> h"
    "cd_next (after_answer lo hi (a, now) c) = plus_ms now (cd_interval (after_answer lo hi (a, now) c))"
proof -
  have f: "l \<le> min (sat_mul (min (max i l) h) 2) h" for i using assms(2,3) by (auto simp: sat_mul_def)
  show "l \<le> cd_interval (after_answer lo hi (a, now) c)" "cd_interval (after_answer lo hi (a, now) c) \<le> h"
    "cd_next (after_answer lo hi (a, now) c) = plus_ms now (cd_interval (after_answer lo hi (a, now) c))"
    using f ladder_step_bounds [OF assms(2,3)] assms
    by (cases a; simp add: after_unchanged_alt after_activity_def
        after_failure_alt [OF assms(1) cadence_bounds_again [OF assms(1)]] Let_def)+
qed

lemma capped_double: "min (min (x * 2) h * 2 ^ n) h = min (x * 2 ^ Suc n) h" for x h n :: nat
proof (cases "x * 2 \<le> h")
  case False
  have grow: "a \<le> a * 2 ^ n" for a :: nat by simp
  have "x * 2 ^ Suc n = x * 2 * 2 ^ n" by simp
  then have "h \<le> x * 2 ^ Suc n" using False grow [of "x * 2"] by linarith
  moreover have "min (x * 2) h = h" using False by simp
  ultimately show ?thesis using grow [of h] by (simp add: min_absorb2)
qed (simp add: mult.assoc)

lemma doubling:
  assumes "cadence_bounds lo hi = (l, h)" "l \<le> h" "h \<le> u64_max" "l \<le> cd_interval c" "cd_interval c \<le> h"
  shows "cd_interval (fold (\<lambda>t c. after_failure c t lo hi) ts c) = min (cd_interval c * 2 ^ length ts) h"
  using assms(4,5)
proof (induction ts arbitrary: c)
  case (Cons t ts)
  have one: "cd_interval (after_failure c t lo hi) = min (cd_interval c * 2) h"
    using Cons.prems assms(3)
    by (simp add: after_failure_alt [OF assms(1) cadence_bounds_again [OF assms(1)]] Let_def sat_mul_def)
  have "l \<le> cd_interval (after_failure c t lo hi)" "cd_interval (after_failure c t lo hi) \<le> h"
    unfolding one using Cons.prems by auto
  from Cons.IH [OF this] show ?case unfolding fold_Cons comp_def one capped_double by simp
qed simp

text \<open>
  How long a realm is left alone. Whatever the configured bounds and the state restored from storage,
  after any answer the interval is within the bounds (at least 1 ms, the maximum never below the minimum)
  and the next check is that long after it; three unchanged answers in a row reach the maximum, whatever the
  interval was; a change returns to the minimum; and failures double the interval up to the maximum.
\<close>
lemma realm_cadence_bounded:
  assumes "lo \<le> u64_max" "hi \<le> u64_max"
  shows "(\<forall>a now c. max lo 1 \<le> cd_interval (after_answer lo hi (a, now) c) \<and>
      cd_interval (after_answer lo hi (a, now) c) \<le> max hi (max lo 1) \<and>
      cd_next (after_answer lo hi (a, now) c) = plus_ms now (cd_interval (after_answer lo hi (a, now) c))) \<and>
    (\<forall>c t1 t2 t3. cd_interval (after_unchanged (after_unchanged (after_unchanged c t1 lo hi) t2 lo hi) t3 lo hi) =
      max hi (max lo 1)) \<and>
    (\<forall>now. cd_interval (after_activity now lo hi) = max lo 1) \<and>
    (\<forall>c ts. max lo 1 \<le> cd_interval c \<longrightarrow> cd_interval c \<le> max hi (max lo 1) \<longrightarrow>
      cd_interval (fold (\<lambda>t c. after_failure c t lo hi) ts c) = min (cd_interval c * 2 ^ length ts) (max hi (max lo 1)))"
proof -
  obtain l h where b: "cadence_bounds lo hi = (l, h)" "l \<le> h" "h \<le> u64_max" "l = max lo 1" "h = max hi l"
    by (rule cadence_bounds_ok [OF assms])
  have lh: "max lo 1 = l" "max hi (max lo 1) = h" using b(4,5) by auto
  note ok = after_answer_ok [OF b(1-3)]
  have three: "cd_interval (after_unchanged (after_unchanged (after_unchanged c t1 lo hi) t2 lo hi) t3 lo hi) = h"
    for c t1 t2 t3
    by (simp add: after_unchanged_alt [OF b(1)] ladder_step_bounds [OF b(2,3)])
  have act: "cd_interval (after_activity now lo hi) = l" for now by (simp add: after_activity_def b(1))
  show ?thesis unfolding lh(2) unfolding lh(1)
    using ok three act doubling [OF b(1-3)] by blast
qed

lemma realm_cadence_bounded_example:
  "cd_interval (after_answer 60000 1800000 (Failed, 5) (cadence_new 0 60000)) \<le> 1800000 \<and>
   cd_interval (after_unchanged (after_unchanged (after_unchanged (cadence_new 0 60000) 1 60000 1800000) 2 60000 1800000)
     3 60000 1800000) = 1800000 \<and>
   cd_interval (fold (\<lambda>t c. after_failure c t 60000 1800000) [1, 2, 3] (cadence_new 0 60000)) = 480000"
proof -
  have u: "(60000 :: nat) \<le> u64_max" "(1800000 :: nat) \<le> u64_max" by simp_all
  note t = realm_cadence_bounded [OF u]
  have "cd_interval (after_answer 60000 1800000 (Failed, 5) (cadence_new 0 60000)) \<le> 1800000"
    using t [THEN conjunct1, rule_format, of Failed 5 "cadence_new 0 60000"] by simp
  moreover have "cd_interval (after_unchanged (after_unchanged (after_unchanged (cadence_new 0 60000) 1 60000 1800000)
      2 60000 1800000) 3 60000 1800000) = 1800000"
    using t [THEN conjunct2, THEN conjunct1, rule_format, of "cadence_new 0 60000" 1 2 3] by simp
  moreover have "cd_interval (fold (\<lambda>t c. after_failure c t 60000 1800000) [1, 2, 3] (cadence_new 0 60000)) = 480000"
    using t [THEN conjunct2, THEN conjunct2, THEN conjunct2, rule_format, of "cadence_new 0 60000" "[1, 2, 3]"]
    by (simp add: cadence_new_def)
  ultimately show ?thesis by blast
qed

section \<open>One sample for every version\<close>

definition of_version :: "gear_listing list \<Rightarrow> itemid \<times> string \<Rightarrow> copper list" where
  "of_version ls k = map gl_price (filter (\<lambda>l. (gl_item l, variant l) = k) ls)"

lemma grouped:
  assumes "bt_wf m"
  shows "bt_wf (fold group_listing ls m) \<and>
    bt_get (fold group_listing ls m) k =
      (case bt_get m k of
         Some ps \<Rightarrow> Some (ps @ of_version ls k)
       | None \<Rightarrow> if of_version ls k = [] then None else Some (of_version ls k))"
  using assms
proof (induction ls arbitrary: m)
  case (Cons l ls)
  have wf: "bt_wf (group_listing l m)" using Cons.prems by (simp add: group_listing_def Let_def)
  show ?case
    using Cons.IH [OF wf] Cons.prems
    by (auto simp: group_listing_def Let_def bt.lookup_insert of_version_def split: option.splits)
qed (simp add: of_version_def split: option.splits)

definition versions :: "gear_listing list \<Rightarrow> (itemid \<times> string) list" where
  "versions ls = sorted_list_of_set ((\<lambda>l. (gl_item l, variant l)) ` set ls)"

lemma bt_canonical:
  assumes "bt_wf m"
  shows "m = map (\<lambda>k. (k, the (bt_get m k))) (sorted_list_of_set (fst ` set m))"
proof -
  have "map fst m = sorted_list_of_set (set (map fst m))"
    using assms sorted_list_of_set.idem_if_sorted_distinct [of "map fst m"]
    by (simp only: bt_wf_def strict_sorted_iff)
  then have "map (\<lambda>k. (k, the (bt_get m k))) (sorted_list_of_set (fst ` set m)) = map (\<lambda>p. (fst p, the (bt_get m (fst p)))) m"
    by (metis (mono_tags, lifting) list.map_comp comp_apply map_eq_conv set_map)
  also have "\<dots> = map (\<lambda>p. p) m"
  proof (rule map_cong [OF refl])
    show "(fst p, the (bt_get m (fst p))) = p" if "p \<in> set m" for p
      using that bt.entries_lookup [OF assms, of "fst p" "snd p"] by (cases p) auto
  qed
  finally show ?thesis by simp
qed

lemma of_version_Nil: "of_version ls k = [] \<longleftrightarrow> k \<notin> set (versions ls)"
  by (auto simp: of_version_def versions_def filter_empty_conv image_iff)

lemma grouped_versions: "fold group_listing ls [] = map (\<lambda>k. (k, of_version ls k)) (versions ls)"
proof -
  let ?m = "fold group_listing ls []"
  have g: "bt_wf ?m" "bt_get ?m k = (if of_version ls k = [] then None else Some (of_version ls k))" for k
    using grouped [of "[]" ls] by (auto simp: bt.lookup_empty)
  have "fst ` set ?m = set (versions ls)"
  proof (rule set_eqI)
    fix k
    have "k \<in> fst ` set ?m \<longleftrightarrow> (\<exists>v. (k, v) \<in> set ?m)" by force
    also have "\<dots> \<longleftrightarrow> (\<exists>v. bt_get ?m k = Some v)" unfolding bt.entries_lookup [OF g(1)] ..
    finally have "k \<in> fst ` set ?m \<longleftrightarrow> (\<exists>v. bt_get ?m k = Some v)" .
    then show "k \<in> fst ` set ?m \<longleftrightarrow> k \<in> set (versions ls)" unfolding g(2) of_version_Nil by auto
  qed
  then have "sorted_list_of_set (fst ` set ?m) = versions ls" by (simp add: versions_def)
  then have "?m = map (\<lambda>k. (k, the (bt_get ?m k))) (versions ls)" using bt_canonical [OF g(1)] by simp
  also have "\<dots> = map (\<lambda>k. (k, of_version ls k)) (versions ls)"
    by (rule map_cong [OF refl]) (simp add: g(2) of_version_Nil)
  finally show ?thesis .
qed

lemma filter_partition:
  assumes "distinct ks" "f ` set xs \<subseteq> set ks"
  shows "sum_list (map (\<lambda>k. length (filter (\<lambda>x. f x = k) xs)) ks) = length xs"
  using assms
proof (induction xs)
  case (Cons x xs)
  have "sum_list (map (\<lambda>k. if f x = k then 1 else 0) ks) = (1 :: nat)"
    using Cons.prems by (simp add: sum_list_distinct_conv_sum_set)
  moreover have "sum_list (map (\<lambda>k. length (filter (\<lambda>x. f x = k) (x # xs))) ks) =
      sum_list (map (\<lambda>k. if f x = k then 1 else 0) ks) + sum_list (map (\<lambda>k. length (filter (\<lambda>x. f x = k) xs)) ks)"
    unfolding sum_list_addf [symmetric] by (rule arg_cong [of _ _ sum_list], rule map_cong) auto
  ultimately show ?case using Cons by simp
qed simp

lemma versions_partition: "sum_list (map (\<lambda>k. length (of_version ls k)) (versions ls)) = length ls"
  using filter_partition [of "versions ls" "\<lambda>l. (gl_item l, variant l)" ls]
  by (simp add: of_version_def versions_def)

lemma bonuses_variant:
  assumes "gl_bonus_ids l \<noteq> []" "\<forall>b\<in>set (gl_bonus_ids l). b \<le> u32_max"
  shows "bonuses (variant l) = gl_bonus_ids l"
proof -
  have "split_on (CHR '','') (variant l) = map show_nat (gl_bonus_ids l)"
    unfolding variant_def using assms(1) by (intro split_join) (auto simp: text_simps)
  then show ?thesis
    using assms(2) unfolding bonuses_def
    by (induction "gl_bonus_ids l" arbitrary: l) (auto simp: List.map_filter_def parse_show comp_def map_idI)
qed

text \<open>
  A realm's snapshot is reduced to one sample and one ladder for every version of an item that is
  listed, in the order of item and version, and to no other: the cheapest, the middle and the dearest of
  that version's listings and how many there are, and a ladder of exactly those listings at one unit each.
  The versions share the listings out between them, none counted twice and none lost, and the bonus ids that
  make a version are read back from its text.
\<close>
lemma realm_summary_exact:
  "summarise_realm ls region realm now =
     (map (\<lambda>k. let ps = of_version ls k in
        \<lparr> rs_item = fst k, rs_region = region, rs_realm = realm, rs_variant = snd k, rs_observed_at = now,
          rs_min_price = Min (set ps), rs_median_price = sort ps ! (length ps div 2), rs_max_price = Max (set ps),
          rs_listings = length ps mod 4294967296 \<rparr>) (versions ls),
      map (\<lambda>k. (fst k, snd k, ladder_of (map (\<lambda>p. \<lparr> l_item = fst k, l_unit_price = p, l_quantity = 1 \<rparr>)
        (sort (of_version ls k))))) (versions ls)) \<and>
   set (versions ls) = (\<lambda>l. (gl_item l, variant l)) ` set ls \<and> sorted_wrt (<) (versions ls) \<and>
   sum_list (map (\<lambda>k. length (of_version ls k)) (versions ls)) = length ls \<and>
   (\<forall>l. gl_bonus_ids l \<noteq> [] \<longrightarrow> (\<forall>b\<in>set (gl_bonus_ids l). b \<le> u32_max) \<longrightarrow>
      bonuses (variant l) = gl_bonus_ids l)"
proof -
  let ?e = "\<lambda>k. let ps = of_version ls k in
    (\<lparr> rs_item = fst k, rs_region = region, rs_realm = realm, rs_variant = snd k, rs_observed_at = now,
       rs_min_price = Min (set ps), rs_median_price = sort ps ! (length ps div 2), rs_max_price = Max (set ps),
       rs_listings = length ps mod 4294967296 \<rparr>, fst k, snd k,
     ladder_of (map (\<lambda>p. \<lparr> l_item = fst k, l_unit_price = p, l_quantity = 1 \<rparr>) (sort ps)))"
  have e: "realm_entry region realm now (k, of_version ls k) = Some (?e k)" if "k \<in> set (versions ls)" for k
  proof -
    have ne: "of_version ls k \<noteq> []" using that of_version_Nil by blast
    then have "sort (of_version ls k) \<noteq> []" by (metis length_0_conv length_sort)
    then show ?thesis
      using ne by (cases k) (simp add: realm_entry_def Let_def sort_ends)
  qed
  have "List.map_filter (realm_entry region realm now) (map (\<lambda>k. (k, of_version ls k)) ks) = map ?e ks"
    if "set ks \<subseteq> set (versions ls)" for ks
    using that by (induction ks) (auto simp: List.map_filter_simps e)
  then have all: "List.map_filter (realm_entry region realm now) (fold group_listing ls []) = map ?e (versions ls)"
    unfolding grouped_versions by blast
  have "summarise_realm ls region realm now = (map (fst \<circ> ?e) (versions ls), map (snd \<circ> ?e) (versions ls))"
    unfolding summarise_realm_def all by (simp add: Let_def comp_def)
  then show ?thesis
    using versions_partition [of ls] bonuses_variant by (auto simp: comp_def Let_def versions_def)
qed

lemma realm_summary_exact_example:
  "\<exists>l. gl_bonus_ids l = [13332, 12825] \<and> bonuses (variant l) = [13332, 12825] \<and>
     set (versions [l]) = {(gl_item l, variant l)}"
proof -
  let ?l = "\<lparr> gl_item = 258412, gl_price = 310000, gl_bonus_ids = [13332, 12825] \<rparr>"
  have "bonuses (variant ?l) = [13332, 12825]"
    using realm_summary_exact [of "[?l]" Eu 1403 0, THEN conjunct2, THEN conjunct2, THEN conjunct2, THEN conjunct2,
        THEN spec, of ?l] by simp
  moreover have "set (versions [?l]) = {(gl_item ?l, variant ?l)}"
    using realm_summary_exact [of "[?l]" Eu 1403 0, THEN conjunct2, THEN conjunct1] by simp
  ultimately show ?thesis by (intro exI [of _ ?l]) simp
qed

end
