(* ===== verification/Csrf.thy ===== *)
theory Csrf
  imports Accounts
begin

text \<open>
  Double-submit protection of the forms (\<open>crates/app-web/src/csrf.rs\<close>, with \<open>cookie_value\<close> of
  \<open>session.rs\<close>). A token of 32 random bytes is kept in a cookie; every page shows it under a fresh mask, and a
  request that changes anything has to present it again, masked or not. Random bytes are arguments, \<open>None\<close>
  where the operating system refuses them. A text is the list of its UTF-8 bytes, and cutting it inside a
  character is a panic, which is a result of its own.
\<close>

unbundle bit_operations_syntax

section \<open>Hexadecimal text\<close>

definition TOKEN_BYTES :: nat where
  "TOKEN_BYTES = 32"

definition hex_char :: "nat \<Rightarrow> char" where
  "hex_char n = ''0123456789abcdef'' ! n"

definition to_hex :: "u8 list \<Rightarrow> string" where
  "to_hex bs = concat (map (\<lambda>b. [hex_char (unat (drop_bit 4 b)), hex_char (unat (b AND 15))]) bs)"

text \<open>\<open>char::to_digit(16)\<close>.\<close>

definition hex_digit :: "char \<Rightarrow> nat option" where
  "hex_digit c =
     (let n = (of_char c :: nat) in
      if 48 \<le> n \<and> n \<le> 57 then Some (n - 48)
      else if 97 \<le> n \<and> n \<le> 102 then Some (n - 87)
      else if 65 \<le> n \<and> n \<le> 70 then Some (n - 55)
      else None)"

fun hex_pairs :: "string \<Rightarrow> u8 list option" where
  "hex_pairs (x # y # r) =
     (case (hex_digit x, hex_digit y) of
        (Some hi, Some lo) \<Rightarrow> map_option (Cons (word_of_nat (hi * 16 + lo))) (hex_pairs r)
      | _ \<Rightarrow> None)"
| "hex_pairs _ = Some []"

definition from_hex :: "string \<Rightarrow> u8 list option" where
  "from_hex s = (if s = [] \<or> odd (length s) then None else hex_pairs s)"

section \<open>Tokens\<close>

definition xor_bytes :: "u8 list \<Rightarrow> u8 list \<Rightarrow> u8 list" where
  "xor_bytes a b = map (\<lambda>(x, y). x XOR y) (zip a b)"

definition masked :: "string \<Rightarrow> u8 list option \<Rightarrow> string" where
  "masked raw fill =
     (case from_hex raw of
        None \<Rightarrow> raw
      | Some token \<Rightarrow> (case fill of None \<Rightarrow> raw | Some p \<Rightarrow> to_hex p @ to_hex (xor_bytes p token)))"

text \<open>\<open>str::split_at\<close> panics unless the cut falls between two characters: not on a continuation byte.\<close>

datatype 'a run = Panics | Returns 'a

definition is_char_boundary :: "string \<Rightarrow> nat \<Rightarrow> bool" where
  "is_char_boundary s i \<longleftrightarrow>
     i = 0 \<or> i = length s \<or>
     i < length s \<and> \<not> (128 \<le> (of_char (s ! i) :: nat) \<and> (of_char (s ! i) :: nat) < 192)"

definition unmask :: "string \<Rightarrow> u8 list option run" where
  "unmask presented =
     (if length presented = TOKEN_BYTES * 2 then Returns (from_hex presented)
      else if length presented = TOKEN_BYTES * 4 then
        (if is_char_boundary presented (TOKEN_BYTES * 2) then
           Returns
             (case (from_hex (take (TOKEN_BYTES * 2) presented), from_hex (drop (TOKEN_BYTES * 2) presented)) of
                (Some p, Some m) \<Rightarrow> Some (xor_bytes p m)
              | _ \<Rightarrow> None)
         else Panics)
      else Returns None)"

definition csrf_verify :: "string \<Rightarrow> string \<Rightarrow> (app_error + unit) run" where
  "csrf_verify raw presented =
     (case from_hex raw of
        None \<Rightarrow> Returns (Inl App_Forbidden)
      | Some expected \<Rightarrow>
          (case unmask presented of
             Panics \<Rightarrow> Panics
           | Returns None \<Rightarrow> Returns (Inl App_Forbidden)
           | Returns (Some actual) \<Rightarrow>
               if length expected = length actual \<and>
                  foldl (\<lambda>acc (x, y). acc OR (x XOR y)) 0 (zip expected actual) = 0
               then Returns (Inr ()) else Returns (Inl App_Forbidden)))"

text \<open>The header is what \<open>to_str\<close> makes of it.\<close>

definition verify_request :: "string \<Rightarrow> string option \<Rightarrow> string option \<Rightarrow> (app_error + unit) run" where
  "verify_request raw header form_token =
     (case header of
        Some token \<Rightarrow> csrf_verify raw token
      | None \<Rightarrow>
          (case form_token of
             Some token \<Rightarrow> csrf_verify raw token
           | None \<Rightarrow> Returns (Inl App_Forbidden)))"

definition cookie_value :: "string list \<Rightarrow> string \<Rightarrow> string option" where
  "cookie_value headers name =
     map_option (\<lambda>(k, v). trim v)
       (find (\<lambda>(k, v). trim k = name)
          (List.map_filter (split_once (CHR ''='')) (concat (map (split_on (CHR '';'')) headers))))"

text \<open>\<open>layer\<close>: the request's token, and whether a cookie is issued for it; the fresh bytes are an argument.\<close>

definition csrf_layer :: "string list \<Rightarrow> string \<Rightarrow> u8 list \<Rightarrow> string \<times> bool" where
  "csrf_layer headers name fresh =
     (case cookie_value headers name of
        Some v \<Rightarrow> if from_hex v \<noteq> None then (v, False) else (to_hex fresh, True)
      | None \<Rightarrow> (to_hex fresh, True))"

section \<open>Reading back\<close>

lemma hex_digit_char: "n < 16 \<Longrightarrow> hex_digit (hex_char n) = Some n"
proof -
  assume "n < 16"
  then have "n \<in> set [0..<16]" by simp
  moreover have "list_all (\<lambda>n. hex_digit (hex_char n) = Some n) [0..<16]" by code_simp
  ultimately show ?thesis by (auto simp: list_all_iff)
qed

lemma nibbles: "unat (drop_bit 4 b) < 16" "unat (b AND 15) < 16"
  "word_of_nat (unat (drop_bit 4 b) * 16 + unat (b AND 15)) = b" for b :: u8
proof -
  have hi: "unat (drop_bit 4 b) = unat b div 16" by (simp add: drop_bit_eq_div unat_div)
  have lo: "unat (b AND 15) = unat b mod 16"
  proof -
    have "b AND 15 = b mod 16" using take_bit_eq_mask [of 4 b] by (simp add: mask_eq_exp_minus_1 take_bit_eq_mod)
    then show ?thesis by (simp add: unat_mod)
  qed
  have "unat b < 2 ^ LENGTH(8)" by (rule unsigned_less)
  then show "unat (drop_bit 4 b) < 16" unfolding hi by simp
  show "unat (b AND 15) < 16" unfolding lo by simp
  show "word_of_nat (unat (drop_bit 4 b) * 16 + unat (b AND 15)) = b"
    unfolding hi lo div_mult_mod_eq by simp
qed

lemma length_to_hex [simp]: "length (to_hex bs) = 2 * length bs"
  by (induction bs) (auto simp: to_hex_def)

lemma to_hex_Cons: "to_hex (b # bs) = hex_char (unat (drop_bit 4 b)) # hex_char (unat (b AND 15)) # to_hex bs"
  by (simp add: to_hex_def)

lemma hex_pairs_to_hex: "hex_pairs (to_hex bs) = Some bs"
proof (induction bs)
  case (Cons b bs)
  show ?case
    unfolding to_hex_Cons hex_pairs.simps hex_digit_char [OF nibbles(1)] hex_digit_char [OF nibbles(2)] Cons
    by (simp only: prod.case option.case nibbles(3) option.map)
qed (simp add: to_hex_def)

lemma from_to_hex: "bs \<noteq> [] \<Longrightarrow> from_hex (to_hex bs) = Some bs"
  using length_to_hex [of bs] by (auto simp: from_hex_def hex_pairs_to_hex simp del: length_to_hex)

lemma from_hex_length: "from_hex s = Some bs \<Longrightarrow> length s = 2 * length bs \<and> bs \<noteq> []"
proof -
  have pairs: "hex_pairs s = Some bs \<Longrightarrow> even (length s) \<Longrightarrow> length s = 2 * length bs" for s bs
    by (induction s arbitrary: bs rule: hex_pairs.induct) (auto split: option.splits)
  assume "from_hex s = Some bs"
  then show ?thesis using pairs [of s bs] by (auto simp: from_hex_def split: if_splits)
qed

text \<open>
  What \<open>from_hex\<close> reads, in either case of the letters: \<open>spells\<close> is the specification, a text that
  becomes the rendering of the bytes when its capitals are lowered.
\<close>

definition spells :: "string \<Rightarrow> u8 list \<Rightarrow> bool" where
  "spells text bytes \<longleftrightarrow> to_ascii_lowercase text = to_hex bytes"

lemma of_hex_char: "n < 16 \<Longrightarrow> (of_char (hex_char n) :: nat) = (if n < 10 then 48 + n else 87 + n)"
proof -
  have "list_all (\<lambda>n. (of_char (hex_char n) :: nat) = (if n < 10 then 48 + n else 87 + n)) [0..<16]" by code_simp
  then show "n < 16 \<Longrightarrow> (of_char (hex_char n) :: nat) = (if n < 10 then 48 + n else 87 + n)"
    by (simp add: list_all_iff)
qed

lemma hex_digit_iff: "hex_digit c = Some n \<longleftrightarrow> n < 16 \<and> ascii_lower c = hex_char n"
proof -
  define k where "k = (of_char c :: nat)"
  have low: "(of_char (ascii_lower c) :: nat) = (if 65 \<le> k \<and> k \<le> 90 then k + 32 else k)"
    by (simp add: ascii_lower_def of_char_of k_def)
  have "ascii_lower c = hex_char n \<longleftrightarrow> (of_char (ascii_lower c) :: nat) = of_char (hex_char n)"
    by (metis char_of_char)
  then have "n < 16 \<and> ascii_lower c = hex_char n \<longleftrightarrow>
      n < 16 \<and> (if 65 \<le> k \<and> k \<le> 90 then k + 32 else k) = (if n < 10 then 48 + n else 87 + n)"
    using of_hex_char [of n] low by auto
  also have "\<dots> \<longleftrightarrow> hex_digit c = Some n" unfolding hex_digit_def Let_def k_def [symmetric] by auto
  finally show ?thesis by blast
qed

lemma to_hex_Nil [simp]: "to_hex [] = []"
  by (simp add: to_hex_def)

lemma nibbles_of:
  assumes "hi < 16" "lo < 16"
  shows "unat (drop_bit 4 (word_of_nat (hi * 16 + lo) :: u8)) = hi"
    "unat ((word_of_nat (hi * 16 + lo) :: u8) AND 15) = lo"
proof -
  have u: "unat (word_of_nat (hi * 16 + lo) :: u8) = hi * 16 + lo"
    using assms by (simp only: unat_of_nat) simp
  show "unat (drop_bit 4 (word_of_nat (hi * 16 + lo) :: u8)) = hi"
    using assms by (simp only: drop_bit_eq_div unat_div u) simp
  have "(word_of_nat (hi * 16 + lo) :: u8) AND 15 = word_of_nat (hi * 16 + lo) mod 16"
    using take_bit_eq_mask [of 4 "word_of_nat (hi * 16 + lo) :: u8"] by (simp add: mask_eq_exp_minus_1 take_bit_eq_mod)
  then show "unat ((word_of_nat (hi * 16 + lo) :: u8) AND 15) = lo"
    using assms by (simp only: unat_mod u) simp
qed

lemma hex_pairs_iff: "even (length s) \<Longrightarrow> hex_pairs s = Some bs \<longleftrightarrow> spells s bs"
proof (induction s arbitrary: bs rule: hex_pairs.induct)
  case (1 x y r)
  show ?case
  proof
    assume "hex_pairs (x # y # r) = Some bs"
    then obtain hi lo bs' where d: "hex_digit x = Some hi" "hex_digit y = Some lo" "hex_pairs r = Some bs'"
      "bs = word_of_nat (hi * 16 + lo) # bs'" by (auto split: option.splits)
    moreover have "even (length r)" using "1.prems" by simp
    ultimately have "spells r bs'" using "1.IH" [OF refl d(1,2), of bs'] by blast
    moreover have n: "hi < 16" "lo < 16" "ascii_lower x = hex_char hi" "ascii_lower y = hex_char lo"
      using d by (auto simp: hex_digit_iff)
    ultimately show "spells (x # y # r) bs"
      unfolding spells_def d(4) to_hex_Cons nibbles_of [OF n(1,2)] by (simp add: to_ascii_lowercase_def)
  next
    assume sp: "spells (x # y # r) bs"
    then obtain b bs' where bs: "bs = b # bs'" by (cases bs) (auto simp: spells_def to_ascii_lowercase_def)
    with sp have r: "spells r bs'" and x: "hex_digit x = Some (unat (drop_bit 4 b))"
      "hex_digit y = Some (unat (b AND 15))"
      using nibbles [of b] by (auto simp: spells_def to_hex_Cons to_ascii_lowercase_def hex_digit_iff)
    have "even (length r)" using "1.prems" by simp
    then have "hex_pairs r = Some bs'" using "1.IH" [OF refl x, of bs'] r by blast
    then show "hex_pairs (x # y # r) = Some bs"
      unfolding hex_pairs.simps x bs by (simp only: prod.case option.case nibbles(3) option.map)
  qed
next
  case "2_1"
  then show ?case by (cases bs) (auto simp: spells_def to_ascii_lowercase_def to_hex_Cons)
qed simp

lemma spells_length: "spells s bs \<Longrightarrow> length s = 2 * length bs"
  unfolding spells_def by (metis length_map length_to_hex to_ascii_lowercase_def)

lemma from_hex_iff: "from_hex s = Some bs \<longleftrightarrow> spells s bs \<and> bs \<noteq> []"
proof (cases "s = [] \<or> odd (length s)")
  case True
  then have "\<not> (spells s bs \<and> bs \<noteq> [])" using spells_length [of s bs] by auto
  then show ?thesis using True by (simp add: from_hex_def)
next
  case False
  then have "spells s bs \<Longrightarrow> bs \<noteq> []" using spells_length [of s bs] by auto
  then show ?thesis using False hex_pairs_iff [of s bs] by (auto simp: from_hex_def)
qed

lemma to_hex_inj: "to_hex a = to_hex b \<Longrightarrow> a = b"
  using hex_pairs_to_hex by (metis option.inject)

section \<open>Masks\<close>

lemma length_xor_bytes [simp]: "length (xor_bytes a b) = min (length a) (length b)"
  by (simp add: xor_bytes_def)

lemma xor_bytes_nth: "length a = length b \<Longrightarrow> i < length a \<Longrightarrow> xor_bytes a b ! i = a ! i XOR b ! i"
  by (simp add: xor_bytes_def)

lemma xor_bytes_twice: "length a = length b \<Longrightarrow> xor_bytes a (xor_bytes a b) = b"
  by (rule nth_equalityI) (auto simp: xor_bytes_nth xor.assoc [symmetric])

lemma fold_or_zero:
  "foldl (\<lambda>acc (x, y). acc OR (x XOR y)) a (zip xs ys) = 0 \<longleftrightarrow>
     a = 0 \<and> list_all2 (\<lambda>x y. x = y) (take (length ys) xs) (take (length xs) ys)" for a :: u8
proof (induction xs arbitrary: a ys)
  case (Cons x xs)
  show ?case
  proof (cases ys)
    case (Cons y ys')
    have "a OR (x XOR y) = 0 \<longleftrightarrow> a = 0 \<and> x = y"
      unfolding or_eq_0_iff by (metis xor_self_eq xor.assoc xor.right_neutral)
    then show ?thesis using Cons.IH [of "a OR (x XOR y)" ys'] Cons by auto
  qed simp
qed simp

lemma equal_bytes:
  "length e = length a \<and> foldl (\<lambda>acc (x, y). acc OR (x XOR y)) 0 (zip e a) = 0 \<longleftrightarrow> e = a" for e a :: "u8 list"
  by (auto simp: fold_or_zero list.rel_eq)

text \<open>What the comparison comes to: the presented text unmasks to the bytes of the cookie.\<close>

lemma csrf_verify_iff:
  "csrf_verify raw p = Returns (Inr ()) \<longleftrightarrow>
     from_hex raw \<noteq> None \<and> unmask p = Returns (from_hex raw)"
  unfolding csrf_verify_def equal_bytes by (auto split: option.splits run.splits)

lemma csrf_verify_panics:
  "csrf_verify raw p = Panics \<longleftrightarrow> from_hex raw \<noteq> None \<and> unmask p = Panics"
  by (auto simp: csrf_verify_def split: option.splits run.splits)

lemma csrf_verify_values:
  "csrf_verify raw p \<in> {Returns (Inr ()), Returns (Inl App_Forbidden), Panics}"
  by (auto simp: csrf_verify_def split: option.splits run.splits)

lemma ascii_lower_high: "ascii_lower c = d \<Longrightarrow> (of_char d :: nat) < 128 \<Longrightarrow> (of_char c :: nat) < 128"
  by (auto simp: ascii_lower_def of_char_of split: if_splits)

lemma hex_char_ascii: "n < 16 \<Longrightarrow> (of_char (hex_char n) :: nat) < 128"
  by (simp add: of_hex_char)

lemma to_hex_ascii: "c \<in> set (to_hex bs) \<Longrightarrow> (of_char c :: nat) < 128"
  using nibbles hex_char_ascii by (induction bs) (auto simp: to_hex_Cons)

lemma spells_boundary:
  assumes "spells s bs"
  shows "is_char_boundary s i \<longleftrightarrow> i \<le> length s"
proof -
  have "(of_char (s ! i) :: nat) < 128" if "i < length s"
  proof -
    have "ascii_lower (s ! i) \<in> set (to_hex bs)"
      using assms that unfolding spells_def to_ascii_lowercase_def by (metis nth_map nth_mem length_map)
    then show ?thesis using to_hex_ascii ascii_lower_high by blast
  qed
  then show ?thesis by (auto simp: is_char_boundary_def)
qed

lemma to_hex_append: "to_hex (p @ m) = to_hex p @ to_hex m"
  by (simp add: to_hex_def)

lemma spells_append:
  assumes "length s = 2 * length p + n"
  shows "spells s (p @ m) \<longleftrightarrow> spells (take (2 * length p) s) p \<and> spells (drop (2 * length p) s) m"
proof -
  have "to_ascii_lowercase s =
      to_ascii_lowercase (take (2 * length p) s) @ to_ascii_lowercase (drop (2 * length p) s)"
    by (simp add: to_ascii_lowercase_def flip: map_append)
  then show ?thesis
    unfolding spells_def to_hex_append using assms
    by (simp add: append_eq_append_conv to_ascii_lowercase_def)
qed

text \<open>A text unmasks to a token of 32 bytes exactly when it spells it, or a mask and the masked token.\<close>

lemma unmask_length: "unmask p = Returns (Some bs) \<Longrightarrow> length bs = TOKEN_BYTES"
  by (auto simp: unmask_def TOKEN_BYTES_def dest!: from_hex_length split: if_splits option.splits)

lemma unmask_iff:
  assumes t: "length token = TOKEN_BYTES"
  shows "unmask x = Returns (Some token) \<longleftrightarrow>
    spells x token \<or> (\<exists>q. length q = TOKEN_BYTES \<and> spells x (q @ xor_bytes q token))"
proof -
  have ne: "bs \<noteq> []" if "length bs = TOKEN_BYTES" for bs :: "u8 list" using that by (auto simp: TOKEN_BYTES_def)
  have "unmask x = Returns (Some token) \<longleftrightarrow> spells x token" if "length x = TOKEN_BYTES * 2"
    using that ne [OF t] by (simp add: unmask_def from_hex_iff)
  moreover have "unmask x = Returns (Some token) \<longleftrightarrow>
      (\<exists>q. length q = TOKEN_BYTES \<and> spells x (q @ xor_bytes q token))" if l: "length x = TOKEN_BYTES * 4"
  proof
    assume "unmask x = Returns (Some token)"
    then obtain q m where h: "from_hex (take (TOKEN_BYTES * 2) x) = Some q"
      "from_hex (drop (TOKEN_BYTES * 2) x) = Some m" and e: "token = xor_bytes q m"
      using l by (auto simp: unmask_def TOKEN_BYTES_def split: if_splits option.splits)
    have lq: "length q = TOKEN_BYTES" "length m = TOKEN_BYTES"
      using from_hex_length [OF h(1)] from_hex_length [OF h(2)] l by (auto simp: TOKEN_BYTES_def)
    have "spells x (q @ m)"
      using h l lq(1) spells_append [of x q "TOKEN_BYTES * 2" m]
      by (simp add: from_hex_iff TOKEN_BYTES_def)
    moreover have "xor_bytes q token = m" using e lq by (simp add: xor_bytes_twice)
    ultimately show "\<exists>q. length q = TOKEN_BYTES \<and> spells x (q @ xor_bytes q token)" using lq by metis
  next
    assume "\<exists>q. length q = TOKEN_BYTES \<and> spells x (q @ xor_bytes q token)"
    then obtain q where q: "length q = TOKEN_BYTES" "spells x (q @ xor_bytes q token)" by blast
    have lm: "length (xor_bytes q token) = TOKEN_BYTES" using q t by simp
    have "from_hex (take (TOKEN_BYTES * 2) x) = Some q"
      "from_hex (drop (TOKEN_BYTES * 2) x) = Some (xor_bytes q token)"
      using q l ne [OF q(1)] ne [OF lm] spells_append [of x q "TOKEN_BYTES * 2" "xor_bytes q token"]
      by (simp_all add: from_hex_iff TOKEN_BYTES_def)
    moreover have "is_char_boundary x (TOKEN_BYTES * 2)"
      using spells_boundary [OF q(2)] l by (simp add: TOKEN_BYTES_def)
    ultimately show "unmask x = Returns (Some token)"
      using l q t by (simp add: unmask_def TOKEN_BYTES_def xor_bytes_twice)
  qed
  moreover have "length x = TOKEN_BYTES * 2" if "spells x token" using spells_length [OF that] t by simp
  moreover have "length x = TOKEN_BYTES * 4" if "length q = TOKEN_BYTES" "spells x (q @ xor_bytes q token)" for q
    using spells_length [OF that(2)] that(1) t by simp
  moreover have "length x = TOKEN_BYTES * 2 \<or> length x = TOKEN_BYTES * 4" if "unmask x = Returns (Some token)"
    using that by (auto simp: unmask_def split: if_splits)
  ultimately show ?thesis by (metis num.distinct)
qed

lemma unmask_panics: "unmask x = Panics \<longleftrightarrow> length x = 128 \<and> \<not> is_char_boundary x 64"
  by (auto simp: unmask_def TOKEN_BYTES_def)

lemma csrf_verify_exact:
  "csrf_verify raw x = Returns (Inr ()) \<longleftrightarrow>
     (\<exists>token. length token = TOKEN_BYTES \<and> spells raw token \<and>
        (spells x token \<or> (\<exists>q. length q = TOKEN_BYTES \<and> spells x (q @ xor_bytes q token))))"
proof -
  have "csrf_verify raw x = Returns (Inr ()) \<longleftrightarrow>
      (\<exists>token. from_hex raw = Some token \<and> unmask x = Returns (Some token))"
    unfolding csrf_verify_iff by auto
  also have "\<dots> \<longleftrightarrow> (\<exists>token. length token = TOKEN_BYTES \<and> from_hex raw = Some token \<and>
      unmask x = Returns (Some token))" using unmask_length by blast
  also have "\<dots> \<longleftrightarrow> (\<exists>token. length token = TOKEN_BYTES \<and> spells raw token \<and>
        (spells x token \<or> (\<exists>q. length q = TOKEN_BYTES \<and> spells x (q @ xor_bytes q token))))"
  proof (intro ex_cong1)
    fix token :: "u8 list"
    have "token \<noteq> []" if "length token = TOKEN_BYTES" using that by (auto simp: TOKEN_BYTES_def)
    then show "length token = TOKEN_BYTES \<and> from_hex raw = Some token \<and> unmask x = Returns (Some token) \<longleftrightarrow>
        length token = TOKEN_BYTES \<and> spells raw token \<and>
        (spells x token \<or> (\<exists>q. length q = TOKEN_BYTES \<and> spells x (q @ xor_bytes q token)))"
      using unmask_iff [of token x] from_hex_iff [of raw token] by blast
  qed
  finally show ?thesis .
qed

lemma from_hex_some: "from_hex raw \<noteq> None \<longleftrightarrow> (\<exists>bs. bs \<noteq> [] \<and> spells raw bs)"
proof -
  have "from_hex raw \<noteq> None \<longleftrightarrow> (\<exists>bs. from_hex raw = Some bs)" by auto
  then show ?thesis by (auto simp: from_hex_iff)
qed

lemma spells_to_hex: "spells (to_hex bs) bs"
proof (cases "bs = []")
  case False
  then show ?thesis using from_to_hex from_hex_iff by blast
qed (simp add: spells_def to_ascii_lowercase_def)

lemma masked_spelled:
  "spells raw token \<Longrightarrow> token \<noteq> [] \<Longrightarrow> masked raw (Some p) = to_hex (p @ xor_bytes p token)"
  using from_hex_iff [of raw token] by (simp add: masked_def to_hex_append)

lemma csrf_layer_hex: "fresh \<noteq> [] \<Longrightarrow> from_hex (fst (csrf_layer hs name fresh)) \<noteq> None"
  by (auto simp: csrf_layer_def from_to_hex split: option.splits)

text \<open>A cookie that is hexadecimal but not of 32 bytes is kept, and no form can be sent with it.\<close>

lemma odd_cookie_locks_out:
  assumes "cookie_value hs name = Some v" "from_hex v = Some bs" "length bs \<noteq> TOKEN_BYTES"
  shows "csrf_layer hs name fresh = (v, False)" "verify_request v h f \<noteq> Returns (Inr ())"
proof -
  show "csrf_layer hs name fresh = (v, False)" using assms by (simp add: csrf_layer_def)
  have "csrf_verify v p \<noteq> Returns (Inr ())" for p
    using unmask_length [of p bs] assms(2,3) by (auto simp: csrf_verify_iff)
  then show "verify_request v h f \<noteq> Returns (Inr ())"
    by (auto simp: verify_request_def split: option.splits)
qed

text \<open>
  C30: A form is accepted exactly from a page that knows the token. For any cookie, header and form field
  whatever, malformed and short ones included, the request is accepted if and only if the cookie spells 32
  bytes in hexadecimal and the text presented (the header's, or without a header the form's) spells those
  bytes, or some mask of 32 bytes followed by those bytes under that mask; in every other case it is refused as
  forbidden, but for one: a text of 128 bytes in which a character lies across byte 64, presented with any
  hexadecimal cookie, panics. What a page shows under any mask is accepted, what a page made from another token
  is refused; two masks never show the same text, and the masked half of the text says nothing of the token,
  since every other token shows the same half under some mask.
\<close>
theorem csrf_double_submit:
  assumes "length token = TOKEN_BYTES" "length p = TOKEN_BYTES" "spells raw token"
  shows "(verify_request cookie header form = Returns (Inr ()) \<longleftrightarrow>
      (\<exists>t x. length t = TOKEN_BYTES \<and> spells cookie t \<and>
         (case header of Some h \<Rightarrow> Some h | None \<Rightarrow> form) = Some x \<and>
         (spells x t \<or> (\<exists>q. length q = TOKEN_BYTES \<and> spells x (q @ xor_bytes q t))))) \<and>
    (verify_request cookie header form = Panics \<longleftrightarrow>
      (\<exists>bs x. bs \<noteq> [] \<and> spells cookie bs \<and>
         (case header of Some h \<Rightarrow> Some h | None \<Rightarrow> form) = Some x \<and>
         length x = 128 \<and> \<not> is_char_boundary x 64)) \<and>
    verify_request cookie header form \<in> {Returns (Inr ()), Returns (Inl App_Forbidden), Panics} \<and>
    verify_request raw None (Some (masked raw (Some p))) = Returns (Inr ()) \<and>
    (\<forall>other q. length other = TOKEN_BYTES \<longrightarrow> length q = TOKEN_BYTES \<longrightarrow> other \<noteq> token \<longrightarrow>
       verify_request raw None (Some (masked (to_hex other) (Some q))) = Returns (Inl App_Forbidden)) \<and>
    (\<forall>q. length q = TOKEN_BYTES \<longrightarrow> q \<noteq> p \<longrightarrow> masked raw (Some q) \<noteq> masked raw (Some p)) \<and>
    (\<forall>other. length other = TOKEN_BYTES \<longrightarrow>
       (\<exists>q. length q = TOKEN_BYTES \<and>
          drop 64 (masked (to_hex other) (Some q)) = drop 64 (masked raw (Some p))))"
proof -
  have ne: "bs \<noteq> []" if "length bs = TOKEN_BYTES" for bs :: "u8 list" using that by (auto simp: TOKEN_BYTES_def)
  have shown: "masked raw (Some q) = to_hex (q @ xor_bytes q token)" for q
    using masked_spelled [OF assms(3) ne [OF assms(1)]] .
  have other: "masked (to_hex t) (Some q) = to_hex (q @ xor_bytes q t)" if "length t = TOKEN_BYTES" for t q
    using masked_spelled [OF spells_to_hex ne [OF that]] .
  have exact: "verify_request cookie header form = Returns (Inr ()) \<longleftrightarrow>
      (\<exists>t x. length t = TOKEN_BYTES \<and> spells cookie t \<and>
         (case header of Some h \<Rightarrow> Some h | None \<Rightarrow> form) = Some x \<and>
         (spells x t \<or> (\<exists>q. length q = TOKEN_BYTES \<and> spells x (q @ xor_bytes q t))))"
    by (auto simp: verify_request_def csrf_verify_exact split: option.splits)
  have panics: "verify_request cookie header form = Panics \<longleftrightarrow>
      (\<exists>bs x. bs \<noteq> [] \<and> spells cookie bs \<and>
         (case header of Some h \<Rightarrow> Some h | None \<Rightarrow> form) = Some x \<and>
         length x = 128 \<and> \<not> is_char_boundary x 64)"
    using from_hex_some [of cookie]
    by (auto simp: verify_request_def csrf_verify_panics unmask_panics simp del: not_None_eq split: option.splits)
  have answers: "verify_request cookie header form \<in> {Returns (Inr ()), Returns (Inl App_Forbidden), Panics}"
    using csrf_verify_values by (auto simp: verify_request_def split: option.splits)
  have accept: "csrf_verify raw (masked raw (Some p)) = Returns (Inr ())"
    unfolding csrf_verify_exact shown using assms spells_to_hex by blast
  have refuse: "csrf_verify raw (masked (to_hex t) (Some q)) = Returns (Inl App_Forbidden)"
    if l: "length t = TOKEN_BYTES" "length q = TOKEN_BYTES" and d: "t \<noteq> token" for t q
  proof -
    have "unmask (masked (to_hex t) (Some q)) = Returns (Some t)"
      unfolding unmask_iff [OF l(1)] other [OF l(1)] using l(2) spells_to_hex by blast
    moreover have "from_hex raw = Some token" using assms(3) ne [OF assms(1)] from_hex_iff by blast
    ultimately show ?thesis
      using d csrf_verify_values [of raw "masked (to_hex t) (Some q)"]
      by (auto simp: csrf_verify_iff csrf_verify_panics)
  qed
  have differ: "masked raw (Some q) \<noteq> masked raw (Some p)"
    if "length q = TOKEN_BYTES" "q \<noteq> p" for q
    using that to_hex_inj [of q p] assms by (auto simp: shown to_hex_append append_eq_append_conv)
  have hide: "\<exists>q. length q = TOKEN_BYTES \<and>
      drop 64 (masked (to_hex t) (Some q)) = drop 64 (masked raw (Some p))"
    if "length t = TOKEN_BYTES" for t
  proof (intro exI conjI)
    let ?q = "xor_bytes t (xor_bytes p token)"
    show "length ?q = TOKEN_BYTES" using assms that by simp
    have "xor_bytes ?q t = xor_bytes p token"
      using assms that by (intro nth_equalityI) (auto simp: xor_bytes_nth xor.assoc xor.commute xor.left_commute)
    then show "drop 64 (masked (to_hex t) (Some ?q)) = drop 64 (masked raw (Some p))"
      using assms that by (simp add: other [OF that] shown to_hex_append TOKEN_BYTES_def)
  qed
  show ?thesis
    using exact panics answers accept refuse differ hide by (simp only: verify_request_def option.case) blast
qed

theorem csrf_double_submit_witness:
  "verify_request (to_hex (replicate 32 7)) None (Some (masked (to_hex (replicate 32 7)) (Some (replicate 32 200))))
     = Returns (Inr ()) \<and>
   verify_request (to_hex (replicate 32 7)) None (Some (masked (to_hex (replicate 32 9)) (Some (replicate 32 200))))
     = Returns (Inl App_Forbidden) \<and>
   verify_request (to_hex [7]) None (Some (replicate 63 (CHR ''a'') @ [CHR 0xC3, CHR 0xA9] @ replicate 63 (CHR ''a''))) = Panics"
proof -
  let ?x = "replicate 63 (CHR ''a'') @ [CHR 0xC3, CHR 0xA9] @ replicate 63 (CHR ''a'')"
  have l: "length (replicate 32 (7 :: u8)) = TOKEN_BYTES" "length (replicate 32 (200 :: u8)) = TOKEN_BYTES"
    "length (replicate 32 (9 :: u8)) = TOKEN_BYTES" by (simp_all add: TOKEN_BYTES_def)
  have ne: "replicate 32 9 \<noteq> (replicate 32 7 :: u8 list)" by simp
  have b: "length ?x = 128" "\<not> is_char_boundary ?x 64"
    by (simp_all add: is_char_boundary_def nth_append)
  note all = csrf_double_submit [OF l(1,2) spells_to_hex, of "to_hex [7]" None "Some ?x"]
  have "verify_request (to_hex [7]) None (Some ?x) = Panics"
    using all b spells_to_hex [of "[7]"] by (simp only: option.case) blast
  then show ?thesis using all l ne by blast
qed

end
