(* ===== verification/Collector.thy ===== *)
theory Collector
  imports Engine Depth_Store Item_Catalog Accounts
begin

text \<open>
  Collecting commodity prices: the alert rules of \<open>crates/app-core/src/market/alerts.rs\<close>, the collector of
  \<open>market/collector.rs\<close> and the tables it writes (\<open>crates/storage/src/sqlite/prices.rs\<close>).

  A row is the sample, ladder or alert it was written from: the casts to \<open>i64\<close> and the names of regions and
  severities are undone on reading, and the times, as milliseconds since 1970, stay below \<open>2 ^ 63\<close>, so that the
  database orders them as the program does. A table is the list of its rows in the order they were inserted; a
  primary key is checked on insertion. Every access to the database may fail, as the list \<open>co_faults\<close> of the
  state says; a failed transaction changes nothing. The provider of snapshots, an HTTP client, is an
  argument; what was handed to the alert sink is kept in the state.
\<close>

section \<open>Alerts\<close>

datatype alert_severity = LowSeverity | VeryLow

fun alert_severity_str :: "alert_severity \<Rightarrow> string" where
  "alert_severity_str LowSeverity = ''low''"
| "alert_severity_str VeryLow = ''very_low''"

record alert_rule =
  ar_lookback_ms :: nat
  ar_percentile :: nat
  ar_min_samples :: nat
  ar_min_quantity :: nat
  ar_cooldown_ms :: nat

definition default_alert_rule :: alert_rule where
  "default_alert_rule = \<lparr> ar_lookback_ms = 14 * 24 * 60 * 60 * 1000, ar_percentile = 10, ar_min_samples = 48,
     ar_min_quantity = 20, ar_cooldown_ms = 6 * 60 * 60 * 1000 \<rparr>"

record alert =
  al_item :: itemid
  al_region :: region
  al_severity :: alert_severity
  al_observed_at :: millis
  al_current :: copper
  al_baseline :: copper
  al_threshold :: copper
  al_discount_percent :: nat
  al_quantity :: nat

text \<open>The product \<open>saved * 100\<close> is left unchecked at 64 bits.\<close>

definition alert_discount :: "copper \<Rightarrow> copper \<Rightarrow> nat" where
  "alert_discount baseline current =
     (if baseline = 0 then 0 else min (wrap64 ((baseline - current) * 100) div baseline) 100)"

definition build_alert :: "price_sample \<Rightarrow> copper \<Rightarrow> copper \<Rightarrow> alert_severity \<Rightarrow> alert" where
  "build_alert current threshold baseline severity =
     \<lparr> al_item = sm_item current, al_region = sm_region current, al_severity = severity,
       al_observed_at = sm_observed_at current, al_current = sm_p05 current, al_baseline = baseline,
       al_threshold = threshold, al_discount_percent = alert_discount baseline (sm_p05 current),
       al_quantity = sm_quantity current \<rparr>"

definition percent_fraction :: "nat \<Rightarrow> rat" where
  "percent_fraction percent = f64 (f64 (of_nat percent) / f64 100)"

definition alert_window :: "alert_rule \<Rightarrow> price_sample \<Rightarrow> price_sample list \<Rightarrow> buckets" where
  "alert_window rule current history =
     from_observations (map (\<lambda>s. (sm_observed_at s, sm_p05 s))
       (filter (\<lambda>s. since (sm_observed_at current) (sm_observed_at s) \<le> ar_lookback_ms rule) history))"

definition evaluate_history :: "alert_rule \<Rightarrow> price_sample \<Rightarrow> buckets \<Rightarrow> alert option" where
  "evaluate_history rule current window =
     (if b_len window < ar_min_samples rule then None
      else do {
        threshold \<leftarrow> quantile window (percent_fraction (ar_percentile rule));
        if threshold < sm_p05 current then None
        else do {
          baseline \<leftarrow> quantile window (f64 (1 / 2));
          severe \<leftarrow> quantile window (percent_fraction (max (ar_percentile rule div 2) 1));
          Some (build_alert current threshold baseline (if sm_p05 current \<le> severe then VeryLow else LowSeverity)) } })"

definition evaluate :: "alert_rule \<Rightarrow> price_sample \<Rightarrow> price_sample list \<Rightarrow> copper option \<Rightarrow> alert option" where
  "evaluate rule current history floor_price =
     (if sm_quantity current < ar_min_quantity rule then None
      else case floor_price of
        Some f \<Rightarrow> if sm_p05 current \<le> f then Some (build_alert current f f VeryLow)
                  else evaluate_history rule current (alert_window rule current history)
      | None \<Rightarrow> evaluate_history rule current (alert_window rule current history))"

section \<open>The price tables\<close>

record ladder_row =
  lr_item :: itemid
  lr_region :: region
  lr_observed_at :: millis
  lr_levels :: nat
  lr_total :: nat
  lr_steps :: string

record price_db =
  pd_samples :: "price_sample list"
  pd_ladders :: "ladder_row list"
  pd_alerts :: "alert list"

definition empty_prices :: price_db where
  "empty_prices = \<lparr> pd_samples = [], pd_ladders = [], pd_alerts = [] \<rparr>"

definition sample_key :: "price_sample \<Rightarrow> itemid \<times> region \<times> millis" where
  "sample_key s = (sm_item s, sm_region s, sm_observed_at s)"

definition ladder_key :: "ladder_row \<Rightarrow> itemid \<times> region \<times> millis" where
  "ladder_key r = (lr_item r, lr_region r, lr_observed_at r)"

text \<open>\<open>INSERT ... ON CONFLICT DO NOTHING\<close> and \<open>INSERT OR IGNORE\<close>, with \<open>rows_affected\<close>.\<close>

definition insert_new :: "('r \<Rightarrow> 'k) \<Rightarrow> 'r \<Rightarrow> nat \<times> 'r list \<Rightarrow> nat \<times> 'r list" where
  "insert_new key r p = (if key r \<in> key ` set (snd p) then p else (fst p + 1, snd p @ [r]))"

definition ladder_to_row :: "region \<Rightarrow> millis \<Rightarrow> itemid \<times> ladder \<Rightarrow> ladder_row" where
  "ladder_to_row region at_time e =
     \<lparr> lr_item = fst e, lr_region = region, lr_observed_at = at_time, lr_levels = length (steps (snd e)),
       lr_total = total_units (snd e), lr_steps = encode_ladder (snd e) \<rparr>"

definition record_snapshot :: "price_sample list \<Rightarrow> region \<Rightarrow> millis \<Rightarrow> (itemid \<times> ladder) list \<Rightarrow> price_db \<Rightarrow>
    (nat \<times> nat) \<times> price_db" where
  "record_snapshot samples region at_time ladders db =
     (let (n, ss) = fold (insert_new sample_key) samples (0, pd_samples db);
          (k, ls) = fold (insert_new ladder_key)
            (map (ladder_to_row region at_time) (filter (\<lambda>e. \<not> ladder_is_empty (snd e)) ladders)) (0, pd_ladders db)
      in ((n, k), db\<lparr> pd_samples := ss, pd_ladders := ls \<rparr>))"

definition record_samples :: "price_sample list \<Rightarrow> price_db \<Rightarrow> nat \<times> price_db" where
  "record_samples samples db =
     (if samples = [] then (0, db)
      else let (n, ss) = fold (insert_new sample_key) samples (0, pd_samples db) in (n, db\<lparr> pd_samples := ss \<rparr>))"

definition price_history :: "itemid \<Rightarrow> region \<Rightarrow> millis \<Rightarrow> price_db \<Rightarrow> price_sample list" where
  "price_history item region from_time db =
     sort_key sm_observed_at
       (filter (\<lambda>s. sm_item s = item \<and> sm_region s = region \<and> from_time \<le> sm_observed_at s) (pd_samples db))"

definition history_in_region :: "region \<Rightarrow> price_db \<Rightarrow> price_sample list" where
  "history_in_region region db =
     sort_key (\<lambda>s. (sm_item s, sm_observed_at s)) (filter (\<lambda>s. sm_region s = region) (pd_samples db))"

definition max_time :: "millis list \<Rightarrow> millis option" where
  "max_time ts = (if ts = [] then None else Some (Max (set ts)))"

definition last_observed :: "region \<Rightarrow> price_db \<Rightarrow> millis option" where
  "last_observed region db = max_time (map sm_observed_at (filter (\<lambda>s. sm_region s = region) (pd_samples db)))"

definition latest_samples :: "region \<Rightarrow> price_db \<Rightarrow> price_sample list" where
  "latest_samples region db =
     (let rows = filter (\<lambda>s. sm_region s = region) (pd_samples db) in
      sort_key sm_item
        (filter (\<lambda>s. max_time (map sm_observed_at (filter (\<lambda>q. sm_item q = sm_item s) rows)) = Some (sm_observed_at s)) rows))"

definition record_alert :: "alert \<Rightarrow> price_db \<Rightarrow> price_db" where
  "record_alert a db = db\<lparr> pd_alerts := pd_alerts db @ [a] \<rparr>"

definition last_alert_at :: "itemid \<Rightarrow> region \<Rightarrow> price_db \<Rightarrow> millis option" where
  "last_alert_at item region db =
     max_time (map al_observed_at (filter (\<lambda>a. al_item a = item \<and> al_region a = region) (pd_alerts db)))"

text \<open>The rows are numbered as they are inserted, so the later of two alerts of one instant comes first.\<close>

definition recent_alerts :: "nat \<Rightarrow> price_db \<Rightarrow> alert list" where
  "recent_alerts limit db = take limit (rev (sort_key al_observed_at (pd_alerts db)))"

definition prune_samples_before :: "millis \<Rightarrow> price_db \<Rightarrow> nat \<times> price_db" where
  "prune_samples_before before db =
     (length (filter (\<lambda>s. sm_observed_at s < before) (pd_samples db)),
      db\<lparr> pd_samples := filter (\<lambda>s. \<not> sm_observed_at s < before) (pd_samples db) \<rparr>)"

definition record_ladders :: "region \<Rightarrow> millis \<Rightarrow> (itemid \<times> ladder) list \<Rightarrow> price_db \<Rightarrow> nat \<times> price_db" where
  "record_ladders region at_time ladders db =
     (if ladders = [] then (0, db)
      else let (k, ls) = fold (insert_new ladder_key)
             (map (ladder_to_row region at_time) (filter (\<lambda>e. \<not> ladder_is_empty (snd e)) ladders)) (0, pd_ladders db)
           in (k, db\<lparr> pd_ladders := ls \<rparr>))"

definition latest_ladders :: "region \<Rightarrow> price_db \<Rightarrow> (itemid \<times> millis \<times> ladder) list" where
  "latest_ladders region db =
     (let rows = filter (\<lambda>r. lr_region r = region) (pd_ladders db) in
      map (\<lambda>r. (lr_item r, lr_observed_at r, decode_ladder (lr_steps r)))
        (sort_key lr_item
          (filter (\<lambda>r. max_time (map lr_observed_at (filter (\<lambda>q. lr_item q = lr_item r) rows)) = Some (lr_observed_at r)) rows)))"

definition prune_ladders_before :: "millis \<Rightarrow> price_db \<Rightarrow> nat \<times> price_db" where
  "prune_ladders_before before db =
     (length (filter (\<lambda>r. lr_observed_at r < before) (pd_ladders db)),
      db\<lparr> pd_ladders := filter (\<lambda>r. \<not> lr_observed_at r < before) (pd_ladders db) \<rparr>)"

section \<open>The collector\<close>

datatype commodity_snapshot = NotModified | Fresh millis "listing list"

datatype outcome =
    OutcomeNotModified
  | NoActiveCatalog
  | AlreadyRecorded
  | Collected nat nat nat "alert list"

record report =
  rp_region :: region
  rp_generated_at :: millis
  rp_outcome :: outcome

record collection =
  co_db :: price_db
  co_faults :: "bool list"
  co_sent :: "(alert \<times> string) list"

definition db_answers :: "collection \<Rightarrow> bool \<times> collection" where
  "db_answers st = (case co_faults st of [] \<Rightarrow> (True, st) | f # fs \<Rightarrow> (\<not> f, st\<lparr> co_faults := fs \<rparr>))"

definition group_item :: "listing \<Rightarrow> (itemid, listing list) btree \<Rightarrow> (itemid, listing list) btree" where
  "group_item l m = bt_insert (l_item l) ((case bt_get m (l_item l) of Some ls \<Rightarrow> ls | None \<Rightarrow> []) @ [l]) m"

definition summarise_all :: "region \<Rightarrow> millis \<Rightarrow> listing list \<Rightarrow> price_sample list \<times> (itemid \<times> ladder) list" where
  "summarise_all region at_time listings =
     (let es = List.map_filter (\<lambda>(item, group).
            map_option (\<lambda>stats. (into_sample stats item region at_time, item, ladder_of group)) (summarise group))
          (fold group_item listings [])
      in (map fst es, map snd es))"

definition tracked_items :: "catalog \<Rightarrow> item_kind list \<Rightarrow> itemid list" where
  "tracked_items c skip =
     concat (map item_ids (filter (\<lambda>i. is_commodity (ci_kind i) \<and> ci_kind i \<notin> set skip) (cg_items c)))"

text \<open>One turn of the loop over the samples: nothing is raised, or one alert is recorded and then published.\<close>

definition raise_one :: "catalog \<Rightarrow> alert_rule \<Rightarrow> millis \<Rightarrow> price_sample \<Rightarrow> collection \<Rightarrow>
    (app_error + alert option) \<times> collection" where
  "raise_one c rule now sample st =
     (case bt_get (catalog_index c) (sm_item sample) of
        None \<Rightarrow> (Inr None, st)
      | Some entry \<Rightarrow>
          (case db_answers st of
             (False, st) \<Rightarrow> (Inl (App_Repo Repo_Backend), st)
           | (True, st) \<Rightarrow>
               if (case last_alert_at (sm_item sample) (sm_region sample) (co_db st) of
                     Some lst \<Rightarrow> since now lst < ar_cooldown_ms rule | None \<Rightarrow> False)
               then (Inr None, st)
               else (case db_answers st of
                  (False, st) \<Rightarrow> (Inl (App_Repo Repo_Backend), st)
                | (True, st) \<Rightarrow>
                    let history = price_history (sm_item sample) (sm_region sample) (now - ar_lookback_ms rule) (co_db st);
                        baseline = filter (\<lambda>s. sm_observed_at s \<noteq> sm_observed_at sample) history
                    in case evaluate rule sample baseline (ci_floor_copper entry) of
                         None \<Rightarrow> (Inr None, st)
                       | Some alert \<Rightarrow>
                           (case db_answers st of
                              (False, st) \<Rightarrow> (Inl (App_Repo Repo_Backend), st)
                            | (True, st) \<Rightarrow>
                                (Inr (Some alert),
                                 st\<lparr> co_db := record_alert alert (co_db st),
                                     co_sent := co_sent st @ [(alert, display_name entry (sm_item sample))] \<rparr>)))))"

fun raise_alerts :: "catalog \<Rightarrow> alert_rule \<Rightarrow> millis \<Rightarrow> price_sample list \<Rightarrow> alert list \<Rightarrow> collection \<Rightarrow>
    (app_error + alert list) \<times> collection" where
  "raise_alerts c rule now [] raised st = (Inr raised, st)"
| "raise_alerts c rule now (s # ss) raised st =
     (case raise_one c rule now s st of
        (Inl e, st) \<Rightarrow> (Inl e, st)
      | (Inr None, st) \<Rightarrow> raise_alerts c rule now ss raised st
      | (Inr (Some a), st) \<Rightarrow> raise_alerts c rule now ss (raised @ [a]) st)"

definition collect_fresh :: "catalog \<Rightarrow> alert_rule \<Rightarrow> region \<Rightarrow> millis \<Rightarrow> listing list \<Rightarrow> collection \<Rightarrow>
    (app_error + report) \<times> collection" where
  "collect_fresh c rule region at_time listings st =
     (let (samples, ladders) = summarise_all region at_time listings in
      case db_answers st of
        (False, st) \<Rightarrow> (Inl (App_Repo Repo_Backend), st)
      | (True, st) \<Rightarrow>
          let ((written, ladder_rows), db) = record_snapshot samples region at_time ladders (co_db st);
              st = st\<lparr> co_db := db \<rparr>
          in if written = 0 \<and> samples \<noteq> []
             then (Inr \<lparr> rp_region = region, rp_generated_at = at_time, rp_outcome = AlreadyRecorded \<rparr>, st)
             else (case raise_alerts c rule at_time samples [] st of
                     (Inl e, st) \<Rightarrow> (Inl e, st)
                   | (Inr alerts, st) \<Rightarrow>
                       (Inr \<lparr> rp_region = region, rp_generated_at = at_time,
                              rp_outcome = Collected (length samples) written ladder_rows alerts \<rparr>, st)))"

definition collect_round :: "(region \<Rightarrow> itemid list \<Rightarrow> millis option \<Rightarrow> app_error + commodity_snapshot) \<Rightarrow> catalog \<Rightarrow> alert_rule \<Rightarrow>
    item_kind list \<Rightarrow> region \<Rightarrow> millis \<Rightarrow> collection \<Rightarrow> (app_error + report) \<times> collection" where
  "collect_round provider c rule skip region now st =
     (case db_answers st of
        (False, st) \<Rightarrow> (Inl (App_Repo Repo_Backend), st)
      | (True, st) \<Rightarrow>
          let from_time = last_observed region (co_db st) in
          case provider region (tracked_items c skip) from_time of
            Inl e \<Rightarrow> (Inl e, st)
          | Inr NotModified \<Rightarrow>
              (Inr \<lparr> rp_region = region, rp_generated_at = (case from_time of Some t \<Rightarrow> t | None \<Rightarrow> now),
                     rp_outcome = OutcomeNotModified \<rparr>, st)
          | Inr (Fresh generated_at listings) \<Rightarrow>
              collect_fresh c rule region (if generated_at = 0 then now else generated_at) listings st)"

section \<open>What a collection writes\<close>

lemma db_answers_db [simp]: "db_answers st = (b, st') \<Longrightarrow> co_db st' = co_db st \<and> co_sent st' = co_sent st"
  by (auto simp: db_answers_def split: list.splits)

lemma insert_new_all:
  "\<exists>new. snd (fold (insert_new key) rs p) = snd p @ new \<and> key ` set rs \<subseteq> key ` set (snd p @ new) \<and>
     fst (fold (insert_new key) rs p) = fst p + length new \<and>
     (distinct (map key (snd p)) \<longrightarrow> distinct (map key (snd p @ new)))"
proof (induction rs arbitrary: p)
  case (Cons r rs)
  let ?p = "insert_new key r p"
  obtain new where new: "snd (fold (insert_new key) rs ?p) = snd ?p @ new"
    "key ` set rs \<subseteq> key ` set (snd ?p @ new)" "fst (fold (insert_new key) rs ?p) = fst ?p + length new"
    "distinct (map key (snd ?p)) \<longrightarrow> distinct (map key (snd ?p @ new))" using Cons.IH by blast
  show ?case
  proof (cases "key r \<in> key ` set (snd p)")
    case True
    then have "?p = p" by (simp add: insert_new_def)
    then show ?thesis using new True by (intro exI [of _ new]) auto
  next
    case False
    then have "?p = (fst p + 1, snd p @ [r])" by (simp add: insert_new_def)
    then show ?thesis using new False by (intro exI [of _ "r # new"]) auto
  qed
qed simp

lemma insert_new_none:
  "key ` set rs \<subseteq> key ` set (snd p) \<Longrightarrow> fold (insert_new key) rs p = p"
  by (induction rs) (auto simp: insert_new_def)

lemma raise_one_db:
  assumes "raise_one c rule now s st = (r, st')"
  shows "(co_db st' = co_db st \<and> co_sent st' = co_sent st \<and> (\<forall>a. r \<noteq> Inr (Some a))) \<or>
    (\<exists>a name h fl. r = Inr (Some a) \<and> evaluate rule s h fl = Some a \<and>
       co_db st' = record_alert a (co_db st) \<and> co_sent st' = co_sent st @ [(a, name)] \<and>
       \<not> (case last_alert_at (sm_item s) (sm_region s) (co_db st) of
             Some lst \<Rightarrow> since now lst < ar_cooldown_ms rule | None \<Rightarrow> False))"
  using assms unfolding raise_one_def
  by (auto simp: Let_def split: option.splits prod.splits bool.splits if_splits dest!: db_answers_db)

lemma evaluate_built:
  "evaluate rule s h fl = Some a \<Longrightarrow>
     al_item a = sm_item s \<and> al_region a = sm_region s \<and> al_observed_at a = sm_observed_at s"
  by (auto simp: evaluate_def evaluate_history_def build_alert_def bind_eq_Some_conv split: option.splits if_splits)

lemma max_time_ge: "max_time ts = Some m \<Longrightarrow> t \<in> set ts \<Longrightarrow> t \<le> m"
  by (auto simp: max_time_def split: if_splits)

lemma max_time_ex: "t \<in> set ts \<Longrightarrow> \<exists>m. max_time ts = Some m"
  by (cases ts) (auto simp: max_time_def)

definition spaced :: "nat \<Rightarrow> alert list \<Rightarrow> bool" where
  "spaced d as \<longleftrightarrow> sorted_wrt (\<lambda>a b. al_item a = al_item b \<longrightarrow> al_region a = al_region b \<longrightarrow>
     al_observed_at a + d \<le> al_observed_at b) as"

definition alerts_ok :: "nat \<Rightarrow> collection \<Rightarrow> bool" where
  "alerts_ok d st \<longleftrightarrow> spaced d (pd_alerts (co_db st)) \<and> map fst (co_sent st) = pd_alerts (co_db st)"

lemma raise_one_rows:
  "raise_one c rule now s st = (r, st') \<Longrightarrow>
     pd_samples (co_db st') = pd_samples (co_db st) \<and> pd_ladders (co_db st') = pd_ladders (co_db st)"
  by (drule raise_one_db) (auto simp: record_alert_def)

lemma raise_alerts_rows:
  "raise_alerts c rule now ss raised st = (r, st') \<Longrightarrow>
     pd_samples (co_db st') = pd_samples (co_db st) \<and> pd_ladders (co_db st') = pd_ladders (co_db st)"
proof (induction ss arbitrary: raised st)
  case (Cons s ss)
  obtain r1 st1 where one: "raise_one c rule now s st = (r1, st1)" by fastforce
  show ?case using Cons.prems one Cons.IH [of _ st1] raise_one_rows [OF one] by (auto split: sum.splits option.splits)
qed auto

lemma raise_one_ok:
  assumes "raise_one c rule now s st = (r, st')" "sm_observed_at s = now" "0 < ar_cooldown_ms rule"
    "alerts_ok (ar_cooldown_ms rule) st"
  shows "alerts_ok (ar_cooldown_ms rule) st'"
  using raise_one_db [OF assms(1)]
proof
  assume "\<exists>a name h fl. r = Inr (Some a) \<and> evaluate rule s h fl = Some a \<and>
       co_db st' = record_alert a (co_db st) \<and> co_sent st' = co_sent st @ [(a, name)] \<and>
       \<not> (case last_alert_at (sm_item s) (sm_region s) (co_db st) of
             Some lst \<Rightarrow> since now lst < ar_cooldown_ms rule | None \<Rightarrow> False)"
  then obtain a name h fl where a: "evaluate rule s h fl = Some a" "co_db st' = record_alert a (co_db st)"
    "co_sent st' = co_sent st @ [(a, name)]"
    "\<not> (case last_alert_at (sm_item s) (sm_region s) (co_db st) of
             Some lst \<Rightarrow> since now lst < ar_cooldown_ms rule | None \<Rightarrow> False)" by blast
  note b = evaluate_built [OF a(1)]
  have "al_observed_at x + ar_cooldown_ms rule \<le> al_observed_at a"
    if "x \<in> set (pd_alerts (co_db st))" "al_item x = al_item a" "al_region x = al_region a" for x
  proof -
    let ?ts = "map al_observed_at (filter (\<lambda>a. al_item a = sm_item s \<and> al_region a = sm_region s) (pd_alerts (co_db st)))"
    have x: "al_observed_at x \<in> set ?ts" using that b by auto
    then obtain m where m: "max_time ?ts = Some m" using max_time_ex by metis
    then have "ar_cooldown_ms rule \<le> now - m" using a(4) by (simp add: last_alert_at_def since_def)
    then show ?thesis using max_time_ge [OF m x] assms(2,3) b by simp
  qed
  then show ?thesis
    using a(2,3) assms(4) by (auto simp: alerts_ok_def spaced_def record_alert_def sorted_wrt_append)
qed (use assms(4) in \<open>auto simp: alerts_ok_def\<close>)

lemma raise_alerts_ok:
  assumes "raise_alerts c rule now ss raised st = (r, st')" "\<forall>s\<in>set ss. sm_observed_at s = now" "0 < ar_cooldown_ms rule"
    "alerts_ok (ar_cooldown_ms rule) st"
  shows "alerts_ok (ar_cooldown_ms rule) st'"
  using assms
proof (induction ss arbitrary: raised st)
  case (Cons s ss)
  obtain r1 st1 where one: "raise_one c rule now s st = (r1, st1)" by fastforce
  note ok = raise_one_ok [OF one _ Cons.prems(3,4)]
  have ok1: "alerts_ok (ar_cooldown_ms rule) st1" using ok Cons.prems(2) by auto
  show ?case
    using Cons.prems(1) one ok1 Cons.IH [of _ st1] Cons.prems(2,3)
    by (auto split: sum.splits option.splits)
qed auto

section \<open>The tables over time\<close>

definition prices_ok :: "nat \<Rightarrow> collection \<Rightarrow> bool" where
  "prices_ok d st \<longleftrightarrow> alerts_ok d st \<and> distinct (map sample_key (pd_samples (co_db st))) \<and>
     distinct (map ladder_key (pd_ladders (co_db st)))"

text \<open>
  What the deployment does to the tables under one rule: rounds of collection, for any region, catalogue,
  provider and pattern of database faults, and the two deletions of the retention policy.
\<close>

inductive collecting :: "alert_rule \<Rightarrow> collection \<Rightarrow> bool" for rule where
  start: "co_db st = empty_prices \<Longrightarrow> co_sent st = [] \<Longrightarrow> collecting rule st"
| round: "collecting rule st \<Longrightarrow> collect_round provider c rule skip region now st = (r, st') \<Longrightarrow> collecting rule st'"
| prune: "collecting rule st \<Longrightarrow> collecting rule (st\<lparr> co_db := snd (prune_samples_before t (co_db st)) \<rparr>)"
| prune_ladders: "collecting rule st \<Longrightarrow> collecting rule (st\<lparr> co_db := snd (prune_ladders_before t (co_db st)) \<rparr>)"

lemma record_snapshot_rows:
  assumes "record_snapshot ss region at_time ls db = ((n, k), db')"
  obtains new newl where "pd_samples db' = pd_samples db @ new" "n = length new"
    "sample_key ` set ss \<subseteq> sample_key ` set (pd_samples db')" "pd_ladders db' = pd_ladders db @ newl" "k = length newl"
    "ladder_key ` set (map (ladder_to_row region at_time) (filter (\<lambda>e. \<not> ladder_is_empty (snd e)) ls))
       \<subseteq> ladder_key ` set (pd_ladders db')"
    "pd_alerts db' = pd_alerts db"
    "distinct (map sample_key (pd_samples db)) \<longrightarrow> distinct (map sample_key (pd_samples db'))"
    "distinct (map ladder_key (pd_ladders db)) \<longrightarrow> distinct (map ladder_key (pd_ladders db'))"
  using assms insert_new_all [of sample_key ss "(0, pd_samples db)"]
    insert_new_all [of ladder_key "map (ladder_to_row region at_time) (filter (\<lambda>e. \<not> ladder_is_empty (snd e)) ls)" "(0, pd_ladders db)"]
  unfolding record_snapshot_def by (auto simp: Let_def split: prod.splits)

lemma distinct_map_filterI: "distinct (map f xs) \<Longrightarrow> distinct (map f (filter P xs))"
  by (induction xs) auto

lemma summarise_all_stamp:
  "s \<in> set (fst (summarise_all region at_time ls)) \<Longrightarrow> sm_observed_at s = at_time \<and> sm_region s = region"
  by (auto simp: summarise_all_def Let_def map_filter_def into_sample_def)

lemma collect_fresh_ok:
  assumes "collect_fresh c rule region at_time ls st = (r, st')" "0 < ar_cooldown_ms rule" "prices_ok (ar_cooldown_ms rule) st"
  shows "prices_ok (ar_cooldown_ms rule) st'"
proof -
  obtain ss lad where sum: "summarise_all region at_time ls = (ss, lad)" by fastforce
  have stamp: "\<forall>s\<in>set ss. sm_observed_at s = at_time" using summarise_all_stamp [of _ region at_time ls] sum by simp
  obtain b st0 where ok: "db_answers st = (b, st0)" by fastforce
  note same = db_answers_db [OF ok]
  show ?thesis
  proof (cases b)
    case True
    obtain n k db where rec: "record_snapshot ss region at_time lad (co_db st0) = ((n, k), db)" by (metis prod.exhaust)
    let ?st = "st0\<lparr> co_db := db \<rparr>"
    have st: "prices_ok (ar_cooldown_ms rule) ?st"
      by (rule record_snapshot_rows [OF rec]) (use assms(3) same in \<open>simp add: prices_ok_def alerts_ok_def\<close>)
    obtain q st1 where raised: "raise_alerts c rule at_time ss [] ?st = (q, st1)" by fastforce
    have "prices_ok (ar_cooldown_ms rule) st1"
      using raise_alerts_ok [OF raised stamp assms(2)] raise_alerts_rows [OF raised] st by (simp add: prices_ok_def)
    then show ?thesis
      using assms(1) st True sum ok rec raised unfolding collect_fresh_def
      by (auto simp: Let_def split: sum.splits if_splits)
  qed (use assms(1,3) sum ok same in \<open>auto simp: collect_fresh_def prices_ok_def alerts_ok_def\<close>)
qed

lemma collect_round_ok:
  assumes "collect_round provider c rule skip region now st = (r, st')" "0 < ar_cooldown_ms rule" "prices_ok (ar_cooldown_ms rule) st"
  shows "prices_ok (ar_cooldown_ms rule) st'"
proof -
  obtain b st0 where ok: "db_answers st = (b, st0)" by fastforce
  then have st0: "prices_ok (ar_cooldown_ms rule) st0" using db_answers_db [OF ok] assms(3) by (simp add: prices_ok_def alerts_ok_def)
  then show ?thesis
    using assms(1) ok collect_fresh_ok [OF _ assms(2) st0] unfolding collect_round_def
    by (auto simp: Let_def split: sum.splits commodity_snapshot.splits bool.splits)
qed

lemma collecting_ok: "collecting rule st \<Longrightarrow> 0 < ar_cooldown_ms rule \<Longrightarrow> prices_ok (ar_cooldown_ms rule) st"
proof (induction rule: collecting.induct)
  case (round st provider c skip region now r st')
  then show ?case using collect_round_ok by blast
qed (simp_all add: prices_ok_def alerts_ok_def spaced_def empty_prices_def prune_samples_before_def prune_ladders_before_def
    distinct_map_filterI)

lemma empty_samples: "fst (summarise_all region at_time ls) = [] \<longleftrightarrow> snd (summarise_all region at_time ls) = []"
  by (simp add: summarise_all_def Let_def)

lemma record_again:
  assumes "sample_key ` set ss \<subseteq> sample_key ` set (pd_samples db)"
    "ladder_key ` set (map (ladder_to_row region at_time) (filter (\<lambda>e. \<not> ladder_is_empty (snd e)) lad))
       \<subseteq> ladder_key ` set (pd_ladders db)"
  shows "record_snapshot ss region at_time lad db = ((0, 0), db)"
proof -
  let ?rows = "map (ladder_to_row region at_time) (filter (\<lambda>e. \<not> ladder_is_empty (snd e)) lad)"
  have "fold (insert_new sample_key) ss (0, pd_samples db) = (0, pd_samples db)"
    by (rule insert_new_none) (simp only: snd_conv assms(1))
  moreover have "fold (insert_new ladder_key) ?rows (0, pd_ladders db) = (0, pd_ladders db)"
    by (rule insert_new_none) (simp only: snd_conv assms(2))
  ultimately show ?thesis by (simp add: record_snapshot_def)
qed

lemma alert_window_tame:
  assumes "\<forall>s\<in>set history. sm_p05 s \<le> 2 ^ 53" "length history \<le> 2 ^ 53"
  shows "tame (b_prices (alert_window rule current history))"
proof -
  let ?obs = "map (\<lambda>s. (sm_observed_at s, sm_p05 s))
       (filter (\<lambda>s. since (sm_observed_at current) (sm_observed_at s) \<le> ar_lookback_ms rule) history)"
  have "length (b_prices (from_observations ?obs)) \<le> length history"
    by (rule order_trans [OF bucket_count_le]) simp
  moreover have "p \<le> 2 ^ 53" if "p \<in> set (b_prices (from_observations ?obs))" for p
    using bucket_price_in [OF that] assms(1) by auto
  ultimately show ?thesis using assms(2) by (auto simp: alert_window_def tame_def from_observations_def)
qed

lemma percent_fraction_mono: "a \<le> b \<Longrightarrow> percent_fraction a \<le> percent_fraction b"
  unfolding percent_fraction_def by (intro f64_mono divide_right_mono f64_mono) (simp_all add: f64_nonneg)

lemma percent_fraction_half: "percent_fraction 50 = f64 (1 / 2)"
proof -
  have "f64 (of_nat 50) = of_nat 50" "f64 (of_nat 100) = of_nat 100" by (rule f64_nat; simp)+
  then show ?thesis by (simp add: percent_fraction_def)
qed

lemma alert_discount_le: "alert_discount b c \<le> 100"
  by (simp add: alert_discount_def)

lemma alert_discount_exact: "b \<le> 2 ^ 57 \<Longrightarrow> 0 < b \<Longrightarrow> alert_discount b c = (b - c) * 100 div b"
  using percent_le [of "b - c" b] by (simp add: alert_discount_def wrap64_def)

definition of_item :: "itemid \<Rightarrow> listing list \<Rightarrow> listing list" where
  "of_item i ls = filter (\<lambda>l. l_item l = i) ls"

lemma group_get:
  "bt_wf (fold group_item ls []) \<and> bt_get (fold group_item ls []) i = (if of_item i ls = [] then None else Some (of_item i ls))"
proof (induction ls arbitrary: i rule: rev_induct)
  case (snoc l ls)
  then show ?case by (simp add: group_item_def of_item_def)
qed (simp add: of_item_def)

lemma group_entries: "fold group_item ls [] = map (\<lambda>i. (i, of_item i ls)) (sorted_list_of_set (l_item ` set ls))"
proof -
  let ?m = "fold group_item ls []"
  have wf: "bt_wf ?m" using group_get by blast
  have "set (bt_keys ?m) = l_item ` set ls"
    using group_get [of ls] by (auto simp: bt_keys_get of_item_def filter_empty_conv split: if_splits)
  then have keys: "bt_keys ?m = sorted_list_of_set (l_item ` set ls)" using bt_keys_sorted [OF wf] by simp
  have "e = (fst e, of_item (fst e) ls)" if "e \<in> set ?m" for e
    using bt_get_iff_entry [OF wf, of "fst e" "snd e"] that group_get [of ls "fst e"] by (cases e) (auto split: if_splits)
  then have "?m = map (\<lambda>i. (i, of_item i ls)) (map fst ?m)" by (simp add: map_idI)
  then show ?thesis unfolding keys [unfolded bt_keys_def] .
qed

section \<open>Properties\<close>

lemma evaluate_history_built:
  assumes "evaluate_history rule current window = Some a" "tame (b_prices window)" "ar_percentile rule \<le> 50"
  shows "al_current a = sm_p05 current \<and> al_current a \<le> al_threshold a \<and> al_threshold a \<le> al_baseline a \<and>
    al_discount_percent a = alert_discount (al_baseline a) (al_current a) \<and> ar_min_samples rule \<le> b_len window \<and>
    quantile window (percent_fraction (ar_percentile rule)) = Some (al_threshold a) \<and>
    quantile window (f64 (1 / 2)) = Some (al_baseline a)"
proof -
  obtain th base sev where q: "quantile window (percent_fraction (ar_percentile rule)) = Some th"
    "quantile window (f64 (1 / 2)) = Some base" "\<not> th < sm_p05 current" "\<not> b_len window < ar_min_samples rule"
    "a = build_alert current th base sev"
    using assms(1) by (auto simp: evaluate_history_def bind_eq_Some_conv split: if_splits)
  have "percent_fraction (ar_percentile rule) \<le> f64 (1 / 2)"
    using percent_fraction_mono [OF assms(3)] percent_fraction_half by simp
  then have "th \<le> base" by (rule quantile_mono [OF assms(2) _ q(1,2)])
  then show ?thesis using q by (simp add: build_alert_def)
qed

lemma evaluate_history_None:
  "evaluate_history rule current window = None \<longleftrightarrow> b_len window < ar_min_samples rule \<or> b_len window = 0 \<or>
     (\<exists>t. quantile window (percent_fraction (ar_percentile rule)) = Some t \<and> t < sm_p05 current)"
proof (cases "b_len window = 0")
  case True
  then show ?thesis by (simp add: evaluate_history_def quantile_def Let_def)
next
  case False
  then have "quantile window p \<noteq> None" for p using quantile_None [of window p] by (simp add: b_len_def)
  then have some: "\<exists>t. quantile window p = Some t" for p by blast
  obtain t b v where "quantile window (percent_fraction (ar_percentile rule)) = Some t" "quantile window (f64 (1 / 2)) = Some b"
    "quantile window (percent_fraction (max (ar_percentile rule div 2) 1)) = Some v" using some by blast
  then show ?thesis using False by (simp add: evaluate_history_def)
qed

definition under_floor :: "price_sample \<Rightarrow> copper option \<Rightarrow> bool" where
  "under_floor s floor_price \<longleftrightarrow> (\<exists>f. floor_price = Some f \<and> sm_p05 s \<le> f)"

text \<open>
  C35: What an alert says. No alert is raised for a thin market, nor above the item's hard floor while the
  window has fewer hours than the rule asks for, is empty, or has its threshold below the price; and in every
  other case one is raised. An alert's price is at most its threshold, which is at most the baseline the
  reader is shown: the hard floor, or quantiles of at least as many hours as the rule asks for. The discount
  is at most 100 percent, and is the discount from the baseline for every baseline up to \<open>2 ^ 57\<close> copper
  (above that the product is cut to 64 bits). The rule's percentile is at most 50, as the default of 10 is.
\<close>

theorem alert_means_cheap:
  assumes "\<forall>h\<in>set history. sm_p05 h \<le> 2 ^ 53" "length history \<le> 2 ^ 53" "ar_percentile rule \<le> 50"
  shows "(evaluate rule s history floor_price = None \<longleftrightarrow>
      sm_quantity s < ar_min_quantity rule \<or> \<not> under_floor s floor_price \<and>
        (b_len (alert_window rule s history) < ar_min_samples rule \<or> b_len (alert_window rule s history) = 0 \<or>
         (\<exists>t. quantile (alert_window rule s history) (percent_fraction (ar_percentile rule)) = Some t \<and> t < sm_p05 s))) \<and>
    (\<forall>a. evaluate rule s history floor_price = Some a \<longrightarrow>
      al_current a = sm_p05 s \<and> al_current a \<le> al_threshold a \<and> al_threshold a \<le> al_baseline a \<and>
      al_discount_percent a \<le> 100 \<and>
      (0 < al_baseline a \<and> al_baseline a \<le> 2 ^ 57 \<longrightarrow>
        al_discount_percent a = (al_baseline a - al_current a) * 100 div al_baseline a) \<and>
      (if under_floor s floor_price then al_severity a = VeryLow \<and> floor_price = Some (al_baseline a)
       else ar_min_samples rule \<le> b_len (alert_window rule s history) \<and>
         quantile (alert_window rule s history) (percent_fraction (ar_percentile rule)) = Some (al_threshold a) \<and>
         quantile (alert_window rule s history) (f64 (1 / 2)) = Some (al_baseline a)))"
    (is "?silent \<and> (\<forall>a. _ \<longrightarrow> ?says a)")
proof (rule conjI [OF _ allI [OF impI]])
  let ?window = "alert_window rule s history"
  have eq: "evaluate rule s history floor_price =
    (if sm_quantity s < ar_min_quantity rule then None
     else if under_floor s floor_price then Some (build_alert s (the floor_price) (the floor_price) VeryLow)
     else evaluate_history rule s ?window)"
    by (auto simp: evaluate_def under_floor_def split: option.splits)
  show ?silent unfolding eq by (simp add: evaluate_history_None)
  fix a assume a: "evaluate rule s history floor_price = Some a"
  have tame: "tame (b_prices ?window)" by (rule alert_window_tame [OF assms(1,2)])
  show "?says a"
  proof (cases "under_floor s floor_price")
    case True
    then show ?thesis
      using a alert_discount_exact alert_discount_le unfolding eq under_floor_def by (auto simp: build_alert_def split: if_splits)
  next
    case False
    then have "evaluate_history rule s ?window = Some a" using a unfolding eq by (simp split: if_splits)
    from evaluate_history_built [OF this tame assms(3)] show ?thesis
      using False by (simp add: alert_discount_exact alert_discount_le)
  qed
qed

text \<open>
  Grouping. The samples of a snapshot are those of its items in ascending order, each the summary of
  exactly the listings of that item, in the order they were listed; an item none of whose listings has a unit
  has neither a sample nor a ladder, and every other has both.
\<close>

lemma summarised_per_item:
  "summarise_all region t ls =
    (let items = filter (\<lambda>i. summarise (of_item i ls) \<noteq> None) (sorted_list_of_set (l_item ` set ls)) in
     (map (\<lambda>i. into_sample (the (summarise (of_item i ls))) i region t) items, map (\<lambda>i. (i, ladder_of (of_item i ls))) items))"
  by (auto simp: summarise_all_def group_entries Let_def map_filter_def o_def filter_map)

text \<open>
  C34: Collecting a snapshot twice. Once a round has stored a snapshot - whether it then raised its alerts or
  failed on the way - a later round that is given the same snapshot changes no table, publishes nothing and
  answers \<open>AlreadyRecorded\<close> (or a collection of nothing, when no item of the snapshot had a unit for sale). A
  retried job is harmless, as the module says; by the same token the alerts that a failed round had still to
  raise are never raised.
\<close>

theorem collection_idempotent:
  assumes "provider region (tracked_items c skip) (last_observed region (co_db st)) = Inr (Fresh t ls)"
    "provider region (tracked_items c skip) (last_observed region (co_db st')) = Inr (Fresh t ls)" "t \<noteq> 0"
    "collect_round provider c rule skip region now (st\<lparr> co_faults := False # False # fs \<rparr>) = (r, st')"
  shows "collect_round provider c rule skip region now' (st'\<lparr> co_faults := False # False # fs' \<rparr>) =
     (Inr \<lparr> rp_region = region, rp_generated_at = t,
        rp_outcome = (if fst (summarise_all region t ls) = [] then Collected 0 0 0 [] else AlreadyRecorded) \<rparr>,
      st'\<lparr> co_faults := fs' \<rparr>)"
proof -
  obtain ss lad where sum: "summarise_all region t ls = (ss, lad)" by fastforce
  obtain n k db where rec: "record_snapshot ss region t lad (co_db st) = ((n, k), db)" by (metis prod.exhaust)
  let ?st = "st\<lparr> co_faults := fs, co_db := db \<rparr>"
  obtain q st1 where raised: "raise_alerts c rule t ss [] ?st = (q, st1)" by fastforce
  have first: "st' = ?st \<or> st' = st1"
    using assms(1,3,4) sum rec raised by (auto simp: collect_round_def collect_fresh_def db_answers_def Let_def split: if_splits sum.splits)
  have rows: "pd_samples (co_db st') = pd_samples db" "pd_ladders (co_db st') = pd_ladders db"
    using first raise_alerts_rows [OF raised] by auto
  have again: "record_snapshot ss region t lad (co_db st') = ((0, 0), co_db st')"
    by (rule record_snapshot_rows [OF rec], rule record_again) (simp_all only: rows)
  have "ss = [] \<longleftrightarrow> lad = []" using empty_samples [of region t ls] sum by simp
  then show ?thesis
    using assms(2,3) sum again by (auto simp: collect_round_def collect_fresh_def db_answers_def Let_def)
qed

text \<open>
  C33: Alerts keep their distance. Over any sequence of rounds and prunings, two alerts recorded for one item
  and region are at least a cool-down apart, in the order they were recorded; the sink was handed exactly the
  recorded alerts, in that order; and no item has two samples or two ladders for one instant.
\<close>

theorem alerts_respect_cooldown:
  assumes "collecting rule st" "0 < ar_cooldown_ms rule"
  shows "spaced (ar_cooldown_ms rule) (pd_alerts (co_db st)) \<and> map fst (co_sent st) = pd_alerts (co_db st) \<and>
    distinct (map sample_key (pd_samples (co_db st))) \<and> distinct (map ladder_key (pd_ladders (co_db st)))"
  using collecting_ok [OF assms] by (simp add: prices_ok_def alerts_ok_def)

section \<open>Examples\<close>

text \<open>A potion with a hard floor of 100 copper, sold at 80 in the snapshot of one hour.\<close>

definition demo_floor_catalog :: catalog where
  "demo_floor_catalog = demo_catalog\<lparr> cg_items := [demo_potion\<lparr> ci_floor_copper := Some 100, ci_ranks := [\<lparr> ir_rank = 1, ir_item_id = 5 \<rparr>] \<rparr>] \<rparr>"

definition hour_listings :: "listing list" where
  "hour_listings = [\<lparr> l_item = 5, l_unit_price = 80, l_quantity = 40 \<rparr>]"

definition demo_sample :: "millis \<Rightarrow> price_sample" where
  "demo_sample t = \<lparr> sm_item = 5, sm_region = Eu, sm_observed_at = t, sm_min = 80, sm_p05 = 80, sm_median = 80,
     sm_quantity = 40, sm_listings = 1 \<rparr>"

definition demo_feed :: "region \<Rightarrow> itemid list \<Rightarrow> millis option \<Rightarrow> app_error + commodity_snapshot" where
  "demo_feed region tracked since_time = Inr (Fresh 1000 hour_listings)"

definition demo_alert :: alert where
  "demo_alert = \<lparr> al_item = 5, al_region = Eu, al_severity = VeryLow, al_observed_at = 1000, al_current = 80,
     al_baseline = 100, al_threshold = 100, al_discount_percent = 20, al_quantity = 40 \<rparr>"

definition no_prices :: "bool list \<Rightarrow> collection" where
  "no_prices fs = \<lparr> co_db = empty_prices, co_faults = fs, co_sent = [] \<rparr>"

lemma demo_summary:
  "summarise_all Eu 1000 hour_listings = ([demo_sample 1000], [(5, ladder_of hour_listings)])"
  by (simp add: summarise_all_def hour_listings_def group_item_def map_filter_simps summarise_def into_sample_def demo_sample_def
      sum_quantity_def quantile_price_def div_ceil_def wrap64_def Let_def)

lemma demo_index: "catalog_index demo_floor_catalog = [(5, hd (cg_items demo_floor_catalog))]"
  by (simp add: catalog_index_def demo_floor_catalog_def demo_catalog_def item_ids_def demo_potion_def)

lemma demo_evaluate: "evaluate default_alert_rule (demo_sample 1000) h (Some 100) = Some demo_alert"
  by (simp add: evaluate_def default_alert_rule_def demo_sample_def build_alert_def alert_discount_def wrap64_def demo_alert_def)

lemma demo_raise:
  "pd_alerts (co_db st) = [] \<Longrightarrow> co_faults st = [] \<Longrightarrow>
   raise_alerts demo_floor_catalog default_alert_rule 1000 [demo_sample 1000] [] st =
     (Inr [demo_alert], st\<lparr> co_db := record_alert demo_alert (co_db st), co_sent := co_sent st @ [(demo_alert, ''Healing Potion'')] \<rparr>)"
proof -
  assume st: "pd_alerts (co_db st) = []" "co_faults st = []"
  let ?e = "hd (cg_items demo_floor_catalog)"
  have e: "ci_floor_copper ?e = Some 100" "display_name ?e 5 = ''Healing Potion''"
    by (simp_all add: demo_floor_catalog_def display_name_def item_rank_of_def demo_potion_def)
  have s: "sm_item (demo_sample 1000) = 5" by (simp add: demo_sample_def)
  have "raise_one demo_floor_catalog default_alert_rule 1000 (demo_sample 1000) st =
     (Inr (Some demo_alert), st\<lparr> co_db := record_alert demo_alert (co_db st), co_sent := co_sent st @ [(demo_alert, ''Healing Potion'')] \<rparr>)"
    using st e by (simp add: raise_one_def demo_index s bt_get_Cons last_alert_at_def max_time_def db_answers_def demo_evaluate)
  then show ?thesis by simp
qed

lemma demo_record:
  "\<exists>db. record_snapshot [demo_sample 1000] Eu 1000 [(5, ladder_of hour_listings)] empty_prices = ((1, 1), db) \<and>
     pd_alerts db = [] \<and> map sm_observed_at (pd_samples db) = [1000]"
proof -
  have ne: "\<not> ladder_is_empty (ladder_of hour_listings)"
    by (simp add: hour_listings_def ladder_is_empty_def ladder_of_def pool_def)
  show ?thesis by (simp add: record_snapshot_def insert_new_def empty_prices_def ne demo_sample_def)
qed

lemma demo_round:
  "\<exists>st'. collect_round demo_feed demo_floor_catalog default_alert_rule [] Eu 7 (no_prices []) =
     (Inr \<lparr> rp_region = Eu, rp_generated_at = 1000, rp_outcome = Collected 1 1 1 [demo_alert] \<rparr>, st') \<and>
     pd_alerts (co_db st') = [demo_alert] \<and> map sm_observed_at (pd_samples (co_db st')) = [1000]"
proof -
  obtain db where db: "record_snapshot [demo_sample 1000] Eu 1000 [(5, ladder_of hour_listings)] empty_prices = ((1, 1), db)"
    "pd_alerts db = []" "map sm_observed_at (pd_samples db) = [1000]" using demo_record by metis
  let ?st = "\<lparr> co_db = db, co_faults = [], co_sent = [] \<rparr>"
  have "raise_alerts demo_floor_catalog default_alert_rule 1000 [demo_sample 1000] [] ?st =
     (Inr [demo_alert], \<lparr> co_db = record_alert demo_alert db, co_faults = [], co_sent = [(demo_alert, ''Healing Potion'')] \<rparr>)"
    using demo_raise [of ?st] db(2) by (simp del: raise_alerts.simps)
  then have "collect_round demo_feed demo_floor_catalog default_alert_rule [] Eu 7 (no_prices []) =
     (Inr \<lparr> rp_region = Eu, rp_generated_at = 1000, rp_outcome = Collected 1 1 1 [demo_alert] \<rparr>,
      \<lparr> co_db = record_alert demo_alert db, co_faults = [], co_sent = [(demo_alert, ''Healing Potion'')] \<rparr>)"
    using db(1) by (simp add: collect_round_def collect_fresh_def demo_feed_def db_answers_def no_prices_def demo_summary del: raise_alerts.simps)
  then show ?thesis using db(2,3) by (simp add: record_alert_def)
qed

theorem alert_means_cheap_witness:
  "\<exists>a. evaluate (default_alert_rule\<lparr> ar_min_samples := 1 \<rparr>) (demo_sample 7200000) [(demo_sample 1000)\<lparr> sm_p05 := 90 \<rparr>] None = Some a \<and>
     al_threshold a = 90 \<and> al_baseline a = 90 \<and> al_discount_percent a = 11"
proof -
  let ?r = "default_alert_rule\<lparr> ar_min_samples := 1 \<rparr>" and ?s = "demo_sample 7200000" and ?h = "[(demo_sample 1000)\<lparr> sm_p05 := 90 \<rparr>]"
  have r: "ar_percentile ?r \<le> 50" "ar_min_samples ?r = 1" "ar_min_quantity ?r = 20" by (simp_all add: default_alert_rule_def)
  have s: "sm_p05 ?s = 80" "sm_quantity ?s = 40" by (simp_all add: demo_sample_def)
  have w: "alert_window ?r ?s ?h = \<lparr> b_prices = [90] \<rparr>"
    by (simp add: alert_window_def default_alert_rule_def demo_sample_def since_def from_observations_def take_latest_def
        bt_values_def Let_def)
  have q: "quantile \<lparr> b_prices = [90] \<rparr> p = Some 90" "b_len \<lparr> b_prices = [90] \<rparr> = 1" for p
    by (simp_all add: quantile_def b_len_def)
  note says = alert_means_cheap [of ?h ?r ?s None, OF _ _ r(1), unfolded w q r(2,3) s]
  have "evaluate ?r ?s ?h None \<noteq> None" using says [THEN conjunct1] by (simp add: under_floor_def)
  then obtain a where a: "evaluate ?r ?s ?h None = Some a" by blast
  have "al_current a = 80" "al_threshold a = 90" "al_baseline a = 90" "al_discount_percent a = 11"
    using says [THEN conjunct2, rule_format, OF _ _ a] by (simp_all add: under_floor_def)
  then show ?thesis using a by blast
qed

theorem collection_idempotent_witness:
  "\<exists>st'. collect_round demo_feed demo_floor_catalog default_alert_rule [] Eu 7 (no_prices [False, False, True]) =
       (Inl (App_Repo Repo_Backend), st') \<and>
     collect_round demo_feed demo_floor_catalog default_alert_rule [] Eu 8 (st'\<lparr> co_faults := [False, False] \<rparr>) =
       (Inr \<lparr> rp_region = Eu, rp_generated_at = 1000, rp_outcome = AlreadyRecorded \<rparr>, st') \<and>
     pd_alerts (co_db st') = [] \<and>
     (\<exists>st''. collect_round demo_feed demo_floor_catalog default_alert_rule [] Eu 7 (no_prices []) =
       (Inr \<lparr> rp_region = Eu, rp_generated_at = 1000, rp_outcome = Collected 1 1 1 [demo_alert] \<rparr>, st''))"
proof -
  obtain db where db: "record_snapshot [demo_sample 1000] Eu 1000 [(5, ladder_of hour_listings)] empty_prices = ((1, 1), db)"
    "pd_alerts db = []" using demo_record by blast
  let ?st = "\<lparr> co_db = db, co_faults = [], co_sent = [] \<rparr>"
  have s: "sm_item (demo_sample 1000) = 5" by (simp add: demo_sample_def)
  have first: "collect_round demo_feed demo_floor_catalog default_alert_rule [] Eu 7 (no_prices [False, False, True]) =
       (Inl (App_Repo Repo_Backend), ?st)"
    using db by (simp add: collect_round_def collect_fresh_def demo_feed_def db_answers_def no_prices_def demo_summary
        raise_one_def demo_index s bt_get_Cons)
  have f: "no_prices [False, False, True] = (no_prices [])\<lparr> co_faults := False # False # [True] \<rparr>" by (simp add: no_prices_def)
  have feed: "demo_feed Eu t u = Inr (Fresh 1000 hour_listings)" for t u by (simp add: demo_feed_def)
  have "collect_round demo_feed demo_floor_catalog default_alert_rule [] Eu 8 (?st\<lparr> co_faults := False # False # [] \<rparr>) =
       (Inr \<lparr> rp_region = Eu, rp_generated_at = 1000, rp_outcome = AlreadyRecorded \<rparr>, ?st)"
    using collection_idempotent [OF feed feed _ first [unfolded f], of 8 "[]"] by (simp add: demo_summary)
  then show ?thesis using first db(2) demo_round by (intro exI [of _ ?st]) auto
qed

theorem alerts_respect_cooldown_witness:
  "\<exists>st. collecting default_alert_rule st \<and> pd_alerts (co_db st) = [demo_alert] \<and> map fst (co_sent st) = [demo_alert] \<and>
     spaced 21600000 (pd_alerts (co_db st))"
proof -
  obtain r st where st: "collect_round demo_feed demo_floor_catalog default_alert_rule [] Eu 7 (no_prices []) = (r, st)"
    "pd_alerts (co_db st) = [demo_alert]" using demo_round by blast
  have "collecting default_alert_rule (no_prices [])" by (rule collecting.start) (simp_all add: no_prices_def)
  then have reached: "collecting default_alert_rule st" using st(1) by (rule collecting.round)
  have d: "ar_cooldown_ms default_alert_rule = 21600000" by (simp add: default_alert_rule_def)
  have "0 < ar_cooldown_ms default_alert_rule" using d by simp
  from alerts_respect_cooldown [OF reached this] show ?thesis using reached st(2) unfolding d by auto
qed

end
