(* ===== verification/Node_Runtime.thy ===== *)
theory Node_Runtime
  imports Supervisor
begin

text \<open>
  One in-process node: \<open>cluster-local/src/node.rs\<close> and the execution of a task in \<open>exec.rs\<close>.

  \<open>run_node\<close> is a loop over a \<open>select!\<close>; each of its arms is an event, and \<open>node_step\<close> is one turn of the loop:
  the reports it sends, the artifacts it hands to the store, and the state it goes on with, or \<open>None\<close> when the
  loop ends. The flag of a step says whether the supervisor still takes reports. A task that runs is the
  future it was spawned as, with the delay and the failure it captured; what the future does is
  \<open>execute_task\<close>, evaluated when it is joined. The handler the host installs and what the artifact store
  answers are arguments. An overflow in the built-in workload panics, as it does in a build with checks; the
  text \<open>tokio\<close> gives a panic is the argument \<open>panic_text\<close>.
\<close>

section \<open>Executing a task\<close>

text \<open>The milliseconds slept, the outcome, and the bytes produced.\<close>

definition execute_task :: "(panic \<Rightarrow> string) \<Rightarrow> nodeid \<Rightarrow> taskspec \<Rightarrow> nat \<Rightarrow> bool \<Rightarrow> host_workload option \<Rightarrow>
    (taskspec \<Rightarrow> bytes option) option \<Rightarrow> nat \<times> task_outcome \<times> bytes option" where
  "execute_task panic_text node spec extra_delay_ms force_failure host inputs =
     (if force_failure
      then (extra_delay_ms, OutFailed Injected (''failure injected on '' @ node_text node), None)
      else
        let input = (case inputs of
                       Some answer \<Rightarrow> (case answer spec of Some bs \<Rightarrow> bs | None \<Rightarrow> [])
                     | None \<Rightarrow> [])
        in case run_task node spec of
             Inl p \<Rightarrow> (extra_delay_ms, OutFailed ExecutionError (''worker panicked: '' @ panic_text p), None)
           | Inr builtin \<Rightarrow>
               (case (case builtin of
                        Some w \<Rightarrow> Some w
                      | None \<Rightarrow> (case host of Some h \<Rightarrow> h node spec input | None \<Rightarrow> None)) of
                  None \<Rightarrow>
                    (extra_delay_ms,
                     OutFailed ExecutionError
                       (''no workload on '' @ node_text node @ '' can run '' @ describe_taskspec spec), None)
                | Some (Done out) \<Rightarrow> (extra_delay_ms, OutCompleted out, None)
                | Some (Produced out artifact) \<Rightarrow> (extra_delay_ms, OutCompleted out, Some artifact)
                | Some (Wait ms out) \<Rightarrow> (extra_delay_ms + ms, OutCompleted out, None)))"

section \<open>The loop of a node\<close>

record node_config =
  nc_id :: nodeid
  nc_capabilities :: node_capabilities
  nc_heartbeat_interval_ms :: nat
  nc_simulate_load :: bool
  nc_workload :: "host_workload option"
  nc_artifacts :: bool

text \<open>How often the node beats: never more than twenty times a second.\<close>

definition beat_every :: "node_config \<Rightarrow> nat" where
  "beat_every nc = max (nc_heartbeat_interval_ms nc) 50"

record node_state =
  ns_paused :: bool
  ns_pending_failures :: nat
  ns_extra_delay_ms :: nat
  ns_wobble :: u32
  ns_running :: "(task \<times> nat \<times> bool) list"

definition node_spawned :: "node_config \<Rightarrow> node_state" where
  "node_spawned nc = \<lparr> ns_paused = False, ns_pending_failures = 0, ns_extra_delay_ms = 0,
     ns_wobble = of_nat (nc_id nc) * 2654435761, ns_running = [] \<rparr>"

datatype node_event =
    EvShutdown
  | EvBeat millis
  | EvInbox node_inbox
  | EvInboxClosed
  | EvJoined nat "taskspec \<Rightarrow> bytes option"
  | EvAborted nat

definition wobble_next :: "u32 \<Rightarrow> u32" where
  "wobble_next w = w * 1664525 + 1013904223"

definition node_load_now :: "node_config \<Rightarrow> node_state \<Rightarrow> node_load" where
  "node_load_now nc st =
     (let busy = ns_running st \<noteq> []; jitter = unat (drop_bit 24 (ns_wobble st)) mod 256 mod 12 in
      \<lparr> load_percent = (if nc_simulate_load nc then (if busy then 65 + jitter else 3 + jitter) else 0),
        running_tasks = length (ns_running st) mod 65536,
        free_memory_bytes = usable_ram_bytes (nc_capabilities nc) - (if busy then 96 * 1024 else 32 * 1024),
        simulated = nc_simulate_load nc \<rparr>)"

type_synonym node_effect = "node_report list \<times> (taskspec \<times> bytes) list \<times> node_state option"

text \<open>\<open>reports.send(...)\<close>, where a closed channel ends the loop.\<close>

definition report_or_stop :: "bool \<Rightarrow> node_report \<Rightarrow> (taskspec \<times> bytes) list \<Rightarrow> node_state \<Rightarrow> node_effect" where
  "report_or_stop open_channel r staged st = (if open_channel then ([r], staged, Some st) else ([], staged, None))"

definition node_assign :: "node_config \<Rightarrow> bool \<Rightarrow> task \<Rightarrow> node_state \<Rightarrow> node_effect" where
  "node_assign nc open_channel t st =
     (if ns_running st = [] then
        report_or_stop open_channel (ReportStarted (nc_id nc) t) []
          (st\<lparr> ns_running := [(t, ns_extra_delay_ms st, 0 < ns_pending_failures st)],
               ns_pending_failures := ns_pending_failures st - 1 \<rparr>)
      else
        ((if open_channel
          then [ReportFinished (nc_id nc) t (OutFailed ExecutionError (node_text (nc_id nc) @ '' was already busy''))]
          else []), [], Some st))"

definition remove_nth :: "nat \<Rightarrow> 'a list \<Rightarrow> 'a list" where
  "remove_nth i xs = take i xs @ drop (i + 1) xs"

text \<open>The future delivers what it produced itself, before it is joined.\<close>

definition node_joined :: "(panic \<Rightarrow> string) \<Rightarrow> node_config \<Rightarrow> bool \<Rightarrow> nat \<Rightarrow> (taskspec \<Rightarrow> bytes option) \<Rightarrow> node_state \<Rightarrow> node_effect" where
  "node_joined panic_text nc open_channel i answer st =
     (if i < length (ns_running st) then
        let (t, delay, failing) = ns_running st ! i;
            (slept, outcome, produced) =
              execute_task panic_text (nc_id nc) (task_spec t) delay failing (nc_workload nc)
                (if nc_artifacts nc then Some answer else None);
            staged = (case produced of Some bs \<Rightarrow> if nc_artifacts nc then [(task_spec t, bs)] else [] | None \<Rightarrow> [])
        in report_or_stop open_channel (ReportFinished (nc_id nc) t outcome) staged
             (st\<lparr> ns_running := remove_nth i (ns_running st) \<rparr>)
      else ([], [], Some st))"

fun node_step :: "(panic \<Rightarrow> string) \<Rightarrow> node_config \<Rightarrow> bool \<Rightarrow> node_event \<Rightarrow> node_state \<Rightarrow> node_effect" where
  "node_step panic_text nc open_channel EvShutdown st = ([], [], None)"
| "node_step panic_text nc open_channel (EvBeat now) st =
     (if ns_paused st then ([], [], Some st)
      else let st = st\<lparr> ns_wobble := wobble_next (ns_wobble st) \<rparr> in
        report_or_stop open_channel
          (ReportHeartbeat \<lparr> hb_node = nc_id nc, hb_load = node_load_now nc st, hb_at = now \<rparr>) [] st)"
| "node_step panic_text nc open_channel (EvInbox (InAssign t)) st = node_assign nc open_channel t st"
| "node_step panic_text nc open_channel (EvInbox (InPauseHeartbeat v)) st = ([], [], Some (st\<lparr> ns_paused := v \<rparr>))"
| "node_step panic_text nc open_channel (EvInbox (InInjectFailures n)) st =
     ([], [], Some (st\<lparr> ns_pending_failures := sat_add u32_max (ns_pending_failures st) n \<rparr>))"
| "node_step panic_text nc open_channel (EvInbox (InSetDelay ms)) st = ([], [], Some (st\<lparr> ns_extra_delay_ms := ms \<rparr>))"
| "node_step panic_text nc open_channel EvInboxClosed st = ([], [], None)"
| "node_step panic_text nc open_channel (EvJoined i answer) st = node_joined panic_text nc open_channel i answer st"
| "node_step panic_text nc open_channel (EvAborted i) st =
     ([], [], Some (st\<lparr> ns_running := remove_nth i (ns_running st) \<rparr>))"

fun run_node :: "(panic \<Rightarrow> string) \<Rightarrow> node_config \<Rightarrow> (bool \<times> node_event) list \<Rightarrow> node_state \<Rightarrow> node_effect" where
  "run_node panic_text nc [] st = ([], [], Some st)"
| "run_node panic_text nc ((open_channel, ev) # evs) st =
     (case node_step panic_text nc open_channel ev st of
        (rs, staged, None) \<Rightarrow> (rs, staged, None)
      | (rs, staged, Some st') \<Rightarrow>
          (case run_node panic_text nc evs st' of
             (rs', staged', fin) \<Rightarrow> (rs @ rs', staged @ staged', fin)))"

section \<open>What a node answers for\<close>

fun report_node :: "node_report \<Rightarrow> nodeid" where
  "report_node (ReportHeartbeat hb) = hb_node hb"
| "report_node (ReportStarted n t) = n"
| "report_node (ReportFinished n t out) = n"

fun finished_tasks :: "node_report list \<Rightarrow> task list" where
  "finished_tasks [] = []"
| "finished_tasks (ReportFinished n t out # rs) = t # finished_tasks rs"
| "finished_tasks (r # rs) = finished_tasks rs"

fun finished_with :: "node_report list \<Rightarrow> (task \<times> task_outcome) list" where
  "finished_with [] = []"
| "finished_with (ReportFinished n t out # rs) = (t, out) # finished_with rs"
| "finished_with (r # rs) = finished_with rs"

fun started_tasks :: "node_report list \<Rightarrow> task list" where
  "started_tasks [] = []"
| "started_tasks (ReportStarted n t # rs) = t # started_tasks rs"
| "started_tasks (r # rs) = started_tasks rs"

fun assigned_tasks :: "(bool \<times> node_event) list \<Rightarrow> task list" where
  "assigned_tasks [] = []"
| "assigned_tasks ((b, EvInbox (InAssign t)) # evs) = t # assigned_tasks evs"
| "assigned_tasks (e # evs) = assigned_tasks evs"

text \<open>A step taken while the supervisor listens, and in which no worker future died.\<close>

fun undisturbed :: "bool \<times> node_event \<Rightarrow> bool" where
  "undisturbed (b, EvAborted i) = False"
| "undisturbed (b, e) = b"

lemma finished_tasks_append [simp]: "finished_tasks (xs @ ys) = finished_tasks xs @ finished_tasks ys"
  by (induction xs rule: finished_tasks.induct) auto

lemma finished_with_append [simp]: "finished_with (xs @ ys) = finished_with xs @ finished_with ys"
  by (induction xs rule: finished_with.induct) auto

lemma started_append [simp]: "started_tasks (xs @ ys) = started_tasks xs @ started_tasks ys"
  by (induction xs rule: started_tasks.induct) auto

lemma remove_nth_small: "length xs \<le> 1 \<Longrightarrow> i < length xs \<Longrightarrow> remove_nth i xs = []"
  by (simp add: remove_nth_def)

lemma remove_nth_length: "length (remove_nth i xs) \<le> length xs"
  by (simp add: remove_nth_def)

lemma node_step_small:
  assumes "node_step px nc b ev st = (rs, staged, Some st')" "length (ns_running st) \<le> 1"
  shows "length (ns_running st') \<le> 1"
  using assms
  by (induction px nc b ev st rule: node_step.induct)
    (auto simp: report_or_stop_def node_assign_def node_joined_def Let_def remove_nth_length
      intro: order_trans [OF remove_nth_length] split: if_splits prod.splits)

lemma node_step_own:
  assumes "node_step px nc b ev st = (rs, staged, fin)"
  shows "\<forall>r\<in>set rs. report_node r = nc_id nc"
  using assms
  by (induction px nc b ev st rule: node_step.induct)
    (auto simp: report_or_stop_def node_assign_def node_joined_def Let_def split: if_splits prod.splits)

lemma node_step_answers:
  assumes "node_step px nc b ev st = (rs, staged, Some st')" "length (ns_running st) \<le> 1" "undisturbed (b, ev)"
  shows "count_list (assigned_tasks [(b, ev)]) t + count_list (map fst (ns_running st)) t =
      count_list (finished_tasks rs) t + count_list (map fst (ns_running st')) t \<and>
    count_list (started_tasks rs) t + count_list (map fst (ns_running st)) t \<le>
      count_list (finished_tasks rs) t + count_list (map fst (ns_running st')) t"
proof -
  consider (joined) i answer where "ev = EvJoined i answer" | (assign) u where "ev = EvInbox (InAssign u)"
    | (other) "\<nexists>i answer. ev = EvJoined i answer" "\<nexists>u. ev = EvInbox (InAssign u)" by blast
  then show ?thesis
  proof cases
    case joined
    show ?thesis
    proof (cases "ns_running st")
      case (Cons e es)
      then have "es = []" using assms(2) by simp
      then show ?thesis using assms(1,3) joined Cons
        by (auto simp: node_joined_def report_or_stop_def Let_def remove_nth_def less_Suc_eq split: if_splits prod.splits)
    qed (use assms(1) joined in \<open>simp add: node_joined_def\<close>)
  next
    case assign
    then show ?thesis using assms(1,3) by (auto simp: node_assign_def report_or_stop_def split: if_splits)
  next
    case other
    then show ?thesis using assms(1,3)
      by (cases "(px, nc, b, ev, st)" rule: node_step.cases) (auto simp: report_or_stop_def Let_def split: if_splits)
  qed
qed

lemma assigned_Cons: "assigned_tasks (e # evs) = assigned_tasks [e] @ assigned_tasks evs"
  by (cases "e # evs" rule: assigned_tasks.cases) auto

lemma run_node_ConsE:
  assumes "run_node px nc ((b, ev) # evs) st = (rs, staged, fin)"
  obtains (stopped) "node_step px nc b ev st = (rs, staged, None)" "fin = None"
  | (went_on) rs1 staged1 st1 rs2 staged2 where "node_step px nc b ev st = (rs1, staged1, Some st1)"
      "run_node px nc evs st1 = (rs2, staged2, fin)" "rs = rs1 @ rs2" "staged = staged1 @ staged2"
  using assms by (auto split: prod.splits option.splits)

lemma run_node_own:
  "run_node px nc evs st = (rs, staged, fin) \<Longrightarrow> \<forall>r\<in>set rs. report_node r = nc_id nc"
proof (induction evs arbitrary: st rs staged)
  case (Cons e evs)
  obtain b ev where e: "e = (b, ev)" by fastforce
  from Cons.prems [unfolded e] show ?case
  proof (cases rule: run_node_ConsE)
    case (went_on rs1 staged1 st1 rs2 staged2)
    then show ?thesis using node_step_own [OF went_on(1)] Cons.IH [OF went_on(2)] by auto
  qed (auto dest: node_step_own)
qed simp

lemma run_node_answers:
  assumes "run_node px nc evs st = (rs, staged, Some st')" "length (ns_running st) \<le> 1" "\<forall>e\<in>set evs. undisturbed e"
  shows "length (ns_running st') \<le> 1 \<and>
    count_list (assigned_tasks evs) t + count_list (map fst (ns_running st)) t =
      count_list (finished_tasks rs) t + count_list (map fst (ns_running st')) t \<and>
    count_list (started_tasks rs) t + count_list (map fst (ns_running st)) t \<le>
      count_list (finished_tasks rs) t + count_list (map fst (ns_running st')) t"
  using assms
proof (induction evs arbitrary: st rs staged)
  case (Cons e evs)
  obtain b ev where e: "e = (b, ev)" by fastforce
  from Cons.prems(1) [unfolded e] show ?case
  proof (cases rule: run_node_ConsE)
    case (went_on rs1 staged1 st1 rs2 staged2)
    note one = node_step_answers [OF went_on(1) Cons.prems(2), of t] node_step_small [OF went_on(1) Cons.prems(2)]
    show ?thesis
      using one Cons.IH [OF went_on(2)] Cons.prems(3) went_on(3) e by (auto simp: assigned_Cons [of _ evs])
  qed simp
qed auto

text \<open>What holds of every turn, dying futures and a deaf supervisor included: nothing is answered that was not assigned.\<close>

definition still_running :: "node_state option \<Rightarrow> task \<Rightarrow> nat" where
  "still_running fin t = (case fin of Some st \<Rightarrow> count_list (map fst (ns_running st)) t | None \<Rightarrow> 0)"

lemma count_remove_nth: "count_list (map f (remove_nth i xs)) t \<le> count_list (map f xs) t"
proof -
  have "map f xs = map f (take i xs) @ map f (drop i xs)" by (simp flip: map_append)
  moreover have "count_list (map f (drop (Suc i) xs)) t \<le> count_list (map f (drop i xs)) t"
    by (cases "i < length xs") (simp_all add: Cons_nth_drop_Suc [symmetric])
  ultimately show ?thesis by (simp add: remove_nth_def)
qed

lemma count_removed:
  assumes "i < length xs"
  shows "count_list (map f xs) t = count_list (map f (remove_nth i xs)) t + (if f (xs ! i) = t then 1 else 0)"
proof -
  have "map f xs = map f (take i xs) @ f (xs ! i) # map f (drop (Suc i) xs)"
    using assms by (metis id_take_nth_drop list.simps(9) map_append)
  then show ?thesis by (simp add: remove_nth_def)
qed

lemma node_step_at_most_once:
  assumes "node_step px nc b ev st = (rs, staged, fin)"
  shows "count_list (finished_tasks rs) t + still_running fin t \<le>
    count_list (assigned_tasks [(b, ev)]) t + count_list (map fst (ns_running st)) t"
proof -
  consider (joined) i answer where "ev = EvJoined i answer" | (aborted) i where "ev = EvAborted i"
    | (other) "\<nexists>i answer. ev = EvJoined i answer" "\<nexists>i. ev = EvAborted i" by blast
  then show ?thesis
  proof cases
    case joined
    show ?thesis
    proof (cases "i < length (ns_running st)")
      case True
      obtain u delay failing where u: "ns_running st ! i = (u, delay, failing)" by (metis prod.exhaust)
      show ?thesis
        using assms joined True u count_removed [OF True, of fst t]
        by (auto simp: node_joined_def report_or_stop_def still_running_def Let_def split: if_splits prod.splits)
    qed (use assms joined in \<open>auto simp: node_joined_def still_running_def\<close>)
  next
    case aborted
    then show ?thesis using assms count_remove_nth [of fst i "ns_running st" t] by (auto simp: still_running_def)
  next
    case other
    then show ?thesis using assms
      by (cases "(px, nc, b, ev, st)" rule: node_step.cases)
        (auto simp: report_or_stop_def node_assign_def still_running_def Let_def split: if_splits)
  qed
qed

lemma run_node_at_most_once:
  assumes "run_node px nc evs st = (rs, staged, fin)" "length (ns_running st) \<le> 1"
  shows "(\<forall>st'. fin = Some st' \<longrightarrow> length (ns_running st') \<le> 1) \<and>
    count_list (finished_tasks rs) t + still_running fin t \<le>
      count_list (assigned_tasks evs) t + count_list (map fst (ns_running st)) t"
  using assms
proof (induction evs arbitrary: st rs staged)
  case (Cons e evs)
  obtain b ev where e: "e = (b, ev)" by fastforce
  from Cons.prems(1) [unfolded e] show ?case
  proof (cases rule: run_node_ConsE)
    case stopped
    then show ?thesis using node_step_at_most_once [OF stopped(1), of t] e by (simp add: assigned_Cons [of _ evs])
  next
    case (went_on rs1 staged1 st1 rs2 staged2)
    note one = node_step_at_most_once [OF went_on(1), of t] node_step_small [OF went_on(1) Cons.prems(2)]
    show ?thesis
      using one Cons.IH [OF went_on(2) one(2)] went_on(3) e
      by (auto simp: assigned_Cons [of _ evs] still_running_def)
  qed
qed (auto simp: still_running_def)

section \<open>Properties\<close>

text \<open>
  C39: What a node answers for. In any run of a node whatever - also when worker futures die, the supervisor no
  longer takes reports, or the loop has ended - it runs at most one task at a time, reports only under its own
  id, and answers no assignment twice: the finishes reported for a task, with the run of it that is still on, are at
  most the assignments of it. And as long as the supervisor listens and no worker future dies, every
  assignment is answered by exactly one finish - by the task's own, or by a refusal when the node was busy - or
  is the task still running, and starts are at most the finishes and the task that runs. Without that
  condition an assignment can go unanswered: a future that dies is never reported.
\<close>

theorem node_answers_every_task:
  assumes "run_node px nc evs (node_spawned nc) = (rs, staged, fin)"
  shows "(\<forall>st. fin = Some st \<longrightarrow> length (ns_running st) \<le> 1) \<and> (\<forall>r\<in>set rs. report_node r = nc_id nc) \<and>
    (\<forall>t. count_list (finished_tasks rs) t + still_running fin t \<le> count_list (assigned_tasks evs) t) \<and>
    (fin \<noteq> None \<and> (\<forall>e\<in>set evs. undisturbed e) \<longrightarrow>
       (\<forall>t. count_list (assigned_tasks evs) t = count_list (finished_tasks rs) t + still_running fin t \<and>
            count_list (started_tasks rs) t \<le> count_list (finished_tasks rs) t + still_running fin t))"
proof -
  have idle: "ns_running (node_spawned nc) = []" by (simp add: node_spawned_def)
  have exact: "count_list (assigned_tasks evs) t = count_list (finished_tasks rs) t + still_running fin t \<and>
      count_list (started_tasks rs) t \<le> count_list (finished_tasks rs) t + still_running fin t"
    if "fin \<noteq> None" "\<forall>e\<in>set evs. undisturbed e" for t
    using that assms run_node_answers [of px nc evs "node_spawned nc" rs staged _ t]
    by (auto simp: idle still_running_def)
  show ?thesis
    using run_node_at_most_once [OF assms] run_node_own [OF assms] exact by (simp add: idle)
qed

text \<open>One task after another on an idle node, each joined before the next is assigned.\<close>

definition one_by_one :: "(taskspec \<Rightarrow> bytes option) \<Rightarrow> task list \<Rightarrow> (bool \<times> node_event) list" where
  "one_by_one answer ts = concat (map (\<lambda>t. [(True, EvInbox (InAssign t)), (True, EvJoined 0 answer)]) ts)"

definition outcome_of :: "(panic \<Rightarrow> string) \<Rightarrow> node_config \<Rightarrow> (taskspec \<Rightarrow> bytes option) \<Rightarrow> nat \<Rightarrow> bool \<Rightarrow> task \<Rightarrow> task_outcome" where
  "outcome_of px nc answer delay failing t =
     fst (snd (execute_task px (nc_id nc) (task_spec t) delay failing (nc_workload nc) (if nc_artifacts nc then Some answer else None)))"

lemma one_task:
  assumes "ns_running st = []" "run_node px nc evs (st\<lparr> ns_pending_failures := ns_pending_failures st - 1 \<rparr>) = (rs', staged', fin)"
  shows "\<exists>staged. run_node px nc ((True, EvInbox (InAssign t)) # (True, EvJoined 0 answer) # evs) st =
      (ReportStarted (nc_id nc) t #
       ReportFinished (nc_id nc) t (outcome_of px nc answer (ns_extra_delay_ms st) (0 < ns_pending_failures st) t) # rs',
       staged @ staged', fin)"
proof -
  let ?d = "ns_extra_delay_ms st" and ?f = "0 < ns_pending_failures st"
  let ?st1 = "st\<lparr> ns_running := [(t, ?d, ?f)], ns_pending_failures := ns_pending_failures st - 1 \<rparr>"
  obtain slept out produced where ex: "execute_task px (nc_id nc) (task_spec t) ?d ?f (nc_workload nc)
    (if nc_artifacts nc then Some answer else None) = (slept, out, produced)" by (metis prod.exhaust)
  have first: "node_step px nc True (EvInbox (InAssign t)) st = ([ReportStarted (nc_id nc) t], [], Some ?st1)"
    using assms(1) by (simp add: node_assign_def report_or_stop_def)
  have idle: "?st1\<lparr> ns_running := [] \<rparr> = st\<lparr> ns_pending_failures := ns_pending_failures st - 1 \<rparr>" using assms(1) by simp
  obtain staged where "node_step px nc True (EvJoined 0 answer) ?st1 =
    ([ReportFinished (nc_id nc) t out], staged, Some (st\<lparr> ns_pending_failures := ns_pending_failures st - 1 \<rparr>))"
    using ex idle by (simp add: node_joined_def report_or_stop_def remove_nth_def)
  then show ?thesis using first ex assms(2) by (simp add: outcome_of_def)
qed

lemma tasks_one_by_one:
  assumes "ns_running st = []"
  shows "\<exists>rs staged. run_node px nc (one_by_one answer ts) st =
      (rs, staged, Some (st\<lparr> ns_pending_failures := ns_pending_failures st - length ts \<rparr>)) \<and>
    finished_with rs = map2 (\<lambda>k t. (t, outcome_of px nc answer (ns_extra_delay_ms st) (k < ns_pending_failures st) t)) [0..<length ts] ts"
  using assms
proof (induction ts arbitrary: st)
  case (Cons t ts)
  let ?st = "st\<lparr> ns_pending_failures := ns_pending_failures st - 1 \<rparr>"
  obtain rs staged where ih: "run_node px nc (one_by_one answer ts) ?st =
      (rs, staged, Some (?st\<lparr> ns_pending_failures := ns_pending_failures ?st - length ts \<rparr>))"
    "finished_with rs = map2 (\<lambda>k t. (t, outcome_of px nc answer (ns_extra_delay_ms ?st) (k < ns_pending_failures ?st) t)) [0..<length ts] ts"
    using Cons.IH [of ?st] Cons.prems by auto
  obtain staged1 where one: "run_node px nc (one_by_one answer (t # ts)) st =
      (ReportStarted (nc_id nc) t #
       ReportFinished (nc_id nc) t (outcome_of px nc answer (ns_extra_delay_ms st) (0 < ns_pending_failures st) t) # rs,
       staged1 @ staged, Some (?st\<lparr> ns_pending_failures := ns_pending_failures ?st - length ts \<rparr>))"
    using one_task [OF Cons.prems ih(1), of t answer] by (auto simp: one_by_one_def)
  have later: "k < n - Suc 0 \<longleftrightarrow> Suc k < n" for k n :: nat by linarith
  have "[0..<length (t # ts)] = 0 # map Suc [0..<length ts]" by (simp add: upt_conv_Cons map_Suc_upt del: upt_Suc)
  then show ?case using one ih by (simp add: later zip_map1 split_beta del: upt_Suc)
qed (simp add: one_by_one_def)

text \<open>
  Failure injection is exact. A fresh node that is told to fail its next \<open>n\<close> tasks and is then given tasks
  one after the other reports an injected failure for the first \<open>n\<close> of them, whatever they are, and for every
  later one the outcome of executing it.
\<close>

lemma injected_failures_exact:
  assumes "n \<le> u32_max"
  shows "\<exists>rs staged st. run_node px nc ((True, EvInbox (InInjectFailures n)) # one_by_one answer ts) (node_spawned nc) = (rs, staged, Some st) \<and>
    finished_with rs = map2 (\<lambda>k t. (t, if k < n then OutFailed Injected (''failure injected on '' @ node_text (nc_id nc))
      else outcome_of px nc answer 0 False t)) [0..<length ts] ts"
proof -
  let ?st = "(node_spawned nc)\<lparr> ns_pending_failures := n \<rparr>"
  have st: "ns_running ?st = []" "ns_pending_failures ?st = n" "ns_extra_delay_ms ?st = 0" by (simp_all add: node_spawned_def)
  have "sat_add u32_max 0 n = n" using assms by (simp add: sat_add_def)
  then have first: "run_node px nc ((True, EvInbox (InInjectFailures n)) # evs) (node_spawned nc) = run_node px nc evs ?st" for evs
    by (simp add: node_spawned_def split: prod.splits)
  have "outcome_of px nc answer 0 True t = OutFailed Injected (''failure injected on '' @ node_text (nc_id nc))" for t
    by (simp add: outcome_of_def execute_task_def)
  then have "outcome_of px nc answer 0 (k < n) t =
      (if k < n then OutFailed Injected (''failure injected on '' @ node_text (nc_id nc)) else outcome_of px nc answer 0 False t)" for k t
    by simp
  then show ?thesis
    using tasks_one_by_one [OF st(1), of px nc answer ts] unfolding first st by auto
qed

section \<open>Examples\<close>

definition demo_sleep :: "taskid \<Rightarrow> task" where
  "demo_sleep i = new_task i 1 0 (TaskSleep 20) 5"

definition demo_nc :: node_config where
  "demo_nc = \<lparr> nc_id = 2, nc_capabilities = new_capabilities 1 0,
     nc_heartbeat_interval_ms = 1000, nc_simulate_load = False, nc_workload = None, nc_artifacts = False \<rparr>"

text \<open>
  A future that dies leaves the node idle and the supervisor without an answer, so that the assignment is not
  answered as long as the node beats.
\<close>

lemma aborted_task_unanswered:
  "run_node px nc [(True, EvInbox (InAssign t)), (True, EvAborted 0)] (node_spawned nc) =
     ([ReportStarted (nc_id nc) t], [], Some (node_spawned nc))"
  by (simp add: node_spawned_def node_assign_def report_or_stop_def remove_nth_def)

theorem node_answers_every_task_witness:
  "\<exists>rs st. run_node (\<lambda>_. []) demo_nc [(True, EvInbox (InAssign (demo_sleep 1))), (True, EvInbox (InAssign (demo_sleep 7))),
      (True, EvJoined 0 (\<lambda>_. None)), (True, EvInbox (InAssign (demo_sleep 8)))] (node_spawned demo_nc) = (rs, [], Some st) \<and>
    count_list (finished_tasks rs) (demo_sleep 7) = 1 \<and> count_list (finished_tasks rs) (demo_sleep 8) = 0 \<and>
    length (ns_running st) \<le> 1 \<and> list_all (\<lambda>r. report_node r = 2) rs"
proof -
  let ?evs = "[(True, EvInbox (InAssign (demo_sleep 1))), (True, EvInbox (InAssign (demo_sleep 7))),
      (True, EvJoined 0 (\<lambda>_. None)), (True, EvInbox (InAssign (demo_sleep 8)))]"
  have "\<exists>rs st. run_node (\<lambda>_. []) demo_nc ?evs (node_spawned demo_nc) = (rs, [], Some st) \<and> map fst (ns_running st) = [demo_sleep 8]"
    by (simp add: node_spawned_def node_assign_def report_or_stop_def node_joined_def remove_nth_def execute_task_def
        demo_nc_def demo_sleep_def new_task_def)
  then obtain rs st where run: "run_node (\<lambda>_. []) demo_nc ?evs (node_spawned demo_nc) = (rs, [], Some st)"
    "map fst (ns_running st) = [demo_sleep 8]" by (elim exE conjE) (rule that)
  have "Some st \<noteq> None \<and> (\<forall>e\<in>set ?evs. undisturbed e)" by simp
  note ok = node_answers_every_task [OF run(1)] and exact = node_answers_every_task [OF run(1),
    THEN conjunct2, THEN conjunct2, THEN conjunct2, THEN mp, OF this]
  have running: "still_running (Some st) t = count_list [demo_sleep 8] t" for t
    by (simp only: still_running_def option.case run(2))
  have ne: "demo_sleep 1 \<noteq> demo_sleep 7" "demo_sleep 8 \<noteq> demo_sleep 7" "demo_sleep 1 \<noteq> demo_sleep 8" by (simp_all add: demo_sleep_def new_task_def)
  have "count_list (finished_tasks rs) (demo_sleep 7) = 1" "count_list (finished_tasks rs) (demo_sleep 8) = 0"
    using exact [THEN spec, of "demo_sleep 7"] exact [THEN spec, of "demo_sleep 8"] ne by (simp_all add: running)
  moreover have "nc_id demo_nc = 2" by (simp add: demo_nc_def)
  ultimately show ?thesis using run(1) ok by (auto simp: list_all_iff)
qed

lemma injected_failures_example:
  "(1::nat) \<le> u32_max \<and> (\<exists>rs staged st. run_node (\<lambda>_. []) demo_nc ((True, EvInbox (InInjectFailures 1)) #
      one_by_one (\<lambda>_. None) [demo_sleep 1, demo_sleep 2]) (node_spawned demo_nc) = (rs, staged, Some st) \<and>
    finished_with rs = [(demo_sleep 1, OutFailed Injected (''failure injected on '' @ node_text 2)), (demo_sleep 2, OutCompleted (sleep_output 2 20))])"
proof -
  have one: "(1::nat) \<le> u32_max" by simp
  have "outcome_of (\<lambda>_. []) demo_nc (\<lambda>_. None) 0 False (demo_sleep 2) = OutCompleted (sleep_output 2 20)"
    by (simp add: outcome_of_def execute_task_def demo_nc_def demo_sleep_def new_task_def)
  moreover have "nc_id demo_nc = 2" by (simp add: demo_nc_def)
  ultimately show ?thesis
    using injected_failures_exact [OF one, of "\<lambda>_. []" demo_nc "\<lambda>_. None" "[demo_sleep 1, demo_sleep 2]"] by simp
qed

end
