(* ===== verification/Telemetry.thy ===== *)
theory Telemetry
  imports Supervisor
begin

text \<open>
  The counters of \<open>cluster-local/src/telemetry.rs\<close>, the handle the rest of the server holds on the cluster
  (\<open>cluster-local/src/cluster.rs\<close>), and the readiness probe that reads both (\<open>app-web/src/routes/mod.rs\<close>).

  An atomic counter is a number at its width, changed by one step; the time of a step is an argument. A handle
  sends a command and waits for the reply: the supervisor answers as \<open>handle_command\<close> does, or has stopped.
\<close>

section \<open>Counters\<close>

record telemetry =
  tm_connections :: nat
  tm_preauth :: nat
  tm_rejected :: nat
  tm_depth :: nat
  tm_oldest :: "millis option"
  tm_persistence_errors :: nat
  tm_jobs_recovered :: nat
  tm_task_retries :: nat

definition no_telemetry :: telemetry where
  "no_telemetry = \<lparr> tm_connections = 0, tm_preauth = 0, tm_rejected = 0, tm_depth = 0, tm_oldest = None,
     tm_persistence_errors = 0, tm_jobs_recovered = 0, tm_task_retries = 0 \<rparr>"

definition connection_opened :: "telemetry \<Rightarrow> telemetry" where
  "connection_opened tm = tm\<lparr> tm_connections := (tm_connections tm + 1) mod 2 ^ 64 \<rparr>"

definition connection_closed :: "telemetry \<Rightarrow> telemetry" where
  "connection_closed tm = tm\<lparr> tm_connections := (tm_connections tm + (2 ^ 64 - 1)) mod 2 ^ 64 \<rparr>"

definition preauth_opened :: "telemetry \<Rightarrow> telemetry" where
  "preauth_opened tm = tm\<lparr> tm_preauth := (tm_preauth tm + 1) mod 2 ^ 64 \<rparr>"

definition preauth_closed :: "telemetry \<Rightarrow> telemetry" where
  "preauth_closed tm = tm\<lparr> tm_preauth := (tm_preauth tm + (2 ^ 64 - 1)) mod 2 ^ 64 \<rparr>"

definition count_rejected :: "telemetry \<Rightarrow> telemetry" where
  "count_rejected tm = tm\<lparr> tm_rejected := (tm_rejected tm + 1) mod 2 ^ 64 \<rparr>"

definition queued :: "millis \<Rightarrow> telemetry \<Rightarrow> telemetry" where
  "queued now tm =
     tm\<lparr> tm_oldest := (if tm_depth tm = 0 then Some now else tm_oldest tm), tm_depth := sat_add u64_max (tm_depth tm) 1 \<rparr>"

definition dequeued :: "telemetry \<Rightarrow> telemetry" where
  "dequeued tm =
     (let depth = tm_depth tm - 1 in
      tm\<lparr> tm_depth := depth, tm_oldest := (if depth = 0 then None else tm_oldest tm) \<rparr>)"

definition persistence_error :: "telemetry \<Rightarrow> telemetry" where
  "persistence_error tm = tm\<lparr> tm_persistence_errors := (tm_persistence_errors tm + 1) mod 2 ^ 64 \<rparr>"

definition count_recovered :: "nat \<Rightarrow> telemetry \<Rightarrow> telemetry" where
  "count_recovered n tm = tm\<lparr> tm_jobs_recovered := (tm_jobs_recovered tm + n) mod 2 ^ 64 \<rparr>"

definition count_retried :: "telemetry \<Rightarrow> telemetry" where
  "count_retried tm = tm\<lparr> tm_task_retries := (tm_task_retries tm + 1) mod 2 ^ 64 \<rparr>"

definition apply_telemetry :: "millis \<Rightarrow> telemetry \<Rightarrow> cluster_snapshot \<Rightarrow> cluster_snapshot" where
  "apply_telemetry now tm snap =
     snap\<lparr> worker_connections := tm_connections tm, worker_preauth := tm_preauth tm, worker_rejected := tm_rejected tm,
           persistence_queue := tm_depth tm,
           persistence_oldest_ms := (case tm_oldest tm of Some instant \<Rightarrow> min (now - instant) u64_max | None \<Rightarrow> 0),
           persistence_errors := tm_persistence_errors tm, snap_jobs_recovered := tm_jobs_recovered tm,
           snap_task_retries := tm_task_retries tm \<rparr>"

section \<open>The handle\<close>

text \<open>A supervisor that has stopped answers nothing; what it was is not changed any more.\<close>

definition ask :: "selection \<Rightarrow> election \<Rightarrow> bool \<Rightarrow> command \<Rightarrow> supervisor \<Rightarrow> reply option \<times> supervisor" where
  "ask sel el alive c s = (if alive then (case handle_command sel el c s of (r, s') \<Rightarrow> (Some r, s')) else (None, s))"

definition unavailable :: cluster_error where
  "unavailable = Unavailable ''cluster supervisor is not running''"

definition control_snapshot :: "selection \<Rightarrow> election \<Rightarrow> bool \<Rightarrow> millis \<Rightarrow> telemetry \<Rightarrow> supervisor \<Rightarrow> cluster_snapshot" where
  "control_snapshot sel el alive now tm s =
     apply_telemetry now tm (case fst (ask sel el alive CmdSnapshot s) of Some (RepSnapshot snap) \<Rightarrow> snap | _ \<Rightarrow> default_snapshot)"

definition control_nodes :: "selection \<Rightarrow> election \<Rightarrow> bool \<Rightarrow> supervisor \<Rightarrow> node list" where
  "control_nodes sel el alive s = (case fst (ask sel el alive CmdNodes s) of Some (RepNodes ns) \<Rightarrow> ns | _ \<Rightarrow> [])"

definition control_node :: "selection \<Rightarrow> election \<Rightarrow> bool \<Rightarrow> nodeid \<Rightarrow> supervisor \<Rightarrow> node option" where
  "control_node sel el alive i s = (case fst (ask sel el alive (CmdNode i) s) of Some (RepNode n) \<Rightarrow> n | _ \<Rightarrow> None)"

definition control_events :: "selection \<Rightarrow> election \<Rightarrow> bool \<Rightarrow> nat \<Rightarrow> supervisor \<Rightarrow> event_record list" where
  "control_events sel el alive limit s = (case fst (ask sel el alive (CmdEvents limit) s) of Some (RepEvents es) \<Rightarrow> es | _ \<Rightarrow> [])"

definition control_jobs :: "selection \<Rightarrow> election \<Rightarrow> bool \<Rightarrow> nat \<Rightarrow> supervisor \<Rightarrow> job list" where
  "control_jobs sel el alive limit s = (case fst (ask sel el alive (CmdJobs limit) s) of Some (RepJobs js) \<Rightarrow> js | _ \<Rightarrow> [])"

definition control_job :: "selection \<Rightarrow> election \<Rightarrow> bool \<Rightarrow> jobid \<Rightarrow> supervisor \<Rightarrow> job_detail option \<times> supervisor" where
  "control_job sel el alive i s = (case ask sel el alive (CmdJob i) s of (Some (RepJob d), s') \<Rightarrow> (d, s') | (_, s') \<Rightarrow> (None, s'))"

definition control_submit :: "selection \<Rightarrow> election \<Rightarrow> bool \<Rightarrow> jobspec \<Rightarrow> supervisor \<Rightarrow> (cluster_error + jobid) \<times> supervisor" where
  "control_submit sel el alive spec s =
     (case ask sel el alive (CmdSubmitJob spec) s of (Some (RepJobId r), s') \<Rightarrow> (r, s') | (_, s') \<Rightarrow> (Inl unavailable, s'))"

text \<open>
  \<open>set_role\<close>, \<open>stop_node\<close>, \<open>start_node\<close>, \<open>pause_heartbeat\<close>, \<open>inject_failures\<close> and \<open>set_task_delay\<close> send one command each
  and pass its verdict on.
\<close>

definition control_verdict :: "selection \<Rightarrow> election \<Rightarrow> bool \<Rightarrow> command \<Rightarrow> supervisor \<Rightarrow> (cluster_error + unit) \<times> supervisor" where
  "control_verdict sel el alive c s =
     (case ask sel el alive c s of (Some (RepUnit r), s') \<Rightarrow> (r, s') | (_, s') \<Rightarrow> (Inl unavailable, s'))"

text \<open>A subscriber that fell behind is skipped forward: the gaps in its stream are dropped.\<close>

fun event_stream :: "(unit + event_record) list \<Rightarrow> event_record list" where
  "event_stream [] = []"
| "event_stream (Inr r # rs) = r # event_stream rs"
| "event_stream (Inl _ # rs) = event_stream rs"

section \<open>Readiness\<close>

text \<open>The status code; the snapshot is missing when it took more than a quarter of a second.\<close>

definition readyz :: "cluster_snapshot option \<Rightarrow> ('e + nat option) \<Rightarrow> nat" where
  "readyz cluster model =
     (case cluster of
        None \<Rightarrow> 503
      | Some snap \<Rightarrow>
          if 900 \<le> persistence_queue snap \<or> 30000 \<le> persistence_oldest_ms snap then 503
          else (case model of Inr (Some version) \<Rightarrow> 204 | Inr None \<Rightarrow> 503 | Inl _ \<Rightarrow> 503))"

section \<open>The age of the queue\<close>

text \<open>
  The write queue beside its gauge: the times its writes were queued, how long each finished write waited,
  and the clock. A write is queued, or the oldest is done.
\<close>

record write_queue =
  wq_times :: "millis list"
  wq_waits :: "nat list"
  wq_now :: millis
  wq_telemetry :: telemetry

inductive queueing :: "write_queue \<Rightarrow> bool" where
  queue_empty: "queueing \<lparr> wq_times = [], wq_waits = [], wq_now = t, wq_telemetry = no_telemetry \<rparr>"
| queue_push: "queueing q \<Longrightarrow> wq_now q \<le> t \<Longrightarrow> length (wq_times q) < u64_max \<Longrightarrow>
    queueing (q\<lparr> wq_times := wq_times q @ [t], wq_now := t, wq_telemetry := queued t (wq_telemetry q) \<rparr>)"
| queue_done: "queueing q \<Longrightarrow> wq_times q = x # xs \<Longrightarrow> wq_now q \<le> t \<Longrightarrow>
    queueing (q\<lparr> wq_times := xs, wq_waits := wq_waits q @ [t - x], wq_now := t, wq_telemetry := dequeued (wq_telemetry q) \<rparr>)"

definition gauge_ok :: "write_queue \<Rightarrow> bool" where
  "gauge_ok q \<longleftrightarrow> tm_depth (wq_telemetry q) = length (wq_times q) \<and> (\<forall>x\<in>set (wq_times q). x \<le> wq_now q) \<and>
     (case tm_oldest (wq_telemetry q) of None \<Rightarrow> wq_times q = [] | Some instant \<Rightarrow> wq_times q \<noteq> [] \<and> (\<forall>x\<in>set (wq_times q). instant \<le> x))"

lemma queueing_ok: "queueing q \<Longrightarrow> gauge_ok q"
proof (induction rule: queueing.induct)
  case (queue_push q t)
  then show ?case
    by (cases "wq_times q") (auto simp: gauge_ok_def queued_def sat_add_def split: option.splits if_splits)
next
  case (queue_done q x xs t)
  then show ?case
    by (auto simp: gauge_ok_def dequeued_def Let_def split: option.splits if_splits)
qed (simp add: gauge_ok_def no_telemetry_def)

lemma busy_queue:
  "\<exists>q. queueing q \<and> wq_times q = [1000 * k] \<and> wq_now q = 1000 * k \<and> list_all (\<lambda>w. w \<le> 1000) (wq_waits q) \<and>
     tm_oldest (wq_telemetry q) = Some 0 \<and> tm_depth (wq_telemetry q) = 1"
proof (induction k)
  case 0
  have "queueing \<lparr> wq_times = [], wq_waits = [], wq_now = 0, wq_telemetry = no_telemetry \<rparr>" by (rule queue_empty)
  from queue_push [OF this, of 0] show ?case
    by (intro exI conjI) (auto simp: queued_def no_telemetry_def sat_add_def)
next
  case (Suc k)
  let ?t = "1000 * Suc k"
  obtain q where q: "queueing q" "wq_times q = [1000 * k]" "wq_now q = 1000 * k" "list_all (\<lambda>w. w \<le> 1000) (wq_waits q)"
    "tm_oldest (wq_telemetry q) = Some 0" "tm_depth (wq_telemetry q) = 1" using Suc.IH by blast
  let ?q1 = "q\<lparr> wq_times := wq_times q @ [?t], wq_now := ?t, wq_telemetry := queued ?t (wq_telemetry q) \<rparr>"
  have q1: "queueing ?q1" by (rule queue_push [OF q(1)]) (simp_all add: q)
  have "wq_times ?q1 = 1000 * k # [?t]" by (simp add: q)
  then have q2: "queueing (?q1\<lparr> wq_times := [?t], wq_waits := wq_waits ?q1 @ [?t - 1000 * k], wq_now := ?t,
      wq_telemetry := dequeued (wq_telemetry ?q1) \<rparr>)" (is "queueing ?q2") using queue_done [OF q1, of "1000 * k" "[?t]" ?t] by simp
  have "wq_times ?q2 = [?t]" "wq_now ?q2 = ?t" "list_all (\<lambda>w. w \<le> 1000) (wq_waits ?q2)"
    "tm_oldest (wq_telemetry ?q2) = Some 0" "tm_depth (wq_telemetry ?q2) = 1"
    using q by (simp_all add: queued_def dequeued_def sat_add_def)
  then show ?case using q2 by blast
qed

text \<open>
  C40: The age of the write queue. At every moment the gauge counts the writes in the queue and reports an age
  no smaller than that of its oldest write, so a stuck queue is never overlooked. But it measures the time
  since the queue was last empty: under a steady load in which no write ever waits longer than a second it
  grows without bound, and from thirty seconds on the readiness probe answers 503, "durable persistence is
  saturated", with a queue of one write that has just arrived.
\<close>

theorem queue_age_overstated:
  "(\<forall>q now snap. queueing q \<longrightarrow>
      persistence_queue (apply_telemetry now (wq_telemetry q) snap) = length (wq_times q) \<and>
      (\<forall>x\<in>set (wq_times q). min (now - x) u64_max \<le> persistence_oldest_ms (apply_telemetry now (wq_telemetry q) snap))) \<and>
   (\<forall>k snap version. 1000 * k \<le> u64_max \<longrightarrow> (\<exists>q. queueing q \<and> wq_times q = [wq_now q] \<and> list_all (\<lambda>w. w \<le> 1000) (wq_waits q) \<and>
      persistence_oldest_ms (apply_telemetry (wq_now q) (wq_telemetry q) snap) = 1000 * k \<and>
      readyz (Some (apply_telemetry (wq_now q) (wq_telemetry q) snap)) (Inr (Some version)) = (if 30 \<le> k then 503 else 204)))"
proof (intro conjI allI impI)
  fix q now and snap :: cluster_snapshot assume "queueing q"
  then have ok: "gauge_ok q" by (rule queueing_ok)
  show "persistence_queue (apply_telemetry now (wq_telemetry q) snap) = length (wq_times q)"
    using ok by (simp add: gauge_ok_def apply_telemetry_def)
  show "\<forall>x\<in>set (wq_times q). min (now - x) u64_max \<le> persistence_oldest_ms (apply_telemetry now (wq_telemetry q) snap)"
    using ok by (auto simp: gauge_ok_def apply_telemetry_def split: option.splits intro!: diff_le_mono2 min.mono)
next
  fix k version and snap :: cluster_snapshot assume k: "1000 * k \<le> u64_max"
  obtain q where q: "queueing q" "wq_times q = [1000 * k]" "wq_now q = 1000 * k" "list_all (\<lambda>w. w \<le> 1000) (wq_waits q)"
    "tm_oldest (wq_telemetry q) = Some 0" "tm_depth (wq_telemetry q) = 1" using busy_queue by blast
  have "persistence_oldest_ms (apply_telemetry (wq_now q) (wq_telemetry q) snap) = 1000 * k"
    "persistence_queue (apply_telemetry (wq_now q) (wq_telemetry q) snap) = 1"
    using q k by (simp_all add: apply_telemetry_def)
  moreover have "30000 \<le> 1000 * k \<longleftrightarrow> 30 \<le> k" by linarith
  ultimately show "\<exists>q. queueing q \<and> wq_times q = [wq_now q] \<and> list_all (\<lambda>w. w \<le> 1000) (wq_waits q) \<and>
      persistence_oldest_ms (apply_telemetry (wq_now q) (wq_telemetry q) snap) = 1000 * k \<and>
      readyz (Some (apply_telemetry (wq_now q) (wq_telemetry q) snap)) (Inr (Some version)) = (if 30 \<le> k then 503 else 204)"
    using q by (intro exI [of _ q]) (simp add: readyz_def)
qed

theorem queue_age_overstated_witness:
  "\<exists>q. queueing q \<and> wq_times q = [wq_now q] \<and> list_all (\<lambda>w. w \<le> 1000) (wq_waits q) \<and>
     readyz (Some (apply_telemetry (wq_now q) (wq_telemetry q) default_snapshot)) (Inr (Some 1)) = 503"
proof -
  have k: "1000 * (31::nat) \<le> u64_max" by simp
  show ?thesis
    using queue_age_overstated [THEN conjunct2, rule_format, OF k, of default_snapshot 1] by auto
qed

end
