(* ===== verification/Remote_Workers.thy ===== *)
theory Remote_Workers
  imports Node_Runtime Telemetry
begin

text \<open>
  Workers over TCP: \<open>cluster-local/src/remote.rs\<close>, with the counters of \<open>telemetry.rs\<close> that it keeps.

  The accept loop is a step relation on the sockets it holds: each holds a permit of the connection semaphore,
  and one of the handshake semaphore until it has authenticated. A connection is a handshake
  (\<open>connection_open\<close>) and then a loop over a \<open>select!\<close>, one event per arm (\<open>conn_step\<close>); what it does to the
  world is the list of its effects, in order: bytes written to the socket, reports and commands sent to the
  supervisor, results handed to the artifact store. Whether a write or a report succeeds, what the store
  answers, and what the supervisor replies are arguments. Frames are those of the wire protocol, with the
  encoder and decoder of the crate \<open>postcard\<close> as arguments.
\<close>

section \<open>Admission\<close>

text \<open>
  A socket the loop has accepted: its task spawned but not yet polled, waiting for its handshake with the
  guard in place, or authenticated.
\<close>

datatype phase = Spawned | Waiting | Authenticated

record listener =
  ln_conn_permits :: nat
  ln_hs_permits :: nat
  ln_tasks :: "(nat, phase) btree"
  ln_telemetry :: telemetry

definition listening :: "nat \<Rightarrow> nat \<Rightarrow> listener" where
  "listening connections handshakes =
     \<lparr> ln_conn_permits = max connections 1, ln_hs_permits = max handshakes 1, ln_tasks = [],
       ln_telemetry = no_telemetry \<rparr>"

text \<open>One accepted socket: a permit of each semaphore, or the socket is dropped and counted.\<close>

definition accept_socket :: "nat \<Rightarrow> listener \<Rightarrow> listener" where
  "accept_socket c ln =
     (if ln_conn_permits ln = 0 then ln\<lparr> ln_telemetry := count_rejected (ln_telemetry ln) \<rparr>
      else if ln_hs_permits ln = 0 then ln\<lparr> ln_telemetry := count_rejected (ln_telemetry ln) \<rparr>
      else ln\<lparr> ln_conn_permits := ln_conn_permits ln - 1, ln_hs_permits := ln_hs_permits ln - 1,
               ln_tasks := bt_insert c Spawned (ln_tasks ln) \<rparr>)"

text \<open>The task's first poll: \<open>ConnectionGuard::new\<close>.\<close>

definition guard_new :: "nat \<Rightarrow> listener \<Rightarrow> listener" where
  "guard_new c ln =
     ln\<lparr> ln_tasks := bt_insert c Waiting (ln_tasks ln),
         ln_telemetry := preauth_opened (connection_opened (ln_telemetry ln)) \<rparr>"

text \<open>\<open>drop(handshake_permit)\<close> and \<open>ConnectionGuard::authenticated\<close>.\<close>

definition authenticated :: "nat \<Rightarrow> listener \<Rightarrow> listener" where
  "authenticated c ln =
     ln\<lparr> ln_hs_permits := ln_hs_permits ln + 1, ln_tasks := bt_insert c Authenticated (ln_tasks ln),
         ln_telemetry := preauth_closed (ln_telemetry ln) \<rparr>"

text \<open>
  The task of a connection ends, or is aborted: its permits are returned, and its guard, if it got that far,
  is dropped.
\<close>

definition release_permits :: "nat \<Rightarrow> phase \<Rightarrow> listener \<Rightarrow> listener" where
  "release_permits c ph ln =
     ln\<lparr> ln_tasks := bt_remove c (ln_tasks ln), ln_conn_permits := ln_conn_permits ln + 1,
         ln_hs_permits := (if ph = Authenticated then ln_hs_permits ln else ln_hs_permits ln + 1),
         ln_telemetry := (case ph of
             Spawned \<Rightarrow> ln_telemetry ln
           | Waiting \<Rightarrow> connection_closed (preauth_closed (ln_telemetry ln))
           | Authenticated \<Rightarrow> connection_closed (ln_telemetry ln)) \<rparr>"

inductive accepting :: "nat \<Rightarrow> nat \<Rightarrow> listener \<Rightarrow> bool" for connections handshakes where
  serve_start: "accepting connections handshakes (listening connections handshakes)"
| serve_accept: "accepting connections handshakes ln \<Longrightarrow> bt_get (ln_tasks ln) c = None \<Longrightarrow>
    accepting connections handshakes (accept_socket c ln)"
| serve_poll: "accepting connections handshakes ln \<Longrightarrow> bt_get (ln_tasks ln) c = Some Spawned \<Longrightarrow>
    accepting connections handshakes (guard_new c ln)"
| serve_authenticated: "accepting connections handshakes ln \<Longrightarrow> bt_get (ln_tasks ln) c = Some Waiting \<Longrightarrow>
    accepting connections handshakes (authenticated c ln)"
| serve_ended: "accepting connections handshakes ln \<Longrightarrow> bt_get (ln_tasks ln) c = Some ph \<Longrightarrow>
    accepting connections handshakes (release_permits c ph ln)"

section \<open>The handshake\<close>

datatype handshake =
    HsClosed
  | HsFailed io_error
  | HsReject reject_reason
  | HsAsk "nodeid option" node_capabilities

text \<open>On the first frame, or \<open>None\<close> when none came in time.\<close>

definition shake_hands :: "bytes option \<Rightarrow> node_message read_result option \<Rightarrow> handshake" where
  "shake_hands token first =
     (case first of
        None \<Rightarrow> HsClosed
      | Some ReadNone \<Rightarrow> HsClosed
      | Some (ReadErr e) \<Rightarrow> HsFailed e
      | Some (ReadSome (Hello protocol requested caps presented) _) \<Rightarrow>
          if protocol \<noteq> PROTOCOL_VERSION then HsReject ProtocolMismatch
          else if \<not> token_accepted token presented then HsReject Unauthorized
          else HsAsk requested caps
      | Some (ReadSome _ _) \<Rightarrow> HsClosed)"

datatype conn_effect =
    Wrote bytes
  | Reported node_report
  | Staged taskspec bytes
  | Commanded command

text \<open>What became of the question to the supervisor.\<close>

datatype attach_answer = ChannelClosed | ReplyDropped | Answered "reject_reason + attachment"

definition write_frame :: "(supervisor_message \<Rightarrow> bytes option) \<Rightarrow> bool \<Rightarrow> supervisor_message \<Rightarrow> bytes option" where
  "write_frame enc socket_ok m =
     (case encode_frame enc m [] of Inl _ \<Rightarrow> None | Inr bs \<Rightarrow> if socket_ok then Some bs else None)"

definition wrote :: "bytes option \<Rightarrow> conn_effect list" where
  "wrote w = (case w of Some bs \<Rightarrow> [Wrote bs] | None \<Rightarrow> [])"

record conn =
  cn_id :: nodeid
  cn_generation :: nat
  cn_assigned :: "task option"

definition connection_open :: "(supervisor_message \<Rightarrow> bytes option) \<Rightarrow> bytes option \<Rightarrow> handle \<Rightarrow> bool \<Rightarrow>
    node_message read_result option \<Rightarrow> attach_answer \<Rightarrow> conn_effect list \<times> conn option" where
  "connection_open enc token channel socket_ok first answer =
     (case shake_hands token first of
        HsClosed \<Rightarrow> ([], None)
      | HsFailed _ \<Rightarrow> ([], None)
      | HsReject reason \<Rightarrow> (wrote (write_frame enc socket_ok (Rejected reason)), None)
      | HsAsk requested caps \<Rightarrow>
          let ask = Commanded (CmdAttachRemote requested caps channel) in
          (case answer of
             ChannelClosed \<Rightarrow> ([], None)
           | ReplyDropped \<Rightarrow> ([ask], None)
           | Answered (Inl reason) \<Rightarrow> (ask # wrote (write_frame enc socket_ok (Rejected reason)), None)
           | Answered (Inr att) \<Rightarrow>
               (case write_frame enc socket_ok (Welcome PROTOCOL_VERSION (at_id att) (at_heartbeat_interval_ms att)) of
                  None \<Rightarrow> ([ask], None)
                | Some bs \<Rightarrow>
                    ([ask, Wrote bs], Some \<lparr> cn_id = at_id att, cn_generation = at_generation att, cn_assigned = None \<rparr>))))"

section \<open>The loop of a connection\<close>

datatype conn_event =
    CeShutdown
  | CeInbox node_inbox
  | CeInboxClosed
  | CeFrame node_message
  | CeFramesClosed

text \<open>What the surroundings answer to one event: the socket, the report channel, the artifact store.\<close>

record surroundings =
  sr_socket :: bool
  sr_reports :: bool
  sr_input :: "taskspec \<Rightarrow> bytes option"
  sr_store :: bool

fun protocol_error_text :: "protocol_error \<Rightarrow> string" where
  "protocol_error_text (FrameTooLarge sz) =
     ''frame of '' @ show_nat sz @ '' bytes exceeds the '' @ show_nat MAX_FRAME @ '' byte limit''"
| "protocol_error_text Malformed = ''malformed frame''"

definition ship :: "(supervisor_message \<Rightarrow> bytes option) \<Rightarrow> taskid \<Rightarrow> taskspec \<Rightarrow> bytes option \<Rightarrow> string + bytes" where
  "ship enc i spec input =
     (case wire_of spec input of
        Inl why \<Rightarrow> Inl (not_shippable_text why)
      | Inr wire \<Rightarrow>
          (case encode_frame enc (AssignMsg i wire) [] of
             Inl why \<Rightarrow> Inl (protocol_error_text why)
           | Inr out \<Rightarrow> Inr out))"

definition match_task :: "task option \<Rightarrow> taskid \<Rightarrow> task option" where
  "match_task held reported =
     (case held of Some t \<Rightarrow> if task_id t = reported then Some t else None | None \<Rightarrow> None)"

definition conn_write :: "surroundings \<Rightarrow> bytes \<Rightarrow> conn \<Rightarrow> conn_effect list \<times> conn option" where
  "conn_write sr out cn = (if sr_socket sr then ([Wrote out], Some cn) else ([], None))"

definition conn_control :: "(supervisor_message \<Rightarrow> bytes option) \<Rightarrow> surroundings \<Rightarrow> supervisor_message \<Rightarrow> conn \<Rightarrow>
    conn_effect list \<times> conn option" where
  "conn_control enc sr m cn = (case encode_frame enc m [] of Inl _ \<Rightarrow> ([], Some cn) | Inr out \<Rightarrow> conn_write sr out cn)"

fun conn_inbox :: "(supervisor_message \<Rightarrow> bytes option) \<Rightarrow> surroundings \<Rightarrow> node_inbox \<Rightarrow> conn \<Rightarrow> conn_effect list \<times> conn option" where
  "conn_inbox enc sr (InAssign t) cn =
     (case ship enc (task_id t) (task_spec t) (if sr_store sr then sr_input sr (task_spec t) else None) of
        Inr out \<Rightarrow> conn_write sr out (cn\<lparr> cn_assigned := Some t \<rparr>)
      | Inl why \<Rightarrow>
          ((if sr_reports sr then [Reported (ReportFinished (cn_id cn) t (OutFailed ExecutionError why))] else []), Some cn))"
| "conn_inbox enc sr (InPauseHeartbeat paused) cn = conn_control enc sr (PauseHeartbeatMsg paused) cn"
| "conn_inbox enc sr (InInjectFailures n) cn = conn_control enc sr (InjectFailuresMsg n) cn"
| "conn_inbox enc sr (InSetDelay ms) cn = conn_control enc sr (SetDelayMsg ms) cn"

definition conn_report :: "surroundings \<Rightarrow> node_report option \<Rightarrow> conn \<Rightarrow> conn_effect list \<times> conn option" where
  "conn_report sr report cn =
     (case report of
        None \<Rightarrow> ([], Some cn)
      | Some r \<Rightarrow> if sr_reports sr then ([Reported r], Some cn) else ([], None))"

fun conn_frame :: "surroundings \<Rightarrow> node_message \<Rightarrow> conn \<Rightarrow> conn_effect list \<times> conn option" where
  "conn_frame sr (HeartbeatMsg hb) cn = conn_report sr (Some (ReportHeartbeat (hb\<lparr> hb_node := cn_id cn \<rparr>))) cn"
| "conn_frame sr (TaskStartedMsg i) cn = conn_report sr (map_option (ReportStarted (cn_id cn)) (match_task (cn_assigned cn) i)) cn"
| "conn_frame sr (TaskProducedMsg i art) cn =
     (case match_task (cn_assigned cn) i of
        None \<Rightarrow> ([], Some cn)
      | Some t \<Rightarrow>
          (case verify art of
             Some bs \<Rightarrow> if sr_store sr then ([Staged (task_spec t) bs], Some cn) else ([], Some cn)
           | None \<Rightarrow> ([], Some cn)))"
| "conn_frame sr (TaskFinishedMsg i outcome) cn =
     (case match_task (cn_assigned cn) i of
        None \<Rightarrow> ([], Some cn)
      | Some t \<Rightarrow> conn_report sr (Some (ReportFinished (cn_id cn) t outcome)) (cn\<lparr> cn_assigned := None \<rparr>))"
| "conn_frame sr (Hello _ _ _ _) cn = ([], Some cn)"

fun conn_step :: "(supervisor_message \<Rightarrow> bytes option) \<Rightarrow> surroundings \<Rightarrow> conn_event \<Rightarrow> conn \<Rightarrow> conn_effect list \<times> conn option" where
  "conn_step enc sr CeShutdown cn = (wrote (write_frame enc (sr_socket sr) Shutdown), None)"
| "conn_step enc sr (CeInbox m) cn = conn_inbox enc sr m cn"
| "conn_step enc sr CeInboxClosed cn = ([], None)"
| "conn_step enc sr (CeFrame m) cn = conn_frame sr m cn"
| "conn_step enc sr CeFramesClosed cn = ([], None)"

text \<open>The loop, and the \<open>DetachRemote\<close> that follows it however it ended.\<close>

fun conn_loop :: "(supervisor_message \<Rightarrow> bytes option) \<Rightarrow> (surroundings \<times> conn_event) list \<Rightarrow> conn \<Rightarrow> conn_effect list \<times> conn option" where
  "conn_loop enc [] cn = ([], Some cn)"
| "conn_loop enc ((sr, ev) # evs) cn =
     (case conn_step enc sr ev cn of
        (es, None) \<Rightarrow> (es @ [Commanded (CmdDetachRemote (cn_id cn) (cn_generation cn))], None)
      | (es, Some cn') \<Rightarrow> (case conn_loop enc evs cn' of (es', fin) \<Rightarrow> (es @ es', fin)))"

definition connection :: "(supervisor_message \<Rightarrow> bytes option) \<Rightarrow> bytes option \<Rightarrow> handle \<Rightarrow> bool \<Rightarrow>
    node_message read_result option \<Rightarrow> attach_answer \<Rightarrow> (surroundings \<times> conn_event) list \<Rightarrow> conn_effect list \<times> conn option" where
  "connection enc token channel socket_ok first answer evs =
     (case connection_open enc token channel socket_ok first answer of
        (es, None) \<Rightarrow> (es, None)
      | (es, Some cn) \<Rightarrow> (case conn_loop enc evs cn of (es', fin) \<Rightarrow> (es @ es', fin)))"

section \<open>Permits\<close>

definition listener_ok :: "nat \<Rightarrow> nat \<Rightarrow> listener \<Rightarrow> bool" where
  "listener_ok connections handshakes ln \<longleftrightarrow> bt_wf (ln_tasks ln) \<and>
     ln_conn_permits ln + bt_count (\<lambda>_. True) (ln_tasks ln) = max connections 1 \<and>
     ln_hs_permits ln + bt_count (\<lambda>p. p \<noteq> Authenticated) (ln_tasks ln) = max handshakes 1 \<and>
     tm_connections (ln_telemetry ln) = bt_count (\<lambda>p. p \<noteq> Spawned) (ln_tasks ln) mod 2 ^ 64 \<and>
     tm_preauth (ln_telemetry ln) = bt_count (\<lambda>p. p = Waiting) (ln_tasks ln) mod 2 ^ 64"

text \<open>A counter that wraps counts what it should, up to its width.\<close>

lemma wrap_up: "(n mod 2 ^ 64 + 1) mod 2 ^ 64 = Suc n mod 2 ^ 64" for n :: nat
  by (metis Suc_eq_plus1 mod_add_left_eq)

lemma wrap_down: "(Suc n mod 2 ^ 64 + (2 ^ 64 - 1)) mod 2 ^ 64 = n mod 2 ^ 64" for n :: nat
proof -
  have "Suc n + (2 ^ 64 - 1) = n + 2 ^ 64" by simp
  then show ?thesis by (metis mod_add_left_eq mod_add_self2)
qed

lemmas telemetry_defs = connection_opened_def connection_closed_def preauth_opened_def preauth_closed_def count_rejected_def

lemma bt_count_remove:
  "bt_wf m \<Longrightarrow> bt_get m k = Some v \<Longrightarrow> bt_count P (bt_remove k m) + of_bool (P v) = bt_count P m"
proof (induction m)
  case (Cons e m)
  obtain a b where e: "e = (a, b)" by fastforce
  have wf: "bt_wf m" and notin: "a \<notin> set (map fst m)" using Cons.prems(1) e by (auto simp: bt_wf_def)
  show ?case
  proof (cases "k = a")
    case True
    then have "bt_remove k m = m" using notin by (auto simp: bt_remove_def filter_id_conv)
    then show ?thesis using True Cons.prems(2) e by (simp add: bt_remove_def bt_get_Cons bt_count_Cons)
  next
    case False
    then have "bt_remove k (e # m) = e # bt_remove k m" using e by (simp add: bt_remove_def)
    then show ?thesis using Cons.IH [OF wf] Cons.prems(2) False e by (simp add: bt_get_Cons bt_count_Cons)
  qed
qed simp

lemma listener_counts:
  assumes "listener_ok connections handshakes ln"
    "\<And>P. bt_count P m + of_bool (P old) = bt_count P (ln_tasks ln) + of_bool (P new)"
    "bt_wf m" "ln_tasks ln' = m" "ln_conn_permits ln' = ln_conn_permits ln"
    "ln_hs_permits ln' + of_bool (new \<noteq> Authenticated) = ln_hs_permits ln + of_bool (old \<noteq> Authenticated)"
    "tm_connections (ln_telemetry ln') = bt_count (\<lambda>p. p \<noteq> Spawned) m mod 2 ^ 64"
    "tm_preauth (ln_telemetry ln') = bt_count (\<lambda>p. p = Waiting) m mod 2 ^ 64"
  shows "listener_ok connections handshakes ln'"
  using assms(1,3-) assms(2) [of "\<lambda>_. True"] assms(2) [of "\<lambda>p. p \<noteq> Authenticated"] by (auto simp: listener_ok_def)

lemma accepting_ok: "accepting connections handshakes ln \<Longrightarrow> listener_ok connections handshakes ln"
proof (induction rule: accepting.induct)
  case (serve_accept ln c)
  then show ?case
    by (auto simp: listener_ok_def accept_socket_def bt_count_insert_new telemetry_defs)
next
  case (serve_poll ln c)
  have wf: "bt_wf (ln_tasks ln)" using serve_poll.IH by (simp add: listener_ok_def)
  note count = bt_count_insert_old [OF wf serve_poll.hyps(2), where w = Waiting]
  have "bt_count (\<lambda>p. p \<noteq> Spawned) (bt_insert c Waiting (ln_tasks ln)) = Suc (bt_count (\<lambda>p. p \<noteq> Spawned) (ln_tasks ln))"
    "bt_count (\<lambda>p. p = Waiting) (bt_insert c Waiting (ln_tasks ln)) = Suc (bt_count (\<lambda>p. p = Waiting) (ln_tasks ln))"
    using count [of "\<lambda>p. p \<noteq> Spawned"] count [of "\<lambda>p. p = Waiting"] by simp_all
  then show ?case using serve_poll.IH wrap_up
    by (intro listener_counts [OF serve_poll.IH count]) (simp_all add: wf listener_ok_def guard_new_def telemetry_defs)
next
  case (serve_authenticated ln c)
  have wf: "bt_wf (ln_tasks ln)" using serve_authenticated.IH by (simp add: listener_ok_def)
  note count = bt_count_insert_old [OF wf serve_authenticated.hyps(2), where w = Authenticated]
  have "bt_count (\<lambda>p. p \<noteq> Spawned) (ln_tasks ln) = bt_count (\<lambda>p. p \<noteq> Spawned) (bt_insert c Authenticated (ln_tasks ln))"
    "bt_count (\<lambda>p. p = Waiting) (ln_tasks ln) = Suc (bt_count (\<lambda>p. p = Waiting) (bt_insert c Authenticated (ln_tasks ln)))"
    using count [of "\<lambda>p. p \<noteq> Spawned"] count [of "\<lambda>p. p = Waiting"] by simp_all
  then show ?case using serve_authenticated.IH wrap_down
    by (intro listener_counts [OF serve_authenticated.IH count]) (simp_all add: wf listener_ok_def authenticated_def telemetry_defs)
next
  case (serve_ended ln c ph)
  have wf: "bt_wf (ln_tasks ln)" using serve_ended.IH by (simp add: listener_ok_def)
  note count = bt_count_remove [OF wf serve_ended.hyps(2), symmetric]
  show ?case
    using serve_ended.IH wf unfolding listener_ok_def release_permits_def telemetry_defs
      count [of "\<lambda>_. True"] count [of "\<lambda>p. p \<noteq> Authenticated"] count [of "\<lambda>p. p \<noteq> Spawned"] count [of "\<lambda>p. p = Waiting"]
    by (cases ph) (simp_all add: wrap_down [simplified])
qed (simp add: listener_ok_def listening_def no_telemetry_def)

text \<open>
  C38: The worker port is bounded. However sockets come, authenticate, fail and leave, at most the configured
  number of connections is held, and at most the configured number of them before authentication (at least
  one of each); no permit is ever lost or returned twice; and the two gauges of the telemetry are the numbers
  of sockets with a guard and of those among them still unauthenticated, neither ever wrapping around.
\<close>

theorem worker_port_bounded:
  assumes "accepting connections handshakes ln" "connections \<le> u64_max"
  shows "length (ln_tasks ln) + ln_conn_permits ln = max connections 1 \<and>
    bt_count (\<lambda>p. p \<noteq> Authenticated) (ln_tasks ln) + ln_hs_permits ln = max handshakes 1 \<and>
    tm_connections (ln_telemetry ln) = bt_count (\<lambda>p. p \<noteq> Spawned) (ln_tasks ln) \<and>
    tm_preauth (ln_telemetry ln) = bt_count (\<lambda>p. p = Waiting) (ln_tasks ln)"
proof -
  have ok: "listener_ok connections handshakes ln" by (rule accepting_ok [OF assms(1)])
  have all: "bt_count (\<lambda>_. True) (ln_tasks ln) = length (ln_tasks ln)" by (simp add: bt_count_def bt_values_def)
  have "bt_count (\<lambda>_. True) (ln_tasks ln) \<le> u64_max" using ok assms(2) by (auto simp: listener_ok_def max_def split: if_splits)
  then have "bt_count P (ln_tasks ln) < 2 ^ 64" for P
    using bt_count_mono [of "ln_tasks ln" P "\<lambda>_. True"] by simp
  then show ?thesis using ok unfolding listener_ok_def all by (simp add: add.commute)
qed

section \<open>What a worker can say\<close>

fun reports_of :: "conn_effect list \<Rightarrow> node_report list" where
  "reports_of [] = []"
| "reports_of (Reported r # es) = r # reports_of es"
| "reports_of (e # es) = reports_of es"

fun commands_of :: "conn_effect list \<Rightarrow> command list" where
  "commands_of [] = []"
| "commands_of (Commanded c # es) = c # commands_of es"
| "commands_of (e # es) = commands_of es"

fun given_tasks :: "(surroundings \<times> conn_event) list \<Rightarrow> task list" where
  "given_tasks [] = []"
| "given_tasks ((sr, CeInbox (InAssign t)) # evs) = t # given_tasks evs"
| "given_tasks (e # evs) = given_tasks evs"

lemma reports_append [simp]: "reports_of (xs @ ys) = reports_of xs @ reports_of ys"
  by (induction xs rule: reports_of.induct) auto

lemma commands_append [simp]: "commands_of (xs @ ys) = commands_of xs @ commands_of ys"
  by (induction xs rule: commands_of.induct) auto

lemma wrote_only [simp]: "reports_of (wrote w) = []" "commands_of (wrote w) = []" "Staged spec bs \<notin> set (wrote w)"
  by (auto simp: wrote_def split: option.splits)


definition held_count :: "conn option \<Rightarrow> task \<Rightarrow> nat" where
  "held_count cn t = (case cn of Some c \<Rightarrow> of_bool (cn_assigned c = Some t) | None \<Rightarrow> 0)"

lemmas conn_defs = conn_write_def conn_control_def conn_report_def match_task_def held_count_def

text \<open>What one turn of the loop may do.\<close>

definition turn_ok :: "surroundings \<Rightarrow> conn_event \<Rightarrow> conn \<Rightarrow> conn_effect list \<Rightarrow> conn option \<Rightarrow> bool" where
  "turn_ok sr ev cn es fin \<longleftrightarrow> commands_of es = [] \<and> (\<forall>r\<in>set (reports_of es). report_node r = cn_id cn) \<and>
    (\<forall>cn'. fin = Some cn' \<longrightarrow> cn_id cn' = cn_id cn \<and> cn_generation cn' = cn_generation cn) \<and>
    (\<forall>t. count_list (finished_tasks (reports_of es)) t + held_count fin t \<le> count_list (given_tasks [(sr, ev)]) t + held_count (Some cn) t) \<and>
    (\<forall>t\<in>set (started_tasks (reports_of es)). cn_assigned cn = Some t) \<and>
    (\<forall>spec bs. Staged spec bs \<in> set es \<longrightarrow>
      (\<exists>t art. ev = CeFrame (TaskProducedMsg (task_id t) art) \<and> cn_assigned cn = Some t \<and> task_spec t = spec \<and> verify art = Some bs))"

lemma conn_inbox_turn: "conn_inbox enc sr m cn = (es, fin) \<Longrightarrow> turn_ok sr (CeInbox m) cn es fin"
  by (cases "(enc, sr, m, cn)" rule: conn_inbox.cases)
    (auto simp: conn_defs turn_ok_def split: sum.splits option.splits if_splits)

lemma conn_frame_turn: "conn_frame sr m cn = (es, fin) \<Longrightarrow> turn_ok sr (CeFrame m) cn es fin"
  by (cases "(sr, m, cn)" rule: conn_frame.cases)
    (auto simp: conn_defs turn_ok_def split: sum.splits option.splits if_splits)

lemma conn_step_turn:
  assumes "conn_step enc sr ev cn = (es, fin)"
  shows "turn_ok sr ev cn es fin"
proof -
  have stop: "turn_ok sr ev cn (wrote w) None" for w by (simp add: turn_ok_def held_count_def)
  have quiet: "turn_ok sr ev cn [] None" by (simp add: turn_ok_def held_count_def)
  show ?thesis using assms stop quiet by (cases ev) (auto intro: conn_inbox_turn conn_frame_turn)
qed

lemma conn_loop_ConsE:
  assumes "conn_loop enc ((sr, ev) # evs) cn = (es, fin)"
  obtains (stopped) es1 where "conn_step enc sr ev cn = (es1, None)" "fin = None"
      "es = es1 @ [Commanded (CmdDetachRemote (cn_id cn) (cn_generation cn))]"
  | (went_on) es1 cn1 es2 where "conn_step enc sr ev cn = (es1, Some cn1)" "conn_loop enc evs cn1 = (es2, fin)" "es = es1 @ es2"
  using assms by (auto split: prod.splits option.splits)

lemma conn_loop_commands:
  "conn_loop enc evs cn = (es, fin) \<Longrightarrow>
     commands_of es = (if fin = None then [CmdDetachRemote (cn_id cn) (cn_generation cn)] else []) \<and>
     (\<forall>r\<in>set (reports_of es). report_node r = cn_id cn)"
proof (induction evs arbitrary: cn es)
  case (Cons e evs)
  obtain sr ev where e: "e = (sr, ev)" by fastforce
  from Cons.prems [unfolded e] show ?case
  proof (cases rule: conn_loop_ConsE)
    case (stopped es1)
    then show ?thesis using conn_step_turn [OF stopped(1)] by (simp add: turn_ok_def)
  next
    case (went_on es1 cn1 es2)
    then show ?thesis using conn_step_turn [OF went_on(1)] Cons.IH [OF went_on(2)] by (auto simp: turn_ok_def)
  qed
qed auto





section \<open>Coming and going\<close>

text \<open>The frame with which a peer may be connected.\<close>

fun admitted :: "bytes option \<Rightarrow> node_message read_result option \<Rightarrow> bool" where
  "admitted token (Some (ReadSome (Hello protocol requested caps presented) rest)) \<longleftrightarrow>
     protocol = PROTOCOL_VERSION \<and> token_accepted token presented"
| "admitted token first \<longleftrightarrow> False"

fun asked :: "node_message read_result option \<Rightarrow> nodeid option \<times> node_capabilities" where
  "asked (Some (ReadSome (Hello protocol requested caps presented) rest)) = (requested, caps)"
| "asked first = (None, \<lparr> cores = 0, memory_bytes = 0 \<rparr>)"

lemma shake_hands_admits:
  "shake_hands token first = HsAsk requested caps \<longleftrightarrow> admitted token first \<and> asked first = (requested, caps)"
  by (cases "(token, first)" rule: admitted.cases) (auto simp: shake_hands_def split: node_message.splits)

text \<open>
  C37: Who may join, and how a worker leaves. A peer that did not open with a \<open>Hello\<close> of this protocol version
  and the expected token makes the supervisor do nothing: no command, no report, no result. A peer that did
  is asked about once, with what it said. A connection that got as far as \<open>Welcome\<close> and has ended has told
  the supervisor so, by the id and generation it was attached with, and nothing else.
\<close>

theorem worker_comes_and_goes:
  "(let run = connection enc token channel ok first answer evs in
    if admitted token first \<and> answer \<noteq> ChannelClosed
     then commands_of (fst run) = CmdAttachRemote (fst (asked first)) (snd (asked first)) channel #
       (case snd (connection_open enc token channel ok first answer) of
          None \<Rightarrow> []
        | Some cn \<Rightarrow> if snd run = None then [CmdDetachRemote (cn_id cn) (cn_generation cn)] else []) \<and>
       (\<forall>cn. snd (connection_open enc token channel ok first answer) = Some cn \<longrightarrow>
          (\<exists>att. answer = Answered (Inr att) \<and> cn_id cn = at_id att \<and> cn_generation cn = at_generation att))
     else commands_of (fst run) = [] \<and> reports_of (fst run) = [] \<and> (\<forall>spec bs. Staged spec bs \<notin> set (fst run)) \<and> snd run = None)"
proof -
  obtain es fin where opened: "connection_open enc token channel ok first answer = (es, fin)" by fastforce
  show ?thesis
  proof (cases "admitted token first \<and> answer \<noteq> ChannelClosed")
    case True
    then have ask: "shake_hands token first = HsAsk (fst (asked first)) (snd (asked first))" by (simp add: shake_hands_admits)
    have es: "commands_of es = [CmdAttachRemote (fst (asked first)) (snd (asked first)) channel]"
      "\<forall>cn. fin = Some cn \<longrightarrow> (\<exists>att. answer = Answered (Inr att) \<and> cn_id cn = at_id att \<and> cn_generation cn = at_generation att)"
      using opened ask True by (auto simp: connection_open_def Let_def split: attach_answer.splits sum.splits option.splits)
    show ?thesis
    proof (cases fin)
      case (Some cn)
      obtain es' fin' where loop: "conn_loop enc evs cn = (es', fin')" by fastforce
      show ?thesis using True es Some opened loop conn_loop_commands [OF loop] by (simp add: connection_def)
    qed (use True es opened in \<open>simp add: connection_def\<close>)
  next
    case False
    then have "fin = None \<and> commands_of es = [] \<and> reports_of es = [] \<and> (\<forall>spec bs. Staged spec bs \<notin> set es)"
      using opened shake_hands_admits [of token first]
      by (auto simp: connection_open_def Let_def split: handshake.splits attach_answer.splits sum.splits option.splits)
    then show ?thesis using opened unfolding Let_def if_not_P [OF False] by (simp add: connection_def)
  qed
qed

section \<open>Examples\<close>

text \<open>An encoder in the place of \<open>postcard\<close>: any message as one byte.\<close>

definition demo_enc :: "supervisor_message \<Rightarrow> bytes option" where
  "demo_enc m = Some [7]"

definition demo_hello :: "node_message read_result option" where
  "demo_hello = Some (ReadSome (Hello 4 None (new_capabilities 2 0) (Some [1, 2])) [])"

definition demo_answer :: attach_answer where
  "demo_answer = Answered (Inr \<lparr> at_id = 9, at_heartbeat_interval_ms = 1000, at_generation = 3 \<rparr>)"

definition calm :: surroundings where
  "calm = \<lparr> sr_socket = True, sr_reports = True, sr_input = (\<lambda>_. None), sr_store = False \<rparr>"

text \<open>
  When the \<open>Welcome\<close> cannot be written, the connection ends with the worker attached and no \<open>DetachRemote\<close>: the
  supervisor is left to its heartbeat timeout.
\<close>

lemma welcome_lost_no_detach:
  "admitted token first \<Longrightarrow>
   commands_of (fst (connection enc token channel False first (Answered (Inr att)) evs)) =
     [CmdAttachRemote (fst (asked first)) (snd (asked first)) channel]"
  using shake_hands_admits [of token first "fst (asked first)" "snd (asked first)"]
  by (simp add: connection_def connection_open_def write_frame_def Let_def split: sum.splits)

text \<open>An assignment that is shipped is read back as the task and the input it was made of.\<close>

lemma ship_read_back:
  assumes "ship enc i spec input = Inr out" "\<And>m body. enc m = Some body \<Longrightarrow> dec body = Some m"
  shows "\<exists>wire. read_frame dec (out @ rest) = ReadSome (AssignMsg i wire) rest \<and> from_wire wire = spec \<and>
    wire_input wire = (case spec of TaskAnalysis _ _ _ \<Rightarrow> input | _ \<Rightarrow> Some [])"
proof -
  obtain wire where wire: "wire_of spec input = Inr wire" "encode_frame enc (AssignMsg i wire) [] = Inr out"
    using assms(1) by (auto simp: ship_def split: sum.splits)
  obtain body where body: "enc (AssignMsg i wire) = Some body" using wire(2) by (auto simp: encode_frame_def split: option.splits)
  have "read_frame dec (out @ rest) = ReadSome (AssignMsg i wire) rest"
    using read_frame_encoded [OF wire(2) body, of dec] assms(2) [OF body] by simp
  then show ?thesis using wire_roundtrip [of spec input] wire(1) by auto
qed

theorem worker_port_bounded_witness:
  "\<exists>ln. accepting 2 1 ln \<and> length (ln_tasks ln) + ln_conn_permits ln = 2 \<and> ln_hs_permits ln = 0 \<and> tm_rejected (ln_telemetry ln) = 1"
proof -
  let ?ln = "accept_socket 6 (accept_socket 5 (listening 2 1))"
  have "accepting 2 1 ?ln"
    by (intro accepting.intros) (simp_all add: listening_def accept_socket_def bt_get_Cons)
  moreover have "(2::nat) \<le> u64_max" by simp
  note worker_port_bounded [OF \<open>accepting 2 1 ?ln\<close> this]
  ultimately show ?thesis
    by (intro exI [of _ ?ln]) (simp add: listening_def accept_socket_def count_rejected_def no_telemetry_def)
qed


theorem worker_comes_and_goes_witness:
  "commands_of (fst (connection demo_enc (Some [1, 2]) (Connection 4) True demo_hello demo_answer [(calm, CeFramesClosed)])) =
     [CmdAttachRemote None (new_capabilities 2 0) (Connection 4), CmdDetachRemote 9 3] \<and>
   commands_of (fst (connection demo_enc (Some [1, 3]) (Connection 4) True demo_hello demo_answer [(calm, CeFramesClosed)])) = []"
proof -
  have hello: "admitted (Some [1, 2]) demo_hello" "\<not> admitted (Some [1, 3]) demo_hello" "asked demo_hello = (None, new_capabilities 2 0)"
    "demo_answer \<noteq> ChannelClosed"
    by (simp_all add: demo_hello_def demo_answer_def PROTOCOL_VERSION_def token_accepted_def MAX_TOKEN_def)
  have opened: "snd (connection_open demo_enc (Some [1, 2]) (Connection 4) True demo_hello demo_answer) =
      Some \<lparr> cn_id = 9, cn_generation = 3, cn_assigned = None \<rparr>"
    "snd (connection demo_enc (Some [1, 2]) (Connection 4) True demo_hello demo_answer [(calm, CeFramesClosed)]) = None"
    by (simp_all add: connection_def connection_open_def demo_hello_def shake_hands_def demo_answer_def PROTOCOL_VERSION_def
        token_accepted_def MAX_TOKEN_def write_frame_def encode_frame_def demo_enc_def MAX_FRAME_def Let_def)
  show ?thesis
    using worker_comes_and_goes [of demo_enc "Some [1, 2]" "Connection 4" True demo_hello demo_answer "[(calm, CeFramesClosed)]"]
      worker_comes_and_goes [of demo_enc "Some [1, 3]" "Connection 4" True demo_hello demo_answer "[(calm, CeFramesClosed)]"]
    by (simp add: hello opened Let_def)
qed

end
