(* ===== verification/Publication.thy ===== *)
theory Publication
  imports Market_Keys Accounts
begin

text \<open>
  The read model and its publication: the versions and the three tables of
  \<open>crates/storage/src/sqlite/read_model.rs\<close>, and the run that builds and publishes a version
  (\<open>crates/server/src/materialise_task.rs\<close>).

  A table is the list of its rows; what a row says of a market beside its key, its state and its version is
  the type parameter of the table, since nothing here reads it. A repository call is one transaction: it takes
  effect as a whole or, when the list \<open>faults\<close> says so, not at all. What the regions' reductions yield is an
  argument of a run.
\<close>

section \<open>Tables\<close>

datatype row_state = StagingRow | PublishedRow

record ('k, 'r) stored =
  st_key :: 'k
  st_state :: row_state
  st_version :: nat
  st_row :: 'r

text \<open>\<open>INSERT ... ON CONFLICT(key, state) DO UPDATE\<close>, always into the staging state.\<close>

definition upsert :: "nat \<Rightarrow> 'k \<Rightarrow> 'r \<Rightarrow> ('k, 'r) stored list \<Rightarrow> ('k, 'r) stored list" where
  "upsert version k r t =
     (if \<exists>x\<in>set t. st_key x = k \<and> st_state x = StagingRow
      then map (\<lambda>x. if st_key x = k \<and> st_state x = StagingRow then x\<lparr> st_version := version, st_row := r \<rparr> else x) t
      else t @ [\<lparr> st_key = k, st_state = StagingRow, st_version = version, st_row = r \<rparr>])"

definition delete_staging :: "('k, 'r) stored list \<Rightarrow> ('k, 'r) stored list" where
  "delete_staging t = filter (\<lambda>x. st_state x \<noteq> StagingRow) t"

definition staged_by :: "nat \<Rightarrow> ('k, 'r) stored \<Rightarrow> bool" where
  "staged_by version x \<longleftrightarrow> st_state x = StagingRow \<and> st_version x = version"

definition delete_candidate :: "nat \<Rightarrow> ('k, 'r) stored list \<Rightarrow> ('k, 'r) stored list" where
  "delete_candidate version t = filter (\<lambda>x. \<not> staged_by version x) t"

text \<open>The two statements of \<open>publish\<close> on one table.\<close>

definition delete_replaced :: "nat \<Rightarrow> ('k, 'r) stored list \<Rightarrow> ('k, 'r) stored list" where
  "delete_replaced version t =
     filter (\<lambda>x. \<not> (st_state x = PublishedRow \<and> st_key x \<in> st_key ` {y \<in> set t. staged_by version y})) t"

definition swap_over :: "nat \<Rightarrow> ('k, 'r) stored list \<Rightarrow> ('k, 'r) stored list" where
  "swap_over version t = map (\<lambda>x. if staged_by version x then x\<lparr> st_state := PublishedRow \<rparr> else x) t"

text \<open>A read: every query of a page asks for the published state.\<close>

definition read_row :: "'k \<Rightarrow> ('k, 'r) stored list \<Rightarrow> ('k, 'r) stored option" where
  "read_row k t = find (\<lambda>x. st_key x = k \<and> st_state x = PublishedRow) t"

section \<open>Versions\<close>

datatype version_state = VStaging | VPublished | VFailed

fun version_state_str :: "version_state \<Rightarrow> string" where
  "version_state_str VStaging = ''staging''"
| "version_state_str VPublished = ''published''"
| "version_state_str VFailed = ''failed''"

definition parse_version_state :: "string \<Rightarrow> version_state option" where
  "parse_version_state raw = find (\<lambda>s. version_state_str s = raw) [VStaging, VPublished, VFailed]"

record analysis_version =
  av_version :: nat
  av_state :: version_state
  av_algorithm :: nat
  av_started_at :: millis
  av_published_at :: "millis option"
  av_source_from :: "millis option"
  av_source_until :: "millis option"
  av_markets :: nat
  av_note :: "string option"

record ('s, 'w, 'u) read_model =
  rm_versions :: "analysis_version list"
  rm_next :: nat
  rm_current :: "(market_key, 's) stored list"
  rm_windows :: "(market_key \<times> string, 'w) stored list"
  rm_rollup :: "(region \<times> itemid \<times> string \<times> nat, 'u) stored list"

definition empty_read_model :: "('s, 'w, 'u) read_model" where
  "empty_read_model = \<lparr> rm_versions = [], rm_next = 1, rm_current = [], rm_windows = [], rm_rollup = [] \<rparr>"

record ('s, 'w) materialised =
  mt_key :: market_key
  mt_state :: 's
  mt_windows :: "(market_key \<times> window \<times> 'w) list"

datatype scope = RegionScope | RealmScope nat

fun scope_realm_id :: "scope \<Rightarrow> nat" where
  "scope_realm_id RegionScope = 0"
| "scope_realm_id (RealmScope realm) = realm"

definition parse_scope :: "nat \<Rightarrow> scope" where
  "parse_scope realm = (if realm = 0 then RegionScope else RealmScope realm)"

record 'u rollup =
  ru_region :: region
  ru_item :: itemid
  ru_track :: "track option"
  ru_kind :: item_kind
  ru_scope :: scope
  ru_row :: 'u

text \<open>The stored form of a track: nothing for a recipe, a dash for one no catalogue names.\<close>

fun track_column :: "track option \<Rightarrow> item_kind \<Rightarrow> string" where
  "track_column t Recipe = []"
| "track_column None kind = ''-''"
| "track_column (Some t) kind = track_slug t"

definition track_from :: "string \<Rightarrow> track option" where
  "track_from raw = (if raw = [] \<or> raw = ''-'' then None else from_slug raw)"

definition fail_version :: "string \<Rightarrow> analysis_version \<Rightarrow> analysis_version" where
  "fail_version note v =
     v\<lparr> av_state := VFailed, av_note := Some (case av_note v of Some n \<Rightarrow> n | None \<Rightarrow> note) \<rparr>"

definition begin_version :: "nat \<Rightarrow> millis \<Rightarrow> ('s, 'w, 'u) read_model \<Rightarrow> nat \<times> ('s, 'w, 'u) read_model" where
  "begin_version algorithm now rm =
     (rm_next rm,
      rm\<lparr> rm_versions := map (\<lambda>v. if av_state v = VStaging then fail_version ''abandoned: a later run started'' v else v) (rm_versions rm) @
            [\<lparr> av_version = rm_next rm, av_state = VStaging, av_algorithm = algorithm, av_started_at = now,
               av_published_at = None, av_source_from = None, av_source_until = None, av_markets = 0, av_note = None \<rparr>],
          rm_next := rm_next rm + 1,
          rm_current := delete_staging (rm_current rm), rm_windows := delete_staging (rm_windows rm),
          rm_rollup := delete_staging (rm_rollup rm) \<rparr>)"

definition update_version :: "nat \<Rightarrow> (analysis_version \<Rightarrow> analysis_version) \<Rightarrow> analysis_version list \<Rightarrow> analysis_version list" where
  "update_version version f vs = map (\<lambda>v. if av_version v = version then f v else v) vs"

definition stage :: "nat \<Rightarrow> ('s, 'w) materialised list \<Rightarrow> ('s, 'w, 'u) read_model \<Rightarrow> nat \<times> ('s, 'w, 'u) read_model" where
  "stage version markets rm =
     (if markets = [] then (0, rm)
      else (length markets,
        rm\<lparr> rm_current := fold (\<lambda>m. upsert version (mt_key m) (mt_state m)) markets (rm_current rm),
            rm_windows := fold (\<lambda>m. fold (\<lambda>(k, w, r). upsert version (k, window_key w) r) (mt_windows m)) markets (rm_windows rm),
            rm_versions := update_version version (\<lambda>v. v\<lparr> av_markets := av_markets v + length markets \<rparr>) (rm_versions rm) \<rparr>))"

definition rollup_key :: "'u rollup \<Rightarrow> region \<times> itemid \<times> string \<times> nat" where
  "rollup_key u = (ru_region u, ru_item u, track_column (ru_track u) (ru_kind u), scope_realm_id (ru_scope u))"

definition stage_rollups :: "nat \<Rightarrow> 'u rollup list \<Rightarrow> ('s, 'w, 'u) read_model \<Rightarrow> nat \<times> ('s, 'w, 'u) read_model" where
  "stage_rollups version us rm =
     (if us = [] then (0, rm)
      else (length us, rm\<lparr> rm_rollup := fold (\<lambda>u. upsert version (rollup_key u) (ru_row u)) us (rm_rollup rm) \<rparr>))"

definition publish_version :: "nat \<Rightarrow> millis option \<times> millis option \<Rightarrow> millis \<Rightarrow> ('s, 'w, 'u) read_model \<Rightarrow>
    repo_error + ('s, 'w, 'u) read_model" where
  "publish_version version source now rm =
     (case find (\<lambda>v. av_version v = version) (rm_versions rm) of
        None \<Rightarrow> Inl Repo_NotFound
      | Some v \<Rightarrow>
          if av_state v \<noteq> VStaging then Inl Repo_Conflict
          else Inr (rm\<lparr> rm_current := swap_over version (delete_replaced version (rm_current rm)),
                        rm_windows := swap_over version (delete_replaced version (rm_windows rm)),
                        rm_rollup := swap_over version (delete_replaced version (rm_rollup rm)),
                        rm_versions := update_version version
                          (\<lambda>v. v\<lparr> av_state := VPublished, av_published_at := Some now, av_source_from := fst source,
                                  av_source_until := snd source \<rparr>) (rm_versions rm) \<rparr>))"

definition abandon :: "nat \<Rightarrow> string \<Rightarrow> ('s, 'w, 'u) read_model \<Rightarrow> ('s, 'w, 'u) read_model" where
  "abandon version note rm =
     rm\<lparr> rm_current := delete_candidate version (rm_current rm), rm_windows := delete_candidate version (rm_windows rm),
         rm_rollup := delete_candidate version (rm_rollup rm),
         rm_versions := update_version version (\<lambda>v. v\<lparr> av_state := VFailed, av_note := Some note \<rparr>) (rm_versions rm) \<rparr>"

definition published_version :: "('s, 'w, 'u) read_model \<Rightarrow> analysis_version option" where
  "published_version rm = find (\<lambda>v. av_state v = VPublished) (rev (sort_key av_version (rm_versions rm)))"

definition version_list :: "nat \<Rightarrow> ('s, 'w, 'u) read_model \<Rightarrow> analysis_version list" where
  "version_list limit rm = take limit (rev (sort_key av_version (rm_versions rm)))"

definition read_market :: "market_key \<Rightarrow> ('s, 'w, 'u) read_model \<Rightarrow> 's option" where
  "read_market k rm = map_option st_row (read_row k (rm_current rm))"

definition read_window :: "market_key \<Rightarrow> window \<Rightarrow> ('s, 'w, 'u) read_model \<Rightarrow> 'w option" where
  "read_window k w rm = map_option st_row (read_row (k, window_key w) (rm_windows rm))"

definition stored_windows_of :: "market_key \<Rightarrow> ('s, 'w, 'u) read_model \<Rightarrow> (string \<times> 'w) list" where
  "stored_windows_of k rm = sort_key fst (map (\<lambda>x. (snd (st_key x), st_row x))
     (filter (\<lambda>x. st_state x = PublishedRow \<and> fst (st_key x) = k) (rm_windows rm)))"

definition rollup_row :: "region \<Rightarrow> itemid \<Rightarrow> string \<Rightarrow> nat \<Rightarrow> ('s, 'w, 'u) read_model \<Rightarrow> 'u option" where
  "rollup_row r item column realm rm = map_option st_row (read_row (r, item, column, realm) (rm_rollup rm))"

definition read_rollup :: "region \<Rightarrow> itemid \<Rightarrow> track option \<Rightarrow> scope \<Rightarrow> ('s, 'w, 'u) read_model \<Rightarrow> 'u option" where
  "read_rollup r item t scope rm = map_option st_row (find (\<lambda>x. st_state x = PublishedRow \<and>
     (case st_key x of (r', item', column, realm) \<Rightarrow> r' = r \<and> item' = item \<and> realm = scope_realm_id scope \<and>
        (column = (case t of Some t \<Rightarrow> track_slug t | None \<Rightarrow> []) \<or>
         column = (case t of Some t \<Rightarrow> track_slug t | None \<Rightarrow> ''-'')))) (rm_rollup rm))"

section \<open>A run\<close>

text \<open>
  The passes of a run: one region's commodities, or its per-realm markets, as its reads and its reduction left
  them, with the times of the oldest and the newest sample it read.
\<close>

datatype ('s, 'w, 'u) pass =
    CommodityPass "repo_error + ('s, 'w) materialised list \<times> millis option \<times> millis option"
  | RealmPass "repo_error + 'u rollup list \<times> millis option \<times> millis option"

record region_report =
  rr_markets :: nat
  rr_oldest :: "millis option"
  rr_newest :: "millis option"

fun min_option :: "millis option \<Rightarrow> millis option \<Rightarrow> millis option" where
  "min_option (Some a) (Some b) = Some (min a b)"
| "min_option x None = x"
| "min_option None x = x"

fun max_option :: "millis option \<Rightarrow> millis option \<Rightarrow> millis option" where
  "max_option (Some a) (Some b) = Some (max a b)"
| "max_option x None = x"
| "max_option None x = x"

function chunks :: "nat \<Rightarrow> 'a list \<Rightarrow> 'a list list" where
  "chunks n xs = (if xs = [] \<or> n = 0 then [] else take n xs # chunks n (drop n xs))"
  by auto
termination by (relation "measure (\<lambda>(n, xs). length xs)") auto

declare chunks.simps [simp del]

definition BATCH :: nat where
  "BATCH = 250"

text \<open>A call that may fail takes the next fault.\<close>

fun stage_all :: "('b \<Rightarrow> 'm \<Rightarrow> nat \<times> 'm) \<Rightarrow> 'b list \<Rightarrow> bool list \<times> 'm \<Rightarrow> (repo_error + nat) \<times> bool list \<times> 'm" where
  "stage_all op [] (faults, rm) = (Inr 0, faults, rm)"
| "stage_all op (b # bs) (True # faults, rm) = (Inl Repo_Backend, faults, rm)"
| "stage_all op (b # bs) (faults, rm) =
     (case op b rm of (n, rm') \<Rightarrow>
        (case stage_all op bs (tl faults, rm') of
           (Inl e, rest) \<Rightarrow> (Inl e, rest)
         | (Inr m, rest) \<Rightarrow> (Inr (n + m), rest)))"

definition reported :: "millis option \<times> millis option \<Rightarrow> (repo_error + nat) \<times> 'st \<Rightarrow> (repo_error + region_report) \<times> 'st" where
  "reported ends r = (case r of
     (Inl e, st) \<Rightarrow> (Inl e, st)
   | (Inr n, st) \<Rightarrow> (Inr \<lparr> rr_markets = n, rr_oldest = fst ends, rr_newest = snd ends \<rparr>, st))"

fun run_pass :: "nat \<Rightarrow> ('s, 'w, 'u) pass \<Rightarrow> bool list \<times> ('s, 'w, 'u) read_model \<Rightarrow>
    (repo_error + region_report) \<times> bool list \<times> ('s, 'w, 'u) read_model" where
  "run_pass version (CommodityPass (Inl e)) st = (Inl e, st)"
| "run_pass version (CommodityPass (Inr (rows, ends))) st = reported ends (stage_all (stage version) (chunks BATCH rows) st)"
| "run_pass version (RealmPass (Inl e)) st = (Inl e, st)"
| "run_pass version (RealmPass (Inr (us, ends))) st = reported ends (stage_all (stage_rollups version) (chunks BATCH us) st)"

definition add_report :: "region_report \<Rightarrow> region_report \<Rightarrow> region_report" where
  "add_report r acc = \<lparr> rr_markets = rr_markets acc + rr_markets r, rr_oldest = min_option (rr_oldest acc) (rr_oldest r),
     rr_newest = max_option (rr_newest acc) (rr_newest r) \<rparr>"

fun run_passes :: "nat \<Rightarrow> region_report \<Rightarrow> ('s, 'w, 'u) pass list \<Rightarrow> bool list \<times> ('s, 'w, 'u) read_model \<Rightarrow>
    (repo_error + region_report) \<times> bool list \<times> ('s, 'w, 'u) read_model" where
  "run_passes version acc [] st = (Inr acc, st)"
| "run_passes version acc (p # ps) st =
     (case run_pass version p st of
        (Inl e, st') \<Rightarrow> (Inl e, st')
      | (Inr r, st') \<Rightarrow> run_passes version (add_report r acc) ps st')"

definition no_report :: region_report where
  "no_report = \<lparr> rr_markets = 0, rr_oldest = None, rr_newest = None \<rparr>"

definition take_fault :: "bool list \<times> 'm \<Rightarrow> bool \<times> bool list \<times> 'm" where
  "take_fault st = (case fst st of [] \<Rightarrow> (False, st) | f # fs \<Rightarrow> (f, fs, snd st))"

definition try_abandon :: "nat \<Rightarrow> string \<Rightarrow> bool list \<times> ('s, 'w, 'u) read_model \<Rightarrow> bool list \<times> ('s, 'w, 'u) read_model" where
  "try_abandon version note st =
     (case take_fault st of (True, st') \<Rightarrow> st' | (False, fs, rm) \<Rightarrow> (fs, abandon version note rm))"

text \<open>
  \<open>publish\<close> of the server: the boolean says whether the new version stands. The texts of the notes are left out
  of account; \<open>now\<close> and \<open>later\<close> are the two times it reads.
\<close>

definition publish_run :: "bool \<Rightarrow> nat \<Rightarrow> millis \<Rightarrow> millis \<Rightarrow> string \<Rightarrow> ('s, 'w, 'u) pass list \<Rightarrow>
    bool list \<times> ('s, 'w, 'u) read_model \<Rightarrow> bool \<times> bool list \<times> ('s, 'w, 'u) read_model" where
  "publish_run has_catalog algorithm now later note passes st =
     (if \<not> has_catalog \<or> passes = [] then (False, st)
      else case take_fault st of
        (True, st') \<Rightarrow> (False, st')
      | (False, fs, rm) \<Rightarrow>
          (case begin_version algorithm now rm of
             (version, rm) \<Rightarrow>
               (case run_passes version no_report passes (fs, rm) of
                  (Inl _, st') \<Rightarrow> (False, try_abandon version note st')
                | (Inr report, st') \<Rightarrow>
                    (case take_fault st' of
                       (True, st') \<Rightarrow> (False, try_abandon version note st')
                     | (False, fs, rm) \<Rightarrow>
                         (case publish_version version (rr_oldest report, rr_newest report) later rm of
                            Inl _ \<Rightarrow> (False, try_abandon version note (fs, rm))
                          | Inr rm' \<Rightarrow> (True, fs, rm'))))))"

section \<open>What a table has\<close>

definition rows_ok :: "('k, 'r) stored list \<Rightarrow> bool" where
  "rows_ok t \<longleftrightarrow> distinct (map (\<lambda>x. (st_key x, st_state x)) t)"

definition row_at :: "('k, 'r) stored list \<Rightarrow> row_state \<Rightarrow> 'k \<Rightarrow> (nat \<times> 'r) option" where
  "row_at t s k = map_option (\<lambda>x. (st_version x, st_row x)) (find (\<lambda>x. st_key x = k \<and> st_state x = s) t)"

lemma read_row_holds: "map_option st_row (read_row k t) = map_option snd (row_at t PublishedRow k)"
  by (simp add: read_row_def row_at_def option.map_comp comp_def)

lemma holds_Nil [simp]: "row_at [] s k = None"
  by (simp add: row_at_def)

lemma holds_Cons: "row_at (x # t) s k = (if st_key x = k \<and> st_state x = s then Some (st_version x, st_row x) else row_at t s k)"
  by (simp add: row_at_def)

lemma holds_append: "row_at (t @ u) s k = (case row_at t s k of Some y \<Rightarrow> Some y | None \<Rightarrow> row_at u s k)"
  by (induction t) (auto simp: holds_Cons)

lemma holds_None: "row_at t s k = None \<longleftrightarrow> (\<forall>x\<in>set t. \<not> (st_key x = k \<and> st_state x = s))"
  by (induction t) (auto simp: holds_Cons)

lemma holds_Some:
  "rows_ok t \<Longrightarrow> row_at t s k = Some (v, r) \<longleftrightarrow> (\<exists>x\<in>set t. st_key x = k \<and> st_state x = s \<and> st_version x = v \<and> st_row x = r)"
  by (induction t) (force simp: holds_Cons rows_ok_def)+

lemma holds_upsert: "row_at (upsert v k r t) s k' = (if k' = k \<and> s = StagingRow then Some (v, r) else row_at t s k')"
proof (cases "\<exists>x\<in>set t. st_key x = k \<and> st_state x = StagingRow")
  case True
  let ?f = "\<lambda>x. if st_key x = k \<and> st_state x = StagingRow then x\<lparr> st_version := v, st_row := r \<rparr> else x"
  have "row_at (map ?f t) s k' = (if k' = k \<and> s = StagingRow then map_option (\<lambda>_. (v, r)) (row_at t s k') else row_at t s k')"
    by (induction t) (auto simp: holds_Cons)
  moreover have "row_at t StagingRow k \<noteq> None" using True by (simp add: holds_None)
  ultimately show ?thesis using True by (auto simp: upsert_def)
next
  case False
  then have "row_at t StagingRow k = None" by (auto simp: holds_None)
  then show ?thesis using False by (auto simp: upsert_def holds_append holds_Cons split: option.splits)
qed

lemma upsert_ok: "rows_ok t \<Longrightarrow> rows_ok (upsert v k r t)"
proof (cases "\<exists>x\<in>set t. st_key x = k \<and> st_state x = StagingRow")
  case True
  assume "rows_ok t"
  moreover have "map (\<lambda>x. (st_key x, st_state x)) (upsert v k r t) = map (\<lambda>x. (st_key x, st_state x)) t"
    using True by (simp add: upsert_def)
  ultimately show ?thesis unfolding rows_ok_def by metis
qed (auto simp: upsert_def rows_ok_def)

lemma holds_delete_staging: "row_at (delete_staging t) s k = (if s = StagingRow then None else row_at t s k)"
  by (induction t) (auto simp: holds_Cons delete_staging_def)

lemma holds_delete_candidate: "row_at (delete_candidate v t) PublishedRow k = row_at t PublishedRow k"
  by (induction t) (auto simp: holds_Cons delete_candidate_def staged_by_def)

lemma filter_ok: "rows_ok t \<Longrightarrow> rows_ok (filter P t)"
  by (induction t) (auto simp: rows_ok_def)

lemma delete_ok: "rows_ok t \<Longrightarrow> rows_ok (delete_staging t)" "rows_ok t \<Longrightarrow> rows_ok (delete_candidate v t)"
  "rows_ok t \<Longrightarrow> rows_ok (delete_replaced v t)"
  by (simp_all add: delete_staging_def delete_candidate_def delete_replaced_def filter_ok)

lemma swap_ok:
  assumes "rows_ok t"
  shows "rows_ok (swap_over v (delete_replaced v t))"
proof -
  let ?d = "delete_replaced v t" and ?f = "\<lambda>x. if staged_by v x then x\<lparr> st_state := PublishedRow \<rparr> else x"
  let ?k = "\<lambda>x. (st_key x, st_state x)"
  have t: "distinct t" "inj_on ?k (set t)" using assms by (simp_all add: rows_ok_def distinct_map)
  have "inj_on (?k \<circ> ?f) (set ?d)"
  proof (rule inj_onI)
    fix x y assume xy: "x \<in> set ?d" "y \<in> set ?d" "(?k \<circ> ?f) x = (?k \<circ> ?f) y"
    then have "?k x = ?k y" by (auto simp: delete_replaced_def staged_by_def image_iff split: if_splits)
    then show "x = y" using t(2) xy(1,2) by (auto simp: delete_replaced_def dest: inj_onD)
  qed
  then have "distinct (map (?k \<circ> ?f) ?d)" using t(1) by (simp add: distinct_map delete_replaced_def)
  then show ?thesis unfolding rows_ok_def swap_over_def by (simp only: map_map)
qed

text \<open>Publishing lays the candidate's rows over those that were published.\<close>

lemma holds_published:
  assumes "rows_ok t"
  shows "row_at (swap_over v (delete_replaced v t)) PublishedRow k =
    (case row_at t StagingRow k of Some (w, r) \<Rightarrow> if w = v then Some (v, r) else row_at t PublishedRow k
     | None \<Rightarrow> row_at t PublishedRow k)" (is "?l = ?r")
proof -
  let ?u = "swap_over v (delete_replaced v t)"
  have "?l = Some (w, r) \<longleftrightarrow> ?r = Some (w, r)" for w r
  proof -
    have "?l = Some (w, r) \<longleftrightarrow> (\<exists>x\<in>set ?u. st_key x = k \<and> st_state x = PublishedRow \<and> st_version x = w \<and> st_row x = r)"
      by (rule holds_Some [OF swap_ok [OF assms]])
    also have "\<dots> \<longleftrightarrow> (\<exists>x\<in>set (delete_replaced v t). st_key x = k \<and> (staged_by v x \<or> st_state x = PublishedRow) \<and> st_version x = w \<and> st_row x = r)"
      unfolding swap_over_def set_map bex_simps(7) by (auto simp: staged_by_def)
    also have "\<dots> \<longleftrightarrow> row_at t StagingRow k = Some (w, r) \<and> w = v \<or>
        row_at t PublishedRow k = Some (w, r) \<and> (\<nexists>r'. row_at t StagingRow k = Some (v, r'))"
      unfolding holds_Some [OF assms] by (auto simp: delete_replaced_def staged_by_def image_iff) metis
    also have "\<dots> \<longleftrightarrow> ?r = Some (w, r)" by (auto split: option.splits)
    finally show ?thesis .
  qed
  then show ?thesis by (cases ?l; cases ?r) auto
qed

section \<open>What a run stages\<close>

definition upsert_all :: "nat \<Rightarrow> ('k \<times> 'r) list \<Rightarrow> ('k, 'r) stored list \<Rightarrow> ('k, 'r) stored list" where
  "upsert_all v kvs t = fold (\<lambda>p. upsert v (fst p) (snd p)) kvs t"

lemma upsert_all_append [simp]: "upsert_all v (xs @ ys) t = upsert_all v ys (upsert_all v xs t)"
  by (simp add: upsert_all_def)

lemma upsert_all_Nil [simp]: "upsert_all v [] t = t"
  by (simp add: upsert_all_def)

lemma upsert_all_holds:
  "row_at (upsert_all v kvs t) s k =
     (if s = StagingRow then (case map_of (rev kvs) k of Some r \<Rightarrow> Some (v, r) | None \<Rightarrow> row_at t StagingRow k) else row_at t s k)"
  by (induction kvs arbitrary: t) (auto simp: upsert_all_def holds_upsert map_add_def split: option.splits)

lemma upsert_all_ok: "rows_ok t \<Longrightarrow> rows_ok (upsert_all v kvs t)"
  by (induction kvs arbitrary: t) (auto simp: upsert_all_def upsert_ok)

definition current_rows :: "('s, 'w) materialised list \<Rightarrow> (market_key \<times> 's) list" where
  "current_rows ms = map (\<lambda>m. (mt_key m, mt_state m)) ms"

definition window_rows :: "('s, 'w) materialised list \<Rightarrow> ((market_key \<times> string) \<times> 'w) list" where
  "window_rows ms = concat (map (\<lambda>m. map (\<lambda>(k, w, r). ((k, window_key w), r)) (mt_windows m)) ms)"

definition rollup_rows :: "'u rollup list \<Rightarrow> ((region \<times> itemid \<times> string \<times> nat) \<times> 'u) list" where
  "rollup_rows us = map (\<lambda>u. (rollup_key u, ru_row u)) us"

fun pass_markets :: "('s, 'w, 'u) pass \<Rightarrow> ('s, 'w) materialised list" where
  "pass_markets (CommodityPass (Inr (ms, _))) = ms"
| "pass_markets p = []"

fun pass_rollups :: "('s, 'w, 'u) pass \<Rightarrow> 'u rollup list" where
  "pass_rollups (RealmPass (Inr (us, _))) = us"
| "pass_rollups p = []"

text \<open>Two read models that differ in rows staged for a version and in its count of markets.\<close>

definition staged :: "nat \<Rightarrow> ('s, 'w) materialised list \<Rightarrow> 'u rollup list \<Rightarrow> ('s, 'w, 'u) read_model \<Rightarrow> ('s, 'w, 'u) read_model \<Rightarrow> bool" where
  "staged v ms us rm rm' \<longleftrightarrow> rm_current rm' = upsert_all v (current_rows ms) (rm_current rm) \<and>
     rm_windows rm' = upsert_all v (window_rows ms) (rm_windows rm) \<and> rm_rollup rm' = upsert_all v (rollup_rows us) (rm_rollup rm) \<and>
     rm_next rm' = rm_next rm \<and> (\<exists>n. rm_versions rm' = update_version v (\<lambda>x. x\<lparr> av_markets := av_markets x + n \<rparr>) (rm_versions rm))"

lemma update_version_0: "update_version v (\<lambda>x. x\<lparr> av_markets := av_markets x + 0 \<rparr>) vs = vs"
  by (simp add: update_version_def map_idI)

lemma staged_refl: "staged v [] [] rm rm"
  using update_version_0 [of v "rm_versions rm"] unfolding staged_def current_rows_def window_rows_def rollup_rows_def
  by (metis concat.simps(1) list.map(1) upsert_all_Nil)

lemma staged_trans: "staged v ms us rm rm1 \<Longrightarrow> staged v ms' us' rm1 rm2 \<Longrightarrow> staged v (ms @ ms') (us @ us') rm rm2"
proof -
  assume a: "staged v ms us rm rm1" "staged v ms' us' rm1 rm2"
  obtain n n' where n: "rm_versions rm1 = update_version v (\<lambda>x. x\<lparr> av_markets := av_markets x + n \<rparr>) (rm_versions rm)"
    "rm_versions rm2 = update_version v (\<lambda>x. x\<lparr> av_markets := av_markets x + n' \<rparr>) (rm_versions rm1)"
    using a by (auto simp: staged_def)
  have "rm_versions rm2 = update_version v (\<lambda>x. x\<lparr> av_markets := av_markets x + (n + n') \<rparr>) (rm_versions rm)"
    unfolding n by (auto simp: update_version_def)
  then show ?thesis using a unfolding staged_def by (auto simp: current_rows_def window_rows_def rollup_rows_def)
qed

lemma stage_staged: "stage v ms rm = (n, rm') \<Longrightarrow> staged v ms [] rm rm'"
proof (cases "ms = []")
  case False
  assume a: "stage v ms rm = (n, rm')"
  have one: "fold (\<lambda>(k, w, r). upsert v (k, window_key w) r) ws t = upsert_all v (map (\<lambda>(k, w, r). ((k, window_key w), r)) ws) t"
    for ws :: "(market_key \<times> window \<times> 'b) list" and t
    by (induction ws arbitrary: t) (auto simp: upsert_all_def)
  have "fold (\<lambda>m. fold (\<lambda>(k, w, r). upsert v (k, window_key w) r) (mt_windows m)) ms t = upsert_all v (window_rows ms) t" for t
    unfolding one by (induction ms arbitrary: t) (simp_all add: window_rows_def)
  moreover have "fold (\<lambda>m. upsert v (mt_key m) (mt_state m)) ms t = upsert_all v (current_rows ms) t" for t
    by (simp add: upsert_all_def current_rows_def fold_map comp_def)
  ultimately show ?thesis using a False by (auto simp: stage_def staged_def rollup_rows_def)
qed (use staged_refl in \<open>auto simp: stage_def\<close>)

lemma stage_rollups_staged: "stage_rollups v us rm = (n, rm') \<Longrightarrow> staged v [] us rm rm'"
proof (cases "us = []")
  case False
  assume a: "stage_rollups v us rm = (n, rm')"
  have "fold (\<lambda>u. upsert v (rollup_key u) (ru_row u)) us t = upsert_all v (rollup_rows us) t" for t
    by (simp add: upsert_all_def rollup_rows_def fold_map comp_def)
  moreover have "\<exists>n. rm_versions rm = update_version v (\<lambda>x. x\<lparr> av_markets := av_markets x + n \<rparr>) (rm_versions rm)"
    using update_version_0 by metis
  ultimately show ?thesis using a False by (auto simp: stage_rollups_def staged_def current_rows_def window_rows_def)
qed (use staged_refl in \<open>auto simp: stage_rollups_def\<close>)

lemma chunks_whole: "0 < n \<Longrightarrow> concat (chunks n xs) = xs"
  by (induction n xs rule: chunks.induct) (subst chunks.simps, auto)

lemma stage_all_steps:
  assumes "stage_all op bs (fs, rm) = (r, fs', rm')" "\<And>b rm n rm'. op b rm = (n, rm') \<Longrightarrow> R [b] rm rm'"
    "\<And>rm. R [] rm rm" "\<And>as bs rm rm1 rm2. R as rm rm1 \<Longrightarrow> R bs rm1 rm2 \<Longrightarrow> R (as @ bs) rm rm2"
  shows "\<exists>done. R done rm rm' \<and> (\<forall>n. r = Inr n \<longrightarrow> done = bs)"
  using assms(1)
proof (induction bs arbitrary: fs rm r fs' rm')
  case Nil
  then show ?case using assms(3) by (intro exI [of _ "[]"]) auto
next
  case (Cons b bs)
  show ?case
  proof (cases "\<exists>gs. fs = True # gs")
    case True
    then show ?thesis using Cons.prems assms(3) by (intro exI [of _ "[]"]) auto
  next
    case False
    obtain n rm1 where op: "op b rm = (n, rm1)" by fastforce
    obtain q fs1 rm2 where rest: "stage_all op bs (tl fs, rm1) = (q, fs1, rm2)" by (metis prod.exhaust)
    have same: "rm' = rm2" "r = (case q of Inl e \<Rightarrow> Inl e | Inr m \<Rightarrow> Inr (n + m))"
      using Cons.prems False op rest by (cases fs; auto split: bool.splits sum.splits; metis (full_types))+
    obtain dn where "R dn rm1 rm2" "\<forall>n. q = Inr n \<longrightarrow> dn = bs" using Cons.IH [OF rest] by blast
    then show ?thesis
      using assms(4) [OF assms(2) [OF op], of dn rm2] same by (intro exI [of _ "b # dn"]) (auto split: sum.splits)
  qed
qed

lemma reportedE:
  assumes "reported ends x = (r, st)"
  obtains q where "x = (q, st)" "isl q \<longleftrightarrow> isl r"
  using assms by (cases x; cases "fst x") (auto simp: reported_def)

lemma run_pass_staged:
  assumes "run_pass v p (fs, rm) = (r, fs', rm')"
  shows "\<exists>ms us. staged v ms us rm rm' \<and> (\<not> isl r \<longrightarrow> ms = pass_markets p \<and> us = pass_rollups p)"
  using assms
proof (cases "(v, p, fs, rm)" rule: run_pass.cases)
  case (2 _ ms ends)
  then have "reported ends (stage_all (stage v) (chunks BATCH ms) (fs, rm)) = (r, fs', rm')" using assms by simp
  then obtain q where q: "stage_all (stage v) (chunks BATCH ms) (fs, rm) = (q, fs', rm')" "isl q \<longleftrightarrow> isl r" by (rule reportedE)
  from stage_all_steps [OF q(1), where R = "\<lambda>bs. staged v (concat bs) []"]
  obtain dn where "staged v (concat dn) [] rm rm'" "\<forall>n. q = Inr n \<longrightarrow> dn = chunks BATCH ms"
    using stage_staged staged_refl staged_trans by fastforce
  then show ?thesis using 2 q(2) chunks_whole [of BATCH ms]
    by (intro exI [of _ "concat dn"] exI [of _ "[]"], cases q) (auto simp: BATCH_def)
next
  case (4 _ us ends)
  then have "reported ends (stage_all (stage_rollups v) (chunks BATCH us) (fs, rm)) = (r, fs', rm')" using assms by simp
  then obtain q where q: "stage_all (stage_rollups v) (chunks BATCH us) (fs, rm) = (q, fs', rm')" "isl q \<longleftrightarrow> isl r" by (rule reportedE)
  from stage_all_steps [OF q(1), where R = "\<lambda>bs. staged v [] (concat bs)"]
  obtain dn where "staged v [] (concat dn) rm rm'" "\<forall>n. q = Inr n \<longrightarrow> dn = chunks BATCH us"
    using stage_rollups_staged staged_refl staged_trans by fastforce
  then show ?thesis using 4 q(2) chunks_whole [of BATCH us]
    by (intro exI [of _ "[]"] exI [of _ "concat dn"], cases q) (auto simp: BATCH_def)
qed (use staged_refl in auto)

lemma run_passes_staged:
  "run_passes v acc ps (fs, rm) = (r, fs', rm') \<Longrightarrow>
     \<exists>ms us. staged v ms us rm rm' \<and> (\<not> isl r \<longrightarrow> ms = concat (map pass_markets ps) \<and> us = concat (map pass_rollups ps))"
proof (induction ps arbitrary: acc fs rm)
  case Nil
  then show ?case using staged_refl by auto
next
  case (Cons p ps)
  obtain r1 fs1 rm1 where one: "run_pass v p (fs, rm) = (r1, fs1, rm1)" by (metis prod.exhaust)
  obtain ms us where st: "staged v ms us rm rm1" "\<not> isl r1 \<longrightarrow> ms = pass_markets p \<and> us = pass_rollups p"
    using run_pass_staged [OF one] by blast
  show ?case
  proof (cases r1)
    case (Inl e)
    then have "rm' = rm1" "isl r" using Cons.prems one by auto
    then show ?thesis using st(1) by blast
  next
    case (Inr rep)
    then obtain ms' us' where "staged v ms' us' rm1 rm'"
      "\<not> isl r \<longrightarrow> ms' = concat (map pass_markets ps) \<and> us' = concat (map pass_rollups ps)"
      using Cons.IH [of "add_report rep acc" fs1 rm1] Cons.prems one by auto
    then show ?thesis using staged_trans [OF st(1)] st(2) Inr by (intro exI [of _ "ms @ ms'"] exI [of _ "us @ us'"]) auto
  qed
qed

section \<open>All or nothing\<close>

definition rm_ok :: "('s, 'w, 'u) read_model \<Rightarrow> bool" where
  "rm_ok rm \<longleftrightarrow> rows_ok (rm_current rm) \<and> rows_ok (rm_windows rm) \<and> rows_ok (rm_rollup rm) \<and>
     sorted_wrt (<) (map av_version (rm_versions rm)) \<and> (\<forall>v\<in>set (rm_versions rm). av_version v < rm_next rm)"

definition same_reads :: "('s, 'w, 'u) read_model \<Rightarrow> ('s, 'w, 'u) read_model \<Rightarrow> bool" where
  "same_reads rm rm' \<longleftrightarrow> (\<forall>k. row_at (rm_current rm') PublishedRow k = row_at (rm_current rm) PublishedRow k) \<and>
     (\<forall>k. row_at (rm_windows rm') PublishedRow k = row_at (rm_windows rm) PublishedRow k) \<and>
     (\<forall>k. row_at (rm_rollup rm') PublishedRow k = row_at (rm_rollup rm) PublishedRow k)"

definition pubs :: "analysis_version list \<Rightarrow> analysis_version list" where
  "pubs vs = filter (\<lambda>v. av_state v = VPublished) vs"

lemma find_append: "find P (xs @ ys) = (case find P xs of Some x \<Rightarrow> Some x | None \<Rightarrow> find P ys)"
  by (induction xs) auto

lemma find_rev: "find P (rev xs) = (if filter P xs = [] then None else Some (last (filter P xs)))"
  by (induction xs rule: rev_induct) auto

lemma published_version_pubs:
  "sorted_wrt (<) (map av_version (rm_versions rm)) \<Longrightarrow>
     published_version rm = (if pubs (rm_versions rm) = [] then None else Some (last (pubs (rm_versions rm))))"
  by (simp add: published_version_def find_rev pubs_def sort_key_id_if_sorted strict_sorted_imp_sorted)

text \<open>The state of a run between \<open>begin\<close> and its end: the versions before it, and its own.\<close>

definition underway :: "('s, 'w, 'u) read_model \<Rightarrow> nat \<Rightarrow> millis \<Rightarrow> ('s, 'w) materialised list \<Rightarrow> 'u rollup list \<Rightarrow> ('s, 'w, 'u) read_model \<Rightarrow> bool" where
  "underway rm algorithm now ms us rm' \<longleftrightarrow>
     rm_current rm' = upsert_all (rm_next rm) (current_rows ms) (delete_staging (rm_current rm)) \<and>
     rm_windows rm' = upsert_all (rm_next rm) (window_rows ms) (delete_staging (rm_windows rm)) \<and>
     rm_rollup rm' = upsert_all (rm_next rm) (rollup_rows us) (delete_staging (rm_rollup rm)) \<and> rm_next rm' = rm_next rm + 1 \<and>
     (\<exists>old new. rm_versions rm' = old @ [new] \<and> map av_version old = map av_version (rm_versions rm) \<and> pubs old = pubs (rm_versions rm) \<and>
        av_version new = rm_next rm \<and> av_state new = VStaging \<and> av_algorithm new = algorithm)"

lemma update_last:
  assumes "\<forall>x\<in>set old. av_version x < v" "av_version new = v"
  shows "update_version v f (old @ [new]) = old @ [f new]"
proof -
  have "map (\<lambda>x. if av_version x = v then f x else x) old = old" by (rule map_idI) (use assms in auto)
  then show ?thesis using assms(2) by (simp add: update_version_def)
qed

lemma old_below: "rm_ok rm \<Longrightarrow> map av_version old = map av_version (rm_versions rm) \<Longrightarrow> \<forall>x\<in>set old. av_version x < rm_next rm"
proof
  fix x assume a: "rm_ok rm" "map av_version old = map av_version (rm_versions rm)" "x \<in> set old"
  then have "av_version x \<in> set (map av_version (rm_versions rm))" by (metis image_eqI list.set_map)
  then show "av_version x < rm_next rm" using a(1) by (auto simp: rm_ok_def)
qed

lemma begin_underway:
  assumes "begin_version algorithm now rm = (v, rm1)"
  shows "v = rm_next rm \<and> underway rm algorithm now [] [] rm1"
proof -
  let ?old = "map (\<lambda>v. if av_state v = VStaging then fail_version ''abandoned: a later run started'' v else v) (rm_versions rm)"
  have "map av_version ?old = map av_version (rm_versions rm)" by (simp add: fail_version_def)
  moreover have "pubs (map (\<lambda>v. if av_state v = VStaging then fail_version n v else v) vs) = pubs vs" for n vs
    unfolding pubs_def by (induction vs) (auto simp: fail_version_def)
  ultimately show ?thesis using assms
    by (auto simp: begin_version_def underway_def current_rows_def window_rows_def rollup_rows_def)
qed

lemma staged_underway:
  assumes "underway rm algorithm now ms us rm1" "staged (rm_next rm) ms' us' rm1 rm2" "rm_ok rm"
  shows "underway rm algorithm now (ms @ ms') (us @ us') rm2"
proof -
  obtain old new where v: "rm_versions rm1 = old @ [new]" "map av_version old = map av_version (rm_versions rm)"
    "pubs old = pubs (rm_versions rm)" "av_version new = rm_next rm" "av_state new = VStaging" "av_algorithm new = algorithm"
    using assms(1) by (auto simp: underway_def)
  obtain n where "rm_versions rm2 = update_version (rm_next rm) (\<lambda>x. x\<lparr> av_markets := av_markets x + n \<rparr>) (old @ [new])"
    using assms(2) v(1) by (auto simp: staged_def)
  then have "rm_versions rm2 = old @ [new\<lparr> av_markets := av_markets new + n \<rparr>]"
    using update_last [OF old_below [OF assms(3) v(2)] v(4)] by simp
  then show ?thesis using assms(1,2) v unfolding underway_def staged_def
    by (auto simp: current_rows_def window_rows_def rollup_rows_def)
qed

lemma underway_hidden:
  assumes "underway rm algorithm now ms us rm1" "rm_ok rm"
  shows "rm_ok rm1 \<and> same_reads rm rm1 \<and> pubs (rm_versions rm1) = pubs (rm_versions rm)"
proof -
  obtain old new where v: "rm_versions rm1 = old @ [new]" "map av_version old = map av_version (rm_versions rm)"
    "pubs old = pubs (rm_versions rm)" "av_version new = rm_next rm" "av_state new = VStaging" "av_algorithm new = algorithm"
    using assms(1) by (auto simp: underway_def)
  have below: "\<forall>x\<in>set old. av_version x < rm_next rm" by (rule old_below [OF assms(2) v(2)])
  have "map av_version (rm_versions rm1) = map av_version (rm_versions rm) @ [rm_next rm]" using v(1,2,4) by simp
  then have "sorted_wrt (<) (map av_version (rm_versions rm1))" using assms(2) by (auto simp: rm_ok_def sorted_wrt_append)
  moreover have "\<forall>x\<in>set (rm_versions rm1). av_version x < rm_next rm1"
    using below v assms(1) by (auto simp: underway_def)
  moreover have "pubs (rm_versions rm1) = pubs (rm_versions rm)" using v by (simp add: pubs_def)
  moreover have "rows_ok (rm_current rm1)" "rows_ok (rm_windows rm1)" "rows_ok (rm_rollup rm1)" "same_reads rm rm1"
    using assms by (simp_all add: underway_def rm_ok_def same_reads_def upsert_all_holds holds_delete_staging upsert_all_ok delete_ok)
  ultimately show ?thesis by (simp add: rm_ok_def)
qed

lemma abandoned_hidden:
  assumes "underway rm algorithm now ms us rm1" "rm_ok rm"
  shows "rm_ok (abandon (rm_next rm) why rm1) \<and> same_reads rm (abandon (rm_next rm) why rm1) \<and>
    pubs (rm_versions (abandon (rm_next rm) why rm1)) = pubs (rm_versions rm)"
proof -
  let ?rm = "abandon (rm_next rm) why rm1"
  note hid = underway_hidden [OF assms]
  obtain old new where v: "rm_versions rm1 = old @ [new]" "map av_version old = map av_version (rm_versions rm)"
    "pubs old = pubs (rm_versions rm)" "av_version new = rm_next rm" "av_state new = VStaging" using assms(1) by (auto simp: underway_def)
  have vs: "rm_versions ?rm = old @ [new\<lparr> av_state := VFailed, av_note := Some why \<rparr>]"
    using update_last [OF old_below [OF assms(2) v(2)] v(4)] v(1) by (simp add: abandon_def)
  have "map av_version (rm_versions ?rm) = map av_version (rm_versions rm1)" "rm_next ?rm = rm_next rm1"
    unfolding vs v(1) by (simp_all add: abandon_def)
  moreover have "\<forall>x\<in>set (rm_versions ?rm). av_version x < rm_next ?rm" using hid calculation(2) vs v(1) by (auto simp: rm_ok_def)
  moreover have "pubs (rm_versions ?rm) = pubs (rm_versions rm)" using vs v(3) by (simp add: pubs_def)
  ultimately show ?thesis using hid
    by (auto simp: rm_ok_def same_reads_def abandon_def holds_delete_candidate delete_ok)
qed

lemma try_abandon_hidden:
  assumes "try_abandon (rm_next rm) why (fs, rm1) = (fs', rm2)" "underway rm algorithm now ms us rm1" "rm_ok rm"
  shows "rm_ok rm2 \<and> same_reads rm rm2 \<and> pubs (rm_versions rm2) = pubs (rm_versions rm)"
  using assms(1) underway_hidden [OF assms(2,3)] abandoned_hidden [OF assms(2,3), of why]
  by (auto simp: try_abandon_def take_fault_def split: list.splits bool.splits)

definition overlay :: "('k \<times> 'r) list \<Rightarrow> 'k \<Rightarrow> 'r option \<Rightarrow> 'r option" where
  "overlay rows k before = (case map_of (rev rows) k of Some r \<Rightarrow> Some r | None \<Rightarrow> before)"

lemma swap_overlay:
  assumes "rows_ok t" "u = upsert_all v kvs (delete_staging t)"
  shows "map_option snd (row_at (swap_over v (delete_replaced v u)) PublishedRow k) =
      overlay kvs k (map_option snd (row_at t PublishedRow k))"
    "rows_ok (swap_over v (delete_replaced v u))"
proof -
  have ok: "rows_ok u" using assms by (simp add: upsert_all_ok delete_ok)
  then show "rows_ok (swap_over v (delete_replaced v u))" by (rule swap_ok)
  show "map_option snd (row_at (swap_over v (delete_replaced v u)) PublishedRow k) =
      overlay kvs k (map_option snd (row_at t PublishedRow k))"
    unfolding holds_published [OF ok] unfolding assms(2)
    by (auto simp: upsert_all_holds holds_delete_staging overlay_def split: option.splits)
qed

lemma publish_underway:
  assumes "underway rm algorithm now ms us rm1" "rm_ok rm"
  shows "\<exists>rm2 new. publish_version (rm_next rm) source now' rm1 = Inr rm2 \<and> rm_ok rm2 \<and>
    pubs (rm_versions rm2) = pubs (rm_versions rm) @ [new] \<and> av_version new = rm_next rm \<and> av_algorithm new = algorithm \<and>
    (av_source_from new, av_source_until new) = source \<and>
    (\<forall>k. read_market k rm2 = overlay (current_rows ms) k (read_market k rm)) \<and>
    (\<forall>k w. read_window k w rm2 = overlay (window_rows ms) (k, window_key w) (read_window k w rm)) \<and>
    (\<forall>r i t q. rollup_row r i t q rm2 = overlay (rollup_rows us) (r, i, t, q) (rollup_row r i t q rm))"
proof -
  obtain old new where v: "rm_versions rm1 = old @ [new]" "map av_version old = map av_version (rm_versions rm)"
    "pubs old = pubs (rm_versions rm)" "av_version new = rm_next rm" "av_state new = VStaging" "av_algorithm new = algorithm"
    using assms(1) by (auto simp: underway_def)
  have below: "\<forall>x\<in>set old. av_version x < rm_next rm" by (rule old_below [OF assms(2) v(2)])
  have "find (\<lambda>v. av_version v = rm_next rm) old = None" using below by (auto simp: find_None_iff)
  then have found: "find (\<lambda>v. av_version v = rm_next rm) (rm_versions rm1) = Some new"
    using v(1,4) by (simp add: find_append)
  let ?new = "new\<lparr> av_state := VPublished, av_published_at := Some now', av_source_from := fst source, av_source_until := snd source \<rparr>"
  let ?v = "rm_next rm"
  let ?rm2 = "rm1\<lparr> rm_current := swap_over ?v (delete_replaced ?v (rm_current rm1)), rm_windows := swap_over ?v (delete_replaced ?v (rm_windows rm1)),
    rm_rollup := swap_over ?v (delete_replaced ?v (rm_rollup rm1)), rm_versions := old @ [?new] \<rparr>"
  have pub: "publish_version ?v source now' rm1 = Inr ?rm2"
    using found v(1,5) update_last [OF below v(4)] by (simp add: publish_version_def)
  have t: "rows_ok (rm_current rm)" "rows_ok (rm_windows rm)" "rows_ok (rm_rollup rm)" using assms(2) by (simp_all add: rm_ok_def)
  have u: "rm_current rm1 = upsert_all ?v (current_rows ms) (delete_staging (rm_current rm))"
    "rm_windows rm1 = upsert_all ?v (window_rows ms) (delete_staging (rm_windows rm))"
    "rm_rollup rm1 = upsert_all ?v (rollup_rows us) (delete_staging (rm_rollup rm))" using assms(1) by (simp_all add: underway_def)
  note over = swap_overlay [OF t(1) u(1)] swap_overlay [OF t(2) u(2)] swap_overlay [OF t(3) u(3)]
  have "rm_ok ?rm2" using underway_hidden [OF assms] v over by (simp add: rm_ok_def)
  moreover have "pubs (rm_versions ?rm2) = pubs (rm_versions rm) @ [?new]" using v(3) by (simp add: pubs_def)
  moreover have "read_market k ?rm2 = overlay (current_rows ms) k (read_market k rm)" for k
    using over(1) by (simp add: read_market_def read_row_holds)
  moreover have "read_window k w ?rm2 = overlay (window_rows ms) (k, window_key w) (read_window k w rm)" for k w
    using over(3) by (simp add: read_window_def read_row_holds)
  moreover have "rollup_row r i t q ?rm2 = overlay (rollup_rows us) (r, i, t, q) (rollup_row r i t q rm)" for r i t q
    using over(5) by (simp add: rollup_row_def read_row_holds overlay_def split: option.splits)
  ultimately show ?thesis using pub v(4,6) by (intro exI [of _ ?rm2] exI [of _ ?new]) simp
qed

fun pass_ok :: "('s, 'w, 'u) pass \<Rightarrow> bool" where
  "pass_ok (CommodityPass x) \<longleftrightarrow> \<not> isl x"
| "pass_ok (RealmPass x) \<longleftrightarrow> \<not> isl x"

lemma stage_all_clear: "\<exists>n rm'. stage_all op bs ([], rm) = (Inr n, [], rm')"
proof (induction bs arbitrary: rm)
  case (Cons b bs)
  obtain n rm1 where "op b rm = (n, rm1)" by (rule prod.exhaust)
  then show ?case using Cons.IH [of rm1] by auto
qed simp

lemma run_pass_clear: "pass_ok p \<Longrightarrow> \<exists>n rm'. run_pass v p ([], rm) = (Inr n, [], rm')"
  using stage_all_clear [of "stage v" "chunks BATCH (pass_markets p)" rm] stage_all_clear [of "stage_rollups v" "chunks BATCH (pass_rollups p)" rm]
  by (cases "(v, p, ([] :: bool list, rm))" rule: run_pass.cases) (auto simp: reported_def)

lemma run_passes_clear: "list_all pass_ok ps \<Longrightarrow> \<exists>rep rm'. run_passes v acc ps ([], rm) = (Inr rep, [], rm')"
proof (induction ps arbitrary: acc rm)
  case (Cons p ps)
  then obtain n rm1 where "run_pass v p ([], rm) = (Inr n, [], rm1)" using run_pass_clear [of p v rm] by auto
  then show ?case using Cons.IH [of "add_report n acc" rm1] Cons.prems by simp
qed simp

lemma run_passes_ok: "run_passes v acc ps st = (Inr rep, st') \<Longrightarrow> list_all pass_ok ps"
proof (induction ps arbitrary: acc st)
  case (Cons p ps)
  then obtain n st1 where "run_pass v p st = (Inr n, st1)" "run_passes v (add_report n acc) ps st1 = (Inr rep, st')"
    by (auto split: prod.splits sum.splits)
  moreover from this(1) have "pass_ok p" by (cases "(v, p, st)" rule: run_pass.cases) auto
  ultimately show ?case using Cons.IH by simp
qed simp

definition unseen :: "('s, 'w, 'u) read_model \<Rightarrow> ('s, 'w, 'u) read_model \<Rightarrow> bool" where
  "unseen rm rm' \<longleftrightarrow> rm_ok rm' \<and> same_reads rm rm' \<and> pubs (rm_versions rm') = pubs (rm_versions rm)"

lemma unseen_reads:
  assumes "unseen rm rm'" "rm_ok rm"
  shows "rm_ok rm'" "published_version rm' = published_version rm" "read_market k rm' = read_market k rm"
    "read_window k w rm' = read_window k w rm" "rollup_row r i t q rm' = rollup_row r i t q rm"
  using assms by (auto simp: unseen_def rm_ok_def same_reads_def published_version_pubs read_market_def read_window_def
    rollup_row_def read_row_holds)

text \<open>The interval a run reports: the oldest and the newest time over its passes.\<close>

fun pass_times :: "('s, 'w, 'u) pass \<Rightarrow> millis option \<times> millis option" where
  "pass_times (CommodityPass (Inr (_, ends))) = ends"
| "pass_times (RealmPass (Inr (_, ends))) = ends"
| "pass_times p = (None, None)"

lemma run_pass_times: "run_pass v p st = (Inr rep, st') \<Longrightarrow> (rr_oldest rep, rr_newest rep) = pass_times p"
  by (cases "(v, p, st)" rule: run_pass.cases) (auto simp: reported_def split: prod.splits sum.splits)

lemma min_option_None [simp]: "min_option None x = x" "max_option None x = x"
  by (cases x; simp)+

lemma min_option_assoc: "min_option (min_option a b) c = min_option a (min_option b c)"
  by (cases a; cases b; cases c) (auto simp: min.assoc)

lemma max_option_assoc: "max_option (max_option a b) c = max_option a (max_option b c)"
  by (cases a; cases b; cases c) (auto simp: max.assoc)

lemma run_passes_times:
  "run_passes v acc ps st = (Inr rep, st') \<Longrightarrow>
     rr_oldest rep = min_option (rr_oldest acc) (foldr (min_option \<circ> fst \<circ> pass_times) ps None) \<and>
     rr_newest rep = max_option (rr_newest acc) (foldr (max_option \<circ> snd \<circ> pass_times) ps None)"
proof (induction ps arbitrary: acc st)
  case (Cons p ps)
  then obtain r st1 where one: "run_pass v p st = (Inr r, st1)" "run_passes v (add_report r acc) ps st1 = (Inr rep, st')"
    by (auto split: prod.splits sum.splits)
  then have "rr_oldest r = fst (pass_times p)" "rr_newest r = snd (pass_times p)" using run_pass_times [OF one(1)] by (metis fst_conv snd_conv)+
  then show ?case using Cons.IH [OF one(2)] by (simp add: add_report_def min_option_assoc max_option_assoc)
qed auto

lemma publish_run_split:
  assumes "rm_ok rm" "publish_run has_catalog algorithm now later why ps (fs, rm) = (stands, fs', rm')"
  shows "if stands then list_all pass_ok ps \<and>
      (\<exists>rm1. underway rm algorithm now (concat (map pass_markets ps)) (concat (map pass_rollups ps)) rm1 \<and>
        publish_version (rm_next rm) (foldr (min_option \<circ> fst \<circ> pass_times) ps None, foldr (max_option \<circ> snd \<circ> pass_times) ps None)
          later rm1 = Inr rm')
    else unseen rm rm'"
proof -
  have self: "unseen rm rm" using assms(1) by (simp add: unseen_def same_reads_def)
  consider (none) "\<not> has_catalog \<or> ps = []" | (fault) "has_catalog" "ps \<noteq> []" "fst (take_fault (fs, rm))"
    | (begun) fs1 where "has_catalog" "ps \<noteq> []" "take_fault (fs, rm) = (False, fs1, rm)"
    by (cases fs) (auto simp: take_fault_def)
  then show ?thesis
  proof cases
    case none
    then show ?thesis using assms(2) self by (auto simp: publish_run_def)
  next
    case fault
    then show ?thesis using assms(2) self by (cases fs) (auto simp: publish_run_def take_fault_def)
  next
    case begun
    obtain rm1 where b: "begin_version algorithm now rm = (rm_next rm, rm1)" "underway rm algorithm now [] [] rm1"
      using begin_underway [of algorithm now rm] by (metis prod.exhaust)
    obtain r fs2 rm2 where r: "run_passes (rm_next rm) no_report ps (fs1, rm1) = (r, fs2, rm2)" by (metis prod.exhaust)
    obtain ms us where st: "staged (rm_next rm) ms us rm1 rm2"
      "\<not> isl r \<longrightarrow> ms = concat (map pass_markets ps) \<and> us = concat (map pass_rollups ps)"
      using run_passes_staged [OF r] by blast
    have un: "underway rm algorithm now ms us rm2" using staged_underway [OF b(2) st(1) assms(1)] by simp
    have gone: "unseen rm rm3" if "(fs4, rm3) = try_abandon (rm_next rm) why (fs3, rm2)" for fs3 fs4 rm3
      using try_abandon_hidden [OF that [symmetric] un assms(1)] by (simp add: unseen_def)
    have run: "publish_run has_catalog algorithm now later why ps (fs, rm) =
       (case r of Inl _ \<Rightarrow> (False, try_abandon (rm_next rm) why (fs2, rm2))
        | Inr rep \<Rightarrow> (case take_fault (fs2, rm2) of
            (True, st') \<Rightarrow> (False, try_abandon (rm_next rm) why st')
          | (False, fs, rm3) \<Rightarrow> (case publish_version (rm_next rm) (rr_oldest rep, rr_newest rep) later rm3 of
              Inl _ \<Rightarrow> (False, try_abandon (rm_next rm) why (fs, rm3)) | Inr rm4 \<Rightarrow> (True, fs, rm4))))"
      using begun b(1) r by (simp add: publish_run_def split: sum.split)
    show ?thesis
    proof (cases r)
      case (Inl e)
      then show ?thesis using run assms(2) gone by auto
    next
      case (Inr rep)
      then have "list_all pass_ok ps" "rr_oldest rep = foldr (min_option \<circ> fst \<circ> pass_times) ps None"
        "rr_newest rep = foldr (max_option \<circ> snd \<circ> pass_times) ps None"
        using run_passes_ok r run_passes_times [of "rm_next rm" no_report ps "(fs1, rm1)" rep] by (auto simp: no_report_def)
      then show ?thesis using Inr run assms(2) gone st(2) un
        by (cases fs2) (auto simp: take_fault_def split: bool.splits sum.splits)
    qed
  qed
qed

lemma publish_run_clear:
  assumes "rm_ok rm" "list_all pass_ok ps" "ps \<noteq> []"
  shows "fst (publish_run True algorithm now later why ps ([], rm))"
proof -
  obtain rm1 where b: "begin_version algorithm now rm = (rm_next rm, rm1)" "underway rm algorithm now [] [] rm1"
    using begin_underway [of algorithm now rm] by (metis prod.exhaust)
  obtain rep rm2 where r: "run_passes (rm_next rm) no_report ps ([], rm1) = (Inr rep, [], rm2)"
    using run_passes_clear [OF assms(2)] by blast
  obtain ms us where "staged (rm_next rm) ms us rm1 rm2" using run_passes_staged [OF r] by blast
  from staged_underway [OF b(2) this assms(1)] obtain rm3 where
    "publish_version (rm_next rm) (rr_oldest rep, rr_newest rep) later rm2 = Inr rm3"
    using publish_underway [OF _ assms(1)] by blast
  then show ?thesis using b(1) r assms(3) by (simp add: publish_run_def take_fault_def)
qed

text \<open>
  C32: a publication is all or nothing. Whatever calls of the repository fail, and wherever a region's reads or its
  reduction fail, a run of \<open>publish\<close> either leaves every market, window and rollup a page can read, and the
  version they are said to come from, exactly as they were, or it lays the rows of every pass over them (the
  last row of a key wins, a market no pass yields keeps what it had) and the current version is the one of this
  run, of its algorithm and of the interval its passes read. The second happens whenever there is a catalogue and
  a pass, every pass succeeds and no call fails, and never when a pass failed.
\<close>

theorem publish_all_or_nothing:
  assumes "rm_ok rm" "publish_run has_catalog algorithm now later why ps (fs, rm) = (stands, fs', rm')"
  shows "rm_ok rm' \<and> (has_catalog \<and> ps \<noteq> [] \<and> list_all pass_ok ps \<and> fs = [] \<longrightarrow> stands) \<and>
    (if stands then list_all pass_ok ps \<and>
       (\<exists>v. published_version rm' = Some v \<and> av_version v = rm_next rm \<and> av_algorithm v = algorithm \<and>
          av_source_from v = foldr (min_option \<circ> fst \<circ> pass_times) ps None \<and>
          av_source_until v = foldr (max_option \<circ> snd \<circ> pass_times) ps None) \<and>
       (\<forall>k. read_market k rm' = overlay (current_rows (concat (map pass_markets ps))) k (read_market k rm)) \<and>
       (\<forall>k w. read_window k w rm' =
          overlay (window_rows (concat (map pass_markets ps))) (k, window_key w) (read_window k w rm)) \<and>
       (\<forall>r i t q. rollup_row r i t q rm' =
          overlay (rollup_rows (concat (map pass_rollups ps))) (r, i, t, q) (rollup_row r i t q rm))
     else published_version rm' = published_version rm \<and> (\<forall>k. read_market k rm' = read_market k rm) \<and>
       (\<forall>k w. read_window k w rm' = read_window k w rm) \<and>
       (\<forall>r i t q. rollup_row r i t q rm' = rollup_row r i t q rm))"
proof -
  have clear: "has_catalog \<and> ps \<noteq> [] \<and> list_all pass_ok ps \<and> fs = [] \<longrightarrow> stands"
    using publish_run_clear [OF assms(1), of ps algorithm now later why] assms(2) by auto
  note split = publish_run_split [OF assms]
  show ?thesis
  proof (cases stands)
    case True
    let ?source = "(foldr (min_option \<circ> fst \<circ> pass_times) ps None, foldr (max_option \<circ> snd \<circ> pass_times) ps None)"
    from True split obtain rm1 where ok: "list_all pass_ok ps"
      and un: "underway rm algorithm now (concat (map pass_markets ps)) (concat (map pass_rollups ps)) rm1"
      and pub: "publish_version (rm_next rm) ?source later rm1 = Inr rm'" by auto
    from publish_underway [OF un assms(1), of ?source later] pub obtain new where
      "rm_ok rm'" "pubs (rm_versions rm') = pubs (rm_versions rm) @ [new]" "av_version new = rm_next rm" "av_algorithm new = algorithm"
      "(av_source_from new, av_source_until new) = ?source"
      and reads: "\<forall>k. read_market k rm' = overlay (current_rows (concat (map pass_markets ps))) k (read_market k rm)"
        "\<forall>k w. read_window k w rm' = overlay (window_rows (concat (map pass_markets ps))) (k, window_key w) (read_window k w rm)"
        "\<forall>r i t q. rollup_row r i t q rm' = overlay (rollup_rows (concat (map pass_rollups ps))) (r, i, t, q) (rollup_row r i t q rm)"
      by auto
    then show ?thesis using True ok clear by (simp add: published_version_pubs rm_ok_def)
  next
    case False
    then show ?thesis using split clear unseen_reads [OF _ assms(1), of rm'] by simp
  qed
qed

definition sample_pass :: "(nat, nat, nat) pass" where
  "sample_pass = CommodityPass (Inr ([\<lparr> mt_key = KeyCommodity Eu 5 1, mt_state = 70, mt_windows = [] \<rparr>], Some 3, Some 9))"

lemma sample_runs:
  "fst (publish_run True 6 10 11 ''x'' [sample_pass] ([], empty_read_model))"
  "\<not> fst (publish_run True 6 10 11 ''x'' [sample_pass] ([False, True], empty_read_model))"
  by (simp_all add: publish_run_def take_fault_def begin_version_def empty_read_model_def sample_pass_def chunks.simps BATCH_def
    reported_def stage_def upsert_def update_version_def publish_version_def delete_staging_def split: prod.splits)

text \<open>A first publication that stands, and one whose staging fails: the market is read in the one and in the other it is not.\<close>

theorem publish_all_or_nothing_witness:
  "read_market (KeyCommodity Eu 5 1) (snd (snd (publish_run True 6 10 11 ''x'' [sample_pass] ([], empty_read_model)))) = Some 70 \<and>
   read_market (KeyCommodity Eu 5 1) (snd (snd (publish_run True 6 10 11 ''x'' [sample_pass] ([False, True], empty_read_model)))) = None"
proof -
  let ?e = "empty_read_model :: (nat, nat, nat) read_model"
  let ?a = "publish_run True 6 10 11 ''x'' [sample_pass] ([], empty_read_model)"
  let ?b = "publish_run True 6 10 11 ''x'' [sample_pass] ([False, True], empty_read_model)"
  have ok: "rm_ok ?e" by (simp add: rm_ok_def empty_read_model_def rows_ok_def)
  have none: "read_market (KeyCommodity Eu 5 1) ?e = None"
    by (simp add: read_market_def read_row_def empty_read_model_def)
  have "?a = (fst ?a, fst (snd ?a), snd (snd ?a))" "?b = (fst ?b, fst (snd ?b), snd (snd ?b))" by simp_all
  note one = publish_all_or_nothing [OF ok this(1)] and two = publish_all_or_nothing [OF ok this(2)]
  have "overlay (current_rows (concat (map pass_markets [sample_pass]))) (KeyCommodity Eu 5 1) None = Some 70"
    by (simp add: overlay_def current_rows_def sample_pass_def)
  moreover have "\<forall>k. read_market k (snd (snd ?a)) = overlay (current_rows (concat (map pass_markets [sample_pass]))) k (read_market k ?e)"
    using one unfolding if_P [OF sample_runs(1)] by blast
  moreover have "\<forall>k. read_market k (snd (snd ?b)) = read_market k ?e"
    using two unfolding if_not_P [OF sample_runs(2)] by blast
  ultimately show ?thesis using none by metis
qed

section \<open>Reads\<close>

lemma parse_version_state_str: "parse_version_state (version_state_str s) = Some s"
  by (cases s) (simp_all add: parse_version_state_def)

lemma parse_scope_id: "parse_scope (scope_realm_id sc) = sc \<longleftrightarrow> sc \<noteq> RealmScope 0"
  by (cases sc) (auto simp: parse_scope_def)

lemma track_from_column: "track_from (track_column t kind) = (if kind = Recipe then None else t)"
proof -
  have "track_slug t \<noteq> []" "track_slug t \<noteq> ''-''" for t by (cases t; simp)+
  then show ?thesis by (cases "(t, kind)" rule: track_column.cases) (auto simp: track_from_def track_slugs.parse_as_str from_slug_def)
qed

text \<open>A rollup of a named track is the row of its key.\<close>

lemma read_rollup_row: "read_rollup r i (Some t) sc rm = rollup_row r i (track_slug t) (scope_realm_id sc) rm"
  unfolding read_rollup_def rollup_row_def read_row_def
  by (rule arg_cong [where f = "\<lambda>P. map_option st_row (find P (rm_rollup rm))"]) (auto simp: fun_eq_iff)

end
