(* ===== verification/Analysis_Work.thy ===== *)
theory Analysis_Work
  imports Market_Keys Workload
begin

text \<open>
  Materialisation as work of the cluster (\<open>crates/server/src/analysis_work.rs\<close>, with \<open>distribute\<close> and \<open>local\<close> of
  \<open>materialise_task.rs\<close>): the cutting of a region's history into partitions, the workload a worker runs on one,
  and the coordinator's store of inputs and results.

  The postcard codec is a parameter, and so is the reduction of one market (\<open>materialise::commodity\<close>): what is
  shown holds for any. The store is locked twice while a result is recorded, once before the rows are recomputed
  and once after, so a result on its way is a state of its own here: \<open>Receive\<close> and \<open>Commit\<close> are separate actions, and
  other actions may come between them. An \<open>Arc\<close> is a serial number beside what it points to, a fresh one for
  each that is made; \<open>Arc::ptr_eq\<close> compares the numbers.
\<close>

section \<open>Partitions\<close>

definition PARTITION_MARKETS :: nat where
  "PARTITION_MARKETS = 16"

type_synonym market_input = "market_key \<times> price_sample list \<times> ladder"

record analysis_input =
  in_region :: region
  in_markets :: "market_input list"
  in_windows :: "window list"
  in_catalog :: catalog
  in_now :: millis

function grouped :: "price_sample list \<Rightarrow> price_sample list list" where
  "grouped [] = []"
| "grouped (x # xs) = (x # takeWhile (\<lambda>y. sm_item y = sm_item x) xs) # grouped (dropWhile (\<lambda>y. sm_item y = sm_item x) xs)"
  by pat_completeness auto
termination by (relation "measure length") (auto simp: le_imp_less_Suc length_dropWhile_le)

definition trim_catalog :: "catalog \<Rightarrow> itemid list \<Rightarrow> catalog" where
  "trim_catalog c items = c\<lparr> cg_items := filter (\<lambda>entry. \<exists>id\<in>set (item_ids entry). id \<in> set items) (cg_items c),
     cg_item_levels := [], cg_tracks := [], cg_modifiers := [], cg_notes := [] \<rparr>"

definition seal :: "region \<Rightarrow> (catalog \<Rightarrow> window list) \<Rightarrow> millis \<Rightarrow> catalog \<Rightarrow> market_input list \<Rightarrow> analysis_input" where
  "seal r windows now c markets =
     \<lparr> in_region = r, in_markets = markets, in_windows = windows c,
       in_catalog = trim_catalog c (map (\<lambda>m. key_item (fst m)) markets), in_now = now \<rparr>"

definition market_entry :: "(itemid, ladder) btree \<Rightarrow> catalog \<Rightarrow> price_sample list \<Rightarrow> market_input" where
  "market_entry ladders c samples =
     (let key = market_of c (hd samples)
      in (key, samples, case bt_get ladders (key_item key) of Some l \<Rightarrow> l | None \<Rightarrow> \<lparr> steps = [] \<rparr>))"

text \<open>One turn of the loop of \<open>partition\<close>; \<open>None\<close> is the panic of its \<open>expect\<close>.\<close>

type_synonym cut_state = "analysis_input list \<times> market_input list \<times> catalog option"

definition partition_step :: "region \<Rightarrow> (itemid, ladder) btree \<Rightarrow> (itemid \<Rightarrow> catalog) \<Rightarrow> (catalog \<Rightarrow> window list) \<Rightarrow> millis \<Rightarrow>
    price_sample list \<Rightarrow> cut_state \<Rightarrow> cut_state option" where
  "partition_step r ladders owner windows now samples acc =
     (case acc of (out, current, held) \<Rightarrow>
        let c = owner (sm_item (hd samples));
            same = (case held of Some h \<Rightarrow> cg_id h = cg_id c | None \<Rightarrow> False);
            entry = market_entry ladders c samples
        in if \<not> same \<and> current \<noteq> [] \<or> PARTITION_MARKETS \<le> length current
           then (case held of
                   None \<Rightarrow> None
                 | Some h \<Rightarrow> Some (out @ [seal r windows now h current], [entry], Some c))
           else Some (out, current @ [entry], Some c))"

fun partition_loop :: "region \<Rightarrow> (itemid, ladder) btree \<Rightarrow> (itemid \<Rightarrow> catalog) \<Rightarrow> (catalog \<Rightarrow> window list) \<Rightarrow> millis \<Rightarrow>
    price_sample list list \<Rightarrow> cut_state \<Rightarrow> cut_state option" where
  "partition_loop r ladders owner windows now [] acc = Some acc"
| "partition_loop r ladders owner windows now (samples # rest) acc =
     (case partition_step r ladders owner windows now samples acc of
        None \<Rightarrow> None
      | Some acc' \<Rightarrow> partition_loop r ladders owner windows now rest acc')"

definition partition_history :: "region \<Rightarrow> price_sample list \<Rightarrow> (itemid, ladder) btree \<Rightarrow> (itemid \<Rightarrow> catalog) \<Rightarrow>
    (catalog \<Rightarrow> window list) \<Rightarrow> millis \<Rightarrow> analysis_input list option" where
  "partition_history r history ladders owner windows now =
     (case partition_loop r ladders owner windows now (grouped history) ([], [], None) of
        None \<Rightarrow> None
      | Some (out, current, held) \<Rightarrow>
          Some (case held of Some h \<Rightarrow> out @ [seal r windows now h current] | None \<Rightarrow> out))"

section \<open>The work of a partition\<close>

type_synonym 'r reduction = "market_key \<Rightarrow> price_sample list \<Rightarrow> ladder \<Rightarrow> catalog \<Rightarrow> window list \<Rightarrow> millis \<Rightarrow> 'r"

definition expected_rows :: "'r reduction \<Rightarrow> analysis_input \<Rightarrow> 'r list" where
  "expected_rows commodity input =
     map (\<lambda>(key, history, l). commodity key history l (in_catalog input) (in_windows input) (in_now input)) (in_markets input)"

text \<open>The codec: bytes of an input and of rows, where writing may fail and reading may answer an error's text.\<close>

record 'r codec =
  write_input :: "analysis_input \<Rightarrow> bytes option"
  read_input :: "bytes \<Rightarrow> string + analysis_input"
  write_rows :: "'r list \<Rightarrow> bytes option"
  read_rows :: "bytes \<Rightarrow> string + 'r list"

fun market_workload :: "'r reduction \<Rightarrow> 'r codec \<Rightarrow> host_workload" where
  "market_workload commodity codec node (TaskAnalysis version algorithm part) input =
     (if input = [] then Some (Done (''partition '' @ show_nat part @ '' is stale''))
      else case read_input codec input of
        Inl e \<Rightarrow> Some (Done (''partition '' @ show_nat part @ '' could not be read: '' @ e))
      | Inr i \<Rightarrow>
          let rows = expected_rows commodity i
          in (case write_rows codec rows of
                None \<Rightarrow> None
              | Some artifact \<Rightarrow>
                  Some (Produced (show_nat (length rows) @ '' markets in partition '' @ show_nat part @ '' on '' @ node_text node)
                    artifact)))"
| "market_workload commodity codec node spec input = None"

section \<open>The coordinator's store\<close>

record 'r artifacts =
  af_version :: nat
  af_algorithm :: nat
  af_inputs :: "(nat, nat \<times> analysis_input) btree"
  af_results :: "(nat, 'r list) btree"
  af_fresh :: nat

definition new_artifacts :: "'r artifacts" where
  "new_artifacts = \<lparr> af_version = 0, af_algorithm = 0, af_inputs = [], af_results = [], af_fresh = 0 \<rparr>"

definition begin_candidate :: "nat \<Rightarrow> nat \<Rightarrow> analysis_input list \<Rightarrow> 'r artifacts \<Rightarrow> nat \<times> 'r artifacts" where
  "begin_candidate version algorithm inputs s =
     (let held = fold (\<lambda>(i, input). bt_insert (i mod 2 ^ 32) (af_fresh s + i, input)) (enumerate 0 inputs) []
      in (length held mod 2 ^ 16,
          s\<lparr> af_version := version, af_algorithm := algorithm, af_inputs := held, af_results := [],
             af_fresh := af_fresh s + length inputs \<rparr>))"

definition registered :: "nat \<Rightarrow> nat \<Rightarrow> nat \<Rightarrow> 'r artifacts \<Rightarrow> (nat \<times> analysis_input) option" where
  "registered version algorithm part s =
     (if af_version s \<noteq> version \<or> af_algorithm s \<noteq> algorithm then None else bt_get (af_inputs s) part)"

text \<open>\<open>finish\<close>, up to the second lock and from there.\<close>

definition finish_check :: "'r reduction \<Rightarrow> nat \<Rightarrow> nat \<Rightarrow> nat \<Rightarrow> 'r list \<Rightarrow> 'r artifacts \<Rightarrow> (nat \<times> analysis_input) option" where
  "finish_check commodity version algorithm part rows s =
     (case registered version algorithm part s of
        None \<Rightarrow> None
      | Some (arc, input) \<Rightarrow> if rows \<noteq> expected_rows commodity input then None else Some (arc, input))"

definition finish_commit :: "nat \<Rightarrow> nat \<Rightarrow> nat \<Rightarrow> 'r list \<Rightarrow> nat \<Rightarrow> 'r artifacts \<Rightarrow> bool \<times> 'r artifacts" where
  "finish_commit version algorithm part rows arc s =
     (let same_input = (case bt_get (af_inputs s) part of Some (current, _) \<Rightarrow> current = arc | None \<Rightarrow> False)
      in if af_version s \<noteq> version \<or> af_algorithm s \<noteq> algorithm \<or> \<not> same_input then (False, s)
         else (True, s\<lparr> af_results := bt_insert part rows (af_results s) \<rparr>))"

definition finish :: "'r reduction \<Rightarrow> nat \<Rightarrow> nat \<Rightarrow> nat \<Rightarrow> 'r list \<Rightarrow> 'r artifacts \<Rightarrow> bool \<times> 'r artifacts" where
  "finish commodity version algorithm part rows s =
     (case finish_check commodity version algorithm part rows s of
        None \<Rightarrow> (False, s)
      | Some (arc, _) \<Rightarrow> finish_commit version algorithm part rows arc s)"

definition collect_rows :: "nat \<Rightarrow> 'r artifacts \<Rightarrow> 'r list option" where
  "collect_rows version s =
     (if af_version s \<noteq> version then None
      else if length (af_results s) \<noteq> length (af_inputs s) then None
      else Some (concat (bt_values (af_results s))))"

definition partitions_done :: "'r artifacts \<Rightarrow> nat \<times> nat" where
  "partitions_done s = (length (af_results s), length (af_inputs s))"

fun input_bytes :: "'r codec \<Rightarrow> taskspec \<Rightarrow> 'r artifacts \<Rightarrow> bytes option" where
  "input_bytes codec (TaskAnalysis version algorithm part) s =
     (case registered version algorithm part s of None \<Rightarrow> None | Some (_, input) \<Rightarrow> write_input codec input)"
| "input_bytes codec spec s = None"

fun produced :: "'r reduction \<Rightarrow> 'r codec \<Rightarrow> taskspec \<Rightarrow> bytes \<Rightarrow> 'r artifacts \<Rightarrow> 'r artifacts" where
  "produced commodity codec (TaskAnalysis version algorithm part) bytes s =
     (case read_rows codec bytes of
        Inr rows \<Rightarrow> snd (finish commodity version algorithm part rows s)
      | Inl _ \<Rightarrow> s)"
| "produced commodity codec spec bytes s = s"

text \<open>One turn of the loop of \<open>local\<close>.\<close>

definition local_step :: "'r reduction \<Rightarrow> 'r codec \<Rightarrow> nat \<Rightarrow> nat \<Rightarrow> nat \<Rightarrow> 'r artifacts \<Rightarrow> 'r artifacts" where
  "local_step commodity codec version algorithm part s =
     (let spec = TaskAnalysis version algorithm part
      in case input_bytes codec spec s of
           None \<Rightarrow> s
         | Some input \<Rightarrow>
             (case market_workload commodity codec 0 spec input of
                Some (Produced _ artifact) \<Rightarrow> produced commodity codec spec artifact s
              | _ \<Rightarrow> s))"

section \<open>Runs\<close>

text \<open>
  What happens to the store: a candidate begins, a result arrives from anywhere and passes the check, a result that
  passed it is recorded, or the coordinator does a partition itself. The list beside the store has the results
  between their two locks.
\<close>

datatype analysis_action =
    BeginCandidate nat nat "analysis_input list"
  | Receive taskspec bytes
  | Commit nat
  | Local nat nat nat

type_synonym 'r in_flight = "nat \<times> nat \<times> nat \<times> 'r list \<times> nat \<times> analysis_input"

record 'r coordinator =
  co_store :: "'r artifacts"
  co_flight :: "'r in_flight list"

fun receive :: "'r reduction \<Rightarrow> 'r codec \<Rightarrow> taskspec \<Rightarrow> bytes \<Rightarrow> 'r coordinator \<Rightarrow> 'r coordinator" where
  "receive commodity codec (TaskAnalysis version algorithm part) bytes co =
     (case read_rows codec bytes of
        Inl _ \<Rightarrow> co
      | Inr rows \<Rightarrow>
          (case finish_check commodity version algorithm part rows (co_store co) of
             None \<Rightarrow> co
           | Some (arc, input) \<Rightarrow> co\<lparr> co_flight := co_flight co @ [(version, algorithm, part, rows, arc, input)] \<rparr>))"
| "receive commodity codec spec bytes co = co"

definition commit_flight :: "'r in_flight \<Rightarrow> 'r artifacts \<Rightarrow> 'r artifacts" where
  "commit_flight f s = (case f of (version, algorithm, part, rows, arc, input) \<Rightarrow> snd (finish_commit version algorithm part rows arc s))"

fun analysis_act :: "'r reduction \<Rightarrow> 'r codec \<Rightarrow> analysis_action \<Rightarrow> 'r coordinator \<Rightarrow> 'r coordinator" where
  "analysis_act commodity codec (BeginCandidate version algorithm inputs) co =
     co\<lparr> co_store := snd (begin_candidate version algorithm inputs (co_store co)) \<rparr>"
| "analysis_act commodity codec (Receive spec bytes) co = receive commodity codec spec bytes co"
| "analysis_act commodity codec (Commit i) co =
     (if i < length (co_flight co)
      then \<lparr> co_store = commit_flight (co_flight co ! i) (co_store co), co_flight = take i (co_flight co) @ drop (Suc i) (co_flight co) \<rparr>
      else co)"
| "analysis_act commodity codec (Local version algorithm part) co =
     co\<lparr> co_store := local_step commodity codec version algorithm part (co_store co) \<rparr>"

definition analysis_run :: "'r reduction \<Rightarrow> 'r codec \<Rightarrow> analysis_action list \<Rightarrow> 'r coordinator \<Rightarrow> 'r coordinator" where
  "analysis_run commodity codec acts co = fold (analysis_act commodity codec) acts co"

definition new_coordinator :: "'r coordinator" where
  "new_coordinator = \<lparr> co_store = new_artifacts, co_flight = [] \<rparr>"

text \<open>
  The rows of a region: what the cluster has collected when it is asked last, or else what is there after the
  coordinator's own pass, or nothing if even that left a gap (\<open>unwrap_or_default\<close>).
\<close>

definition region_rows :: "'r reduction \<Rightarrow> 'r codec \<Rightarrow> nat \<Rightarrow> nat \<Rightarrow> analysis_input list \<Rightarrow> analysis_action list \<Rightarrow> analysis_action list \<Rightarrow>
    'r coordinator \<Rightarrow> 'r list" where
  "region_rows commodity codec version algorithm inputs cluster here co =
     (if inputs = [] then []
      else let co1 = analysis_run commodity codec (BeginCandidate version algorithm inputs # cluster) co
           in case collect_rows version (co_store co1) of
                Some rows \<Rightarrow> rows
              | None \<Rightarrow> (case collect_rows version (co_store (analysis_run commodity codec here co1)) of
                            Some rows \<Rightarrow> rows | None \<Rightarrow> []))"

section \<open>The store answers with what was asked\<close>

lemma bt_wf_ext:
  assumes "bt_wf m" "bt_wf n" "\<And>k. bt_get m k = bt_get n k"
  shows "m = n"
  using assms
proof (induction m arbitrary: n)
  case Nil
  show ?case using Nil(3) [of "fst (hd n)"] by (cases n) (auto simp: bt_get_Cons)
next
  case (Cons p m)
  obtain a b where p: "p = (a, b)" by (rule prod.exhaust)
  show ?case
  proof (cases n)
    case Nil
    then show ?thesis using Cons.prems(3) [of a] by (simp add: p bt_get_Cons)
  next
    case (Cons q n')
    obtain c d where q: "q = (c, d)" by (rule prod.exhaust)
    have wf: "bt_wf m" "bt_wf n'" "\<forall>k\<in>fst ` set m. a < k" "\<forall>k\<in>fst ` set n'. c < k"
      using Cons.prems(1,2) \<open>n = q # n'\<close> by (auto simp: bt_wf_def p q)
    have out: "bt_get m k = None" if "k \<le> a" for k using wf(3) that by (force simp: bt_get_None_iff bt_keys_def)
    have out': "bt_get n' k = None" if "k \<le> c" for k using wf(4) that by (force simp: bt_get_None_iff bt_keys_def)
    have eq: "(if k = a then Some b else bt_get m k) = (if k = c then Some d else bt_get n' k)" for k
      using Cons.prems(3) [of k] \<open>n = q # n'\<close> by (simp add: p q bt_get_Cons)
    have "a = c" using eq [of a] eq [of c] out [of c] out' [of a] linear [of a c] by (auto split: if_splits)
    moreover from this have "b = d" using eq [of a] by simp
    moreover have "bt_get m k = bt_get n' k" for k
      using eq [of k] out [of a] out' [of c] \<open>a = c\<close> by (cases "k = a") auto
    ultimately show ?thesis using Cons.IH [OF wf(1,2)] \<open>n = q # n'\<close> p q by simp
  qed
qed

lemma bt_insert_above: "\<forall>k\<in>fst ` set m. k < a \<Longrightarrow> bt_insert a b m = m @ [(a, b)]"
  by (induction m) auto

lemma bt_fold_enumerate:
  "n + length xs \<le> 2 ^ 32 \<Longrightarrow> \<forall>k\<in>fst ` set m. k < n \<Longrightarrow>
     fold (\<lambda>(i, x). bt_insert (i mod 2 ^ 32) (f i x)) (enumerate n xs) m = m @ map (\<lambda>(i, x). (i, f i x)) (enumerate n xs)"
proof (induction xs arbitrary: n m)
  case (Cons x xs)
  have "n mod 2 ^ 32 = n" using Cons.prems(1) by simp
  then have "bt_insert (n mod 2 ^ 32) (f n x) m = m @ [(n, f n x)]" using bt_insert_above [of m n] Cons.prems(2) by simp
  then show ?case using Cons.IH [of "Suc n" "m @ [(n, f n x)]"] Cons.prems by (auto simp: less_Suc_eq)
qed simp

lemma begin_inputs:
  assumes "length inputs \<le> 2 ^ 32"
  shows "af_inputs (snd (begin_candidate v a inputs s)) = map (\<lambda>(i, x). (i, af_fresh s + i, x)) (enumerate 0 inputs)"
  using bt_fold_enumerate [of 0 inputs "[]" "\<lambda>i x. (af_fresh s + i, x)"] assms by (simp add: begin_candidate_def Let_def)

text \<open>What is recorded is what the reduction of the registered input gives, and what is on its way is what some input gave.\<close>

definition arcs_ok :: "'r reduction \<Rightarrow> 'r artifacts \<Rightarrow> 'r in_flight \<Rightarrow> bool" where
  "arcs_ok commodity s f = (case f of (v, a, p, rows, arc, input) \<Rightarrow>
     arc < af_fresh s \<and> rows = expected_rows commodity input \<and> (\<forall>q i. bt_get (af_inputs s) q = Some (arc, i) \<longrightarrow> i = input))"

definition store_ok :: "'r reduction \<Rightarrow> 'r artifacts \<Rightarrow> bool" where
  "store_ok commodity s \<longleftrightarrow> bt_wf (af_inputs s) \<and> bt_wf (af_results s) \<and>
     (\<forall>p arc i. bt_get (af_inputs s) p = Some (arc, i) \<longrightarrow> arc < af_fresh s) \<and>
     (\<forall>p arc i q j. bt_get (af_inputs s) p = Some (arc, i) \<longrightarrow> bt_get (af_inputs s) q = Some (arc, j) \<longrightarrow> i = j) \<and>
     (\<forall>p rows. bt_get (af_results s) p = Some rows \<longrightarrow> (\<exists>arc i. bt_get (af_inputs s) p = Some (arc, i) \<and> rows = expected_rows commodity i))"

definition co_ok :: "'r reduction \<Rightarrow> 'r coordinator \<Rightarrow> bool" where
  "co_ok commodity co \<longleftrightarrow> store_ok commodity (co_store co) \<and> list_all (arcs_ok commodity (co_store co)) (co_flight co)"

text \<open>The store of a candidate only gains results.\<close>

definition grown :: "'r artifacts \<Rightarrow> 'r artifacts \<Rightarrow> bool" where
  "grown s s' \<longleftrightarrow> af_version s' = af_version s \<and> af_algorithm s' = af_algorithm s \<and> af_inputs s' = af_inputs s \<and>
     af_fresh s' = af_fresh s \<and> (\<forall>p. bt_get (af_results s) p \<noteq> None \<longrightarrow> bt_get (af_results s') p \<noteq> None)"

lemma grown_refl [simp]: "grown s s"
  by (simp add: grown_def)

lemma grown_trans: "grown s t \<Longrightarrow> grown t u \<Longrightarrow> grown s u"
  by (auto simp: grown_def)

lemma grown_arcs: "grown s s' \<Longrightarrow> arcs_ok commodity s' f = arcs_ok commodity s f"
  by (auto simp: grown_def arcs_ok_def split: prod.splits)

lemma commit_grown: "grown s (snd (finish_commit v a p rows arc s))"
  by (simp add: finish_commit_def Let_def grown_def)

lemma commit_ok:
  assumes "store_ok commodity s" "arcs_ok commodity s (v, a, p, rows, arc, input)"
  shows "store_ok commodity (snd (finish_commit v a p rows arc s))"
  using assms by (auto simp: store_ok_def arcs_ok_def finish_commit_def Let_def split: option.splits)

lemma check_arcs:
  assumes "store_ok commodity s" "finish_check commodity v a p rows s = Some (arc, input)"
  shows "arcs_ok commodity s (v, a, p, rows, arc, input)"
proof -
  have "bt_get (af_inputs s) p = Some (arc, input)" "rows = expected_rows commodity input"
    using assms(2) by (auto simp: finish_check_def registered_def split: option.splits if_splits)
  then show ?thesis using assms(1) unfolding store_ok_def arcs_ok_def prod.case by blast
qed

lemma produced_ok:
  "store_ok commodity s \<Longrightarrow> store_ok commodity (produced commodity codec spec b s) \<and> grown s (produced commodity codec spec b s)"
  by (cases spec) (auto simp: finish_def commit_grown intro: commit_ok check_arcs split: option.splits sum.splits)

lemma local_ok:
  "store_ok commodity s \<Longrightarrow>
     store_ok commodity (local_step commodity codec v a p s) \<and> grown s (local_step commodity codec v a p s)"
  unfolding local_step_def Let_def using produced_ok [of commodity s codec "TaskAnalysis v a p"]
  by (simp del: produced.simps market_workload.simps input_bytes.simps split: option.split task_work.split)

fun is_begin :: "analysis_action \<Rightarrow> bool" where
  "is_begin (BeginCandidate _ _ _) = True"
| "is_begin _ = False"

lemma act_ok:
  assumes "co_ok commodity co" "\<not> is_begin act"
  shows "co_ok commodity (analysis_act commodity codec act co) \<and> grown (co_store co) (co_store (analysis_act commodity codec act co))"
proof (cases act)
  case (Receive spec b)
  then show ?thesis using assms
    by (cases spec) (auto simp: co_ok_def check_arcs split: option.splits sum.splits)
next
  case (Commit i)
  show ?thesis
  proof (cases "i < length (co_flight co)")
    case True
    obtain v a p rows arc input where f: "co_flight co ! i = (v, a, p, rows, arc, input)" by (metis prod.exhaust)
    have "arcs_ok commodity (co_store co) (v, a, p, rows, arc, input)" using assms(1) True f by (metis co_ok_def list_all_length)
    then have "store_ok commodity (snd (finish_commit v a p rows arc (co_store co)))" using assms(1) commit_ok by (auto simp: co_ok_def)
    moreover have "list_all (arcs_ok commodity (co_store co)) (take i (co_flight co) @ drop (Suc i) (co_flight co))"
      using assms(1) by (auto simp: co_ok_def list_all_iff dest: in_set_takeD in_set_dropD)
    ultimately show ?thesis using Commit True f commit_grown [of "co_store co" v a p rows arc]
      by (simp add: co_ok_def commit_flight_def grown_arcs [OF commit_grown] list_all_iff)
  qed (use Commit assms in simp)
next
  case (Local v a p)
  then show ?thesis using assms local_ok [of commodity "co_store co" codec v a p] by (auto simp: co_ok_def list_all_iff grown_arcs)
qed (use assms in simp)

lemma run_ok:
  "co_ok commodity co \<Longrightarrow> list_all (\<lambda>x. \<not> is_begin x) acts \<Longrightarrow>
     co_ok commodity (analysis_run commodity codec acts co) \<and> grown (co_store co) (co_store (analysis_run commodity codec acts co))"
proof (induction acts arbitrary: co)
  case (Cons x xs)
  then have "co_ok commodity (analysis_act commodity codec x co)" "grown (co_store co) (co_store (analysis_act commodity codec x co))"
    using act_ok [of commodity co x codec] by auto
  then show ?case using Cons.IH [of "analysis_act commodity codec x co"] Cons.prems(2) grown_trans by (auto simp: analysis_run_def)
qed (simp add: analysis_run_def)

lemma fold_inputs:
  "bt_wf m \<Longrightarrow> bt_wf (fold (\<lambda>(i, x). bt_insert (h i) (f i x)) xs m) \<and>
     (\<forall>k w. bt_get (fold (\<lambda>(i, x). bt_insert (h i) (f i x)) xs m) k = Some w \<longrightarrow> bt_get m k = Some w \<or> (\<exists>(i, x)\<in>set xs. w = f i x))"
proof (induction xs arbitrary: m)
  case (Cons p xs)
  obtain i x where p: "p = (i, x)" by (rule prod.exhaust)
  show ?case using Cons.IH [of "bt_insert (h i) (f i x) m"] Cons.prems by (fastforce simp: p split: if_splits)
qed simp

lemma begin_ok:
  assumes "co_ok commodity co"
  shows "co_ok commodity (analysis_act commodity codec (BeginCandidate v a inputs) co)"
proof -
  let ?s = "co_store co"
  let ?m = "fold (\<lambda>(i, x). bt_insert (i mod 2 ^ 32) (af_fresh ?s + i, x)) (enumerate 0 inputs) []"
  note m = fold_inputs [of "[]" "\<lambda>i. i mod 2 ^ 32" "\<lambda>i x. (af_fresh ?s + i, x)" "enumerate 0 inputs"]
  have new: "\<exists>i x. (i, x) \<in> set (enumerate 0 inputs) \<and> (arc, j) = (af_fresh ?s + i, x)" if "bt_get ?m p = Some (arc, j)" for p arc j
  proof -
    have "bt_get [] p = Some (arc, j) \<or> (\<exists>(i, x)\<in>set (enumerate 0 inputs). (arc, j) = (af_fresh ?s + i, x))"
      using conjunct2 [OF m [OF bt_wf_Nil]] that by blast
    then show ?thesis by auto
  qed
  have "\<exists>i<length inputs. arc = af_fresh ?s + i \<and> j = inputs ! i" if "bt_get ?m p = Some (arc, j)" for p arc j
    using new [OF that] by (auto simp: in_set_enumerate_eq)
  then have at: "af_fresh ?s \<le> arc \<and> arc < af_fresh ?s + length inputs \<and> j = inputs ! (arc - af_fresh ?s)" if "bt_get ?m p = Some (arc, j)" for p arc j
    using that by fastforce
  have s: "snd (begin_candidate v a inputs ?s) =
      ?s\<lparr> af_version := v, af_algorithm := a, af_inputs := ?m, af_results := [], af_fresh := af_fresh ?s + length inputs \<rparr>"
    by (simp add: begin_candidate_def Let_def)
  have "store_ok commodity (snd (begin_candidate v a inputs ?s))" unfolding s store_ok_def using m at by simp blast
  moreover have "arcs_ok commodity (snd (begin_candidate v a inputs ?s)) f" if "arcs_ok commodity ?s f" for f
    using that at unfolding s arcs_ok_def by (cases f) fastforce
  ultimately show ?thesis using assms by (auto simp: co_ok_def list_all_iff)
qed

lemma history_ok: "co_ok commodity (analysis_run commodity codec acts new_coordinator)"
proof -
  have "co_ok commodity co \<Longrightarrow> co_ok commodity (fold (analysis_act commodity codec) acts co)" for co
  proof (induction acts arbitrary: co)
    case (Cons x xs)
    have "co_ok commodity (analysis_act commodity codec x co)"
    proof (cases "is_begin x")
      case True
      then obtain v a inputs where "x = BeginCandidate v a inputs" by (cases x) auto
      then show ?thesis using begin_ok [OF Cons.prems] by simp
    next
      case False
      then show ?thesis using act_ok [OF Cons.prems] by simp
    qed
    then show ?case using Cons.IH by simp
  qed simp
  moreover have "co_ok commodity new_coordinator"
    by (simp add: co_ok_def new_coordinator_def new_artifacts_def store_ok_def)
  ultimately show ?thesis by (simp add: analysis_run_def)
qed

lemma result_input:
  "store_ok commodity s \<Longrightarrow> bt_get (af_results s) p = Some rows \<Longrightarrow>
     \<exists>arc i. bt_get (af_inputs s) p = Some (arc, i) \<and> rows = expected_rows commodity i"
  unfolding store_ok_def by blast

lemma results_of_inputs:
  assumes "store_ok commodity s"
  shows "fst ` set (af_results s) \<subseteq> fst ` set (af_inputs s)"
proof
  fix p assume "p \<in> fst ` set (af_results s)"
  then have "bt_get (af_results s) p \<noteq> None" by (simp add: bt_get_None_iff bt_keys_def)
  then obtain arc i where "bt_get (af_inputs s) p = Some (arc, i)" using result_input [OF assms] by blast
  then show "p \<in> fst ` set (af_inputs s)" using bt_get_entry by force
qed

text \<open>A complete store has the reduction of every input, in their order.\<close>

lemma collect_exact:
  assumes "store_ok commodity s" "collect_rows v s = Some rows"
  shows "rows = concat (map (\<lambda>x. expected_rows commodity (snd (snd x))) (af_inputs s))"
proof -
  let ?m = "map (\<lambda>(p, arc, i). (p, expected_rows commodity i)) (af_inputs s)"
  have wf: "bt_wf (af_inputs s)" "bt_wf (af_results s)" using assms(1) by (simp_all add: store_ok_def)
  have keys: "map fst ?m = map fst (af_inputs s)" by (auto simp: comp_def split_beta)
  have wf': "bt_wf ?m" using wf(1) unfolding bt_wf_def keys .
  have get: "bt_get ?m p = map_option (\<lambda>(arc, i). expected_rows commodity i) (bt_get (af_inputs s) p)" for p
  proof -
    have "map_of (map (\<lambda>(p, arc, i). (p, expected_rows commodity i)) m) p = map_option (\<lambda>(arc, i). expected_rows commodity i) (map_of m p)" for m
      by (induction m) auto
    then show ?thesis by (simp add: bt_get_def)
  qed
  note sub = results_of_inputs [OF assms(1)]
  have "card (fst ` set (af_results s)) = card (fst ` set (af_inputs s))"
    using assms(2) distinct_card [OF bt_wf_distinct [OF wf(1)]] distinct_card [OF bt_wf_distinct [OF wf(2)]]
    by (auto simp: collect_rows_def split: if_splits)
  then have all: "fst ` set (af_results s) = fst ` set (af_inputs s)" using sub by (simp add: card_subset_eq)
  have "bt_get (af_results s) p = bt_get ?m p" for p
  proof (cases "bt_get (af_results s) p")
    case None
    then have "bt_get (af_inputs s) p = None" using all by (simp add: bt_get_None_iff bt_keys_def)
    then show ?thesis using None get by simp
  next
    case (Some rows)
    then show ?thesis using result_input [OF assms(1) Some] get by auto
  qed
  then have "af_results s = ?m" by (rule bt_wf_ext [OF wf(2) wf'])
  then show ?thesis using assms(2) by (auto simp: collect_rows_def bt_values_def comp_def split_beta split: if_splits)
qed

lemma collect_complete:
  assumes "store_ok commodity s" "\<forall>p\<in>fst ` set (af_inputs s). bt_get (af_results s) p \<noteq> None"
  shows "\<exists>rows. collect_rows (af_version s) s = Some rows"
proof -
  have wf: "bt_wf (af_inputs s)" "bt_wf (af_results s)" using assms(1) by (simp_all add: store_ok_def)
  have "fst ` set (af_inputs s) \<subseteq> fst ` set (af_results s)" using assms(2) by (force dest: bt_get_entry)
  moreover have "fst ` set (af_results s) \<subseteq> fst ` set (af_inputs s)" by (rule results_of_inputs [OF assms(1)])
  ultimately have "length (af_results s) = length (af_inputs s)"
    using distinct_card [OF bt_wf_distinct [OF wf(1)]] distinct_card [OF bt_wf_distinct [OF wf(2)]] by simp
  then show ?thesis by (simp add: collect_rows_def)
qed

text \<open>A partition the codec carries both ways is done by one turn of the local loop, and stays done.\<close>

definition ships :: "'r reduction \<Rightarrow> 'r codec \<Rightarrow> analysis_input \<Rightarrow> bool" where
  "ships commodity codec i \<longleftrightarrow>
     (case write_input codec i of None \<Rightarrow> False | Some b \<Rightarrow> b \<noteq> [] \<and> read_input codec b = Inr i) \<and>
     (case write_rows codec (expected_rows commodity i) of None \<Rightarrow> False | Some b \<Rightarrow> read_rows codec b = Inr (expected_rows commodity i))"

lemma local_done:
  assumes "bt_get (af_inputs s) p = Some (arc, i)" "ships commodity codec i"
  shows "bt_get (af_results (local_step commodity codec (af_version s) (af_algorithm s) p s)) p \<noteq> None"
proof -
  obtain b c where "write_input codec i = Some b" "b \<noteq> []" "read_input codec b = Inr i"
    "write_rows codec (expected_rows commodity i) = Some c" "read_rows codec c = Inr (expected_rows commodity i)"
    using assms(2) by (auto simp: ships_def split: option.splits)
  then show ?thesis using assms(1)
    by (simp add: local_step_def registered_def finish_def finish_check_def finish_commit_def)
qed

lemma run_local_done:
  assumes "co_ok commodity co" "list_all (\<lambda>x. \<not> is_begin x) acts" "bt_get (af_inputs (co_store co)) p = Some (arc, i)"
    "ships commodity codec i" "Local (af_version (co_store co)) (af_algorithm (co_store co)) p \<in> set acts"
  shows "bt_get (af_results (co_store (analysis_run commodity codec acts co))) p \<noteq> None"
proof -
  let ?s = "co_store co"
  let ?l = "Local (af_version ?s) (af_algorithm ?s) p"
  obtain xs ys where acts: "acts = xs @ ?l # ys" using assms(5) by (meson split_list)
  let ?c1 = "analysis_run commodity codec xs co"
  have one: "co_ok commodity ?c1" "grown ?s (co_store ?c1)" using run_ok [OF assms(1), of xs codec] assms(2) acts by simp_all
  let ?c2 = "analysis_act commodity codec ?l ?c1"
  have two: "co_ok commodity ?c2" using act_ok [OF one(1), of ?l codec] by simp
  have "bt_get (af_results (co_store ?c2)) p \<noteq> None"
    using local_done [of "co_store ?c1" p arc i commodity codec] one(2) assms(3,4) by (simp add: grown_def)
  moreover have "grown (co_store ?c2) (co_store (analysis_run commodity codec ys ?c2))"
    using run_ok [OF two, of ys codec] assms(2) acts by simp
  ultimately show ?thesis unfolding acts by (simp add: grown_def analysis_run_def)
qed

section \<open>The cut\<close>

definition market_entry_of :: "(itemid, ladder) btree \<Rightarrow> (itemid \<Rightarrow> catalog) \<Rightarrow> price_sample list \<Rightarrow> market_input" where
  "market_entry_of ladders owner samples = market_entry ladders (owner (sm_item (hd samples))) samples"

text \<open>A partition of some markets: at most sixteen, of one catalogue, which is the one of the last.\<close>

definition sealed :: "region \<Rightarrow> (itemid, ladder) btree \<Rightarrow> (itemid \<Rightarrow> catalog) \<Rightarrow> (catalog \<Rightarrow> window list) \<Rightarrow> millis \<Rightarrow>
    price_sample list list \<Rightarrow> analysis_input \<Rightarrow> bool" where
  "sealed r ladders owner windows now gs i \<longleftrightarrow> gs \<noteq> [] \<and> length gs \<le> PARTITION_MARKETS \<and>
     (let c = owner (sm_item (hd (last gs)))
      in i = seal r windows now c (map (market_entry_of ladders owner) gs) \<and> list_all (\<lambda>g. cg_id (owner (sm_item (hd g))) = cg_id c) gs)"

definition cutting :: "region \<Rightarrow> (itemid, ladder) btree \<Rightarrow> (itemid \<Rightarrow> catalog) \<Rightarrow> (catalog \<Rightarrow> window list) \<Rightarrow> millis \<Rightarrow>
    price_sample list list \<Rightarrow> cut_state \<Rightarrow> bool" where
  "cutting r ladders owner windows now seen acc \<longleftrightarrow> (case acc of (out, current, held) \<Rightarrow>
     \<exists>gss gs. seen = concat gss @ gs \<and> list_all2 (sealed r ladders owner windows now) gss out \<and>
       current = map (market_entry_of ladders owner) gs \<and> length gs \<le> PARTITION_MARKETS \<and>
       held = (if gs = [] then None else Some (owner (sm_item (hd (last gs))))) \<and> (gs = [] \<longrightarrow> gss = []) \<and>
       list_all (\<lambda>g. cg_id (owner (sm_item (hd g))) = cg_id (owner (sm_item (hd (last gs))))) gs)"

lemma cutting_step:
  assumes "cutting r ladders owner windows now seen acc"
  shows "\<exists>acc'. partition_step r ladders owner windows now g acc = Some acc' \<and> cutting r ladders owner windows now (seen @ [g]) acc'"
proof -
  obtain out current held where acc: "acc = (out, current, held)" by (metis prod.exhaust)
  obtain gss gs where c: "seen = concat gss @ gs" "list_all2 (sealed r ladders owner windows now) gss out"
    "current = map (market_entry_of ladders owner) gs" "length gs \<le> PARTITION_MARKETS"
    "held = (if gs = [] then None else Some (owner (sm_item (hd (last gs)))))" "gs = [] \<longrightarrow> gss = []"
    "list_all (\<lambda>g. cg_id (owner (sm_item (hd g))) = cg_id (owner (sm_item (hd (last gs))))) gs"
    using assms acc by (auto simp: cutting_def)
  let ?same = "gs \<noteq> [] \<and> cg_id (owner (sm_item (hd (last gs)))) = cg_id (owner (sm_item (hd g)))"
  show ?thesis
  proof (cases "\<not> ?same \<and> gs \<noteq> [] \<or> PARTITION_MARKETS \<le> length gs")
    case True
    then have gs: "gs \<noteq> []" by (auto simp: PARTITION_MARKETS_def)
    let ?i = "seal r windows now (owner (sm_item (hd (last gs)))) current"
    have "sealed r ladders owner windows now gs ?i" using gs c(3,4,7) by (simp add: sealed_def)
    then have "list_all2 (sealed r ladders owner windows now) (gss @ [gs]) (out @ [?i])" using c(2) by (simp add: list_all2_appendI)
    then show ?thesis using True gs c acc
      by (auto simp: partition_step_def cutting_def Let_def market_entry_of_def PARTITION_MARKETS_def
        intro!: exI [of _ "gss @ [gs]"] exI [of _ "[g]"])
  next
    case False
    have "list_all (\<lambda>h. cg_id (owner (sm_item (hd h))) = cg_id (owner (sm_item (hd g)))) gs" using c(7) False by (auto simp: list_all_iff)
    then show ?thesis using False c acc
      by (auto simp: partition_step_def cutting_def Let_def market_entry_of_def
        intro!: exI [of _ gss] exI [of _ "gs @ [g]"])
  qed
qed

lemma cutting_loop:
  "cutting r ladders owner windows now seen acc \<Longrightarrow>
     \<exists>acc'. partition_loop r ladders owner windows now gs acc = Some acc' \<and> cutting r ladders owner windows now (seen @ gs) acc'"
proof (induction gs arbitrary: seen acc)
  case (Cons g gs)
  then obtain acc1 where "partition_step r ladders owner windows now g acc = Some acc1" "cutting r ladders owner windows now (seen @ [g]) acc1"
    using cutting_step by blast
  then show ?case using Cons.IH [of "seen @ [g]" acc1] by simp
qed simp

text \<open>The cut never panics, loses no market and keeps their order.\<close>

lemma partition_exact:
  "\<exists>inputs gss. partition_history r history ladders owner windows now = Some inputs \<and> concat gss = grouped history \<and>
     list_all2 (sealed r ladders owner windows now) gss inputs"
proof -
  have "cutting r ladders owner windows now [] ([], [], None)" by (auto simp: cutting_def intro!: exI [of _ "[]"])
  from cutting_loop [OF this, of "grouped history"] obtain out current held where
    loop: "partition_loop r ladders owner windows now (grouped history) ([], [], None) = Some (out, current, held)"
    and cut: "cutting r ladders owner windows now (grouped history) (out, current, held)" by (metis append_Nil prod.exhaust)
  obtain gss gs where c: "grouped history = concat gss @ gs" "list_all2 (sealed r ladders owner windows now) gss out"
    "current = map (market_entry_of ladders owner) gs" "length gs \<le> PARTITION_MARKETS"
    "held = (if gs = [] then None else Some (owner (sm_item (hd (last gs)))))" "gs = [] \<longrightarrow> gss = []"
    "list_all (\<lambda>g. cg_id (owner (sm_item (hd g))) = cg_id (owner (sm_item (hd (last gs))))) gs"
    using cut by (auto simp: cutting_def)
  show ?thesis
  proof (cases "gs = []")
    case True
    then show ?thesis using c loop by (auto simp: partition_history_def)
  next
    case False
    let ?i = "seal r windows now (owner (sm_item (hd (last gs)))) current"
    have "sealed r ladders owner windows now gs ?i" using False c(3,4,7) by (simp add: sealed_def)
    then have "list_all2 (sealed r ladders owner windows now) (gss @ [gs]) (out @ [?i])" using c(2) by (simp add: list_all2_appendI)
    then show ?thesis using False c(1,5) loop by (auto simp: partition_history_def intro!: exI [of _ "gss @ [gs]"])
  qed
qed

lemma grouped_concat: "concat (grouped xs) = xs"
  by (induction xs rule: grouped.induct) auto

lemma grouped_one_item: "g \<in> set (grouped xs) \<Longrightarrow> g \<noteq> [] \<and> (\<forall>x\<in>set g. sm_item x = sm_item (hd g))"
proof (induction xs rule: grouped.induct)
  case (2 x xs)
  show ?case
  proof (cases "g = x # takeWhile (\<lambda>y. sm_item y = sm_item x) xs")
    case True
    have "sm_item y = sm_item x" if "y \<in> set (takeWhile (\<lambda>y. sm_item y = sm_item x) xs)" for y using set_takeWhileD [OF that] by simp
    then show ?thesis unfolding True by (metis list.distinct(1) list.sel(1) set_ConsD)
  next
    case False
    then have "g \<in> set (grouped (dropWhile (\<lambda>y. sm_item y = sm_item x) xs))" using "2.prems" by simp
    then show ?thesis by (rule "2.IH")
  qed
qed simp

lemma length_grouped: "length (grouped xs) \<le> length xs"
proof (induction xs rule: grouped.induct)
  case (2 x xs)
  then show ?case using length_dropWhile_le [of "\<lambda>y. sm_item y = sm_item x" xs] by simp
qed simp

lemma length_sealed: "list_all2 (sealed r ladders owner windows now) gss inputs \<Longrightarrow> length inputs \<le> length (concat gss)"
proof (induction gss inputs rule: list_all2_induct)
  case (Cons gs gss i inputs)
  then have "gs \<noteq> []" by (simp add: sealed_def)
  then show ?case using Cons(3) by (cases gs) simp_all
qed simp

text \<open>What is cut off a catalogue is not about the items it was cut for.\<close>

lemma rank_in_ids: "item_rank_of e item \<noteq> None \<longleftrightarrow> item \<in> set (item_ids e)"
  by (auto simp: item_rank_of_def item_ids_def find_None_iff)

lemma trim_catalog_find:
  assumes "item \<in> set items"
  shows "find_item (trim_catalog c items) item = find_item c item"
proof -
  have "find (\<lambda>e. item \<in> set (item_ids e)) (filter (\<lambda>e. \<exists>i\<in>set (item_ids e). i \<in> set items) es) = find (\<lambda>e. item \<in> set (item_ids e)) es" for es
    using assms by (induction es) auto
  then show ?thesis unfolding find_item_def rank_in_ids trim_catalog_def by simp
qed

lemma trim_catalog_dates: "cg_patches (trim_catalog c items) = cg_patches c" "cg_tiers (trim_catalog c items) = cg_tiers c"
  by (simp_all add: trim_catalog_def)

section \<open>The rows of a region\<close>

lemma region_rows_cases:
  assumes "co_ok commodity co" "list_all (\<lambda>x. \<not> is_begin x) (cluster @ here)" "length inputs \<le> 2 ^ 32"
  shows "region_rows commodity codec v a inputs cluster here co \<in> {concat (map (expected_rows commodity) inputs), []}"
    and "list_all (ships commodity codec) inputs \<Longrightarrow> list_all (\<lambda>p. Local v a p \<in> set here) [0..<length inputs] \<Longrightarrow>
      region_rows commodity codec v a inputs cluster here co = concat (map (expected_rows commodity) inputs)"
proof -
  let ?c0 = "analysis_act commodity codec (BeginCandidate v a inputs) co"
  let ?c1 = "analysis_run commodity codec cluster ?c0" and ?want = "concat (map (expected_rows commodity) inputs)"
  let ?c2 = "analysis_run commodity codec here ?c1"
  have ok: "co_ok commodity ?c0" by (rule begin_ok [OF assms(1)])
  have one: "co_ok commodity ?c1" "grown (co_store ?c0) (co_store ?c1)" using run_ok [OF ok, of cluster codec] assms(2) by simp_all
  have two: "co_ok commodity ?c2" "grown (co_store ?c1) (co_store ?c2)" using run_ok [OF one(1), of here codec] assms(2) by simp_all
  have regs: "af_inputs (co_store ?c0) = map (\<lambda>(i, x). (i, af_fresh (co_store co) + i, x)) (enumerate 0 inputs)"
    "af_version (co_store ?c0) = v" "af_algorithm (co_store ?c0) = a"
    using begin_inputs [OF assms(3), of v a "co_store co"] by (simp_all add: begin_candidate_def Let_def)
  have exact: "rows = ?want" if "co_ok commodity c" "grown (co_store ?c0) (co_store c)" "collect_rows v (co_store c) = Some rows" for c rows
  proof -
    have "af_inputs (co_store c) = map (\<lambda>(i, x). (i, af_fresh (co_store co) + i, x)) (enumerate 0 inputs)" using that(2) regs(1) by (simp add: grown_def)
    then have "map (\<lambda>x. snd (snd x)) (af_inputs (co_store c)) = inputs" by (simp add: comp_def split_beta)
    moreover have "rows = concat (map (\<lambda>x. expected_rows commodity (snd (snd x))) (af_inputs (co_store c)))"
      using collect_exact [of commodity "co_store c" v rows] that(1,3) by (simp add: co_ok_def)
    ultimately show ?thesis by (metis (no_types, lifting) map_map comp_def map_eq_conv)
  qed
  have run: "region_rows commodity codec v a inputs cluster here co = (if inputs = [] then [] else
      case collect_rows v (co_store ?c1) of Some rows \<Rightarrow> rows | None \<Rightarrow> (case collect_rows v (co_store ?c2) of Some rows \<Rightarrow> rows | None \<Rightarrow> []))"
    by (simp only: region_rows_def analysis_run_def Let_def fold_simps)
  show "region_rows commodity codec v a inputs cluster here co \<in> {?want, []}"
    using exact [OF one] exact [OF two(1) grown_trans [OF one(2) two(2)]] unfolding run by (auto split: option.split)
  assume ships: "list_all (ships commodity codec) inputs" and here: "list_all (\<lambda>p. Local v a p \<in> set here) [0..<length inputs]"
  have same: "af_inputs (co_store ?c1) = af_inputs (co_store ?c0)" "af_version (co_store ?c1) = v" "af_algorithm (co_store ?c1) = a"
    using one(2) regs by (simp_all add: grown_def)
  have "bt_get (af_results (co_store ?c2)) p \<noteq> None" if "p \<in> fst ` set (af_inputs (co_store ?c2))" for p
  proof -
    have "p \<in> fst ` set (af_inputs (co_store ?c1))" using that two(2) by (simp add: grown_def)
    then obtain arc i where mem: "(p, arc, i) \<in> set (af_inputs (co_store ?c1))" by force
    have wf: "bt_wf (af_inputs (co_store ?c1))" using one(1) unfolding co_ok_def store_ok_def by blast
    have got: "bt_get (af_inputs (co_store ?c1)) p = Some (arc, i)" using bt_get_iff_entry [OF wf] mem by blast
    have p: "p < length inputs" "i = inputs ! p" using mem unfolding same(1) regs(1) by (auto simp: in_set_enumerate_eq)
    have "ships commodity codec i" "Local v a p \<in> set here" using p ships here by (auto simp: list_all_length list_all_iff)
    then show ?thesis using run_local_done [OF one(1) _ got] assms(2) same(2,3) by simp
  qed
  then obtain rows where "collect_rows v (co_store ?c2) = Some rows"
    using collect_complete [of commodity "co_store ?c2"] two same(2) by (auto simp: co_ok_def grown_def)
  then show "region_rows commodity codec v a inputs cluster here co = ?want"
    using exact [OF one] exact [OF two(1) grown_trans [OF one(2) two(2)]] unfolding run by (auto split: option.split)
qed

text \<open>
  C31: what a region stages is what its history says, whoever computed it. The history is cut, in order and without a
  loss, into partitions of at most sixteen markets of one catalogue. Whatever tasks and artifacts arrive from
  workers, stale, forged, duplicated or late, and however their recording is interleaved with the coordinator's own
  pass and with what earlier candidates left on its way, the rows that result are those of the reduction
  of every partition in order, or none at all; and they are the former whenever the codec carries the partitions
  and the coordinator's pass reaches every one of them.
\<close>

theorem region_rows_exact:
  assumes "length history \<le> 2 ^ 32" "list_all (\<lambda>x. \<not> is_begin x) (cluster @ here)"
    "co = analysis_run commodity codec past new_coordinator"
  shows "\<exists>inputs gss. partition_history r history ladders owner windows now = Some inputs \<and> concat gss = grouped history \<and>
    list_all2 (sealed r ladders owner windows now) gss inputs \<and>
    region_rows commodity codec v a inputs cluster here co \<in> {concat (map (expected_rows commodity) inputs), []} \<and>
    (list_all (ships commodity codec) inputs \<and> list_all (\<lambda>p. Local v a p \<in> set here) [0..<length inputs] \<longrightarrow>
       region_rows commodity codec v a inputs cluster here co = concat (map (expected_rows commodity) inputs))"
proof -
  obtain inputs gss where cut: "partition_history r history ladders owner windows now = Some inputs" "concat gss = grouped history"
    "list_all2 (sealed r ladders owner windows now) gss inputs" using partition_exact by blast
  have "length inputs \<le> 2 ^ 32" using length_sealed [OF cut(3)] length_grouped [of history] cut(2) assms(1) by simp
  note rows = region_rows_cases [OF history_ok [of commodity codec past] assms(2) this, of codec v a]
  show ?thesis unfolding assms(3) using cut rows by blast
qed

definition demo_history :: "price_sample list" where
  "demo_history = [\<lparr> sm_item = 5, sm_region = Eu, sm_observed_at = 3, sm_min = 10, sm_p05 = 10, sm_median = 12, sm_quantity = 4, sm_listings = 2 \<rparr>]"

definition demo_reduction :: "nat reduction" where
  "demo_reduction k h l c ws now = length h"

definition demo_input :: analysis_input where
  "demo_input = seal Eu (\<lambda>_. []) 7 demo_catalog [market_entry [] demo_catalog demo_history]"

definition demo_codec :: "nat codec" where
  "demo_codec = \<lparr> write_input = (\<lambda>_. Some [1]), read_input = (\<lambda>_. Inr demo_input), write_rows = (\<lambda>_. Some [2]),
     read_rows = (\<lambda>b. if b = [2] then Inr [1] else Inr [9]) \<rparr>"

lemma demo_cut: "partition_history Eu demo_history [] (\<lambda>_. demo_catalog) (\<lambda>_. []) 7 = Some [demo_input]"
  by (simp add: partition_history_def demo_history_def partition_step_def PARTITION_MARKETS_def demo_input_def Let_def)

lemma demo_ships: "expected_rows demo_reduction demo_input = [1]" "ships demo_reduction demo_codec demo_input"
proof -
  show one: "expected_rows demo_reduction demo_input = [1]"
    by (simp add: expected_rows_def demo_input_def seal_def market_entry_def demo_reduction_def demo_history_def Let_def)
  show "ships demo_reduction demo_codec demo_input" unfolding ships_def one by (simp add: demo_codec_def)
qed

text \<open>A worker's forged rows arrive first; the coordinator's own pass supplies the row there is.\<close>

theorem region_rows_exact_witness:
  "region_rows demo_reduction demo_codec 3 6 [demo_input] [Receive (TaskAnalysis 3 6 0) [7], Commit 0] [Local 3 6 0] new_coordinator = [1]"
proof -
  have "length demo_history \<le> 2 ^ 32" by (simp add: demo_history_def)
  moreover have "list_all (\<lambda>x. \<not> is_begin x) ([Receive (TaskAnalysis 3 6 0) [7], Commit 0] @ [Local 3 6 0])" by simp
  moreover have "new_coordinator = analysis_run demo_reduction demo_codec [] new_coordinator" by (simp add: analysis_run_def)
  ultimately have "region_rows demo_reduction demo_codec 3 6 [demo_input] [Receive (TaskAnalysis 3 6 0) [7], Commit 0] [Local 3 6 0] new_coordinator =
      concat (map (expected_rows demo_reduction) [demo_input])"
    using region_rows_exact [where r = Eu and ladders = "[]" and owner = "\<lambda>_. demo_catalog" and windows = "\<lambda>_. []" and now = 7
        and history = demo_history and v = 3 and a = 6] demo_cut demo_ships(2) by fastforce
  then show ?thesis using demo_ships(1) by simp
qed

end
