(* ===== verification/Correlate.thy ===== *)
theory Correlate
  imports Price_Series
begin

text \<open>
  How a market moves and what it moves with (\<open>crates/app-core/src/market/correlate.rs\<close>): the rank correlation of two
  series, the worst fall and the best rise of a path, its typical change, the grid of hours of the week, and a
  market before and after a moment.
\<close>

section \<open>The square root of doubles\<close>

function isqrt :: "nat \<Rightarrow> nat" where
  "isqrt n = (if n = 0 then 0 else let r = 2 * isqrt (n div 4) in if (r + 1) * (r + 1) \<le> n then r + 1 else r)"
  by auto
termination by (relation "measure id") auto

declare isqrt.simps [simp del]

text \<open>\<open>f64::sqrt\<close>: the double nearest to the square root.\<close>

definition f64_sqrt :: "rat \<Rightarrow> rat" where
  "f64_sqrt x =
     (if x \<le> 0 then 0
      else let u = ilog2 x div 2 - 52;
               y = x / 2 powi (2 * u);
               q = isqrt (nat \<lfloor>y\<rfloor>);
               half = (of_nat q + 1 / 2) * (of_nat q + 1 / 2);
               n = (if y < half then q else if half < y then q + 1 else if even q then q else q + 1)
           in of_nat n * 2 powi u)"

section \<open>Rank correlation\<close>

definition MIN_PAIRS :: nat where
  "MIN_PAIRS = 20"

record association =
  as_rho_percent :: int
  as_pairs :: nat

datatype strength = NoStrength | Weak | Moderate | Strong

function run_end :: "nat list \<Rightarrow> nat list \<Rightarrow> nat \<Rightarrow> nat \<Rightarrow> nat" where
  "run_end xs ord i j = (if j + 1 < length ord \<and> xs ! (ord ! (j + 1)) = xs ! (ord ! i) then run_end xs ord i (j + 1) else j)"
  by auto
termination by (relation "measure (\<lambda>(xs, ord, i, j). length ord - j)") auto

declare run_end.simps [simp del]

lemma run_end_ge: "j \<le> run_end xs ord i j"
  by (induction xs ord i j rule: run_end.induct) (subst run_end.simps, auto)

function rank_loop :: "nat list \<Rightarrow> nat list \<Rightarrow> nat \<Rightarrow> rat list \<Rightarrow> rat list" where
  "rank_loop xs ord i out =
     (if i < length ord
      then let j = run_end xs ord i i;
               rank = f64 (f64 (f64 (of_nat (i + j)) / 2) + 1)
           in rank_loop xs ord (j + 1) (fold (\<lambda>slot out. out[slot := rank]) (take (j + 1 - i) (drop i ord)) out)
      else out)"
  by auto
termination
proof (relation "measure (\<lambda>(xs, ord, i, out). length ord - i)")
  fix xs ord :: "nat list" and i x
  assume "i < length ord" "x = run_end xs ord i i"
  then show "((xs, ord, x + 1, out'), xs, ord, i, out) \<in> measure (\<lambda>(xs, ord, i, out). length ord - i)" for out out'
    using run_end_ge [of i xs ord i] by auto
qed auto

declare rank_loop.simps [simp del]

definition ranks :: "nat list \<Rightarrow> rat list" where
  "ranks xs = rank_loop xs (sort_key (\<lambda>i. xs ! i) [0..<length xs]) 0 (replicate (length xs) 0)"

definition f64_sum :: "rat list \<Rightarrow> rat" where
  "f64_sum xs = fold (\<lambda>x acc. f64 (acc + x)) xs 0"

definition f64_mean :: "rat list \<Rightarrow> rat" where
  "f64_mean xs = f64 (f64_sum xs / f64 (of_nat (length xs)))"

definition centred :: "rat list \<Rightarrow> rat list" where
  "centred xs = (let m = f64_mean xs in map (\<lambda>x. f64 (x - m)) xs)"

definition co_moment :: "rat list \<Rightarrow> rat list \<Rightarrow> rat" where
  "co_moment das dbs = f64_sum (map2 (\<lambda>da db. f64 (da * db)) das dbs)"

definition association_of :: "nat list \<Rightarrow> nat list \<Rightarrow> association option" where
  "association_of a b =
     (let n = min (length a) (length b) in
      if n < MIN_PAIRS then None
      else let da = centred (ranks (take n a));
               db = centred (ranks (take n b));
               cov = co_moment da db;
               va = co_moment da da;
               vb = co_moment db db
           in if va = 0 \<or> vb = 0 then None
              else let rho = f64 (cov / f64 (f64_sqrt va * f64_sqrt vb))
                   in Some \<lparr> as_rho_percent = \<lfloor>clamp (- 100) 100 (of_int (round_away (f64 (rho * 100))))\<rfloor>, as_pairs = n mod 2 ^ 32 \<rparr>)"

definition strength_of :: "association \<Rightarrow> strength" where
  "strength_of a = (let r = \<bar>as_rho_percent a\<bar> in if r \<le> 19 then NoStrength else if r \<le> 39 then Weak else if r \<le> 69 then Moderate else Strong)"

definition wording :: "association \<Rightarrow> string" where
  "wording a = (if \<bar>as_rho_percent a\<bar> \<le> 19 then ''No association in this window''
     else if as_rho_percent a < 0 then ''Higher prices associated with lower stock''
     else ''Higher prices associated with more stock'')"

section \<open>Paths\<close>

record swings =
  sw_drawdown :: nat
  sw_rise :: nat

text \<open>One turn of the loop, with the running peak and trough.\<close>

definition swing_step :: "nat \<Rightarrow> nat \<times> nat \<times> swings \<Rightarrow> nat \<times> nat \<times> swings" where
  "swing_step price st =
     (case st of (peak, trough, s) \<Rightarrow>
        (max peak price, min trough price,
         \<lparr> sw_drawdown = (if price < peak then max (sw_drawdown s) ((peak - price) * 100 div peak mod 2 ^ 32) else sw_drawdown s),
           sw_rise = (if trough < price then max (sw_rise s) ((price - trough) * 100 div trough mod 2 ^ 32) else sw_rise s) \<rparr>))"

definition swings_of :: "nat list \<Rightarrow> swings" where
  "swings_of prices = snd (snd (fold swing_step (filter (\<lambda>p. 0 < p) prices) (0, u64_max, \<lparr> sw_drawdown = 0, sw_rise = 0 \<rparr>)))"

record stability =
  sb_typical_move_percent :: nat
  sb_changes :: nat

definition price_changes :: "nat list \<Rightarrow> nat list" where
  "price_changes prices = map (\<lambda>(p, q). abs_diff p q * 100 div p mod 2 ^ 64) (filter (\<lambda>(p, q). 0 < p) (zip prices (tl prices)))"

definition stability_of :: "nat list \<Rightarrow> stability option" where
  "stability_of prices =
     (let changes = price_changes prices in
      if length changes < MIN_PAIRS then None
      else map_option (\<lambda>m. \<lparr> sb_typical_move_percent = m mod 2 ^ 32, sb_changes = length changes mod 2 ^ 32 \<rparr>)
        (quantile (from_observations (map (\<lambda>(i, change). (i * 3600000, change)) (enumerate 0 changes))) (f64 (1 / 2))))"

section \<open>The week\<close>

definition MIN_HEATMAP_CELLS :: nat where
  "MIN_HEATMAP_CELLS = 56"

record heatmap =
  hm_cells :: "copper option list"
  hm_samples :: nat
  hm_filled :: nat

definition no_heatmap :: heatmap where
  "no_heatmap = \<lparr> hm_cells = [], hm_samples = 0, hm_filled = 0 \<rparr>"

text \<open>The hour of the week: Monday is day 0, and the first of January 1970 was a Thursday.\<close>

definition week_cell :: "millis \<Rightarrow> nat" where
  "week_cell t = ((t div (24 * 60 * 60 * 1000) + 3) mod 7) * 24 + t div 3600000 mod 24"

definition add_cell :: "millis \<times> copper \<Rightarrow> (nat, (millis \<times> copper) list) btree \<Rightarrow> (nat, (millis \<times> copper) list) btree" where
  "add_cell ob m = bt_insert (week_cell (fst ob)) ((case bt_get m (week_cell (fst ob)) of Some obs \<Rightarrow> obs | None \<Rightarrow> []) @ [ob]) m"

definition fill_cell :: "nat \<times> (millis \<times> copper) list \<Rightarrow> copper option list \<times> nat \<Rightarrow> copper option list \<times> nat" where
  "fill_cell entry st =
     (case quantile (from_observations (snd entry)) (f64 (1 / 2)) of
        None \<Rightarrow> st
      | Some median \<Rightarrow> ((fst st)[fst entry := Some median], snd st + 1))"

definition heatmap_of :: "(millis \<times> copper) list \<Rightarrow> heatmap" where
  "heatmap_of obs =
     (case fold fill_cell (fold add_cell obs []) (replicate (7 * 24) None, 0) of
        (cells, filled) \<Rightarrow> \<lparr> hm_cells = cells, hm_samples = length obs mod 2 ^ 32, hm_filled = filled mod 2 ^ 32 \<rparr>)"

definition is_usable :: "heatmap \<Rightarrow> bool" where
  "is_usable h \<longleftrightarrow> MIN_HEATMAP_CELLS \<le> hm_filled h"

definition heatmap_range :: "heatmap \<Rightarrow> (copper \<times> copper) option" where
  "heatmap_range h = (case List.map_filter id (hm_cells h) of [] \<Rightarrow> None | p # ps \<Rightarrow> Some (fold min ps p, fold max ps p))"

definition cheapest_hour :: "heatmap \<Rightarrow> (nat \<times> nat) option" where
  "cheapest_hour h =
     (if \<not> is_usable h then None
      else map_option (\<lambda>(i, p). (i div 24, i mod 24))
        (min_by_key snd (List.map_filter (\<lambda>(i, cell). map_option (Pair i) cell) (enumerate 0 (hm_cells h)))))"

definition encode_heatmap :: "heatmap \<Rightarrow> string" where
  "encode_heatmap h =
     (if hm_filled h = 0 then []
      else join_with (CHR '','') (map encode_slot (hm_cells h)) @ CHR '';'' # show_nat (hm_samples h))"

definition decode_heatmap :: "string \<Rightarrow> heatmap" where
  "decode_heatmap raw =
     (let (grid, samples) = (case split_once (CHR '';'') raw of Some p \<Rightarrow> p | None \<Rightarrow> (raw, ''0'')) in
      if grid = [] then no_heatmap
      else let cells = map (parse_uint u64_max) (take (7 * 24) (split_on (CHR '','') grid))
           in \<lparr> hm_cells = cells, hm_samples = (case parse_uint u32_max samples of Some n \<Rightarrow> n | None \<Rightarrow> 0),
                hm_filled = length (filter (\<lambda>c. c \<noteq> None) cells) mod 2 ^ 32 \<rparr>)"

section \<open>Before and after\<close>

record before_after =
  ba_before_median :: copper
  ba_after_median :: copper
  ba_before_samples :: nat
  ba_after_samples :: nat
  ba_change_percent :: int

definition MIN_EITHER_SIDE :: nat where
  "MIN_EITHER_SIDE = 12"

definition before_after_of :: "(millis \<times> copper) list \<Rightarrow> millis \<Rightarrow> nat \<Rightarrow> before_after option" where
  "before_after_of obs t width = do {
     let b = from_observations (filter (\<lambda>(w, p). w < t \<and> t - w \<le> width) obs);
     let a = from_observations (filter (\<lambda>(w, p). t \<le> w \<and> w - t \<le> width) obs);
     before \<leftarrow> quantile b (f64 (1 / 2));
     after \<leftarrow> quantile a (f64 (1 / 2));
     Some \<lparr> ba_before_median = before, ba_after_median = after, ba_before_samples = b_len b mod 2 ^ 32,
       ba_after_samples = b_len a mod 2 ^ 32,
       ba_change_percent = (if before = 0 then 0 else as_i32 ((int after - int before) * 100 sdiv int before)) \<rparr> }"

definition is_supported :: "before_after \<Rightarrow> bool" where
  "is_supported c \<longleftrightarrow> MIN_EITHER_SIDE \<le> ba_before_samples c \<and> MIN_EITHER_SIDE \<le> ba_after_samples c"

section \<open>Roots and halves\<close>

lemma isqrt: "isqrt n * isqrt n \<le> n \<and> n < (isqrt n + 1) * (isqrt n + 1)"
proof (induction n rule: isqrt.induct)
  case (1 n)
  show ?case
  proof (cases "n = 0")
    case False
    define r where "r = isqrt (n div 4)"
    have "r * r \<le> n div 4" "n div 4 < (r + 1) * (r + 1)" using 1 [OF False] by (simp_all add: r_def)
    then have "(2 * r) * (2 * r) \<le> n" "n < (2 * r + 2) * (2 * r + 2)" by (simp_all add: algebra_simps less_eq_div_iff_mult_less_eq div_less_iff_less_mult)
    moreover have "isqrt n = (if (2 * r + 1) * (2 * r + 1) \<le> n then 2 * r + 1 else 2 * r)"
      using False by (subst isqrt.simps) (simp add: r_def Let_def)
    ultimately show ?thesis by auto
  qed (simp add: isqrt.simps)
qed

lemma f64_half:
  assumes "0 < x" "- 1000 \<le> ilog2 x"
  shows "f64 (x / 2) = f64 x / 2"
proof -
  have "2 powi (ilog2 x - 1) \<le> x / 2" "x / 2 < 2 powi (ilog2 x - 1 + 1)"
    using ilog2 [OF assms(1)] by (simp_all add: power_int_diff power_int_add field_simps)
  then have "ilog2 (x / 2) = ilog2 x - 1" using assms(1) by (intro ilog2_eq) auto
  then have "f64_unit (x / 2) = f64_unit x - 1" using assms by (simp add: f64_unit_def)
  then show ?thesis using assms(1) by (simp add: f64_def power_int_diff)
qed

lemma ilog2_nat: "0 < n \<Longrightarrow> 0 \<le> ilog2 (of_nat n)"
  using ilog2_mono [of 1 "of_nat n"] ilog2_eq [of 1 0] by (simp add: Suc_leI)

lemma f64_half_nat: "n \<le> 2 ^ 53 \<Longrightarrow> f64 (of_nat n / 2) = of_nat n / 2"
  using f64_half [of "of_nat n"] ilog2_nat [of n] by (cases "n = 0") auto

section \<open>Ranks\<close>

text \<open>The rank of a value: halfway between the values below it and those not above it.\<close>

definition midrank :: "nat list \<Rightarrow> nat \<Rightarrow> rat" where
  "midrank xs v = (of_nat (length (filter (\<lambda>x. x < v) xs) + length (filter (\<lambda>x. x \<le> v) xs)) + 1) / 2"

lemma run_end_spec:
  assumes "i \<le> j" "j < length ord" "\<forall>k. i \<le> k \<and> k \<le> j \<longrightarrow> xs ! (ord ! k) = xs ! (ord ! i)"
  shows "run_end xs ord i j < length ord \<and> (\<forall>k. i \<le> k \<and> k \<le> run_end xs ord i j \<longrightarrow> xs ! (ord ! k) = xs ! (ord ! i)) \<and>
    (run_end xs ord i j + 1 < length ord \<longrightarrow> xs ! (ord ! (run_end xs ord i j + 1)) \<noteq> xs ! (ord ! i))"
  using assms
proof (induction xs ord i j rule: run_end.induct)
  case (1 xs ord i j)
  show ?case
  proof (cases "j + 1 < length ord \<and> xs ! (ord ! (j + 1)) = xs ! (ord ! i)")
    case True
    have step: "run_end xs ord i j = run_end xs ord i (j + 1)" using True by (subst run_end.simps) simp
    have "xs ! (ord ! k) = xs ! (ord ! i)" if "i \<le> k" "k \<le> j + 1" for k
      using 1(4) True that by (cases "k = j + 1") (blast, metis Suc_eq_plus1 le_SucE)
    then have upto: "\<forall>k. i \<le> k \<and> k \<le> j + 1 \<longrightarrow> xs ! (ord ! k) = xs ! (ord ! i)" by blast
    show ?thesis unfolding step by (rule 1(1) [OF True trans_le_add1 [OF 1(2)] conjunct1 [OF True] upto])
  next
    case False
    have "run_end xs ord i j = j" using False by (subst run_end.simps) (simp only: if_False)
    then show ?thesis using False 1(3,4) by metis
  qed
qed

lemma fold_update:
  "\<forall>s\<in>set slots. s < length out \<Longrightarrow> length (fold (\<lambda>s out. out[s := r]) slots out) = length out \<and>
     (\<forall>k<length out. fold (\<lambda>s out. out[s := r]) slots out ! k = (if k \<in> set slots then r else out ! k))"
  by (induction slots arbitrary: out) (auto simp: nth_list_update)

lemma count_below:
  fixes vs :: "nat list"
  assumes "sorted vs" "i < length vs" "i = 0 \<or> vs ! (i - 1) < vs ! i"
  shows "length (filter (\<lambda>x. x < vs ! i) vs) = i"
proof -
  have "vs ! k < vs ! i" if "k < i" for k
  proof -
    have "vs ! k \<le> vs ! (i - 1)" using assms(1,2) that by (intro sorted_nth_mono) auto
    then show ?thesis using assms(3) that by auto
  qed
  then have "\<forall>x\<in>set (take i vs). x < vs ! i" using assms(2) by (auto simp: in_set_conv_nth)
  moreover have "\<forall>x\<in>set (drop i vs). \<not> x < vs ! i"
    using assms(1) by (auto simp: in_set_conv_nth not_less less_diff_conv add.commute intro!: sorted_nth_mono)
  ultimately have "filter (\<lambda>x. x < vs ! i) (take i vs @ drop i vs) = take i vs"
    unfolding filter_append by (simp only: filter_True filter_False append_Nil2)
  then show ?thesis using assms(2) by simp
qed

lemma count_upto:
  fixes vs :: "nat list"
  assumes "sorted vs" "j < length vs" "j + 1 < length vs \<longrightarrow> vs ! j < vs ! (j + 1)"
  shows "length (filter (\<lambda>x. x \<le> vs ! j) vs) = j + 1"
proof -
  have "\<forall>x\<in>set (take (j + 1) vs). x \<le> vs ! j"
    using assms(1,2) by (auto simp: in_set_conv_nth intro!: sorted_nth_mono)
  moreover have "\<forall>x\<in>set (drop (j + 1) vs). \<not> x \<le> vs ! j"
  proof
    fix x assume "x \<in> set (drop (j + 1) vs)"
    then obtain k where "k < length vs - (j + 1)" "x = drop (j + 1) vs ! k" by (metis in_set_conv_nth length_drop)
    then have k: "j + 1 + k < length vs" "x = vs ! (j + 1 + k)" by simp_all
    have "vs ! (j + 1) \<le> x" using k assms(1) by (auto intro!: sorted_nth_mono)
    then show "\<not> x \<le> vs ! j" using assms(3) k by auto
  qed
  ultimately have "filter (\<lambda>x. x \<le> vs ! j) (take (j + 1) vs @ drop (j + 1) vs) = take (j + 1) vs"
    unfolding filter_append by (simp only: filter_True filter_False append_Nil2)
  then show ?thesis using assms(2) by simp
qed

text \<open>An order of the positions that sorts the values.\<close>

definition sorts :: "nat list \<Rightarrow> nat list \<Rightarrow> bool" where
  "sorts xs ord \<longleftrightarrow> distinct ord \<and> set ord = {..<length xs} \<and> sorted (map ((!) xs) ord) \<and> mset (map ((!) xs) ord) = mset xs"

lemma sorts_sort_key: "sorts xs (sort_key ((!) xs) [0..<length xs])"
proof -
  have "mset (map ((!) xs) (sort_key ((!) xs) [0..<length xs])) = image_mset ((!) xs) (mset [0..<length xs])" by simp
  also have "\<dots> = mset (map ((!) xs) [0..<length xs])" by (simp only: mset_map)
  also have "\<dots> = mset xs" by (simp add: map_nth)
  finally show ?thesis by (auto simp: sorts_def)
qed

lemma run_rank:
  assumes "sorts xs ord" "i < length ord" "i = 0 \<or> xs ! (ord ! (i - 1)) < xs ! (ord ! i)" "length xs \<le> 2 ^ 52"
    "j = run_end xs ord i i"
  shows "f64 (f64 (f64 (of_nat (i + j)) / 2) + 1) = midrank xs (xs ! (ord ! i))"
    and "j < length ord" and "i \<le> j" and "\<forall>k. i \<le> k \<and> k \<le> j \<longrightarrow> xs ! (ord ! k) = xs ! (ord ! i)"
    and "j + 1 < length ord \<longrightarrow> xs ! (ord ! j) < xs ! (ord ! (j + 1))"
proof -
  let ?vs = "map ((!) xs) ord"
  have len: "length ord = length xs" using assms(1) by (metis sorts_def length_map size_mset)
  have sorted: "sorted ?vs" using assms(1) by (simp add: sorts_def)
  have "\<forall>k. i \<le> k \<and> k \<le> i \<longrightarrow> xs ! (ord ! k) = xs ! (ord ! i)" by (metis le_antisym)
  from run_end_spec [OF order_refl assms(2) this, folded assms(5)]
  show j: "j < length ord" and run: "\<forall>k. i \<le> k \<and> k \<le> j \<longrightarrow> xs ! (ord ! k) = xs ! (ord ! i)" by blast+
  from run_end_spec [OF order_refl assms(2) \<open>\<forall>k. i \<le> k \<and> k \<le> i \<longrightarrow> xs ! (ord ! k) = xs ! (ord ! i)\<close>, folded assms(5)]
  have stop: "j + 1 < length ord \<longrightarrow> xs ! (ord ! (j + 1)) \<noteq> xs ! (ord ! i)" by blast
  show ij: "i \<le> j" using run_end_ge assms(5) by simp
  have vj: "?vs ! j = xs ! (ord ! i)" using run [rule_format, of j] ij j by simp
  show edge: "j + 1 < length ord \<longrightarrow> xs ! (ord ! j) < xs ! (ord ! (j + 1))"
  proof
    assume j1: "j + 1 < length ord"
    have "?vs ! j \<le> ?vs ! (j + 1)" using sorted j1 by (intro sorted_nth_mono) auto
    then show "xs ! (ord ! j) < xs ! (ord ! (j + 1))" using run [rule_format, of j] stop ij j1 by simp
  qed
  have same: "length (filter P ?vs) = length (filter P xs)" for P
    using assms(1) by (metis sorts_def mset_filter size_mset)
  have lo: "length (filter (\<lambda>x. x < xs ! (ord ! i)) xs) = i"
    using count_below [OF sorted, of i] assms(2,3) unfolding same [symmetric] by auto
  have hi: "length (filter (\<lambda>x. x \<le> xs ! (ord ! i)) xs) = j + 1"
    using count_upto [OF sorted, of j] j edge unfolding same [symmetric] vj [symmetric] by simp
  have small: "i + j + 2 \<le> 2 ^ 53" using assms(2,4) j len by simp
  have "f64 (of_nat (i + j)) = of_nat (i + j)" "f64 (of_nat (i + j) / 2) = of_nat (i + j) / 2"
    using small by (intro f64_nat f64_half_nat, simp)+
  then have "f64 (f64 (of_nat (i + j)) / 2) + 1 = of_nat (i + j + 2) / 2" by (simp only:) (simp add: field_simps)
  then show "f64 (f64 (f64 (of_nat (i + j)) / 2) + 1) = midrank xs (xs ! (ord ! i))"
    using small unfolding midrank_def lo hi by (simp only: f64_half_nat) (simp add: algebra_simps)
qed

lemma slots_of_run:
  assumes "j < length ord" "i \<le> j"
  shows "set (take (j + 1 - i) (drop i ord)) = {ord ! k | k. i \<le> k \<and> k \<le> j}"
proof -
  have "ord ! k \<in> set (take (j + 1 - i) (drop i ord))" if "i \<le> k" "k \<le> j" for k
    using assms that by (auto simp: in_set_conv_nth intro!: exI [of _ "k - i"])
  moreover have "\<exists>k. x = ord ! k \<and> i \<le> k \<and> k \<le> j" if "x \<in> set (take (j + 1 - i) (drop i ord))" for x
  proof -
    from in_set_conv_nth [THEN iffD1, OF that] obtain k where
      k: "k < length (take (j + 1 - i) (drop i ord))" "take (j + 1 - i) (drop i ord) ! k = x" by blast
    have "k < j + 1 - i" using k(1) by simp
    moreover from this have "x = ord ! (i + k)" unfolding k(2) [symmetric] using assms by simp
    ultimately show ?thesis by (intro exI [of _ "i + k"]) auto
  qed
  ultimately show ?thesis by auto
qed

lemma rank_loop_midranks:
  assumes "sorts xs ord" "length xs \<le> 2 ^ 52" "i = 0 \<or> i < length ord \<longrightarrow> i = 0 \<or> xs ! (ord ! (i - 1)) < xs ! (ord ! i)"
    "length out = length xs" "\<forall>k<i. k < length ord \<longrightarrow> out ! (ord ! k) = midrank xs (xs ! (ord ! k))"
  shows "length (rank_loop xs ord i out) = length xs \<and>
    (\<forall>k<length ord. rank_loop xs ord i out ! (ord ! k) = midrank xs (xs ! (ord ! k)))"
  using assms
proof (induction xs ord i out rule: rank_loop.induct)
  case (1 xs ord i out)
  show ?case
  proof (cases "i < length ord")
    case False
    then have "rank_loop xs ord i out = out" by (subst rank_loop.simps) simp
    then show ?thesis using False 1(5,6) by auto
  next
    case True
    define j where "j = run_end xs ord i i"
    define r where "r = f64 (f64 (f64 (of_nat (i + j)) / 2) + 1)"
    let ?slots = "take (j + 1 - i) (drop i ord)"
    define out' where "out' = fold (\<lambda>slot out. out[slot := r]) ?slots out"
    note run = run_rank [OF 1(2) True _ 1(3) j_def, folded r_def]
    have pre: "i = 0 \<or> xs ! (ord ! (i - 1)) < xs ! (ord ! i)" using 1(4) True by blast
    have r: "r = midrank xs (xs ! (ord ! i))" by (rule run(1) [OF pre])
    have j: "j < length ord" "i \<le> j" by (rule run(2) [OF pre], rule run(3) [OF pre])
    have ok: "ord ! k < length out" if "k < length ord" for k
      using 1(2,5) nth_mem [OF that] by (auto simp: sorts_def)
    have slots: "set ?slots = {ord ! k | k. i \<le> k \<and> k \<le> j}" by (rule slots_of_run [OF j])
    have upd: "length out' = length out" "\<forall>k<length out. out' ! k = (if k \<in> set ?slots then r else out ! k)"
    proof -
      have "\<forall>s\<in>set ?slots. s < length out" unfolding slots using ok j by auto
      from fold_update [OF this, of r] show "length out' = length out" "\<forall>k<length out. out' ! k = (if k \<in> set ?slots then r else out ! k)"
        unfolding out'_def by blast+
    qed
    have "out' ! (ord ! k) = midrank xs (xs ! (ord ! k))" if k: "k < j + 1" for k
    proof (cases "k < i")
      case True
      have "ord ! k \<noteq> ord ! l" if "i \<le> l" "l \<le> j" for l
        using 1(2) True that j nth_eq_iff_index_eq [of ord k l] by (auto simp: sorts_def)
      then have "ord ! k \<notin> set ?slots" unfolding slots by auto
      then show ?thesis using upd(2) ok [of k] 1(6) True j by auto
    next
      case False
      then have "ord ! k \<in> set ?slots" unfolding slots using k by auto
      then have "out' ! (ord ! k) = r" using upd(2) ok [of k] k j by simp
      moreover have "xs ! (ord ! k) = xs ! (ord ! i)" using run(4) [OF pre, rule_format, of k] False k by simp
      ultimately show ?thesis using r by simp
    qed
    then have "length (rank_loop xs ord (j + 1) out') = length xs \<and>
        (\<forall>k<length ord. rank_loop xs ord (j + 1) out' ! (ord ! k) = midrank xs (xs ! (ord ! k)))"
      using run(5) [OF pre] upd(1) 1(2,3,5) unfolding out'_def r_def j_def
      by (intro 1(1) [OF True refl refl]) auto
    moreover have "rank_loop xs ord i out = rank_loop xs ord (j + 1) out'"
      using True by (subst rank_loop.simps) (simp add: Let_def out'_def r_def j_def)
    ultimately show ?thesis by simp
  qed
qed

lemma ranks_midranks:
  assumes "length xs \<le> 2 ^ 52"
  shows "ranks xs = map (midrank xs) xs"
proof -
  let ?ord = "sort_key ((!) xs) [0..<length xs]"
  have l: "length (ranks xs) = length xs" "\<forall>k<length ?ord. ranks xs ! (?ord ! k) = midrank xs (xs ! (?ord ! k))"
    using rank_loop_midranks [OF sorts_sort_key assms, of 0 "replicate (length xs) 0"] by (simp_all add: ranks_def)
  have "ranks xs ! i = midrank xs (xs ! i)" if "i < length xs" for i
  proof -
    have "i \<in> set ?ord" using that by simp
    then obtain k where "k < length ?ord" "?ord ! k = i" by (meson in_set_conv_nth)
    then show ?thesis using l(2) by blast
  qed
  then show ?thesis using l(1) by (intro nth_equalityI) auto
qed

section \<open>Falls and rises\<close>

text \<open>The specification: over every pair of an earlier and a later price.\<close>

definition fall :: "nat \<Rightarrow> nat \<Rightarrow> nat" where
  "fall p q = (if q < p then (p - q) * 100 div p else 0)"

definition rise :: "nat \<Rightarrow> nat \<Rightarrow> nat" where
  "rise p q = (if p < q then (q - p) * 100 div p else 0)"

definition later_pairs :: "'a list \<Rightarrow> ('a \<times> 'a) list" where
  "later_pairs ps = concat (map (\<lambda>j. map (\<lambda>i. (ps ! i, ps ! j)) [0..<j]) [0..<length ps])"

definition greatest :: "nat list \<Rightarrow> nat" where
  "greatest xs = fold max xs 0"

lemma greatest_simps [simp]: "greatest [] = 0" "greatest [x] = x" "greatest (xs @ ys) = max (greatest xs) (greatest ys)"
proof -
  have split: "fold max ys a = max a (fold max ys 0)" for a :: nat and ys
  proof (induction ys arbitrary: a)
    case (Cons y ys)
    show ?case using Cons.IH [of "max y a"] Cons.IH [of y] by (simp add: ac_simps)
  qed simp
  show "greatest [] = 0" "greatest [x] = x" by (simp_all add: greatest_def)
  show "greatest (xs @ ys) = max (greatest xs) (greatest ys)" using split [of ys "fold max xs 0"] by (simp add: greatest_def)
qed

lemma later_pairs_snoc [simp]: "later_pairs [] = []" "later_pairs (ps @ [q]) = later_pairs ps @ map (\<lambda>p. (p, q)) ps"
proof -
  have "map (\<lambda>j. map (\<lambda>i. ((ps @ [q]) ! i, (ps @ [q]) ! j)) [0..<j]) [0..<length ps] = map (\<lambda>j. map (\<lambda>i. (ps ! i, ps ! j)) [0..<j]) [0..<length ps]"
    by (auto simp: nth_append)
  moreover have "map (\<lambda>i. ((ps @ [q]) ! i, q)) [0..<length ps] = map (\<lambda>p. (p, q)) ps"
    by (intro nth_equalityI) (auto simp: nth_append)
  moreover have "later_pairs (ps @ [q]) = concat (map (\<lambda>j. map (\<lambda>i. ((ps @ [q]) ! i, (ps @ [q]) ! j)) [0..<j]) [0..<length ps]) @
      map (\<lambda>i. ((ps @ [q]) ! i, q)) [0..<length ps]" by (simp add: later_pairs_def)
  ultimately show "later_pairs (ps @ [q]) = later_pairs ps @ map (\<lambda>p. (p, q)) ps" by (simp only: later_pairs_def)
qed (simp add: later_pairs_def)

definition worst_fall :: "nat list \<Rightarrow> nat" where
  "worst_fall ps = greatest (map (\<lambda>(p, q). fall p q) (later_pairs ps))"

definition best_rise :: "nat list \<Rightarrow> nat" where
  "best_rise ps = greatest (map (\<lambda>(p, q). rise p q) (later_pairs ps))"

text \<open>A higher start is a worse fall, a lower start is a better rise.\<close>

lemma fall_le_100: "fall p q \<le> 100"
proof -
  have "(p - q) * 100 div p \<le> p * 100 div p" by (intro div_le_mono mult_right_mono) auto
  then show ?thesis by (cases "p = 0") (auto simp: fall_def)
qed

lemma fall_mono:
  assumes "p \<le> p'"
  shows "fall p q \<le> fall p' q"
proof (cases "q < p")
  case True
  define k where "k = (p - q) * 100 div p"
  obtain e d where ed: "p = q + e" "p' = q + e + d" using True assms by (metis le_add_diff_inverse less_imp_le)
  have "k * (q + e) \<le> e * 100" using div_times_less_eq_dividend [of "(p - q) * 100" p] by (simp add: k_def ed)
  moreover have "k * d \<le> 100 * d" using fall_le_100 [of p q] True by (simp add: fall_def k_def)
  ultimately have "k * (q + e) + k * d \<le> e * 100 + 100 * d" by (rule add_mono)
  then have "k * p' \<le> (p' - q) * 100" by (simp add: ed add_mult_distrib2 add_mult_distrib)
  then show ?thesis using True assms by (simp add: fall_def less_eq_div_iff_mult_less_eq k_def)
qed (simp add: fall_def)

lemma rise_antimono:
  assumes "p \<le> p'" "0 < p"
  shows "rise p' q \<le> rise p q"
proof (cases "p' < q")
  case True
  have "(q - p') * 100 div p' \<le> (q - p) * 100 div p'" using assms(1) by (intro div_le_mono mult_right_mono) auto
  also have "\<dots> \<le> (q - p) * 100 div p" using assms by (intro div_le_mono2) auto
  finally show ?thesis using True assms by (simp add: rise_def)
qed (simp add: rise_def)

lemma fall_greatest: "greatest (map (\<lambda>p. fall p q) ps) = fall (greatest ps) q"
proof (induction ps rule: rev_induct)
  case (snoc p ps)
  show ?case using snoc fall_mono [of p "greatest ps" q] fall_mono [of "greatest ps" p q]
    by (cases "p \<le> greatest ps") (simp_all add: max_absorb1 max_absorb2)
qed (simp add: fall_def)

lemma rise_least:
  "\<forall>p\<in>set ps. 0 < p \<and> p \<le> u64_max \<Longrightarrow> q \<le> u64_max \<Longrightarrow> greatest (map (\<lambda>p. rise p q) ps) = rise (fold min ps u64_max) q"
proof (induction ps rule: rev_induct)
  case (snoc p ps)
  have "0 < fold min ps u64_max" using snoc.prems(1) by (induction ps rule: rev_induct) auto
  then show ?case using snoc rise_antimono [of p "fold min ps u64_max" q] rise_antimono [of "fold min ps u64_max" p q]
    by (cases "p \<le> fold min ps u64_max") (simp_all add: min_absorb1 min_absorb2 max_absorb1 max_absorb2)
qed (simp add: rise_def)

lemma swing_fold:
  assumes "\<forall>p\<in>set ps. 0 < p \<and> p \<le> u64_max" "best_rise ps \<le> u32_max"
  shows "fold swing_step ps (0, u64_max, \<lparr> sw_drawdown = 0, sw_rise = 0 \<rparr>) =
    (greatest ps, fold min ps u64_max, \<lparr> sw_drawdown = worst_fall ps, sw_rise = best_rise ps \<rparr>)"
  using assms
proof (induction ps rule: rev_induct)
  case (snoc q ps)
  have b: "best_rise (ps @ [q]) = max (best_rise ps) (rise (fold min ps u64_max) q)"
    using rise_least [of ps q] snoc.prems(1) by (simp add: best_rise_def comp_def)
  have w: "worst_fall (ps @ [q]) = max (worst_fall ps) (fall (greatest ps) q)"
    using fall_greatest [of q ps] by (simp add: worst_fall_def comp_def)
  have ih: "fold swing_step ps (0, u64_max, \<lparr> sw_drawdown = 0, sw_rise = 0 \<rparr>) =
    (greatest ps, fold min ps u64_max, \<lparr> sw_drawdown = worst_fall ps, sw_rise = best_rise ps \<rparr>)"
    using snoc.IH snoc.prems b by auto
  have small: "rise (fold min ps u64_max) q < 2 ^ 32" "fall (greatest ps) q < 2 ^ 32"
    using snoc.prems(2) b fall_le_100 [of "greatest ps" q] by auto
  have "fold swing_step (ps @ [q]) (0, u64_max, \<lparr> sw_drawdown = 0, sw_rise = 0 \<rparr>) =
      swing_step q (greatest ps, fold min ps u64_max, \<lparr> sw_drawdown = worst_fall ps, sw_rise = best_rise ps \<rparr>)" by (simp add: ih)
  also have "\<dots> = (max (greatest ps) q, min (fold min ps u64_max) q, \<lparr> sw_drawdown = worst_fall (ps @ [q]), sw_rise = best_rise (ps @ [q]) \<rparr>)"
    unfolding w b using small by (simp add: swing_step_def fall_def rise_def split: if_splits)
  finally show ?case by (simp add: min.commute)
qed (simp add: worst_fall_def best_rise_def)

lemma swings_of_pairs:
  assumes "\<forall>p\<in>set prices. p \<le> u64_max" "best_rise (filter (\<lambda>p. 0 < p) prices) \<le> u32_max"
  shows "swings_of prices = \<lparr> sw_drawdown = worst_fall (filter (\<lambda>p. 0 < p) prices), sw_rise = best_rise (filter (\<lambda>p. 0 < p) prices) \<rparr>"
  using swing_fold [of "filter (\<lambda>p. 0 < p) prices"] assms by (simp add: swings_of_def)

section \<open>What the measures depend on\<close>

lemma midrank_map: "strict_mono f \<Longrightarrow> midrank (map f xs) (f v) = midrank xs v" for f :: "nat \<Rightarrow> nat"
  by (simp add: midrank_def filter_map comp_def strict_mono_less strict_mono_less_eq)

lemma ranks_map: "strict_mono f \<Longrightarrow> length xs \<le> 2 ^ 52 \<Longrightarrow> ranks (map f xs) = ranks xs"
  by (simp add: ranks_midranks midrank_map)

lemma co_moment_commute: "co_moment xs ys = co_moment ys xs"
proof -
  have "map2 (\<lambda>x y. f64 (x * y)) xs ys = map2 (\<lambda>x y. f64 (x * y)) ys xs"
    by (induction xs ys rule: list_induct2') (simp_all add: mult.commute)
  then show ?thesis by (simp add: co_moment_def)
qed

lemma association_commute: "association_of a b = association_of b a"
proof -
  let ?n = "min (length a) (length b)"
  let ?da = "centred (ranks (take ?n a))" and ?db = "centred (ranks (take ?n b))"
  have "min (length b) (length a) = ?n" by simp
  then show ?thesis unfolding association_of_def Let_def
    by (simp only: co_moment_commute [of ?db ?da] mult.commute [of "f64_sqrt (co_moment ?db ?db)"] disj_commute [of "co_moment ?db ?db = 0"])
qed

text \<open>
  the correlation of two series depends on their order only. Each value counts with its mid-rank, halfway between
  the values below it and those not above it, so any strictly increasing change of the prices or of the stock, and
  with it however extreme an outlier, leaves the result as it is; the two series can be exchanged; and what is
  reported is between -100 and 100 per cent and rests on at least twenty pairs.
\<close>

lemma association_by_order:
  assumes "strict_mono f" "strict_mono g" "length a \<le> 2 ^ 52" "length b \<le> 2 ^ 52"
  shows "association_of (map f a) (map g b) = association_of a b \<and> association_of b a = association_of a b \<and>
    ranks a = map (midrank a) a \<and>
    (\<forall>r. association_of a b = Some r \<longrightarrow> - 100 \<le> as_rho_percent r \<and> as_rho_percent r \<le> 100 \<and> 20 \<le> min (length a) (length b))"
proof -
  have "ranks (take n (map f a)) = ranks (take n a)" "ranks (take n (map g b)) = ranks (take n b)" for n
    using ranks_map [OF assms(1), of "take n a"] ranks_map [OF assms(2), of "take n b"] assms(3,4) by (simp_all add: take_map)
  then have "association_of (map f a) (map g b) = association_of a b" by (simp add: association_of_def Let_def)
  moreover have "- 100 \<le> as_rho_percent r \<and> as_rho_percent r \<le> 100 \<and> 20 \<le> min (length a) (length b)" if "association_of a b = Some r" for r
  proof -
    have "\<lfloor>clamp (- 100) 100 x\<rfloor> \<le> 100" "- 100 \<le> \<lfloor>clamp (- 100) 100 x\<rfloor>" for x
      using clamp_bounds [of "- 100" 100 x] by (simp_all add: floor_le_iff le_floor_iff)
    then show ?thesis using that by (auto simp: association_of_def Let_def MIN_PAIRS_def split: if_splits)
  qed
  ultimately show ?thesis using association_commute [of b a] ranks_midranks [OF assms(3)] by blast
qed

lemma association_by_order_example:
  "association_of (map (\<lambda>x. 2 * x + 1) [5, 3, 3]) (map Suc [1, 2, 9]) = association_of [5, 3, 3] [1, 2, 9] \<and> ranks [5, 3, 3] = [3, 3 / 2, 3 / 2]"
proof -
  have "strict_mono (\<lambda>x :: nat. 2 * x + 1)" "strict_mono Suc" by (simp_all add: strict_mono_def)
  from association_by_order [OF this, of "[5, 3, 3]" "[1, 2, 9]"] show ?thesis by (simp add: midrank_def)
qed

text \<open>
  one pass over a path finds its worst fall and its best rise. The drawdown is the greatest percentage lost from any
  price to any later one, the rise the greatest percentage gained, over all pairs of positive prices; the rise under
  the condition that it fits 32 bits, which the code does not check.
\<close>

lemma swings_over_pairs:
  assumes "list_all (\<lambda>p. p \<le> u64_max) prices" "best_rise (filter (\<lambda>p. 0 < p) prices) \<le> u32_max"
  shows "sw_drawdown (swings_of prices) = worst_fall (filter (\<lambda>p. 0 < p) prices) \<and> sw_drawdown (swings_of prices) \<le> 100 \<and>
    sw_rise (swings_of prices) = best_rise (filter (\<lambda>p. 0 < p) prices)"
proof -
  have "greatest (map (\<lambda>(p, q). fall p q) xs) \<le> 100" for xs
    by (induction xs rule: rev_induct) (auto simp: fall_le_100)
  then show ?thesis using swings_of_pairs [of prices] assms by (simp add: list_all_iff worst_fall_def)
qed

lemma swings_over_pairs_example:
  "sw_drawdown (swings_of [100, 140, 0, 200, 180, 150]) = 25 \<and> sw_rise (swings_of [100, 140, 0, 200, 180, 150]) = 100"
proof -
  have "worst_fall [100, 140, 200, 180, 150] = 25" "best_rise [100, 140, 200, 180, 150] = 100"
    by code_simp+
  then show ?thesis using swings_over_pairs [of "[100, 140, 0, 200, 180, 150]"] by simp
qed

section \<open>The grid\<close>

definition held_cells :: "copper option list \<Rightarrow> nat" where
  "held_cells cells = length (filter (\<lambda>c. c \<noteq> None) cells)"

lemma held_update: "k < length cells \<Longrightarrow> cells ! k = None \<Longrightarrow> held_cells (cells[k := Some v]) = held_cells cells + 1"
  unfolding held_cells_def by (induction cells arbitrary: k) (auto split: nat.splits)

lemma fill_cells:
  "distinct (map fst es) \<Longrightarrow> \<forall>e\<in>set es. fst e < length cells \<and> cells ! fst e = None \<Longrightarrow> n = held_cells cells \<Longrightarrow>
     \<exists>cells'. fold fill_cell es (cells, n) = (cells', held_cells cells') \<and> length cells' = length cells"
proof (induction es arbitrary: cells n)
  case (Cons e es)
  show ?case
  proof (cases "quantile (from_observations (snd e)) (f64 (1 / 2))")
    case None
    then show ?thesis using Cons by (simp add: fill_cell_def)
  next
    case (Some m)
    have "\<forall>x\<in>set es. fst x < length (cells[fst e := Some m]) \<and> cells[fst e := Some m] ! fst x = None"
      using Cons.prems(1,2) by (auto simp: nth_list_update)
    then show ?thesis using Cons.IH [of "cells[fst e := Some m]" "n + 1"] Cons.prems Some held_update [of "fst e" cells m]
      by (auto simp: fill_cell_def)
  qed
qed auto

lemma week_cell_less: "week_cell t < 168"
proof -
  have "(t div (24 * 60 * 60 * 1000) + 3) mod 7 \<le> 6" "t div 3600000 mod 24 \<le> 23" by (simp_all add: less_Suc_eq_le [symmetric])
  then show ?thesis by (simp add: week_cell_def)
qed

lemma add_cells_wf: "bt_wf (fold add_cell obs m) \<and> (\<forall>k\<in>fst ` set (fold add_cell obs m). k < 168)" if "bt_wf m" "\<forall>k\<in>fst ` set m. k < 168"
  using that
proof (induction obs arbitrary: m)
  case (Cons ob obs)
  have "set (bt_insert k v m) \<subseteq> insert (k, v) (set m)" for k :: nat and v :: "(millis \<times> copper) list" and m
    by (induction k v m rule: bt_insert.induct) auto
  then have new: "(k, v) \<in> set (add_cell ob m) \<Longrightarrow> k = week_cell (fst ob) \<or> (k, v) \<in> set m" for k v unfolding add_cell_def by blast
  have "k < 168" if "k \<in> fst ` set (add_cell ob m)" for k
  proof -
    from that obtain v where "(k, v) \<in> set (add_cell ob m)" by (auto simp: image_iff)
    from new [OF this] show ?thesis using Cons.prems(2) week_cell_less by (force simp: image_iff)
  qed
  then have "\<forall>k\<in>fst ` set (add_cell ob m). k < 168" by blast
  moreover have "bt_wf (add_cell ob m)" using Cons.prems(1) by (simp add: add_cell_def)
  ultimately show ?case using Cons.IH [of "add_cell ob m"] by simp
qed simp

lemma heatmap_of_cells: "length (hm_cells (heatmap_of obs)) = 168 \<and> hm_filled (heatmap_of obs) = held_cells (hm_cells (heatmap_of obs))"
proof -
  have wf: "bt_wf (fold add_cell obs [])" "\<forall>k\<in>fst ` set (fold add_cell obs []). k < 168" using add_cells_wf [of "[]" obs] by simp_all
  have "\<exists>cells'. fold fill_cell (fold add_cell obs []) (replicate (7 * 24) None, 0) = (cells', held_cells cells') \<and> length cells' = length (replicate (7 * 24) (None :: copper option))"
    using wf by (intro fill_cells) (auto simp: bt_wf_distinct held_cells_def)
  then obtain cells where c: "fold fill_cell (fold add_cell obs []) (replicate (7 * 24) None, 0) = (cells, held_cells cells)" "length cells = 168"
    by auto
  have "held_cells cells \<le> 168" using c(2) length_filter_le [of "\<lambda>c. c \<noteq> None" cells] by (simp add: held_cells_def)
  then show ?thesis using c by (simp add: heatmap_of_def)
qed

text \<open>A grid is read back as it was written.\<close>

lemma heatmap_stored:
  assumes "length (hm_cells h) = 168" "hm_filled h = held_cells (hm_cells h)" "hm_filled h \<noteq> 0" "hm_samples h \<le> u32_max"
    "\<forall>p. Some p \<in> set (hm_cells h) \<longrightarrow> p \<le> u64_max"
  shows "decode_heatmap (encode_heatmap h) = h"
proof -
  let ?grid = "join_with (CHR '','') (map encode_slot (hm_cells h))"
  have pieces: "split_on (CHR '','') ?grid = map encode_slot (hm_cells h)" using assms(1) by (intro split_join) (auto simp: slot_free)
  have free: "free_of (CHR '';'') ?grid"
  proof -
    have "free_of (CHR '';'') (join_with (CHR '','') ss)" if "\<forall>s\<in>set ss. free_of (CHR '';'') s" for ss
      using that by (induction "CHR '',''" ss rule: join_with.induct) (auto simp: text_simps)
    moreover have "free_of (CHR '';'') (encode_slot c)" for c
      using show_nat_free [of "CHR '';''"] by (cases c) (simp_all add: encode_slot_def text_simps is_digit_def)
    ultimately show ?thesis by auto
  qed
  have "?grid \<noteq> []" using pieces assms(1) by (cases "?grid = []") (auto dest: arg_cong [where f = length])
  moreover have "map (parse_uint u64_max) (map encode_slot (hm_cells h)) = hm_cells h"
    using assms(5) by (intro nth_equalityI) (auto simp: encode_slot_def parse_show split: option.split dest: nth_mem)
  moreover have "held_cells (hm_cells h) \<le> 168" using assms(1) length_filter_le [of "\<lambda>c. c \<noteq> None" "hm_cells h"] by (simp add: held_cells_def)
  ultimately have "decode_heatmap (encode_heatmap h) = \<lparr> hm_cells = hm_cells h, hm_samples = hm_samples h, hm_filled = hm_filled h \<rparr>"
    using assms pieces by (simp add: encode_heatmap_def decode_heatmap_def split_once_append [OF free] parse_show held_cells_def Let_def)
  then show ?thesis by simp
qed

text \<open>The hour that is named is the cheapest of those observed.\<close>

lemma cheapest_hour_least:
  assumes "cheapest_hour h = Some (d, t)" "length (hm_cells h) = 168"
  shows "is_usable h \<and> t < 24 \<and> (\<exists>p. hm_cells h ! (d * 24 + t) = Some p \<and> (\<forall>q. Some q \<in> set (hm_cells h) \<longrightarrow> p \<le> q))"
proof -
  let ?ps = "List.map_filter (\<lambda>(i, cell). map_option (Pair i) cell) (enumerate 0 (hm_cells h))"
  obtain i p where m: "is_usable h" "min_by_key snd ?ps = Some (i, p)" "d = i div 24" "t = i mod 24"
    using assms(1) by (auto simp: cheapest_hour_def split: if_splits)
  have mem: "(j, q) \<in> set ?ps \<longleftrightarrow> j < length (hm_cells h) \<and> hm_cells h ! j = Some q" for j q
  proof -
    have "(j, q) \<in> set (List.map_filter f xs) \<longleftrightarrow> (\<exists>x\<in>set xs. f x = Some (j, q))" for f :: "nat \<times> copper option \<Rightarrow> (nat \<times> copper) option" and xs
      by (induction xs) (auto simp: List.map_filter_simps split: option.splits)
    then show ?thesis by (auto simp: in_set_enumerate_eq intro!: bexI [of _ "(j, Some q)"])
  qed
  have "hm_cells h ! i = Some p" using min_by_key_in [OF m(2)] mem by blast
  moreover have "p \<le> q" if q: "Some q \<in> set (hm_cells h)" for q
  proof -
    obtain j where "j < length (hm_cells h)" "hm_cells h ! j = Some q" using q by (metis in_set_conv_nth)
    then have "(j, q) \<in> set ?ps" using mem by blast
    then show ?thesis using min_by_key_least [OF m(2)] by fastforce
  qed
  ultimately show ?thesis using m by auto
qed

end
