(* ===== verification/Spec2Isabelle.thy ===== *)
theory Spec2Isabelle
  imports Agent Startup Placement Event_Log Joining Events Workload Cluster_Time Depth_Store Streams Account_Routes Price_Series Releases Realms Csrf Collector Remote_Workers Publication Analysis_Work Correlate
begin

text \<open>
  Gavel is a market tracker for auction houses. A web server collects listings, keeps an archive of prices and
  serves what the archive says; the computing is done by a small cluster whose nodes are either simulated
  inside the server or workers that connect to it. This development models the Rust workspace
  \<open>src/crates\<close> and proves what its parts promise. The properties are numbered C1, C2, ... in the text before
  them, in the theory of the component they are about; those that span components are in this theory.

  \<^bold>\<open>The cluster.\<close> One actor, the supervisor (\<open>cluster-local/src/supervisor.rs\<close>), owns all cluster state. It takes
  commands from the web server, reports from nodes and workers, and ticks, one at a time; it assigns queued
  tasks to nodes, watches their heartbeats, elects a leader, retries what was lost and writes behind to
  SQLite.

  \<^item> \<open>Cluster_Time\<close> (\<open>cluster-core/src/time.rs\<close>): instants and the civil calendar, in the source's 64-bit arithmetic.
  \<^item> \<open>Jobs\<close> (\<open>job.rs\<close>, \<open>ids.rs\<close>, \<open>error.rs\<close>): jobs, tasks, their state machines, splitting.
  \<^item> \<open>Roles\<close>, \<open>Nodes\<close>, \<open>Scheduling\<close> (\<open>role.rs\<close>, \<open>node.rs\<close>, \<open>scheduler.rs\<close>, \<open>coordinator.rs\<close>): role sets as bits of a
    byte, health, placement and election. The traits \<open>Scheduler\<close> and \<open>Elector\<close> are the locales \<open>scheduler\<close> and
    \<open>elector\<close>, interpreted on every implementation of the source.
  \<^item> \<open>Events\<close>, \<open>Snapshot\<close>, \<open>Workload\<close> (\<open>event.rs\<close>, \<open>cluster.rs\<close>, \<open>workload.rs\<close>): the event log's vocabulary, the published view,
    and the computation of a task, with the overflow of \<open>d * d\<close> at 64 bits as an error value.
  \<^item> \<open>Protocol\<close>, \<open>Agent\<close> (\<open>protocol.rs\<close>, framing of \<open>cluster-local/src/remote.rs\<close>, \<open>agent.rs\<close>): messages, artifacts and frames,
    and the worker as a state machine that is fed messages and clock readings.
  \<^item> \<open>Store\<close> (\<open>persist.rs\<close>, \<open>storage/src/sqlite/jobs.rs\<close>, \<open>events.rs\<close>, \<open>cluster.rs\<close>, \<open>persistence.rs\<close>): the tables as ordered maps of
    rows, every query, and the queue of writes.
  \<^item> \<open>Supervisor\<close> (\<open>supervisor.rs\<close>, \<open>config.rs\<close>): the actor's state is the record \<open>supervisor\<close>, one definition for each method.
    What the environment decides is part of the record: the readings of the clock, whether the mailbox of a
    node has room, which accesses of the store fail. One turn of the select loop is \<open>run_one\<close>, the start is
    \<open>bootstrap\<close>, and \<open>reachable\<close> closes the start under turns.
  \<^item> \<open>Board\<close> is the specification: a board of jobs, tasks and a queue with the steps that may change it, and the
    invariant that no task is lost, duplicated or on two nodes. \<open>Supervision\<close> shows that every handler only takes
    such steps; \<open>Membership\<close> that work is only ever with nodes that can do it and that the leader is the one the
    elector chooses; \<open>Placement\<close> that dispatching leaves nothing waiting beside an idle node; \<open>Joining\<close> what
    workers that come and go are answered, and that over any run messages of replaced connections do no harm; \<open>Event_Log\<close> that events are numbered without gap; \<open>Startup\<close> the first
    roles and the paged reading of unfinished jobs.
  \<^item> \<open>Node_Runtime\<close> (\<open>cluster-local/src/node.rs\<close>, \<open>exec.rs\<close>): the loop of a simulated node as steps over its mailbox, its
    timers and the tasks it runs; that no task it is given is answered twice, and each once as long as no worker
    future dies.
  \<^item> \<open>Remote_Workers\<close> (\<open>cluster-local/src/remote.rs\<close>): the port workers connect to, with its permits, the handshake, and the
    loop of a connection between a worker's frames and the supervisor's mailbox; that a connection only ever
    reports under the identity it was attached with, that it is attached and detached in pairs, and that the
    sockets open at once are bounded.
  \<^item> \<open>Telemetry\<close> (\<open>telemetry.rs\<close>, \<open>cluster.rs\<close>, the readiness page): counters, what a handle answers for a snapshot,
    and how far the reported age of the queue can be from the age of its oldest task.

  \<^bold>\<open>The market.\<close> Listings are reduced to samples and supply ladders, samples to statistics over windows of time.

  \<^item> \<open>Market\<close>, \<open>Depth\<close>, \<open>Depth_Store\<close> (\<open>app-core/src/market/mod.rs\<close>, \<open>stats.rs\<close>, \<open>depth.rs\<close>): regions, prices, quantiles of supply,
    ladders, what it costs to buy a quantity, and the stored texts. \<open>weigh\<close>, a sum over listings in any order, is
    the specification side.
  \<^item> \<open>Floats\<close>, \<open>Engine\<close>, \<open>Price_Series\<close> (\<open>engine.rs\<close>, \<open>series.rs\<close>): doubles as rationals rounded to nearest even, hourly buckets,
    quantiles, valuation under evidence gates, sparklines, charts and histograms with their stored texts.
  \<^item> \<open>Correlate\<close> (\<open>correlate.rs\<close>): rank correlation, falls and rises of a path, the grid of hours of the week; that ranks
    are midranks, that the swings are those over all ordered pairs of prices, and that a stored grid is read back.
  \<^item> \<open>Item_Catalog\<close>, \<open>Market_Keys\<close>, \<open>Realms\<close> (\<open>catalog.rs\<close>, \<open>key.rs\<close>, \<open>window.rs\<close>, \<open>realm.rs\<close>): what is tracked, how a market and a
    window are named, how often a realm is asked and what is kept of its answer.
  \<^item> \<open>Releases\<close> (\<open>release.rs\<close>, \<open>storage/src/sqlite/releases.rs\<close>, \<open>app-web/src/routes/admin.rs\<close>, \<open>server/src/main.rs\<close>): where a
    catalogue is in its life, in the database and in the copy the pages read, with activations as interleaved
    atomic actions.

  \<^item> \<open>Collector\<close> (\<open>collector.rs\<close>, \<open>alerts.rs\<close>, \<open>storage/src/sqlite/prices.rs\<close>): a round of collection with every error
    path, the tables it writes, and when an alert is raised.
  \<^item> \<open>Publication\<close> (\<open>storage/src/sqlite/read_model.rs\<close>, \<open>server/src/materialise_task.rs\<close>): the versions of the analysis, the
    tables the pages read, and the run that stages a version and publishes or abandons it, with a fault for any
    call; that a page sees the whole of a version or nothing of it.
  \<^item> \<open>Analysis_Work\<close> (\<open>server/src/analysis_work.rs\<close>): the cutting of a history into partitions, what a worker does with one, and
    the coordinator's store of inputs and results; that whatever workers send, a region's rows are those its own
    reduction would give, or none.

  \<^bold>\<open>The web server.\<close>

  \<^item> \<open>Accounts\<close>, \<open>Account_Routes\<close> (\<open>app-core/src/auth.rs\<close>, \<open>model.rs\<close>, \<open>storage/src/sqlite/users.rs\<close>, \<open>sessions.rs\<close>,
    \<open>app-web/src/routes/account.rs\<close>, \<open>session.rs\<close>): users, sessions and the routes around them as steps of a web
    state; a route that hashes a password is two steps, before and after the hash.
  \<^item> \<open>Throttle\<close>, \<open>Streams\<close> (\<open>app-web/src/throttle.rs\<close>): limits on sign-in, registration and hashing, and the gate of
    the event streams with one step for each atomic action.
  \<^item> \<open>Csrf\<close> (\<open>csrf.rs\<close>): the token a form has to present, and exactly which texts are accepted for it; cutting a text inside
    a character is a panic, a result of its own.

  \<^bold>\<open>Shared.\<close> \<open>Gavel_Prelude\<close> has the integer widths with their saturating operations, \<open>BTreeMap\<close> as a sorted
  association list (interpreting the locale \<open>ordered_map\<close>), the iterator combinators, enumerations stored by name (the
  locale \<open>named_enum\<close>, interpreted on each of them) and decimal text; \<open>Text_Forms\<close> the string operations of
  the standard library with the laws that make a written form readable again.

  \<^bold>\<open>Parameters.\<close> Code outside the workspace is an argument of the definitions that use it: the postcard codec
  (a property that needs it assumes that decoding inverts encoding), the workload callback of a worker,
  Argon2 and the sources of random bytes and tokens. The reduction of one market's history to its row is an
  argument too: what is shown of publication holds for any. SQL statements are modelled by their effect on the
  tables with the constraints of the schema; a statement that violates one is an error and changes nothing.

  \<^bold>\<open>Termination and bounds.\<close> Every loop of the sources that is modelled ends: by structural recursion, by a
  measure (the paged reading of unfinished jobs, trial division, the dispatch loop, and the reading of frames,
  which uses up its bytes). No definition takes fuel. Unsigned integers are
  naturals within their width, wrapped where the source leaves an operation unchecked (\<open>wrap64\<close>, casts with \<open>as\<close>) and
  saturated where it says so; where a value may leave its width, the property that needs it states the
  bound. Bytes and role sets are words.

  \<^bold>\<open>Not modelled.\<close> The scheduling of the Tokio runtime (its channels, timers and sockets are modelled as the steps
  they allow) and the clock of the operating system; HTTP routing, templates, SVG and translations of the web
  pages, with the queries that list many rows for them; the tables of realm prices, watches, TSM and token
  prices of \<open>storage\<close>; the HTTP clients of \<open>app-integrations\<close>; the wiring of \<open>server\<close>; the decoding tables of
  \<open>bonuses.rs\<close>; reading of JSON by serde. Of the analysis in \<open>app-core\<close>, which builds on the theories above, these are left
  out: the reduction of a history to a row of the read model, daily rollups, deals and the archive hierarchy.

  \<^bold>\<open>Granularity.\<close> A handler of the supervisor is one step, as in the source, whose actor awaits nothing from other
  handlers. Elsewhere a step may cover an await. In \<open>login_begin\<close> and \<open>register_begin\<close> the look-up of the user between
  the gate and the start of the hash is in one step with both, and the hash is dated by the request's clock reading;
  in \<open>raise_one\<close> an alert is recorded and published in one step. \<open>conn_loop\<close> has no event for the abort of all
  connections when the listener stops with the server. The sequence number of events is a natural number where the
  source has a \<open>u64\<close>. The law assumed of the password hasher, that a hash verifies for the password it was made from
  and no other, idealises Argon2.
\<close>

section \<open>The cluster as it runs\<close>

lemma fresh_run:
  assumes "reachable least_loaded lowest_healthy_id (new_supervisor c st flt clk mbox) s" "job_rows st = []"
  shows "sup_inv s" "steady lowest_healthy_id s" "cfg s = c"
  using fresh_reachable [OF assms(1)] assms(2) by (simp_all add: new_supervisor_def)

text \<open>
  C1: From a database without jobs, and whatever commands, reports, ticks, refused sends and failing writes
  follow, the supervisor neither loses nor duplicates work. The queue holds each waiting task once and
  nothing else; no two tasks are with the same node; a task that failed has used up its attempts; and a
  job's counters are the numbers of its tasks in those states, its state completed exactly when all are
  completed, failed exactly when all have ended and some failed.
\<close>
theorem work_never_lost:
  assumes "reachable least_loaded lowest_healthy_id (new_supervisor c st flt clk mbox) s" "job_rows st = []"
  shows "distinct (queue s) \<and>
    (\<forall>k t. bt_get (tasks s) k = Some t \<longrightarrow> task_id t = k \<and> (k \<in> set (queue s) \<longleftrightarrow> task_state t = TaskQueued) \<and>
       bt_get (jobs s) (task_job t) \<noteq> None \<and> (task_state t = TaskFailed \<longrightarrow> max_task_attempts c \<le> attempt t)) \<and>
    (\<forall>k t k' t'. bt_get (tasks s) k = Some t \<longrightarrow> bt_get (tasks s) k' = Some t' \<longrightarrow> active t \<longrightarrow> active t' \<longrightarrow>
       assigned_to t = assigned_to t' \<longrightarrow> k = k') \<and>
    (\<forall>i j. bt_get (jobs s) i = Some j \<longrightarrow>
       job_task_count j = bt_count (of_job i) (tasks s) \<and>
       tasks_completed j = tally TaskCompleted i (tasks s) \<and> tasks_failed j = tally TaskFailed i (tasks s) \<and>
       (job_state j = JobCompleted \<longleftrightarrow> tasks_completed j = job_task_count j) \<and>
       (job_state j = JobFailed \<longleftrightarrow> tasks_completed j + tasks_failed j = job_task_count j \<and> 0 < tasks_failed j))"
proof -
  note r = fresh_run [OF assms]
  note inv = r(1) [unfolded sup_inv_def r(3)]
  have b: "tables_ok (board_of s)" "queue_ok (board_of s)" "exclusive (board_of s)" "jobs_ok (board_of s)"
    "exhausted_ok (max_task_attempts c) (board_of s)" using inv by (auto simp: board_inv_def)
  have job: "job_id j = i \<and> job_matches (board_of s) j" if "bt_get (jobs s) i = Some j" for i j
    using b(1,4) that by (auto simp: tables_ok_def jobs_ok_def)
  show ?thesis
  proof (intro conjI)
    show "distinct (queue s)" using b(2) by (simp add: queue_ok_def)
    show "\<forall>k t. bt_get (tasks s) k = Some t \<longrightarrow> task_id t = k \<and> (k \<in> set (queue s) \<longleftrightarrow> task_state t = TaskQueued) \<and>
       bt_get (jobs s) (task_job t) \<noteq> None \<and> (task_state t = TaskFailed \<longrightarrow> max_task_attempts c \<le> attempt t)"
      using b(1,2,5) by (auto simp: tables_ok_def queue_ok_def exhausted_ok_def)
    show "\<forall>k t k' t'. bt_get (tasks s) k = Some t \<longrightarrow> bt_get (tasks s) k' = Some t' \<longrightarrow> active t \<longrightarrow> active t' \<longrightarrow>
       assigned_to t = assigned_to t' \<longrightarrow> k = k'" using b(3) by (simp add: exclusive_def)
  qed (use job in \<open>fastforce simp: job_matches_def\<close>)
qed

lemma empty_store_jobs: "job_rows empty_store = []"
  by (simp add: empty_store_def)

text \<open>The server has started with the default configuration, and a job of three sleeps has been submitted.\<close>

lemma demo_submitted:
  "\<exists>s. bootstrap lowest_healthy_id demo_supervisor = Some s \<and>
     reachable least_loaded lowest_healthy_id demo_supervisor (run_one least_loaded lowest_healthy_id demo_submit s)"
proof -
  have "profiles (cfg demo_supervisor) \<noteq> []" by (simp add: demo_supervisor_def new_supervisor_def default_config_def)
  then obtain s where s: "bootstrap lowest_healthy_id demo_supervisor = Some s" using boots by blast
  have "input_fits demo_submit" by (simp add: demo_submit_def task_count_def)
  then show ?thesis using s reach_step [OF reach_boot [OF s]] by blast
qed

theorem work_never_lost_witness:
  "\<exists>s. bootstrap lowest_healthy_id demo_supervisor = Some s \<and>
     distinct (queue (run_one least_loaded lowest_healthy_id demo_submit s))"
proof -
  obtain s where b: "bootstrap lowest_healthy_id demo_supervisor = Some s"
    and s: "reachable least_loaded lowest_healthy_id demo_supervisor (run_one least_loaded lowest_healthy_id demo_submit s)"
    using demo_submitted by blast
  then show ?thesis
    using work_never_lost [OF s [unfolded demo_supervisor_def] empty_store_jobs] by blast
qed



lemma elected_leader:
  "elect_leader lowest_healthy_id s = None \<longleftrightarrow> (\<forall>e\<in>set (bt_values (nodes s)). node_status (entry_node e) \<noteq> Healthy)"
  "elect_leader lowest_healthy_id s = Some n \<Longrightarrow> \<exists>e\<in>set (bt_values (nodes s)). node_id (entry_node e) = n \<and>
     node_status (entry_node e) = Healthy \<and>
     (\<forall>f\<in>set (bt_values (nodes s)). node_status (entry_node f) = Healthy \<longrightarrow>
        (has_role (entry_node f) Coordinator \<longrightarrow> has_role (entry_node e) Coordinator \<and> n \<le> node_id (entry_node f)) \<and>
        (\<not> has_role (entry_node e) Coordinator \<longrightarrow> n \<le> node_id (entry_node f)))"
proof -
  define A where "A = map entry_node (filter (\<lambda>e. accepts_work (node_status (entry_node e)) \<and> has_role (entry_node e) Coordinator) (bt_values (nodes s)))"
  define B where "B = map entry_node (filter (\<lambda>e. accepts_work (node_status (entry_node e))) (bt_values (nodes s)))"
  have el: "elect_leader lowest_healthy_id s = (case lowest_healthy_id A of Some n \<Rightarrow> Some n | None \<Rightarrow> lowest_healthy_id B)"
    unfolding elect_leader_def A_def B_def Let_def ..
  have h: "filter (\<lambda>n. accepts_work (node_status n)) A = A" "filter (\<lambda>n. accepts_work (node_status n)) B = B"
    by (auto simp: A_def B_def filter_id_conv)
  have none: "lowest_healthy_id A = None \<longleftrightarrow> A = []" "lowest_healthy_id B = None \<longleftrightarrow> B = []"
    by (simp_all add: lowest_healthy_id_def h)
  show "elect_leader lowest_healthy_id s = None \<longleftrightarrow> (\<forall>e\<in>set (bt_values (nodes s)). node_status (entry_node e) \<noteq> Healthy)"
    unfolding el using none by (auto simp: A_def B_def filter_empty_conv accepts_work_def split: option.splits)
  have least: "\<exists>x\<in>set xs. node_id x = i \<and> (\<forall>y\<in>set xs. i \<le> node_id y)"
    if "lowest_healthy_id xs = Some i" "filter (\<lambda>n. accepts_work (node_status n)) xs = xs" for xs i
    using that min_by_key_in min_by_key_least by (fastforce simp: lowest_healthy_id_def)
  show "\<exists>e\<in>set (bt_values (nodes s)). node_id (entry_node e) = n \<and> node_status (entry_node e) = Healthy \<and>
     (\<forall>f\<in>set (bt_values (nodes s)). node_status (entry_node f) = Healthy \<longrightarrow>
        (has_role (entry_node f) Coordinator \<longrightarrow> has_role (entry_node e) Coordinator \<and> n \<le> node_id (entry_node f)) \<and>
        (\<not> has_role (entry_node e) Coordinator \<longrightarrow> n \<le> node_id (entry_node f)))"
    if "elect_leader lowest_healthy_id s = Some n"
  proof (cases "A = []")
    case True
    then have "lowest_healthy_id B = Some n" using that el none by (simp split: option.splits)
    then show ?thesis using least [OF _ h(2)] True
      by (fastforce simp: A_def B_def filter_empty_conv accepts_work_def)
  next
    case False
    then have "lowest_healthy_id A = Some n" using that el none by (auto split: option.splits)
    then show ?thesis using least [OF _ h(1)]
      by (fastforce simp: A_def accepts_work_def)
  qed
qed

text \<open>
  C5: The leader is always the best choice from the nodes as they are: there is none exactly when no node is
  healthy; otherwise it is a registered, healthy node with a mailbox, a coordinator if any healthy node is
  one, and the lowest id among its equals.
\<close>
theorem leader_is_best_node:
  assumes "reachable least_loaded lowest_healthy_id (new_supervisor c st flt clk mbox) s" "job_rows st = []"
  shows "(leader s = None \<longleftrightarrow> (\<forall>i e. bt_get (nodes s) i = Some e \<longrightarrow> node_status (entry_node e) \<noteq> Healthy)) \<and>
    (\<forall>n. leader s = Some n \<longrightarrow> (\<exists>e. bt_get (nodes s) n = Some e \<and> node_status (entry_node e) = Healthy \<and>
       entry_handle e \<noteq> None \<and>
       (\<forall>i f. bt_get (nodes s) i = Some f \<longrightarrow> node_status (entry_node f) = Healthy \<longrightarrow>
          (has_role (entry_node f) Coordinator \<longrightarrow> has_role (entry_node e) Coordinator \<and> n \<le> i) \<and>
          (\<not> has_role (entry_node e) Coordinator \<longrightarrow> n \<le> i))))"
proof -
  have st: "registry_ok s" "leader s = elect_leader lowest_healthy_id s"
    using fresh_run(2) [OF assms] by (auto simp: steady_def members_ok_def led_def)
  have wf: "bt_wf (nodes s)" using st(1) by (simp add: registry_ok_def)
  have val: "e \<in> set (bt_values (nodes s)) \<longleftrightarrow> bt_get (nodes s) (node_id (entry_node e)) = Some e" for e
    using bt_values_get [OF wf, of e] registryD(1) [OF st(1)] by metis
  have id: "bt_get (nodes s) i = Some e \<Longrightarrow> node_id (entry_node e) = i \<and> e \<in> set (bt_values (nodes s))" for i e
    using registryD(1) [OF st(1)] val by metis
  show ?thesis
  proof (intro conjI allI impI)
    show "leader s = None \<longleftrightarrow> (\<forall>i e. bt_get (nodes s) i = Some e \<longrightarrow> node_status (entry_node e) \<noteq> Healthy)"
      unfolding st(2) elected_leader using id val by metis
  next
    fix n assume "leader s = Some n"
    from elected_leader(2) [OF this [unfolded st(2)]] obtain e
      where e: "e \<in> set (bt_values (nodes s))" "node_id (entry_node e) = n" "node_status (entry_node e) = Healthy"
      and best: "\<And>f. f \<in> set (bt_values (nodes s)) \<Longrightarrow> node_status (entry_node f) = Healthy \<Longrightarrow>
        (has_role (entry_node f) Coordinator \<longrightarrow> has_role (entry_node e) Coordinator \<and> n \<le> node_id (entry_node f)) \<and>
        (\<not> has_role (entry_node e) Coordinator \<longrightarrow> n \<le> node_id (entry_node f))" by blast
    have get: "bt_get (nodes s) n = Some e" using val e(1,2) by blast
    then have "entry_handle e \<noteq> None" using registryD(2) [OF st(1) get] e(3) by (simp add: accepts_work_def)
    then show "\<exists>e. bt_get (nodes s) n = Some e \<and> node_status (entry_node e) = Healthy \<and> entry_handle e \<noteq> None \<and>
       (\<forall>i f. bt_get (nodes s) i = Some f \<longrightarrow> node_status (entry_node f) = Healthy \<longrightarrow>
          (has_role (entry_node f) Coordinator \<longrightarrow> has_role (entry_node e) Coordinator \<and> n \<le> i) \<and>
          (\<not> has_role (entry_node e) Coordinator \<longrightarrow> n \<le> i))"
      using get e(3) best id by (intro exI [of _ e]) metis
  qed
qed

theorem leader_is_best_node_witness:
  "\<exists>s. reachable least_loaded lowest_healthy_id demo_supervisor s \<and>
     (leader s = None \<longleftrightarrow> (\<forall>i e. bt_get (nodes s) i = Some e \<longrightarrow> node_status (entry_node e) \<noteq> Healthy))"
proof -
  obtain s where s: "reachable least_loaded lowest_healthy_id demo_supervisor s" using demo_boots by blast
  then show ?thesis
    using leader_is_best_node [OF s [unfolded demo_supervisor_def] empty_store_jobs, THEN conjunct1] by (intro exI conjI)
qed

end
